(* ===== verification/Prelude.thy ===== *)
theory Prelude
  imports Main "HOL-Library.Word" "HOL-Library.Multiset"
begin

unbundle bit_operations_syntax

text \<open>
  Shared vocabulary of the development: the machine types of the C sources, the
  collections of facts that the component proofs rewrite with, and the generic lemmas on
  lists, buffers and words that more than one component needs.

  The target is x86-64 Linux (LP64): \<open>char\<close> is a signed byte, \<open>int\<close> has 32 bits,
  \<open>long\<close>, \<open>size_t\<close> and \<open>atomic64_t\<close> have 64. A value of C type \<open>char\<close> is kept as
  a \<open>byte\<close> and widened with \<open>scast\<close> (sign extension) where the C code promotes it.
\<close>

type_synonym byte = "8 word"
type_synonym u16 = "16 word"
type_synonym u32 = "32 word"
type_synonym u64 = "64 word"

named_theorems buf_simps \<open>reads and writes of byte buffers\<close>
named_theorems inv_intros \<open>introduction rules of component invariants\<close>
named_theorems frame_simps \<open>fields that an operation leaves alone\<close>

section \<open>Buffers\<close>

text \<open>
  A memory block is the list of its cells; \<open>None\<close> is a cell that was allocated and never
  written (\<open>kmalloc\<close>, \<open>malloc\<close>). A write outside the block is a memory fault: the
  operation has no result.
\<close>

type_synonym block = "byte option list"

definition zalloc_block :: "nat \<Rightarrow> block" where
  "zalloc_block n = replicate n (Some 0)"

definition malloc_block :: "nat \<Rightarrow> block" where
  "malloc_block n = replicate n None"

text \<open>\<open>memcpy(b + off, src, length src)\<close>: faults outside the block.\<close>

definition memcpy_at :: "block \<Rightarrow> nat \<Rightarrow> byte list \<Rightarrow> block option" where
  "memcpy_at b off src =
     (if off + length src \<le> length b
      then Some (take off b @ map Some src @ drop (off + length src) b) else None)"

text \<open>Reading \<open>n\<close> cells from \<open>off\<close>: faults outside the block or on an unwritten cell.\<close>

definition read_block :: "block \<Rightarrow> nat \<Rightarrow> nat \<Rightarrow> byte list option" where
  "read_block b off n =
     (if off + n \<le> length b \<and> list_all (\<lambda>c. c \<noteq> None) (take n (drop off b))
      then Some (map the (take n (drop off b))) else None)"

lemma length_zalloc_block [buf_simps]: "length (zalloc_block n) = n"
  by (simp add: zalloc_block_def)

lemma length_malloc_block [buf_simps]: "length (malloc_block n) = n"
  by (simp add: malloc_block_def)

lemma memcpy_at_Some [buf_simps]:
  "off + length src \<le> length b \<Longrightarrow>
   memcpy_at b off src = Some (take off b @ map Some src @ drop (off + length src) b)"
  by (simp add: memcpy_at_def)

lemma memcpy_at_length: "memcpy_at b off src = Some b' \<Longrightarrow> length b' = length b"
  by (auto simp: memcpy_at_def split: if_splits)

lemma read_after_memcpy [buf_simps]:
  "memcpy_at b off src = Some b' \<Longrightarrow> read_block b' off (length src) = Some src"
  by (auto simp: memcpy_at_def read_block_def list_all_iff comp_def split: if_splits)

lemma read_block_frame:
  assumes "memcpy_at b off src = Some b'"
    and "o' + n \<le> off \<or> off + length src \<le> o'"
  shows "read_block b' o' n = read_block b o' n"
proof -
  from assms(1) have le: "off + length src \<le> length b"
    and b': "b' = take off b @ map Some src @ drop (off + length src) b"
    by (auto simp: memcpy_at_def split: if_splits)
  have "take n (drop o' b') = take n (drop o' b)"
    using assms(2)
  proof
    assume "o' + n \<le> off"
    with le show ?thesis by (simp add: b' take_drop)
  next
    assume "off + length src \<le> o'"
    with le show ?thesis by (simp add: b')
  qed
  moreover have "length b' = length b" using assms(1) by (rule memcpy_at_length)
  ultimately show ?thesis by (simp add: read_block_def)
qed

section \<open>Sublists by position\<close>

text \<open>\<open>segment p i j\<close> is the run of bytes \<open>p[i..j]\<close>, both ends included, as the C code
  passes it (\<open>start\<close>, \<open>end\<close>).\<close>

definition segment :: "'a list \<Rightarrow> nat \<Rightarrow> nat \<Rightarrow> 'a list" where
  "segment p i j = take (Suc j - i) (drop i p)"

lemma length_segment [simp]: "i \<le> Suc j \<Longrightarrow> j < length p \<Longrightarrow> length (segment p i j) = Suc j - i"
  by (simp add: segment_def)

lemma segment_whole [simp]: "p \<noteq> [] \<Longrightarrow> segment p 0 (length p - 1) = p"
  by (simp add: segment_def)

lemma segment_append:
  assumes "i \<le> Suc j" "j < k"
  shows "segment p i j @ segment p (Suc j) k = segment p i k"
proof -
  have "Suc k - i = (Suc j - i) + (Suc k - Suc j)" using assms by simp
  then have "take (Suc k - i) (drop i p) =
      take (Suc j - i) (drop i p) @ take (Suc k - Suc j) (drop (Suc j - i) (drop i p))"
    by (simp only: take_add)
  then show ?thesis using assms by (simp add: segment_def)
qed

lemma segment_snoc:
  "i \<le> j \<Longrightarrow> j < length p \<Longrightarrow> segment p i j = take (j - i) (drop i p) @ [p ! j]"
  by (simp add: segment_def Suc_diff_le take_Suc_conv_app_nth)

lemma segment_hd:
  assumes "i \<le> j" "j < length p"
  shows "segment p i j = p ! i # segment p (Suc i) j"
  using assms by (simp add: segment_def Cons_nth_drop_Suc [symmetric] Suc_diff_le)

section \<open>Unsigned words as integers modulo a divisor of the word size\<close>

text \<open>
  The rolling hashes compute modulo \<open>Q = 2^60\<close> in 64-bit arithmetic that itself wraps
  modulo \<open>2^64\<close>. Since \<open>Q\<close> divides \<open>2^64\<close>, every wrapping operation is exact modulo \<open>Q\<close>.
\<close>

lemma uint_mod_dvd:
  fixes Q a b x :: u64
  assumes "uint Q dvd 2 ^ 64"
  shows "uint (x mod Q) = uint x mod uint Q"
    and "uint (a + b) mod uint Q = (uint a + uint b) mod uint Q"
    and "uint (a - b) mod uint Q = (uint a - uint b) mod uint Q"
    and "uint (a * b) mod uint Q = (uint a * uint b) mod uint Q"
  using assms by (simp_all add: uint_mod uint_word_ariths mod_mod_cancel)

lemma uint_scast_mod:
  fixes Q :: u64 and c :: "'a::len word"
  assumes "uint Q dvd 2 ^ 64"
  shows "uint (scast c :: u64) mod uint Q = sint c mod uint Q"
proof -
  have "uint (word_of_int (sint c) :: u64) mod uint Q = sint c mod uint Q"
    using assms by (simp only: uint_word_of_int) (simp add: mod_mod_cancel)
  then show ?thesis by simp
qed

end
