(* ===== verification/Chunking.thy ===== *)
theory Chunking
  imports Prelude
begin

unbundle bit_operations_syntax

text \<open>
  Content-defined chunking in the kernel modules: \<open>chunk.c\<close> (\<open>pack_hash\<close>,
  \<open>calculate_partition\<close>) and the set-up of its global parameters in \<open>main.c\<close>
  (\<open>init_hash_parameters\<close>). The payload is scanned once with a rolling hash; a position
  whose window hash has its low bits clear is a cut point, and after a cut the scan ignores
  the next \<open>step\<close> positions.

  \<open>poly_hash\<close> and \<open>greedy_cuts\<close> are the reference definitions: the hash of a window as
  a polynomial over the integers, and the choice of cut points from the set of candidate
  positions. The lemmas show that the rolling computation in wrapping 64-bit arithmetic
  visits exactly those cut points, and the locale \<open>content_chunker\<close> states what a client
  may rely on.
\<close>

section \<open>The parameters\<close>

record hash_params =
  hp_RM :: u64
  hp_zero_value :: u64
  hp_zero_num :: nat
  hp_Q :: u64
  hp_R :: u64
  hp_chunk_num :: nat

text \<open>The values the globals have when the module is loaded.\<close>

definition hash_params_globals :: hash_params where
  "hash_params_globals =
     \<lparr>hp_RM = 1, hp_zero_value = 1, hp_zero_num = 6, hp_Q = 1, hp_R = 1048583,
      hp_chunk_num = 32\<rparr>"

definition init_hash_parameters :: "hash_params \<Rightarrow> hash_params" where
  "init_hash_parameters g =
     (let q = ((\<lambda>x. 2 * x) ^^ 60) (hp_Q g);
          rm = ((\<lambda>x. (hp_R g * x) mod q) ^^ (hp_chunk_num g - 1)) (hp_RM g);
          z = ((\<lambda>x. 2 * x) ^^ hp_zero_num g) (hp_zero_value g)
      in g\<lparr>hp_Q := q, hp_RM := rm, hp_zero_value := z - 1\<rparr>)"

definition module_params :: hash_params where
  "module_params = init_hash_parameters hash_params_globals"

section \<open>The hash of a string\<close>

text \<open>
  \<open>pack_hash(key, M, R, Q)\<close>: \<open>R\<close> is an \<open>int\<close>, widened to \<open>unsigned long\<close> by the
  product; a string shorter than \<open>M\<close> or a zero modulus faults.
\<close>

definition pack_hash :: "byte list \<Rightarrow> nat \<Rightarrow> u32 \<Rightarrow> u64 \<Rightarrow> u64 option" where
  "pack_hash key M R Q =
     (if length key < M \<or> Q = 0 then None
      else Some (foldl (\<lambda>h c. (scast R * h + scast c) mod Q) 0 (take M key)))"

section \<open>The partition\<close>

text \<open>\<open>int step = CHUNKSTEP - 1\<close>.\<close>

definition CHUNKSTEP :: nat where "CHUNKSTEP = 32"

definition step :: nat where "step = CHUNKSTEP - 1"

text \<open>One slide of the window: drop \<open>old\<close>, append \<open>new\<close>.\<close>

definition roll_hash :: "hash_params \<Rightarrow> u64 \<Rightarrow> byte \<Rightarrow> byte \<Rightarrow> u64" where
  "roll_hash g h old new =
     (let h1 = (h + hp_Q g - (hp_RM g * scast old) mod hp_Q g) mod hp_Q g
      in (h1 * hp_R g + scast new) mod hp_Q g)"

text \<open>
  The scanning loop; \<open>put\<close> is \<open>kfifo_put\<close> of one position and \<open>f\<close> the state of the
  fifo, both outside this code.
\<close>

function partition_loop ::
  "hash_params \<Rightarrow> byte list \<Rightarrow> nat \<Rightarrow> (nat \<Rightarrow> 'f \<Rightarrow> 'f) \<Rightarrow> nat \<Rightarrow> nat \<Rightarrow> u64 \<Rightarrow> 'f \<Rightarrow> 'f" where
  "partition_loop g p n put i delay_time txthash f =
     (if i < n then
        let txthash' = roll_hash g txthash (p ! (i - hp_chunk_num g)) (p ! i)
        in if delay_time = 0 then
             if txthash' AND hp_zero_value g = 0
             then partition_loop g p n put (Suc i) step txthash' (put i f)
             else partition_loop g p n put (Suc i) 0 txthash' f
           else partition_loop g p n put (Suc i) (delay_time - 1) txthash' f
      else f)"
  by pat_completeness auto
termination
  by (relation "measure (\<lambda>(g, p, n, put, i, d, h, f). n - i)") auto

declare partition_loop.simps [simp del]

definition calculate_partition ::
  "hash_params \<Rightarrow> byte list \<Rightarrow> nat \<Rightarrow> (nat \<Rightarrow> 'f \<Rightarrow> 'f) \<Rightarrow> 'f \<Rightarrow> 'f option" where
  "calculate_partition g playload playload_len put fifo =
     (if length playload < playload_len then None
      else case pack_hash playload (hp_chunk_num g) (ucast (hp_R g)) (hp_Q g) of
        None \<Rightarrow> None
      | Some txthash \<Rightarrow>
          (if txthash AND hp_zero_value g = 0
           then Some (partition_loop g playload playload_len put (hp_chunk_num g) step txthash
                        (put (hp_chunk_num g - 1) fifo))
           else Some (partition_loop g playload playload_len put (hp_chunk_num g) 0 txthash fifo)))"

section \<open>Reference: the polynomial hash of a window\<close>

definition poly_hash :: "int \<Rightarrow> byte list \<Rightarrow> int" where
  "poly_hash r xs = foldl (\<lambda>h c. r * h + sint c) 0 xs"

text \<open>The parameters describe one polynomial hash: \<open>RM\<close> is the weight of the oldest byte.\<close>

definition hp_ok :: "hash_params \<Rightarrow> bool" where
  "hp_ok g \<longleftrightarrow> uint (hp_Q g) dvd 2 ^ 64 \<and> 1 \<le> hp_chunk_num g
     \<and> scast (ucast (hp_R g) :: u32) = hp_R g
     \<and> uint (hp_RM g) mod uint (hp_Q g) =
        uint (hp_R g) ^ (hp_chunk_num g - 1) mod uint (hp_Q g)"

lemma poly_hash_Nil [simp]: "poly_hash r [] = 0"
  by (simp add: poly_hash_def)

lemma poly_hash_snoc [simp]: "poly_hash r (xs @ [c]) = r * poly_hash r xs + sint c"
  by (simp add: poly_hash_def)

lemma poly_hash_Cons: "poly_hash r (c # xs) = sint c * r ^ length xs + poly_hash r xs"
proof (induction xs rule: rev_induct)
  case Nil
  have "poly_hash r ([] @ [c]) = sint c" by (simp only: poly_hash_snoc) simp
  then show ?case by simp
next
  case (snoc x xs)
  have "poly_hash r ((c # xs) @ [x]) = r * poly_hash r (c # xs) + sint x"
    by (rule poly_hash_snoc)
  with snoc show ?case by (simp add: algebra_simps)
qed

lemma poly_hash_slide:
  "poly_hash r (xs @ [d]) = r * (poly_hash r (c # xs) - sint c * r ^ length xs) + sint d"
  by (simp add: poly_hash_Cons)

text \<open>The wrapping loop of \<open>pack_hash\<close> computes the polynomial modulo \<open>Q\<close>.\<close>

lemma horner_mod:
  fixes Q R :: u64
  assumes Q: "uint Q dvd 2 ^ 64"
  shows "uint (foldl (\<lambda>h c. (R * h + scast (c::byte)) mod Q) 0 xs) =
         poly_hash (uint R) xs mod uint Q"
proof (induction xs rule: rev_induct)
  case Nil
  then show ?case by simp
next
  case (snoc c xs)
  let ?h = "foldl (\<lambda>h c. (R * h + scast (c::byte)) mod Q) 0 xs"
  have "uint ((R * ?h + scast c) mod Q) = (uint (R * ?h) mod uint Q + uint (scast c :: u64) mod uint Q) mod uint Q"
    by (simp add: uint_mod_dvd(1,2) [OF Q] mod_add_eq)
  also have "\<dots> = (uint R * (uint ?h mod uint Q) mod uint Q + sint c mod uint Q) mod uint Q"
    by (simp only: uint_mod_dvd(4) [OF Q] uint_scast_mod [OF Q] mod_mult_right_eq)
  also have "\<dots> = (uint R * poly_hash (uint R) xs + sint c) mod uint Q"
    by (simp only: snoc mod_mod_trivial mod_mult_right_eq mod_add_eq)
  finally show ?case by simp
qed

lemma pack_hash_poly:
  assumes "hp_ok g" "hp_chunk_num g \<le> length p"
  shows "\<exists>h. pack_hash p (hp_chunk_num g) (ucast (hp_R g)) (hp_Q g) = Some h
     \<and> uint h = poly_hash (uint (hp_R g)) (take (hp_chunk_num g) p) mod uint (hp_Q g)"
  using assms horner_mod [of "hp_Q g" "hp_R g" "take (hp_chunk_num g) p"]
  by (auto simp: pack_hash_def hp_ok_def)

text \<open>One slide in wrapping arithmetic is one slide of the polynomial.\<close>

lemma roll_hash_poly:
  assumes ok: "hp_ok g"
    and h: "uint h = poly_hash (uint (hp_R g)) (c # xs) mod uint (hp_Q g)"
    and len: "length xs = hp_chunk_num g - 1"
  shows "uint (roll_hash g h c d) = poly_hash (uint (hp_R g)) (xs @ [d]) mod uint (hp_Q g)"
proof -
  let ?Q = "uint (hp_Q g)" and ?R = "uint (hp_R g)" and ?RM = "uint (hp_RM g)"
  from ok have Q: "?Q dvd 2 ^ 64" and RM: "?RM mod ?Q = ?R ^ length xs mod ?Q"
    by (simp_all add: hp_ok_def len)
  let ?t = "(hp_RM g * scast c) mod hp_Q g"
  have t: "uint ?t = sint c * ?R ^ length xs mod ?Q"
  proof -
    have "uint ?t = (?RM mod ?Q) * (uint (scast c :: u64) mod ?Q) mod ?Q"
      by (simp add: uint_mod_dvd(1,4) [OF Q] mod_mult_eq)
    also have "\<dots> = (?R ^ length xs mod ?Q) * (sint c mod ?Q) mod ?Q"
      by (simp only: RM uint_scast_mod [OF Q])
    finally show ?thesis by (simp only: mod_mult_eq mult.commute)
  qed
  let ?h1 = "(h + hp_Q g - ?t) mod hp_Q g"
  have "uint ?h1 = (uint (h + hp_Q g) mod ?Q - uint ?t mod ?Q) mod ?Q"
    by (simp only: uint_mod_dvd(1,3) [OF Q] mod_diff_eq)
  also have "\<dots> = (poly_hash ?R (c # xs) - sint c * ?R ^ length xs) mod ?Q"
    by (simp only: uint_mod_dvd(2) [OF Q] h t) (simp add: mod_diff_eq)
  finally have h1: "uint ?h1 = (poly_hash ?R (c # xs) - sint c * ?R ^ length xs) mod ?Q" .
  have "uint (roll_hash g h c d) =
      (uint (?h1 * hp_R g) mod ?Q + uint (scast d :: u64) mod ?Q) mod ?Q"
    by (simp only: roll_hash_def Let_def uint_mod_dvd(1,2) [OF Q] mod_add_eq)
  also have "\<dots> = ((uint ?h1 mod ?Q) * ?R mod ?Q + sint d mod ?Q) mod ?Q"
    by (simp only: uint_mod_dvd(4) [OF Q] uint_scast_mod [OF Q] mod_mult_left_eq)
  also have "\<dots> = ((poly_hash ?R (c # xs) - sint c * ?R ^ length xs) * ?R + sint d) mod ?Q"
    by (simp only: h1 mod_mod_trivial mod_mult_left_eq mod_add_eq)
  finally show ?thesis
    by (simp only: poly_hash_slide [of ?R xs d c] mult.commute)
qed

section \<open>The parameters of the loaded module\<close>

lemma iterate_double: "((\<lambda>x. 2 * x) ^^ n) (1 :: u64) = 2 ^ n"
  by (induction n) simp_all

lemma iterate_power_mod:
  assumes "uint Q dvd 2 ^ 64"
  shows "uint (((\<lambda>x. (R * x) mod Q) ^^ n) (1 :: u64)) mod uint Q = uint R ^ n mod uint Q"
proof (induction n)
  case 0
  then show ?case by simp
next
  case (Suc n)
  let ?x = "((\<lambda>x. (R * x) mod Q) ^^ n) (1 :: u64)"
  have "uint ((R * ?x) mod Q) mod uint Q = uint R * (uint ?x mod uint Q) mod uint Q"
    by (simp only: uint_mod_dvd(1,4) [OF assms] mod_mod_trivial mod_mult_right_eq)
  also have "\<dots> = uint R ^ Suc n mod uint Q"
    by (simp only: Suc) (simp add: mod_mult_right_eq)
  finally show ?case by simp
qed

lemma module_params_fields [simp]:
  "hp_Q module_params = 2 ^ 60" "hp_R module_params = 1048583"
  "hp_zero_value module_params = 63" "hp_chunk_num module_params = 32"
  by (simp_all add: module_params_def init_hash_parameters_def hash_params_globals_def
      iterate_double Let_def)

lemma module_params_RM:
  "hp_RM module_params = ((\<lambda>x. (1048583 * x) mod 2 ^ 60) ^^ 31) 1"
  by (simp only: module_params_def init_hash_parameters_def hash_params_globals_def
      iterate_double Let_def hash_params.simps) simp

lemma module_params_ok [simp]: "hp_ok module_params"
proof -
  have Q: "uint ((2 :: u64) ^ 60) dvd 2 ^ 64" by simp
  have R: "scast (ucast (1048583 :: u64) :: u32) = (1048583 :: u64)" by simp
  have n: "(32 :: nat) - 1 = 31" by simp
  show ?thesis
    unfolding hp_ok_def module_params_fields module_params_RM n
    by (intro conjI Q R iterate_power_mod) simp
qed

section \<open>Reference: the choice of cut points\<close>

text \<open>From the positions \<open>is\<close>, take every one that satisfies \<open>P\<close>, ignoring the \<open>s\<close>
  positions after each one taken (and the first \<open>d\<close>).\<close>

fun greedy_cuts :: "(nat \<Rightarrow> bool) \<Rightarrow> nat \<Rightarrow> nat \<Rightarrow> nat list \<Rightarrow> nat list" where
  "greedy_cuts P s d [] = []"
| "greedy_cuts P s 0 (i # is) =
     (if P i then i # greedy_cuts P s s is else greedy_cuts P s 0 is)"
| "greedy_cuts P s (Suc d) (i # is) = greedy_cuts P s d is"

definition window_hash :: "hash_params \<Rightarrow> byte list \<Rightarrow> nat \<Rightarrow> int" where
  "window_hash g p i =
     poly_hash (uint (hp_R g)) (segment p (Suc i - hp_chunk_num g) i) mod uint (hp_Q g)"

definition candidate :: "hash_params \<Rightarrow> byte list \<Rightarrow> nat \<Rightarrow> bool" where
  "candidate g p i \<longleftrightarrow> (word_of_int (window_hash g p i) :: u64) AND hp_zero_value g = 0"

definition cut_points :: "hash_params \<Rightarrow> byte list \<Rightarrow> nat \<Rightarrow> nat list" where
  "cut_points g p n = greedy_cuts (candidate g p) step 0 [hp_chunk_num g - 1..<n]"

lemma candidate_word:
  "uint h = window_hash g p i \<Longrightarrow> candidate g p i \<longleftrightarrow> h AND hp_zero_value g = 0"
  by (metis candidate_def word_of_int_uint)

lemma window_roll:
  assumes ok: "hp_ok g" and i: "hp_chunk_num g \<le> i" "i < length p"
    and h: "uint h = window_hash g p (i - 1)"
  shows "uint (roll_hash g h (p ! (i - hp_chunk_num g)) (p ! i)) = window_hash g p i"
proof -
  let ?M = "hp_chunk_num g" and ?a = "i - hp_chunk_num g"
  from ok have M: "1 \<le> ?M" by (simp add: hp_ok_def)
  let ?xs = "segment p (Suc ?a) (i - 1)"
  have len: "length ?xs = ?M - 1" using M i by (cases "?M = 1") (simp_all add: segment_def)
  have "segment p ?a (i - 1) = p ! ?a # ?xs" using M i by (intro segment_hd) auto
  with h M i have h': "uint h = poly_hash (uint (hp_R g)) (p ! ?a # ?xs) mod uint (hp_Q g)"
    by (simp add: window_hash_def)
  have "segment p (Suc ?a) i = ?xs @ [p ! i]"
    using M i by (subst segment_snoc) (auto simp: segment_def)
  with roll_hash_poly [OF ok h' len] i show ?thesis
    by (simp add: window_hash_def Suc_diff_le)
qed

lemma partition_loop_cuts:
  assumes "hp_ok g" "n \<le> length p" "hp_chunk_num g \<le> i"
    and "uint h = window_hash g p (i - 1)"
  shows "partition_loop g p n put i d h f = fold put (greedy_cuts (candidate g p) step d [i..<n]) f"
  using assms
proof (induction g p n put i d h f rule: partition_loop.induct)
  case (1 g p n put i d h f)
  show ?case
  proof (cases "i < n")
    case False
    then show ?thesis by (simp add: partition_loop.simps [of g p n put i])
  next
    case True
    let ?h = "roll_hash g h (p ! (i - hp_chunk_num g)) (p ! i)"
    have h: "uint ?h = window_hash g p i" using "1.prems" True by (intro window_roll) auto
    then have cand: "candidate g p i \<longleftrightarrow> ?h AND hp_zero_value g = 0" by (rule candidate_word)
    have upt: "[i..<n] = i # [Suc i..<n]" using True by (rule upt_conv_Cons)
    show ?thesis
      using "1.IH" "1.prems" True h cand
      by (cases d) (simp_all add: partition_loop.simps [of g p n put i] Let_def upt)
  qed
qed

text \<open>
  The scan of \<open>calculate_partition\<close> puts exactly the reference cut points into the fifo,
  in order, whatever the fifo is.
\<close>

lemma calculate_partition_cuts:
  assumes ok: "hp_ok g" and len: "hp_chunk_num g \<le> n" "n \<le> length p"
  shows "calculate_partition g p n put f = Some (fold put (cut_points g p n) f)"
proof -
  let ?M = "hp_chunk_num g"
  from ok have M: "1 \<le> ?M" by (simp add: hp_ok_def)
  from pack_hash_poly [OF ok, of p] len obtain h where
    ph: "pack_hash p ?M (ucast (hp_R g)) (hp_Q g) = Some h" and
    h: "uint h = poly_hash (uint (hp_R g)) (take ?M p) mod uint (hp_Q g)"
    by auto
  from h M have w: "uint h = window_hash g p (?M - 1)"
    by (simp add: window_hash_def segment_def)
  then have cand: "candidate g p (?M - 1) \<longleftrightarrow> h AND hp_zero_value g = 0" by (rule candidate_word)
  have cuts: "cut_points g p n =
      (if candidate g p (?M - 1) then (?M - 1) # greedy_cuts (candidate g p) step step [?M..<n]
       else greedy_cuts (candidate g p) step 0 [?M..<n])"
    using M len unfolding cut_points_def by (subst upt_conv_Cons) auto
  show ?thesis
    using len cand
    by (simp add: calculate_partition_def ph cuts partition_loop_cuts [OF ok len(2) order.refl w])
qed

section \<open>Properties of the cut points\<close>

lemma greedy_cuts_subset: "set (greedy_cuts P s d is) \<subseteq> {i \<in> set is. P i}"
  by (induction P s d "is" rule: greedy_cuts.induct) auto

lemma greedy_cuts_lower:
  "c \<in> set (greedy_cuts P s d [a..<b]) \<Longrightarrow> a + d \<le> c"
proof (induction "b - a" arbitrary: a d)
  case 0
  then show ?case by simp
next
  case (Suc k)
  then have ab: "[a..<b] = a # [Suc a..<b]" and k: "k = b - Suc a" by (simp_all add: upt_conv_Cons)
  show ?case
    using Suc.prems Suc.hyps(1) [OF k, of s] Suc.hyps(1) [OF k, of 0]
      Suc.hyps(1) [OF k, of "d - 1"] ab
    by (cases d) (auto split: if_splits)
qed

lemma greedy_cuts_spaced:
  "sorted_wrt (\<lambda>x y. x + s < y) (greedy_cuts P s d [a..<b])"
proof (induction "b - a" arbitrary: a d)
  case 0
  then show ?case by simp
next
  case (Suc k)
  then have ab: "[a..<b] = a # [Suc a..<b]" and k: "k = b - Suc a" by (simp_all add: upt_conv_Cons)
  note IH = Suc.hyps(1) [OF k]
  show ?case
  proof (cases d)
    case 0
    have "a + s < c" if "c \<in> set (greedy_cuts P s s [Suc a..<b])" for c
      using greedy_cuts_lower [OF that] by simp
    with 0 ab IH [of s] IH [of 0] show ?thesis by simp
  next
    case (Suc d')
    with ab IH [of d'] show ?thesis by simp
  qed
qed

text \<open>No candidate is missed: it is taken, or lies in the shadow of an earlier cut.\<close>

lemma greedy_cuts_complete:
  assumes "P i" "a \<le> i" "i < b"
  shows "i < a + d \<or> (\<exists>c \<in> set (greedy_cuts P s d [a..<b]). c \<le> i \<and> i \<le> c + s)"
  using assms
proof (induction "b - a" arbitrary: a d)
  case 0
  then show ?case by simp
next
  case (Suc k)
  then have ab: "[a..<b] = a # [Suc a..<b]" and k: "k = b - Suc a" by (simp_all add: upt_conv_Cons)
  show ?case
  proof (cases "i = a")
    case True
    with Suc.prems ab show ?thesis by (cases d) auto
  next
    case False
    then have "Suc a \<le> i" using Suc.prems by simp
    note IH = Suc.hyps(1) [OF k Suc.prems(1) this Suc.prems(3)]
    show ?thesis
    proof (cases d)
      case 0
      show ?thesis using IH [of 0] IH [of s] ab 0 \<open>Suc a \<le> i\<close> by (cases "P a") auto
    next
      case (Suc d')
      with IH [of d'] ab show ?thesis by simp
    qed
  qed
qed

lemma cut_points_range:
  "c \<in> set (cut_points g p n) \<Longrightarrow> hp_chunk_num g - 1 \<le> c \<and> c < n \<and> candidate g p c"
  using greedy_cuts_subset unfolding cut_points_def by fastforce

lemma cut_points_spaced: "sorted_wrt (\<lambda>x y. x + step < y) (cut_points g p n)"
  unfolding cut_points_def by (rule greedy_cuts_spaced)

lemma cut_points_complete:
  "\<lbrakk>candidate g p i; hp_chunk_num g - 1 \<le> i; i < n\<rbrakk> \<Longrightarrow>
   \<exists>c \<in> set (cut_points g p n). c \<le> i \<and> i \<le> c + step"
  using greedy_cuts_complete [of "candidate g p" i "hp_chunk_num g - 1" n 0 step]
  by (auto simp: cut_points_def)

section \<open>Chunks: what a client of the chunker relies on\<close>

text \<open>The chunks \<open>(start, end)\<close> that a list of cut points leaves of a payload of length \<open>n\<close>:
  one up to and including every cut, and the rest.\<close>

fun chunks_from :: "nat \<Rightarrow> nat list \<Rightarrow> nat \<Rightarrow> (nat \<times> nat) list" where
  "chunks_from s [] n = (if s < n then [(s, n - 1)] else [])"
| "chunks_from s (c # cs) n = (s, c) # chunks_from (Suc c) cs n"

lemma chunks_from_cover:
  assumes "sorted_wrt (<) cs" "\<forall>c \<in> set cs. s \<le> c \<and> c < length p" "s \<le> length p"
  shows "concat (map (\<lambda>(i, j). segment p i j) (chunks_from s cs (length p))) = drop s p"
  using assms
proof (induction cs arbitrary: s)
  case Nil
  then show ?case by (auto simp: segment_def)
next
  case (Cons c cs)
  have "concat (map (\<lambda>(i, j). segment p i j) (chunks_from (Suc c) cs (length p))) = drop (Suc c) p"
    using Cons.prems by (intro Cons.IH) auto
  moreover have "drop s p = take (Suc c - s) (drop s p) @ drop (Suc c) p"
    using Cons.prems append_take_drop_id [of "Suc c - s" "drop s p"] by simp
  ultimately show ?case by (simp add: segment_def)
qed

lemma chunks_from_lengths:
  assumes "sorted_wrt (\<lambda>x y. x + k < y) cs" "\<forall>c \<in> set cs. s + k \<le> c"
    and "(i, j) \<in> set (chunks_from s cs n)"
  shows "i \<le> j \<and> (k < j + 1 - i \<or> j = n - 1)"
  using assms
proof (induction cs arbitrary: s)
  case Nil
  then show ?case by (auto split: if_splits)
next
  case (Cons c cs)
  show ?case
  proof (cases "(i, j) = (s, c)")
    case True
    with Cons.prems show ?thesis by auto
  next
    case False
    have "\<forall>d \<in> set cs. Suc c + k \<le> d" using Cons.prems(1) by auto
    moreover have "(i, j) \<in> set (chunks_from (Suc c) cs n)" using False Cons.prems(3) by auto
    ultimately show ?thesis using Cons.prems(1) by (intro Cons.IH) auto
  qed
qed

locale content_chunker =
  fixes cuts :: "byte list \<Rightarrow> nat list"
    and gap :: nat
  assumes cuts_bound: "c \<in> set (cuts p) \<Longrightarrow> gap \<le> c \<and> c < length p"
    and cuts_spaced: "sorted_wrt (\<lambda>x y. x + gap < y) (cuts p)"
begin

lemma cuts_increasing: "sorted_wrt (<) (cuts p)"
  by (rule sorted_wrt_mono_rel [OF _ cuts_spaced]) auto

lemma chunks_cover:
  "concat (map (\<lambda>(i, j). segment p i j) (chunks_from 0 (cuts p) (length p))) = p"
  using chunks_from_cover [of "cuts p" 0 p] cuts_increasing cuts_bound by auto

lemma chunk_min_length:
  assumes "(i, j) \<in> set (chunks_from 0 (cuts p) (length p))"
  shows "i \<le> j \<and> (gap < j + 1 - i \<or> j = length p - 1)"
  using chunks_from_lengths [OF cuts_spaced _ assms] cuts_bound by auto

end

text \<open>The kernel chunker provides this interface, with the window as the minimal first chunk.\<close>

definition kernel_cuts :: "hash_params \<Rightarrow> byte list \<Rightarrow> nat list" where
  "kernel_cuts g p = cut_points g p (length p)"

interpretation kc: content_chunker "kernel_cuts module_params" step
proof
  fix c p
  assume "c \<in> set (kernel_cuts module_params p)"
  from cut_points_range [OF this [unfolded kernel_cuts_def]]
  show "step \<le> c \<and> c < length p" by (simp add: step_def CHUNKSTEP_def)
next
  fix p
  show "sorted_wrt (\<lambda>x y. x + step < y) (kernel_cuts module_params p)"
    unfolding kernel_cuts_def by (rule cut_points_spaced)
qed

section \<open>The module's chunker\<close>

text \<open>
  (C6) With the parameters of the loaded module, \<open>calculate_partition\<close> puts into the fifo
  exactly the reference cut points of the payload, in order: the positions whose 32-byte window
  has a polynomial hash with its low six bits clear, at least 32 apart. The rolling computation
  in wrapping 64-bit arithmetic loses nothing.
\<close>

theorem calculate_partition_correct:
  assumes "32 \<le> n" "n \<le> length p"
  shows "calculate_partition module_params p n put f = Some (fold put (cut_points module_params p n) f)"
  using calculate_partition_cuts [OF module_params_ok] assms by simp

lemma zero_window: "window_hash module_params (replicate 32 0) 31 = 0"
proof -
  have "poly_hash r (replicate k 0) = 0" for r k
    by (induction k) (simp_all add: poly_hash_Cons)
  then show ?thesis by (simp add: window_hash_def segment_def)
qed

lemma zero_cuts: "cut_points module_params (replicate 32 0) 32 = [31]"
  by (simp add: cut_points_def candidate_def zero_window upt_rec)

theorem calculate_partition_witness:
  "calculate_partition module_params (replicate 32 0) 32 (\<lambda>i f. f @ [i]) [] = Some [31]"
  using calculate_partition_correct [of 32 "replicate 32 0" "\<lambda>i f. f @ [i]" "[]"] zero_cuts by simp

text \<open>
  The cut points are a maximal spaced choice: each is a candidate position, consecutive cuts
  are more than \<open>step\<close> apart, and every candidate position of the payload is a cut or follows
  one within \<open>step\<close> bytes, so no boundary is skipped for another reason than the minimum
  chunk length.
\<close>

theorem cut_points_spec:
  "sorted_wrt (\<lambda>x y. x + step < y) (cut_points g p n)
   \<and> (\<forall>c \<in> set (cut_points g p n). hp_chunk_num g - 1 \<le> c \<and> c < n \<and> candidate g p c)
   \<and> (\<forall>i. candidate g p i \<and> hp_chunk_num g - 1 \<le> i \<and> i < n \<longrightarrow>
        (\<exists>c \<in> set (cut_points g p n). c \<le> i \<and> i \<le> c + step))"
  using cut_points_spaced cut_points_range cut_points_complete by blast

theorem cut_points_spec_witness:
  "candidate module_params (replicate 32 0) 31 \<and> set (cut_points module_params (replicate 32 0) 32) = {31}"
  using cut_points_spec [of module_params "replicate 32 0" 32] by (simp add: zero_cuts)

end
