(* ===== verification/Hash_Jen.thy ===== *)
theory Hash_Jen
  imports Prelude
begin

unbundle bit_operations_syntax

text \<open>
  The bucket function of both kernel modules: the macros \<open>HASH_JEN_MIX\<close> and
  \<open>HASH_JEN\<close> (\<open>HASH_FCN\<close>) of \<open>hash_table.h\<close>, Jenkins' hash on 32-bit words, and the
  lock array of \<open>hash_lock.h\<close>. The table has \<open>2^20\<close> buckets guarded by \<open>2^10\<close>
  read-write locks; the lemmas show that a bucket index is in range and that the lock taken
  for a full hash value is the lock taken for its bucket.
\<close>

section \<open>The hash\<close>

text \<open>\<open>>>\<close> on \<open>unsigned\<close> is the logical shift \<open>drop_bit\<close>, \<open><<\<close> is \<open>push_bit\<close>.\<close>

definition HASH_JEN_MIX :: "u32 \<times> u32 \<times> u32 \<Rightarrow> u32 \<times> u32 \<times> u32" where
  "HASH_JEN_MIX = (\<lambda>(a, b, c).
     let a = (a - b - c) XOR drop_bit 13 c;
         b = (b - c - a) XOR push_bit 8 a;
         c = (c - a - b) XOR drop_bit 13 b;
         a = (a - b - c) XOR drop_bit 12 c;
         b = (b - c - a) XOR push_bit 16 a;
         c = (c - a - b) XOR drop_bit 5 b;
         a = (a - b - c) XOR drop_bit 3 c;
         b = (b - c - a) XOR push_bit 10 a;
         c = (c - a - b) XOR drop_bit 15 b
     in (a, b, c))"

text \<open>Four bytes of the key, little end first.\<close>

definition hj_word :: "byte list \<Rightarrow> nat \<Rightarrow> u32" where
  "hj_word key o4 = ucast (key ! o4) + push_bit 8 (ucast (key ! (o4 + 1)))
     + push_bit 16 (ucast (key ! (o4 + 2))) + push_bit 24 (ucast (key ! (o4 + 3)))"

text \<open>The \<open>while (_hj_k >= 12U)\<close> loop: \<open>(i, j, hashv)\<close> and the rest of the key.\<close>

fun hj_loop :: "u32 \<times> u32 \<times> u32 \<Rightarrow> byte list \<Rightarrow> (u32 \<times> u32 \<times> u32) \<times> byte list" where
  "hj_loop (i, j, h) key =
     (if 12 \<le> length key
      then hj_loop (HASH_JEN_MIX (i + hj_word key 0, j + hj_word key 4, h + hj_word key 8))
             (drop 12 key)
      else ((i, j, h), key))"

declare hj_loop.simps [simp del]

text \<open>The fall-through \<open>switch\<close>: byte \<open>m\<close> of the rest is added when at least \<open>m + 1\<close>
  bytes are left.\<close>

definition hj_tail :: "byte list \<Rightarrow> nat \<Rightarrow> nat \<Rightarrow> u32" where
  "hj_tail key m sh = (if m < length key then push_bit sh (ucast (key ! m)) else 0)"

definition HASH_JEN :: "byte list \<Rightarrow> u32 \<Rightarrow> u32 \<times> u32" where
  "HASH_JEN key num_bkts =
     (case hj_loop (0x9e3779b9, 0x9e3779b9, 0xfeedbeef) key of ((i, j, h), rest) \<Rightarrow>
       (let h = h + word_of_nat (length key);
            h = h + hj_tail rest 10 24 + hj_tail rest 9 16 + hj_tail rest 8 8;
            j = j + hj_tail rest 7 24 + hj_tail rest 6 16 + hj_tail rest 5 8 + hj_tail rest 4 0;
            i = i + hj_tail rest 3 24 + hj_tail rest 2 16 + hj_tail rest 1 8 + hj_tail rest 0 0
        in case HASH_JEN_MIX (i, j, h) of (_, _, hashv) \<Rightarrow>
             (hashv, hashv AND (num_bkts - 1))))"

section \<open>Buckets and locks\<close>

definition WS_SP_HASH_TABLE_BITS :: nat where "WS_SP_HASH_TABLE_BITS = 20"

definition hash_tab_size :: u32 where "hash_tab_size = push_bit WS_SP_HASH_TABLE_BITS 1"

definition CT_LOCKARRAY_BITS :: nat where "CT_LOCKARRAY_BITS = 10"

definition CT_LOCKARRAY_MASK :: u32 where "CT_LOCKARRAY_MASK = push_bit CT_LOCKARRAY_BITS 1 - 1"

text \<open>The element of the lock array that \<open>ct_read_lock_bh\<close> and \<open>ct_write_lock_bh\<close> take.\<close>

definition ct_lock_index :: "u32 \<Rightarrow> u32" where
  "ct_lock_index key = key AND CT_LOCKARRAY_MASK"

definition hash_of :: "byte list \<Rightarrow> u32" where
  "hash_of key = fst (HASH_JEN key hash_tab_size)"

definition bucket_of :: "byte list \<Rightarrow> nat" where
  "bucket_of key = unat (snd (HASH_JEN key hash_tab_size))"

lemma hash_tab_size_val: "hash_tab_size = 1048576"
  by (simp add: hash_tab_size_def WS_SP_HASH_TABLE_BITS_def push_bit_eq_mult)

lemma CT_LOCKARRAY_MASK_val: "CT_LOCKARRAY_MASK = 1023"
  by (simp add: CT_LOCKARRAY_MASK_def CT_LOCKARRAY_BITS_def push_bit_eq_mult)

lemma HASH_JEN_bucket: "snd (HASH_JEN key n) = fst (HASH_JEN key n) AND (n - 1)"
  by (simp add: HASH_JEN_def Let_def split: prod.splits)

lemma bucket_of_less: "bucket_of key < 2 ^ 20"
proof -
  have "snd (HASH_JEN key hash_tab_size) \<le> (1048575 :: u32)"
    by (simp add: HASH_JEN_bucket hash_tab_size_val word_and_le1)
  then show ?thesis
    by (simp add: bucket_of_def word_le_nat_alt)
qed

lemma lock_index_bucket:
  "ct_lock_index (word_of_nat (bucket_of key)) = ct_lock_index (hash_of key)"
proof -
  have "(0xFFFFF :: u32) AND 0x3FF = 0x3FF" by simp
  then show ?thesis
    by (simp add: ct_lock_index_def bucket_of_def hash_of_def HASH_JEN_bucket hash_tab_size_val
        CT_LOCKARRAY_MASK_val and.assoc)
qed

text \<open>
  Readers and writers agree on the lock of a bucket: \<open>get_hash_item\<close> locks with the full
  hash, \<open>_hash\<close>, \<open>_unhash\<close> and the bucket timer with the bucket number, and both select
  the same element of the lock array.
\<close>

theorem same_lock: "ct_lock_index (word_of_nat (bucket_of key)) = ct_lock_index (hash_of key)"
  by (rule lock_index_bucket)

end
