(* ===== verification/Bitmap.thy ===== *)
theory Bitmap
  imports Prelude
begin

unbundle bit_operations_syntax

text \<open>
  The allocation bitmap of the on-disk chunk store: \<open>kernel_hash/bitmap.c\<close>. One bit stands
  for \<open>CHUNKSIZE\<close> bytes of a per-CPU file. A bitmap is the function from bit numbers to
  bits; \<open>find_next_bit\<close> and \<open>find_next_zero_bit\<close> are the kernel's search routines, with
  their documented result (the first such bit at or after \<open>start\<close>, or \<open>size\<close>).
\<close>

type_synonym bits = "nat \<Rightarrow> bool"

section \<open>Searching\<close>

function find_next_bit :: "bits \<Rightarrow> nat \<Rightarrow> nat \<Rightarrow> nat" where
  "find_next_bit m sz start =
     (if sz \<le> start then sz else if m start then start else find_next_bit m sz (Suc start))"
  by pat_completeness auto
termination
  by (relation "measure (\<lambda>(m, sz, start). sz - start)") auto

declare find_next_bit.simps [simp del]

definition find_next_zero_bit :: "bits \<Rightarrow> nat \<Rightarrow> nat \<Rightarrow> nat" where
  "find_next_zero_bit m = find_next_bit (\<lambda>i. \<not> m i)"

lemma find_next_bit_le: "find_next_bit m sz start \<le> sz"
  by (induction m sz start rule: find_next_bit.induct) (subst find_next_bit.simps, auto)

lemma find_next_bit_ge: "start \<le> sz \<Longrightarrow> start \<le> find_next_bit m sz start"
proof (induction m sz start rule: find_next_bit.induct)
  case (1 m sz start)
  then show ?case by (auto simp: find_next_bit.simps [of m sz start])
qed

lemma find_next_bit_found: "find_next_bit m sz start < sz \<Longrightarrow> m (find_next_bit m sz start)"
proof (induction m sz start rule: find_next_bit.induct)
  case (1 m sz start)
  then show ?case by (auto simp: find_next_bit.simps [of m sz start] split: if_splits)
qed

lemma find_next_bit_first: "start \<le> i \<Longrightarrow> i < find_next_bit m sz start \<Longrightarrow> \<not> m i"
proof (induction m sz start rule: find_next_bit.induct)
  case (1 m sz start)
  show ?case
  proof (cases "sz \<le> start \<or> m start")
    case True
    with "1.prems" find_next_bit_le [of m sz start] show ?thesis
      by (auto simp: find_next_bit.simps [of m sz start] split: if_splits)
  next
    case False
    with 1 show ?thesis
      by (cases "i = start") (auto simp: find_next_bit.simps [of m sz start])
  qed
qed

lemma find_next_bit_skip: "m i \<Longrightarrow> start \<le> i \<Longrightarrow> find_next_bit m sz start \<le> i"
  using find_next_bit_first [of start i m sz] by fastforce

section \<open>Aligned areas\<close>

text \<open>\<open>__ALIGN_MASK(x, msk)\<close>: \<open>(x + msk) & ~msk\<close>.\<close>

definition ALIGN_MASK :: "nat \<Rightarrow> nat \<Rightarrow> nat" where
  "ALIGN_MASK x msk = (x + msk) - ((x + msk) AND msk)"

lemma ALIGN_MASK_div: "ALIGN_MASK x (mask k) = (x + mask k) div 2 ^ k * 2 ^ k"
proof -
  have "(x + mask k) AND mask k = (x + mask k) mod 2 ^ k"
    by (simp flip: take_bit_eq_mask take_bit_eq_mod)
  then show ?thesis
    by (simp add: ALIGN_MASK_def minus_mod_eq_div_mult)
qed

lemma ALIGN_MASK_dvd: "2 ^ k dvd ALIGN_MASK x (mask k)"
  by (simp add: ALIGN_MASK_div)

lemma ALIGN_MASK_least:
  assumes "2 ^ k dvd a" "x \<le> a"
  shows "ALIGN_MASK x (mask k) \<le> a"
proof -
  obtain q where a: "a = q * 2 ^ k" using assms(1) by (metis dvdE mult.commute)
  have "(x + mask k) div 2 ^ k \<le> (a + mask k) div 2 ^ k"
    using assms(2) by (intro div_le_mono) simp
  also have "\<dots> = q"
  proof -
    have "(mask k :: nat) < 2 ^ k" by (simp add: mask_eq_exp_minus_1)
    then show ?thesis by (simp add: a)
  qed
  finally show ?thesis by (simp add: ALIGN_MASK_div a)
qed

section \<open>\<open>bitmap_find_next_zero_area\<close>\<close>

lemma ALIGN_MASK_ge': "x \<le> ALIGN_MASK x msk"
proof -
  have "int ((x + msk) AND msk) \<le> int msk" by (simp only: of_nat_and_eq AND_upper2 of_nat_0_le_iff)
  then show ?thesis by (simp add: ALIGN_MASK_def)
qed

lemma area_progress:
  assumes "index = ALIGN_MASK (find_next_zero_bit m sz start) msk" "index + nr \<le> sz"
    and "find_next_bit m (index + nr) index < index + nr"
  shows "start \<le> index \<and> index \<le> find_next_bit m (index + nr) index \<and> start < sz"
proof -
  let ?z = "find_next_zero_bit m sz start"
  have le: "?z \<le> index" using assms(1) ALIGN_MASK_ge' by simp
  have i: "index \<le> find_next_bit m (index + nr) index" by (rule find_next_bit_ge) simp
  with assms(2,3) le have "?z < sz" by simp
  then have "start < sz"
    by (auto simp: find_next_zero_bit_def find_next_bit.simps [of _ sz start] split: if_splits)
  moreover have "start \<le> ?z"
    using find_next_bit_ge [of start sz] \<open>start < sz\<close> by (simp add: find_next_zero_bit_def)
  ultimately show ?thesis using le i by simp
qed

text \<open>The \<open>goto again\<close> loop: each round restarts past a set bit.\<close>

function bitmap_find_next_zero_area :: "bits \<Rightarrow> nat \<Rightarrow> nat \<Rightarrow> nat \<Rightarrow> nat \<Rightarrow> nat" where
  "bitmap_find_next_zero_area m sz start nr align_mask =
     (let index = ALIGN_MASK (find_next_zero_bit m sz start) align_mask;
          end = index + nr
      in if sz < end then end
         else let i = find_next_bit m end index
              in if i < end then bitmap_find_next_zero_area m sz (Suc i) nr align_mask
                 else index)"
  by pat_completeness auto

termination
proof (relation "measure (\<lambda>(m, sz, start, nr, a). sz - start)", goal_cases)
  case 1
  then show ?case by simp
next
  case (2 m sz start nr msk index e i)
  have "start \<le> index \<and> index \<le> i \<and> start < sz"
    using area_progress [OF 2(1), of nr] 2(2-5) by simp
  then show ?case by auto
qed

declare bitmap_find_next_zero_area.simps [simp del]

text \<open>
  Soundness: a result within the bitmap is an aligned run of \<open>nr\<close> clear bits at or after
  \<open>start\<close>. Completeness: an area that exists is not missed, and the first one is returned.
\<close>

definition zero_area :: "bits \<Rightarrow> nat \<Rightarrow> nat \<Rightarrow> nat \<Rightarrow> nat \<Rightarrow> nat \<Rightarrow> bool" where
  "zero_area m sz start nr k a \<longleftrightarrow>
     start \<le> a \<and> a + nr \<le> sz \<and> 2 ^ k dvd a \<and> (\<forall>i \<in> {a..<a + nr}. \<not> m i)"

lemma area_sound:
  assumes "start \<le> sz" "bitmap_find_next_zero_area m sz start nr (mask k) \<le> sz"
  shows "zero_area m sz start nr k (bitmap_find_next_zero_area m sz start nr (mask k))"
  using assms
proof (induction m sz start nr "mask k :: nat" rule: bitmap_find_next_zero_area.induct)
  case (1 m sz start nr)
  define index where "index = ALIGN_MASK (find_next_zero_bit m sz start) (mask k)"
  define i where "i = find_next_bit m (index + nr) index"
  note unfold = bitmap_find_next_zero_area.simps [of m sz start nr "mask k", folded index_def]
  have le: "\<not> sz < index + nr" using "1.prems"(2) by (auto simp: unfold Let_def split: if_splits)
  show ?case
  proof (cases "i < index + nr")
    case True
    have pr: "start \<le> index \<and> index \<le> i \<and> start < sz"
      using area_progress [OF index_def, of nr] le True by (simp add: i_def)
    have eq: "bitmap_find_next_zero_area m sz start nr (mask k) =
        bitmap_find_next_zero_area m sz (Suc i) nr (mask k)"
      using True le by (simp add: unfold Let_def flip: i_def)
    have "zero_area m sz (Suc i) nr k (bitmap_find_next_zero_area m sz (Suc i) nr (mask k))"
      using "1.hyps" [OF index_def refl le, of i] True "1.prems" le eq by (simp add: i_def)
    with pr eq show ?thesis by (auto simp: zero_area_def)
  next
    case False
    have eq: "bitmap_find_next_zero_area m sz start nr (mask k) = index"
      using False le by (simp add: unfold Let_def flip: i_def)
    have "start \<le> find_next_zero_bit m sz start"
      using "1.prems"(1) by (simp add: find_next_zero_bit_def find_next_bit_ge)
    also have "\<dots> \<le> index" unfolding index_def by (rule ALIGN_MASK_ge')
    finally have "start \<le> index" .
    moreover have "\<not> m j" if "j \<in> {index..<index + nr}" for j
      using that False find_next_bit_first [of index j m "index + nr"] by (simp add: i_def)
    ultimately show ?thesis
      using le ALIGN_MASK_dvd by (simp add: eq zero_area_def index_def)
  qed
qed

lemma area_complete:
  assumes "zero_area m sz start nr k a" "0 < nr"
  shows "bitmap_find_next_zero_area m sz start nr (mask k) \<le> a"
  using assms
proof (induction m sz start nr "mask k :: nat" rule: bitmap_find_next_zero_area.induct)
  case (1 m sz start nr)
  define index where "index = ALIGN_MASK (find_next_zero_bit m sz start) (mask k)"
  define i where "i = find_next_bit m (index + nr) index"
  note unfold = bitmap_find_next_zero_area.simps [of m sz start nr "mask k", folded index_def]
  from "1.prems" have a: "start \<le> a" "a + nr \<le> sz" "2 ^ k dvd a" "\<forall>i \<in> {a..<a + nr}. \<not> m i"
    by (simp_all add: zero_area_def)
  then have "\<not> m a" using "1.prems"(2) by simp
  then have "find_next_zero_bit m sz start \<le> a"
    using a(1) unfolding find_next_zero_bit_def by (rule find_next_bit_skip)
  then have ia: "index \<le> a" unfolding index_def by (rule ALIGN_MASK_least [OF a(3)])
  with a(2) have le: "\<not> sz < index + nr" by simp
  show ?case
  proof (cases "i < index + nr")
    case True
    then have "m i" unfolding i_def by (rule find_next_bit_found)
    then have "Suc i \<le> a" using a(4) ia True by force
    with "1.prems" a have "zero_area m sz (Suc i) nr k a" by (simp add: zero_area_def)
    then have "bitmap_find_next_zero_area m sz (Suc i) nr (mask k) \<le> a"
      using "1.hyps" [OF index_def refl le, of i] True "1.prems"(2) by (simp add: i_def)
    with True le show ?thesis by (simp add: unfold Let_def flip: i_def)
  next
    case False
    with le ia show ?thesis by (simp add: unfold Let_def flip: i_def)
  qed
qed

text \<open>The search of the write-back path: no alignment, everything from \<open>start\<close> on is clear.\<close>

lemma area_at_start:
  assumes "\<forall>i \<ge> start. \<not> m i" "start + nr \<le> sz" "0 < nr"
  shows "bitmap_find_next_zero_area m sz start nr 0 = start"
proof -
  have "zero_area m sz start nr 0 start" using assms by (simp add: zero_area_def)
  from area_complete [OF this assms(3)]
  have le: "bitmap_find_next_zero_area m sz start nr 0 \<le> start" by simp
  with area_sound [of start sz m nr 0] assms(2)
  have "start \<le> bitmap_find_next_zero_area m sz start nr 0" by (simp add: zero_area_def)
  with le show ?thesis by simp
qed

section \<open>First fit\<close>

text \<open>
  \<open>bitmap_find_next_zero_area\<close> is a first-fit search: it returns the first aligned run of
  \<open>nr\<close> clear bits at or after \<open>start\<close> that ends within the bitmap, and a number beyond
  the bitmap exactly when there is none.
\<close>

theorem zero_area_first_fit:
  assumes "start \<le> sz" "0 < nr" "r = bitmap_find_next_zero_area m sz start nr (mask k)"
  shows "if \<exists>a. zero_area m sz start nr k a
    then zero_area m sz start nr k r \<and> (\<forall>a. zero_area m sz start nr k a \<longrightarrow> r \<le> a) else sz < r"
proof -
  have sound: "r \<le> sz \<Longrightarrow> zero_area m sz start nr k r" using area_sound assms by blast
  have least: "zero_area m sz start nr k a \<Longrightarrow> r \<le> a" for a using area_complete assms(2,3) by blast
  have "zero_area m sz start nr k a \<Longrightarrow> r \<le> sz" for a using least by (fastforce simp: zero_area_def)
  then show ?thesis using sound least by force
qed

theorem zero_area_first_fit_witness:
  "zero_area (\<lambda>i. i < 3) 20 0 2 0 (bitmap_find_next_zero_area (\<lambda>i. i < 3) 20 0 2 0)
   \<and> bitmap_find_next_zero_area (\<lambda>i. i < 3) 20 0 2 0 \<le> 3"
proof -
  have "zero_area (\<lambda>i. i < 3) 20 0 2 0 3" by (simp add: zero_area_def)
  then show ?thesis
    using zero_area_first_fit [of 0 20 2 _ "\<lambda>i. i < 3" 0, OF _ _ refl] by (auto split: if_splits)
qed

end
