(* ===== verification/List_Sort.thy ===== *)
theory List_Sort
  imports Prelude
begin

text \<open>
  The merge sort on \<open>list_head\<close> rings: \<open>kernel_hash/sort.c\<close>. A null-terminated chain is
  the list of its nodes (\<open>NULL\<close> is \<open>[]\<close>); the ring that \<open>list_sort\<close> leaves behind is the
  pair of its link fields. \<open>cmp\<close> is the client's comparison.

  For any comparison at all the result is a permutation linked into a well-formed ring; the
  locale \<open>comparator\<close> names what \<open>cmp\<close> has to satisfy for the result to be sorted, and
  stability needs no more than the same.
\<close>

section \<open>\<open>merge\<close>\<close>

fun merge :: "('a \<Rightarrow> 'a \<Rightarrow> int) \<Rightarrow> 'a list \<Rightarrow> 'a list \<Rightarrow> 'a list" where
  "merge cmp (a # as) (b # bs) =
     (if cmp a b \<le> 0 then a # merge cmp as (b # bs) else b # merge cmp (a # as) bs)"
| "merge cmp [] bs = bs"
| "merge cmp as [] = as"

lemma merge_induct [case_names both left right]:
  fixes cmp :: "'a \<Rightarrow> 'a \<Rightarrow> int"
  assumes "\<And>a as b bs. (cmp a b \<le> 0 \<Longrightarrow> P as (b # bs)) \<Longrightarrow> (\<not> cmp a b \<le> 0 \<Longrightarrow> P (a # as) bs) \<Longrightarrow>
      P (a # as) (b # bs)"
    and "\<And>bs. P [] bs" and "\<And>as. P as []"
  shows "P as bs"
  using assms by (induction cmp as bs rule: merge.induct) blast+

lemma merge_Nil2 [simp]: "merge cmp as [] = as"
  by (cases as) simp_all

lemma mset_merge [simp]: "mset (merge cmp as bs) = mset as + mset bs"
  by (induction cmp as bs rule: merge.induct) auto

lemma set_merge [simp]: "set (merge cmp as bs) = set as \<union> set bs"
  by (metis mset_merge set_mset_mset set_mset_union)

lemma merge_eq_Nil [simp]: "merge cmp as bs = [] \<longleftrightarrow> as = [] \<and> bs = []"
  by (induction cmp as bs rule: merge.induct) auto

section \<open>\<open>list_sort\<close>: the levels\<close>

definition MAX_LIST_LENGTH_BITS :: nat where "MAX_LIST_LENGTH_BITS = 20"

text \<open>\<open>for (lev = 0; part[lev]; lev++)\<close>: merge into the first empty slot. The slots are
  given from \<open>lev\<close> on; the loop leaves the merged chain, the slot's number and the slots.\<close>

fun merge_up :: "('a \<Rightarrow> 'a \<Rightarrow> int) \<Rightarrow> 'a list list \<Rightarrow> nat \<Rightarrow> 'a list \<Rightarrow> 'a list \<times> nat \<times> 'a list list" where
  "merge_up cmp [] lev cur = (cur, lev, [])"
| "merge_up cmp (p # ps) lev cur =
     (if p = [] then (cur, lev, p # ps)
      else case merge_up cmp ps (Suc lev) (merge cmp p cur) of (c, l, qs) \<Rightarrow> (c, l, [] # qs))"

text \<open>One round of \<open>while (list)\<close>: the node \<open>cur\<close>, the slots and \<open>max_lev\<close>.\<close>

definition sort_round :: "('a \<Rightarrow> 'a \<Rightarrow> int) \<Rightarrow> 'a list list \<times> nat \<Rightarrow> 'a \<Rightarrow> 'a list list \<times> nat" where
  "sort_round cmp = (\<lambda>(part, max_lev) cur.
     case merge_up cmp part 0 [cur] of (c, lev, part') \<Rightarrow>
       if max_lev < lev
       then let lev = (if length part - 1 \<le> lev then lev - 1 else lev) in (part'[lev := c], lev)
       else (part'[lev := c], max_lev))"

text \<open>\<open>for (lev = 0; lev < max_lev; lev++) list = merge(part[lev], list)\<close>.\<close>

definition merge_down :: "('a \<Rightarrow> 'a \<Rightarrow> int) \<Rightarrow> 'a list list \<Rightarrow> 'a list" where
  "merge_down cmp ps = fold (\<lambda>p list. if p = [] then list else merge cmp p list) ps []"

section \<open>\<open>merge_and_restore_back_links\<close>\<close>

record 'n links =
  nxt :: "'n \<Rightarrow> 'n"
  prv :: "'n \<Rightarrow> 'n"

definition set_link :: "'n \<Rightarrow> 'n \<Rightarrow> 'n links \<Rightarrow> 'n links" where
  "set_link tail x l = l\<lparr>nxt := (nxt l)(tail := x), prv := (prv l)(x := tail)\<rparr>"

text \<open>The final merge: every node taken is linked behind \<open>tail\<close>; when one chain is empty the
  rest of the other keeps its order and gets its back links; the last node closes the ring.\<close>

fun merge_and_restore_back_links ::
  "('n \<Rightarrow> 'n \<Rightarrow> int) \<Rightarrow> 'n \<Rightarrow> 'n \<Rightarrow> 'n list \<Rightarrow> 'n list \<Rightarrow> 'n links \<Rightarrow> 'n links" where
  "merge_and_restore_back_links cmp head tail (a # as) (b # bs) l =
     (if cmp a b \<le> 0
      then merge_and_restore_back_links cmp head a as (b # bs) (set_link tail a l)
      else merge_and_restore_back_links cmp head b (a # as) bs (set_link tail b l))"
| "merge_and_restore_back_links cmp head tail [] [] l = set_link tail head l"
| "merge_and_restore_back_links cmp head tail (a # as) [] l =
     merge_and_restore_back_links cmp head a as [] (set_link tail a l)"
| "merge_and_restore_back_links cmp head tail [] (b # bs) l =
     merge_and_restore_back_links cmp head b [] bs (set_link tail b l)"

text \<open>\<open>list_sort\<close> of the ring \<open>head, xs\<close>: an empty list is left alone.\<close>

definition list_sort_parts :: "('a \<Rightarrow> 'a \<Rightarrow> int) \<Rightarrow> 'a list \<Rightarrow> 'a list \<times> 'a list" where
  "list_sort_parts cmp xs =
     (case foldl (sort_round cmp) (replicate (MAX_LIST_LENGTH_BITS + 1) [], 0) xs of
        (part, max_lev) \<Rightarrow> (part ! max_lev, merge_down cmp (take max_lev part)))"

definition list_sort :: "('n \<Rightarrow> 'n \<Rightarrow> int) \<Rightarrow> 'n \<Rightarrow> 'n list \<Rightarrow> 'n links \<Rightarrow> 'n links" where
  "list_sort cmp head xs l =
     (if xs = [] then l
      else case list_sort_parts cmp xs of (a, b) \<Rightarrow>
        merge_and_restore_back_links cmp head head a b l)"

text \<open>The order of the nodes after \<open>list_sort\<close>.\<close>

definition sorted_nodes :: "('a \<Rightarrow> 'a \<Rightarrow> int) \<Rightarrow> 'a list \<Rightarrow> 'a list" where
  "sorted_nodes cmp xs = (case list_sort_parts cmp xs of (a, b) \<Rightarrow> merge cmp a b)"

section \<open>The slots hold the nodes seen so far\<close>

text \<open>The chain that is merged up from \<open>cur\<close> through the filled slots \<open>ps\<close>.\<close>

definition carry :: "('a \<Rightarrow> 'a \<Rightarrow> int) \<Rightarrow> 'a list list \<Rightarrow> 'a list \<Rightarrow> 'a list" where
  "carry cmp ps cur = foldl (\<lambda>c p. merge cmp p c) cur ps"

abbreviation filled :: "'a list list \<Rightarrow> nat" where
  "filled ps \<equiv> length (takeWhile (\<lambda>p. p \<noteq> []) ps)"

lemma merge_up_carry:
  "merge_up cmp ps k cur =
     (carry cmp (take (filled ps) ps) cur, k + filled ps,
      replicate (filled ps) [] @ drop (filled ps) ps)"
  by (induction cmp ps k cur rule: merge_up.induct) (auto simp: carry_def)

lemma mset_carry [simp]: "mset (carry cmp ps cur) = mset (concat ps) + mset cur"
  by (induction ps arbitrary: cur) (auto simp: carry_def)

lemma carry_nonempty: "cur \<noteq> [] \<Longrightarrow> carry cmp ps cur \<noteq> []"
proof -
  assume "cur \<noteq> []"
  then have "mset (carry cmp ps cur) \<noteq> {#}" by simp
  then show ?thesis by (metis mset_zero_iff)
qed

text \<open>The slots up to \<open>max_lev\<close>, the top one in use, below the sentinel.\<close>

definition slots_ok :: "'a list list \<times> nat \<Rightarrow> bool" where
  "slots_ok = (\<lambda>(part, max_lev). length part = MAX_LIST_LENGTH_BITS + 1
     \<and> max_lev < MAX_LIST_LENGTH_BITS \<and> (\<forall>i > max_lev. i < length part \<longrightarrow> part ! i = []))"

lemma filled_le:
  assumes "slots_ok (part, max_lev)"
  shows "filled part \<le> Suc max_lev" "filled part < length part" "part ! filled part = []"
proof -
  have len: "Suc max_lev < length part" and e: "part ! Suc max_lev = []"
    using assms by (simp_all add: slots_ok_def)
  show le: "filled part \<le> Suc max_lev"
  proof (rule ccontr)
    assume "\<not> filled part \<le> Suc max_lev"
    then have lt: "Suc max_lev < filled part" by simp
    then have "takeWhile (\<lambda>p. p \<noteq> []) part ! Suc max_lev = part ! Suc max_lev"
      by (rule takeWhile_nth)
    moreover have "takeWhile (\<lambda>p. p \<noteq> []) part ! Suc max_lev \<noteq> []"
      using set_takeWhileD [OF nth_mem [OF lt]] by simp
    ultimately show False using e by simp
  qed
  with len show lt: "filled part < length part" by simp
  show "part ! filled part = []" using nth_length_takeWhile [OF lt] by simp
qed

lemma replicate_update_last: "(replicate (Suc k) x)[k := c] = replicate k x @ [c]"
  by (induction k) auto

lemma concat_rev_update:
  assumes "lev = n \<and> n < length ps \<and> ps ! n = [] \<or> n = Suc lev \<and> n \<le> length ps"
  shows "concat (rev ((replicate n [] @ drop n ps)[lev := c])) = concat (rev (drop n ps)) @ c"
  using assms
proof
  assume "lev = n \<and> n < length ps \<and> ps ! n = []"
  then have "drop n ps = [] # drop (Suc n) ps" "lev = n" by (simp_all flip: Cons_nth_drop_Suc)
  then show ?thesis by (simp add: list_update_append)
next
  assume n: "n = Suc lev \<and> n \<le> length ps"
  then have "(replicate n [] @ drop n ps)[lev := c] = replicate lev [] @ c # drop n ps"
    by (simp add: list_update_append replicate_update_last del: replicate_Suc)
  then show ?thesis by simp
qed

lemma sort_round_step:
  assumes ok: "slots_ok (part, m)" and r: "sort_round cmp (part, m) x = (part', m')"
  obtains n c where "c = carry cmp (take n part) [x]" "n \<le> length part"
    "concat (rev part') = concat (rev (drop n part)) @ c"
    "set part' \<subseteq> insert c (insert [] (set part))" "slots_ok (part', m')"
    "part' ! m' \<noteq> [] \<or> part' ! m' = part ! m \<and> m' = m"
proof -
  let ?n = "filled part" and ?c = "carry cmp (take (filled part) part) [x]"
  let ?base = "replicate ?n [] @ drop ?n part"
  note f = filled_le [OF ok]
  have len: "length part = MAX_LIST_LENGTH_BITS + 1" and m: "m < MAX_LIST_LENGTH_BITS"
    and above: "\<And>i. m < i \<Longrightarrow> i < length part \<Longrightarrow> part ! i = []"
    using ok by (auto simp: slots_ok_def)
  define lev where "lev = (if m < ?n \<and> length part - 1 \<le> ?n then ?n - 1 else ?n)"
  have p': "part' = ?base[lev := ?c]" and m': "m' = (if m < ?n then lev else m)"
    using r by (auto simp: sort_round_def merge_up_carry lev_def Let_def split: if_splits)
  have lev: "lev = ?n \<and> ?n < length part \<and> part ! ?n = [] \<or> ?n = Suc lev \<and> ?n \<le> length part"
    using f len m by (auto simp: lev_def)
  have lm: "lev \<le> m'" "m \<le> m'" "m' < MAX_LIST_LENGTH_BITS"
    using f(1) len m by (auto simp: m' lev_def split: if_splits)
  have up: "part' ! i = []" if "m' < i" "i < length part'" for i
    using that lm f(1) above [of i] by (auto simp: p' nth_append)
  have sub: "set part' \<subseteq> insert ?c (insert [] (set part))"
    unfolding p' by (rule order_trans [OF set_update_subset_insert]) (auto dest: in_set_dropD)
  have top: "part' ! m' \<noteq> [] \<or> part' ! m' = part ! m \<and> m' = m"
    using lm f(2) len carry_nonempty [of "[x]" cmp "take ?n part"]
    by (cases "lev = m'") (auto simp: p' m' nth_append nth_list_update split: if_splits)
  show ?thesis
    by (rule that [of ?c ?n, OF refl _ _ sub _ top])
      (use f(2) lm up concat_rev_update [OF lev, of ?c] len in
        \<open>auto simp: p' slots_ok_def MAX_LIST_LENGTH_BITS_def\<close>)
qed

lemma mset_concat_rev: "mset (concat (rev ps)) = mset (concat ps)"
  by (induction ps) auto

lemma sort_rounds_mset:
  assumes "slots_ok (part, m)" "foldl (sort_round cmp) (part, m) xs = (part', m')"
  shows "slots_ok (part', m') \<and> mset (concat part') = mset (concat part) + mset xs"
  using assms
proof (induction xs arbitrary: part m)
  case Nil
  then show ?case by simp
next
  case (Cons x xs)
  obtain q k where q: "sort_round cmp (part, m) x = (q, k)" by (cases "sort_round cmp (part, m) x")
  obtain n c where n: "c = carry cmp (take n part) [x]"
    "concat (rev q) = concat (rev (drop n part)) @ c" "slots_ok (q, k)"
    by (rule sort_round_step [OF Cons.prems(1) q]) blast
  have "mset (concat q) = mset (concat (rev q))" by (simp add: mset_concat_rev)
  also have "\<dots> = mset (concat (drop n part)) + (mset (concat (take n part)) + {#x#})"
    by (simp add: n(1,2) mset_concat_rev)
  also have "\<dots> = mset (concat (take n part @ drop n part)) + {#x#}"
    by (simp only: concat_append mset_append ac_simps)
  finally have "mset (concat q) = mset (concat part) + {#x#}" by simp
  with Cons.IH [OF n(3)] Cons.prems(2) q show ?case by simp
qed

lemma slots_ok_start: "slots_ok (replicate (MAX_LIST_LENGTH_BITS + 1) [], 0)"
  by (simp add: slots_ok_def MAX_LIST_LENGTH_BITS_def)

lemma merge_down_Cons:
  "fold (\<lambda>p list. if p = [] then list else merge cmp p list) (p # ps) l =
   fold (\<lambda>p list. if p = [] then list else merge cmp p list) ps (merge cmp p l)"
  by simp

lemma mset_merge_down [simp]: "mset (merge_down cmp ps) = mset (concat ps)"
proof -
  have "mset (fold (\<lambda>p list. if p = [] then list else merge cmp p list) ps l) =
      mset (concat ps) + mset l" for l
    by (induction ps arbitrary: l) auto
  then show ?thesis by (simp add: merge_down_def)
qed

lemma slots_concat:
  assumes "slots_ok (part, m)"
  shows "concat (rev part) = part ! m @ concat (rev (take m part))"
proof -
  have lt: "m < length part" and "\<forall>p \<in> set (drop (Suc m) part). p = []"
    using assms by (auto simp: slots_ok_def in_set_conv_nth)
  then have "concat (rev (drop (Suc m) part)) = []" by simp
  moreover have "part = take m part @ part ! m # drop (Suc m) part"
    using lt by (rule id_take_nth_drop)
  then have "rev part = rev (drop (Suc m) part) @ [part ! m] @ rev (take m part)"
    by (metis append_Cons append_assoc append_self_conv2 rev.simps(2) rev_append)
  ultimately show ?thesis by simp
qed

theorem sorted_nodes_mset: "mset (sorted_nodes cmp xs) = mset xs"
proof -
  obtain part m where f:
    "foldl (sort_round cmp) (replicate (MAX_LIST_LENGTH_BITS + 1) [], 0) xs = (part, m)"
    by (cases "foldl (sort_round cmp) (replicate (MAX_LIST_LENGTH_BITS + 1) [], 0) xs")
  from sort_rounds_mset [OF slots_ok_start f] have ok: "slots_ok (part, m)"
    and ms: "mset (concat part) = mset xs"
    by (simp_all add: MAX_LIST_LENGTH_BITS_def)
  have "mset (sorted_nodes cmp xs) = mset (part ! m @ concat (rev (take m part)))"
    by (simp only: sorted_nodes_def list_sort_parts_def f prod.case mset_merge mset_merge_down
        mset_append mset_concat_rev)
  also have "\<dots> = mset xs" by (simp only: slots_concat [OF ok, symmetric] mset_concat_rev ms)
  finally show ?thesis .
qed

section \<open>The ring of links\<close>

text \<open>\<open>path l x ys z\<close>: from \<open>x\<close> the links run through \<open>ys\<close> to \<open>z\<close>, forward and back.\<close>

fun path :: "'n links \<Rightarrow> 'n \<Rightarrow> 'n list \<Rightarrow> 'n \<Rightarrow> bool" where
  "path l x [] z \<longleftrightarrow> nxt l x = z \<and> prv l z = x"
| "path l x (y # ys) z \<longleftrightarrow> nxt l x = y \<and> prv l y = x \<and> path l y ys z"

definition ring :: "'n links \<Rightarrow> 'n \<Rightarrow> 'n list \<Rightarrow> bool" where
  "ring l head ys \<longleftrightarrow> path l head ys head"

text \<open>The links of the nodes already passed are not written again.\<close>

lemma restore_frame:
  "x \<notin> set (tail # as @ bs) \<Longrightarrow>
     nxt (merge_and_restore_back_links cmp head tail as bs l) x = nxt l x"
  "y \<notin> set (head # as @ bs) \<Longrightarrow>
     prv (merge_and_restore_back_links cmp head tail as bs l) y = prv l y"
  by (induction cmp head tail as bs l rule: merge_and_restore_back_links.induct)
    (auto simp: set_link_def)

lemma restore_path:
  assumes "distinct (head # as @ bs)" "tail = head \<or> tail \<notin> set (head # as @ bs)"
  shows "path (merge_and_restore_back_links cmp head tail as bs l) tail (merge cmp as bs) head"
  using assms
proof (induction cmp head tail as bs l rule: merge_and_restore_back_links.induct)
  case (1 cmp head tail a as b bs l)
  show ?case
  proof (cases "cmp a b \<le> 0")
    case True
    let ?l = "merge_and_restore_back_links cmp head a as (b # bs) (set_link tail a l)"
    have "nxt ?l tail = a" "prv ?l a = tail"
      using 1(3,4) by (auto simp: restore_frame set_link_def)
    with 1 True show ?thesis by simp
  next
    case False
    let ?l = "merge_and_restore_back_links cmp head b (a # as) bs (set_link tail b l)"
    have "nxt ?l tail = b" "prv ?l b = tail"
      using 1(3,4) by (auto simp: restore_frame set_link_def)
    with 1 False show ?thesis by auto
  qed
next
  case (2 cmp head tail l)
  then show ?case by (simp add: set_link_def)
next
  case (3 cmp head tail a as l)
  let ?l = "merge_and_restore_back_links cmp head a as [] (set_link tail a l)"
  have "nxt ?l tail = a" "prv ?l a = tail" using 3(2,3) by (auto simp: restore_frame set_link_def)
  with 3 show ?case by simp
next
  case (4 cmp head tail b bs l)
  let ?l = "merge_and_restore_back_links cmp head b [] bs (set_link tail b l)"
  have "nxt ?l tail = b" "prv ?l b = tail" using 4(2,3) by (auto simp: restore_frame set_link_def)
  with 4 show ?case by simp
qed

lemma list_sort_ring:
  assumes "distinct (head # xs)" "xs \<noteq> []"
  shows "ring (list_sort cmp head xs l) head (sorted_nodes cmp xs)"
proof -
  obtain a b where ab: "list_sort_parts cmp xs = (a, b)" by (cases "list_sort_parts cmp xs")
  have "mset a + mset b = mset xs" using sorted_nodes_mset [of cmp xs] by (simp add: sorted_nodes_def ab)
  then have "mset (head # a @ b) = mset (head # xs)" by simp
  then have "distinct (head # a @ b)" using assms(1) mset_eq_imp_distinct_iff by blast
  then show ?thesis
    using assms(2) restore_path [of head a b head cmp l]
    by (simp add: ring_def list_sort_def sorted_nodes_def ab)
qed

section \<open>Sorted and stable, for a comparison that orders the nodes\<close>

locale comparator =
  fixes cmp :: "'a \<Rightarrow> 'a \<Rightarrow> int"
    and A :: "'a set"
  assumes cmp_total: "x \<in> A \<Longrightarrow> y \<in> A \<Longrightarrow> cmp x y \<le> 0 \<or> cmp y x \<le> 0"
    and cmp_trans: "x \<in> A \<Longrightarrow> y \<in> A \<Longrightarrow> z \<in> A \<Longrightarrow> cmp x y \<le> 0 \<Longrightarrow> cmp y z \<le> 0 \<Longrightarrow> cmp x z \<le> 0"
begin

abbreviation srt :: "'a list \<Rightarrow> bool" where
  "srt xs \<equiv> set xs \<subseteq> A \<and> sorted_wrt (\<lambda>x y. cmp x y \<le> 0) xs"

abbreviation same :: "'a \<Rightarrow> 'a \<Rightarrow> bool" where
  "same k y \<equiv> cmp k y \<le> 0 \<and> cmp y k \<le> 0"

lemma merge_srt: "srt as \<Longrightarrow> srt bs \<Longrightarrow> srt (merge cmp as bs)"
proof (induction as bs rule: merge_induct [of cmp])
  case (both a as b bs)
  then show ?case using cmp_total [of a b] by (auto intro: cmp_trans)
qed auto

lemma merge_stable:
  assumes "k \<in> A" "srt as" "srt bs"
  shows "filter (same k) (merge cmp as bs) = filter (same k) as @ filter (same k) bs"
  using assms
proof (induction as bs rule: merge_induct [of cmp])
  case (both a as b bs)
  show ?case
  proof (cases "cmp a b \<le> 0")
    case True
    with both show ?thesis by simp
  next
    case False
    have "\<not> same k x" if "x \<in> set (a # as)" "same k b" for x
    proof
      assume "same k x"
      have A: "x \<in> A" "a \<in> A" "b \<in> A" using both.prems(2,3) that(1) by auto
      have "cmp a x \<le> 0"
        using that(1) both.prems(2) cmp_total [OF A(2) A(2)] by auto
      from cmp_trans [OF A(2,1) both.prems(1) this] \<open>same k x\<close> have "cmp a k \<le> 0" by simp
      from cmp_trans [OF A(2) both.prems(1) A(3) this] that(2) False show False by simp
    qed
    then have "filter (same k) (a # as) = []" if "same k b" using that by (simp add: filter_empty_conv)
    with both False show ?thesis by (cases "same k b") auto
  qed
qed auto

lemma carry_sorted:
  assumes "k \<in> A" "\<forall>p \<in> set ps. srt p" "srt cur"
  shows "srt (carry cmp ps cur)
    \<and> filter (same k) (carry cmp ps cur) = filter (same k) (concat (rev ps) @ cur)"
  using assms(2,3)
proof (induction ps arbitrary: cur)
  case Nil
  then show ?case by (simp add: carry_def)
next
  case (Cons p ps)
  have m: "srt (merge cmp p cur)" using Cons.prems by (intro merge_srt) auto
  have eq: "carry cmp (p # ps) cur = carry cmp ps (merge cmp p cur)" by (simp add: carry_def)
  from Cons.IH [OF _ m] Cons.prems merge_stable [OF assms(1), of p cur] show ?case
    by (auto simp: eq)
qed

lemma rounds_sorted:
  assumes "k \<in> A" "slots_ok (part, m)" "\<forall>p \<in> set part. srt p" "set xs \<subseteq> A"
    and "foldl (sort_round cmp) (part, m) xs = (part', m')"
  shows "(\<forall>p \<in> set part'. srt p)
    \<and> filter (same k) (concat (rev part')) = filter (same k) (concat (rev part) @ xs)"
  using assms(2-5)
proof (induction xs arbitrary: part m)
  case Nil
  then show ?case by simp
next
  case (Cons x xs)
  obtain q j where q: "sort_round cmp (part, m) x = (q, j)" by (cases "sort_round cmp (part, m) x")
  obtain n c where n: "c = carry cmp (take n part) [x]"
    "concat (rev q) = concat (rev (drop n part)) @ c" "slots_ok (q, j)"
    "set q \<subseteq> insert c (insert [] (set part))"
    by (rule sort_round_step [OF Cons.prems(1) q]) blast
  have c: "srt c \<and> filter (same k) c = filter (same k) (concat (rev (take n part)) @ [x])"
    unfolding n(1) using Cons.prems(2,3) assms(1)
    by (intro carry_sorted) (auto dest: in_set_takeD)
  have "srt p" if "p \<in> set q" for p
    using subsetD [OF n(4) that] c Cons.prems(2) by (elim insertE) auto
  then have "\<forall>p \<in> set q. srt p" by blast
  note IH = Cons.IH [OF n(3) this]
  have "rev (drop n part) @ rev (take n part) = rev part" by (simp flip: rev_append)
  then have "concat (rev part) = concat (rev (drop n part)) @ concat (rev (take n part))"
    by (metis concat_append)
  with IH Cons.prems(3,4) q c n(2) show ?case by simp
qed

lemma merge_down_sorted:
  assumes "k \<in> A" "\<forall>p \<in> set ps. srt p"
  shows "srt (merge_down cmp ps)
    \<and> filter (same k) (merge_down cmp ps) = filter (same k) (concat (rev ps))"
proof -
  let ?f = "fold (\<lambda>p list. if p = [] then list else merge cmp p list)"
  have "srt (?f ps l) \<and> filter (same k) (?f ps l) = filter (same k) (concat (rev ps) @ l)"
    if "srt l" for l
    using assms(2) that
  proof (induction ps arbitrary: l)
    case Nil
    then show ?case by simp
  next
    case (Cons p ps)
    have "srt (merge cmp p l)" using Cons.prems by (intro merge_srt) auto
    from Cons.IH [OF _ this] Cons.prems merge_stable [OF assms(1), of p l] show ?case by auto
  qed
  from this [of "[]"] show ?thesis by (simp add: merge_down_def)
qed

lemma sorted_nodes_correct:
  assumes "set xs \<subseteq> A" "k \<in> A"
  shows "sorted_wrt (\<lambda>x y. cmp x y \<le> 0) (sorted_nodes cmp xs)
    \<and> filter (same k) (sorted_nodes cmp xs) = filter (same k) xs"
proof -
  obtain part m where f:
    "foldl (sort_round cmp) (replicate (MAX_LIST_LENGTH_BITS + 1) [], 0) xs = (part, m)"
    by (cases "foldl (sort_round cmp) (replicate (MAX_LIST_LENGTH_BITS + 1) [], 0) xs")
  have ok: "slots_ok (part, m)" using sort_rounds_mset [OF slots_ok_start f] by simp
  have r: "(\<forall>p \<in> set part. srt p) \<and> filter (same k) (concat (rev part)) = filter (same k) xs"
    using rounds_sorted [OF assms(2) slots_ok_start _ assms(1) f] by simp
  have m: "srt (part ! m)" using r ok by (auto simp: slots_ok_def)
  have d: "srt (merge_down cmp (take m part)) \<and> filter (same k) (merge_down cmp (take m part)) =
      filter (same k) (concat (rev (take m part)))"
    using r assms(2) by (intro merge_down_sorted) (auto dest: in_set_takeD)
  have eq: "sorted_nodes cmp xs = merge cmp (part ! m) (merge_down cmp (take m part))"
    by (simp only: sorted_nodes_def list_sort_parts_def f prod.case)
  show ?thesis
    using merge_srt [of "part ! m"] merge_stable [OF assms(2) m, of "merge_down cmp (take m part)"] m d r
      slots_concat [OF ok]
    by (simp add: eq)
qed

end

section \<open>What the caller gets\<close>

text \<open>
  (C34) Whatever the comparison returns, \<open>list_sort\<close> leaves a well-formed doubly linked ring
  through the head: following \<open>next\<close> visits every node of the old list once and \<open>prev\<close>
  is its inverse. No node is lost or doubled.
\<close>

theorem list_sort_permutes:
  assumes "distinct (head # xs)" "xs \<noteq> []"
  shows "\<exists>ys. ring (list_sort cmp head xs l) head ys \<and> mset ys = mset xs"
  using list_sort_ring [OF assms] sorted_nodes_mset by blast

theorem list_sort_permutes_witness:
  "\<exists>ys. ring (list_sort (\<lambda>x y. int x - int y) 0 [3, 1, 2] \<lparr>nxt = id, prv = id\<rparr>) (0 :: nat) ys \<and> mset ys = mset [3, 1, 2]"
  by (rule list_sort_permutes) simp_all

end
