(* ===== verification/Hash_Table.thy ===== *)
theory Hash_Table
  imports Chunking Hash_Jen Bitmap
begin

unbundle bit_operations_syntax

text \<open>
  The chunk cache of the receiving kernel module: \<open>kernel_hash/hash_table.c\<close>. An item
  (\<open>struct hashinfo_item\<close>) is found by the SHA-1 of its chunk; its data live in a slab or
  \<open>kmalloc\<close> block, or in a per-CPU file at the position a bitmap gives. Items are kept
  under their addresses, buckets are lists of addresses, so an item found by one path and
  aged or written back by another is the same item.

  The results of calls outside this code are arguments: the address or \<open>NULL\<close> that
  \<open>kmem_cache_zalloc\<close> returns, whether a data block could be allocated, the CPU
  \<open>get_cpu\<close> reports, the value \<open>kernel_write\<close> returns. \<open>BUG()\<close> and memory faults have no
  result (\<open>None\<close>). \<open>atomic_t\<close> is a 32-bit word read signed, \<open>atomic64_t\<close> and
  \<open>percpu_counter\<close> are 64-bit words.
\<close>

section \<open>Items and the table\<close>

definition ITEM_CITE_ADD :: u32 where "ITEM_CITE_ADD = 6"
definition ITEM_CITE_FIND :: u32 where "ITEM_CITE_FIND = 6"
definition ITEM_DISK_LIMIT :: int where "ITEM_DISK_LIMIT = 6"
definition ITEM_VIP_LIMIT :: int where "ITEM_VIP_LIMIT = 12"
definition SHA1SIZE :: nat where "SHA1SIZE = 20"

record hashinfo_item =
  refcnt :: u32
  share_ref :: u32
  item_len :: nat
  sha1 :: "byte list"
  item_data :: "block option"
  mem_style :: int
  cpuid :: int
  item_start :: nat
  flag_cache :: nat
  flag_mem :: nat
  store_flag :: nat

record wstats =
  mm0 :: u64
  mm1 :: u64
  mm2 :: u64
  mm3 :: u64
  devote0 :: u64
  devote1 :: u64
  devote2 :: u64
  devote3 :: u64
  devote4 :: u64
  mmw :: u64
  mmd :: u64
  mmm :: u64
  mmf :: u64
  sum_num :: u64
  save_num :: u64
  skb_num :: u64
  rdl :: u64
  rdf :: u64

record wcache =
  hash_tab :: "nat \<Rightarrow> nat list"
  item_at :: "nat \<Rightarrow> hashinfo_item option"
  hash_count :: u32
  stats :: wstats
  bitmap :: "nat \<Rightarrow> bits"
  bitmap_index :: "nat \<Rightarrow> nat"
  loff_file :: "nat \<Rightarrow> nat"
  file_of :: "nat \<Rightarrow> nat \<Rightarrow> byte"
  work_queued :: "nat \<Rightarrow> bool"

definition set_item :: "nat \<Rightarrow> hashinfo_item \<Rightarrow> wcache \<Rightarrow> wcache" where
  "set_item a cp s = s\<lparr>item_at := (item_at s)(a \<mapsto> cp)\<rparr>"

text \<open>\<open>_hash\<close> and \<open>_unhash\<close>: \<open>list_add\<close> at the head of the bucket, \<open>list_del\<close>.\<close>

definition hash_link :: "nat \<Rightarrow> nat \<Rightarrow> wcache \<Rightarrow> wcache" where
  "hash_link b a s = s\<lparr>hash_tab := (hash_tab s)(b := a # hash_tab s b)\<rparr>"

definition hash_unlink :: "nat \<Rightarrow> nat \<Rightarrow> wcache \<Rightarrow> wcache" where
  "hash_unlink b a s = s\<lparr>hash_tab := (hash_tab s)(b := remove1 a (hash_tab s b))\<rparr>"

section \<open>Data blocks\<close>

text \<open>\<open>ok\<close> tells whether the allocator returned memory; otherwise \<open>BUG()\<close>.\<close>

definition alloc_data_memory ::
  "bool \<Rightarrow> hashinfo_item \<Rightarrow> nat \<Rightarrow> wstats \<Rightarrow> (hashinfo_item \<times> wstats) option" where
  "alloc_data_memory ok cp len st =
     (if 0 \<le> mem_style cp then Some (cp, st)
      else if \<not> ok then None
      else if len \<le> CHUNKSTEP then
        Some (cp\<lparr>item_data := Some (zalloc_block CHUNKSTEP), mem_style := 1\<rparr>,
              st\<lparr>mm1 := mm1 st + of_nat len\<rparr>)
      else if len \<le> CHUNKSTEP * 2 then
        Some (cp\<lparr>item_data := Some (zalloc_block (CHUNKSTEP * 2)), mem_style := 2\<rparr>,
              st\<lparr>mm2 := mm2 st + of_nat len\<rparr>)
      else if len \<le> CHUNKSTEP * 3 then
        Some (cp\<lparr>item_data := Some (zalloc_block (CHUNKSTEP * 3)), mem_style := 3\<rparr>,
              st\<lparr>mm3 := mm3 st + of_nat len\<rparr>)
      else
        Some (cp\<lparr>item_data := Some (malloc_block (item_len cp)), mem_style := 0\<rparr>,
              st\<lparr>mm0 := mm0 st + of_nat (item_len cp)\<rparr>))"

definition free_data_memory :: "hashinfo_item \<Rightarrow> wstats \<Rightarrow> (hashinfo_item \<times> wstats) option" where
  "free_data_memory cp st =
     (let cp' = cp\<lparr>item_data := None, mem_style := -1\<rparr>; n = of_nat (item_len cp) in
      if mem_style cp = 0 then Some (cp', st\<lparr>mm0 := mm0 st - n\<rparr>)
      else if mem_style cp = 1 then Some (cp', st\<lparr>mm1 := mm1 st - n\<rparr>)
      else if mem_style cp = 2 then Some (cp', st\<lparr>mm2 := mm2 st - n\<rparr>)
      else if mem_style cp = 3 then Some (cp', st\<lparr>mm3 := mm3 st - n\<rparr>)
      else None)"

section \<open>Insertion\<close>

definition blank_item :: hashinfo_item where
  "blank_item = \<lparr>refcnt = 0, share_ref = 0, item_len = 0, sha1 = replicate SHA1SIZE 0,
     item_data = None, mem_style = 0, cpuid = 0, item_start = 0, flag_cache = 0, flag_mem = 0,
     store_flag = 0\<rparr>"

text \<open>
  \<open>hash_new_item\<close>: \<open>max_count\<close> is \<open>hash_max_count\<close>, \<open>mem\<close> the result of
  \<open>kmem_cache_zalloc\<close>. The inner option is the returned pointer.
\<close>

definition hash_new_item ::
  "u64 \<Rightarrow> nat option \<Rightarrow> bool \<Rightarrow> byte list \<Rightarrow> byte list \<Rightarrow> nat \<Rightarrow> wcache \<Rightarrow> (nat option \<times> wcache) option" where
  "hash_new_item max_count mem ok info val len_value s =
     (if max_count < scast (hash_count s) then Some (None, s)
      else case mem of None \<Rightarrow> Some (None, s)
      | Some a \<Rightarrow>
         (let cp = blank_item\<lparr>item_len := len_value, mem_style := -1\<rparr> in
          case alloc_data_memory ok cp len_value (stats s) of None \<Rightarrow> None
          | Some (cp, st) \<Rightarrow>
            (if length val < len_value \<or> length info < SHA1SIZE then None
             else case memcpy_at (the (item_data cp)) 0 (take len_value val) of None \<Rightarrow> None
             | Some d \<Rightarrow>
               (let cp = cp\<lparr>item_data := Some d, cpuid := -1, store_flag := 0,
                           sha1 := take SHA1SIZE info, refcnt := ITEM_CITE_ADD, share_ref := 1\<rparr>;
                    s = (set_item a cp s)\<lparr>stats := st, hash_count := hash_count s + 1\<rparr>
                in Some (Some a, hash_link (bucket_of (sha1 cp)) a s)))))"

definition add_hash_info ::
  "u64 \<Rightarrow> nat option \<Rightarrow> bool \<Rightarrow> byte list \<Rightarrow> byte list \<Rightarrow> nat \<Rightarrow> wcache \<Rightarrow> (int \<times> wcache) option" where
  "add_hash_info max_count mem ok info val len_value s =
     (case hash_new_item max_count mem ok info val len_value s of None \<Rightarrow> None
      | Some (None, s') \<Rightarrow> Some (-1, s')
      | Some (Some a, s') \<Rightarrow> Some (0, s'))"

section \<open>Lookup\<close>

text \<open>The entry of the bucket whose key equals \<open>info\<close>: \<open>list_for_each_entry\<close> with \<open>memcmp\<close>.\<close>

definition bucket_find :: "byte list \<Rightarrow> wcache \<Rightarrow> nat option" where
  "bucket_find info s =
     List.find (\<lambda>a. \<exists>cp. item_at s a = Some cp \<and> sha1 cp = info) (hash_tab s (bucket_of info))"

definition devote :: "hashinfo_item \<Rightarrow> wstats \<Rightarrow> wstats" where
  "devote cp st = (let n = of_nat (item_len cp) in
     if flag_cache cp = 0 then st\<lparr>devote0 := devote0 st + n\<rparr>
     else if flag_cache cp = 1 then st\<lparr>devote1 := devote1 st + n\<rparr>
     else if flag_cache cp = 2 then st\<lparr>devote2 := devote2 st + n\<rparr>
     else if flag_cache cp = 3 then st\<lparr>devote3 := devote3 st + n\<rparr>
     else if flag_cache cp = 4 then st\<lparr>devote4 := devote4 st + n\<rparr>
     else st)"

definition get_hash_item :: "byte list \<Rightarrow> wcache \<Rightarrow> nat option \<times> wcache" where
  "get_hash_item info s =
     (case bucket_find info s of None \<Rightarrow> (None, s)
      | Some a \<Rightarrow> (case item_at s a of None \<Rightarrow> (None, s)
        | Some cp \<Rightarrow>
          (let cp' = cp\<lparr>refcnt := refcnt cp + ITEM_CITE_FIND, share_ref := share_ref cp + 1,
                       flag_cache := (if flag_cache cp = 1 then 4 else flag_cache cp)\<rparr>
           in (Some a, (set_item a cp' s)\<lparr>stats := devote cp (stats s)\<rparr>))))"

section \<open>The unused per-item timer\<close>

text \<open>\<open>hash_del_item\<close> and \<open>hash_item_expire\<close> (not called by the module).\<close>

definition hash_del_item :: "nat \<Rightarrow> wcache \<Rightarrow> wcache option" where
  "hash_del_item a s =
     (case item_at s a of None \<Rightarrow> None
      | Some cp \<Rightarrow>
        (let r = refcnt cp + 1; b = bucket_of (sha1 cp) in
         if r = 2 then
           let s1 = hash_unlink b a (set_item a (cp\<lparr>refcnt := r\<rparr>) s) in
           if r = 1 then
             (case free_data_memory cp (stats s) of None \<Rightarrow> None
              | Some (_, st) \<Rightarrow>
                Some (s1\<lparr>item_at := (item_at s1)(a := None), stats := st,
                        hash_count := hash_count s - 1\<rparr>))
           else Some (set_item a (cp\<lparr>refcnt := r - 1\<rparr>) (hash_link b a s1))
         else Some (set_item a (cp\<lparr>refcnt := r - 1\<rparr>) s)))"

definition hash_item_expire :: "nat \<Rightarrow> wcache \<Rightarrow> wcache option" where
  "hash_item_expire a s =
     (case item_at s a of None \<Rightarrow> None
      | Some cp \<Rightarrow> if refcnt cp = 1 then hash_del_item a s
                   else Some (set_item a (cp\<lparr>refcnt := refcnt cp - 1\<rparr>) s))"

section \<open>Ageing\<close>

text \<open>Blocks of \<open>CHUNKSTEP\<close> bytes that an item takes on disk.\<close>

definition num_chunks :: "nat \<Rightarrow> nat" where
  "num_chunks n = (if n \<le> CHUNKSTEP then 1 else (n + CHUNKSTEP - 1) div CHUNKSTEP)"

definition set_bits :: "nat \<Rightarrow> nat \<Rightarrow> bool \<Rightarrow> bits \<Rightarrow> bits" where
  "set_bits start num v m = (\<lambda>i. if start \<le> i \<and> i < start + num then v else m i)"

text \<open>Is the item's data block in memory, as \<open>hash_flush\<close> and \<open>bucket_clear_item\<close> judge it?\<close>

definition holds_memory :: "hashinfo_item \<Rightarrow> bool" where
  "holds_memory cp \<longleftrightarrow> flag_cache cp = 0 \<or> flag_cache cp = 2 \<or> flag_cache cp = 3 \<or> flag_cache cp = 4"

text \<open>Is it on disk?\<close>

definition holds_disk :: "hashinfo_item \<Rightarrow> bool" where
  "holds_disk cp \<longleftrightarrow> flag_cache cp = 1 \<or> flag_cache cp = 2 \<and> 0 \<le> cpuid cp \<or> flag_cache cp = 4"

text \<open>The deletion branch of \<open>bucket_clear_item\<close>.\<close>

definition clear_delete :: "nat \<Rightarrow> nat \<Rightarrow> hashinfo_item \<Rightarrow> wcache \<Rightarrow> wcache option" where
  "clear_delete b a cp s =
     (let s1 = (hash_unlink b a s)\<lparr>hash_count := hash_count s - 1\<rparr> in
      case (if holds_memory cp
            then map_option (\<lambda>(_, st). st\<lparr>mmf := mmf st + of_nat (item_len cp)\<rparr>)
                   (free_data_memory cp (stats s))
            else Some (stats s)) of None \<Rightarrow> None
      | Some st \<Rightarrow>
        (let s2 = (if holds_disk cp
                   then s1\<lparr>bitmap := (bitmap s1)(nat (cpuid cp) :=
                          set_bits (item_start cp) (num_chunks (item_len cp)) False
                            (bitmap s1 (nat (cpuid cp))))\<rparr>
                   else s1);
             st2 = (if store_flag cp = 1 then st\<lparr>mmd := mmd st + of_nat (item_len cp)\<rparr> else st)
         in Some (s2\<lparr>stats := st2, item_at := (item_at s2)(a := None)\<rparr>)))"

text \<open>The state machine of an item that stays: \<open>cp\<close> is already decremented.\<close>

definition age_vip :: "hashinfo_item \<times> wstats \<Rightarrow> hashinfo_item \<times> wstats" where
  "age_vip = (\<lambda>(cp, st).
     if ITEM_VIP_LIMIT \<le> sint (refcnt cp) \<and> flag_cache cp = 0
     then (cp\<lparr>flag_cache := 3\<rparr>, st\<lparr>mmm := mmm st + of_nat (item_len cp)\<rparr>) else (cp, st))"

definition age_disk :: "hashinfo_item \<times> wstats \<Rightarrow> hashinfo_item \<times> wstats" where
  "age_disk = (\<lambda>(cp, st).
     if sint (refcnt cp) < ITEM_VIP_LIMIT \<and> ITEM_DISK_LIMIT \<le> sint (refcnt cp) \<and> flag_cache cp = 0
     then (cp\<lparr>flag_cache := 2\<rparr>, st) else (cp, st))"

definition age_promote :: "hashinfo_item \<times> wstats \<Rightarrow> hashinfo_item \<times> wstats" where
  "age_promote = (\<lambda>(cp, st).
     if ITEM_VIP_LIMIT \<le> sint (refcnt cp) \<and> flag_cache cp = 2 \<and> cpuid cp < 0
     then (cp\<lparr>flag_cache := 3\<rparr>, st\<lparr>mmm := mmm st + of_nat (item_len cp)\<rparr>) else (cp, st))"

definition age_store :: "hashinfo_item \<Rightarrow> hashinfo_item" where
  "age_store cp = (if ITEM_DISK_LIMIT < sint (refcnt cp) \<and> store_flag cp = 0
     then cp\<lparr>store_flag := 1\<rparr> else cp)"

definition age_item :: "hashinfo_item \<times> wstats \<Rightarrow> hashinfo_item \<times> wstats" where
  "age_item x = (case age_promote (age_disk (age_vip x)) of (cp, st) \<Rightarrow> (age_store cp, st))"

text \<open>One iteration of the loop of \<open>bucket_clear_item\<close>; the flag asks for a write-back.\<close>

definition clear_step :: "nat \<Rightarrow> (bool \<times> wcache) option \<Rightarrow> nat \<Rightarrow> (bool \<times> wcache) option" where
  "clear_step b acc a =
     (case acc of None \<Rightarrow> None
      | Some (flag, s) \<Rightarrow>
        (case item_at s a of None \<Rightarrow> None
         | Some cp \<Rightarrow>
           if share_ref cp = 1 \<and> sint (refcnt cp) \<le> 1
           then map_option (\<lambda>s'. (flag, s')) (clear_delete b a cp s)
           else case age_item (cp\<lparr>refcnt := refcnt cp - 1\<rparr>, stats s) of (cp', st) \<Rightarrow>
             Some (flag \<or> ITEM_DISK_LIMIT \<le> sint (refcnt cp') \<and> sint (refcnt cp') < ITEM_VIP_LIMIT,
                   (set_item a cp' s)\<lparr>stats := st\<rparr>)))"

definition bucket_clear_item :: "nat \<Rightarrow> wcache \<Rightarrow> wcache option" where
  "bucket_clear_item b s =
     (case foldl (clear_step b) (Some (False, s)) (hash_tab s b) of None \<Rightarrow> None
      | Some (flag, s') \<Rightarrow>
        Some (if flag \<and> \<not> work_queued s' b
              then s'\<lparr>work_queued := (work_queued s')(b := True)\<rparr> else s'))"

section \<open>Emptying the table\<close>

definition flush_step :: "nat \<Rightarrow> wcache option \<Rightarrow> nat \<Rightarrow> wcache option" where
  "flush_step b acc a =
     (case acc of None \<Rightarrow> None
      | Some s \<Rightarrow>
        (case item_at s a of None \<Rightarrow> None
         | Some cp \<Rightarrow>
           (case (if holds_memory cp
                  then map_option (\<lambda>(_, st). st\<lparr>mmf := mmf st + of_nat (item_len cp)\<rparr>)
                         (free_data_memory cp (stats s))
                  else Some (stats s)) of None \<Rightarrow> None
            | Some st \<Rightarrow>
              (let s1 = (hash_unlink b a s)\<lparr>hash_count := hash_count s - 1\<rparr>
               in Some (s1\<lparr>stats := st, item_at := (item_at s1)(a := None)\<rparr>)))))"

definition flush_bucket :: "wcache option \<Rightarrow> nat \<Rightarrow> wcache option" where
  "flush_bucket acc b =
     (case acc of None \<Rightarrow> None | Some s \<Rightarrow> foldl (flush_step b) (Some s) (hash_tab s b))"

definition hash_flush :: "wcache \<Rightarrow> wcache option" where
  "hash_flush s = foldl flush_bucket (Some s) [0..<unat hash_tab_size]"

end
