(* ===== verification/Hash_Table_Inv.thy ===== *)
theory Hash_Table_Inv
  imports Hash_Table
begin

text \<open>
  The structural invariant of the chunk table and its preservation by every operation of
  \<open>hash_table.c\<close> except the write-back: the buckets partition the allocated items by key,
  \<open>hash_count\<close> counts them, and the counters \<open>mm0\<close> \dots \<open>mm3\<close> are exactly the bytes
  held in each kind of data block.
\<close>

section \<open>The invariant\<close>

definition links_ok :: "wcache \<Rightarrow> bool" where
  "links_ok s \<longleftrightarrow> (\<forall>b. distinct (hash_tab s b))
     \<and> (\<forall>a b. a \<in> set (hash_tab s b) \<longleftrightarrow>
          (\<exists>cp. item_at s a = Some cp \<and> bucket_of (sha1 cp) = b))"

definition item_sum :: "(hashinfo_item \<Rightarrow> 'a::ab_group_add) \<Rightarrow> wcache \<Rightarrow> 'a" where
  "item_sum f s = (\<Sum>a \<in> dom (item_at s). f (the (item_at s a)))"

definition style_bytes :: "int \<Rightarrow> hashinfo_item \<Rightarrow> u64" where
  "style_bytes k cp = (if mem_style cp = k then of_nat (item_len cp) else 0)"

definition mem_counters :: "wstats \<Rightarrow> int \<Rightarrow> u64" where
  "mem_counters st k =
     (if k = 0 then mm0 st else if k = 1 then mm1 st else if k = 2 then mm2 st else mm3 st)"

text \<open>An item whose flag says \<open>disk only\<close> has no data block.\<close>

definition block_ok :: "hashinfo_item \<Rightarrow> bool" where
  "block_ok cp \<longleftrightarrow> holds_memory cp \<or> mem_style cp = -1"

definition table_inv :: "wcache \<Rightarrow> bool" where
  "table_inv s \<longleftrightarrow> finite (dom (item_at s)) \<and> links_ok s
     \<and> hash_count s = item_sum (\<lambda>_. 1) s
     \<and> (\<forall>k \<in> {0, 1, 2, 3}. mem_counters (stats s) k = item_sum (style_bytes k) s)
     \<and> (\<forall>a cp. item_at s a = Some cp \<longrightarrow> block_ok cp)"

lemma table_inv_counters:
  "table_inv s \<Longrightarrow> k \<in> {0, 1, 2, 3} \<Longrightarrow> mem_counters (stats s) k = item_sum (style_bytes k) s"
  unfolding table_inv_def by blast

section \<open>Sums over items\<close>

lemma item_sum_cong: "item_at s = item_at s' \<Longrightarrow> item_sum f s = item_sum f s'"
  by (simp add: item_sum_def)

lemma item_sum_upd:
  assumes "finite (dom (item_at s))" "item_at s' = (item_at s)(a \<mapsto> cp)"
  shows "item_sum f s' = item_sum f s + f cp - (case item_at s a of None \<Rightarrow> 0 | Some old \<Rightarrow> f old)"
proof -
  let ?D = "dom (item_at s) - {a}"
  have d: "dom (item_at s') = insert a ?D" by (auto simp: assms(2))
  have "(\<Sum>x \<in> ?D. f (the (item_at s' x))) = (\<Sum>x \<in> ?D. f (the (item_at s x)))"
    by (rule sum.cong) (auto simp: assms(2))
  then have new: "item_sum f s' = f cp + (\<Sum>x \<in> ?D. f (the (item_at s x)))"
    unfolding item_sum_def d using assms(1) by (subst sum.insert) (auto simp: assms(2))
  show ?thesis
  proof (cases "item_at s a")
    case None
    then have "?D = dom (item_at s)" by auto
    with new None show ?thesis by (simp add: item_sum_def add.commute)
  next
    case (Some old)
    then have "item_sum f s = f old + (\<Sum>x \<in> ?D. f (the (item_at s x)))"
      unfolding item_sum_def using assms(1) by (subst sum.remove [of _ a]) auto
    with new Some show ?thesis by simp
  qed
qed

lemma item_sum_del:
  assumes "finite (dom (item_at s))" "item_at s a = Some old" "item_at s' = (item_at s)(a := None)"
  shows "item_sum f s' = item_sum f s - f old"
proof -
  have "item_sum f s = f old + (\<Sum>x \<in> dom (item_at s) - {a}. f (the (item_at s x)))"
    unfolding item_sum_def using assms(1,2) by (subst sum.remove [of _ a]) auto
  moreover have "item_sum f s' = (\<Sum>x \<in> dom (item_at s) - {a}. f (the (item_at s x)))"
    unfolding item_sum_def by (rule sum.cong) (auto simp: assms(3))
  ultimately show ?thesis by simp
qed

section \<open>Data blocks and counters\<close>

lemma alloc_counters:
  assumes "alloc_data_memory ok cp n st = Some (cp', st')" "n = item_len cp" "k \<in> {0, 1, 2, 3}"
  shows "mem_counters st' k = mem_counters st k + style_bytes k cp' - style_bytes k cp"
    "sha1 cp' = sha1 cp" "item_len cp' = item_len cp"
  using assms by (auto simp: alloc_data_memory_def mem_counters_def style_bytes_def split: if_splits)

lemma free_counters:
  assumes "free_data_memory cp st = Some (cp', st')" "k \<in> {0, 1, 2, 3}"
  shows "mem_counters st' k = mem_counters st k - style_bytes k cp"
    "style_bytes k cp' = 0" "sha1 cp' = sha1 cp" "item_len cp' = item_len cp"
  using assms by (auto simp: free_data_memory_def mem_counters_def style_bytes_def Let_def split: if_splits)

lemma counters_frame [simp]:
  "mem_counters (devote cp st) k = mem_counters st k"
  "mem_counters (st\<lparr>mmf := x\<rparr>) k = mem_counters st k"
  "mem_counters (st\<lparr>mmd := x\<rparr>) k = mem_counters st k"
  "mem_counters (st\<lparr>mmm := x\<rparr>) k = mem_counters st k"
  "mem_counters (st\<lparr>mmw := x\<rparr>) k = mem_counters st k"
  "mem_counters (st\<lparr>sum_num := x\<rparr>) k = mem_counters st k"
  "mem_counters (st\<lparr>save_num := x\<rparr>) k = mem_counters st k"
  "mem_counters (st\<lparr>skb_num := x\<rparr>) k = mem_counters st k"
  "mem_counters (st\<lparr>rdl := x\<rparr>) k = mem_counters st k"
  "mem_counters (st\<lparr>rdf := x\<rparr>) k = mem_counters st k"
  by (auto simp: devote_def mem_counters_def Let_def)

section \<open>Preservation\<close>

text \<open>An update in place that keeps the key: the counters must follow the data block.\<close>

lemma table_inv_upd:
  assumes inv: "table_inv s" and it: "item_at s a = Some cp" and key: "sha1 cp' = sha1 cp"
    and bl: "block_ok cp'"
    and s': "item_at s' = (item_at s)(a \<mapsto> cp')" "hash_tab s' = hash_tab s" "hash_count s' = hash_count s"
    and st: "\<And>k. k \<in> {0, 1, 2, 3} \<Longrightarrow>
      mem_counters (stats s') k = mem_counters (stats s) k + style_bytes k cp' - style_bytes k cp"
  shows "table_inv s'"
proof -
  have fin: "finite (dom (item_at s))" using inv by (simp add: table_inv_def)
  have "\<forall>x y. item_at s' x = Some y \<longrightarrow> block_ok y" using inv bl by (auto simp: table_inv_def s')
  moreover have "links_ok s'" using inv it key by (auto simp: table_inv_def links_ok_def s')
  moreover have "hash_count s' = item_sum (\<lambda>_. 1) s'"
    using inv it by (simp add: item_sum_upd [OF fin s'(1)] s'(3) table_inv_def)
  moreover have "mem_counters (stats s') k = item_sum (style_bytes k) s'" if "k \<in> {0, 1, 2, 3}" for k
    using table_inv_counters [OF inv that] it st [OF that] by (simp add: item_sum_upd [OF fin s'(1)])
  ultimately show ?thesis using fin by (simp add: table_inv_def s')
qed

lemma table_inv_update:
  assumes "table_inv s" "item_at s a = Some cp" "sha1 cp' = sha1 cp"
    and "block_ok cp'" "mem_style cp' = mem_style cp" "item_len cp' = item_len cp"
    and "\<forall>k \<in> {0, 1, 2, 3}. mem_counters st k = mem_counters (stats s) k"
  shows "table_inv ((set_item a cp' s)\<lparr>stats := st\<rparr>)"
proof (rule table_inv_upd [OF assms(1-4)])
  fix k :: int assume "k \<in> {0, 1, 2, 3}"
  then have "mem_counters st k = mem_counters (stats s) k" using assms(7) by blast
  then show "mem_counters (stats ((set_item a cp' s)\<lparr>stats := st\<rparr>)) k
      = mem_counters (stats s) k + style_bytes k cp' - style_bytes k cp"
    by (simp add: assms(5,6) style_bytes_def)
qed (simp_all add: set_item_def)

text \<open>A new item: fresh address, linked into the bucket of its key.\<close>

lemma table_inv_new:
  assumes inv: "table_inv s" and new: "item_at s a = None" and bl: "block_ok cp"
    and s': "item_at s' = (item_at s)(a \<mapsto> cp)" "hash_count s' = hash_count s + 1"
    "hash_tab s' = (hash_tab s)(bucket_of (sha1 cp) := a # hash_tab s (bucket_of (sha1 cp)))"
    and st: "\<And>k. k \<in> {0, 1, 2, 3} \<Longrightarrow>
      mem_counters (stats s') k = mem_counters (stats s) k + style_bytes k cp"
  shows "table_inv s'"
proof -
  have fin: "finite (dom (item_at s))" using inv by (simp add: table_inv_def)
  have "\<forall>x y. item_at s' x = Some y \<longrightarrow> block_ok y" using inv bl by (auto simp: table_inv_def s')
  moreover have "links_ok s'" using inv new by (auto simp: table_inv_def links_ok_def s')
  moreover have "hash_count s' = item_sum (\<lambda>_. 1) s'"
    using inv new by (simp add: item_sum_upd [OF fin s'(1)] s'(2) table_inv_def)
  moreover have "mem_counters (stats s') k = item_sum (style_bytes k) s'" if "k \<in> {0, 1, 2, 3}" for k
    using table_inv_counters [OF inv that] new st [OF that] by (simp add: item_sum_upd [OF fin s'(1)])
  ultimately show ?thesis using fin by (simp add: table_inv_def s')
qed

text \<open>The shape of a successful insertion.\<close>

lemma hash_new_item_Some:
  assumes "hash_new_item mx mem ok info val n s = Some (Some a, s')"
  obtains cp st where "mem = Some a" "item_at s' = (item_at s)(a \<mapsto> cp)"
    "hash_tab s' = (hash_tab s)(bucket_of (sha1 cp) := a # hash_tab s (bucket_of (sha1 cp)))"
    "hash_count s' = hash_count s + 1" "sha1 cp = take SHA1SIZE info" "item_len cp = n"
    "read_block (the (item_data cp)) 0 n = Some (take n val)" "item_data cp \<noteq> None"
    "n \<le> length val" "SHA1SIZE \<le> length info"
    "\<And>k. k \<in> {0, 1, 2, 3} \<Longrightarrow>
      mem_counters (stats s') k = mem_counters (stats s) k + style_bytes k cp"
    "flag_cache cp = 0" "flag_mem cp = 0" "cpuid cp = -1" "share_ref cp = 1" "refcnt cp = 6"
    "mem_style cp \<in> {0, 1, 2, 3}"
    "s' = s\<lparr>item_at := item_at s', hash_tab := hash_tab s', hash_count := hash_count s', stats := stats s'\<rparr>"
proof -
  let ?cp0 = "blank_item\<lparr>item_len := n, mem_style := -1\<rparr>"
  from assms obtain cp1 st d where mem: "mem = Some a"
    and al: "alloc_data_memory ok ?cp0 n (stats s) = Some (cp1, st)"
    and len: "n \<le> length val" "SHA1SIZE \<le> length info"
    and cpy: "memcpy_at (the (item_data cp1)) 0 (take n val) = Some d"
    and s': "s' = hash_link (bucket_of (take SHA1SIZE info)) a
      ((set_item a (cp1\<lparr>item_data := Some d, cpuid := -1, store_flag := 0,
          sha1 := take SHA1SIZE info, refcnt := ITEM_CITE_ADD, share_ref := 1\<rparr>) s)
        \<lparr>stats := st, hash_count := hash_count s + 1\<rparr>)"
    by (auto simp: hash_new_item_def Let_def split: if_splits option.splits)
  let ?cp = "cp1\<lparr>item_data := Some d, cpuid := -1, store_flag := 0,
          sha1 := take SHA1SIZE info, refcnt := ITEM_CITE_ADD, share_ref := 1\<rparr>"
  have rd: "read_block d 0 n = Some (take n val)"
    using read_after_memcpy [OF cpy] len(1) by simp
  have cp1: "item_len cp1 = n" "flag_cache cp1 = 0" "flag_mem cp1 = 0" "mem_style cp1 \<in> {0, 1, 2, 3}"
    using al by (auto simp: alloc_data_memory_def blank_item_def split: if_splits)
  have cnt: "mem_counters st k = mem_counters (stats s) k + style_bytes k ?cp" if "k \<in> {0, 1, 2, 3}" for k
    using alloc_counters(1) [OF al _ that] that by (auto simp: style_bytes_def)
  show ?thesis
    by (rule that [of ?cp])
      (use mem len rd cp1 cnt in
        \<open>simp_all add: s' hash_link_def set_item_def ITEM_CITE_ADD_def style_bytes_def\<close>)
qed

lemma hash_new_item_inv:
  assumes inv: "table_inv s" and fresh: "\<And>a. mem = Some a \<Longrightarrow> item_at s a = None"
    and r: "hash_new_item mx mem ok info val n s = Some (res, s')"
  shows "table_inv s'"
proof (cases res)
  case None
  with r inv show ?thesis
    by (auto simp: hash_new_item_def Let_def split: if_splits option.splits)
next
  case (Some a)
  from r [unfolded Some] show ?thesis
    by (rule hash_new_item_Some) (rule table_inv_new [OF inv]; simp add: fresh block_ok_def holds_memory_def)
qed

lemma get_hash_item_inv:
  assumes "table_inv s" "get_hash_item info s = (res, s')"
  shows "table_inv s'"
proof (cases res)
  case None
  with assms show ?thesis by (auto simp: get_hash_item_def Let_def split: option.splits)
next
  case (Some a)
  with assms(2) obtain cp where it: "item_at s a = Some cp" and s': "s' = (set_item a
      (cp\<lparr>refcnt := refcnt cp + ITEM_CITE_FIND, share_ref := share_ref cp + 1,
          flag_cache := (if flag_cache cp = 1 then 4 else flag_cache cp)\<rparr>) s)\<lparr>stats := devote cp (stats s)\<rparr>"
    by (auto simp: get_hash_item_def Let_def split: option.splits)
  have "block_ok cp" using assms(1) it by (simp add: table_inv_def)
  then show ?thesis
    unfolding s' by (intro table_inv_update [OF assms(1) it]) (auto simp: block_ok_def holds_memory_def)
qed

lemma unlink_delete_inv:
  assumes inv: "table_inv s" and it: "item_at s a = Some cp" and b: "bucket_of (sha1 cp) = b"
    and st: "\<forall>k \<in> {0, 1, 2, 3}. mem_counters (stats s') k = mem_counters (stats s) k - style_bytes k cp"
    and s': "item_at s' = (item_at s)(a := None)" "hash_count s' = hash_count s - 1"
    "hash_tab s' = (hash_tab s)(b := remove1 a (hash_tab s b))"
  shows "table_inv s'"
proof -
  have fin: "finite (dom (item_at s))" using inv by (simp add: table_inv_def)
  note sum = item_sum_del [OF fin it s'(1)]
  have "links_ok s'"
    using inv it b by (auto simp: s' table_inv_def links_ok_def distinct_remove1 set_remove1_eq)
  then show ?thesis
    using inv st fin by (auto simp: table_inv_def sum s')
qed

text \<open>Freeing on deletion: \<open>mmf\<close> grows, the block's counter shrinks.\<close>

definition release_data :: "hashinfo_item \<Rightarrow> wstats \<Rightarrow> wstats option" where
  "release_data cp st =
     (if holds_memory cp
      then map_option (\<lambda>(_, st). st\<lparr>mmf := mmf st + of_nat (item_len cp)\<rparr>) (free_data_memory cp st)
      else Some st)"

lemma release_counters:
  assumes "release_data cp st0 = Some st" "block_ok cp" "k \<in> {0, 1, 2, 3}"
  shows "mem_counters st k = mem_counters st0 k - style_bytes k cp"
proof (cases "holds_memory cp")
  case True
  with assms(1) obtain cp' st1 where "free_data_memory cp st0 = Some (cp', st1)"
    "st = st1\<lparr>mmf := mmf st1 + of_nat (item_len cp)\<rparr>"
    by (auto simp: release_data_def)
  then show ?thesis using free_counters(1) [OF _ assms(3)] by simp
next
  case False
  with assms show ?thesis by (auto simp: release_data_def style_bytes_def block_ok_def)
qed

lemma clear_delete_Some:
  assumes "clear_delete b a cp s = Some s'"
  obtains st where "release_data cp (stats s) = Some st"
    "item_at s' = (item_at s)(a := None)" "hash_count s' = hash_count s - 1"
    "hash_tab s' = (hash_tab s)(b := remove1 a (hash_tab s b))"
    "\<And>k. mem_counters (stats s') k = mem_counters st k"
    "bitmap s' = (if holds_disk cp then (bitmap s)(nat (cpuid cp) :=
        set_bits (item_start cp) (num_chunks (item_len cp)) False (bitmap s (nat (cpuid cp)))) else bitmap s)"
    "bitmap_index s' = bitmap_index s" "loff_file s' = loff_file s" "file_of s' = file_of s"
proof -
  from assms obtain st where st: "release_data cp (stats s) = Some st"
    unfolding clear_delete_def release_data_def [symmetric] Let_def
    by (auto split: option.splits)
  show ?thesis
    by (rule that [OF st])
      (use assms in \<open>auto simp: clear_delete_def release_data_def [symmetric] st Let_def hash_unlink_def\<close>)
qed

lemma clear_delete_inv:
  assumes inv: "table_inv s" and it: "item_at s a = Some cp" and b: "bucket_of (sha1 cp) = b"
    and r: "clear_delete b a cp s = Some s'"
  shows "table_inv s'"
  using r
proof (rule clear_delete_Some)
  fix st
  assume "release_data cp (stats s) = Some st"
    and s': "item_at s' = (item_at s)(a := None)" "hash_count s' = hash_count s - 1"
    "hash_tab s' = (hash_tab s)(b := remove1 a (hash_tab s b))"
    "\<And>k. mem_counters (stats s') k = mem_counters st k"
  moreover have "block_ok cp" using inv it by (simp add: table_inv_def)
  ultimately show ?thesis
    using release_counters by (intro unlink_delete_inv [OF inv it b]) auto
qed

lemma age_item_frame [simp]:
  "sha1 (fst (age_item (cp, st))) = sha1 cp" "mem_style (fst (age_item (cp, st))) = mem_style cp"
  "item_len (fst (age_item (cp, st))) = item_len cp" "item_data (fst (age_item (cp, st))) = item_data cp"
  "share_ref (fst (age_item (cp, st))) = share_ref cp" "refcnt (fst (age_item (cp, st))) = refcnt cp"
  "cpuid (fst (age_item (cp, st))) = cpuid cp" "item_start (fst (age_item (cp, st))) = item_start cp"
  "flag_mem (fst (age_item (cp, st))) = flag_mem cp"
  "mem_counters (snd (age_item (cp, st))) k = mem_counters st k"
  by (simp_all add: age_item_def age_promote_def age_disk_def age_vip_def age_store_def split: prod.splits)

lemma age_item_block_ok [simp]: "block_ok cp \<Longrightarrow> block_ok (fst (age_item (cp, st)))"
  by (auto simp: block_ok_def holds_memory_def age_item_def age_promote_def age_disk_def age_vip_def
      age_store_def split: prod.splits)

section \<open>Loops over a bucket\<close>

text \<open>
  The loops \<open>list_for_each_entry_safe\<close> visit the entries the bucket had when they started.
  A step that keeps a property and leaves the other entries in their bucket gives the property
  after the loop; \<open>\<pi>\<close> projects the table out of the loop's accumulator.
\<close>

lemma bucket_loop:
  assumes step: "\<And>acc a acc'. P (\<pi> acc) \<Longrightarrow> a \<in> set (hash_tab (\<pi> acc) b) \<Longrightarrow> f (Some acc) a = Some acc' \<Longrightarrow>
      P (\<pi> acc') \<and> set (hash_tab (\<pi> acc) b) - {a} \<subseteq> set (hash_tab (\<pi> acc') b)"
    and stop: "\<And>a. f None a = None"
    and "P (\<pi> acc)" "distinct xs" "set xs \<subseteq> set (hash_tab (\<pi> acc) b)"
    and "foldl f (Some acc) xs = Some acc'"
  shows "P (\<pi> acc')"
  using assms(3-)
proof (induction xs arbitrary: acc)
  case Nil
  then show ?case by simp
next
  case (Cons a xs)
  have none: "foldl f None ys = None" for ys by (induction ys) (simp_all add: stop)
  from Cons.prems(4) obtain acc1 where 1: "f (Some acc) a = Some acc1"
    by (cases "f (Some acc) a") (simp_all add: none)
  have "P (\<pi> acc1)" "set (hash_tab (\<pi> acc) b) - {a} \<subseteq> set (hash_tab (\<pi> acc1) b)"
    using step [OF Cons.prems(1) _ 1] Cons.prems(3) by auto
  with Cons.prems 1 show ?case by (intro Cons.IH [of acc1]) auto
qed

lemma bucket_loop_total:
  assumes step: "\<And>acc a. P (\<pi> acc) \<Longrightarrow> a \<in> set (hash_tab (\<pi> acc) b) \<Longrightarrow>
      \<exists>acc'. f (Some acc) a = Some acc' \<and> P (\<pi> acc') \<and> set (hash_tab (\<pi> acc) b) - {a} \<subseteq> set (hash_tab (\<pi> acc') b)"
    and "P (\<pi> acc)" "distinct xs" "set xs \<subseteq> set (hash_tab (\<pi> acc) b)"
  shows "\<exists>acc'. foldl f (Some acc) xs = Some acc' \<and> P (\<pi> acc')"
  using assms(2-)
proof (induction xs arbitrary: acc)
  case Nil
  then show ?case by simp
next
  case (Cons a xs)
  from step [OF Cons.prems(1)] Cons.prems(3) obtain acc1 where "f (Some acc) a = Some acc1" "P (\<pi> acc1)"
    "set (hash_tab (\<pi> acc) b) - {a} \<subseteq> set (hash_tab (\<pi> acc1) b)"
    by (metis list.set_intros(1) subsetD)
  with Cons.IH [of acc1] Cons.prems show ?case by auto
qed

lemma links_okD:
  assumes "table_inv s" "a \<in> set (hash_tab s b)"
  obtains cp where "item_at s a = Some cp" "bucket_of (sha1 cp) = b"
  using assms unfolding table_inv_def links_ok_def by blast

lemma clear_step_inv:
  assumes inv: "table_inv s" and a: "a \<in> set (hash_tab s b)"
    and r: "clear_step b (Some (fl, s)) a = Some (fl', s')"
  shows "table_inv s' \<and> set (hash_tab s b) - {a} \<subseteq> set (hash_tab s' b)"
proof -
  from inv a obtain cp where it: "item_at s a = Some cp" and b: "bucket_of (sha1 cp) = b"
    by (rule links_okD)
  show ?thesis
  proof (cases "share_ref cp = 1 \<and> sint (refcnt cp) \<le> 1")
    case True
    with r it have d: "clear_delete b a cp s = Some s'"
      by (auto simp: clear_step_def)
    from d have "hash_tab s' = (hash_tab s)(b := remove1 a (hash_tab s b))"
      by (rule clear_delete_Some)
    moreover have "distinct (hash_tab s b)" using inv by (simp add: table_inv_def links_ok_def)
    ultimately show ?thesis using clear_delete_inv [OF inv it b d] by (simp add: set_remove1_eq)
  next
    case False
    let ?x = "age_item (cp\<lparr>refcnt := refcnt cp - 1\<rparr>, stats s)"
    have s': "s' = (set_item a (fst ?x) s)\<lparr>stats := snd ?x\<rparr>"
      using r it False by (auto simp: clear_step_def split: prod.splits)
    have "block_ok (cp\<lparr>refcnt := refcnt cp - 1\<rparr>)"
      using inv it by (auto simp: table_inv_def block_ok_def holds_memory_def)
    then have "table_inv s'"
      unfolding s' by (intro table_inv_update [OF inv it]) simp_all
    then show ?thesis by (simp add: s' set_item_def)
  qed
qed

lemma bucket_clear_item_inv:
  assumes inv: "table_inv s" and r: "bucket_clear_item b s = Some s'"
  shows "table_inv s'"
proof -
  from r obtain fl s1 where f: "foldl (clear_step b) (Some (False, s)) (hash_tab s b) = Some (fl, s1)"
    and s': "s' = s1 \<or> s' = s1\<lparr>work_queued := (work_queued s1)(b := True)\<rparr>"
    by (auto simp: bucket_clear_item_def split: option.splits if_splits)
  have "table_inv (snd (fl, s1))"
  proof (rule bucket_loop [where P = table_inv and \<pi> = snd, OF _ _ _ _ _ f])
    fix acc a acc'
    assume "table_inv (snd acc)" "a \<in> set (hash_tab (snd acc) b)" "clear_step b (Some acc) a = Some acc'"
    then show "table_inv (snd acc') \<and> set (hash_tab (snd acc) b) - {a} \<subseteq> set (hash_tab (snd acc') b)"
      using clear_step_inv [of "snd acc" a b "fst acc" "fst acc'" "snd acc'"] by simp
  qed (use inv in \<open>simp_all add: clear_step_def table_inv_def links_ok_def\<close>)
  then show ?thesis using s' by (auto simp: table_inv_def links_ok_def item_sum_def)
qed

lemma flush_step_inv:
  assumes inv: "table_inv s" and a: "a \<in> set (hash_tab s b)"
    and r: "flush_step b (Some s) a = Some s'"
  shows "table_inv s' \<and> hash_tab s' = (hash_tab s)(b := remove1 a (hash_tab s b))"
proof -
  from inv a obtain cp where it: "item_at s a = Some cp" and b: "bucket_of (sha1 cp) = b"
    by (rule links_okD)
  from r it obtain st where st: "release_data cp (stats s) = Some st"
    and s': "s' = (hash_unlink b a s)\<lparr>hash_count := hash_count s - 1, stats := st,
      item_at := (item_at s)(a := None)\<rparr>"
    unfolding flush_step_def release_data_def [symmetric] Let_def
    by (auto simp: hash_unlink_def split: option.splits)
  have "block_ok cp" using inv it by (simp add: table_inv_def)
  then have "table_inv s'"
    using release_counters [OF st]
    by (intro unlink_delete_inv [OF inv it b]) (auto simp: s' hash_unlink_def)
  then show ?thesis by (simp add: s' hash_unlink_def)
qed

text \<open>Flushing one bucket empties it and leaves the others.\<close>

lemma flush_bucket_empty:
  assumes "table_inv s" "foldl (flush_step b) (Some s) (hash_tab s b) = Some s'"
  shows "table_inv s' \<and> hash_tab s' = (hash_tab s)(b := [])"
proof -
  have "table_inv s' \<and> hash_tab s' = (hash_tab s)(b := [])"
    if "table_inv s" "hash_tab s b = xs" "foldl (flush_step b) (Some s) xs = Some s'" for xs
    using that
  proof (induction xs arbitrary: s)
    case Nil
    then show ?case by auto
  next
    case (Cons a xs)
    have none: "foldl (flush_step b) None ys = None" for ys
      by (induction ys) (simp_all add: flush_step_def)
    from Cons.prems(3) obtain s1 where 1: "flush_step b (Some s) a = Some s1"
      by (cases "flush_step b (Some s) a") (simp_all add: none)
    have "table_inv s1" "hash_tab s1 = (hash_tab s)(b := xs)"
      using flush_step_inv [OF Cons.prems(1) _ 1] Cons.prems(2) by auto
    then show ?case using Cons.IH [of s1] Cons.prems(3) 1 by (simp add: fun_upd_def fun_eq_iff)
  qed
  then show ?thesis using assms by blast
qed

lemma flush_range:
  assumes "table_inv s" "foldl flush_bucket (Some s) bs = Some s'"
  shows "table_inv s' \<and> hash_tab s' = (\<lambda>b. if b \<in> set bs then [] else hash_tab s b)"
  using assms
proof (induction bs arbitrary: s)
  case Nil
  then show ?case by simp
next
  case (Cons b bs)
  have none: "foldl flush_bucket None ys = None" for ys
    by (induction ys) (simp_all add: flush_bucket_def)
  from Cons.prems(2) obtain s1 where 1: "foldl (flush_step b) (Some s) (hash_tab s b) = Some s1"
    by (cases "foldl (flush_step b) (Some s) (hash_tab s b)")
      (simp_all add: none flush_bucket_def [of "Some s"])
  have "table_inv s1" "hash_tab s1 = (hash_tab s)(b := [])"
    using flush_bucket_empty [OF Cons.prems(1) 1] by auto
  then show ?case using Cons.IH [of s1] Cons.prems(2) 1 by (auto simp: flush_bucket_def)
qed

text \<open>After \<open>hash_flush\<close> no item is left, so every counter is back at zero.\<close>

lemma hash_flush_empty:
  assumes inv: "table_inv s" and r: "hash_flush s = Some s'"
  shows "item_at s' = Map.empty" "hash_count s' = 0" "k \<in> {0, 1, 2, 3} \<Longrightarrow> mem_counters (stats s') k = 0"
proof -
  have t: "table_inv s'" and tab: "hash_tab s' = (\<lambda>b. if b < unat hash_tab_size then [] else hash_tab s b)"
    using flush_range [OF inv r [unfolded hash_flush_def]] by auto
  have "item_at s' a = None" for a
  proof (rule ccontr)
    assume "item_at s' a \<noteq> None"
    then obtain cp where "item_at s' a = Some cp" by auto
    then have "a \<in> set (hash_tab s' (bucket_of (sha1 cp)))" using t by (auto simp: table_inv_def links_ok_def)
    then show False using bucket_of_less [of "sha1 cp"] by (simp add: tab hash_tab_size_val)
  qed
  then show e: "item_at s' = Map.empty" by auto
  show "hash_count s' = 0" using t by (simp add: table_inv_def e item_sum_def)
  show "k \<in> {0, 1, 2, 3} \<Longrightarrow> mem_counters (stats s') k = 0"
    using table_inv_counters [OF t] by (simp add: e item_sum_def)
qed

section \<open>Lookup\<close>

lemma bucket_find_Some:
  assumes "table_inv s" "bucket_find info s = Some a"
  obtains cp where "item_at s a = Some cp" "sha1 cp = info"
  using assms(2) unfolding bucket_find_def find_Some_iff by blast

lemma bucket_find_iff:
  assumes "table_inv s"
  shows "bucket_find info s = None \<longleftrightarrow> (\<forall>a cp. item_at s a = Some cp \<longrightarrow> sha1 cp \<noteq> info)"
proof -
  have "a \<in> set (hash_tab s (bucket_of info))" if "item_at s a = Some cp" "sha1 cp = info" for a cp
    using assms that unfolding table_inv_def links_ok_def by blast
  then show ?thesis unfolding bucket_find_def find_None_iff by blast
qed

text \<open>What was inserted is found: the entry at the head of its bucket.\<close>

lemma find_after_new:
  assumes "hash_new_item mx mem ok info val n s = Some (Some a, s')"
  shows "bucket_find (take SHA1SIZE info) s' = Some a"
  using assms by (rule hash_new_item_Some) (simp add: bucket_find_def)

section \<open>Properties\<close>

text \<open>
  (C21) Insert and look up. After \<open>hash_new_item\<close> returned an entry for a chunk, looking up the
  chunk's SHA-1 returns that entry, its data block holds exactly the chunk, and the lookup took a
  reference: \<open>share_ref\<close> is 2 and \<open>refcnt\<close> the sum of both citations.
\<close>

theorem insert_lookup:
  assumes "hash_new_item mx mem ok info val n s = Some (Some a, s')"
  shows "\<exists>cp d. get_hash_item (take SHA1SIZE info) s' = (Some a, (set_item a cp s')\<lparr>stats := devote cp (stats s')\<rparr>)
    \<and> item_data cp = Some d \<and> read_block d 0 n = Some (take n val)
    \<and> share_ref cp = 2 \<and> refcnt cp = ITEM_CITE_ADD + ITEM_CITE_FIND"
  using assms
proof (rule hash_new_item_Some)
  fix cp st
  assume it: "item_at s' = (item_at s)(a \<mapsto> cp)" "sha1 cp = take SHA1SIZE info"
    and d: "read_block (the (item_data cp)) 0 n = Some (take n val)" "item_data cp \<noteq> None"
    and f: "flag_cache cp = 0" "share_ref cp = 1" "refcnt cp = 6"
  let ?cp = "cp\<lparr>refcnt := refcnt cp + ITEM_CITE_FIND, share_ref := share_ref cp + 1, flag_cache := 0\<rparr>"
  have "devote cp = devote ?cp" using f(1) by (simp add: devote_def fun_eq_iff Let_def)
  then have "get_hash_item (take SHA1SIZE info) s' = (Some a, (set_item a ?cp s')\<lparr>stats := devote ?cp (stats s')\<rparr>)"
    using find_after_new [OF assms] it(1) f(1) by (simp add: get_hash_item_def Let_def)
  with d f show ?thesis by (intro exI [of _ ?cp]) (auto simp: ITEM_CITE_ADD_def)
qed

text \<open>
  Lookup is exact on a table in order: \<open>get_hash_item\<close> returns \<open>NULL\<close> and changes
  nothing if and only if no item has the key; otherwise it returns an item with the key, takes one
  reference on it and leaves every other item as it was.
\<close>

theorem lookup_exact:
  assumes "table_inv s"
  shows "case get_hash_item info s of
      (None, s') \<Rightarrow> s' = s \<and> (\<forall>a cp. item_at s a = Some cp \<longrightarrow> sha1 cp \<noteq> info)
    | (Some a, s') \<Rightarrow> (\<exists>cp. item_at s a = Some cp \<and> sha1 cp = info
         \<and> (\<exists>cp'. item_at s' = (item_at s)(a \<mapsto> cp') \<and> share_ref cp' = share_ref cp + 1
              \<and> refcnt cp' = refcnt cp + ITEM_CITE_FIND \<and> sha1 cp' = info \<and> item_data cp' = item_data cp))"
proof (cases "bucket_find info s")
  case None
  then show ?thesis using bucket_find_iff [OF assms, of info] by (simp add: get_hash_item_def)
next
  case (Some a)
  with bucket_find_Some [OF assms] obtain cp where "item_at s a = Some cp" "sha1 cp = info" by metis
  with Some show ?thesis by (auto simp: get_hash_item_def Let_def set_item_def)
qed

end
