(* ===== verification/Write_Back.thy ===== *)
theory Write_Back
  imports Hash_Table_Inv
begin

text \<open>
  Write-back and read-back of cached chunks: \<open>wr_file\<close> (\<open>kernel_hash/hash_table.c\<close>), which
  moves the cold items of a bucket to the file of the CPU it runs on, and the per-item body of
  \<open>read_data\<close> (\<open>kernel_hash/nf_in.c\<close>), which brings an item back. The three passes of
  \<open>wr_file\<close> are separate definitions, because other code runs between them.

  Arguments for the outside: the CPU \<open>get_cpu\<close> reports, whether \<open>kzalloc\<close> succeeds, the
  values \<open>kernel_write\<close> and \<open>kernel_read\<close> return (a count of bytes moved, or an error). A
  file is the function from positions to bytes; how much of it a read delivers is the count.
\<close>

section \<open>The passes of \<open>wr_file\<close>\<close>

definition bitmap_size :: nat where "bitmap_size = 41943040"

text \<open>Cold, not shared, waiting for the disk.\<close>

definition wr_due :: "hashinfo_item \<Rightarrow> bool" where
  "wr_due cp \<longleftrightarrow> sint (refcnt cp) < ITEM_VIP_LIMIT \<and> ITEM_DISK_LIMIT \<le> sint (refcnt cp)
     \<and> flag_cache cp = 2 \<and> share_ref cp = 1"

text \<open>Pass 1: sum the bytes, mark the items with \<open>cpuid = -2\<close>.\<close>

definition mark_item :: "hashinfo_item \<Rightarrow> hashinfo_item" where
  "mark_item cp = cp\<lparr>store_flag := (if store_flag cp = 1 then 2 else store_flag cp), cpuid := -2\<rparr>"

definition wr_mark_step :: "(nat \<times> wcache) option \<Rightarrow> nat \<Rightarrow> (nat \<times> wcache) option" where
  "wr_mark_step acc a =
     (case acc of None \<Rightarrow> None
      | Some (all_size, s) \<Rightarrow>
        (case item_at s a of None \<Rightarrow> None
         | Some cp \<Rightarrow>
           if wr_due cp \<and> cpuid cp = -1
           then Some (all_size + num_chunks (item_len cp) * CHUNKSTEP, set_item a (mark_item cp) s)
           else Some (all_size, s)))"

definition wr_mark :: "nat \<Rightarrow> wcache \<Rightarrow> (nat \<times> wcache) option" where
  "wr_mark b s = foldl wr_mark_step (Some (0, s)) (hash_tab s b)"

text \<open>Pass 2: give each marked item its place in the file of \<open>cpu\<close> and copy its data.\<close>

record wr_buf =
  copy_mem :: block
  mem_index :: nat
  st_all_size :: nat

definition place_item :: "nat \<Rightarrow> nat \<Rightarrow> hashinfo_item \<Rightarrow> wr_buf \<Rightarrow> wcache \<Rightarrow> (wr_buf \<times> wcache) option" where
  "place_item cpu a cp w s =
     (let num = num_chunks (item_len cp);
          find_index = bitmap_find_next_zero_area (bitmap s cpu) bitmap_size (bitmap_index s cpu) num 0
      in if bitmap_size < find_index then None
         else case item_data cp of None \<Rightarrow> None
         | Some d \<Rightarrow> (case read_block d 0 (item_len cp) of None \<Rightarrow> None
           | Some v \<Rightarrow> (case memcpy_at (copy_mem w) (mem_index w) v of None \<Rightarrow> None
             | Some m \<Rightarrow>
               Some (w\<lparr>copy_mem := m, mem_index := mem_index w + num * CHUNKSTEP,
                      st_all_size := st_all_size w + item_len cp\<rparr>,
                     (set_item a (cp\<lparr>item_start := find_index, cpuid := int cpu\<rparr>) s)
                       \<lparr>bitmap := (bitmap s)(cpu := set_bits find_index num True (bitmap s cpu)),
                        bitmap_index := (bitmap_index s)(cpu := bitmap_index s cpu + num)\<rparr>))))"

definition wr_place_step :: "nat \<Rightarrow> (wr_buf \<times> wcache) option \<Rightarrow> nat \<Rightarrow> (wr_buf \<times> wcache) option" where
  "wr_place_step cpu acc a =
     (case acc of None \<Rightarrow> None
      | Some (w, s) \<Rightarrow>
        (case item_at s a of None \<Rightarrow> None
         | Some cp \<Rightarrow>
           if cpuid cp = -2 \<and> flag_cache cp = 2 \<and> 1 < sint (share_ref cp)
           then Some (w, set_item a (cp\<lparr>cpuid := -1\<rparr>) s)
           else if wr_due cp \<and> cpuid cp = -2 then place_item cpu a cp w s
           else Some (w, s)))"

definition wr_place :: "nat \<Rightarrow> bool \<Rightarrow> nat \<Rightarrow> nat \<Rightarrow> wcache \<Rightarrow> (wr_buf \<times> wcache) option" where
  "wr_place cpu ok b all_size s =
     (if \<not> ok then None
      else foldl (wr_place_step cpu)
        (Some (\<lparr>copy_mem = zalloc_block all_size, mem_index = 0, st_all_size = 0\<rparr>, s)) (hash_tab s b))"

text \<open>Writing the buffer: \<open>kernel_write\<close> stores the first \<open>ret\<close> bytes at \<open>loff_file\<close>.\<close>

definition file_write :: "(nat \<Rightarrow> byte) \<Rightarrow> nat \<Rightarrow> byte list \<Rightarrow> nat \<Rightarrow> byte" where
  "file_write f pos buf = (\<lambda>i. if pos \<le> i \<and> i < pos + length buf then buf ! (i - pos) else f i)"

definition file_read :: "(nat \<Rightarrow> byte) \<Rightarrow> nat \<Rightarrow> nat \<Rightarrow> byte list" where
  "file_read f pos n = map f [pos..<pos + n]"

definition wr_write :: "nat \<Rightarrow> int \<Rightarrow> nat \<Rightarrow> wr_buf \<Rightarrow> wcache \<Rightarrow> wcache option" where
  "wr_write cpu ret all_size w s =
     (if ret < 0 then None
      else case read_block (copy_mem w) 0 all_size of None \<Rightarrow> None
      | Some buf \<Rightarrow>
        Some (s\<lparr>file_of := (file_of s)(cpu := file_write (file_of s cpu) (loff_file s cpu) (take (nat ret) buf)),
               loff_file := (loff_file s)(cpu := loff_file s cpu + all_size),
               stats := (stats s)\<lparr>mmw := mmw (stats s) + of_nat (st_all_size w)\<rparr>\<rparr>))"

text \<open>Pass 3: items that are on disk and not in use give up their memory.\<close>

definition wr_release_step :: "wcache option \<Rightarrow> nat \<Rightarrow> wcache option" where
  "wr_release_step acc a =
     (case acc of None \<Rightarrow> None
      | Some s \<Rightarrow>
        (case item_at s a of None \<Rightarrow> None
         | Some cp \<Rightarrow>
           if flag_cache cp = 2 \<and> share_ref cp = 1 \<and> 0 \<le> cpuid cp
           then map_option (\<lambda>(cp', st). (set_item a cp' s)\<lparr>stats := st\<rparr>)
                  (free_data_memory (cp\<lparr>flag_cache := 1\<rparr>) (stats s))
           else Some s))"

definition wr_release :: "nat \<Rightarrow> wcache \<Rightarrow> wcache option" where
  "wr_release b s = foldl wr_release_step (Some s) (hash_tab s b)"

text \<open>The whole work item when nothing runs in between; the CPU is read twice.\<close>

definition wr_file :: "nat \<Rightarrow> nat \<Rightarrow> bool \<Rightarrow> int \<Rightarrow> nat \<Rightarrow> wcache \<Rightarrow> wcache option" where
  "wr_file cpu cpu' ok ret b s =
     (case wr_mark b s of None \<Rightarrow> None
      | Some (all_size, s1) \<Rightarrow>
        if all_size = 0 then Some s1
        else case wr_place cpu ok b all_size s1 of None \<Rightarrow> None
        | Some (w, s2) \<Rightarrow> (case wr_write cpu' ret all_size w s2 of None \<Rightarrow> None
          | Some s3 \<Rightarrow> wr_release b s3))"

section \<open>Reading an item back\<close>

text \<open>
  The body of the read loop of \<open>read_data\<close> for one entry: \<open>got\<close> is what \<open>kernel_read\<close>
  returns. The temporary buffer is zeroed before the read.
\<close>

definition fetch_item :: "bool \<Rightarrow> int \<Rightarrow> nat \<Rightarrow> hashinfo_item \<Rightarrow> wcache \<Rightarrow> (hashinfo_item \<times> wstats) option" where
  "fetch_item ok got cpu cp s =
     (case alloc_data_memory ok cp (item_len cp) (stats s) of None \<Rightarrow> None
      | Some (cp1, st) \<Rightarrow>
        if got < 0 then None
        else let n = item_len cp;
                 r = file_read (file_of s cpu) (item_start cp * CHUNKSTEP) (min (nat got) n);
                 buf = r @ replicate (n - length r) 0
             in case item_data cp1 of None \<Rightarrow> None
             | Some d \<Rightarrow> (case memcpy_at d 0 buf of None \<Rightarrow> None
               | Some d' \<Rightarrow>
                 Some (cp1\<lparr>item_data := Some d', flag_mem := 1\<rparr>,
                       st\<lparr>rdl := rdl st + of_nat n, rdf := rdf st + 1\<rparr>)))"

definition read_item :: "bool \<Rightarrow> int \<Rightarrow> nat \<Rightarrow> nat \<Rightarrow> wcache \<Rightarrow> wcache option" where
  "read_item ok got cpu a s =
     (case item_at s a of None \<Rightarrow> None
      | Some cp \<Rightarrow>
        (case (if flag_mem cp = 0 then fetch_item ok got cpu cp s else Some (cp, stats s)) of None \<Rightarrow> None
         | Some (cp', st) \<Rightarrow>
           Some ((set_item a (cp'\<lparr>share_ref := share_ref cp' - 1\<rparr>) s)\<lparr>stats := st\<rparr>)))"

text \<open>The other way a reference ends: \<open>atomic_dec(&item->share_ref)\<close> in \<open>hand_hash\<close>.\<close>

definition drop_item :: "nat \<Rightarrow> wcache \<Rightarrow> wcache option" where
  "drop_item a s =
     (case item_at s a of None \<Rightarrow> None
      | Some cp \<Rightarrow> Some (set_item a (cp\<lparr>share_ref := share_ref cp - 1\<rparr>) s))"

section \<open>Files and places\<close>

lemma num_chunks_pos [simp]: "0 < num_chunks n"
  unfolding num_chunks_def CHUNKSTEP_def by (simp, arith)

lemma num_chunks_ge: "n \<le> num_chunks n * CHUNKSTEP"
  unfolding num_chunks_def CHUNKSTEP_def by (simp, arith)

lemma length_file_read [simp]: "length (file_read f pos n) = n"
  by (simp add: file_read_def)

lemma file_read_cong: "(\<And>i. pos \<le> i \<Longrightarrow> i < pos + n \<Longrightarrow> f i = g i) \<Longrightarrow> file_read f pos n = file_read g pos n"
  by (simp add: file_read_def)

lemma file_read_write_below:
  "pos + n \<le> off \<Longrightarrow> file_read (file_write f off buf) pos n = file_read f pos n"
  by (rule file_read_cong) (simp add: file_write_def)

text \<open>A bitmap that is clear from \<open>start\<close> on serves every request at \<open>start\<close>.\<close>

lemma area_first:
  assumes clear: "\<forall>i \<ge> start. \<not> m i" and nr: "0 < nr"
    and r: "bitmap_find_next_zero_area m sz start nr 0 \<le> sz"
  shows "bitmap_find_next_zero_area m sz start nr 0 = start \<and> start + nr \<le> sz"
proof -
  have st: "start \<le> sz"
  proof (rule ccontr)
    assume "\<not> start \<le> sz"
    then have "find_next_zero_bit m sz start = sz"
      by (simp add: find_next_zero_bit_def find_next_bit.simps)
    then have "bitmap_find_next_zero_area m sz start nr 0 = sz + nr"
      using nr by (subst bitmap_find_next_zero_area.simps) (simp add: ALIGN_MASK_def Let_def)
    then show False using r nr by simp
  qed
  have "zero_area m sz start nr 0 (bitmap_find_next_zero_area m sz start nr 0)"
    using area_sound [OF st, of m nr 0] r by simp
  then have "start + nr \<le> sz" by (auto simp: zero_area_def)
  then show ?thesis using area_at_start [OF clear _ nr] by simp
qed

end
