(* ===== verification/Cache_System.thy ===== *)
theory Cache_System
  imports Write_Back
begin

text \<open>
  The chunk cache as a running system. The operations of \<open>hash_table.c\<close> and the item
  handling of \<open>nf_in.c\<close> run concurrently: packet work (\<open>get_hash_item\<close>, \<open>add_hash_info\<close>,
  the end of a reference), the bucket timers and the write-back workers. A step is one region
  that the code makes atomic by a lock or by an atomic instruction; \<open>wr_file\<close> is three
  steps, because it drops the bucket lock before and after writing. What the kernel guarantees
  about its workers is in the guards: a CPU runs one work item at a time, on that CPU, and a
  bucket's work item is not run by two CPUs at once; reads and writes of the file are complete.

  \<open>pending\<close> are the references handed out by \<open>get_hash_item\<close> and not yet given back.
\<close>

section \<open>State and steps\<close>

record wr_job =
  wj_bucket :: nat
  wj_size :: nat
  wj_buf :: wr_buf
  wj_written :: bool

record wsys =
  cache :: wcache
  pending :: "nat multiset"
  job :: "nat \<Rightarrow> wr_job option"

text \<open>The part of \<open>wr_file\<close> under its first lock: passes 1 and 2.\<close>

definition wr_prepare :: "nat \<Rightarrow> bool \<Rightarrow> nat \<Rightarrow> wcache \<Rightarrow> (wr_job option \<times> wcache) option" where
  "wr_prepare c ok b s =
     (case wr_mark b s of None \<Rightarrow> None
      | Some (n, s1) \<Rightarrow>
        if n = 0 then Some (None, s1)
        else map_option (\<lambda>(w, s2).
               (Some \<lparr>wj_bucket = b, wj_size = n, wj_buf = w, wj_written = False\<rparr>, s2))
             (wr_place c ok b n s1))"

inductive wstep :: "(byte list \<Rightarrow> byte list) \<Rightarrow> wsys \<Rightarrow> wsys \<Rightarrow> bool" for sha where
  insert: "hash_new_item mx mem ok (sha v) v (length v) (cache x) = Some (r, s') \<Longrightarrow>
     (\<And>a. mem = Some a \<Longrightarrow> item_at (cache x) a = None) \<Longrightarrow>
     wstep sha x (x\<lparr>cache := s'\<rparr>)"
| get: "get_hash_item info (cache x) = (Some a, s') \<Longrightarrow> size (pending x) + 1 < 2 ^ 31 \<Longrightarrow>
     wstep sha x (x\<lparr>cache := s', pending := add_mset a (pending x)\<rparr>)"
| drop: "a \<in># pending x \<Longrightarrow> item_at (cache x) a = Some cp \<Longrightarrow> flag_cache cp \<noteq> 4 \<Longrightarrow>
     drop_item a (cache x) = Some s' \<Longrightarrow>
     wstep sha x (x\<lparr>cache := s', pending := pending x - {#a#}\<rparr>)"
| fetch: "a \<in># pending x \<Longrightarrow> item_at (cache x) a = Some cp \<Longrightarrow> flag_cache cp = 4 \<Longrightarrow>
     read_item ok (int (item_len cp)) (nat (cpuid cp)) a (cache x) = Some s' \<Longrightarrow>
     wstep sha x (x\<lparr>cache := s', pending := pending x - {#a#}\<rparr>)"
| account: "st = (stats (cache x))\<lparr>sum_num := n1, save_num := n2, skb_num := n3\<rparr> \<Longrightarrow>
     wstep sha x (x\<lparr>cache := (cache x)\<lparr>stats := st\<rparr>\<rparr>)"
| tick: "bucket_clear_item b (cache x) = Some s' \<Longrightarrow> wstep sha x (x\<lparr>cache := s'\<rparr>)"
| prepare: "work_queued (cache x) b \<Longrightarrow> job x c = None \<Longrightarrow>
     (\<And>c' j. job x c' = Some j \<Longrightarrow> wj_bucket j \<noteq> b) \<Longrightarrow>
     wr_prepare c ok b ((cache x)\<lparr>work_queued := (work_queued (cache x))(b := False)\<rparr>) = Some (j, s') \<Longrightarrow>
     wstep sha x (x\<lparr>cache := s', job := (job x)(c := j)\<rparr>)"
| wr: "job x c = Some j \<Longrightarrow> \<not> wj_written j \<Longrightarrow>
     wr_write c (int (wj_size j)) (wj_size j) (wj_buf j) (cache x) = Some s' \<Longrightarrow>
     wstep sha x (x\<lparr>cache := s', job := (job x)(c \<mapsto> j\<lparr>wj_written := True\<rparr>)\<rparr>)"
| release: "job x c = Some j \<Longrightarrow> wj_written j \<Longrightarrow> wr_release (wj_bucket j) (cache x) = Some s' \<Longrightarrow>
     wstep sha x (x\<lparr>cache := s', job := (job x)(c := None)\<rparr>)"

inductive_cases wstepE: "wstep sha x x'"

text \<open>The state after \<open>minit\<close>: an empty table, bitmaps clear, files with any contents.\<close>

definition fresh_cache :: "wcache \<Rightarrow> bool" where
  "fresh_cache s \<longleftrightarrow> hash_tab s = (\<lambda>_. []) \<and> item_at s = Map.empty \<and> hash_count s = 0
     \<and> mm0 (stats s) = 0 \<and> mm1 (stats s) = 0 \<and> mm2 (stats s) = 0 \<and> mm3 (stats s) = 0
     \<and> bitmap s = (\<lambda>_ _. False) \<and> bitmap_index s = (\<lambda>_. 0) \<and> loff_file s = (\<lambda>_. 0)"

inductive reach :: "(byte list \<Rightarrow> byte list) \<Rightarrow> wsys \<Rightarrow> bool" for sha where
  start: "fresh_cache s \<Longrightarrow> reach sha \<lparr>cache = s, pending = {#}, job = \<lambda>_. None\<rparr>"
| more: "reach sha x \<Longrightarrow> wstep sha x x' \<Longrightarrow> reach sha x'"

section \<open>The invariant\<close>

text \<open>The file of a CPU as it will be once its worker has written.\<close>

definition vfile :: "wsys \<Rightarrow> nat \<Rightarrow> nat \<Rightarrow> byte" where
  "vfile x c = (case job x c of
       Some j \<Rightarrow> if wj_written j then file_of (cache x) c
                 else file_write (file_of (cache x) c) (loff_file (cache x) c) (map the (copy_mem (wj_buf j)))
     | None \<Rightarrow> file_of (cache x) c)"

definition unwritten :: "wsys \<Rightarrow> nat \<Rightarrow> nat" where
  "unwritten x c = (case job x c of Some j \<Rightarrow> if wj_written j then 0 else mem_index (wj_buf j) | None \<Rightarrow> 0)"

definition region_end :: "hashinfo_item \<Rightarrow> nat" where
  "region_end cp = (item_start cp + num_chunks (item_len cp)) * CHUNKSTEP"

definition resident :: "hashinfo_item \<Rightarrow> bool" where
  "resident cp \<longleftrightarrow> flag_cache cp = 0 \<or> flag_cache cp = 2 \<or> flag_cache cp = 3
     \<or> flag_cache cp = 4 \<and> flag_mem cp = 1"

definition mem_ok :: "(byte list \<Rightarrow> byte list) \<Rightarrow> hashinfo_item \<Rightarrow> bool" where
  "mem_ok sha cp \<longleftrightarrow>
     (if resident cp
      then mem_style cp \<in> {0, 1, 2, 3} \<and> (case item_data cp of None \<Rightarrow> False
        | Some d \<Rightarrow> (case read_block d 0 (item_len cp) of None \<Rightarrow> False | Some v \<Rightarrow> sha v = sha1 cp))
      else mem_style cp = -1)"

definition flags_ok :: "nat multiset \<Rightarrow> nat \<Rightarrow> hashinfo_item \<Rightarrow> bool" where
  "flags_ok pend a cp \<longleftrightarrow> flag_cache cp \<le> 4 \<and> (flag_mem cp = 0 \<or> flag_mem cp = 1 \<and> flag_cache cp = 4)
     \<and> share_ref cp = 1 + of_nat (count pend a)
     \<and> (flag_cache cp = 4 \<and> flag_mem cp = 0 \<longrightarrow> a \<in># pend)"

definition cpu_ok :: "hashinfo_item \<Rightarrow> bool" where
  "cpu_ok cp \<longleftrightarrow>
     (if flag_cache cp = 1 \<or> flag_cache cp = 4 then 0 \<le> cpuid cp
      else if flag_cache cp = 2 then -1 \<le> cpuid cp else cpuid cp = -1)"

definition disk_ok :: "(byte list \<Rightarrow> byte list) \<Rightarrow> wsys \<Rightarrow> hashinfo_item \<Rightarrow> bool" where
  "disk_ok sha x cp \<longleftrightarrow> (0 \<le> cpuid cp \<longrightarrow>
     (let c = nat (cpuid cp) in
      region_end cp \<le> bitmap_index (cache x) c * CHUNKSTEP
      \<and> sha (file_read (vfile x c) (item_start cp * CHUNKSTEP) (item_len cp)) = sha1 cp
      \<and> (region_end cp \<le> loff_file (cache x) c
         \<or> flag_cache cp = 2 \<and> (\<exists>j. job x c = Some j \<and> \<not> wj_written j
                                  \<and> wj_bucket j = bucket_of (sha1 cp)))))"

definition item_ok :: "(byte list \<Rightarrow> byte list) \<Rightarrow> wsys \<Rightarrow> nat \<Rightarrow> hashinfo_item \<Rightarrow> bool" where
  "item_ok sha x a cp \<longleftrightarrow>
     mem_ok sha cp \<and> flags_ok (pending x) a cp \<and> cpu_ok cp \<and> disk_ok sha x cp"

definition cpu_coherent :: "wsys \<Rightarrow> nat \<Rightarrow> bool" where
  "cpu_coherent x c \<longleftrightarrow>
     loff_file (cache x) c + unwritten x c = bitmap_index (cache x) c * CHUNKSTEP
     \<and> (\<forall>i \<ge> bitmap_index (cache x) c. \<not> bitmap (cache x) c i)"

definition job_ok :: "wr_job \<Rightarrow> bool" where
  "job_ok j \<longleftrightarrow> length (copy_mem (wj_buf j)) = wj_size j \<and> None \<notin> set (copy_mem (wj_buf j))
     \<and> mem_index (wj_buf j) = wj_size j"

definition sys_ok :: "(byte list \<Rightarrow> byte list) \<Rightarrow> wsys \<Rightarrow> bool" where
  "sys_ok sha x \<longleftrightarrow> table_inv (cache x)
     \<and> size (pending x) < 2 ^ 31 \<and> set_mset (pending x) \<subseteq> dom (item_at (cache x))
     \<and> (\<forall>c. cpu_coherent x c)
     \<and> (\<forall>c j. job x c = Some j \<longrightarrow> job_ok j)
     \<and> (\<forall>c c' j j'. job x c = Some j \<and> job x c' = Some j' \<and> wj_bucket j = wj_bucket j' \<longrightarrow> c = c')
     \<and> (\<forall>a cp. item_at (cache x) a = Some cp \<longrightarrow> item_ok sha x a cp)"

section \<open>Steps that leave the disk side alone\<close>

definition same_disk :: "wsys \<Rightarrow> wsys \<Rightarrow> bool" where
  "same_disk x x' \<longleftrightarrow> job x' = job x \<and> (\<forall>c i. bitmap (cache x') c i \<longrightarrow> bitmap (cache x) c i)
     \<and> bitmap_index (cache x') = bitmap_index (cache x) \<and> loff_file (cache x') = loff_file (cache x)
     \<and> file_of (cache x') = file_of (cache x)"

lemma vfile_cong:
  assumes "job x' c = job x c" "file_of (cache x') c = file_of (cache x) c"
    "loff_file (cache x') c = loff_file (cache x) c"
  shows "vfile x' c = vfile x c"
  using assms by (simp add: vfile_def split: option.split)

lemma same_disk_cong:
  assumes "same_disk x x'"
  shows "disk_ok sha x' = disk_ok sha x" "cpu_coherent x c \<Longrightarrow> cpu_coherent x' c"
proof -
  have "vfile x' = vfile x"
    by (rule ext, rule vfile_cong) (use assms in \<open>simp_all add: same_disk_def\<close>)
  then show "disk_ok sha x' = disk_ok sha x"
    by (intro ext) (use assms in \<open>simp add: same_disk_def disk_ok_def\<close>)
  show "cpu_coherent x c \<Longrightarrow> cpu_coherent x' c"
    using assms by (auto simp: same_disk_def cpu_coherent_def unwritten_def)
qed

text \<open>The parts of an item's invariant follow the fields they read.\<close>

lemma mem_ok_cong:
  assumes "mem_ok sha cp" "resident cp' = resident cp" "mem_style cp' = mem_style cp"
    "item_data cp' = item_data cp" "item_len cp' = item_len cp" "sha1 cp' = sha1 cp"
  shows "mem_ok sha cp'"
  using assms unfolding mem_ok_def by (simp only: split: if_splits)

lemma disk_ok_cong:
  assumes "disk_ok sha x cp" "cpuid cp' = cpuid cp" "item_start cp' = item_start cp"
    "item_len cp' = item_len cp" "sha1 cp' = sha1 cp" "0 \<le> cpuid cp \<Longrightarrow> flag_cache cp = 2 \<Longrightarrow> flag_cache cp' = 2"
  shows "disk_ok sha x cp'"
  using assms unfolding disk_ok_def Let_def region_end_def by auto

lemma item_ok_upd:
  assumes old: "item_ok sha x a cp" and same: "same_disk x x'"
    and f: "mem_style cp' = mem_style cp" "item_data cp' = item_data cp" "item_len cp' = item_len cp"
      "sha1 cp' = sha1 cp" "cpuid cp' = cpuid cp" "item_start cp' = item_start cp"
    and "resident cp' = resident cp" "0 \<le> cpuid cp \<Longrightarrow> flag_cache cp = 2 \<Longrightarrow> flag_cache cp' = 2"
    and "cpu_ok cp'" "flags_ok (pending x') a cp'"
  shows "item_ok sha x' a cp'"
  using old mem_ok_cong [OF _ assms(9) f(1-4)] disk_ok_cong [OF _ f(5,6,3,4) assms(10)] assms(11,12)
    same_disk_cong(1) [OF same]
  by (simp add: item_ok_def)

lemma count_one_less: "a \<in># M \<Longrightarrow> (of_nat (count (M - {#a#}) a) :: u32) = of_nat (count M a) - 1"
  by (cases "count M a") (auto simp: count_eq_zero_iff)

text \<open>A step that rewrites one item (or none) and may hand out or take back a reference to it.\<close>

lemma sys_ok_upd:
  assumes ok: "sys_ok sha x" and same: "same_disk x x'" and t: "table_inv (cache x')"
    and it: "item_at (cache x') = (item_at (cache x))(a \<mapsto> cp')" and new: "item_ok sha x' a cp'"
    and pend: "\<And>a'. a' \<noteq> a \<Longrightarrow> count (pending x') a' = count (pending x) a'"
      "size (pending x') < 2 ^ 31"
  shows "sys_ok sha x'"
proof -
  have in_pend: "a' \<in># pending x' \<longleftrightarrow> a' \<in># pending x" if "a' \<noteq> a" for a'
    using pend(1) [OF that] by (simp flip: count_greater_zero_iff)
  have "item_ok sha x' a' cp" if "item_at (cache x') a' = Some cp" for a' cp
  proof (cases "a' = a")
    case True
    with that it new show ?thesis by simp
  next
    case False
    with that it ok have "item_ok sha x a' cp" by (simp add: sys_ok_def)
    then show ?thesis
      using same_disk_cong(1) [OF same] pend(1) [OF False] in_pend [OF False]
      by (simp add: item_ok_def flags_ok_def)
  qed
  moreover have "set_mset (pending x') \<subseteq> dom (item_at (cache x'))"
    using ok in_pend by (auto simp: it sys_ok_def)
  moreover have "job x' = job x" using same by (simp add: same_disk_def)
  moreover have "\<forall>c. cpu_coherent x' c" using same_disk_cong(2) [OF same] ok by (simp add: sys_ok_def)
  ultimately show ?thesis using ok t pend(2) unfolding sys_ok_def by (intro conjI) simp_all
qed

lemma share_one:
  assumes "sys_ok sha x" "item_at (cache x) a = Some cp"
  shows "share_ref cp = 1 \<longleftrightarrow> a \<notin># pending x"
proof -
  have "share_ref cp = 1 + of_nat (count (pending x) a)"
    using assms by (simp add: sys_ok_def item_ok_def flags_ok_def)
  moreover have "count (pending x) a < 2 ^ 31"
    using assms(1) count_le_size [of "pending x" a] by (simp add: sys_ok_def del: power_numeral)
  then have "(of_nat (count (pending x) a) :: u32) = 0 \<longleftrightarrow> count (pending x) a = 0"
    by (subst word_of_nat_eq_0_iff) (auto dest: dvd_imp_le simp: take_bit_eq_0_iff)
  ultimately show ?thesis by (simp add: not_in_iff)
qed

lemma insert_ok:
  assumes ok: "sys_ok sha x" and len: "\<And>v. length (sha v) = SHA1SIZE"
    and r: "hash_new_item mx mem al (sha v) v (length v) (cache x) = Some (res, s')"
    and fresh: "\<And>a. mem = Some a \<Longrightarrow> item_at (cache x) a = None"
  shows "sys_ok sha (x\<lparr>cache := s'\<rparr>)"
proof (cases res)
  case None
  with r have "s' = cache x" by (auto simp: hash_new_item_def Let_def split: if_splits option.splits)
  with ok show ?thesis by simp
next
  case (Some a)
  have t: "table_inv s'" using ok hash_new_item_inv [OF _ fresh r] by (simp add: sys_ok_def)
  from r [unfolded Some] show ?thesis
  proof (rule hash_new_item_Some)
    fix cp st
    assume mem: "mem = Some a" and it: "item_at s' = (item_at (cache x))(a \<mapsto> cp)"
      and f: "sha1 cp = take SHA1SIZE (sha v)" "item_len cp = length v"
        "read_block (the (item_data cp)) 0 (length v) = Some (take (length v) v)" "item_data cp \<noteq> None"
        "flag_cache cp = 0" "flag_mem cp = 0" "cpuid cp = -1" "share_ref cp = 1" "mem_style cp \<in> {0, 1, 2, 3}"
      and s': "s' = (cache x)\<lparr>item_at := item_at s', hash_tab := hash_tab s', hash_count := hash_count s',
          stats := stats s'\<rparr>"
    have no: "a \<notin># pending x" using fresh [OF mem] ok by (auto simp: sys_ok_def)
    have "item_ok sha (x\<lparr>cache := s'\<rparr>) a cp"
      using f no len
      by (auto simp: item_ok_def mem_ok_def resident_def flags_ok_def cpu_ok_def disk_ok_def not_in_iff)
    moreover have "same_disk x (x\<lparr>cache := s'\<rparr>)"
      by (subst s') (simp add: same_disk_def)
    ultimately show ?thesis
      using ok t it by (intro sys_ok_upd [OF ok, of _ a cp]) (simp_all add: sys_ok_def)
  qed
qed

lemma get_ok:
  assumes ok: "sys_ok sha x" and r: "get_hash_item info (cache x) = (Some a, s')"
    and bound: "size (pending x) + 1 < 2 ^ 31"
  shows "sys_ok sha (x\<lparr>cache := s', pending := add_mset a (pending x)\<rparr>)" (is "sys_ok sha ?x'")
proof -
  from r obtain cp where it: "item_at (cache x) a = Some cp" and s': "s' = (set_item a
      (cp\<lparr>refcnt := refcnt cp + ITEM_CITE_FIND, share_ref := share_ref cp + 1,
          flag_cache := (if flag_cache cp = 1 then 4 else flag_cache cp)\<rparr>) (cache x))
        \<lparr>stats := devote cp (stats (cache x))\<rparr>" (is "_ = (set_item a ?cp' _)\<lparr>stats := _\<rparr>")
    by (auto simp: get_hash_item_def Let_def split: option.splits)
  have "table_inv s'" using ok get_hash_item_inv [OF _ r] by (simp add: sys_ok_def)
  moreover have same: "same_disk x ?x'" by (simp add: s' same_disk_def set_item_def)
  moreover have old: "item_ok sha x a cp" using ok it by (simp add: sys_ok_def)
  then have "item_ok sha ?x' a ?cp'"
    by (rule item_ok_upd [OF _ same])
      (use old in \<open>auto simp: item_ok_def flags_ok_def cpu_ok_def resident_def\<close>)
  ultimately show ?thesis
    using bound by (intro sys_ok_upd [OF ok same, of a ?cp']) (simp_all add: s' set_item_def)
qed

lemma drop_ok:
  assumes ok: "sys_ok sha x" and a: "a \<in># pending x" and it: "item_at (cache x) a = Some cp"
    and f: "flag_cache cp \<noteq> 4" and r: "drop_item a (cache x) = Some s'"
  shows "sys_ok sha (x\<lparr>cache := s', pending := pending x - {#a#}\<rparr>)" (is "sys_ok sha ?x'")
proof -
  let ?cp' = "cp\<lparr>share_ref := share_ref cp - 1\<rparr>"
  have s': "s' = set_item a ?cp' (cache x)" using r it by (simp add: drop_item_def)
  have old: "item_ok sha x a cp" using ok it by (simp add: sys_ok_def)
  have "block_ok cp" using ok it by (simp add: sys_ok_def table_inv_def)
  then have "table_inv ((set_item a ?cp' (cache x))\<lparr>stats := stats (cache x)\<rparr>)"
    using ok by (intro table_inv_update [OF _ it]) (auto simp: sys_ok_def block_ok_def holds_memory_def)
  then have "table_inv s'" by (simp add: s' set_item_def)
  moreover have same: "same_disk x ?x'" by (simp add: s' same_disk_def set_item_def)
  moreover have "item_ok sha ?x' a ?cp'"
    by (rule item_ok_upd [OF old same])
      (use old f count_one_less [OF a] in \<open>auto simp: item_ok_def flags_ok_def cpu_ok_def resident_def\<close>)
  moreover have "size (pending x - {#a#}) < 2 ^ 31"
    using ok size_mset_mono [OF diff_subset_eq_self, of "pending x" "{#a#}"] by (simp add: sys_ok_def)
  ultimately show ?thesis
    by (intro sys_ok_upd [OF ok same, of a ?cp']) (simp_all add: s' set_item_def)
qed

section \<open>Reading back\<close>

text \<open>What is on disk for good: not in a buffer that is still to be written.\<close>

lemma vfile_below:
  assumes "pos + n \<le> loff_file (cache x) c"
  shows "file_read (vfile x c) pos n = file_read (file_of (cache x) c) pos n"
  using file_read_write_below [OF assms] by (simp add: vfile_def split: option.split)

lemma region_end_ge: "item_start cp * CHUNKSTEP + item_len cp \<le> region_end cp"
  using num_chunks_ge [of "item_len cp"] by (simp add: region_end_def add_mult_distrib)

lemma disk_content:
  assumes "disk_ok sha x cp" "0 \<le> cpuid cp" "region_end cp \<le> loff_file (cache x) (nat (cpuid cp))"
  shows "sha (file_read (file_of (cache x) (nat (cpuid cp))) (item_start cp * CHUNKSTEP) (item_len cp)) = sha1 cp"
  using assms vfile_below [OF order_trans [OF region_end_ge assms(3)]]
  by (auto simp: disk_ok_def Let_def)

lemma alloc_block:
  assumes "alloc_data_memory ok cp (item_len cp) st = Some (cp', st')" "mem_style cp = -1"
  obtains d ms where "cp' = cp\<lparr>item_data := Some d, mem_style := ms\<rparr>" "item_len cp \<le> length d"
    "ms \<in> {0, 1, 2, 3}"
proof -
  from assms have "\<exists>d ms. cp' = cp\<lparr>item_data := Some d, mem_style := ms\<rparr> \<and> item_len cp \<le> length d
      \<and> ms \<in> {0, 1, 2, 3}"
    by (auto simp: alloc_data_memory_def zalloc_block_def malloc_block_def split: if_splits)
      (rule exI, rule exI, rule conjI, rule refl, simp)+
  then show ?thesis using that by blast
qed

text \<open>A read that delivers the whole item restores memory with the contents of the file.\<close>

lemma fetch_item_Some:
  assumes r: "fetch_item ok (int (item_len cp)) c cp s = Some (cp', st')" and ms: "mem_style cp = -1"
  obtains d k st where "alloc_data_memory ok cp (item_len cp) (stats s) = Some (cp\<lparr>item_data := d, mem_style := k\<rparr>, st)"
    "st' = st\<lparr>rdl := rdl st + of_nat (item_len cp), rdf := rdf st + 1\<rparr>"
    "k \<in> {0, 1, 2, 3}" "\<exists>d'. cp' = cp\<lparr>item_data := Some d', mem_style := k, flag_mem := 1\<rparr>
      \<and> read_block d' 0 (item_len cp) = Some (file_read (file_of s c) (item_start cp * CHUNKSTEP) (item_len cp))"
proof -
  from r obtain cp1 st where al: "alloc_data_memory ok cp (item_len cp) (stats s) = Some (cp1, st)"
    by (auto simp: fetch_item_def split: option.splits)
  then show ?thesis
  proof (rule alloc_block [OF _ ms])
    fix d k
    assume cp1: "cp1 = cp\<lparr>item_data := Some d, mem_style := k\<rparr>" and k: "k \<in> {0, 1, 2, 3}"
    let ?r = "file_read (file_of s c) (item_start cp * CHUNKSTEP) (item_len cp)"
    from r al cp1 obtain d' where d': "memcpy_at d 0 ?r = Some d'"
      and "cp' = cp1\<lparr>item_data := Some d', flag_mem := 1\<rparr>"
      and "st' = st\<lparr>rdl := rdl st + of_nat (item_len cp), rdf := rdf st + 1\<rparr>"
      by (auto simp: fetch_item_def Let_def split: option.splits)
    then show ?thesis
      using al k read_after_memcpy [OF d'] by (intro that [of k "Some d" st] exI [of _ d']) (simp_all add: cp1)
  qed
qed

lemma fetch_fresh_ok:
  assumes ok: "sys_ok sha x" and a: "a \<in># pending x" and it: "item_at (cache x) a = Some cp"
    and f: "flag_cache cp = 4" "flag_mem cp = 0"
    and r: "fetch_item al (int (item_len cp)) (nat (cpuid cp)) cp (cache x) = Some (cp1, st)"
    and s': "s' = (set_item a (cp1\<lparr>share_ref := share_ref cp1 - 1\<rparr>) (cache x))\<lparr>stats := st\<rparr>"
  shows "table_inv s' \<and> item_ok sha (x\<lparr>cache := s', pending := pending x - {#a#}\<rparr>) a
    (cp1\<lparr>share_ref := share_ref cp1 - 1\<rparr>)" (is "_ \<and> item_ok sha ?x' a ?cp'")
proof -
  have old: "item_ok sha x a cp" and inv: "table_inv (cache x)" using ok it by (simp_all add: sys_ok_def)
  have ms: "mem_style cp = -1" using old f by (auto simp: item_ok_def mem_ok_def resident_def)
  have same: "same_disk x ?x'" by (simp add: s' same_disk_def set_item_def)
  from r show ?thesis
  proof (rule fetch_item_Some [OF _ ms])
    fix d k st0
    assume al: "alloc_data_memory al cp (item_len cp) (stats (cache x))
        = Some (cp\<lparr>item_data := d, mem_style := k\<rparr>, st0)"
      and st: "st = st0\<lparr>rdl := rdl st0 + of_nat (item_len cp), rdf := rdf st0 + 1\<rparr>"
      and k: "k \<in> {0, 1, 2, 3}"
      and "\<exists>d'. cp1 = cp\<lparr>item_data := Some d', mem_style := k, flag_mem := 1\<rparr>
        \<and> read_block d' 0 (item_len cp)
          = Some (file_read (file_of (cache x) (nat (cpuid cp))) (item_start cp * CHUNKSTEP) (item_len cp))"
    then obtain d' where cp1: "cp1 = cp\<lparr>item_data := Some d', mem_style := k, flag_mem := 1\<rparr>"
      and d': "read_block d' 0 (item_len cp)
          = Some (file_read (file_of (cache x) (nat (cpuid cp))) (item_start cp * CHUNKSTEP) (item_len cp))"
      by blast
    have "table_inv s'"
      by (rule table_inv_upd [OF inv it, of ?cp'])
        (use alloc_counters(1) [OF al refl] f in
          \<open>simp_all add: s' st cp1 set_item_def block_ok_def holds_memory_def style_bytes_def\<close>)
    moreover have "0 \<le> cpuid cp" "disk_ok sha x cp"
      using old f by (simp_all add: item_ok_def cpu_ok_def)
    moreover from this have "region_end cp \<le> loff_file (cache x) (nat (cpuid cp))"
      using f by (auto simp: disk_ok_def Let_def)
    ultimately have "table_inv s'" "mem_ok sha ?cp'"
      using disk_content f k d' by (simp_all add: mem_ok_def resident_def cp1)
    moreover have "flags_ok (pending ?x') a ?cp'" "cpu_ok ?cp'"
      using old f count_one_less [OF a] by (auto simp: item_ok_def flags_ok_def cpu_ok_def cp1)
    moreover have "disk_ok sha x ?cp'"
      by (rule disk_ok_cong [of sha x cp]) (use old in \<open>simp_all add: cp1 item_ok_def\<close>)
    ultimately show ?thesis using same_disk_cong(1) [OF same] by (simp add: item_ok_def)
  qed
qed

lemma fetch_ok:
  assumes ok: "sys_ok sha x" and a: "a \<in># pending x" and it: "item_at (cache x) a = Some cp"
    and f: "flag_cache cp = 4"
    and r: "read_item al (int (item_len cp)) (nat (cpuid cp)) a (cache x) = Some s'"
  shows "sys_ok sha (x\<lparr>cache := s', pending := pending x - {#a#}\<rparr>)" (is "sys_ok sha ?x'")
proof -
  have old: "item_ok sha x a cp" and inv: "table_inv (cache x)" using ok it by (simp_all add: sys_ok_def)
  from r it obtain cp1 st where 1: "(if flag_mem cp = 0
        then fetch_item al (int (item_len cp)) (nat (cpuid cp)) cp (cache x)
        else Some (cp, stats (cache x))) = Some (cp1, st)"
    and s': "s' = (set_item a (cp1\<lparr>share_ref := share_ref cp1 - 1\<rparr>) (cache x))\<lparr>stats := st\<rparr>"
    by (auto simp: read_item_def split: option.splits if_splits)
  let ?cp' = "cp1\<lparr>share_ref := share_ref cp1 - 1\<rparr>"
  have same: "same_disk x ?x'" by (simp add: s' same_disk_def set_item_def)
  have "table_inv s' \<and> item_ok sha ?x' a ?cp'"
  proof (cases "flag_mem cp = 0")
    case True
    with 1 have "fetch_item al (int (item_len cp)) (nat (cpuid cp)) cp (cache x) = Some (cp1, st)" by simp
    then show ?thesis by (rule fetch_fresh_ok [OF ok a it f True _ s'])
  next
    case False
    with 1 have cp1: "cp1 = cp" "st = stats (cache x)" by simp_all
    have "table_inv s'"
      unfolding s' cp1 using f
      by (intro table_inv_update [OF inv it]) (simp_all add: block_ok_def holds_memory_def)
    moreover have "item_ok sha ?x' a ?cp'"
      by (rule item_ok_upd [OF old same])
        (use old f count_one_less [OF a] False in
          \<open>auto simp: cp1 item_ok_def flags_ok_def cpu_ok_def resident_def\<close>)
    ultimately show ?thesis by simp
  qed
  moreover have "size (pending x - {#a#}) < 2 ^ 31"
    using ok size_mset_mono [OF diff_subset_eq_self, of "pending x" "{#a#}"] by (simp add: sys_ok_def)
  ultimately show ?thesis
    by (intro sys_ok_upd [OF ok same, of a ?cp']) (simp_all add: s' set_item_def)
qed

section \<open>The bucket timer\<close>

lemma sys_ok_del:
  assumes ok: "sys_ok sha x" and same: "same_disk x x'" and t: "table_inv (cache x')"
    and it: "item_at (cache x') = (item_at (cache x))(a := None)" and a: "a \<notin># pending x"
    and p: "pending x' = pending x"
  shows "sys_ok sha x'"
proof -
  have "item_ok sha x' a' cp" if "item_at (cache x') a' = Some cp" for a' cp
  proof -
    have "item_ok sha x a' cp" using that it ok by (simp add: sys_ok_def split: if_splits)
    then show ?thesis using same_disk_cong(1) [OF same] p by (simp add: item_ok_def)
  qed
  moreover have "set_mset (pending x') \<subseteq> dom (item_at (cache x'))"
    using ok a by (auto simp: it p sys_ok_def)
  moreover have "job x' = job x" using same by (simp add: same_disk_def)
  moreover have "\<forall>c. cpu_coherent x' c" using same_disk_cong(2) [OF same] ok by (simp add: sys_ok_def)
  ultimately show ?thesis using ok t p unfolding sys_ok_def by (intro conjI) simp_all
qed

text \<open>
  Deletion never meets \<open>BUG()\<close>: an unreferenced item whose flag promises memory has a block
  (also in state 4, whose block is fetched while the reference is held).
\<close>

lemma release_data_total:
  assumes "sys_ok sha x" "item_at (cache x) a = Some cp" "share_ref cp = 1"
  shows "\<exists>st. release_data cp st0 = Some st"
proof -
  have "item_ok sha x a cp" "a \<notin># pending x"
    using assms share_one [OF assms(1,2)] by (simp_all add: sys_ok_def)
  then have "mem_style cp \<in> {0, 1, 2, 3}" if "holds_memory cp"
    using that by (auto simp: item_ok_def mem_ok_def resident_def flags_ok_def holds_memory_def split: if_splits)
  then show ?thesis by (auto simp: release_data_def free_data_memory_def Let_def)
qed

lemma clear_delete_total:
  assumes "sys_ok sha x" "item_at (cache x) a = Some cp" "share_ref cp = 1"
  shows "\<exists>s'. clear_delete b a cp (cache x) = Some s'"
  using release_data_total [OF assms, of "stats (cache x)"]
  unfolding clear_delete_def release_data_def [symmetric] Let_def by auto

lemma clear_step_ok:
  assumes ok: "sys_ok sha x" and a: "a \<in> set (hash_tab (cache x) b)"
    and r: "clear_step b (Some (fl, cache x)) a = Some (fl', s')"
  shows "sys_ok sha (x\<lparr>cache := s'\<rparr>)"
proof -
  have inv: "table_inv (cache x)" using ok by (simp add: sys_ok_def)
  from inv a obtain cp where it: "item_at (cache x) a = Some cp" and b: "bucket_of (sha1 cp) = b"
    by (rule links_okD)
  have t: "table_inv s'" using clear_step_inv [OF inv a r] by simp
  show ?thesis
  proof (cases "share_ref cp = 1 \<and> sint (refcnt cp) \<le> 1")
    case True
    with r it have d: "clear_delete b a cp (cache x) = Some s'" by (auto simp: clear_step_def)
    from d have "same_disk x (x\<lparr>cache := s'\<rparr>)" "item_at s' = (item_at (cache x))(a := None)"
      by (rule clear_delete_Some, auto simp: same_disk_def set_bits_def split: if_splits)+
    then show ?thesis
      using t True share_one [OF ok it] by (intro sys_ok_del [OF ok, of _ a]) simp_all
  next
    case False
    let ?x = "age_item (cp\<lparr>refcnt := refcnt cp - 1\<rparr>, stats (cache x))"
    have s': "s' = (set_item a (fst ?x) (cache x))\<lparr>stats := snd ?x\<rparr>"
      using r it False by (auto simp: clear_step_def split: prod.splits)
    have same: "same_disk x (x\<lparr>cache := s'\<rparr>)" by (simp add: s' same_disk_def set_item_def)
    have old: "item_ok sha x a cp" using ok it by (simp add: sys_ok_def)
    have "item_ok sha (x\<lparr>cache := s'\<rparr>) a (fst ?x)"
      by (rule item_ok_upd [OF old same])
        (use old in \<open>auto simp: item_ok_def flags_ok_def cpu_ok_def resident_def age_item_def age_promote_def
           age_disk_def age_vip_def age_store_def split: prod.splits if_splits\<close>)
    then show ?thesis
      using ok t by (intro sys_ok_upd [OF ok same, of a "fst ?x"]) (simp_all add: s' set_item_def sys_ok_def)
  qed
qed

lemma clear_step_total:
  assumes ok: "sys_ok sha x" and a: "a \<in> set (hash_tab (cache x) b)"
  shows "\<exists>r. clear_step b (Some (fl, cache x)) a = Some r"
proof -
  have "table_inv (cache x)" using ok by (simp add: sys_ok_def)
  then obtain cp where "item_at (cache x) a = Some cp" using a by (rule links_okD)
  then show ?thesis
    using clear_delete_total [OF ok] by (fastforce simp: clear_step_def split: prod.split)
qed

lemma clear_loop:
  assumes "sys_ok sha x"
  shows "\<exists>r. foldl (clear_step b) (Some (False, cache x)) (hash_tab (cache x) b) = Some r
    \<and> sys_ok sha (x\<lparr>cache := snd r\<rparr>)"
proof (rule bucket_loop_total [where \<pi> = snd and P = "\<lambda>s. sys_ok sha (x\<lparr>cache := s\<rparr>)"])
  fix acc :: "bool \<times> wcache" and a
  assume ok: "sys_ok sha (x\<lparr>cache := snd acc\<rparr>)" and a: "a \<in> set (hash_tab (snd acc) b)"
  from clear_step_total [OF ok, of a b "fst acc"] a
  obtain r where r: "clear_step b (Some (fst acc, snd acc)) a = Some (fst r, snd r)" by auto
  have "table_inv (snd acc)" using ok by (simp add: sys_ok_def)
  then show "\<exists>acc'. clear_step b (Some acc) a = Some acc' \<and> sys_ok sha (x\<lparr>cache := snd acc'\<rparr>)
      \<and> set (hash_tab (snd acc) b) - {a} \<subseteq> set (hash_tab (snd acc') b)"
    using clear_step_ok [OF ok, of a b "fst acc" "fst r" "snd r"] clear_step_inv [OF _ a r] r a by auto
qed (use assms in \<open>simp_all add: sys_ok_def table_inv_def links_ok_def\<close>)

lemma sys_ok_queue: "sys_ok sha (x\<lparr>cache := (cache x)\<lparr>work_queued := q\<rparr>\<rparr>) = sys_ok sha x"
proof -
  have t: "table_inv ((cache x)\<lparr>work_queued := q\<rparr>) = table_inv (cache x)"
    by (simp add: table_inv_def links_ok_def item_sum_def)
  have same: "same_disk x (x\<lparr>cache := (cache x)\<lparr>work_queued := q\<rparr>\<rparr>)"
    "same_disk (x\<lparr>cache := (cache x)\<lparr>work_queued := q\<rparr>\<rparr>) x"
    by (simp_all add: same_disk_def)
  show ?thesis
    using same_disk_cong(1) [OF same(1), of sha] same_disk_cong(2) [OF same(1)] same_disk_cong(2) [OF same(2)]
    unfolding sys_ok_def item_ok_def by (simp add: t) blast
qed

lemma account_ok:
  assumes ok: "sys_ok sha x" and st: "\<And>k. mem_counters st k = mem_counters (stats (cache x)) k"
  shows "sys_ok sha (x\<lparr>cache := (cache x)\<lparr>stats := st\<rparr>\<rparr>)"
proof -
  have t: "table_inv ((cache x)\<lparr>stats := st\<rparr>) = table_inv (cache x)"
    by (simp add: table_inv_def links_ok_def item_sum_def st)
  have same: "same_disk x (x\<lparr>cache := (cache x)\<lparr>stats := st\<rparr>\<rparr>)" by (simp add: same_disk_def)
  show ?thesis
    using ok same_disk_cong(1) [OF same, of sha] same_disk_cong(2) [OF same]
    unfolding sys_ok_def item_ok_def by (simp add: t) blast
qed

lemma tick_total: "sys_ok sha x \<Longrightarrow> \<exists>s'. bucket_clear_item b (cache x) = Some s'"
  using clear_loop [of sha x b] by (auto simp: bucket_clear_item_def)

lemma tick_ok:
  assumes ok: "sys_ok sha x" and r: "bucket_clear_item b (cache x) = Some s'"
  shows "sys_ok sha (x\<lparr>cache := s'\<rparr>)"
proof -
  from clear_loop [OF ok] obtain fl s1
    where f: "foldl (clear_step b) (Some (False, cache x)) (hash_tab (cache x) b) = Some (fl, s1)"
      and s1: "sys_ok sha (x\<lparr>cache := s1\<rparr>)" by fastforce
  then show ?thesis
    using r sys_ok_queue [where x = "x\<lparr>cache := s1\<rparr>"]
    by (auto simp: bucket_clear_item_def split: if_splits)
qed

section \<open>Unloading\<close>

lemma flush_step_ok:
  assumes ok: "sys_ok sha x" and p: "pending x = {#}" and a: "a \<in> set (hash_tab (cache x) b)"
  shows "\<exists>s'. flush_step b (Some (cache x)) a = Some s' \<and> sys_ok sha (x\<lparr>cache := s'\<rparr>)
    \<and> set (hash_tab (cache x) b) - {a} \<subseteq> set (hash_tab s' b)"
proof -
  have inv: "table_inv (cache x)" using ok by (simp add: sys_ok_def)
  then obtain cp where it: "item_at (cache x) a = Some cp" using a by (rule links_okD)
  then have "share_ref cp = 1" using share_one [OF ok it] p by simp
  from release_data_total [OF ok it this] obtain st where "release_data cp (stats (cache x)) = Some st" by blast
  then obtain s' where r: "flush_step b (Some (cache x)) a = Some s'"
    and same: "same_disk x (x\<lparr>cache := s'\<rparr>)" and it': "item_at s' = (item_at (cache x))(a := None)"
    using it unfolding flush_step_def release_data_def [symmetric] Let_def
    by (auto simp: hash_unlink_def same_disk_def)
  have f: "table_inv s' \<and> hash_tab s' = (hash_tab (cache x))(b := remove1 a (hash_tab (cache x) b))"
    by (rule flush_step_inv [OF inv a r])
  have "sys_ok sha (x\<lparr>cache := s'\<rparr>)"
    using f it' p by (intro sys_ok_del [OF ok same, of a]) simp_all
  moreover have "distinct (hash_tab (cache x) b)" using inv by (simp add: table_inv_def links_ok_def)
  ultimately show ?thesis using r f by (auto simp: set_remove1_eq)
qed

lemma flush_bucket_ok:
  assumes ok: "sys_ok sha x" and p: "pending x = {#}"
  shows "\<exists>s'. flush_bucket (Some (cache x)) b = Some s' \<and> sys_ok sha (x\<lparr>cache := s'\<rparr>)"
  unfolding flush_bucket_def option.case
proof (rule bucket_loop_total [where \<pi> = "\<lambda>s. s" and P = "\<lambda>s. sys_ok sha (x\<lparr>cache := s\<rparr>)"])
  fix s a
  assume "sys_ok sha (x\<lparr>cache := s\<rparr>)" "a \<in> set (hash_tab s b)"
  then show "\<exists>s'. flush_step b (Some s) a = Some s' \<and> sys_ok sha (x\<lparr>cache := s'\<rparr>)
      \<and> set (hash_tab s b) - {a} \<subseteq> set (hash_tab s' b)"
    using flush_step_ok [of sha "x\<lparr>cache := s\<rparr>" a b] p by simp
qed (use ok in \<open>simp_all add: sys_ok_def table_inv_def links_ok_def\<close>)

lemma flush_total:
  assumes "sys_ok sha x" "pending x = {#}"
  shows "\<exists>s'. foldl flush_bucket (Some (cache x)) bs = Some s'"
  using assms
proof (induction bs arbitrary: x)
  case Nil
  then show ?case by simp
next
  case (Cons b bs)
  from flush_bucket_ok [OF Cons.prems] obtain s1 where "flush_bucket (Some (cache x)) b = Some s1"
    "sys_ok sha (x\<lparr>cache := s1\<rparr>)" by blast
  with Cons.IH [of "x\<lparr>cache := s1\<rparr>"] Cons.prems(2) show ?case by simp
qed

section \<open>Preparing a write\<close>

definition to_mark :: "hashinfo_item \<Rightarrow> bool" where
  "to_mark cp \<longleftrightarrow> wr_due cp \<and> cpuid cp = -1"

definition marked_size :: "hashinfo_item \<Rightarrow> nat" where
  "marked_size cp = (if cpuid cp = -2 then num_chunks (item_len cp) * CHUNKSTEP else 0)"

definition mark_all :: "nat set \<Rightarrow> wcache \<Rightarrow> wcache" where
  "mark_all A s = s\<lparr>item_at := (\<lambda>a. map_option (\<lambda>cp. if a \<in> A \<and> to_mark cp then mark_item cp else cp) (item_at s a))\<rparr>"

definition size_of :: "wcache \<Rightarrow> nat list \<Rightarrow> nat" where
  "size_of s xs = sum_list (map (\<lambda>a. case item_at s a of None \<Rightarrow> 0 | Some cp \<Rightarrow> marked_size cp) xs)"

text \<open>Pass 1 marks the due items of the bucket; their sizes add up to \<open>all_size\<close>.\<close>

lemma mark_loop:
  assumes "distinct xs" "\<And>a. a \<in> set xs \<Longrightarrow> \<exists>cp. item_at s a = Some cp \<and> cpuid cp \<noteq> -2"
    and "foldl wr_mark_step (Some (n0, s)) xs = Some (n, s1)"
  shows "s1 = mark_all (set xs) s \<and> n = n0 + size_of s1 xs"
  using assms
proof (induction xs arbitrary: n0 s)
  case Nil
  have "mark_all {} s = s" by (simp add: mark_all_def map_option_idI)
  with Nil show ?case by (simp add: size_of_def)
next
  case (Cons a xs)
  from Cons.prems(2) [of a] obtain cp where it: "item_at s a = Some cp" and c: "cpuid cp \<noteq> -2" by auto
  let ?s = "if to_mark cp then set_item a (mark_item cp) s else s"
  let ?n = "if to_mark cp then num_chunks (item_len cp) * CHUNKSTEP else 0"
  have 1: "wr_mark_step (Some (n0, s)) a = Some (n0 + ?n, ?s)"
    using it by (simp add: wr_mark_step_def to_mark_def)
  have "item_at ?s a' = item_at s a'" if "a' \<in> set xs" for a'
    using that Cons.prems(1) by (auto simp: set_item_def)
  then have IH: "s1 = mark_all (set xs) ?s \<and> n = n0 + ?n + size_of s1 xs"
    using Cons.prems 1 by (intro Cons.IH) auto
  have "item_at (mark_all (set xs) ?s) a' = item_at (mark_all (set (a # xs)) s) a'" for a'
    using it Cons.prems(1) by (cases "a' = a") (simp_all add: mark_all_def set_item_def)
  then have "mark_all (set xs) ?s = mark_all (set (a # xs)) s"
    by (intro wcache.equality) (auto simp: mark_all_def set_item_def)
  moreover have "marked_size (if to_mark cp then mark_item cp else cp) = ?n"
    using c by (simp add: marked_size_def mark_item_def)
  ultimately show ?case using IH it by (simp add: size_of_def mark_all_def)
qed

lemma mark_all_inv:
  assumes "table_inv s"
  shows "table_inv (mark_all A s)"
proof -
  have "dom (item_at (mark_all A s)) = dom (item_at s)" by (auto simp: mark_all_def dom_def)
  moreover have "item_sum (style_bytes k) (mark_all A s) = item_sum (style_bytes k) s"
    "item_sum (\<lambda>_. 1 :: u32) (mark_all A s) = item_sum (\<lambda>_. 1 :: u32) s" for k
    unfolding item_sum_def calculation
    by (rule sum.cong; auto simp: mark_all_def style_bytes_def mark_item_def split: if_splits)+
  moreover have "(\<exists>cp. item_at (mark_all A s) a = Some cp \<and> bucket_of (sha1 cp) = b)
      = (\<exists>cp. item_at s a = Some cp \<and> bucket_of (sha1 cp) = b)" for a b
    by (cases "item_at s a") (simp_all add: mark_all_def mark_item_def)
  then have "links_ok (mark_all A s)"
    using assms by (simp add: table_inv_def links_ok_def mark_all_def)
  moreover have "block_ok cp" if it: "item_at (mark_all A s) a = Some cp" for a cp
  proof -
    from it obtain cp0 where "item_at s a = Some cp0" and cp: "cp = cp0 \<or> cp = mark_item cp0"
      by (auto simp: mark_all_def split: if_splits)
    then have "block_ok cp0" using assms by (simp add: table_inv_def)
    then show ?thesis using cp by (auto simp: block_ok_def holds_memory_def mark_item_def)
  qed
  ultimately show ?thesis
    using assms unfolding table_inv_def by (simp add: mark_all_def)
qed

text \<open>
  The state inside pass 2: items before the cursor are placed, items marked and still to come
  are accounted for in the rest of the buffer.
\<close>

definition with_job :: "nat \<Rightarrow> nat \<Rightarrow> nat \<Rightarrow> wr_buf \<Rightarrow> wcache \<Rightarrow> wsys \<Rightarrow> wsys" where
  "with_job c b n w s x = x\<lparr>cache := s,
     job := (job x)(c \<mapsto> \<lparr>wj_bucket = b, wj_size = n, wj_buf = w, wj_written = False\<rparr>)\<rparr>"

definition half_ok :: "(byte list \<Rightarrow> byte list) \<Rightarrow> wsys \<Rightarrow> nat \<Rightarrow> nat list \<Rightarrow> nat \<Rightarrow> hashinfo_item \<Rightarrow> bool" where
  "half_ok sha x b xs a cp \<longleftrightarrow> mem_ok sha cp \<and> flags_ok (pending x) a cp
     \<and> (if cpuid cp = -2 then a \<in> set xs \<and> wr_due cp \<and> bucket_of (sha1 cp) = b else cpu_ok cp \<and> disk_ok sha x cp)"

definition place_inv :: "(byte list \<Rightarrow> byte list) \<Rightarrow> wsys \<Rightarrow> nat \<Rightarrow> nat \<Rightarrow> nat \<Rightarrow> nat list \<Rightarrow> wr_buf \<Rightarrow> wcache \<Rightarrow> bool" where
  "place_inv sha x c b n xs w s \<longleftrightarrow> table_inv s
     \<and> dom (item_at s) = dom (item_at (cache x)) \<and> distinct xs \<and> set xs \<subseteq> dom (item_at s)
     \<and> length (copy_mem w) = n \<and> None \<notin> set (copy_mem w) \<and> mem_index w + size_of s xs = n
     \<and> (\<forall>c'. cpu_coherent (with_job c b n w s x) c')
     \<and> (\<forall>a cp. item_at s a = Some cp \<longrightarrow> half_ok sha (with_job c b n w s x) b xs a cp)"

text \<open>Starting a job with an empty buffer at the end of the file hides nothing already on disk.\<close>

lemma start_keeps_disk:
  assumes j: "job x c = None" and w: "mem_index w = 0"
    and s1: "loff_file s1 = loff_file (cache x)" "file_of s1 = file_of (cache x)" "bitmap s1 = bitmap (cache x)"
      "bitmap_index s1 = bitmap_index (cache x)"
    and ok: "disk_ok sha x cp"
  shows "disk_ok sha (with_job c b n w s1 x) cp"
proof (cases "nat (cpuid cp) = c")
  case False
  then have "vfile (with_job c b n w s1 x) (nat (cpuid cp)) = vfile x (nat (cpuid cp))"
    by (intro vfile_cong) (simp_all add: with_job_def s1)
  with ok False show ?thesis by (simp add: disk_ok_def with_job_def s1)
next
  case True
  show ?thesis
  proof (cases "0 \<le> cpuid cp")
    case cp: True
    have "region_end cp \<le> loff_file (cache x) c" using ok cp True j by (auto simp: disk_ok_def Let_def)
    then have pos: "item_start cp * CHUNKSTEP + item_len cp \<le> loff_file (cache x) c"
      using region_end_ge order_trans by blast
    have "item_start cp * CHUNKSTEP + item_len cp \<le> loff_file (cache (with_job c b n w s1 x)) c"
      using pos by (simp add: with_job_def s1)
    from vfile_below [OF this] vfile_below [OF pos] show ?thesis
      using ok True j w by (auto simp: disk_ok_def Let_def with_job_def s1)
  qed (simp add: disk_ok_def)
qed

lemma place_inv_start:
  assumes ok: "sys_ok sha x" and j: "job x c = None"
    and s1: "s1 = mark_all (set xs) (cache x)" and n: "n = size_of s1 xs" and xs: "xs = hash_tab (cache x) b"
  shows "place_inv sha x c b n xs \<lparr>copy_mem = zalloc_block n, mem_index = 0, st_all_size = 0\<rparr> s1"
    (is "place_inv _ _ _ _ _ _ ?w _")
proof -
  let ?x = "with_job c b n ?w s1 x"
  have inv: "table_inv (cache x)" using ok by (simp add: sys_ok_def)
  have cache: "bitmap s1 = bitmap (cache x)" "bitmap_index s1 = bitmap_index (cache x)"
    "loff_file s1 = loff_file (cache x)" "file_of s1 = file_of (cache x)" "dom (item_at s1) = dom (item_at (cache x))"
    by (auto simp: s1 mark_all_def dom_def)
  have coh: "cpu_coherent ?x c'" for c'
  proof -
    have "cpu_coherent x c'" using ok by (simp add: sys_ok_def)
    then show ?thesis
      using j by (cases "c' = c") (simp_all add: cpu_coherent_def unwritten_def with_job_def cache)
  qed
  have disk: "disk_ok sha ?x cp" if "disk_ok sha x cp" for cp
    by (rule start_keeps_disk [OF j _ _ _ _ _ that]) (simp_all add: cache)
  have "half_ok sha ?x b xs a cp" if it: "item_at s1 a = Some cp" for a cp
  proof -
    from it obtain cp0 where it0: "item_at (cache x) a = Some cp0"
      and cp: "cp = (if a \<in> set xs \<and> to_mark cp0 then mark_item cp0 else cp0)"
      by (auto simp: s1 mark_all_def)
    have old: "item_ok sha x a cp0" using ok it0 by (simp add: sys_ok_def)
    then have "cpuid cp0 \<noteq> -2" by (auto simp: item_ok_def cpu_ok_def split: if_splits)
    moreover have "bucket_of (sha1 cp0) = b" if "a \<in> set xs"
      using inv that it0 links_okD [OF inv, of a b] xs by auto
    moreover have "mem_ok sha cp"
      by (rule mem_ok_cong [of sha cp0]) (use old in \<open>auto simp: cp item_ok_def mark_item_def resident_def\<close>)
    ultimately show ?thesis
      using old disk by (auto simp: half_ok_def item_ok_def cp mark_item_def flags_ok_def with_job_def to_mark_def
          wr_due_def)
  qed
  moreover have "distinct xs" "set xs \<subseteq> dom (item_at (cache x))"
    using inv by (auto simp: table_inv_def links_ok_def xs)
  ultimately show ?thesis
    unfolding place_inv_def using coh mark_all_inv [OF inv, of "set xs"]
    by (intro conjI allI impI) (simp_all add: cache zalloc_block_def flip: n s1)
qed

text \<open>The overlay of the file by the buffer, before and after one more item is copied in.\<close>

lemma overlay_below:
  assumes "memcpy_at m off v = Some m'" "pos + k \<le> loff + off"
  shows "file_read (file_write f loff (map the m')) pos k = file_read (file_write f loff (map the m)) pos k"
proof (rule file_read_cong)
  fix i assume "pos \<le> i" "i < pos + k"
  then have "loff \<le> i \<Longrightarrow> i - loff < off" using assms(2) by simp
  moreover have "m' ! j = m ! j" if "j < off" for j
    using that assms(1) by (auto simp: memcpy_at_def nth_append split: if_splits)
  moreover have "length m' = length m" using assms(1) by (auto simp: memcpy_at_def split: if_splits)
  ultimately show "file_write f loff (map the m') i = file_write f loff (map the m) i"
    by (auto simp: file_write_def)
qed

lemma overlay_item:
  assumes m: "memcpy_at m off v = Some m'"
  shows "file_read (file_write f loff (map the m')) (loff + off) (length v) = v"
proof (rule nth_equalityI)
  fix i assume i: "i < length (file_read (file_write f loff (map the m')) (loff + off) (length v))"
  have len: "off + length v \<le> length m'" using m by (auto simp: memcpy_at_def split: if_splits)
  have "m' ! (off + i) = Some (v ! i)"
    using m i by (auto simp: memcpy_at_def nth_append split: if_splits)
  then show "file_read (file_write f loff (map the m')) (loff + off) (length v) ! i = v ! i"
    using i len by (simp add: file_read_def file_write_def)
qed simp

lemma memcpy_keeps_Some: "memcpy_at m off v = Some m' \<Longrightarrow> None \<notin> set m \<Longrightarrow> None \<notin> set m'"
  by (auto simp: memcpy_at_def split: if_splits dest: in_set_takeD in_set_dropD)

text \<open>The shape of a successful placement; the place is the bitmap's first free chunk.\<close>

lemma place_item_Some:
  assumes r: "place_item c a cp w s = Some (w', s')" and clear: "\<forall>i \<ge> bitmap_index s c. \<not> bitmap s c i"
  obtains d v m where "item_data cp = Some d" "read_block d 0 (item_len cp) = Some v"
    "memcpy_at (copy_mem w) (mem_index w) v = Some m"
    "w' = w\<lparr>copy_mem := m, mem_index := mem_index w + num_chunks (item_len cp) * CHUNKSTEP,
       st_all_size := st_all_size w + item_len cp\<rparr>"
    "s' = (set_item a (cp\<lparr>item_start := bitmap_index s c, cpuid := int c\<rparr>) s)
       \<lparr>bitmap := (bitmap s)(c := set_bits (bitmap_index s c) (num_chunks (item_len cp)) True (bitmap s c)),
        bitmap_index := (bitmap_index s)(c := bitmap_index s c + num_chunks (item_len cp))\<rparr>"
proof -
  let ?f = "bitmap_find_next_zero_area (bitmap s c) bitmap_size (bitmap_index s c) (num_chunks (item_len cp)) 0"
  have "?f \<le> bitmap_size" using r by (auto simp: place_item_def Let_def split: if_splits)
  then have "?f = bitmap_index s c" using area_first [OF clear] by simp
  then show ?thesis
    using r that by (auto simp: place_item_def Let_def split: if_splits option.splits)
qed

lemma size_of_cong: "(\<And>a. a \<in> set xs \<Longrightarrow> item_at s a = item_at s' a) \<Longrightarrow> size_of s xs = size_of s' xs"
  unfolding size_of_def by (metis (mono_tags, lifting) map_eq_conv)

text \<open>Placing one more item keeps the others where they are.\<close>

lemma place_keeps_disk:
  assumes m: "memcpy_at (copy_mem w) (mem_index w) v = Some m" and d: "disk_ok sha (with_job c b n w s x) cp"
    and coh: "cpu_coherent (with_job c b n w s x) c"
    and w': "copy_mem w' = m"
    and s': "file_of s' = file_of s" "loff_file s' = loff_file s"
      "bitmap_index s' = (bitmap_index s)(c := bitmap_index s c + k)"
  shows "disk_ok sha (with_job c b n w' s' x) cp"
proof (cases "nat (cpuid cp) = c")
  case False
  then have "vfile (with_job c b n w' s' x) (nat (cpuid cp)) = vfile (with_job c b n w s x) (nat (cpuid cp))"
    by (intro vfile_cong) (simp_all add: with_job_def s')
  with d False show ?thesis by (simp add: disk_ok_def with_job_def s')
next
  case True
  have "file_read (vfile (with_job c b n w' s' x) c) (item_start cp * CHUNKSTEP) (item_len cp)
      = file_read (vfile (with_job c b n w s x) c) (item_start cp * CHUNKSTEP) (item_len cp)"
    if "0 \<le> cpuid cp"
  proof -
    have "region_end cp \<le> loff_file s c + mem_index w"
      using d coh that True by (simp add: disk_ok_def cpu_coherent_def unwritten_def with_job_def Let_def)
    then have "item_start cp * CHUNKSTEP + item_len cp \<le> loff_file s c + mem_index w"
      using region_end_ge order_trans by blast
    from overlay_below [OF m this] show ?thesis
      by (simp add: vfile_def with_job_def s' w')
  qed
  with d True show ?thesis by (auto simp: disk_ok_def with_job_def s' Let_def add_mult_distrib)
qed

lemma placed_half_ok:
  assumes half: "half_ok sha (with_job c b n w s x) b ys a cp" and c: "cpuid cp = -2"
    and coh: "cpu_coherent (with_job c b n w s x) c"
    and d: "item_data cp = Some d" "read_block d 0 (item_len cp) = Some v"
    and m: "memcpy_at (copy_mem w) (mem_index w) v = Some (copy_mem w')"
    and s': "file_of s' = file_of s" "loff_file s' = loff_file s"
      "bitmap_index s' = (bitmap_index s)(c := bitmap_index s c + num_chunks (item_len cp))"
  shows "half_ok sha (with_job c b n w' s' x) b xs a (cp\<lparr>item_start := bitmap_index s c, cpuid := int c\<rparr>)"
    (is "half_ok _ ?x' _ _ _ ?cp'")
proof -
  have due: "wr_due cp" "bucket_of (sha1 cp) = b" and mem: "mem_ok sha cp"
    and fl: "flags_ok (pending ?x') a ?cp'"
    using half c by (simp_all add: half_ok_def flags_ok_def with_job_def)
  have "mem_ok sha ?cp'" by (rule mem_ok_cong [OF mem]) (simp_all add: resident_def)
  moreover have "length v = item_len cp" using d(2) by (auto simp: read_block_def split: if_splits)
  then have "file_read (vfile ?x' c) (bitmap_index s c * CHUNKSTEP) (item_len cp) = v"
    using overlay_item [OF m, of "file_of s c" "loff_file s c"] coh
    by (simp add: vfile_def with_job_def cpu_coherent_def unwritten_def s')
  moreover have "sha v = sha1 cp" using mem d due by (simp add: mem_ok_def resident_def wr_due_def)
  ultimately show ?thesis
    using due fl by (simp add: half_ok_def cpu_ok_def disk_ok_def wr_due_def region_end_def Let_def)
      (simp add: with_job_def s')
qed

lemma place_item_ok:
  assumes inv: "place_inv sha x c b n (a # xs) w s" and it: "item_at s a = Some cp" and c: "cpuid cp = -2"
    and r: "place_item c a cp w s = Some (w', s')"
  shows "place_inv sha x c b n xs w' s'"
proof -
  let ?x = "with_job c b n w s x" and ?x' = "with_job c b n w' s' x"
  have t: "table_inv s" and dom: "dom (item_at s) = dom (item_at (cache x))"
    and xs: "distinct (a # xs)" "set xs \<subseteq> dom (item_at s)"
    and buf: "length (copy_mem w) = n" "None \<notin> set (copy_mem w)" "mem_index w + size_of s (a # xs) = n"
    and coh: "\<And>c'. cpu_coherent ?x c'"
    and half: "\<And>a' cp. item_at s a' = Some cp \<Longrightarrow> half_ok sha ?x b (a # xs) a' cp"
    using inv by (auto simp: place_inv_def)
  have clear: "\<forall>i \<ge> bitmap_index s c. \<not> bitmap s c i"
    using coh [of c] by (simp add: cpu_coherent_def with_job_def)
  let ?cp' = "cp\<lparr>item_start := bitmap_index s c, cpuid := int c\<rparr>"
  from r clear show ?thesis
  proof (rule place_item_Some)
    fix d v m
    assume d: "item_data cp = Some d" "read_block d 0 (item_len cp) = Some v"
      and m: "memcpy_at (copy_mem w) (mem_index w) v = Some m"
      and w': "w' = w\<lparr>copy_mem := m, mem_index := mem_index w + num_chunks (item_len cp) * CHUNKSTEP,
         st_all_size := st_all_size w + item_len cp\<rparr>"
      and s': "s' = (set_item a ?cp' s)
       \<lparr>bitmap := (bitmap s)(c := set_bits (bitmap_index s c) (num_chunks (item_len cp)) True (bitmap s c)),
        bitmap_index := (bitmap_index s)(c := bitmap_index s c + num_chunks (item_len cp))\<rparr>"
    have it': "item_at s' = (item_at s)(a \<mapsto> ?cp')" by (simp add: s' set_item_def)
    have "block_ok ?cp'" using t it by (simp add: table_inv_def block_ok_def holds_memory_def)
    then have "table_inv s'"
      by (intro table_inv_upd [OF t it, of ?cp']) (simp_all add: s' set_item_def style_bytes_def)
    moreover have "length (copy_mem w') = n" "None \<notin> set (copy_mem w')"
      using m buf(1,2) memcpy_at_length [OF m] memcpy_keeps_Some [OF m] by (simp_all add: w')
    moreover have "size_of s' xs = size_of s xs"
      using xs(1) by (intro size_of_cong) (auto simp: it')
    then have "mem_index w' + size_of s' xs = n" using buf(3) it c by (simp add: w' size_of_def marked_size_def)
    moreover have "cpu_coherent ?x' c'" for c'
      using coh [of c'] by (auto simp: cpu_coherent_def with_job_def unwritten_def w' s' set_item_def set_bits_def
          add_mult_distrib split: option.splits if_splits)
    moreover have "half_ok sha ?x' b xs a' cp''" if it'': "item_at s' a' = Some cp''" for a' cp''
    proof (cases "a' = a")
      case True
      with it'' it' have "cp'' = ?cp'" by simp
      then show ?thesis
        using placed_half_ok [OF half [OF it] c coh d, of w' s' xs] m True by (simp add: w' s' set_item_def)
    next
      case False
      with it'' it' have "half_ok sha ?x b (a # xs) a' cp''" using half by simp
      then show ?thesis
        using False place_keeps_disk [OF m _ coh, of sha cp'' w' s']
        by (auto simp: half_ok_def with_job_def w' s' set_item_def)
    qed
    ultimately show ?thesis
      using dom xs it unfolding place_inv_def by (intro conjI allI impI) (auto simp: it')
  qed
qed

lemma place_loop:
  assumes "place_inv sha x c b n xs w s" "foldl (wr_place_step c) (Some (w, s)) xs = Some (w', s')"
  shows "place_inv sha x c b n [] w' s'"
  using assms
proof (induction xs arbitrary: w s)
  case Nil
  then show ?case by simp
next
  case (Cons a xs)
  have none: "foldl (wr_place_step c) None ys = None" for ys
    by (induction ys) (simp_all add: wr_place_step_def)
  from Cons.prems(1) obtain cp where it: "item_at s a = Some cp" by (auto simp: place_inv_def)
  have half: "half_ok sha (with_job c b n w s x) b (a # xs) a cp"
    using Cons.prems(1) it by (simp add: place_inv_def)
  from Cons.prems(2) obtain w1 s1 where 1: "wr_place_step c (Some (w, s)) a = Some (w1, s1)"
    by (cases "wr_place_step c (Some (w, s)) a") (auto simp: none)
  have "place_inv sha x c b n xs w1 s1"
  proof (cases "cpuid cp = -2")
    case True
    then have "wr_due cp" using half by (simp add: half_ok_def)
    then have "place_item c a cp w s = Some (w1, s1)"
      using 1 it True by (auto simp: wr_place_step_def wr_due_def split: if_splits)
    with Cons.prems(1) it True show ?thesis by (rule place_item_ok)
  next
    case False
    then have "w1 = w" "s1 = s" using 1 it by (auto simp: wr_place_step_def split: if_splits)
    moreover have "size_of s (a # xs) = size_of s xs" using it False by (simp add: size_of_def marked_size_def)
    moreover have "half_ok sha (with_job c b n w s x) b xs a' cp'" if "item_at s a' = Some cp'" for a' cp'
    proof -
      have "half_ok sha (with_job c b n w s x) b (a # xs) a' cp'"
        using Cons.prems(1) that by (simp add: place_inv_def)
      then show ?thesis using that it False by (auto simp: half_ok_def)
    qed
    ultimately show ?thesis using Cons.prems(1) by (auto simp: place_inv_def)
  qed
  with Cons.IH Cons.prems(2) 1 show ?case by simp
qed

lemma mark_items:
  assumes ok: "sys_ok sha x" and r: "wr_mark b (cache x) = Some (n, s1)"
  shows "s1 = mark_all (set (hash_tab (cache x) b)) (cache x) \<and> n = size_of s1 (hash_tab (cache x) b)"
proof -
  have inv: "table_inv (cache x)" using ok by (simp add: sys_ok_def)
  have "\<exists>cp. item_at (cache x) a = Some cp \<and> cpuid cp \<noteq> -2" if a: "a \<in> set (hash_tab (cache x) b)" for a
  proof -
    from inv a obtain cp where it: "item_at (cache x) a = Some cp" by (rule links_okD)
    then have "cpu_ok cp" using ok by (simp add: sys_ok_def item_ok_def)
    then show ?thesis using it by (auto simp: cpu_ok_def split: if_splits)
  qed
  then show ?thesis
    using mark_loop [OF _ _ r [unfolded wr_mark_def]] inv by (simp add: table_inv_def links_ok_def)
qed

text \<open>No marked item means nothing was marked.\<close>

lemma mark_none:
  assumes "size_of (mark_all (set xs) s) xs = 0" "\<And>a. a \<in> set xs \<Longrightarrow> item_at s a \<noteq> None"
  shows "mark_all (set xs) s = s"
proof -
  have no: "\<not> to_mark cp" if a: "a \<in> set xs" and it: "item_at s a = Some cp" for a cp
  proof
    assume "to_mark cp"
    then have "item_at (mark_all (set xs) s) a = Some (mark_item cp)" using a it by (simp add: mark_all_def)
    moreover have "marked_size (mark_item cp) \<noteq> 0"
      by (simp add: marked_size_def mark_item_def CHUNKSTEP_def)
    ultimately show False using assms(1) a by (force simp: size_of_def)
  qed
  have "item_at (mark_all (set xs) s) a = item_at s a" for a
    using no by (cases "item_at s a") (auto simp: mark_all_def)
  then show ?thesis by (intro wcache.equality) (auto simp: mark_all_def)
qed

lemma prepare_ok:
  assumes ok: "sys_ok sha x" and j: "job x c = None"
    and free: "\<And>c' j. job x c' = Some j \<Longrightarrow> wj_bucket j \<noteq> b"
    and r: "wr_prepare c al b (cache x) = Some (jo, s')"
  shows "sys_ok sha (x\<lparr>cache := s', job := (job x)(c := jo)\<rparr>)"
proof -
  let ?xs = "hash_tab (cache x) b"
  from r obtain n s1 where m: "wr_mark b (cache x) = Some (n, s1)"
    by (auto simp: wr_prepare_def split: option.splits)
  from mark_items [OF ok m] have s1: "s1 = mark_all (set ?xs) (cache x)" and n: "n = size_of s1 ?xs" by auto
  show ?thesis
  proof (cases "n = 0")
    case True
    have "s1 = cache x"
      using True n ok unfolding s1 by (intro mark_none) (auto simp: sys_ok_def table_inv_def links_ok_def)
    with r m True j have "s' = cache x" "jo = None" by (auto simp: wr_prepare_def)
    moreover from this j have "x\<lparr>cache := s', job := (job x)(c := jo)\<rparr> = x" by (simp add: fun_upd_idem)
    ultimately show ?thesis using ok by simp
  next
    case False
    with r m obtain w where p: "wr_place c al b n s1 = Some (w, s')"
      and jo: "jo = Some \<lparr>wj_bucket = b, wj_size = n, wj_buf = w, wj_written = False\<rparr>"
      by (auto simp: wr_prepare_def split: option.splits)
    let ?x' = "with_job c b n w s' x"
    have "hash_tab s1 b = ?xs" by (simp add: s1 mark_all_def)
    then have P: "place_inv sha x c b n [] w s'"
      using p by (intro place_loop [OF place_inv_start [OF ok j s1 n refl]])
        (simp add: wr_place_def split: if_splits)
    have "item_ok sha ?x' a cp" if "item_at s' a = Some cp" for a cp
    proof -
      have "half_ok sha ?x' b [] a cp" using P that by (simp add: place_inv_def)
      then show ?thesis by (auto simp: half_ok_def item_ok_def split: if_splits)
    qed
    then have "sys_ok sha ?x'"
      using P ok free j unfolding sys_ok_def
      by (intro conjI allI impI)
        (auto simp: place_inv_def with_job_def job_ok_def size_of_def split: if_splits)
    then show ?thesis by (simp add: with_job_def jo)
  qed
qed

section \<open>Writing and releasing\<close>

lemma wr_write_full:
  assumes jo: "job_ok j" and r: "wr_write c (int (wj_size j)) (wj_size j) (wj_buf j) s = Some s'"
  shows "s' = s\<lparr>file_of := (file_of s)(c := file_write (file_of s c) (loff_file s c) (map the (copy_mem (wj_buf j)))),
      loff_file := (loff_file s)(c := loff_file s c + wj_size j),
      stats := (stats s)\<lparr>mmw := mmw (stats s) + of_nat (st_all_size (wj_buf j))\<rparr>\<rparr>"
proof -
  have "read_block (copy_mem (wj_buf j)) 0 (wj_size j) = Some (map the (copy_mem (wj_buf j)))"
    using jo by (auto simp: job_ok_def read_block_def list_all_iff)
  moreover have "length (map the (copy_mem (wj_buf j))) = wj_size j" using jo by (simp add: job_ok_def)
  ultimately show ?thesis using r by (simp add: wr_write_def)
qed

lemma write_ok:
  assumes ok: "sys_ok sha x" and j: "job x c = Some j" "\<not> wj_written j"
    and r: "wr_write c (int (wj_size j)) (wj_size j) (wj_buf j) (cache x) = Some s'"
  shows "sys_ok sha (x\<lparr>cache := s', job := (job x)(c \<mapsto> j\<lparr>wj_written := True\<rparr>)\<rparr>)" (is "sys_ok _ ?x'")
proof -
  have jo: "job_ok j" using ok j by (simp add: sys_ok_def)
  note s' = wr_write_full [OF jo r]
  have v: "vfile ?x' c' = vfile x c'" for c'
    using j by (cases "c' = c") (auto simp: vfile_def s' split: option.splits)
  have "cpu_coherent ?x' c'" for c'
  proof -
    have "cpu_coherent x c'" using ok by (simp add: sys_ok_def)
    then show ?thesis
      using j jo by (cases "c' = c") (simp_all add: cpu_coherent_def unwritten_def s' job_ok_def)
  qed
  moreover have "disk_ok sha ?x' cp" if d: "disk_ok sha x cp" for cp
  proof (cases "nat (cpuid cp) = c")
    case False
    with d show ?thesis unfolding disk_ok_def v by (simp add: s')
  next
    case True
    have "cpu_coherent x c" using ok by (simp add: sys_ok_def)
    then have "bitmap_index (cache x) c * CHUNKSTEP = loff_file (cache x) c + wj_size j"
      using j jo by (simp add: cpu_coherent_def unwritten_def job_ok_def)
    with d True show ?thesis unfolding disk_ok_def v by (auto simp: s' Let_def)
  qed
  moreover have "table_inv s'" using ok by (simp add: sys_ok_def table_inv_def links_ok_def item_sum_def s')
  ultimately show ?thesis
    using ok j jo unfolding sys_ok_def
    by (intro conjI allI impI) (auto simp: s' item_ok_def job_ok_def split: if_splits)
qed

lemma only_job:
  assumes "sys_ok sha x" "job x c = Some j" "wj_written j" "job x c' = Some j'" "wj_bucket j' = wj_bucket j"
  shows "wj_written j'"
proof -
  have "c' = c" using assms unfolding sys_ok_def by metis
  then show ?thesis using assms by simp
qed

lemma release_step_ok:
  assumes ok: "sys_ok sha x" and j: "job x c = Some j" "wj_written j"
    and a: "a \<in> set (hash_tab (cache x) (wj_bucket j))"
  shows "\<exists>s'. wr_release_step (Some (cache x)) a = Some s' \<and> sys_ok sha (x\<lparr>cache := s'\<rparr>)
    \<and> hash_tab s' = hash_tab (cache x)"
proof -
  have inv: "table_inv (cache x)" using ok by (simp add: sys_ok_def)
  from inv a obtain cp where it: "item_at (cache x) a = Some cp" and b: "bucket_of (sha1 cp) = wj_bucket j"
    by (rule links_okD)
  show ?thesis
  proof (cases "flag_cache cp = 2 \<and> share_ref cp = 1 \<and> 0 \<le> cpuid cp")
    case False
    then show ?thesis using it ok by (auto simp: wr_release_step_def)
  next
    case True
    let ?cp = "cp\<lparr>flag_cache := 1, item_data := None, mem_style := -1\<rparr>"
    have old: "item_ok sha x a cp" using ok it by (simp add: sys_ok_def)
    then have ms: "mem_style cp \<in> {0, 1, 2, 3}" using True by (simp add: item_ok_def mem_ok_def resident_def)
    then obtain st where fr: "free_data_memory (cp\<lparr>flag_cache := 1\<rparr>) (stats (cache x)) = Some (?cp, st)"
      by (auto simp: free_data_memory_def Let_def)
    define s' where "s' = (set_item a ?cp (cache x))\<lparr>stats := st\<rparr>"
    have r: "wr_release_step (Some (cache x)) a = Some s'"
      using it True fr by (simp add: wr_release_step_def s'_def)
    have "table_inv s'"
    proof (rule table_inv_upd [OF inv it, of ?cp])
      fix k :: int assume k: "k \<in> {0, 1, 2, 3}"
      then have "k \<noteq> -1" by auto
      then show "mem_counters (stats s') k = mem_counters (stats (cache x)) k + style_bytes k ?cp - style_bytes k cp"
        using free_counters(1) [OF fr k] by (simp add: s'_def style_bytes_def)
    qed (simp_all add: s'_def set_item_def block_ok_def)
    moreover have same: "same_disk x (x\<lparr>cache := s'\<rparr>)" by (simp add: s'_def same_disk_def set_item_def)
    moreover have "region_end cp \<le> loff_file (cache x) (nat (cpuid cp))"
      using old True b only_job [OF ok j] by (auto simp: item_ok_def disk_ok_def Let_def)
    then have "disk_ok sha x ?cp"
      using old by (auto simp: item_ok_def disk_ok_def Let_def region_end_def)
    then have "item_ok sha (x\<lparr>cache := s'\<rparr>) a ?cp"
      using old True same_disk_cong(1) [OF same]
      by (auto simp: item_ok_def mem_ok_def resident_def flags_ok_def cpu_ok_def)
    ultimately have "sys_ok sha (x\<lparr>cache := s'\<rparr>)"
      using ok by (intro sys_ok_upd [OF ok same, of a ?cp]) (simp_all add: s'_def set_item_def sys_ok_def)
    then show ?thesis using r by (simp add: s'_def set_item_def)
  qed
qed

lemma release_loop:
  assumes ok: "sys_ok sha x" and j: "job x c = Some j" "wj_written j"
  shows "\<exists>s'. wr_release (wj_bucket j) (cache x) = Some s' \<and> sys_ok sha (x\<lparr>cache := s'\<rparr>)"
  unfolding wr_release_def
proof (rule bucket_loop_total [where \<pi> = "\<lambda>s. s" and P = "\<lambda>s. sys_ok sha (x\<lparr>cache := s\<rparr>)"])
  fix s a
  assume "sys_ok sha (x\<lparr>cache := s\<rparr>)" "a \<in> set (hash_tab s (wj_bucket j))"
  then show "\<exists>s'. wr_release_step (Some s) a = Some s' \<and> sys_ok sha (x\<lparr>cache := s'\<rparr>)
      \<and> set (hash_tab s (wj_bucket j)) - {a} \<subseteq> set (hash_tab s' (wj_bucket j))"
    using release_step_ok [of sha "x\<lparr>cache := s\<rparr>" c j a] j by auto
qed (use ok in \<open>simp_all add: sys_ok_def table_inv_def links_ok_def\<close>)

lemma end_job_ok:
  assumes ok: "sys_ok sha x" and j: "job x c = Some j" "wj_written j"
  shows "sys_ok sha (x\<lparr>job := (job x)(c := None)\<rparr>)" (is "sys_ok _ ?x'")
proof -
  have v: "vfile ?x' c' = vfile x c'" for c'
    using j by (cases "c' = c") (auto simp: vfile_def split: option.splits)
  have "cpu_coherent ?x' c'" for c'
  proof -
    have "cpu_coherent x c'" using ok by (simp add: sys_ok_def)
    then show ?thesis using j by (cases "c' = c") (simp_all add: cpu_coherent_def unwritten_def)
  qed
  moreover have "disk_ok sha ?x' cp" if "disk_ok sha x cp" for cp
    using that j by (cases "nat (cpuid cp) = c") (auto simp: disk_ok_def v Let_def)
  ultimately show ?thesis
    using ok unfolding sys_ok_def
    by (intro conjI allI impI) (auto simp: item_ok_def split: if_splits)
qed

section \<open>Every reachable state is in order\<close>

lemma sys_ok_start: "fresh_cache s \<Longrightarrow> sys_ok sha \<lparr>cache = s, pending = {#}, job = \<lambda>_. None\<rparr>"
  by (auto simp: fresh_cache_def sys_ok_def table_inv_def links_ok_def item_sum_def mem_counters_def
      cpu_coherent_def unwritten_def)

lemma wstep_ok:
  assumes "sys_ok sha x" "wstep sha x x'" "\<And>v. length (sha v) = SHA1SIZE"
  shows "sys_ok sha x'"
  using assms(2)
proof cases
  case (insert mx mem ok v r s')
  then show ?thesis using insert_ok [OF assms(1,3)] by blast
next
  case (get info a s')
  then show ?thesis using get_ok [OF assms(1)] by simp
next
  case (drop a cp s')
  then show ?thesis using drop_ok [OF assms(1)] by simp
next
  case (fetch a cp ok s')
  then show ?thesis using fetch_ok [OF assms(1)] by simp
next
  case (account st n1 n2 n3)
  then show ?thesis using account_ok [OF assms(1)] by simp
next
  case (tick b s')
  then show ?thesis using tick_ok [OF assms(1)] by simp
next
  case (prepare b c ok j s')
  let ?x = "x\<lparr>cache := (cache x)\<lparr>work_queued := (work_queued (cache x))(b := False)\<rparr>\<rparr>"
  have "sys_ok sha ?x" using assms(1) by (simp add: sys_ok_queue)
  from prepare_ok [OF this, of c b ok j s'] prepare show ?thesis by simp
next
  case (wr c j s')
  then show ?thesis using write_ok [OF assms(1)] by simp
next
  case (release c j s')
  from release_loop [OF assms(1) release(2,3)] release(4)
  have "sys_ok sha (x\<lparr>cache := s'\<rparr>)" by simp
  from end_job_ok [OF this, of c j] release show ?thesis by simp
qed

lemma reach_ok: "reach sha x \<Longrightarrow> (\<And>v. length (sha v) = SHA1SIZE) \<Longrightarrow> sys_ok sha x"
  by (induction rule: reach.induct) (blast intro: sys_ok_start wstep_ok)+

section \<open>Properties\<close>



text \<open>
  (C3) The bucket timer is safe: in every reachable state \<open>bucket_clear_item\<close> completes on every
  bucket; it never reaches the \<open>BUG()\<close> of \<open>free_data_memory\<close> (an item that is deleted has
  the memory its state promises) and never follows a dangling entry.
\<close>

theorem timer_never_bugs:
  assumes "\<And>v. length (sha v) = SHA1SIZE" "reach sha x"
  shows "\<exists>s'. bucket_clear_item b (cache x) = Some s'"
  using reach_ok [OF assms(2,1)] by (rule tick_total)


text \<open>
  (C19) The books are exact: in every reachable state \<open>hash_count\<close> is the number of items and the
  counters \<open>mm0\<close> to \<open>mm3\<close> are, in 64-bit arithmetic, the bytes of the items that hold a block
  of that kind.
\<close>

theorem counters_exact:
  assumes "\<And>v. length (sha v) = SHA1SIZE" "reach sha x" "k \<in> {0, 1, 2, 3}"
  shows "hash_count (cache x) = of_nat (card (dom (item_at (cache x))))
    \<and> mem_counters (stats (cache x)) k = item_sum (style_bytes k) (cache x)"
proof -
  have t: "table_inv (cache x)" using reach_ok [OF assms(2,1)] by (simp add: sys_ok_def)
  then have "hash_count (cache x) = of_nat (card (dom (item_at (cache x))))"
    by (simp add: table_inv_def item_sum_def)
  with table_inv_counters [OF t assms(3)] show ?thesis by simp
qed

text \<open>
  (C20) Two references never share an item that may vanish: in every reachable state an item handed
  out by \<open>get_hash_item\<close> and not given back is still in the table, and its \<open>share_ref\<close> is one
  more than the number of references outstanding.
\<close>

theorem references_counted:
  assumes "\<And>v. length (sha v) = SHA1SIZE" "reach sha x" "a \<in># pending x"
  shows "\<exists>cp. item_at (cache x) a = Some cp \<and> share_ref cp = 1 + of_nat (count (pending x) a)"
proof -
  have ok: "sys_ok sha x" by (rule reach_ok [OF assms(2,1)])
  then obtain cp where "item_at (cache x) a = Some cp" using assms(3) by (auto simp: sys_ok_def)
  with ok show ?thesis by (auto simp: sys_ok_def item_ok_def flags_ok_def)
qed

text \<open>
  (C4) Unloading frees everything. From every reachable state with no reference outstanding
  (\<open>clear_remainder_skb\<close> has drained the packets), \<open>hash_flush\<close> completes without
  \<open>BUG()\<close>, no item is left, and \<open>hash_count\<close> and the four memory counters are zero.
\<close>

theorem flush_frees_all:
  assumes "\<And>v. length (sha v) = SHA1SIZE" "reach sha x" "pending x = {#}"
  shows "\<exists>s'. hash_flush (cache x) = Some s' \<and> item_at s' = Map.empty \<and> hash_count s' = 0
    \<and> mm0 (stats s') = 0 \<and> mm1 (stats s') = 0 \<and> mm2 (stats s') = 0 \<and> mm3 (stats s') = 0"
proof -
  have ok: "sys_ok sha x" by (rule reach_ok [OF assms(2,1)])
  then have t: "table_inv (cache x)" by (simp add: sys_ok_def)
  from flush_total [OF ok assms(3)] obtain s' where r: "hash_flush (cache x) = Some s'"
    unfolding hash_flush_def by blast
  note e = hash_flush_empty [OF t r]
  show ?thesis using r e(1,2) e(3) [of 0] e(3) [of 1] e(3) [of 2] e(3) [of 3] by (simp add: mem_counters_def)
qed

end
