(* ===== verification/Cache_Witness.thy ===== *)
theory Cache_Witness
  imports Cache_System
begin

text \<open>
  A run of the cache through its whole life cycle on one item: inserted, found, given back, aged
  by the bucket timer, placed, written and released to disk. The theorems about reachable states
  are applied along this run.
\<close>

section \<open>The run\<close>

text \<open>A stand-in for SHA-1: twenty copies of the first byte.\<close>

definition demo_sha :: "byte list \<Rightarrow> byte list" where
  "demo_sha v = replicate 20 (case v of [] \<Rightarrow> 0 | c # _ \<Rightarrow> c)"

definition demo_bucket :: nat where "demo_bucket = bucket_of (demo_sha [5])"

definition zero_stats :: wstats where
  "zero_stats = \<lparr>mm0 = 0, mm1 = 0, mm2 = 0, mm3 = 0, devote0 = 0, devote1 = 0, devote2 = 0, devote3 = 0,
     devote4 = 0, mmw = 0, mmd = 0, mmm = 0, mmf = 0, sum_num = 0, save_num = 0, skb_num = 0, rdl = 0, rdf = 0\<rparr>"

definition empty_cache :: wcache where
  "empty_cache = \<lparr>hash_tab = (\<lambda>_. []), item_at = Map.empty, hash_count = 0, stats = zero_stats,
     bitmap = (\<lambda>_ _. False), bitmap_index = (\<lambda>_. 0), loff_file = (\<lambda>_. 0), file_of = (\<lambda>_ _. 0),
     work_queued = (\<lambda>_. False)\<rparr>"

definition demo_block :: block where "demo_block = Some 5 # replicate 31 (Some 0)"

definition demo_item :: hashinfo_item where
  "demo_item = \<lparr>refcnt = 6, share_ref = 1, item_len = 1, sha1 = demo_sha [5], item_data = Some demo_block,
     mem_style = 1, cpuid = -1, item_start = 0, flag_cache = 0, flag_mem = 0, store_flag = 0\<rparr>"

definition one_item :: "hashinfo_item \<Rightarrow> wstats \<Rightarrow> wcache" where
  "one_item cp st = empty_cache\<lparr>hash_tab := (\<lambda>_. [])(demo_bucket := [1]), item_at := [1 \<mapsto> cp],
     hash_count := 1, stats := st\<rparr>"

definition st1 :: wstats where "st1 = zero_stats\<lparr>mm1 := 1\<rparr>"
definition st2 :: wstats where "st2 = st1\<lparr>devote0 := 1\<rparr>"
definition item2 :: hashinfo_item where "item2 = demo_item\<lparr>refcnt := 12, share_ref := 2\<rparr>"
definition item3 :: hashinfo_item where "item3 = demo_item\<lparr>refcnt := 12\<rparr>"
definition item4 :: hashinfo_item where "item4 = demo_item\<lparr>refcnt := 11, flag_cache := 2, store_flag := 1\<rparr>"
definition cache4 :: wcache where "cache4 = (one_item item4 st2)\<lparr>work_queued := (\<lambda>_. False)(demo_bucket := True)\<rparr>"
definition item5 :: hashinfo_item where "item5 = item4\<lparr>store_flag := 2, cpuid := 0\<rparr>"
definition cache5 :: wcache where
  "cache5 = (one_item item5 st2)\<lparr>bitmap := (\<lambda>_ _. False)(0 := \<lambda>i. i = 0), bitmap_index := (\<lambda>_. 0)(0 := 1)\<rparr>"
definition buf5 :: wr_buf where "buf5 = \<lparr>copy_mem = demo_block, mem_index = 32, st_all_size = 1\<rparr>"
definition job5 :: wr_job where "job5 = \<lparr>wj_bucket = demo_bucket, wj_size = 32, wj_buf = buf5, wj_written = False\<rparr>"
definition cache6 :: wcache where
  "cache6 = cache5\<lparr>file_of := (\<lambda>_ _. 0)(0 := \<lambda>i. if i = 0 then 5 else 0), loff_file := (\<lambda>_. 0)(0 := 32),
     stats := st2\<lparr>mmw := 1\<rparr>\<rparr>"
definition item7 :: hashinfo_item where "item7 = item5\<lparr>flag_cache := 1, item_data := None, mem_style := -1\<rparr>"

lemma demo_sha_len: "length (demo_sha v) = SHA1SIZE"
  by (simp add: demo_sha_def SHA1SIZE_def)

lemma run_insert:
  "hash_new_item 100 (Some 1) True (demo_sha [5]) [5] (length [5 :: byte]) empty_cache = Some (Some 1, one_item demo_item st1)"
  by (simp add: hash_new_item_def alloc_data_memory_def blank_item_def memcpy_at_def zalloc_block_def CHUNKSTEP_def
      demo_sha_def SHA1SIZE_def empty_cache_def set_item_def hash_link_def one_item_def demo_item_def demo_block_def
      st1_def zero_stats_def demo_bucket_def ITEM_CITE_ADD_def Let_def numeral_eq_Suc)

lemma run_get: "get_hash_item (demo_sha [5]) (one_item demo_item st1) = (Some 1, one_item item2 st2)"
  by (simp add: get_hash_item_def bucket_find_def one_item_def demo_bucket_def [symmetric] demo_item_def
      set_item_def item2_def st2_def devote_def ITEM_CITE_FIND_def Let_def empty_cache_def st1_def zero_stats_def)

lemma run_drop: "drop_item 1 (one_item item2 st2) = Some (one_item item3 st2)"
  by (simp add: drop_item_def one_item_def set_item_def item2_def item3_def demo_item_def)

lemma run_tick: "bucket_clear_item demo_bucket (one_item item3 st2) = Some cache4"
  by (simp add: bucket_clear_item_def clear_step_def one_item_def item3_def demo_item_def age_item_def
      age_promote_def age_disk_def age_vip_def age_store_def ITEM_VIP_LIMIT_def ITEM_DISK_LIMIT_def set_item_def
      cache4_def item4_def empty_cache_def)

lemma run_area: "bitmap_find_next_zero_area (\<lambda>_. False) bitmap_size 0 1 0 = 0"
  by (rule area_at_start) (simp_all add: bitmap_size_def)

lemma run_blocks: "read_block demo_block 0 1 = Some [5]" "memcpy_at (zalloc_block 32) 0 [5] = Some demo_block"
  by (simp_all add: read_block_def demo_block_def memcpy_at_def zalloc_block_def numeral_eq_Suc)

definition cache4m :: wcache where "cache4m = one_item (item4\<lparr>store_flag := 2, cpuid := -2\<rparr>) st2"

lemma run_mark:
  "wr_mark demo_bucket (cache4\<lparr>work_queued := (work_queued cache4)(demo_bucket := False)\<rparr>) = Some (32, cache4m)"
  by (simp add: wr_mark_def wr_mark_step_def cache4_def cache4m_def one_item_def item4_def demo_item_def wr_due_def
      ITEM_VIP_LIMIT_def ITEM_DISK_LIMIT_def mark_item_def num_chunks_def CHUNKSTEP_def set_item_def empty_cache_def
      fun_eq_iff)

lemma run_place: "wr_place 0 True demo_bucket 32 cache4m = Some (buf5, cache5)"
  using run_blocks run_area
  by (simp add: wr_place_def wr_place_step_def place_item_def cache4m_def one_item_def item4_def demo_item_def
      wr_due_def ITEM_VIP_LIMIT_def ITEM_DISK_LIMIT_def num_chunks_def CHUNKSTEP_def set_item_def empty_cache_def
      bitmap_size_def buf5_def cache5_def item5_def set_bits_def Let_def fun_eq_iff)

lemma run_prepare:
  "wr_prepare 0 True demo_bucket (cache4\<lparr>work_queued := (work_queued cache4)(demo_bucket := False)\<rparr>)
   = Some (Some job5, cache5)"
  by (simp add: wr_prepare_def run_mark run_place job5_def)

lemma run_write: "wr_write 0 (int (wj_size job5)) (wj_size job5) (wj_buf job5) cache5 = Some cache6"
  by (auto simp: wr_write_def job5_def buf5_def demo_block_def read_block_def cache6_def cache5_def one_item_def
      empty_cache_def file_write_def st2_def st1_def zero_stats_def list_all_iff fun_eq_iff nth_Cons' nth_replicate)

lemma run_release: "wr_release demo_bucket cache6 = Some (cache6\<lparr>item_at := [1 \<mapsto> item7], stats := (stats cache6)\<lparr>mm1 := 0\<rparr>\<rparr>)"
  by (simp add: wr_release_def wr_release_step_def cache6_def cache5_def one_item_def item5_def item4_def demo_item_def
      free_data_memory_def item7_def set_item_def st2_def st1_def zero_stats_def Let_def)

section \<open>The states along the run are reachable\<close>

definition sys0 :: wsys where "sys0 = \<lparr>cache = empty_cache, pending = {#}, job = \<lambda>_. None\<rparr>"
definition sys1 :: wsys where "sys1 = sys0\<lparr>cache := one_item demo_item st1\<rparr>"
definition sys2 :: wsys where "sys2 = sys0\<lparr>cache := one_item item2 st2, pending := {#1#}\<rparr>"
definition sys3 :: wsys where "sys3 = sys0\<lparr>cache := one_item item3 st2\<rparr>"
definition sys4 :: wsys where "sys4 = sys0\<lparr>cache := cache4\<rparr>"
definition sys5 :: wsys where "sys5 = sys0\<lparr>cache := cache5, job := (\<lambda>_. None)(0 \<mapsto> job5)\<rparr>"
definition sys6 :: wsys where "sys6 = sys0\<lparr>cache := cache6, job := (\<lambda>_. None)(0 \<mapsto> job5\<lparr>wj_written := True\<rparr>)\<rparr>"
definition sys7 :: wsys where
  "sys7 = sys0\<lparr>cache := cache6\<lparr>item_at := [1 \<mapsto> item7], stats := (stats cache6)\<lparr>mm1 := 0\<rparr>\<rparr>\<rparr>"

lemma reach0: "reach demo_sha sys0"
  unfolding sys0_def by (rule reach.start) (simp add: fresh_cache_def empty_cache_def zero_stats_def)

lemma reach1: "reach demo_sha sys1"
  using reach0 wstep.insert [of 100 "Some 1" True demo_sha "[5]" sys0 "Some 1" "one_item demo_item st1"] run_insert
  by (auto simp: sys1_def sys0_def empty_cache_def intro: reach.more)

lemma reach2: "reach demo_sha sys2"
  using reach1 wstep.get [of "demo_sha [5]" sys1 1 "one_item item2 st2" demo_sha] run_get
  by (auto simp: sys1_def sys2_def sys0_def intro: reach.more)

lemma reach3: "reach demo_sha sys3"
  using reach2 wstep.drop [of 1 sys2 item2 "one_item item3 st2" demo_sha] run_drop
  by (auto simp: sys2_def sys3_def sys0_def one_item_def item2_def demo_item_def intro: reach.more)

lemma reach4: "reach demo_sha sys4"
  using reach3 wstep.tick [of demo_bucket sys3 cache4 demo_sha] run_tick
  by (auto simp: sys3_def sys4_def sys0_def intro: reach.more)

lemma reach5: "reach demo_sha sys5"
  using reach4 wstep.prepare [of sys4 demo_bucket 0 True "Some job5" cache5 demo_sha] run_prepare
  by (auto simp: sys4_def sys5_def sys0_def cache4_def intro: reach.more)

lemma reach6: "reach demo_sha sys6"
  using reach5 wstep.wr [of sys5 0 job5 cache6 demo_sha] run_write
  by (auto simp: sys5_def sys6_def sys0_def job5_def intro: reach.more)

lemma reach7: "reach demo_sha sys7"
  using reach6 wstep.release [of sys6 0 "job5\<lparr>wj_written := True\<rparr>" _ demo_sha] run_release
  by (auto simp: sys6_def sys7_def sys0_def job5_def intro: reach.more)

section \<open>The theorems along the run\<close>



theorem timer_never_bugs_witness: "\<exists>s'. bucket_clear_item demo_bucket (cache sys7) = Some s'"
  by (rule timer_never_bugs [OF demo_sha_len reach7])


theorem counters_exact_witness: "hash_count (cache sys1) = 1 \<and> mem_counters (stats (cache sys1)) 1 = 1"
  using counters_exact [OF demo_sha_len reach1, of 1]
  by (simp add: sys1_def one_item_def item_sum_def style_bytes_def demo_item_def)

theorem references_counted_witness: "\<exists>cp. item_at (cache sys2) 1 = Some cp \<and> share_ref cp = 2"
  using references_counted [OF demo_sha_len reach2, of 1] by (simp add: sys2_def)

theorem insert_lookup_witness:
  "\<exists>cp d. get_hash_item (demo_sha [5]) (one_item demo_item st1) =
      (Some 1, (set_item 1 cp (one_item demo_item st1))\<lparr>stats := devote cp st1\<rparr>) \<and> item_data cp = Some d
    \<and> read_block d 0 1 = Some [5]"
  using insert_lookup [OF run_insert] by (auto simp: demo_sha_def SHA1SIZE_def one_item_def)

lemma demo_inv: "table_inv (one_item demo_item st1)"
  using reach_ok [OF reach1 demo_sha_len] by (simp add: sys_ok_def sys1_def)

theorem lookup_exact_witness: "fst (get_hash_item (demo_sha [5]) (one_item demo_item st1)) = Some 1"
  using lookup_exact [OF demo_inv, of "demo_sha [5]"] by (auto simp: one_item_def demo_item_def split: prod.splits option.splits if_splits)


theorem flush_frees_all_witness: "\<exists>s'. hash_flush (cache sys7) = Some s' \<and> item_at s' = Map.empty"
  using flush_frees_all [OF demo_sha_len reach7] by (auto simp: sys7_def sys0_def)

end
