(* ===== verification/Write_Back_Race.thy ===== *)
theory Write_Back_Race
  imports Cache_Witness
begin

text \<open>
  What the lock of \<open>wr_file\<close> does not exclude. Passes 1 and 2 run under a read lock, which
  \<open>get_hash_item\<close> takes as well, so a lookup may fall between them; \<open>all_size\<close> is then
  larger than what pass 2 places, and \<open>loff_file\<close> moves further than \<open>bitmap_index\<close>. From
  then on the worker writes items at other positions than \<open>start * CHUNKSTEP\<close>, where
  \<open>read_data\<close> looks for them.
\<close>

definition race_item :: "u32 \<Rightarrow> u32 \<Rightarrow> int \<Rightarrow> nat \<Rightarrow> hashinfo_item" where
  "race_item r sh c sf = demo_item\<lparr>refcnt := r, share_ref := sh, flag_cache := 2, cpuid := c, store_flag := sf\<rparr>"

definition race_stats :: wstats where "race_stats = st1\<lparr>devote2 := 1\<rparr>"

definition race_buf :: wr_buf where
  "race_buf = \<lparr>copy_mem = zalloc_block 32, mem_index = 0, st_all_size = 0\<rparr>"

definition race_written :: "hashinfo_item \<Rightarrow> wcache" where
  "race_written cp = (one_item cp race_stats)\<lparr>loff_file := (\<lambda>_. 0)(0 := 32)\<rparr>"

definition race_aged :: wcache where
  "race_aged = (race_written (race_item 11 1 (-1) 2))\<lparr>work_queued := (\<lambda>_. False)(demo_bucket := True)\<rparr>"

definition race_placed :: wcache where
  "race_placed = race_aged\<lparr>item_at := [1 \<mapsto> race_item 11 1 0 2],
     bitmap := (\<lambda>_ _. False)(0 := \<lambda>i. i = 0), bitmap_index := (\<lambda>_. 0)(0 := 1)\<rparr>"

definition race_end :: wcache where
  "race_end = race_placed\<lparr>item_at := [1 \<mapsto> (race_item 11 1 0 2)\<lparr>flag_cache := 1, item_data := None, mem_style := -1\<rparr>],
     file_of := (\<lambda>_ _. 0)(0 := \<lambda>i. if i = 32 then 5 else 0), loff_file := (\<lambda>_. 0)(0 := 64),
     stats := race_stats\<lparr>mmw := 1, mm1 := 0\<rparr>\<rparr>"

lemmas race_defs = race_item_def race_stats_def race_buf_def race_written_def one_item_def demo_item_def st1_def
  zero_stats_def empty_cache_def set_item_def

lemma race_mark:
  "wr_mark demo_bucket (one_item (race_item 6 1 (-1) 1) st1) = Some (32, one_item (race_item 6 1 (-2) 2) st1)"
  by (simp add: wr_mark_def wr_mark_step_def race_defs wr_due_def ITEM_VIP_LIMIT_def ITEM_DISK_LIMIT_def mark_item_def
      num_chunks_def CHUNKSTEP_def)

lemma race_get:
  "get_hash_item (demo_sha [5]) (one_item (race_item 6 1 (-2) 2) st1) = (Some 1, one_item (race_item 12 2 (-2) 2) race_stats)"
  by (simp add: get_hash_item_def bucket_find_def race_defs demo_bucket_def [symmetric] devote_def ITEM_CITE_FIND_def Let_def)

lemma race_place:
  "wr_place 0 True demo_bucket 32 (one_item (race_item 12 2 (-2) 2) race_stats)
   = Some (race_buf, one_item (race_item 12 2 (-1) 2) race_stats)"
  by (simp add: wr_place_def wr_place_step_def race_defs)

lemma race_write:
  "wr_write 0 32 32 race_buf (one_item (race_item 12 2 (-1) 2) race_stats) = Some (race_written (race_item 12 2 (-1) 2))"
  by (auto simp: wr_write_def race_defs read_block_def zalloc_block_def list_all_iff file_write_def fun_eq_iff)

lemma race_release: "wr_release demo_bucket (race_written (race_item 12 2 (-1) 2)) = Some (race_written (race_item 12 2 (-1) 2))"
  by (simp add: wr_release_def wr_release_step_def race_defs)

lemma race_drop: "drop_item 1 (race_written (race_item 12 2 (-1) 2)) = Some (race_written (race_item 12 1 (-1) 2))"
  by (simp add: drop_item_def race_defs)

lemma race_tick: "bucket_clear_item demo_bucket (race_written (race_item 12 1 (-1) 2)) = Some race_aged"
  by (simp add: bucket_clear_item_def clear_step_def race_defs race_aged_def age_item_def
      age_promote_def age_disk_def age_vip_def age_store_def ITEM_VIP_LIMIT_def ITEM_DISK_LIMIT_def)

lemma race_mark2: "wr_mark demo_bucket race_aged = Some (32, race_aged\<lparr>item_at := [1 \<mapsto> race_item 11 1 (-2) 2]\<rparr>)"
  by (simp add: wr_mark_def wr_mark_step_def race_aged_def race_defs wr_due_def ITEM_VIP_LIMIT_def ITEM_DISK_LIMIT_def
      mark_item_def num_chunks_def CHUNKSTEP_def)

lemma race_place2:
  "wr_place 0 True demo_bucket 32 (race_aged\<lparr>item_at := [1 \<mapsto> race_item 11 1 (-2) 2]\<rparr>) = Some (buf5, race_placed)"
  using run_blocks run_area
  by (simp add: wr_place_def wr_place_step_def place_item_def race_aged_def race_placed_def race_defs wr_due_def
      ITEM_VIP_LIMIT_def ITEM_DISK_LIMIT_def num_chunks_def CHUNKSTEP_def bitmap_size_def buf5_def set_bits_def
      Let_def fun_eq_iff)

lemma race_finish:
  "\<exists>s. wr_write 0 32 32 buf5 race_placed = Some s \<and> wr_release demo_bucket s = Some race_end"
  by (auto simp: wr_write_def buf5_def demo_block_def read_block_def race_placed_def race_aged_def race_defs
      file_write_def list_all_iff fun_eq_iff nth_Cons' nth_replicate wr_release_def wr_release_step_def
      free_data_memory_def race_end_def Let_def)

text \<open>
  (C18) A lookup between the first two passes of \<open>wr_file\<close> makes the cache lose a chunk. An item
  is marked for the disk, found by a packet, and so not placed; the worker still writes
  \<open>all_size\<close> bytes and advances \<open>loff_file\<close>, but not \<open>bitmap_index\<close>. When the item is
  written later it gets \<open>start = 0\<close> and its bytes go to position 32: in state 1, with its memory
  freed, the file holds other bytes than its key promises at the place where it will be read.
\<close>

theorem lookup_during_write_back_loses_chunk:
  "\<exists>s1 s2 w s3 s4 s5 s6 s7 s8 cp.
     wr_mark demo_bucket (one_item (race_item 6 1 (-1) 1) st1) = Some (32, s1)
   \<and> get_hash_item (demo_sha [5]) s1 = (Some 1, s2)
   \<and> wr_place 0 True demo_bucket 32 s2 = Some (w, s3)
   \<and> wr_write 0 32 32 w s3 = Some s4 \<and> wr_release demo_bucket s4 = Some s5
   \<and> drop_item 1 s5 = Some s6 \<and> bucket_clear_item demo_bucket s6 = Some s7
   \<and> wr_file 0 0 True 32 demo_bucket s7 = Some s8
   \<and> item_at s8 1 = Some cp \<and> flag_cache cp = 1 \<and> item_data cp = None
   \<and> demo_sha (file_read (file_of s8 0) (item_start cp * CHUNKSTEP) (item_len cp)) \<noteq> sha1 cp"
proof -
  have w: "wr_file 0 0 True 32 demo_bucket race_aged = Some race_end"
    using race_finish by (auto simp: wr_file_def race_mark2 race_place2 [unfolded One_nat_def])
  have e: "item_at race_end 1 = Some ((race_item 11 1 0 2)\<lparr>flag_cache := 1, item_data := None, mem_style := -1\<rparr>)"
    "file_of race_end 0 = (\<lambda>i. if i = 32 then 5 else 0)" by (simp_all add: race_end_def)
  have "demo_sha (file_read (file_of race_end 0) 0 1) \<noteq> demo_sha [5]"
    by (simp add: e file_read_def demo_sha_def)
  then have ne: "demo_sha (file_read (file_of race_end 0) (item_start cp * CHUNKSTEP) (item_len cp)) \<noteq> sha1 cp"
    if "cp = (race_item 11 1 0 2)\<lparr>flag_cache := 1, item_data := None, mem_style := -1\<rparr>" for cp
    using that by (simp add: race_item_def demo_item_def)
  show ?thesis
    by (intro exI conjI, rule race_mark, rule race_get, rule race_place, rule race_write, rule race_release,
        rule race_drop, rule race_tick, rule w, rule e(1), simp, simp, rule ne, rule refl)
qed

end
