(* ===== verification/Partition.thy ===== *)
theory Partition
  imports Chunking
begin

text \<open>
  From cut points to chunks: the body that \<open>get_partition\<close> of \<open>kernel_hash/nf_in.c\<close> and of
  \<open>send_module/nf_out.c\<close> have in common. The positions go through a \<open>kfifo\<close>, which is
  kernel code: its operations are arguments (\<open>kfifo_ops\<close>), and \<open>kfifo_law\<close> states what
  \<open>linux/kfifo.h\<close> documents: first in, first out, and a put that does not fit stores nothing.
  \<open>bh\<close> is the caller's \<open>build_hash\<close>; \<open>None\<close> is a memory fault or \<open>BUG()\<close>.
\<close>

section \<open>The fifo\<close>

record 'f kfifo_ops =
  kf_alloc :: "'f option"
  kf_put :: "nat \<Rightarrow> 'f \<Rightarrow> 'f"
  kf_len :: "'f \<Rightarrow> nat"
  kf_get :: "'f \<Rightarrow> nat \<times> 'f"

definition KFIFOLEN :: nat where "KFIFOLEN = 1024 * 4"

primrec drain :: "'f kfifo_ops \<Rightarrow> nat \<Rightarrow> 'f \<Rightarrow> nat list" where
  "drain q 0 f = []"
| "drain q (Suc k) f = fst (kf_get q f) # drain q k (snd (kf_get q f))"

definition kfifo_law :: "'f kfifo_ops \<Rightarrow> bool" where
  "kfifo_law q \<longleftrightarrow> (case kf_alloc q of None \<Rightarrow> False | Some f0 \<Rightarrow>
     (\<forall>xs. let f = fold (kf_put q) xs f0; n = min (KFIFOLEN div 4) (length xs) in
        kf_len q f = 4 * n \<and> drain q n f = take n xs))"

section \<open>The loop over the positions\<close>

fun fifo_loop ::
  "'f kfifo_ops \<Rightarrow> (nat \<Rightarrow> nat \<Rightarrow> 's \<Rightarrow> 's option) \<Rightarrow> nat \<Rightarrow> nat \<Rightarrow> nat \<Rightarrow> 'f \<Rightarrow> 's \<Rightarrow> (nat \<times> 's) option" where
  "fifo_loop q bh 0 fifo_i end_pos f s = Some (end_pos, s)"
| "fifo_loop q bh (Suc k) fifo_i end_pos f s =
     (let (value, f') = kf_get q f;
          start_pos = (if fifo_i = 0 then 0 else end_pos + 1)
      in case bh start_pos value s of None \<Rightarrow> None
         | Some s' \<Rightarrow> fifo_loop q bh k (Suc fifo_i) value f' s')"

text \<open>\<open>length\<close> is an \<open>int\<close>: a negative or small value does nothing.\<close>

definition partition_run ::
  "'f kfifo_ops \<Rightarrow> hash_params \<Rightarrow> (nat \<Rightarrow> nat \<Rightarrow> 's \<Rightarrow> 's option) \<Rightarrow> byte list \<Rightarrow> int \<Rightarrow> 's \<Rightarrow> 's option" where
  "partition_run q g bh data len s =
     (if int (hp_chunk_num g) < len then
        (case kf_alloc q of None \<Rightarrow> Some s
         | Some fifo \<Rightarrow>
           (case calculate_partition g data (nat len) (kf_put q) fifo of None \<Rightarrow> None
            | Some fifo \<Rightarrow>
              (let fifo_len = kf_len q fifo div 4 in
               case fifo_loop q bh fifo_len 0 0 fifo s of None \<Rightarrow> None
               | Some (end_pos, s1) \<Rightarrow>
                 if 0 < fifo_len then
                   if end_pos \<noteq> nat len - 1 then bh (end_pos + 1) (nat len - 1) s1 else Some s1
                 else bh 0 (nat len - 1) s1)))
      else Some s)"

section \<open>Chunk by chunk\<close>

primrec run_chunks :: "(nat \<Rightarrow> nat \<Rightarrow> 's \<Rightarrow> 's option) \<Rightarrow> (nat \<times> nat) list \<Rightarrow> 's \<Rightarrow> 's option" where
  "run_chunks bh [] s = Some s"
| "run_chunks bh (c # cs) s = (case bh (fst c) (snd c) s of None \<Rightarrow> None | Some s' \<Rightarrow> run_chunks bh cs s')"

lemma run_chunks_append:
  "run_chunks bh (xs @ ys) s = (case run_chunks bh xs s of None \<Rightarrow> None | Some s' \<Rightarrow> run_chunks bh ys s')"
  by (induction xs arbitrary: s) (simp_all split: option.split)

text \<open>The pieces that end at a cut, without the rest.\<close>

fun cut_pieces :: "nat \<Rightarrow> nat list \<Rightarrow> (nat \<times> nat) list" where
  "cut_pieces st [] = []"
| "cut_pieces st (c # cs) = (st, c) # cut_pieces (Suc c) cs"

lemma chunks_from_pieces:
  "chunks_from st cs n = cut_pieces st cs @ chunks_from (if cs = [] then st else Suc (last cs)) [] n"
  by (induction cs arbitrary: st) auto

lemma fifo_loop_pieces:
  assumes "drain q (length cs) f = cs"
  shows "fifo_loop q bh (length cs) i e f s =
    map_option (\<lambda>s'. (if cs = [] then e else last cs, s'))
      (run_chunks bh (cut_pieces (if i = 0 then 0 else e + 1) cs) s)"
  using assms
proof (induction cs arbitrary: i e f s)
  case Nil
  then show ?case by simp
next
  case (Cons c cs)
  then have c: "fst (kf_get q f) = c" and d: "drain q (length cs) (snd (kf_get q f)) = cs" by simp_all
  show ?case
    using c Cons.IH [OF d, of "Suc i" c]
    by (simp split: prod.split option.split) (auto simp: option.map_comp comp_def)
qed

text \<open>The positions that fit in the fifo, and the chunks they leave.\<close>

definition kept_cuts :: "hash_params \<Rightarrow> byte list \<Rightarrow> nat \<Rightarrow> nat list" where
  "kept_cuts g p n = take (KFIFOLEN div 4) (cut_points g p n)"

definition payload_chunks :: "hash_params \<Rightarrow> byte list \<Rightarrow> nat \<Rightarrow> (nat \<times> nat) list" where
  "payload_chunks g p n = chunks_from 0 (kept_cuts g p n) n"

lemma kept_cuts_less: "c \<in> set (kept_cuts g p n) \<Longrightarrow> c < n"
  using cut_points_range by (auto simp: kept_cuts_def dest!: in_set_takeD)

lemma kept_cuts_sorted: "sorted_wrt (\<lambda>x y. x + step < y) (kept_cuts g p n)"
  unfolding kept_cuts_def by (intro sorted_wrt_take cut_points_spaced)

lemma chunks_from_bound: "\<forall>c \<in> set cs. c < n \<Longrightarrow> (i, j) \<in> set (chunks_from st cs n) \<Longrightarrow> j < n"
  by (induction cs arbitrary: st) (auto split: if_splits)

lemma partition_run_chunks:
  assumes law: "kfifo_law q" and ok: "hp_ok g" and len: "hp_chunk_num g < n" "n \<le> length p"
  shows "partition_run q g bh p (int n) s = run_chunks bh (payload_chunks g p n) s"
proof -
  from law obtain f0 where al: "kf_alloc q = Some f0"
    and laws: "\<And>xs. kf_len q (fold (kf_put q) xs f0) = 4 * min (KFIFOLEN div 4) (length xs)
      \<and> drain q (min (KFIFOLEN div 4) (length xs)) (fold (kf_put q) xs f0) = take (min (KFIFOLEN div 4) (length xs)) xs"
    by (auto simp: kfifo_law_def Let_def split: option.splits)
  let ?cs = "kept_cuts g p n" and ?f = "fold (kf_put q) (cut_points g p n) f0"
  have n: "kf_len q ?f div 4 = length ?cs" and d: "drain q (length ?cs) ?f = ?cs"
    using laws [of "cut_points g p n"]
    by (cases "KFIFOLEN div 4 \<le> length (cut_points g p n)"; simp add: kept_cuts_def min_absorb1 min_absorb2)+
  have calc: "calculate_partition g p n (kf_put q) f0 = Some ?f"
    by (rule calculate_partition_cuts [OF ok]) (use len in simp_all)
  have bound: "last ?cs < n" if "?cs \<noteq> []"
    using kept_cuts_less last_in_set [OF that] by blast
  show ?thesis
    unfolding partition_run_def payload_chunks_def
    using len al calc n fifo_loop_pieces [OF d, of bh 0 0 s] bound
    by (subst chunks_from_pieces) (auto simp: run_chunks_append Let_def split: option.split)
qed

text \<open>The chunks tile the payload, also when the fifo was too small for all cut points.\<close>

lemma payload_chunks_cover:
  assumes "n \<le> length p"
  shows "concat (map (\<lambda>(i, j). segment p i j) (payload_chunks g p n)) = take n p"
proof -
  let ?cs = "kept_cuts g p n"
  have sorted: "sorted_wrt (<) ?cs"
    by (rule sorted_wrt_mono_rel [OF _ kept_cuts_sorted]) auto
  have "segment (take n p) i j = segment p i j" if "(i, j) \<in> set (payload_chunks g p n)" for i j
    using chunks_from_bound [of ?cs n i j 0] kept_cuts_less that
    by (auto simp: payload_chunks_def segment_def drop_take min_def)
  then have "map (\<lambda>(i, j). segment p i j) (payload_chunks g p n)
      = map (\<lambda>(i, j). segment (take n p) i j) (payload_chunks g p n)"
    by (intro map_cong) auto
  moreover have "concat (map (\<lambda>(i, j). segment (take n p) i j) (chunks_from 0 ?cs (length (take n p)))) = drop 0 (take n p)"
    using sorted kept_cuts_less assms by (intro chunks_from_cover) auto
  moreover have "length (take n p) = n" using assms by simp
  ultimately show ?thesis by (simp only: payload_chunks_def drop_0)
qed

lemma payload_chunks_lengths:
  assumes "hp_chunk_num g - 1 = step" "(i, j) \<in> set (payload_chunks g p n)"
  shows "i \<le> j \<and> j < n \<and> (CHUNKSTEP \<le> j + 1 - i \<or> j = n - 1)"
proof -
  have "\<forall>c \<in> set (kept_cuts g p n). 0 + step \<le> c"
    using cut_points_range assms(1) by (fastforce simp: kept_cuts_def dest: in_set_takeD)
  then have "i \<le> j \<and> (step < j + 1 - i \<or> j = n - 1)"
    using chunks_from_lengths [OF kept_cuts_sorted] assms(2) unfolding payload_chunks_def by blast
  moreover have "j < n"
    using chunks_from_bound [of "kept_cuts g p n" n i j 0] kept_cuts_less assms(2) by (auto simp: payload_chunks_def)
  ultimately show ?thesis by (auto simp: step_def CHUNKSTEP_def)
qed

text \<open>A bounded list satisfies the law of the fifo.\<close>

definition list_fifo :: "nat list kfifo_ops" where
  "list_fifo = \<lparr>kf_alloc = Some [], kf_put = (\<lambda>i f. if length f < KFIFOLEN div 4 then f @ [i] else f),
     kf_len = (\<lambda>f. 4 * length f), kf_get = (\<lambda>f. (hd f, tl f))\<rparr>"

lemma drain_list_fifo: "drain list_fifo (length f) f = f"
  by (induction f) (simp_all add: list_fifo_def take_Cons')

lemma list_fifo_law: "kfifo_law list_fifo"
proof -
  have "fold (kf_put list_fifo) xs f = take (KFIFOLEN div 4) (f @ xs)" if "length f \<le> KFIFOLEN div 4" for f xs
    using that
  proof (induction xs arbitrary: f)
    case Nil
    then show ?case by simp
  next
    case (Cons x xs)
    then show ?case by (cases "length f < KFIFOLEN div 4") (simp_all add: list_fifo_def take_Cons')
  qed
  from this [of "[]"] have f: "fold (kf_put list_fifo) xs [] = take (KFIFOLEN div 4) xs" for xs by simp
  have "drain list_fifo (min (KFIFOLEN div 4) (length xs)) (take (KFIFOLEN div 4) xs) = take (KFIFOLEN div 4) xs" for xs
    using drain_list_fifo [of "take (KFIFOLEN div 4) xs"] by (simp add: min.commute)
  then show ?thesis
    using f by (simp add: kfifo_law_def Let_def) (simp add: list_fifo_def min_def)
qed

end
