(* ===== verification/Packet.thy ===== *)
theory Packet
  imports Prelude
begin

text \<open>
  The packet headers as both modules read them: a packet is the list of bytes of a linear
  \<open>sk_buff\<close> that starts with the IPv4 header (\<open>struct iphdr\<close>) and goes on with the TCP
  header (\<open>struct tcphdr\<close>), \<open>ihl << 2\<close> bytes later.
\<close>

text \<open>The length of a digest in the payload (\<open>chunk.h\<close>).\<close>

definition SHALEN :: nat where "SHALEN = 20"

text \<open>The header fields that the code reads from the linear packet; \<open>None\<close> is a read outside it.\<close>

definition byte_at :: "byte list \<Rightarrow> nat \<Rightarrow> nat option" where
  "byte_at p i = (if i < length p then Some (unat (p ! i)) else None)"

definition ip_ihl :: "byte list \<Rightarrow> nat option" where
  "ip_ihl p = map_option (\<lambda>b. (b mod 16) * 4) (byte_at p 0)"

definition ip_tot_len :: "byte list \<Rightarrow> nat option" where
  "ip_tot_len p = (case (byte_at p 2, byte_at p 3) of (Some a, Some b) \<Rightarrow> Some (a * 256 + b) | _ \<Rightarrow> None)"

definition tcp_doff :: "byte list \<Rightarrow> nat \<Rightarrow> nat option" where
  "tcp_doff p ihl = map_option (\<lambda>b. (b div 16) * 4) (byte_at p (ihl + 12))"

text \<open>Where the payload starts and its length (an \<open>int\<close>, it may be negative).\<close>

definition skb_payload :: "byte list \<Rightarrow> (nat \<times> int) option" where
  "skb_payload p =
     (case ip_ihl p of None \<Rightarrow> None
      | Some ihl \<Rightarrow> (case (tcp_doff p ihl, ip_tot_len p) of
          (Some doff, Some tot) \<Rightarrow> Some (ihl + doff, int tot - int ihl - int doff)
        | _ \<Rightarrow> None))"

end
