(* ===== verification/Nf_In.thy ===== *)
theory Nf_In
  imports Cache_System Partition Packet List_Sort
begin

unbundle bit_operations_syntax

text \<open>
  The packet path of the receiving module: \<open>kernel_hash/nf_in.c\<close>. \<open>jpf_ip_rcv\<close> queues a
  copy of every TCP packet, the work item \<open>handle_skb\<close> cuts the payload of each into chunks,
  looks every chunk up or inserts it (\<open>get_partition\<close>, \<open>build_hash\<close>, \<open>hand_hash\<close>), reads
  the chunks that are only on disk back (\<open>read_data\<close>) and hands the packets to the stack
  (\<open>resend_skb\<close>).

  Arguments for the outside: the fifo (\<open>kfifo_ops\<close>), SHA-1 (\<open>sha\<close>, with the return code of
  \<open>tcp_v4_sha1_hash_data\<close>), and per chunk the results of the allocators (\<open>chunk_env\<close>).
\<close>

section \<open>Chunks meet the table\<close>

record chunk_env =
  ce_dst :: bool
  ce_gen :: int
  ce_item :: "nat option"
  ce_block :: bool
  ce_read :: "nat option"

text \<open>
  The table, the read lists of the batch (\<open>head\<close>: per CPU, pairs of a \<open>read_skb\<close> and its
  item) and the number of \<open>sha_data\<close> objects in use.
\<close>

record pstate =
  tab :: wcache
  heads :: "nat \<Rightarrow> (nat \<times> nat) list"
  sha_live :: nat

definition count_sum :: "nat \<Rightarrow> wcache \<Rightarrow> wcache" where
  "count_sum len s = s\<lparr>stats := (stats s)\<lparr>sum_num := sum_num (stats s) + of_nat len\<rparr>\<rparr>"

text \<open>\<open>len - (SHALEN + 2)\<close> is computed in \<open>size_t\<close>.\<close>

definition count_save :: "nat \<Rightarrow> wcache \<Rightarrow> wcache" where
  "count_save len s =
     s\<lparr>stats := (stats s)\<lparr>save_num := save_num (stats s) + (of_nat len - of_nat (SHALEN + 2))\<rparr>\<rparr>"

definition hand_hash :: "u64 \<Rightarrow> nat \<Rightarrow> chunk_env \<Rightarrow> byte list \<Rightarrow> nat \<Rightarrow> byte list \<Rightarrow> pstate \<Rightarrow> pstate option" where
  "hand_hash mx ncpu e src len dst s =
     (case get_hash_item dst (tab s) of
        (None, t) \<Rightarrow>
          map_option (\<lambda>(_, t'). s\<lparr>tab := count_sum len t'\<rparr>)
            (add_hash_info mx (ce_item e) (ce_block e) dst src len t)
      | (Some a, t) \<Rightarrow>
          (let t = count_save len (count_sum len t) in
           case item_at t a of None \<Rightarrow> None
           | Some item \<Rightarrow>
             if flag_cache item \<noteq> 4 then map_option (\<lambda>t'. s\<lparr>tab := t'\<rparr>) (drop_item a t)
             else (case ce_read e of None \<Rightarrow> None
               | Some r \<Rightarrow>
                 if cpuid item < 0 \<or> int ncpu \<le> cpuid item then None
                 else Some (s\<lparr>tab := t, heads := (heads s)(nat (cpuid item) := (r, a) # heads s (nat (cpuid item)))\<rparr>))))"

text \<open>\<open>build_hash(src, start, end, length, head)\<close>; \<open>sha_live\<close> counts \<open>dst\<close>.\<close>

definition build_hash ::
  "u64 \<Rightarrow> nat \<Rightarrow> (byte list \<Rightarrow> byte list) \<Rightarrow> chunk_env \<Rightarrow> byte list \<Rightarrow> nat \<Rightarrow> nat \<Rightarrow> nat \<Rightarrow> pstate \<Rightarrow> pstate option" where
  "build_hash mx ncpu sha e src st en len s =
     (if len \<le> SHALEN + 2 then Some s
      else if \<not> ce_dst e then None
      else let s1 = s\<lparr>sha_live := sha_live s + 1\<rparr> in
        if ce_gen e \<noteq> 0 then Some s1
        else if length src \<le> en then None
        else map_option (\<lambda>s2. s2\<lparr>sha_live := sha_live s2 - 1\<rparr>)
               (hand_hash mx ncpu e (drop st src) len (sha (segment src st en)) s1))"

definition get_partition ::
  "u64 \<Rightarrow> nat \<Rightarrow> (byte list \<Rightarrow> byte list) \<Rightarrow> 'f kfifo_ops \<Rightarrow> hash_params \<Rightarrow> (nat \<Rightarrow> chunk_env) \<Rightarrow> byte list \<Rightarrow> int \<Rightarrow>
   pstate \<Rightarrow> pstate option" where
  "get_partition mx ncpu sha q g env data len s =
     partition_run q g (\<lambda>st en. build_hash mx ncpu sha (env st) data st en (en - st + 1)) data len s"

section \<open>Reading back\<close>

text \<open>
  \<open>file_poisit_compare\<close>: the nodes are \<open>read_skb\<close> entries, but the code reads the field
  \<open>start\<close> of a \<open>hashinfo_item\<close> at their addresses; \<open>start_at\<close> is the word found there. The
  difference of two \<open>unsigned long\<close> is cut to \<open>int\<close>.
\<close>

definition file_poisit_compare :: "(nat \<Rightarrow> u64) \<Rightarrow> nat \<times> nat \<Rightarrow> nat \<times> nat \<Rightarrow> int" where
  "file_poisit_compare start_at a b = sint (ucast (start_at (fst a) - start_at (fst b)) :: u32)"

fun read_list :: "(nat \<Rightarrow> bool) \<Rightarrow> (nat \<Rightarrow> int) \<Rightarrow> nat \<Rightarrow> (nat \<times> nat) list \<Rightarrow> wcache \<Rightarrow> wcache option" where
  "read_list ok got cpu [] s = Some s"
| "read_list ok got cpu ((r, a) # xs) s =
     (case read_item (ok r) (got r) cpu a s of None \<Rightarrow> None | Some s' \<Rightarrow> read_list ok got cpu xs s')"

text \<open>\<open>cpus\<close> are the online CPUs in order; \<open>ok\<close> and \<open>got\<close> belong to the list entries.\<close>

fun read_cpus :: "(nat \<Rightarrow> bool) \<Rightarrow> (nat \<Rightarrow> int) \<Rightarrow> (nat \<Rightarrow> (nat \<times> nat) list) \<Rightarrow> nat list \<Rightarrow> wcache \<Rightarrow> wcache option" where
  "read_cpus ok got hs [] s = Some s"
| "read_cpus ok got hs (c # cs) s =
     (case read_list ok got c (hs c) s of None \<Rightarrow> None | Some s' \<Rightarrow> read_cpus ok got hs cs s')"

definition read_data ::
  "(nat \<Rightarrow> bool) \<Rightarrow> (nat \<Rightarrow> int) \<Rightarrow> (nat \<Rightarrow> u64) \<Rightarrow> nat list \<Rightarrow> pstate \<Rightarrow> pstate option" where
  "read_data ok got start_at cpus s =
     map_option (\<lambda>t. s\<lparr>tab := t, heads := (\<lambda>c. if c \<in> set cpus then [] else heads s c)\<rparr>)
       (read_cpus ok got (\<lambda>c. sorted_nodes (file_poisit_compare start_at) (heads s c)) cpus (tab s))"

section \<open>Packets\<close>

text \<open>One packet of the batch; a failed \<open>skb_copy\<close> left a null pointer.\<close>

definition handle_one ::
  "u64 \<Rightarrow> nat \<Rightarrow> (byte list \<Rightarrow> byte list) \<Rightarrow> 'f kfifo_ops \<Rightarrow> hash_params \<Rightarrow> (nat \<Rightarrow> chunk_env) \<Rightarrow> byte list option \<Rightarrow>
   pstate \<Rightarrow> pstate option" where
  "handle_one mx ncpu sha q g env skb s =
     (case skb of None \<Rightarrow> None
      | Some p \<Rightarrow> (case skb_payload p of None \<Rightarrow> None
        | Some (off, data_len) \<Rightarrow> get_partition mx ncpu sha q g env (drop off p) data_len s))"

fun handle_batch ::
  "u64 \<Rightarrow> nat \<Rightarrow> (byte list \<Rightarrow> byte list) \<Rightarrow> 'f kfifo_ops \<Rightarrow> hash_params \<Rightarrow> (nat \<Rightarrow> nat \<Rightarrow> chunk_env) \<Rightarrow> nat \<Rightarrow>
   byte list option list \<Rightarrow> pstate \<Rightarrow> pstate option" where
  "handle_batch mx ncpu sha q g env i [] s = Some s"
| "handle_batch mx ncpu sha q g env i (p # ps) s =
     (case handle_one mx ncpu sha q g (env i) p s of None \<Rightarrow> None
      | Some s' \<Rightarrow> handle_batch mx ncpu sha q g env (Suc i) ps s')"

text \<open>\<open>resend_skb\<close> gives the packets to \<open>ip_rcv_finish\<close> in list order; the tasklet is not checked.\<close>

definition resend_skb :: "bool \<Rightarrow> 'p list \<Rightarrow> 'p list option" where
  "resend_skb tasklet_ok xs = (if xs \<noteq> [] \<and> \<not> tasklet_ok then None else Some xs)"

record nfstate =
  ntab :: wcache
  nsha_live :: nat
  skb_list :: "nat \<Rightarrow> byte list option list"
  work_pending :: "nat \<Rightarrow> bool"
  resent :: "byte list option list"

definition threshold :: nat where "threshold = 10000"

record 'f batch_env =
  be_mx :: u64
  be_sha :: "byte list \<Rightarrow> byte list"
  be_fifo :: "'f kfifo_ops"
  be_chunks :: "nat \<Rightarrow> nat \<Rightarrow> chunk_env"
  be_list :: bool
  be_ok :: "nat \<Rightarrow> bool"
  be_got :: "nat \<Rightarrow> int"
  be_start_at :: "nat \<Rightarrow> u64"
  be_tasklet :: bool

text \<open>\<open>handle_skb\<close> on \<open>cpu\<close>, with \<open>cpus\<close> online.\<close>

definition handle_skb :: "hash_params \<Rightarrow> nat list \<Rightarrow> 'f batch_env \<Rightarrow> nat \<Rightarrow> nfstate \<Rightarrow> nfstate option" where
  "handle_skb g cpus e cpu s =
     (let hand_list = take threshold (skb_list s cpu);
          s1 = s\<lparr>skb_list := (skb_list s)(cpu := drop threshold (skb_list s cpu))\<rparr>
      in if hand_list = [] then Some s1
         else if \<not> be_list e then None
         else case handle_batch (be_mx e) (length cpus) (be_sha e) (be_fifo e) g (be_chunks e) 0 hand_list
                     \<lparr>tab = ntab s, heads = (\<lambda>_. []), sha_live = nsha_live s\<rparr> of None \<Rightarrow> None
         | Some b \<Rightarrow> (case read_data (be_ok e) (be_got e) (be_start_at e) cpus b of None \<Rightarrow> None
           | Some b' \<Rightarrow> (case resend_skb (be_tasklet e) hand_list of None \<Rightarrow> None
             | Some ps \<Rightarrow>
               Some (s1\<lparr>ntab := tab b', nsha_live := sha_live b', resent := resent s @ ps\<rparr>))))"

text \<open>\<open>jpf_ip_rcv\<close>: every TCP packet that neither comes from nor goes to 139.209.90.213 is queued.\<close>

definition FREE_PAGES_MIN :: nat where "FREE_PAGES_MIN = 400 * 1024 * 1024 div 4 div 1024"

definition excluded_host :: "byte list" where "excluded_host = [139, 209, 90, 213]"

definition jpf_ip_rcv :: "nat \<Rightarrow> bool \<Rightarrow> bool \<Rightarrow> nat \<Rightarrow> byte list \<Rightarrow> nfstate \<Rightarrow> nfstate option" where
  "jpf_ip_rcv reserve_mem avail copy_ok cpu p s =
     (if reserve_mem < FREE_PAGES_MIN then Some s
      else case byte_at p 9 of None \<Rightarrow> None
      | Some protocol \<Rightarrow>
        if protocol \<noteq> 6 then Some s
        else case ip_ihl p of None \<Rightarrow> None
        | Some ihl \<Rightarrow>
          if length p < ihl + 4 \<or> length p < 20 then None
          else if segment p 16 19 \<noteq> excluded_host \<and> segment p 12 15 \<noteq> excluded_host then
            if \<not> avail then None
            else Some (s\<lparr>skb_list := (skb_list s)(cpu := skb_list s cpu @ [if copy_ok then Some p else None]),
                       ntab := (ntab s)\<lparr>stats := (stats (ntab s))\<lparr>skb_num := skb_num (stats (ntab s)) + 1\<rparr>\<rparr>,
                       work_pending := (work_pending s)(cpu := True)\<rparr>)
          else Some s)"

text \<open>
  \<open>clear_remainder_skb\<close>: until every queue is empty, queue work on the CPUs that have packets
  and wait for it (\<open>flush_workqueue\<close>). \<open>envs\<close> gives the outside of each run.
\<close>

fun clear_round :: "hash_params \<Rightarrow> nat list \<Rightarrow> (nat \<Rightarrow> 'f batch_env) \<Rightarrow> nat list \<Rightarrow> nfstate \<Rightarrow> nfstate option" where
  "clear_round g cpus envs [] s = Some s"
| "clear_round g cpus envs (c # cs) s =
     (if skb_list s c = [] then clear_round g cpus envs cs s
      else case handle_skb g cpus (envs c) c s of None \<Rightarrow> None | Some s' \<Rightarrow> clear_round g cpus envs cs s')"

definition queued :: "nat list \<Rightarrow> nfstate \<Rightarrow> nat" where
  "queued cpus s = sum_list (map (\<lambda>c. length (skb_list s c)) cpus)"

lemma handle_skb_queue:
  "handle_skb g cpus e c s = Some s' \<Longrightarrow> skb_list s' = (skb_list s)(c := drop threshold (skb_list s c))"
  by (auto simp: handle_skb_def Let_def split: if_splits option.splits)

lemma clear_round_le: "clear_round g cpus envs cs s = Some s' \<Longrightarrow> length (skb_list s' c) \<le> length (skb_list s c)"
proof (induction cs arbitrary: s)
  case Nil
  then show ?case by simp
next
  case (Cons d cs)
  show ?case
  proof (cases "skb_list s d = []")
    case True
    with Cons show ?thesis by simp
  next
    case False
    with Cons.prems obtain s1 where h: "handle_skb g cpus (envs d) d s = Some s1"
      and "clear_round g cpus envs cs s1 = Some s'" by (auto split: option.splits)
    with Cons.IH have "length (skb_list s' c) \<le> length (skb_list s1 c)" by blast
    then show ?thesis using handle_skb_queue [OF h] by (cases "c = d") auto
  qed
qed

lemma clear_round_less:
  assumes "clear_round g cpus envs cs s = Some s'" "c \<in> set cs" "skb_list s c \<noteq> []"
  shows "length (skb_list s' c) < length (skb_list s c)"
  using assms
proof (induction cs arbitrary: s)
  case Nil
  then show ?case by simp
next
  case (Cons d cs)
  show ?case
  proof (cases "skb_list s d = []")
    case True
    with Cons show ?thesis by (cases "c = d") auto
  next
    case False
    with Cons.prems obtain s1 where h: "handle_skb g cpus (envs d) d s = Some s1"
      and r: "clear_round g cpus envs cs s1 = Some s'" by (auto split: option.splits)
    show ?thesis
    proof (cases "c = d")
      case True
      have "length (skb_list s1 c) < length (skb_list s c)"
        using handle_skb_queue [OF h] True False by (simp add: threshold_def)
      then show ?thesis using clear_round_le [OF r, of c] by simp
    next
      case ne: False
      then have "skb_list s1 c = skb_list s c" using handle_skb_queue [OF h] by simp
      then show ?thesis using Cons.IH [OF r] Cons.prems ne by simp
    qed
  qed
qed

lemma clear_round_queued:
  assumes "clear_round g cpus envs cpus s = Some s'" "\<exists>c \<in> set cpus. skb_list s c \<noteq> []"
  shows "queued cpus s' < queued cpus s"
proof -
  have "sum_list (map (\<lambda>c. length (skb_list s' c)) cs) \<le> sum_list (map (\<lambda>c. length (skb_list s c)) cs)" for cs
    using clear_round_le [OF assms(1)] by (intro sum_list_mono) simp
  moreover obtain c xs ys where "cpus = xs @ c # ys" "skb_list s c \<noteq> []"
    using assms(2) by (metis in_set_conv_decomp)
  ultimately show ?thesis
    using clear_round_less [OF assms(1), of c] by (simp add: queued_def add_le_less_mono add_less_le_mono)
qed

function clear_remainder_skb ::
  "hash_params \<Rightarrow> nat list \<Rightarrow> (nat \<Rightarrow> nat \<Rightarrow> 'f batch_env) \<Rightarrow> nat \<Rightarrow> nfstate \<Rightarrow> nfstate option" where
  "clear_remainder_skb g cpus envs k s =
     (if \<forall>c \<in> set cpus. skb_list s c = [] then Some s
      else case clear_round g cpus (envs k) cpus s of None \<Rightarrow> None
      | Some s' \<Rightarrow> clear_remainder_skb g cpus envs (Suc k) s')"
  by pat_completeness auto
termination
  by (relation "measure (\<lambda>(g, cpus, envs, k, s). queued cpus s)") (auto simp: clear_round_queued)

declare clear_remainder_skb.simps [simp del]

section \<open>Accounting\<close>

lemma alloc_sum: "alloc_data_memory ok cp n st = Some (cp', st') \<Longrightarrow> sum_num st' = sum_num st"
  by (auto simp: alloc_data_memory_def split: if_splits)

lemma add_hash_info_sum:
  "add_hash_info mx mem ok info val n s = Some (r, s') \<Longrightarrow> sum_num (stats s') = sum_num (stats s)"
  by (auto simp: add_hash_info_def hash_new_item_def hash_link_def set_item_def Let_def dest: alloc_sum
      split: if_splits option.splits prod.splits)

lemma get_hash_item_sum: "get_hash_item info s = (r, s') \<Longrightarrow> sum_num (stats s') = sum_num (stats s)"
  by (auto simp: get_hash_item_def devote_def set_item_def Let_def split: option.splits if_splits)

lemma hand_hash_sum:
  assumes "hand_hash mx ncpu e src len dst s = Some s'"
  shows "sum_num (stats (tab s')) = sum_num (stats (tab s)) + of_nat len \<and> sha_live s' = sha_live s"
proof -
  obtain r t where g: "get_hash_item dst (tab s) = (r, t)" by force
  note sum = get_hash_item_sum [OF g]
  show ?thesis
  proof (cases r)
    case None
    with assms g obtain c t' where "add_hash_info mx (ce_item e) (ce_block e) dst src len t = Some (c, t')"
      "s' = s\<lparr>tab := count_sum len t'\<rparr>" by (auto simp: hand_hash_def)
    then show ?thesis using add_hash_info_sum sum by (simp add: count_sum_def)
  next
    case (Some a)
    with assms g sum show ?thesis
      by (auto simp: hand_hash_def Let_def drop_item_def set_item_def count_sum_def count_save_def
          split: option.splits if_splits)
  qed
qed

text \<open>Chunks of at most 22 bytes are passed over; the others count with their full length.\<close>

definition counted :: "nat \<times> nat \<Rightarrow> nat" where
  "counted c = (let len = snd c - fst c + 1 in if len \<le> SHALEN + 2 then 0 else len)"

lemma build_hash_sum:
  assumes "build_hash mx ncpu sha e src st en (en - st + 1) s = Some s'" "ce_gen e = 0"
  shows "sum_num (stats (tab s')) = sum_num (stats (tab s)) + of_nat (counted (st, en)) \<and> sha_live s' = sha_live s"
  using assms
  by (auto simp: build_hash_def counted_def Let_def dest!: hand_hash_sum split: if_splits)

lemma run_chunks_sum:
  assumes "run_chunks (\<lambda>st en. build_hash mx ncpu sha (env st) src st en (en - st + 1)) cs s = Some s'"
    and "\<forall>st. ce_gen (env st) = 0"
  shows "sum_num (stats (tab s')) = sum_num (stats (tab s)) + of_nat (sum_list (map counted cs)) \<and> sha_live s' = sha_live s"
  using assms(1)
proof (induction cs arbitrary: s)
  case Nil
  then show ?case by simp
next
  case (Cons c cs)
  then obtain s1 where 1: "build_hash mx ncpu sha (env (fst c)) src (fst c) (snd c) (snd c - fst c + 1) s = Some s1"
    and 2: "run_chunks (\<lambda>st en. build_hash mx ncpu sha (env st) src st en (en - st + 1)) cs s1 = Some s'"
    by (auto split: option.splits)
  from build_hash_sum [OF 1] assms(2) Cons.IH [OF 2] show ?case by simp
qed

section \<open>The order of the reads\<close>

text \<open>Positions below \<open>2^31\<close> are compared without wrap-around.\<close>

lemma compare_start:
  assumes "start_at (fst a) < 2 ^ 31" "start_at (fst b) < 2 ^ 31"
  shows "file_poisit_compare start_at a b = uint (start_at (fst a)) - uint (start_at (fst b))"
proof -
  let ?d = "uint (start_at (fst a)) - uint (start_at (fst b))"
  have bounds: "uint (start_at (fst a)) < 2 ^ 31" "uint (start_at (fst b)) < 2 ^ 31"
    using assms by (simp_all add: word_less_def)
  have "uint (ucast (start_at (fst a) - start_at (fst b)) :: u32) = uint (word_of_int ?d :: u32)"
    by (simp add: unsigned_ucast_eq uint_word_ariths uint_word_of_int take_bit_eq_mod mod_mod_cancel mod_diff_eq)
  then have "(ucast (start_at (fst a) - start_at (fst b)) :: u32) = word_of_int ?d"
    by (simp only: word_uint_eq_iff)
  moreover have "- (2 ^ 31) \<le> ?d" "?d < 2 ^ 31"
    using bounds uint_ge_0 [of "start_at (fst a)"] uint_ge_0 [of "start_at (fst b)"] by linarith+
  then have "sint (word_of_int ?d :: u32) = ?d"
    by (simp only: signed_of_int) (simp add: signed_take_bit_int_eq_self)
  ultimately show ?thesis by (simp only: file_poisit_compare_def)
qed

interpretation fpc: comparator "file_poisit_compare start_at" "{n. start_at (fst n) < 2 ^ 31}" for start_at
  by unfold_locales (auto simp: compare_start)

section \<open>The packet path runs inside the verified system\<close>

text \<open>Only the bytes that are inserted matter.\<close>

lemma hash_new_item_take:
  "n \<le> length val \<Longrightarrow> hash_new_item mx mem ok info (take n val) n s = hash_new_item mx mem ok info val n s"
  by (simp add: hash_new_item_def Let_def min_absorb2 split: option.split)

lemma reach_account:
  "reach sha x \<Longrightarrow> st = (stats (cache x))\<lparr>sum_num := n1, save_num := n2, skb_num := n3\<rparr> \<Longrightarrow>
   reach sha (x\<lparr>cache := (cache x)\<lparr>stats := st\<rparr>\<rparr>)"
  by (blast intro: reach.more wstep.account)

lemma reach_count:
  assumes "reach sha x"
  shows "reach sha (x\<lparr>cache := count_sum n (cache x)\<rparr>)" "reach sha (x\<lparr>cache := count_save n (cache x)\<rparr>)"
proof -
  have "(stats (cache x))\<lparr>sum_num := v\<rparr>
      = (stats (cache x))\<lparr>sum_num := v, save_num := save_num (stats (cache x)), skb_num := skb_num (stats (cache x))\<rparr>" for v
    by simp
  from reach_account [OF assms this] show "reach sha (x\<lparr>cache := count_sum n (cache x)\<rparr>)"
    by (simp add: count_sum_def)
  have "(stats (cache x))\<lparr>save_num := v\<rparr>
      = (stats (cache x))\<lparr>sum_num := sum_num (stats (cache x)), save_num := v, skb_num := skb_num (stats (cache x))\<rparr>" for v
    by simp
  from reach_account [OF assms this] show "reach sha (x\<lparr>cache := count_save n (cache x)\<rparr>)"
    by (simp add: count_save_def)
qed

lemma hand_hash_miss_reach:
  assumes x: "reach sha x" "cache x = tab s" and len: "len \<le> length src" "dst = sha (take len src)"
    and fresh: "\<And>a. ce_item e = Some a \<Longrightarrow> item_at (tab s) a = None"
    and r: "hand_hash mx ncpu e src len dst s = Some s'" and g: "get_hash_item dst (tab s) = (None, t)"
  shows "\<exists>x'. reach sha x' \<and> cache x' = tab s' \<and> pending x' = pending x \<and> heads s' = heads s"
proof -
  have t: "t = tab s" using g by (auto simp: get_hash_item_def Let_def split: option.splits)
  from r g obtain c t' where add: "add_hash_info mx (ce_item e) (ce_block e) dst src len (tab s) = Some (c, t')"
    and s': "s' = s\<lparr>tab := count_sum len t'\<rparr>" by (auto simp: hand_hash_def t)
  from add obtain o' where "hash_new_item mx (ce_item e) (ce_block e) dst src len (tab s) = Some (o', t')"
    by (auto simp: add_hash_info_def split: option.splits)
  then have h: "hash_new_item mx (ce_item e) (ce_block e) (sha (take len src)) (take len src) (length (take len src)) (cache x)
      = Some (o', t')"
    using len x(2) by (simp add: hash_new_item_take min_absorb2)
  have "wstep sha x (x\<lparr>cache := t'\<rparr>)" using fresh x(2) by (intro wstep.insert [where sha = sha, OF h]) simp
  then have "reach sha (x\<lparr>cache := t'\<rparr>)" using x(1) by (blast intro: reach.more)
  from reach_count(1) [OF this, of len] show ?thesis by (intro exI, rule conjI) (auto simp: s')
qed

lemma hand_hash_hit_reach:
  assumes x: "reach sha x" "cache x = tab s" and few: "size (pending x) + 1 < 2 ^ 31"
    and r: "hand_hash mx ncpu e src len dst s = Some s'" and g: "get_hash_item dst (tab s) = (Some a, t)"
  shows "\<exists>x'. reach sha x' \<and> cache x' = tab s' \<and>
    (pending x' = pending x \<and> heads s' = heads s
     \<or> (\<exists>c r cp. pending x' = add_mset a (pending x) \<and> heads s' = (heads s)(c := (r, a) # heads s c)
          \<and> item_at (tab s') a = Some cp \<and> flag_cache cp = 4 \<and> cpuid cp = int c))"
proof -
  let ?x1 = "x\<lparr>cache := t, pending := add_mset a (pending x)\<rparr>" and ?t = "count_save len (count_sum len t)"
  have "reach sha ?x1" using g x few by (intro reach.more [OF x(1)] wstep.get [of dst]) simp_all
  from reach_count(2) [OF reach_count(1) [OF this, of len], of len]
  have x2: "reach sha (?x1\<lparr>cache := ?t\<rparr>)" by simp
  from r g obtain cp where it: "item_at ?t a = Some cp"
    by (auto simp: hand_hash_def Let_def split: option.splits)
  show ?thesis
  proof (cases "flag_cache cp = 4")
    case False
    with r g it obtain t' where d: "drop_item a ?t = Some t'" and s': "s' = s\<lparr>tab := t'\<rparr>"
      by (auto simp: hand_hash_def Let_def)
    have "wstep sha (?x1\<lparr>cache := ?t\<rparr>) (?x1\<lparr>cache := ?t\<rparr>\<lparr>cache := t', pending := pending x\<rparr>)"
      using wstep.drop [of a "?x1\<lparr>cache := ?t\<rparr>" cp t' sha] it False d by simp
    then have "reach sha (x\<lparr>cache := t', pending := pending x\<rparr>)" using x2 by (auto intro: reach.more)
    then show ?thesis by (intro exI, rule conjI) (auto simp: s')
  next
    case True
    with r g it obtain q where "ce_read e = Some q" and c: "0 \<le> cpuid cp"
      and s': "s' = s\<lparr>tab := ?t, heads := (heads s)(nat (cpuid cp) := (q, a) # heads s (nat (cpuid cp)))\<rparr>"
      by (auto simp: hand_hash_def Let_def split: option.splits if_splits)
    have "pending ?x1 = add_mset a (pending x) \<and> heads s' = (heads s)(nat (cpuid cp) := (q, a) # heads s (nat (cpuid cp)))
        \<and> item_at (tab s') a = Some cp \<and> flag_cache cp = 4 \<and> cpuid cp = int (nat (cpuid cp))"
      using it True c by (simp add: s')
    then show ?thesis using x2 by (intro exI [of _ "?x1\<lparr>cache := ?t\<rparr>"]) (auto simp: s')
  qed
qed


section \<open>Draining the queues\<close>

definition in_flight :: "nat list \<Rightarrow> nfstate \<Rightarrow> byte list option multiset" where
  "in_flight cpus s = mset (resent s) + sum_list (map (\<lambda>c. mset (skb_list s c)) cpus)"

lemma handle_skb_fifo:
  assumes "handle_skb g cpus e c s = Some s'"
  shows "resent s' @ skb_list s' c = resent s @ skb_list s c" "c' \<noteq> c \<Longrightarrow> skb_list s' c' = skb_list s c'"
  using assms by (auto simp: handle_skb_def resend_skb_def Let_def split: if_splits option.splits)

lemma handle_skb_in_flight:
  assumes h: "handle_skb g cpus e c s = Some s'" and "distinct cs" "c \<in> set cs"
  shows "in_flight cs s' = in_flight cs s"
proof -
  obtain xs ys where cs: "cs = xs @ c # ys" using assms(3) by (metis in_set_conv_decomp)
  have "sum_list (map (\<lambda>d. mset (skb_list s' d)) zs) = sum_list (map (\<lambda>d. mset (skb_list s d)) zs)"
    if "c \<notin> set zs" for zs
    by (rule arg_cong [where f = sum_list], rule map_cong [OF refl], subst handle_skb_fifo(2) [OF h]) (use that in auto)
  moreover have "mset (resent s') + mset (skb_list s' c) = mset (resent s) + mset (skb_list s c)"
    using handle_skb_fifo(1) [OF h] by (metis mset_append)
  moreover have "in_flight cs z = (mset (resent z) + mset (skb_list z c))
      + (sum_list (map (\<lambda>d. mset (skb_list z d)) xs) + sum_list (map (\<lambda>d. mset (skb_list z d)) ys))" for z
    by (simp add: in_flight_def cs)
  ultimately show ?thesis using assms(2) cs by simp
qed

lemma clear_round_in_flight:
  "clear_round g cpus envs cs s = Some s' \<Longrightarrow> distinct ds \<Longrightarrow> set cs \<subseteq> set ds \<Longrightarrow> in_flight ds s' = in_flight ds s"
proof (induction cs arbitrary: s)
  case Nil
  then show ?case by simp
next
  case (Cons c cs)
  then show ?case
    using handle_skb_in_flight [of g cpus "envs c" c s _ ds] by (auto split: if_splits option.splits)
qed

lemma clear_remainder_all:
  assumes "clear_remainder_skb g cpus envs k s = Some s'" "distinct cpus"
  shows "(\<forall>c \<in> set cpus. skb_list s' c = []) \<and> in_flight cpus s' = in_flight cpus s"
  using assms
proof (induction g cpus envs k s rule: clear_remainder_skb.induct)
  case (1 g cpus envs k s)
  show ?case
  proof (cases "\<forall>c \<in> set cpus. skb_list s c = []")
    case True
    with "1.prems" show ?thesis by (simp add: clear_remainder_skb.simps [of g cpus envs k s])
  next
    case False
    with "1.prems" obtain s1 where r: "clear_round g cpus (envs k) cpus s = Some s1"
      and "clear_remainder_skb g cpus envs (Suc k) s1 = Some s'"
      by (auto simp: clear_remainder_skb.simps [of g cpus envs k s] split: option.splits)
    with "1.IH" [OF False r] "1.prems"(2) clear_round_in_flight [OF r] show ?thesis by simp
  qed
qed

section \<open>Properties\<close>

text \<open>
  The chunks of a packet tile its payload. For a payload of \<open>n > 32\<close> bytes,
  \<open>get_partition\<close> hands \<open>build_hash\<close> consecutive pieces, in order, that together are the
  payload: nothing is skipped, nothing handled twice, also when the fifo cannot hold all cut
  points. Every piece but the last has at least 32 bytes.
\<close>

theorem get_partition_tiles:
  assumes "kfifo_law q" "32 < n" "n \<le> length p"
  shows "get_partition mx ncpu sha q module_params env p (int n) s
      = run_chunks (\<lambda>st en. build_hash mx ncpu sha (env st) p st en (en - st + 1)) (payload_chunks module_params p n) s
    \<and> concat (map (\<lambda>(i, j). segment p i j) (payload_chunks module_params p n)) = take n p
    \<and> (\<forall>(i, j) \<in> set (payload_chunks module_params p n). i \<le> j \<and> j < n \<and> (32 \<le> j + 1 - i \<or> j = n - 1))"
proof -
  have "hp_chunk_num module_params - 1 = step" by (simp add: step_def CHUNKSTEP_def)
  from payload_chunks_lengths [OF this]
  have "\<forall>(i, j) \<in> set (payload_chunks module_params p n). i \<le> j \<and> j < n \<and> (32 \<le> j + 1 - i \<or> j = n - 1)"
    by (fastforce simp: CHUNKSTEP_def)
  then show ?thesis
    using payload_chunks_cover assms(2,3)
    by (simp add: get_partition_def partition_run_chunks [OF assms(1) module_params_ok])
qed

theorem get_partition_tiles_witness:
  "concat (map (\<lambda>(i, j). segment (replicate 40 (7 :: byte)) i j) (payload_chunks module_params (replicate 40 (7 :: byte)) 40))
   = replicate 40 7"
  using get_partition_tiles [OF list_fifo_law, of 40 "replicate 40 7"] by simp

text \<open>
  Every payload byte is accounted for once. When \<open>get_partition\<close> completes and SHA-1 never
  fails, \<open>sum_num\<close> has grown by the lengths of the pieces longer than 22 bytes, whether they were
  found or inserted, and no SHA-1 buffer stays allocated.
\<close>

theorem get_partition_accounts:
  assumes "kfifo_law q" "32 < n" "n \<le> length p" "\<forall>st. ce_gen (env st) = 0"
    and "get_partition mx ncpu sha q module_params env p (int n) s = Some s'"
  shows "sum_num (stats (tab s')) = sum_num (stats (tab s))
      + of_nat (sum_list (map counted (payload_chunks module_params p n))) \<and> sha_live s' = sha_live s"
proof -
  have "run_chunks (\<lambda>st en. build_hash mx ncpu sha (env st) p st en (en - st + 1)) (payload_chunks module_params p n) s = Some s'"
    using assms(2,3,5) by (simp add: get_partition_def partition_run_chunks [OF assms(1) module_params_ok])
  from run_chunks_sum [OF this assms(4)] show ?thesis .
qed

text \<open>
  The order of the disk reads. If the words compared are positions below \<open>2^31\<close> (the bitmap
  has 41943040 bits), the read list that \<open>list_sort\<close> leaves with \<open>file_poisit_compare\<close> is a
  permutation of the entries in ascending position, and entries with equal positions keep their
  order, although the comparison cuts an unsigned long difference to \<open>int\<close>.
\<close>

theorem reads_sorted:
  assumes "\<forall>n \<in> set xs. start_at (fst n) < 2 ^ 31"
  shows "mset (sorted_nodes (file_poisit_compare start_at) xs) = mset xs
    \<and> sorted_wrt (\<lambda>a b. start_at (fst a) \<le> start_at (fst b)) (sorted_nodes (file_poisit_compare start_at) xs)
    \<and> (\<forall>k \<in> set xs. filter (\<lambda>a. start_at (fst a) = start_at (fst k)) (sorted_nodes (file_poisit_compare start_at) xs)
         = filter (\<lambda>a. start_at (fst a) = start_at (fst k)) xs)"
proof -
  let ?ys = "sorted_nodes (file_poisit_compare start_at) xs"
  have perm: "mset ?ys = mset xs" by (rule sorted_nodes_mset)
  then have ys: "set ?ys = set xs" by (metis set_mset_mset)
  have sub: "set xs \<subseteq> {n. start_at (fst n) < 2 ^ 31}" using assms by auto
  have le: "file_poisit_compare start_at a b \<le> 0 \<longleftrightarrow> start_at (fst a) \<le> start_at (fst b)"
    if "a \<in> set xs" "b \<in> set xs" for a b
    using that assms by (simp add: compare_start word_le_def)
  have s: "sorted_wrt (\<lambda>a b. start_at (fst a) \<le> start_at (fst b)) ?ys"
  proof (cases "xs = []")
    case True
    then show ?thesis using perm by simp
  next
    case False
    then obtain k where k: "k \<in> set xs" by (meson last_in_set)
    from fpc.sorted_nodes_correct [OF sub, of k] k sub
    have "sorted_wrt (\<lambda>x y. file_poisit_compare start_at x y \<le> 0) ?ys" by auto
    then show ?thesis by (rule sorted_wrt_mono_rel [rotated]) (simp add: ys le)
  qed
  moreover have "filter (\<lambda>a. start_at (fst a) = start_at (fst k)) ?ys = filter (\<lambda>a. start_at (fst a) = start_at (fst k)) xs"
    if k: "k \<in> set xs" for k
  proof -
    have "filter (\<lambda>y. file_poisit_compare start_at k y \<le> 0 \<and> file_poisit_compare start_at y k \<le> 0) zs
        = filter (\<lambda>a. start_at (fst a) = start_at (fst k)) zs" if zs: "set zs \<subseteq> set xs" for zs
    proof (rule filter_cong [OF refl])
      fix a assume "a \<in> set zs"
      then have "a \<in> set xs" using zs by blast
      then show "(file_poisit_compare start_at k a \<le> 0 \<and> file_poisit_compare start_at a k \<le> 0)
          = (start_at (fst a) = start_at (fst k))"
        using le [OF k, of a] le [of a, OF _ k] by auto
    qed
    then show ?thesis using fpc.sorted_nodes_correct [OF sub, of k] k sub ys by auto
  qed
  ultimately show ?thesis using perm by blast
qed

theorem reads_sorted_witness:
  "sorted_wrt (\<lambda>a b. (of_nat (fst a) :: u64) \<le> of_nat (fst b))
     (sorted_nodes (file_poisit_compare of_nat) [(7, 1), (3, 2), (5, 3)])"
  using reads_sorted [of "[(7, 1), (3, 2), (5, 3)]" of_nat] by simp



text \<open>
  The length field of a packet is believed. \<open>jpf_ip_rcv\<close> sees packets before \<open>ip_rcv\<close> has
  checked them, and \<open>handle_skb\<close> takes the payload length from \<open>tot_len\<close>: a packet whose
  header claims a payload (of more than 32 bytes) beyond its end makes the scan read past the
  packet; the operation has no result.
\<close>

theorem long_tot_len_faults:
  assumes "skb_payload p = Some (off, n)" "32 < n" "length p < off + nat n" "kf_alloc q \<noteq> None"
  shows "handle_one mx ncpu sha q module_params env (Some p) s = None"
  using assms
  by (auto simp: handle_one_def get_partition_def partition_run_def calculate_partition_def)

text \<open>
  A failing SHA-1 leaks its buffer: \<open>build_hash\<close> returns without freeing \<open>dst\<close> when
  \<open>tcp_v4_sha1_hash_data\<close> reports an error, so one more \<open>sha_data\<close> object is in use and
  nothing else has changed.
\<close>

theorem failed_sha_leaks:
  assumes "22 < len" "ce_dst e" "ce_gen e \<noteq> 0"
  shows "build_hash mx ncpu sha e src st en len s = Some (s\<lparr>sha_live := sha_live s + 1\<rparr>)"
  using assms by (simp add: build_hash_def SHALEN_def)

end
