(* ===== verification/Nf_In_Witness.thy ===== *)
theory Nf_In_Witness
  imports Nf_In Cache_Witness
begin

text \<open>Concrete packets through the packet path, where the theorems of \<open>Nf_In\<close> apply.\<close>

definition demo_env :: chunk_env where
  "demo_env = \<lparr>ce_dst = True, ce_gen = 0, ce_item = None, ce_block = True, ce_read = None\<rparr>"

definition demo_pstate :: pstate where
  "demo_pstate = \<lparr>tab = empty_cache, heads = (\<lambda>_. []), sha_live = 0\<rparr>"

text \<open>A payload of 33 zero bytes is cut after 32.\<close>

lemma zero_window33: "window_hash module_params (replicate 33 0) 31 = 0"
proof -
  have "segment (replicate 33 (0 :: byte)) 0 31 = segment (replicate 32 0) 0 31" by (simp add: segment_def)
  then show ?thesis using zero_window by (simp add: window_hash_def)
qed

lemma zero_chunks: "payload_chunks module_params (replicate 33 0) 33 = [(0, 31), (32, 32)]"
proof -
  have "greedy_cuts P 31 31 [32] = []" for P using greedy_cuts.simps(3) [of P 31 30 32 "[]"] by simp
  then show ?thesis
    using zero_window33
    by (simp add: step_def CHUNKSTEP_def payload_chunks_def kept_cuts_def cut_points_def candidate_def upt_rec KFIFOLEN_def)
qed

definition demo_after :: pstate where
  "demo_after = demo_pstate\<lparr>tab := count_sum 32 empty_cache\<rparr>"

lemma demo_partition:
  "get_partition 100 1 demo_sha list_fifo module_params (\<lambda>_. demo_env) (replicate 33 0) (int 33) demo_pstate = Some demo_after"
  by (simp add: get_partition_def partition_run_chunks [OF list_fifo_law module_params_ok] zero_chunks
      del: of_nat_numeral)
    (simp add: build_hash_def SHALEN_def demo_env_def hand_hash_def get_hash_item_def bucket_find_def
      demo_pstate_def demo_after_def empty_cache_def add_hash_info_def hash_new_item_def Let_def)

theorem get_partition_accounts_witness:
  "sum_num (stats (tab demo_after)) = sum_num (stats (tab demo_pstate)) + 32 \<and> sha_live demo_after = 0"
  using get_partition_accounts [OF list_fifo_law _ _ _ demo_partition]
  by (simp add: demo_env_def zero_chunks counted_def SHALEN_def demo_pstate_def)

text \<open>A TCP packet without payload, and one whose header claims 1460 bytes.\<close>

definition demo_packet :: "byte \<Rightarrow> byte \<Rightarrow> byte list" where
  "demo_packet hi lo = [0x45, 0, hi, lo] @ replicate 28 0 @ [0x50] @ replicate 17 0"

lemma demo_payload: "skb_payload (demo_packet 0 40) = Some (40, 0)" "skb_payload (demo_packet 5 220) = Some (40, 1460)"
  by (simp_all add: skb_payload_def ip_ihl_def tcp_doff_def ip_tot_len_def byte_at_def demo_packet_def nth_append nth_Cons')

theorem long_tot_len_faults_witness:
  "handle_one 100 1 demo_sha list_fifo module_params (\<lambda>_. demo_env) (Some (demo_packet 5 220)) demo_pstate = None"
  by (rule long_tot_len_faults [OF demo_payload(2)]) (simp_all add: demo_packet_def list_fifo_def)

theorem failed_sha_leaks_witness:
  "build_hash 100 1 demo_sha (demo_env\<lparr>ce_gen := 1\<rparr>) (replicate 33 0) 0 31 32 demo_pstate = Some (demo_pstate\<lparr>sha_live := 1\<rparr>)"
  using failed_sha_leaks [of 32 "demo_env\<lparr>ce_gen := 1\<rparr>" 100 1 demo_sha "replicate 33 0" 0 31 demo_pstate]
  by (simp add: demo_env_def demo_pstate_def)

definition demo_batch :: "nat list batch_env" where
  "demo_batch = \<lparr>be_mx = 100, be_sha = demo_sha, be_fifo = list_fifo, be_chunks = (\<lambda>_ _. demo_env), be_list = True,
     be_ok = (\<lambda>_. True), be_got = (\<lambda>_. 0), be_start_at = (\<lambda>_. 0), be_tasklet = True\<rparr>"

definition demo_nf :: nfstate where
  "demo_nf = \<lparr>ntab = empty_cache, nsha_live = 0, skb_list = (\<lambda>_. [])(0 := [Some (demo_packet 0 40)]),
     work_pending = (\<lambda>_. False), resent = []\<rparr>"

lemma sorted_nodes_Nil [simp]: "sorted_nodes cmp [] = []"
  using sorted_nodes_mset [of cmp "[]"] by simp

definition demo_nf' :: nfstate where
  "demo_nf' = demo_nf\<lparr>skb_list := (\<lambda>_. []), resent := [Some (demo_packet 0 40)]\<rparr>"

lemma demo_handle: "handle_skb module_params [0] demo_batch 0 demo_nf = Some demo_nf'"
  by (simp add: handle_skb_def demo_nf_def demo_nf'_def threshold_def demo_batch_def handle_one_def demo_payload
      get_partition_def partition_run_def read_data_def resend_skb_def Let_def
      fun_eq_iff)


lemma demo_clear: "clear_remainder_skb module_params [0] (\<lambda>_ _. demo_batch) 0 demo_nf = Some demo_nf'"
  by (subst clear_remainder_skb.simps) (simp add: demo_handle, simp add: demo_nf_def demo_nf'_def clear_remainder_skb.simps)


text \<open>One chunk handled from the initial state of the system.\<close>

lemma demo_hand:
  "hand_hash 100 1 demo_env (replicate 32 0) 32 (demo_sha (replicate 32 0)) demo_pstate = Some demo_after"
  by (simp add: hand_hash_def get_hash_item_def bucket_find_def demo_pstate_def demo_after_def empty_cache_def
      add_hash_info_def hash_new_item_def demo_env_def Let_def)


end
