(* ===== verification/Sha_Pool.thy ===== *)
theory Sha_Pool
  imports Prelude
begin

text \<open>
  The per-CPU pool of SHA-1 transforms: \<open>kernel_hash/sha.c\<close> (the same file serves
  \<open>send_module\<close>). The pool is shared and counted: the first user builds it outside the lock,
  the last one frees it. \<open>sha_live\<close>-style ghost counters record the objects the code
  allocated and has not freed: entries (\<open>kzalloc\<close>), transforms (\<open>crypto_alloc_hash\<close>) and
  per-CPU arrays (\<open>alloc_percpu\<close>).

  Arguments for the outside: which allocations succeed, and the return codes of the crypto
  calls. Releasing something that was not allocated has no result (\<open>None\<close>).
\<close>

section \<open>Pools\<close>

text \<open>An entry tells whether its transform is set; \<open>None\<close> is a null pointer.\<close>

type_synonym pool = "nat \<Rightarrow> bool option"

record live =
  l_entry :: nat
  l_tfm :: nat
  l_percpu :: nat

fun free_entries :: "nat list \<Rightarrow> pool \<Rightarrow> live \<Rightarrow> live option" where
  "free_entries [] p l = Some l"
| "free_entries (c # cs) p l =
     (case p c of None \<Rightarrow> free_entries cs p l
      | Some t \<Rightarrow>
        if l_entry l = 0 \<or> t \<and> l_tfm l = 0 then None
        else free_entries cs p (l\<lparr>l_entry := l_entry l - 1, l_tfm := l_tfm l - (if t then 1 else 0)\<rparr>))"

definition free_pool :: "nat list \<Rightarrow> pool \<Rightarrow> live \<Rightarrow> live option" where
  "free_pool cpus p l =
     (case free_entries cpus p l of None \<Rightarrow> None
      | Some l' \<Rightarrow> if l_percpu l' = 0 then None else Some (l'\<lparr>l_percpu := l_percpu l' - 1\<rparr>))"

text \<open>The loop of \<open>__tcp_alloc_sha1sig_pool\<close>: \<open>kz\<close> and \<open>ch\<close> tell which allocations succeed.\<close>

fun alloc_entries ::
  "(nat \<Rightarrow> bool) \<Rightarrow> (nat \<Rightarrow> bool) \<Rightarrow> nat list \<Rightarrow> pool \<times> live \<Rightarrow> bool \<times> pool \<times> live" where
  "alloc_entries kz ch [] (p, l) = (True, p, l)"
| "alloc_entries kz ch (c # cs) (p, l) =
     (if \<not> kz c then (False, p, l)
      else let l1 = l\<lparr>l_entry := l_entry l + 1\<rparr> in
        if \<not> ch c then (False, p(c \<mapsto> False), l1)
        else alloc_entries kz ch cs (p(c \<mapsto> True), l1\<lparr>l_tfm := l_tfm l1 + 1\<rparr>))"

definition alloc_pool ::
  "bool \<Rightarrow> (nat \<Rightarrow> bool) \<Rightarrow> (nat \<Rightarrow> bool) \<Rightarrow> nat list \<Rightarrow> live \<Rightarrow> (pool option \<times> live) option" where
  "alloc_pool pc kz ch cpus l =
     (if \<not> pc then Some (None, l)
      else case alloc_entries kz ch cpus (Map.empty, l\<lparr>l_percpu := l_percpu l + 1\<rparr>) of
        (True, p, l') \<Rightarrow> Some (Some p, l')
      | (False, p, l') \<Rightarrow> map_option (\<lambda>l''. (None, l'')) (free_pool cpus p l'))"

section \<open>The shared pool\<close>

record sha_state =
  users :: u64
  sha_pool :: "pool option"
  live :: live

text \<open>\<open>tcp_free_sha1sig_pool\<close> (also \<open>__tcp_put_sha1sig_pool\<close>).\<close>

definition tcp_free_sha1sig_pool :: "nat list \<Rightarrow> sha_state \<Rightarrow> sha_state option" where
  "tcp_free_sha1sig_pool cpus s =
     (let s1 = s\<lparr>users := users s - 1\<rparr> in
      if users s1 = 0 then
        (case sha_pool s of None \<Rightarrow> Some (s1\<lparr>sha_pool := None\<rparr>)
         | Some p \<Rightarrow> map_option (\<lambda>l. s1\<lparr>sha_pool := None, live := l\<rparr>) (free_pool cpus p (live s)))
      else Some s1)"

text \<open>\<open>tcp_get_sha1sig_pool\<close> on \<open>cpu\<close>: the entry, if there is a pool.\<close>

definition tcp_get_sha1sig_pool :: "nat \<Rightarrow> sha_state \<Rightarrow> bool option \<times> sha_state" where
  "tcp_get_sha1sig_pool cpu s =
     (case sha_pool s of None \<Rightarrow> (None, s) | Some p \<Rightarrow> (p cpu, s\<lparr>users := users s + 1\<rparr>))"

text \<open>
  \<open>tcp_alloc_sha1sig_pool\<close> in its two locked regions. The first decides: build the pool, use
  the one there is, or (another thread is building it) try again.
\<close>

datatype alloc_choice = Build | Use | Retry

definition tcp_alloc_begin :: "sha_state \<Rightarrow> alloc_choice \<times> sha_state" where
  "tcp_alloc_begin s =
     (if users s = 0 then (Build, s\<lparr>users := users s + 1\<rparr>)
      else if sha_pool s = None then (Retry, s\<lparr>users := users s + 1 - 1\<rparr>)
      else (Use, s\<lparr>users := users s + 1\<rparr>))"

text \<open>The second region, with the pool that was built; \<open>True\<close> is a non-null result.\<close>

definition tcp_alloc_end :: "nat list \<Rightarrow> pool option \<Rightarrow> sha_state \<Rightarrow> (bool \<times> sha_state) option" where
  "tcp_alloc_end cpus p s =
     (case p of None \<Rightarrow> Some (False, s\<lparr>users := users s - 1\<rparr>)
      | Some q \<Rightarrow>
        (case sha_pool s of
           Some _ \<Rightarrow> map_option (\<lambda>l. (True, s\<lparr>live := l\<rparr>)) (free_pool cpus q (live s))
         | None \<Rightarrow> Some (True, s\<lparr>sha_pool := Some q\<rparr>)))"

text \<open>A call that is not disturbed: no result when it would spin for ever.\<close>

definition tcp_alloc_sha1sig_pool ::
  "bool \<Rightarrow> (nat \<Rightarrow> bool) \<Rightarrow> (nat \<Rightarrow> bool) \<Rightarrow> nat list \<Rightarrow> sha_state \<Rightarrow> (bool \<times> sha_state) option" where
  "tcp_alloc_sha1sig_pool pc kz ch cpus s =
     (case tcp_alloc_begin s of
        (Use, s1) \<Rightarrow> Some (True, s1)
      | (Retry, s1) \<Rightarrow> None
      | (Build, s1) \<Rightarrow> (case alloc_pool pc kz ch cpus (live s1) of None \<Rightarrow> None
          | Some (p, l) \<Rightarrow> tcp_alloc_end cpus p (s1\<lparr>live := l\<rparr>)))"

section \<open>Hashing\<close>

text \<open>
  \<open>tcp_v4_sha1_hash_data\<close>: \<open>rc\<close> are the codes of \<open>crypto_hash_init\<close>, \<open>_update\<close> and
  \<open>_final\<close>; \<open>sha\<close> is the digest they compute. The result is the return code and the buffer.
\<close>

definition tcp_v4_sha1_hash_data ::
  "(byte list \<Rightarrow> byte list) \<Rightarrow> int \<times> int \<times> int \<Rightarrow> nat list \<Rightarrow> nat \<Rightarrow> byte list \<Rightarrow> sha_state \<Rightarrow>
   ((int \<times> byte list) \<times> sha_state) option" where
  "tcp_v4_sha1_hash_data sha rc cpus cpu src s =
     (case tcp_get_sha1sig_pool cpu s of
        (None, s1) \<Rightarrow> Some ((1, replicate 20 0), s1)
      | (Some t, s1) \<Rightarrow>
        if \<not> t then None
        else let r = (if rc = (0, 0, 0) then (0, sha src) else (1, replicate 20 0))
             in map_option (\<lambda>s2. (r, s2)) (tcp_free_sha1sig_pool cpus s1))"

text \<open>\<open>ecryptfs_calculate_sha1\<close> with a transform of its own; every error is a \<open>BUG()\<close>.\<close>

definition ecryptfs_calculate_sha1 ::
  "(byte list \<Rightarrow> byte list) \<Rightarrow> bool \<Rightarrow> int \<times> int \<times> int \<Rightarrow> byte list \<Rightarrow> (int \<times> byte list) option" where
  "ecryptfs_calculate_sha1 sha tfm rc src = (if tfm \<and> rc = (0, 0, 0) then Some (0, sha src) else None)"

section \<open>Pools are complete or nothing\<close>

definition pool_entries :: "nat list \<Rightarrow> pool \<Rightarrow> nat" where
  "pool_entries cpus p = length (filter (\<lambda>c. p c \<noteq> None) cpus)"

definition pool_tfms :: "nat list \<Rightarrow> pool \<Rightarrow> nat" where
  "pool_tfms cpus p = length (filter (\<lambda>c. p c = Some True) cpus)"

lemma free_entries_Some:
  assumes "pool_entries cpus p \<le> l_entry l" "pool_tfms cpus p \<le> l_tfm l"
  shows "free_entries cpus p l = Some (l\<lparr>l_entry := l_entry l - pool_entries cpus p, l_tfm := l_tfm l - pool_tfms cpus p\<rparr>)"
  using assms
proof (induction cpus arbitrary: l)
  case Nil
  then show ?case by (simp add: pool_entries_def pool_tfms_def)
next
  case (Cons c cs)
  show ?case
  proof (cases "p c")
    case None
    with Cons show ?thesis by (simp add: pool_entries_def pool_tfms_def)
  next
    case (Some t)
    let ?l = "l\<lparr>l_entry := l_entry l - 1, l_tfm := l_tfm l - (if t then 1 else 0)\<rparr>"
    have "free_entries cs p ?l = Some (?l\<lparr>l_entry := l_entry ?l - pool_entries cs p, l_tfm := l_tfm ?l - pool_tfms cs p\<rparr>)"
      using Cons.prems Some by (intro Cons.IH) (auto simp: pool_entries_def pool_tfms_def)
    with Cons.prems Some show ?thesis by (auto simp: pool_entries_def pool_tfms_def)
  qed
qed

lemma pool_counts_upd:
  assumes "c \<notin> set cpus"
  shows "pool_entries cpus (p(c \<mapsto> t)) = pool_entries cpus p" "pool_tfms cpus (p(c \<mapsto> t)) = pool_tfms cpus p"
proof -
  have "filter (\<lambda>d. (p(c \<mapsto> t)) d \<noteq> None) cpus = filter (\<lambda>d. p d \<noteq> None) cpus"
    "filter (\<lambda>d. (p(c \<mapsto> t)) d = Some True) cpus = filter (\<lambda>d. p d = Some True) cpus"
    using assms by (auto intro!: filter_cong)
  then show "pool_entries cpus (p(c \<mapsto> t)) = pool_entries cpus p" "pool_tfms cpus (p(c \<mapsto> t)) = pool_tfms cpus p"
    by (simp_all only: pool_entries_def pool_tfms_def)
qed

lemma pool_counts_new:
  assumes "distinct cpus" "c \<in> set cpus" "p c = None"
  shows "pool_entries cpus (p(c \<mapsto> t)) = Suc (pool_entries cpus p)"
    "pool_tfms cpus (p(c \<mapsto> t)) = pool_tfms cpus p + (if t then 1 else 0)"
proof -
  obtain xs ys where cpus: "cpus = xs @ c # ys" using assms(2) by (metis in_set_conv_decomp)
  have split: "pool_entries cpus q = pool_entries xs q + pool_entries [c] q + pool_entries ys q"
    "pool_tfms cpus q = pool_tfms xs q + pool_tfms [c] q + pool_tfms ys q" for q
    by (auto simp: cpus pool_entries_def pool_tfms_def)
  have no: "c \<notin> set xs" "c \<notin> set ys" using assms(1) cpus by auto
  show "pool_entries cpus (p(c \<mapsto> t)) = Suc (pool_entries cpus p)"
    "pool_tfms cpus (p(c \<mapsto> t)) = pool_tfms cpus p + (if t then 1 else 0)"
    unfolding split pool_counts_upd [OF no(1)] pool_counts_upd [OF no(2)]
    using assms(3) by (auto simp: pool_entries_def pool_tfms_def)
qed

lemma alloc_entries_counts:
  assumes "alloc_entries kz ch cs (p, l) = (b, p', l')" "distinct cpus" "set cs \<subseteq> set cpus" "distinct cs"
    and "\<forall>c \<in> set cs. p c = None"
  shows "l_entry l' + pool_entries cpus p = l_entry l + pool_entries cpus p'"
    "l_tfm l' + pool_tfms cpus p = l_tfm l + pool_tfms cpus p'" "l_percpu l' = l_percpu l"
    "\<forall>c. c \<notin> set cs \<longrightarrow> p' c = p c" "b \<Longrightarrow> \<forall>c \<in> set cs. p' c = Some True"
proof -
  have "l_entry l' + pool_entries cpus p = l_entry l + pool_entries cpus p'
    \<and> l_tfm l' + pool_tfms cpus p = l_tfm l + pool_tfms cpus p' \<and> l_percpu l' = l_percpu l
    \<and> (\<forall>c. c \<notin> set cs \<longrightarrow> p' c = p c) \<and> (b \<longrightarrow> (\<forall>c \<in> set cs. p' c = Some True))"
    using assms
  proof (induction cs arbitrary: p l)
    case Nil
    then show ?case by simp
  next
    case (Cons c cs)
    note new = pool_counts_new [OF Cons.prems(2), of c p]
    have c: "c \<in> set cpus" "p c = None" "c \<notin> set cs" using Cons.prems by auto
    show ?case
    proof (cases "kz c \<and> ch c")
      case True
      let ?p = "p(c \<mapsto> True)" and ?l = "l\<lparr>l_entry := l_entry l + 1, l_tfm := l_tfm l + 1\<rparr>"
      have "alloc_entries kz ch cs (?p, ?l) = (b, p', l')" using Cons.prems(1) True by simp
      then have "l_entry l' + pool_entries cpus ?p = l_entry ?l + pool_entries cpus p'
        \<and> l_tfm l' + pool_tfms cpus ?p = l_tfm ?l + pool_tfms cpus p' \<and> l_percpu l' = l_percpu ?l
        \<and> (\<forall>c. c \<notin> set cs \<longrightarrow> p' c = ?p c) \<and> (b \<longrightarrow> (\<forall>c \<in> set cs. p' c = Some True))"
        by (rule Cons.IH) (use Cons.prems c in auto)
      then show ?thesis using new [OF c(1,2)] c by auto
    next
      case False
      then have "p' = p \<and> l' = l \<or> p' = p(c \<mapsto> False) \<and> l' = l\<lparr>l_entry := Suc (l_entry l)\<rparr>" "\<not> b"
        using Cons.prems(1) by (auto split: if_splits)
      then show ?thesis
      proof (elim disjE conjE)
        assume e: "p' = p(c \<mapsto> False)" "l' = l\<lparr>l_entry := Suc (l_entry l)\<rparr>" and "\<not> b"
        then show ?thesis using new [OF c(1,2), of False] unfolding e by (simp add: fun_upd_def)
      qed simp
    qed
  qed
  then show "l_entry l' + pool_entries cpus p = l_entry l + pool_entries cpus p'"
    "l_tfm l' + pool_tfms cpus p = l_tfm l + pool_tfms cpus p'" "l_percpu l' = l_percpu l"
    "\<forall>c. c \<notin> set cs \<longrightarrow> p' c = p c" "b \<Longrightarrow> \<forall>c \<in> set cs. p' c = Some True" by simp_all
qed

definition full_pool :: "nat list \<Rightarrow> pool \<Rightarrow> bool" where
  "full_pool cpus p \<longleftrightarrow> (\<forall>c \<in> set cpus. p c = Some True)"

definition add_pool :: "nat list \<Rightarrow> live \<Rightarrow> live" where
  "add_pool cpus l = \<lparr>l_entry = l_entry l + length cpus, l_tfm = l_tfm l + length cpus, l_percpu = l_percpu l + 1\<rparr>"

lemma full_pool_counts: "full_pool cpus p \<Longrightarrow> pool_entries cpus p = length cpus \<and> pool_tfms cpus p = length cpus"
proof -
  assume "full_pool cpus p"
  then have "\<forall>c \<in> set cpus. p c \<noteq> None" "\<forall>c \<in> set cpus. p c = Some True" by (simp_all add: full_pool_def)
  then show ?thesis unfolding pool_entries_def pool_tfms_def by (simp only: filter_True)
qed

lemma empty_counts: "pool_entries cpus Map.empty = 0" "pool_tfms cpus Map.empty = 0"
  by (simp_all add: pool_entries_def pool_tfms_def)

text \<open>Building gives a complete pool or leaves nothing behind, and never fails to clean up.\<close>

lemma alloc_pool_all_or_nothing:
  assumes "distinct cpus"
  shows "(\<exists>p. alloc_pool pc kz ch cpus l = Some (Some p, add_pool cpus l) \<and> full_pool cpus p)
    \<or> alloc_pool pc kz ch cpus l = Some (None, l)"
proof (cases pc)
  case False
  then show ?thesis by (simp add: alloc_pool_def)
next
  case True
  obtain b p l' where a: "alloc_entries kz ch cpus (Map.empty, l\<lparr>l_percpu := l_percpu l + 1\<rparr>) = (b, p, l')"
    by (metis prod_cases3)
  note c = alloc_entries_counts [OF a assms order.refl assms]
  have e: "l_entry l' = l_entry l + pool_entries cpus p" "l_tfm l' = l_tfm l + pool_tfms cpus p"
    "l_percpu l' = l_percpu l + 1"
    using c(1-3) by (simp_all add: empty_counts)
  show ?thesis
  proof (cases b)
    case b: True
    then have "full_pool cpus p" using c(5) by (simp add: full_pool_def)
    moreover from this have "l' = add_pool cpus l" using e full_pool_counts by (simp add: add_pool_def)
    ultimately show ?thesis using True b a by (simp add: alloc_pool_def)
  next
    case False
    have "free_pool cpus p l' = Some l" using free_entries_Some [of cpus p l'] e by (simp add: free_pool_def)
    then show ?thesis using True False a by (simp add: alloc_pool_def)
  qed
qed

lemma free_full_pool: "full_pool cpus p \<Longrightarrow> free_pool cpus p (add_pool cpus l) = Some l"
  using free_entries_Some [of cpus p "add_pool cpus l"] full_pool_counts [of cpus p]
  by (simp add: free_pool_def add_pool_def)

section \<open>The life of the shared pool\<close>

text \<open>Threads that are building the pool, and references handed out and not returned.\<close>

record pool_sys =
  ps :: sha_state
  building :: nat
  holders :: nat

inductive pstep :: "nat list \<Rightarrow> pool_sys \<Rightarrow> pool_sys \<Rightarrow> bool" for cpus where
  build: "tcp_alloc_begin (ps x) = (Build, s') \<Longrightarrow> pstep cpus x (x\<lparr>ps := s', building := building x + 1\<rparr>)"
| share: "tcp_alloc_begin (ps x) = (Use, s') \<Longrightarrow> holders x + 1 < 2 ^ 64 \<Longrightarrow>
     pstep cpus x (x\<lparr>ps := s', holders := holders x + 1\<rparr>)"
| retry: "tcp_alloc_begin (ps x) = (Retry, s') \<Longrightarrow> pstep cpus x (x\<lparr>ps := s'\<rparr>)"
| built: "0 < building x \<Longrightarrow> alloc_pool pc kz ch cpus (live (ps x)) = Some (p, l) \<Longrightarrow>
     tcp_alloc_end cpus p ((ps x)\<lparr>live := l\<rparr>) = Some (ok, s') \<Longrightarrow>
     pstep cpus x (x\<lparr>ps := s', building := building x - 1, holders := holders x + (if ok then 1 else 0)\<rparr>)"
| get: "tcp_get_sha1sig_pool cpu (ps x) = (Some t, s') \<Longrightarrow> holders x + 1 < 2 ^ 64 \<Longrightarrow>
     pstep cpus x (x\<lparr>ps := s', holders := holders x + 1\<rparr>)"
| free: "0 < holders x \<Longrightarrow> tcp_free_sha1sig_pool cpus (ps x) = Some s' \<Longrightarrow>
     pstep cpus x (x\<lparr>ps := s', holders := holders x - 1\<rparr>)"

definition no_live :: live where "no_live = \<lparr>l_entry = 0, l_tfm = 0, l_percpu = 0\<rparr>"

inductive preach :: "nat list \<Rightarrow> pool_sys \<Rightarrow> bool" for cpus where
  start: "preach cpus \<lparr>ps = \<lparr>users = 0, sha_pool = None, live = no_live\<rparr>, building = 0, holders = 0\<rparr>"
| more: "preach cpus x \<Longrightarrow> pstep cpus x x' \<Longrightarrow> preach cpus x'"

definition pool_inv :: "nat list \<Rightarrow> pool_sys \<Rightarrow> bool" where
  "pool_inv cpus x \<longleftrightarrow> users (ps x) = of_nat (building x + holders x) \<and> building x + holders x < 2 ^ 64
     \<and> building x \<le> 1 \<and> (building x = 1 \<longrightarrow> holders x = 0)
     \<and> (case sha_pool (ps x) of
          None \<Rightarrow> holders x = 0 \<and> live (ps x) = no_live
        | Some p \<Rightarrow> 0 < holders x \<and> full_pool cpus p \<and> live (ps x) = add_pool cpus no_live)"

lemma of_nat_zero_iff: "n < 2 ^ 64 \<Longrightarrow> (of_nat n :: u64) = 0 \<longleftrightarrow> n = 0"
  by (simp add: word_of_nat_eq_0_iff nat_dvd_not_less) (auto dest: dvd_imp_le)

lemma free_ok:
  assumes inv: "pool_inv cpus x" and h: "0 < holders x"
  shows "\<exists>s'. tcp_free_sha1sig_pool cpus (ps x) = Some s' \<and> pool_inv cpus (x\<lparr>ps := s', holders := holders x - 1\<rparr>)"
proof -
  from inv h obtain p where p: "sha_pool (ps x) = Some p" "full_pool cpus p" "live (ps x) = add_pool cpus no_live"
    and b: "building x = 0" by (auto simp: pool_inv_def split: option.splits)
  have u: "users (ps x) - 1 = of_nat (holders x - 1)"
    using inv h b by (simp add: pool_inv_def of_nat_diff)
  have z: "(of_nat (holders x - 1) :: u64) = 0 \<longleftrightarrow> holders x = 1"
    using inv h by (subst of_nat_zero_iff) (auto simp: pool_inv_def)
  show ?thesis
    using inv h b p z u free_full_pool [OF p(2), of no_live]
    by (auto simp: tcp_free_sha1sig_pool_def pool_inv_def Let_def)
qed

lemma pstep_inv:
  assumes inv: "pool_inv cpus x" and d: "distinct cpus" and s: "pstep cpus x x'"
  shows "pool_inv cpus x'"
  using s
proof cases
  case (build s')
  then show ?thesis
    using inv of_nat_zero_iff [of "building x + holders x"]
    by (auto simp: tcp_alloc_begin_def pool_inv_def split: if_splits option.splits)
next
  case (share s')
  then show ?thesis
    using inv by (auto simp: tcp_alloc_begin_def pool_inv_def split: if_splits)
next
  case (retry s')
  then show ?thesis
    using inv by (auto simp: tcp_alloc_begin_def pool_inv_def split: if_splits)
next
  case (built pc kz ch p l ok s')
  have b: "building x = 1" "holders x = 0" "sha_pool (ps x) = None" "live (ps x) = no_live"
    using built(2) inv by (auto simp: pool_inv_def split: option.splits)
  from alloc_pool_all_or_nothing [OF d, of pc kz ch "live (ps x)"] show ?thesis
    using built b inv by (auto simp: tcp_alloc_end_def pool_inv_def)
next
  case (get cpu t s')
  then show ?thesis
    using inv by (auto simp: tcp_get_sha1sig_pool_def pool_inv_def split: option.splits)
next
  case (free s')
  then show ?thesis using free_ok [OF inv] by auto
qed

lemma preach_inv: "preach cpus x \<Longrightarrow> distinct cpus \<Longrightarrow> pool_inv cpus x"
proof (induction rule: preach.induct)
  case start
  then show ?case by (simp add: pool_inv_def)
next
  case (more x x')
  then show ?case using pstep_inv by blast
qed

section \<open>Properties\<close>

text \<open>
  (C39) The pool is counted exactly and nothing leaks: in every state that any interleaving of
  builders, users and releases reaches, \<open>tcp_sha1sig_users\<close> is the number of references plus
  the builder, at most one thread builds, and the objects allocated are exactly those of one
  complete pool while there are references, and none otherwise.
\<close>

theorem pool_counted:
  assumes "distinct cpus" "preach cpus x"
  shows "users (ps x) = of_nat (building x + holders x) \<and> building x \<le> 1
    \<and> live (ps x) = (if holders x = 0 then no_live else add_pool cpus no_live)
    \<and> (sha_pool (ps x) = None \<longleftrightarrow> holders x = 0)"
  using preach_inv [OF assms(2,1)] by (auto simp: pool_inv_def split: option.splits)

lemma preach_one: "\<exists>x. preach [0, 1] x \<and> holders x = 1 \<and> sha_pool (ps x) \<noteq> None"
proof -
  let ?x0 = "\<lparr>ps = \<lparr>users = 0, sha_pool = None, live = no_live\<rparr>, building = 0, holders = 0\<rparr>"
  let ?s1 = "\<lparr>users = 1, sha_pool = None, live = no_live\<rparr>"
  have 1: "preach [0, 1] (?x0\<lparr>ps := ?s1, building := 1\<rparr>)" (is "preach _ ?x1")
    using preach.more [OF preach.start pstep.build [where s' = ?s1]] by (simp add: tcp_alloc_begin_def)
  let ?p = "[0 \<mapsto> True, 1 \<mapsto> True]"
  have "alloc_pool True (\<lambda>_. True) (\<lambda>_. True) [0, 1] (live (ps ?x1)) = Some (Some ?p, add_pool [0, 1] no_live)"
    by (simp add: alloc_pool_def add_pool_def no_live_def)
  from preach.more [OF 1 pstep.built [OF _ this, of True "?s1\<lparr>sha_pool := Some ?p, live := add_pool [0, 1] no_live\<rparr>"]]
  show ?thesis by (fastforce simp: tcp_alloc_end_def)
qed

theorem pool_counted_witness:
  "\<exists>x. preach [0, 1] x \<and> holders x = 1 \<and> users (ps x) = 1 \<and> live (ps x) = add_pool [0, 1] no_live"
proof -
  from preach_one obtain x where x: "preach [0, 1] x" "holders x = 1" "sha_pool (ps x) \<noteq> None" by blast
  have "pool_inv [0, 1] x" using preach_inv [OF x(1)] by simp
  then have "building x = 0" using x(2) by (auto simp: pool_inv_def)
  with pool_counted [OF _ x(1)] x show ?thesis by auto
qed

text \<open>
  Hashing is exact and balanced: while a reference is held, on every possible CPU
  \<open>tcp_v4_sha1_hash_data\<close> completes, leaves the pool and its count as they were, and returns 0
  with the digest of the data when the crypto calls succeed, 1 with a zeroed buffer otherwise.
\<close>

theorem hash_data_balanced:
  assumes "distinct cpus" "preach cpus x" "0 < holders x" "holders x + 1 < 2 ^ 64" "cpu \<in> set cpus"
  shows "tcp_v4_sha1_hash_data sha rc cpus cpu src (ps x)
    = Some (if rc = (0, 0, 0) then (0, sha src) else (1, replicate 20 0), ps x)"
proof -
  have inv: "pool_inv cpus x" by (rule preach_inv [OF assms(2,1)])
  then obtain p where p: "sha_pool (ps x) = Some p" "p cpu = Some True" and b: "building x = 0"
    using assms(3,5) by (auto simp: pool_inv_def full_pool_def split: option.splits)
  have "users (ps x) \<noteq> 0"
    using inv assms(3) b of_nat_zero_iff [of "holders x"] by (auto simp: pool_inv_def)
  then have "tcp_free_sha1sig_pool cpus ((ps x)\<lparr>users := users (ps x) + 1\<rparr>) = Some (ps x)"
    by (simp add: tcp_free_sha1sig_pool_def)
  then show ?thesis using p by (simp add: tcp_v4_sha1_hash_data_def tcp_get_sha1sig_pool_def Let_def)
qed

theorem hash_data_balanced_witness:
  "\<exists>x :: pool_sys. tcp_v4_sha1_hash_data rev (0, 0, 0) [0, 1] 1 [3, 4] (ps x) = Some ((0, [4, 3]), ps x)"
proof -
  from preach_one obtain x where x: "preach [0, 1] x" "holders x = 1" by blast
  from hash_data_balanced [OF _ x(1), of 1 rev "(0, 0, 0)" "[3, 4]"] x(2) show ?thesis by auto
qed

text \<open>
  One release too many blocks the pool for ever. When building fails the count is back at
  zero; a further \<open>tcp_free_sha1sig_pool\<close>, as the error path of \<open>minit\<close> makes it, wraps
  \<open>tcp_sha1sig_users\<close> to \<open>2^64 - 1\<close> without freeing anything, and from then on every
  \<open>tcp_alloc_sha1sig_pool\<close> finds a count that is not zero and no pool: it spins, whatever the
  allocators would return, and leaves the state as it is.
\<close>

theorem extra_free_blocks_pool:
  assumes "users s = 0" "sha_pool s = None"
  shows "\<exists>s'. tcp_free_sha1sig_pool cpus s = Some s' \<and> users s' = - 1 \<and> live s' = live s
    \<and> tcp_alloc_begin s' = (Retry, s') \<and> tcp_alloc_sha1sig_pool pc kz ch cpus s' = None"
  using assms by (simp add: tcp_free_sha1sig_pool_def tcp_alloc_begin_def tcp_alloc_sha1sig_pool_def)

theorem extra_free_blocks_pool_witness:
  "\<exists>s'. tcp_free_sha1sig_pool [0] \<lparr>users = 0, sha_pool = None, live = no_live\<rparr> = Some s' \<and> users s' = - 1"
  using extra_free_blocks_pool [of "\<lparr>users = 0, sha_pool = None, live = no_live\<rparr>" "[0]" True "\<lambda>_. True" "\<lambda>_. True"]
  by auto

end
