(* ===== verification/Resources.thy ===== *)
theory Resources
  imports Chunking Sha_Pool
begin

text \<open>
  What loading and unloading a kernel module acquires and gives back, for both modules.
  \<open>held\<close> are the kernel resources the module owns, \<open>ptrs\<close> the global pointers that are not
  null (the code never resets them). Releasing what is not held, or using what is not set up,
  is a kernel oops: no result. What the kernel calls return is in \<open>outcomes\<close>.
\<close>

section \<open>Resources\<close>

datatype resource =
  Skb_wq | File nat | Slab nat | Bitmap_mem nat | Wr_wq | Hash_tab | Bucket_clear | Hash_cachep
| Print_memory | Bucket_timers | Counters | Hook_out | Hook_in | Jprobe

datatype file_ptr = FNull | FErr | FOpen

text \<open>The bucket array: not there, allocated only, ready, or given back.\<close>

datatype tab_state = TNull | TRaw | TReady | TFreed

text \<open>\<open>'c\<close> is the module's own data: the cache of the receiver, the table of the sender.\<close>

record 'c mstate =
  held :: "resource set"
  ptrs :: "resource set"
  reserve_file :: "nat \<Rightarrow> file_ptr"
  tab_st :: tab_state
  used_mem :: u64
  params :: hash_params
  mcache :: 'c
  msha :: sha_state
  kprobe_in_reged :: bool

record outcomes =
  o_skb_wq :: bool
  o_file :: "nat \<Rightarrow> bool"
  o_slab :: "nat \<Rightarrow> bool"
  o_bitmap :: "nat \<Rightarrow> bool"
  o_wr_wq :: bool
  o_hash_tab :: bool
  o_bucket_clear :: bool
  o_hash_cachep :: bool
  o_hook_out :: int
  o_hook_in :: int
  o_percpu :: bool
  o_kz :: "nat \<Rightarrow> bool"
  o_ch :: "nat \<Rightarrow> bool"
  o_jprobe :: int
  o_sizeof_timer :: u64

definition acquire :: "resource \<Rightarrow> 'c mstate \<Rightarrow> 'c mstate" where
  "acquire r s = s\<lparr>held := insert r (held s), ptrs := insert r (ptrs s)\<rparr>"

definition release :: "resource \<Rightarrow> 'c mstate \<Rightarrow> 'c mstate option" where
  "release r s = (if r \<in> held s then Some (s\<lparr>held := held s - {r}\<rparr>) else None)"

fun release_list :: "resource list \<Rightarrow> 'c mstate \<Rightarrow> 'c mstate option" where
  "release_list [] s = Some s"
| "release_list (r # rs) s = (case release r s of None \<Rightarrow> None | Some s' \<Rightarrow> release_list rs s')"

text \<open>\<open>if (p) kmem_cache_destroy(p)\<close>, and the like.\<close>

fun release_if_ptr :: "resource list \<Rightarrow> 'c mstate \<Rightarrow> 'c mstate option" where
  "release_if_ptr [] s = Some s"
| "release_if_ptr (r # rs) s =
     (if r \<in> ptrs s then case release r s of None \<Rightarrow> None | Some s' \<Rightarrow> release_if_ptr rs s'
      else release_if_ptr rs s)"

definition ENOMEM :: int where "ENOMEM = 12"
definition ENODEV :: int where "ENODEV = 19"

text \<open>Slab caches created one after another until one fails.\<close>

fun alloc_slabs :: "outcomes \<Rightarrow> nat list \<Rightarrow> 'c mstate \<Rightarrow> int \<times> 'c mstate" where
  "alloc_slabs q [] s = (0, s)"
| "alloc_slabs q (i # is) s = (if o_slab q i then alloc_slabs q is (acquire (Slab i) s) else (- ENOMEM, s))"

section \<open>Acquiring and releasing in bulk\<close>

lemma release_list_all:
  "distinct rs \<Longrightarrow> set rs \<subseteq> held s \<Longrightarrow> release_list rs s = Some (s\<lparr>held := held s - set rs\<rparr>)"
proof (induction rs arbitrary: s)
  case (Cons r rs)
  have "release_list rs (s\<lparr>held := held s - {r}\<rparr>) = Some (s\<lparr>held := held s - {r}\<rparr>\<lparr>held := held s - {r} - set rs\<rparr>)"
    using Cons.prems by (subst Cons.IH) auto
  moreover have "held s - {r} - set rs = held s - set (r # rs)" by auto
  ultimately show ?case using Cons.prems by (simp add: release_def)
qed simp

lemma release_if_ptr_all:
  "distinct rs \<Longrightarrow> set rs \<inter> ptrs s \<subseteq> held s \<Longrightarrow> release_if_ptr rs s = Some (s\<lparr>held := held s - set rs \<inter> ptrs s\<rparr>)"
proof (induction rs arbitrary: s)
  case (Cons r rs)
  let ?s = "if r \<in> ptrs s then s\<lparr>held := held s - {r}\<rparr> else s"
  have "release_if_ptr rs ?s = Some (?s\<lparr>held := held ?s - set rs \<inter> ptrs s\<rparr>)"
    using Cons.prems by (subst Cons.IH) auto
  moreover have "held ?s - set rs \<inter> ptrs s = held s - set (r # rs) \<inter> ptrs s" by auto
  ultimately show ?case using Cons.prems by (auto simp: release_def)
qed simp

lemma alloc_slabs_ok:
  "(\<forall>i \<in> set is. o_slab q i) \<Longrightarrow> alloc_slabs q is s =
   (0, s\<lparr>held := held s \<union> Slab ` set is, ptrs := ptrs s \<union> Slab ` set is\<rparr>)"
  by (induction "is" arbitrary: s) (auto simp: acquire_def intro!: mstate.equality)

lemma alloc_slabs_fail:
  assumes "\<exists>i \<in> set is. \<not> o_slab q i"
  shows "\<exists>J \<subseteq> set is. alloc_slabs q is s = (- ENOMEM, s\<lparr>held := held s \<union> Slab ` J, ptrs := ptrs s \<union> Slab ` J\<rparr>)"
  using assms
proof (induction "is" arbitrary: s)
  case (Cons i "is")
  show ?case
  proof (cases "o_slab q i")
    case True
    then obtain J where "J \<subseteq> set is" "alloc_slabs q is (acquire (Slab i) s) = (- ENOMEM,
        (acquire (Slab i) s)\<lparr>held := held (acquire (Slab i) s) \<union> Slab ` J, ptrs := ptrs (acquire (Slab i) s) \<union> Slab ` J\<rparr>)"
      using Cons.IH [of "acquire (Slab i) s"] Cons.prems by auto
    then show ?thesis using True
      by (intro exI [of _ "insert i J"]) (auto simp: acquire_def intro!: mstate.equality)
  next
    case False
    then show ?thesis by (intro exI [of _ "{}"]) (auto intro!: mstate.equality)
  qed
qed simp

lemma alloc_entries_ok:
  assumes "\<forall>c \<in> set cs. kz c \<and> ch c"
  shows "fst (alloc_entries kz ch cs (p, l))"
  using assms by (induction cs arbitrary: p l) (simp_all add: Let_def)

lemma alloc_pool_ok:
  assumes "distinct cpus" "\<forall>c \<in> set cpus. kz c \<and> ch c"
  shows "\<exists>p. alloc_pool True kz ch cpus l = Some (Some p, add_pool cpus l) \<and> full_pool cpus p"
proof -
  obtain p l' where "alloc_entries kz ch cpus (Map.empty, l\<lparr>l_percpu := l_percpu l + 1\<rparr>) = (True, p, l')"
    using alloc_entries_ok [OF assms(2)] by (metis (full_types) prod.collapse)
  then have "alloc_pool True kz ch cpus l \<noteq> Some (None, l)" by (simp add: alloc_pool_def)
  then show ?thesis using alloc_pool_all_or_nothing [OF assms(1)] by blast
qed

lemma alloc_pool_fail:
  assumes "distinct cpus" "\<not> (pc \<and> (\<forall>c \<in> set cpus. kz c \<and> ch c))"
  shows "alloc_pool pc kz ch cpus l = Some (None, l)"
proof -
  have e: "\<not> fst (alloc_entries kz ch cs (p, l))" if "\<not> (\<forall>c \<in> set cs. kz c \<and> ch c)" for cs p l
    using that by (induction cs arbitrary: p l) (auto simp: Let_def)
  have "alloc_pool pc kz ch cpus l \<noteq> Some (Some p, l')" for p l'
    using assms(2) e [of cpus Map.empty "l\<lparr>l_percpu := l_percpu l + 1\<rparr>"]
    by (cases pc) (auto simp: alloc_pool_def split: prod.splits bool.splits)
  then show ?thesis using alloc_pool_all_or_nothing [OF assms(1)] by blast
qed

end
