(* ===== verification/Module_Init.thy ===== *)
theory Module_Init
  imports Cache_System Resources
begin

text \<open>
  Loading and unloading the receiving module: \<open>kernel_hash/main.c\<close> (\<open>minit\<close>, \<open>mexit\<close>,
  \<open>init_some_parameters\<close>), \<open>slab_cache.c\<close>, \<open>alloc_file.c\<close>, \<open>alloc_bitmap\<close> and
  \<open>free_bitmap\<close> of \<open>bitmap.c\<close>, and \<open>initial_hash_table_cache\<close> and
  \<open>release_hash_table_cache\<close> of \<open>hash_table.c\<close>.
\<close>

section \<open>The parts\<close>

definition init_some_parameters :: "outcomes \<Rightarrow> wcache mstate \<Rightarrow> int \<times> wcache mstate" where
  "init_some_parameters q s =
     (let st = (stats (mcache s))\<lparr>save_num := 0, sum_num := 0, skb_num := 0, rdl := 0, rdf := 0\<rparr>;
          s1 = s\<lparr>mcache := (mcache s)\<lparr>stats := st\<rparr>\<rparr>
      in if o_skb_wq q then (0, acquire Skb_wq s1) else (-1, s1))"

fun alloc_percpu_file :: "outcomes \<Rightarrow> nat list \<Rightarrow> wcache mstate \<Rightarrow> int \<times> wcache mstate" where
  "alloc_percpu_file q [] s = (0, s)"
| "alloc_percpu_file q (c # cs) s =
     (if o_file q c
      then alloc_percpu_file q cs ((acquire (File c) s)\<lparr>reserve_file := (reserve_file s)(c := FOpen)\<rparr>)
      else (- ENODEV, s\<lparr>reserve_file := (reserve_file s)(c := FErr)\<rparr>))"

text \<open>\<open>if (!IS_ERR(f)) fput(f)\<close>: a null pointer is no error pointer.\<close>

fun free_percpu_file :: "nat list \<Rightarrow> wcache mstate \<Rightarrow> wcache mstate option" where
  "free_percpu_file [] s = Some s"
| "free_percpu_file (c # cs) s =
     (case reserve_file s c of
        FErr \<Rightarrow> free_percpu_file cs s
      | FNull \<Rightarrow> None
      | FOpen \<Rightarrow> (case release (File c) s of None \<Rightarrow> None | Some s' \<Rightarrow> free_percpu_file cs s'))"

text \<open>The eight caches, in the order of the code: \<open>sha_data\<close>, three chunk sizes, \<open>reskb\<close>,
  \<open>listhead\<close>, \<open>readskb\<close>, \<open>tasklet\<close>.\<close>

definition alloc_slab :: "outcomes \<Rightarrow> wcache mstate \<Rightarrow> int \<times> wcache mstate" where
  "alloc_slab q = alloc_slabs q [0..<8]"

definition free_slab :: "wcache mstate \<Rightarrow> wcache mstate option" where
  "free_slab = release_if_ptr (map Slab [0..<8])"

definition bitmap_bytes :: nat where "bitmap_bytes = 10 * 1024 * 1024 * 1024 div 32 div 8"

fun alloc_bitmap :: "outcomes \<Rightarrow> nat list \<Rightarrow> wcache mstate \<Rightarrow> int \<times> wcache mstate" where
  "alloc_bitmap q [] s = (0, s)"
| "alloc_bitmap q (c # cs) s =
     (if o_bitmap q c
      then alloc_bitmap q cs ((acquire (Bitmap_mem c) s)
             \<lparr>used_mem := used_mem s + of_nat bitmap_bytes,
              mcache := (mcache s)\<lparr>bitmap := (bitmap (mcache s))(c := \<lambda>_. False),
                                  bitmap_index := (bitmap_index (mcache s))(c := 0)\<rparr>\<rparr>)
      else (- ENOMEM, s))"

definition free_bitmap :: "nat list \<Rightarrow> wcache mstate \<Rightarrow> wcache mstate option" where
  "free_bitmap cpus = release_if_ptr (map Bitmap_mem cpus)"

definition initial_hash_table_cache :: "outcomes \<Rightarrow> wcache mstate \<Rightarrow> int \<times> wcache mstate" where
  "initial_hash_table_cache q s =
     (if \<not> o_wr_wq q then (-1, s)
      else let s1 = acquire Wr_wq s in
        if \<not> o_hash_tab q then (- ENOMEM, s1)
        else let s2 = (acquire Hash_tab s1)\<lparr>tab_st := TRaw, used_mem := used_mem s + ucast hash_tab_size * 16\<rparr> in
          if \<not> o_bucket_clear q then (- ENOMEM, s2)
          else let s3 = (acquire Bucket_clear s2)\<lparr>used_mem := used_mem s2 + ucast hash_tab_size * o_sizeof_timer q\<rparr> in
            if \<not> o_hash_cachep q then (- ENOMEM, s3\<lparr>held := held s3 - {Hash_tab}, tab_st := TFreed\<rparr>)
            else let s4 = acquire Counters (acquire Bucket_timers (acquire Print_memory (acquire Hash_cachep s3)));
                     st = (stats (mcache s))\<lparr>mm0 := 0, mm1 := 0, mm2 := 0, mm3 := 0, devote0 := 0, devote1 := 0,
                            devote2 := 0, devote3 := 0, devote4 := 0, mmw := 0, mmm := 0, mmf := 0, mmd := 0\<rparr>
                 in (0, s4\<lparr>tab_st := TReady, mcache := (mcache s)\<lparr>hash_tab := (\<lambda>_. []), stats := st\<rparr>\<rparr>))"

text \<open>\<open>release_hash_table_cache\<close>; the array \<open>bucket_clear\<close> is not given back.\<close>

definition release_hash_table_cache :: "wcache mstate \<Rightarrow> wcache mstate option" where
  "release_hash_table_cache s =
     (if tab_st s \<noteq> TReady then None
      else case hash_flush (mcache s) of None \<Rightarrow> None
      | Some t \<Rightarrow>
        (case release_list [Print_memory, Counters, Bucket_timers, Wr_wq, Hash_cachep, Hash_tab] (s\<lparr>mcache := t\<rparr>) of None \<Rightarrow> None
         | Some s' \<Rightarrow> Some (s'\<lparr>tab_st := TFreed\<rparr>)))"

section \<open>\<open>minit\<close> and \<open>mexit\<close>\<close>

text \<open>The labels of the error path, each falling through to the next.\<close>

definition err_alloc_file :: "nat list \<Rightarrow> wcache mstate \<Rightarrow> wcache mstate option" where
  "err_alloc_file cpus s = free_percpu_file cpus s"

definition err_alloc_slab :: "nat list \<Rightarrow> wcache mstate \<Rightarrow> wcache mstate option" where
  "err_alloc_slab cpus s = (case free_slab s of None \<Rightarrow> None | Some s' \<Rightarrow> err_alloc_file cpus s')"

definition err_bitmap :: "nat list \<Rightarrow> wcache mstate \<Rightarrow> wcache mstate option" where
  "err_bitmap cpus s = (case free_bitmap cpus s of None \<Rightarrow> None | Some s' \<Rightarrow> err_alloc_slab cpus s')"

definition err_hash_table_cache :: "nat list \<Rightarrow> wcache mstate \<Rightarrow> wcache mstate option" where
  "err_hash_table_cache cpus s = (case release_hash_table_cache s of None \<Rightarrow> None | Some s' \<Rightarrow> err_bitmap cpus s')"

definition err_nf_reg_out :: "nat list \<Rightarrow> wcache mstate \<Rightarrow> wcache mstate option" where
  "err_nf_reg_out cpus s = (case release Hook_out s of None \<Rightarrow> None | Some s' \<Rightarrow> err_hash_table_cache cpus s')"

definition err_nf_reg_in :: "nat list \<Rightarrow> wcache mstate \<Rightarrow> wcache mstate option" where
  "err_nf_reg_in cpus s = (case release Hook_in s of None \<Rightarrow> None | Some s' \<Rightarrow> err_nf_reg_out cpus s')"

definition err_sha1siq_pool :: "nat list \<Rightarrow> wcache mstate \<Rightarrow> wcache mstate option" where
  "err_sha1siq_pool cpus s =
     (case tcp_free_sha1sig_pool cpus (msha s) of None \<Rightarrow> None | Some h \<Rightarrow> err_nf_reg_in cpus (s\<lparr>msha := h\<rparr>))"

definition fail :: "int \<Rightarrow> wcache mstate option \<Rightarrow> (int \<times> wcache mstate) option" where
  "fail err = map_option (\<lambda>s. (err, s))"

text \<open>The second half: hooks, SHA-1 pool and probe.\<close>

definition minit_hooks :: "outcomes \<Rightarrow> nat list \<Rightarrow> wcache mstate \<Rightarrow> (int \<times> wcache mstate) option" where
  "minit_hooks q cpus s =
     (if o_hook_out q < 0 then fail (o_hook_out q) (err_nf_reg_out cpus s)
      else let s1 = acquire Hook_out s in
        if o_hook_in q < 0 then fail (o_hook_in q) (err_nf_reg_in cpus s1)
        else let s2 = acquire Hook_in s1 in
          case tcp_alloc_sha1sig_pool (o_percpu q) (o_kz q) (o_ch q) cpus (msha s2) of None \<Rightarrow> None
          | Some (pool, h) \<Rightarrow>
            let s3 = s2\<lparr>msha := h\<rparr> in
            if \<not> pool then fail (o_hook_in q) (err_sha1siq_pool cpus s3)
            else if o_jprobe q < 0 then Some (o_jprobe q, s3)
            else Some (o_jprobe q, (acquire Jprobe s3)\<lparr>kprobe_in_reged := True\<rparr>))"

definition minit :: "outcomes \<Rightarrow> nat list \<Rightarrow> wcache mstate \<Rightarrow> (int \<times> wcache mstate) option" where
  "minit q cpus s =
     (case init_some_parameters q (s\<lparr>params := init_hash_parameters (params s)\<rparr>) of (err, s1) \<Rightarrow>
      if err < 0 then Some (err, s1)
      else case alloc_percpu_file q cpus s1 of (err, s2) \<Rightarrow>
      if err < 0 then fail err (err_alloc_file cpus s2)
      else case alloc_slab q s2 of (err, s3) \<Rightarrow>
      if err < 0 then fail err (err_alloc_slab cpus s3)
      else case alloc_bitmap q cpus s3 of (err, s4) \<Rightarrow>
      if err < 0 then fail err (err_bitmap cpus s4)
      else case initial_hash_table_cache q s4 of (err, s5) \<Rightarrow>
      if err < 0 then fail err (err_hash_table_cache cpus s5)
      else minit_hooks q cpus s5)"

text \<open>\<open>mexit\<close>: \<open>flush_workqueue\<close> and \<open>clear_remainder_skb\<close> have drained the packets.\<close>

definition mexit :: "nat list \<Rightarrow> wcache mstate \<Rightarrow> wcache mstate option" where
  "mexit cpus s =
     (case release_list ([Hook_in, Hook_out] @ (if kprobe_in_reged s then [Jprobe] else []) @ [Skb_wq]) s of
        None \<Rightarrow> None
      | Some s1 \<Rightarrow> (case release_hash_table_cache s1 of None \<Rightarrow> None
        | Some s2 \<Rightarrow> (case free_percpu_file cpus s2 of None \<Rightarrow> None
          | Some s3 \<Rightarrow> (case free_slab s3 of None \<Rightarrow> None
            | Some s4 \<Rightarrow> (case free_bitmap cpus s4 of None \<Rightarrow> None
              | Some s5 \<Rightarrow>
                map_option (\<lambda>h. s5\<lparr>msha := h\<rparr>) (tcp_free_sha1sig_pool cpus (msha s5)))))))"

section \<open>A successful load\<close>

lemma free_percpu_file_all:
  "distinct cs \<Longrightarrow> File ` set cs \<subseteq> held s \<Longrightarrow> (\<forall>c \<in> set cs. reserve_file s c = FOpen) \<Longrightarrow>
   free_percpu_file cs s = Some (s\<lparr>held := held s - File ` set cs\<rparr>)"
proof (induction cs arbitrary: s)
  case (Cons c cs)
  have "free_percpu_file cs (s\<lparr>held := held s - {File c}\<rparr>)
      = Some (s\<lparr>held := held s - {File c}\<rparr>\<lparr>held := held s - {File c} - File ` set cs\<rparr>)"
    using Cons.prems by (subst Cons.IH) auto
  moreover have "held s - {File c} - File ` set cs = held s - File ` set (c # cs)" by auto
  ultimately show ?case using Cons.prems by (simp add: release_def)
qed simp

lemma alloc_percpu_file_ok:
  "(\<forall>c \<in> set cs. o_file q c) \<Longrightarrow> alloc_percpu_file q cs s =
   (0, s\<lparr>held := held s \<union> File ` set cs, ptrs := ptrs s \<union> File ` set cs,
        reserve_file := (\<lambda>c. if c \<in> set cs then FOpen else reserve_file s c)\<rparr>)"
  by (induction cs arbitrary: s) (auto simp: acquire_def fun_eq_iff intro!: mstate.equality)

lemma alloc_bitmap_ok:
  assumes "\<forall>c \<in> set cs. o_bitmap q c"
  shows "\<exists>u. alloc_bitmap q cs s = (0, s\<lparr>held := held s \<union> Bitmap_mem ` set cs, ptrs := ptrs s \<union> Bitmap_mem ` set cs,
    used_mem := u, mcache := (mcache s)\<lparr>bitmap := (\<lambda>c. if c \<in> set cs then (\<lambda>_. False) else bitmap (mcache s) c),
      bitmap_index := (\<lambda>c. if c \<in> set cs then 0 else bitmap_index (mcache s) c)\<rparr>\<rparr>)"
  using assms
proof (induction cs arbitrary: s)
  case Nil
  then show ?case by (auto intro!: exI [of _ "used_mem s"])
next
  case (Cons c cs)
  let ?s = "(acquire (Bitmap_mem c) s)\<lparr>used_mem := used_mem s + of_nat bitmap_bytes,
    mcache := (mcache s)\<lparr>bitmap := (bitmap (mcache s))(c := \<lambda>_. False), bitmap_index := (bitmap_index (mcache s))(c := 0)\<rparr>\<rparr>"
  from Cons.IH [of ?s] Cons.prems obtain u where "alloc_bitmap q cs ?s = (0, ?s\<lparr>held := held ?s \<union> Bitmap_mem ` set cs,
    ptrs := ptrs ?s \<union> Bitmap_mem ` set cs, used_mem := u,
    mcache := (mcache ?s)\<lparr>bitmap := (\<lambda>c. if c \<in> set cs then (\<lambda>_. False) else bitmap (mcache ?s) c),
      bitmap_index := (\<lambda>c. if c \<in> set cs then 0 else bitmap_index (mcache ?s) c)\<rparr>\<rparr>)" by auto
  then show ?case using Cons.prems
    by (auto simp: acquire_def fun_eq_iff intro!: exI [of _ u] mstate.equality wcache.equality)
qed

text \<open>The module as the loader leaves it: nothing allocated, the static data zero.\<close>

definition loaded :: "wcache mstate \<Rightarrow> bool" where
  "loaded s \<longleftrightarrow> held s = {} \<and> ptrs s = {} \<and> reserve_file s = (\<lambda>_. FNull) \<and> tab_st s = TNull \<and> params s = hash_params_globals
     \<and> item_at (mcache s) = Map.empty \<and> hash_count (mcache s) = 0 \<and> bitmap (mcache s) = (\<lambda>_ _. False)
     \<and> bitmap_index (mcache s) = (\<lambda>_. 0) \<and> loff_file (mcache s) = (\<lambda>_. 0)
     \<and> users (msha s) = 0 \<and> sha_pool (msha s) = None \<and> live (msha s) = no_live \<and> \<not> kprobe_in_reged s"

definition all_ok :: "outcomes \<Rightarrow> nat list \<Rightarrow> bool" where
  "all_ok q cpus \<longleftrightarrow> o_skb_wq q \<and> (\<forall>c \<in> set cpus. o_file q c \<and> o_bitmap q c \<and> o_kz q c \<and> o_ch q c)
     \<and> (\<forall>i < 8. o_slab q i) \<and> o_wr_wq q \<and> o_hash_tab q \<and> o_bucket_clear q \<and> o_hash_cachep q
     \<and> o_hook_out q = 0 \<and> o_hook_in q = 0 \<and> o_percpu q \<and> o_jprobe q = 0"

definition all_resources :: "nat list \<Rightarrow> resource set" where
  "all_resources cpus = {Skb_wq, Wr_wq, Hash_tab, Bucket_clear, Hash_cachep, Print_memory, Bucket_timers, Counters, Hook_out, Hook_in, Jprobe}
     \<union> File ` set cpus \<union> Bitmap_mem ` set cpus \<union> Slab ` {0..<8}"

lemma initial_hash_table_cache_ok:
  assumes "o_wr_wq q" "o_hash_tab q" "o_bucket_clear q" "o_hash_cachep q"
  shows "\<exists>u st. initial_hash_table_cache q s = (0, s\<lparr>
    held := {Wr_wq, Hash_tab, Bucket_clear, Hash_cachep, Print_memory, Bucket_timers, Counters} \<union> held s,
    ptrs := {Wr_wq, Hash_tab, Bucket_clear, Hash_cachep, Print_memory, Bucket_timers, Counters} \<union> ptrs s,
    used_mem := u, tab_st := TReady, mcache := (mcache s)\<lparr>hash_tab := (\<lambda>_. []), stats := st\<rparr>\<rparr>)
    \<and> mm0 st = 0 \<and> mm1 st = 0 \<and> mm2 st = 0 \<and> mm3 st = 0 \<and> mmw st = 0 \<and> mmm st = 0 \<and> mmf st = 0 \<and> mmd st = 0"
  using assms by (auto simp: initial_hash_table_cache_def Let_def acquire_def intro!: exI mstate.equality)

lemma minit_hooks_ok:
  assumes "o_hook_out q = 0" "o_hook_in q = 0" "o_percpu q" "o_jprobe q = 0" "distinct cpus"
    "\<forall>c \<in> set cpus. o_kz q c \<and> o_ch q c" "msha s = \<lparr>users = 0, sha_pool = None, live = no_live\<rparr>"
  shows "\<exists>p. minit_hooks q cpus s = Some (0, s\<lparr>held := {Hook_out, Hook_in, Jprobe} \<union> held s,
      ptrs := {Hook_out, Hook_in, Jprobe} \<union> ptrs s, kprobe_in_reged := True,
      msha := \<lparr>users = 1, sha_pool = Some p, live = add_pool cpus no_live\<rparr>\<rparr>) \<and> full_pool cpus p"
proof -
  from alloc_pool_ok [OF assms(5,6), of no_live] obtain p where
    "alloc_pool True (o_kz q) (o_ch q) cpus no_live = Some (Some p, add_pool cpus no_live)" "full_pool cpus p" by blast
  then show ?thesis using assms
    by (auto simp: minit_hooks_def Let_def tcp_alloc_sha1sig_pool_def tcp_alloc_begin_def tcp_alloc_end_def acquire_def
        intro!: exI [of _ p] mstate.equality)
qed

text \<open>The state before \<open>initial_hash_table_cache\<close>, when files, slabs and bitmaps are there.\<close>

definition front_ok :: "outcomes \<Rightarrow> nat list \<Rightarrow> bool" where
  "front_ok q cpus \<longleftrightarrow> o_skb_wq q \<and> (\<forall>c \<in> set cpus. o_file q c \<and> o_bitmap q c) \<and> (\<forall>i < 8. o_slab q i)"

definition front_held :: "nat list \<Rightarrow> resource set" where
  "front_held cpus = {Skb_wq} \<union> File ` set cpus \<union> Bitmap_mem ` set cpus \<union> Slab ` {0..<8}"

definition front_state :: "nat list \<Rightarrow> wcache mstate \<Rightarrow> bool" where
  "front_state cpus s \<longleftrightarrow> held s = front_held cpus \<and> ptrs s = front_held cpus \<and> (\<forall>c \<in> set cpus. reserve_file s c = FOpen)
     \<and> tab_st s = TNull \<and> params s = init_hash_parameters hash_params_globals \<and> item_at (mcache s) = Map.empty
     \<and> hash_count (mcache s) = 0 \<and> bitmap (mcache s) = (\<lambda>_ _. False) \<and> bitmap_index (mcache s) = (\<lambda>_. 0)
     \<and> loff_file (mcache s) = (\<lambda>_. 0) \<and> msha s = \<lparr>users = 0, sha_pool = None, live = no_live\<rparr> \<and> \<not> kprobe_in_reged s"

lemma init_some_parameters_ok:
  assumes "loaded s" "o_skb_wq q"
  obtains s1 where "init_some_parameters q (s\<lparr>params := init_hash_parameters (params s)\<rparr>) = (0, s1)"
    "held s1 = {Skb_wq}" "ptrs s1 = {Skb_wq}" "params s1 = init_hash_parameters hash_params_globals" "tab_st s1 = TNull"
    "reserve_file s1 = (\<lambda>_. FNull)"
    "item_at (mcache s1) = Map.empty" "hash_count (mcache s1) = 0" "bitmap (mcache s1) = (\<lambda>_ _. False)"
    "bitmap_index (mcache s1) = (\<lambda>_. 0)" "loff_file (mcache s1) = (\<lambda>_. 0)"
    "msha s1 = \<lparr>users = 0, sha_pool = None, live = no_live\<rparr>" "\<not> kprobe_in_reged s1"
  using assms by (simp add: init_some_parameters_def loaded_def acquire_def)

lemma minit_front:
  assumes s: "loaded s" and q: "front_ok q cpus"
  shows "\<exists>s4. front_state cpus s4 \<and> minit q cpus s = (case initial_hash_table_cache q s4 of (err, s5) \<Rightarrow>
    if err < 0 then fail err (err_hash_table_cache cpus s5) else minit_hooks q cpus s5)"
proof -
  have o: "\<forall>c \<in> set cpus. o_file q c" "\<forall>c \<in> set cpus. o_bitmap q c" "\<forall>i \<in> set [0..<8]. o_slab q i" "o_skb_wq q"
    using q by (simp_all add: front_ok_def)
  obtain s1 where 1: "init_some_parameters q (s\<lparr>params := init_hash_parameters (params s)\<rparr>) = (0, s1)"
    "held s1 = {Skb_wq}" "ptrs s1 = {Skb_wq}" "params s1 = init_hash_parameters hash_params_globals" "tab_st s1 = TNull"
    "reserve_file s1 = (\<lambda>_. FNull)"
    "item_at (mcache s1) = Map.empty" "hash_count (mcache s1) = 0" "bitmap (mcache s1) = (\<lambda>_ _. False)"
    "bitmap_index (mcache s1) = (\<lambda>_. 0)" "loff_file (mcache s1) = (\<lambda>_. 0)"
    "msha s1 = \<lparr>users = 0, sha_pool = None, live = no_live\<rparr>" "\<not> kprobe_in_reged s1"
    using init_some_parameters_ok [OF s o(4)] by blast
  obtain s2 where 2: "alloc_percpu_file q cpus s1 = (0, s2)" "s2 = s1\<lparr>held := held s1 \<union> File ` set cpus,
     ptrs := ptrs s1 \<union> File ` set cpus, reserve_file := (\<lambda>c. if c \<in> set cpus then FOpen else reserve_file s1 c)\<rparr>"
    using alloc_percpu_file_ok [OF o(1)] by blast
  obtain s3 where 3: "alloc_slab q s2 = (0, s3)"
    "s3 = s2\<lparr>held := held s2 \<union> Slab ` set [0..<8], ptrs := ptrs s2 \<union> Slab ` set [0..<8]\<rparr>"
    using alloc_slabs_ok [OF o(3)] unfolding alloc_slab_def by blast
  obtain s4 u where 4: "alloc_bitmap q cpus s3 = (0, s4)" "s4 = s3\<lparr>held := held s3 \<union> Bitmap_mem ` set cpus,
    ptrs := ptrs s3 \<union> Bitmap_mem ` set cpus, used_mem := u,
    mcache := (mcache s3)\<lparr>bitmap := (\<lambda>c. if c \<in> set cpus then (\<lambda>_. False) else bitmap (mcache s3) c),
      bitmap_index := (\<lambda>c. if c \<in> set cpus then 0 else bitmap_index (mcache s3) c)\<rparr>\<rparr>"
    using alloc_bitmap_ok [OF o(2)] by blast
  have "held s4 = front_held cpus" "ptrs s4 = front_held cpus"
    unfolding 4(2) 3(2) 2(2) front_held_def by (auto simp: 1)
  then have "front_state cpus s4" by (auto simp: front_state_def fun_eq_iff 1 2(2) 3(2) 4(2))
  then show ?thesis by (intro exI [of _ s4]) (simp add: minit_def 1(1) 2(1) 3(1) 4(1))
qed

lemma minit_ok:
  assumes s: "loaded s" and q: "all_ok q cpus" and d: "distinct cpus"
  shows "\<exists>s' p. minit q cpus s = Some (0, s') \<and> held s' = all_resources cpus \<and> ptrs s' = all_resources cpus
    \<and> (\<forall>c \<in> set cpus. reserve_file s' c = FOpen) \<and> tab_st s' = TReady \<and> fresh_cache (mcache s')
    \<and> kprobe_in_reged s' \<and> params s' = init_hash_parameters hash_params_globals
    \<and> msha s' = \<lparr>users = 1, sha_pool = Some p, live = add_pool cpus no_live\<rparr> \<and> full_pool cpus p"
proof -
  have o: "front_ok q cpus" "\<forall>c \<in> set cpus. o_kz q c \<and> o_ch q c" "o_wr_wq q" "o_hash_tab q" "o_bucket_clear q" "o_hash_cachep q"
    "o_hook_out q = 0" "o_hook_in q = 0" "o_percpu q" "o_jprobe q = 0"
    using q by (simp_all add: all_ok_def front_ok_def)
  obtain s4 where 4: "front_state cpus s4" "minit q cpus s = (case initial_hash_table_cache q s4 of (err, s5) \<Rightarrow>
    if err < 0 then fail err (err_hash_table_cache cpus s5) else minit_hooks q cpus s5)"
    using minit_front [OF s o(1)] by blast
  obtain s5 v st where 5: "initial_hash_table_cache q s4 = (0, s5)" "s5 = s4\<lparr>
    held := {Wr_wq, Hash_tab, Bucket_clear, Hash_cachep, Print_memory, Bucket_timers, Counters} \<union> held s4,
    ptrs := {Wr_wq, Hash_tab, Bucket_clear, Hash_cachep, Print_memory, Bucket_timers, Counters} \<union> ptrs s4,
    used_mem := v, tab_st := TReady, mcache := (mcache s4)\<lparr>hash_tab := (\<lambda>_. []), stats := st\<rparr>\<rparr>"
    "mm0 st = 0" "mm1 st = 0" "mm2 st = 0" "mm3 st = 0"
    using initial_hash_table_cache_ok [OF o(3-6)] by blast
  have "msha s5 = \<lparr>users = 0, sha_pool = None, live = no_live\<rparr>" using 4(1) by (simp add: front_state_def 5(2))
  from minit_hooks_ok [OF o(7-10) d o(2) this] obtain p where
    6: "minit_hooks q cpus s5 = Some (0, s5\<lparr>held := {Hook_out, Hook_in, Jprobe} \<union> held s5,
      ptrs := {Hook_out, Hook_in, Jprobe} \<union> ptrs s5, kprobe_in_reged := True,
      msha := \<lparr>users = 1, sha_pool = Some p, live = add_pool cpus no_live\<rparr>\<rparr>)" "full_pool cpus p" by blast
  have "minit q cpus s = minit_hooks q cpus s5" by (simp add: 4(2) 5(1))
  moreover have "fresh_cache (mcache s5)" using 4(1) by (auto simp: fresh_cache_def front_state_def 5(2-))
  moreover have "{Hook_out, Hook_in, Jprobe} \<union> held s5 = all_resources cpus" "{Hook_out, Hook_in, Jprobe} \<union> ptrs s5 = all_resources cpus"
    using 4(1) unfolding 5(2) front_state_def all_resources_def front_held_def by auto
  moreover have "\<forall>c \<in> set cpus. reserve_file s5 c = FOpen" "tab_st s5 = TReady"
    "params s5 = init_hash_parameters hash_params_globals"
    using 4(1) by (simp_all add: front_state_def 5(2))
  ultimately show ?thesis using 6 by simp
qed

section \<open>Unloading\<close>

lemma release_hash_table_cache_ok:
  assumes t: "tab_st s = TReady" and f: "hash_flush (mcache s) = Some t"
    and h: "{Print_memory, Counters, Bucket_timers, Wr_wq, Hash_cachep, Hash_tab} \<subseteq> held s"
  shows "release_hash_table_cache s = Some (s\<lparr>mcache := t, tab_st := TFreed,
    held := held s - {Print_memory, Counters, Bucket_timers, Wr_wq, Hash_cachep, Hash_tab}\<rparr>)"
proof -
  have "release_list [Print_memory, Counters, Bucket_timers, Wr_wq, Hash_cachep, Hash_tab] (s\<lparr>mcache := t\<rparr>)
      = Some (s\<lparr>mcache := t, held := held s - {Print_memory, Counters, Bucket_timers, Wr_wq, Hash_cachep, Hash_tab}\<rparr>)"
    using h by (subst release_list_all) auto
  then show ?thesis using t f by (simp add: release_hash_table_cache_def del: release_list.simps)
qed

lemma mexit_ok:
  assumes h: "held s = all_resources cpus" "ptrs s = all_resources cpus" and d: "distinct cpus"
    and o: "\<forall>c \<in> set cpus. reserve_file s c = FOpen" and t: "tab_st s = TReady" "kprobe_in_reged s"
    and f: "hash_flush (mcache s) = Some t'"
    and p: "msha s = \<lparr>users = 1, sha_pool = Some p, live = add_pool cpus no_live\<rparr>" "full_pool cpus p"
  shows "\<exists>s'. mexit cpus s = Some s' \<and> held s' = {Bucket_clear} \<and> mcache s' = t'
    \<and> msha s' = \<lparr>users = 0, sha_pool = None, live = no_live\<rparr>"
proof -
  let ?R1 = "set [Hook_in, Hook_out, Jprobe, Skb_wq]"
  let ?R2 = "{Print_memory, Counters, Bucket_timers, Wr_wq, Hash_cachep, Hash_tab}"
  have 1: "release_list [Hook_in, Hook_out, Jprobe, Skb_wq] s = Some (s\<lparr>held := held s - ?R1\<rparr>)"
    by (rule release_list_all) (auto simp: h all_resources_def)
  have 2: "release_hash_table_cache (s\<lparr>held := held s - ?R1\<rparr>)
      = Some (s\<lparr>mcache := t', tab_st := TFreed, held := held s - ?R1 - ?R2\<rparr>)" (is "_ = Some ?s2")
    using t f by (subst release_hash_table_cache_ok [where t = t']) (auto simp: h all_resources_def)
  have 3: "free_percpu_file cpus ?s2 = Some (?s2\<lparr>held := held ?s2 - File ` set cpus\<rparr>)" (is "_ = Some ?s3")
    using d o by (subst free_percpu_file_all) (auto simp: h all_resources_def)
  have 4: "free_slab ?s3 = Some (?s3\<lparr>held := held ?s3 - set (map Slab [0..<8]) \<inter> ptrs ?s3\<rparr>)" (is "_ = Some ?s4")
    unfolding free_slab_def by (rule release_if_ptr_all) (auto simp: h all_resources_def distinct_map inj_on_def)
  have 5: "free_bitmap cpus ?s4 = Some (?s4\<lparr>held := held ?s4 - set (map Bitmap_mem cpus) \<inter> ptrs ?s4\<rparr>)" (is "_ = Some ?s5")
    unfolding free_bitmap_def using d by (intro release_if_ptr_all) (auto simp: h all_resources_def distinct_map inj_on_def)
  have 6: "tcp_free_sha1sig_pool cpus (msha ?s5) = Some \<lparr>users = 0, sha_pool = None, live = no_live\<rparr>"
    by (simp add: p tcp_free_sha1sig_pool_def Let_def free_full_pool [OF p(2)])
  have "held ?s5 = {Bucket_clear}" by (auto simp: h all_resources_def)
  moreover have "mexit cpus s = Some (?s5\<lparr>msha := \<lparr>users = 0, sha_pool = None, live = no_live\<rparr>\<rparr>)"
    using 1 2 3 4 5 6 t(2) by (simp add: mexit_def del: release_list.simps upt_Suc)
  ultimately show ?thesis by simp
qed


section \<open>Error paths\<close>

lemma unwind_slabs:
  assumes "distinct cpus" "held s = {Skb_wq} \<union> File ` set cpus \<union> Slab ` J" "ptrs s = held s" "J \<subseteq> {0..<8}"
    "\<forall>c \<in> set cpus. reserve_file s c = FOpen"
  shows "\<exists>s'. err_alloc_slab cpus s = Some s' \<and> held s' = {Skb_wq}"
proof -
  have 1: "free_slab s = Some (s\<lparr>held := held s - set (map Slab [0..<8]) \<inter> ptrs s\<rparr>)" (is "_ = Some ?s1")
    unfolding free_slab_def by (rule release_if_ptr_all) (auto simp: distinct_map inj_on_def assms(3))
  have "free_percpu_file cpus ?s1 = Some (?s1\<lparr>held := held ?s1 - File ` set cpus\<rparr>)"
    using assms by (subst free_percpu_file_all) auto
  then show ?thesis using 1 assms(2-4) by (auto simp: err_alloc_slab_def err_alloc_file_def)
qed

text \<open>
  A slab cache that cannot be created is handled: \<open>minit\<close> returns \<open>-ENOMEM\<close>, the
  caches created before it and the files are given back once each, and only the work queue
  \<open>skb_wq\<close>, which no error path destroys, is still held.
\<close>

theorem slab_failure_unwinds:
  assumes "loaded s" "distinct cpus" "o_skb_wq q" "\<forall>c \<in> set cpus. o_file q c" "i < 8" "\<not> o_slab q i"
  shows "\<exists>s'. minit q cpus s = Some (- ENOMEM, s') \<and> held s' = {Skb_wq}"
proof -
  obtain s1 where 1: "init_some_parameters q (s\<lparr>params := init_hash_parameters (params s)\<rparr>) = (0, s1)"
    "held s1 = {Skb_wq}" "ptrs s1 = {Skb_wq}"
    by (rule init_some_parameters_ok [OF assms(1,3)])
  obtain s2 where 2: "alloc_percpu_file q cpus s1 = (0, s2)" "s2 = s1\<lparr>held := held s1 \<union> File ` set cpus,
     ptrs := ptrs s1 \<union> File ` set cpus, reserve_file := (\<lambda>c. if c \<in> set cpus then FOpen else reserve_file s1 c)\<rparr>"
    using alloc_percpu_file_ok [OF assms(4)] by blast
  obtain J s3 where 3: "J \<subseteq> set [0..<8]" "alloc_slab q s2 = (- ENOMEM, s3)"
    "s3 = s2\<lparr>held := held s2 \<union> Slab ` J, ptrs := ptrs s2 \<union> Slab ` J\<rparr>"
  proof -
    have "\<exists>i \<in> set [0..<8]. \<not> o_slab q i" using assms(5,6) by auto
    from alloc_slabs_fail [OF this, of s2] show ?thesis using that unfolding alloc_slab_def by blast
  qed
  have "\<exists>s'. err_alloc_slab cpus s3 = Some s' \<and> held s' = {Skb_wq}"
    by (rule unwind_slabs [OF assms(2), of _ J]) (use 3(1) in \<open>auto simp: 3(3) 2(2) 1\<close>)
  then show ?thesis
    by (auto simp: minit_def 1(1) 2(1) 3(2) fail_def ENOMEM_def)
qed

lemma not_ready_oops: "tab_st s \<noteq> TReady \<Longrightarrow> err_hash_table_cache cpus s = None"
  by (simp add: err_hash_table_cache_def release_hash_table_cache_def)

lemma initial_hash_table_cache_fail:
  assumes "tab_st s = TNull" "\<not> (o_wr_wq q \<and> o_hash_tab q \<and> o_bucket_clear q \<and> o_hash_cachep q)"
  shows "\<exists>err s'. initial_hash_table_cache q s = (err, s') \<and> err < 0 \<and> tab_st s' \<noteq> TReady"
  using assms by (auto simp: initial_hash_table_cache_def Let_def acquire_def ENOMEM_def)

text \<open>
  Two error paths of \<open>minit\<close> end in a kernel oops. When
  \<open>initial_hash_table_cache\<close> fails, for whatever reason, the label it jumps to walks a
  bucket array that is missing, not initialised or already freed. When a netfilter hook
  cannot be registered, the label unregisters that very hook.
\<close>

theorem table_or_hook_failure_oops:
  assumes "loaded s" "front_ok q cpus"
    "\<not> (o_wr_wq q \<and> o_hash_tab q \<and> o_bucket_clear q \<and> o_hash_cachep q) \<or> o_hook_out q < 0 \<or> o_hook_in q < 0"
  shows "minit q cpus s = None"
proof -
  obtain s4 where 4: "front_state cpus s4" "minit q cpus s = (case initial_hash_table_cache q s4 of (err, s5) \<Rightarrow>
    if err < 0 then fail err (err_hash_table_cache cpus s5) else minit_hooks q cpus s5)"
    using minit_front [OF assms(1,2)] by blast
  show ?thesis
  proof (cases "o_wr_wq q \<and> o_hash_tab q \<and> o_bucket_clear q \<and> o_hash_cachep q")
    case False
    have "tab_st s4 = TNull" using 4(1) by (simp add: front_state_def)
    from initial_hash_table_cache_fail [OF this False] show ?thesis
      using 4(2) not_ready_oops by (auto simp: fail_def)
  next
    case True
    then obtain s5 where 5: "initial_hash_table_cache q s4 = (0, s5)"
      "held s5 = {Wr_wq, Hash_tab, Bucket_clear, Hash_cachep, Print_memory, Bucket_timers, Counters} \<union> held s4"
      using initial_hash_table_cache_ok [of q s4] by auto
    have "Hook_out \<notin> held s5" "Hook_in \<notin> held s5" using 4(1) by (auto simp: 5(2) front_state_def front_held_def)
    then show ?thesis using assms(3) True
      by (auto simp: 4(2) 5(1) minit_hooks_def fail_def err_nf_reg_out_def err_nf_reg_in_def release_def acquire_def)
  qed
qed

lemma fresh_flush: "fresh_cache s \<Longrightarrow> \<exists>t. hash_flush s = Some t"
  using flush_total [OF sys_ok_start [where sha = "\<lambda>_. replicate SHA1SIZE 0"]] unfolding hash_flush_def by fastforce

lemma sha_failure_hooks:
  assumes f: "front_state cpus s4" and d: "distinct cpus"
    and s5: "s5 = s4\<lparr>held := {Wr_wq, Hash_tab, Bucket_clear, Hash_cachep, Print_memory, Bucket_timers, Counters} \<union> held s4,
      ptrs := {Wr_wq, Hash_tab, Bucket_clear, Hash_cachep, Print_memory, Bucket_timers, Counters} \<union> ptrs s4,
      used_mem := v, tab_st := TReady, mcache := (mcache s4)\<lparr>hash_tab := (\<lambda>_. []), stats := st\<rparr>\<rparr>"
    and fl: "hash_flush (mcache s5) = Some t"
    and q: "o_hook_out q = 0" "o_hook_in q = 0" "\<not> (o_percpu q \<and> (\<forall>c \<in> set cpus. o_kz q c \<and> o_ch q c))"
  shows "\<exists>s'. minit_hooks q cpus s5 = Some (0, s') \<and> held s' = {Skb_wq, Bucket_clear}"
proof -
  have m: "msha s5 = \<lparr>users = 0, sha_pool = None, live = no_live\<rparr>" and fo: "\<forall>c \<in> set cpus. reserve_file s5 c = FOpen"
    and h: "held s5 = front_held cpus \<union> {Wr_wq, Hash_tab, Bucket_clear, Hash_cachep, Print_memory, Bucket_timers, Counters}"
    and p: "ptrs s5 = held s5" and ts: "tab_st s5 = TReady"
    using f by (auto simp: front_state_def s5)
  have 0: "tcp_alloc_sha1sig_pool (o_percpu q) (o_kz q) (o_ch q) cpus (msha s5) = Some (False, msha s5)"
    using alloc_pool_fail [OF d q(3)]
    by (simp add: m tcp_alloc_sha1sig_pool_def tcp_alloc_begin_def tcp_alloc_end_def)
  define s6 where "s6 = s5\<lparr>ptrs := {Hook_out, Hook_in} \<union> ptrs s5, msha := (msha s5)\<lparr>users := - 1\<rparr>\<rparr>"
  let ?R = "{Print_memory, Counters, Bucket_timers, Wr_wq, Hash_cachep, Hash_tab}"
  have 2: "release_hash_table_cache s6 = Some (s6\<lparr>mcache := t, tab_st := TFreed, held := held s6 - ?R\<rparr>)" (is "_ = Some ?s7")
    by (rule release_hash_table_cache_ok) (auto simp: s6_def ts h fl)
  have 3: "free_bitmap cpus ?s7 = Some (?s7\<lparr>held := held ?s7 - set (map Bitmap_mem cpus) \<inter> ptrs ?s7\<rparr>)" (is "_ = Some ?s8")
    unfolding free_bitmap_def using d
    by (intro release_if_ptr_all) (auto simp: s6_def h p front_held_def distinct_map inj_on_def)
  have 4: "free_slab ?s8 = Some (?s8\<lparr>held := held ?s8 - set (map Slab [0..<8]) \<inter> ptrs ?s8\<rparr>)" (is "_ = Some ?s9")
    unfolding free_slab_def by (rule release_if_ptr_all) (auto simp: s6_def h p front_held_def distinct_map inj_on_def)
  have 5: "free_percpu_file cpus ?s9 = Some (?s9\<lparr>held := held ?s9 - File ` set cpus\<rparr>)" (is "_ = Some ?s10")
    using d fo by (subst free_percpu_file_all) (auto simp: s6_def h front_held_def)
  have "err_hash_table_cache cpus s6 = Some ?s10"
    using 2 3 4 5 by (simp add: err_hash_table_cache_def err_bitmap_def err_alloc_slab_def err_alloc_file_def del: upt_Suc)
  moreover have "held ?s10 = {Skb_wq, Bucket_clear}" by (auto simp: s6_def h p front_held_def)
  moreover have "minit_hooks q cpus s5 = fail 0 (err_hash_table_cache cpus s6)"
  proof -
    have "Hook_out \<notin> held s5" "Hook_in \<notin> held s5" by (auto simp: h front_held_def)
    then have "s5\<lparr>held := held s5 - {Hook_out} - {Hook_in}\<rparr> = s5" by simp
    with 0 show ?thesis
      using \<open>Hook_out \<notin> held s5\<close> \<open>Hook_in \<notin> held s5\<close>
      by (simp add: minit_hooks_def q acquire_def err_sha1siq_pool_def err_nf_reg_in_def err_nf_reg_out_def release_def
          tcp_free_sha1sig_pool_def m s6_def insert_commute)
  qed
  ultimately show ?thesis by (simp add: fail_def)
qed

text \<open>
  A failure of the SHA-1 pool is reported as success. The variable \<open>err\<close> still has the
  0 of the last registration: \<open>minit\<close> takes everything down again and returns 0, so the
  module counts as loaded with nothing but a work queue and the array \<open>bucket_clear\<close>
  held, and the later \<open>mexit\<close> oopses on the hooks that are gone.
\<close>

theorem sha_failure_reports_success:
  assumes "loaded s" "distinct cpus" "front_ok q cpus" "o_wr_wq q" "o_hash_tab q" "o_bucket_clear q" "o_hash_cachep q"
    "o_hook_out q = 0" "o_hook_in q = 0" "\<not> (o_percpu q \<and> (\<forall>c \<in> set cpus. o_kz q c \<and> o_ch q c))"
  shows "\<exists>s'. minit q cpus s = Some (0, s') \<and> held s' = {Skb_wq, Bucket_clear} \<and> mexit cpus s' = None"
proof -
  obtain s4 where 4: "front_state cpus s4" "minit q cpus s = (case initial_hash_table_cache q s4 of (err, s5) \<Rightarrow>
    if err < 0 then fail err (err_hash_table_cache cpus s5) else minit_hooks q cpus s5)"
    using minit_front [OF assms(1,3)] by blast
  obtain s5 v st where 5: "initial_hash_table_cache q s4 = (0, s5)" "s5 = s4\<lparr>
    held := {Wr_wq, Hash_tab, Bucket_clear, Hash_cachep, Print_memory, Bucket_timers, Counters} \<union> held s4,
    ptrs := {Wr_wq, Hash_tab, Bucket_clear, Hash_cachep, Print_memory, Bucket_timers, Counters} \<union> ptrs s4,
    used_mem := v, tab_st := TReady, mcache := (mcache s4)\<lparr>hash_tab := (\<lambda>_. []), stats := st\<rparr>\<rparr>"
    "mm0 st = 0" "mm1 st = 0" "mm2 st = 0" "mm3 st = 0"
    using initial_hash_table_cache_ok [OF assms(4-7)] by blast
  have "fresh_cache (mcache s5)" using 4(1) by (auto simp: fresh_cache_def front_state_def 5(2-))
  from fresh_flush [OF this] obtain t where f: "hash_flush (mcache s5) = Some t" by blast
  from sha_failure_hooks [OF 4(1) assms(2) 5(2) f assms(8-10)] obtain s' where
    "minit_hooks q cpus s5 = Some (0, s')" "held s' = {Skb_wq, Bucket_clear}" by blast
  then show ?thesis by (auto simp: 4(2) 5(1) mexit_def release_def)
qed

end
