(* ===== verification/Module_Witness.thy ===== *)
theory Module_Witness
  imports Cache_Witness Module_Init
begin

text \<open>Loading and unloading on a machine with two processors.\<close>

definition boot :: "wcache mstate" where
  "boot = \<lparr>held = {}, ptrs = {}, reserve_file = (\<lambda>_. FNull), tab_st = TNull, used_mem = 0, params = hash_params_globals,
     mcache = empty_cache, msha = \<lparr>users = 0, sha_pool = None, live = no_live\<rparr>, kprobe_in_reged = False\<rparr>"

definition no_failure :: outcomes where
  "no_failure = \<lparr>o_skb_wq = True, o_file = (\<lambda>_. True), o_slab = (\<lambda>_. True), o_bitmap = (\<lambda>_. True), o_wr_wq = True,
     o_hash_tab = True, o_bucket_clear = True, o_hash_cachep = True, o_hook_out = 0, o_hook_in = 0, o_percpu = True,
     o_kz = (\<lambda>_. True), o_ch = (\<lambda>_. True), o_jprobe = 0, o_sizeof_timer = 80\<rparr>"

lemma boot_loaded: "loaded boot"
  by (simp add: loaded_def boot_def empty_cache_def)

lemma no_failure_ok: "all_ok no_failure cpus" "front_ok no_failure cpus"
  by (simp_all add: all_ok_def front_ok_def no_failure_def)


theorem slab_failure_unwinds_witness:
  "\<exists>s'. minit (no_failure\<lparr>o_slab := (\<lambda>i. i < 5)\<rparr>) [0, 1] boot = Some (- ENOMEM, s') \<and> held s' = {Skb_wq}"
  using slab_failure_unwinds [OF boot_loaded, of "[0, 1]" "no_failure\<lparr>o_slab := (\<lambda>i. i < 5)\<rparr>" 6]
  by (simp add: no_failure_def)

theorem table_or_hook_failure_oops_witness: "minit (no_failure\<lparr>o_hook_in := - 22\<rparr>) [0, 1] boot = None"
  by (rule table_or_hook_failure_oops [OF boot_loaded]) (simp_all add: front_ok_def no_failure_def)

theorem sha_failure_reports_success_witness:
  "\<exists>s'. minit (no_failure\<lparr>o_ch := (\<lambda>c. c = 0)\<rparr>) [0, 1] boot = Some (0, s') \<and> held s' = {Skb_wq, Bucket_clear}
    \<and> mexit [0, 1] s' = None"
  by (rule sha_failure_reports_success [OF boot_loaded]) (simp_all add: front_ok_def no_failure_def)

end
