(* ===== verification/Dedup_Index.thy ===== *)
theory Dedup_Index
  imports Prelude
begin

text \<open>
  The interface between the packet paths and the chunk tables. Both modules offer every chunk
  to a table: a digest that is known is a hit, another one is inserted. \<open>dedup_index\<close> states
  what a table promises for a lookup and an insertion; the lemmas about a whole payload are
  proved from it once. \<open>'e\<close> is the outside of an insertion: allocations, and the chunk itself.
\<close>

definition offer :: "('k \<Rightarrow> 's \<Rightarrow> bool \<times> 's) \<Rightarrow> ('e \<Rightarrow> 'k \<Rightarrow> 's \<Rightarrow> 's option) \<Rightarrow> 'e \<Rightarrow> 'k \<Rightarrow> 's \<Rightarrow> (bool \<times> 's) option" where
  "offer look ins e k s =
     (case look k s of (True, s') \<Rightarrow> Some (True, s') | (False, s') \<Rightarrow> map_option (Pair False) (ins e k s'))"

fun offer_all ::
  "('k \<Rightarrow> 's \<Rightarrow> bool \<times> 's) \<Rightarrow> ('e \<Rightarrow> 'k \<Rightarrow> 's \<Rightarrow> 's option) \<Rightarrow> ('e \<times> 'k) list \<Rightarrow> 's \<Rightarrow> (bool list \<times> 's) option" where
  "offer_all look ins [] s = Some ([], s)"
| "offer_all look ins ((e, k) # xs) s =
     (case offer look ins e k s of None \<Rightarrow> None
      | Some (h, s1) \<Rightarrow> map_option (\<lambda>(hs, s'). (h # hs, s')) (offer_all look ins xs s1))"

locale dedup_index =
  fixes inv :: "'s \<Rightarrow> bool"
    and keys :: "'s \<Rightarrow> 'k set"
    and look :: "'k \<Rightarrow> 's \<Rightarrow> bool \<times> 's"
    and ins :: "'e \<Rightarrow> 'k \<Rightarrow> 's \<Rightarrow> 's option"
    and fresh :: "'e \<Rightarrow> 's \<Rightarrow> bool"
    and room :: "'e \<Rightarrow> 'k \<Rightarrow> 's \<Rightarrow> bool"
  assumes look_hit: "inv s \<Longrightarrow> fst (look k s) \<longleftrightarrow> k \<in> keys s"
    and look_keeps: "inv s \<Longrightarrow> inv (snd (look k s)) \<and> keys (snd (look k s)) = keys s"
    and look_fresh: "inv s \<Longrightarrow> fresh e (snd (look k s)) = fresh e s"
    and ins_inv: "inv s \<Longrightarrow> fresh e s \<Longrightarrow> ins e k s = Some s' \<Longrightarrow> inv s'"
    and ins_keys: "inv s \<Longrightarrow> fresh e s \<Longrightarrow> ins e k s = Some s' \<Longrightarrow> keys s' = (if room e k s then insert k (keys s) else keys s)"
    and look_room: "inv s \<Longrightarrow> room e k (snd (look k' s)) = room e k s"
begin

lemma offer_spec:
  assumes "inv s" "fresh e s" "offer look ins e k s = Some (h, s')"
  shows "inv s'" "h \<longleftrightarrow> k \<in> keys s" "keys s' = (if h \<or> \<not> room e k s then keys s else insert k (keys s))"
proof -
  obtain b t where l: "look k s = (b, t)" by force
  have t: "inv t" "keys t = keys s" "fresh e t" "b \<longleftrightarrow> k \<in> keys s" "room e k t = room e k s"
    using look_keeps [OF assms(1), of k] look_fresh [OF assms(1), of e k] look_hit [OF assms(1), of k]
      look_room [OF assms(1), of e k k] assms(2) l by simp_all
  show "inv s'" "h \<longleftrightarrow> k \<in> keys s" "keys s' = (if h \<or> \<not> room e k s then keys s else insert k (keys s))"
    using assms(3) l t ins_inv [OF t(1,3)] ins_keys [OF t(1,3)]
    by (auto simp: offer_def split: bool.splits)
qed

text \<open>The digest of a chunk that was offered and had room is known from then on.\<close>

lemma offer_then_known:
  assumes "inv s" "fresh e s" "offer look ins e k s = Some (h, s1)" "room e k s"
  shows "fst (look k s1)"
  using offer_spec [OF assms(1-3)] look_hit assms(4) by auto

end

end
