(* ===== verification/Cache_Index.thy ===== *)
theory Cache_Index
  imports Hash_Table_Inv Dedup_Index
begin

text \<open>
  The chunk table of the receiving module as an index of digests: it keeps the contract
  \<open>dedup_index\<close>, as the table of the sending module does, so the lemmas on offered chunks hold
  for both ends.
\<close>

type_synonym cache_env = "u64 \<times> nat option \<times> bool \<times> byte list \<times> nat"

definition cache_keys :: "wcache \<Rightarrow> byte list set" where
  "cache_keys s = {k. \<exists>a cp. item_at s a = Some cp \<and> sha1 cp = k}"

definition cache_look :: "byte list \<Rightarrow> wcache \<Rightarrow> bool \<times> wcache" where
  "cache_look info s = (case get_hash_item info s of (r, s') \<Rightarrow> (r \<noteq> None, s'))"

definition cache_ins :: "cache_env \<Rightarrow> byte list \<Rightarrow> wcache \<Rightarrow> wcache option" where
  "cache_ins = (\<lambda>(mx, mem, ok, val, n) info s. if length info = SHA1SIZE
     then map_option snd (add_hash_info mx mem ok info val n s) else None)"

definition cache_fresh :: "cache_env \<Rightarrow> wcache \<Rightarrow> bool" where
  "cache_fresh = (\<lambda>(mx, mem, ok, val, n) s. \<forall>a. mem = Some a \<longrightarrow> a \<notin> dom (item_at s))"

definition cache_room :: "cache_env \<Rightarrow> byte list \<Rightarrow> wcache \<Rightarrow> bool" where
  "cache_room = (\<lambda>(mx, mem, ok, val, n) info s. \<not> mx < scast (hash_count s) \<and> mem \<noteq> None)"

lemma get_hash_item_keys:
  assumes "table_inv s" "get_hash_item info s = (r, s')"
  shows "(r \<noteq> None \<longleftrightarrow> info \<in> cache_keys s) \<and> cache_keys s' = cache_keys s \<and> dom (item_at s') = dom (item_at s)
    \<and> hash_count s' = hash_count s"
proof (cases "bucket_find info s")
  case None
  then show ?thesis
    using assms(2) bucket_find_iff [OF assms(1), of info] by (auto simp: get_hash_item_def cache_keys_def)
next
  case (Some a)
  with bucket_find_Some [OF assms(1)] obtain cp where a: "item_at s a = Some cp" "sha1 cp = info" by metis
  let ?cp = "cp\<lparr>refcnt := refcnt cp + ITEM_CITE_FIND, share_ref := share_ref cp + 1,
      flag_cache := (if flag_cache cp = 1 then 4 else flag_cache cp)\<rparr>"
  have s': "r = Some a" "item_at s' = (item_at s)(a \<mapsto> ?cp)" "hash_count s' = hash_count s"
    using Some a assms(2) by (auto simp: get_hash_item_def Let_def set_item_def)
  have "cache_keys s' = cache_keys s"
    unfolding cache_keys_def s'(2) using a by (simp, metis option.inject)
  moreover have "info \<in> cache_keys s" using a by (auto simp: cache_keys_def)
  ultimately show ?thesis using s' a by auto
qed

lemma cache_ins_spec:
  assumes inv: "table_inv s" and fr: "cache_fresh e s" and i: "cache_ins e k s = Some s'"
  shows "table_inv s'" "cache_keys s' = (if cache_room e k s then insert k (cache_keys s) else cache_keys s)"
proof -
  obtain mx mem ok val n where e: "e = (mx, mem, ok, val, n)" by (cases e) auto
  have fresh: "\<And>a. mem = Some a \<Longrightarrow> item_at s a = None" using fr by (auto simp: cache_fresh_def e)
  obtain res where h: "hash_new_item mx mem ok k val n s = Some (res, s')" and len: "length k = SHA1SIZE"
    using i by (auto simp: cache_ins_def e add_hash_info_def split: if_splits option.splits)
  show "table_inv s'" by (rule hash_new_item_inv [OF inv fresh h])
  show "cache_keys s' = (if cache_room e k s then insert k (cache_keys s) else cache_keys s)"
  proof (cases res)
    case None
    with h have "s' = s" "\<not> cache_room e k s"
      by (auto simp: hash_new_item_def cache_room_def e Let_def split: if_splits option.splits)
    then show ?thesis by simp
  next
    case (Some a)
    have r: "cache_room e k s"
      using h Some by (auto simp: hash_new_item_def cache_room_def e split: if_splits option.splits)
    show ?thesis
      using h [unfolded Some]
    proof (rule hash_new_item_Some)
      fix cp
      assume "mem = Some a" "item_at s' = (item_at s)(a \<mapsto> cp)" "sha1 cp = take SHA1SIZE k"
      then have "k' \<in> cache_keys s' \<longleftrightarrow> k' = k \<or> k' \<in> cache_keys s" for k'
        using len fresh [of a] unfolding cache_keys_def by (simp, metis option.distinct(1) option.inject)
      then show ?thesis using r by auto
    qed
  qed
qed

interpretation cdx: dedup_index table_inv cache_keys cache_look cache_ins cache_fresh cache_room
proof
  fix s :: wcache and k k' :: "byte list" and e :: cache_env
  assume inv: "table_inv s"
  obtain r t where g: "get_hash_item k s = (r, t)" by force
  note G = get_hash_item_keys [OF inv g]
  show "fst (cache_look k s) \<longleftrightarrow> k \<in> cache_keys s" using G by (simp add: cache_look_def g)
  show "table_inv (snd (cache_look k s)) \<and> cache_keys (snd (cache_look k s)) = cache_keys s"
    using G get_hash_item_inv [OF inv g] by (simp add: cache_look_def g)
  show "cache_fresh e (snd (cache_look k s)) = cache_fresh e s"
    using G by (simp add: cache_fresh_def cache_look_def g split: prod.splits)
  show "cache_room e k' (snd (cache_look k s)) = cache_room e k' s"
    using G by (simp add: cache_room_def cache_look_def g split: prod.splits)
qed (fact cache_ins_spec)+

text \<open>The digest of a chunk that was offered, and for which there was room, is found the next time.\<close>

lemmas offered_again = cdx.offer_then_known

end
