(* ===== verification/Send_Table.thy ===== *)
theory Send_Table
  imports Hash_Jen Dedup_Index
begin

text \<open>
  The chunk table of the sending module: \<open>send_module/hash_table.c\<close>. It keeps digests only,
  with a reference count that lookups raise and the bucket timer lowers; an item whose count
  has run out is deleted. Locks are the atomicity of the operations. Addresses are numbers;
  following a dangling pointer has no result (\<open>None\<close>).
\<close>

section \<open>State\<close>

record send_item =
  s_refcnt :: u32
  s_len :: u32
  s_sha1 :: "byte list"

record send_tab =
  s_hash_tab :: "nat \<Rightarrow> nat list"
  s_item_at :: "nat \<Rightarrow> send_item option"
  s_hash_count :: u32

definition SHA1SIZE_S :: nat where "SHA1SIZE_S = 20"
definition SEND_CITE_ADD :: u32 where "SEND_CITE_ADD = 6"
definition SEND_CITE_FIND :: u32 where "SEND_CITE_FIND = 6"

section \<open>Operations\<close>

definition send_hash :: "nat \<Rightarrow> nat \<Rightarrow> send_tab \<Rightarrow> send_tab" where
  "send_hash b a s = s\<lparr>s_hash_tab := (s_hash_tab s)(b := a # s_hash_tab s b)\<rparr>"

definition send_unhash :: "nat \<Rightarrow> nat \<Rightarrow> send_tab \<Rightarrow> send_tab" where
  "send_unhash b a s = s\<lparr>s_hash_tab := (s_hash_tab s)(b := remove1 a (s_hash_tab s b))\<rparr>"

text \<open>
  \<open>hash_new_item\<close>: \<open>hash_count\<close> is read into an \<open>int\<close> and compared with the 64-bit
  \<open>hash_max_count\<close>; \<open>mem\<close> is the result of \<open>kmem_cache_zalloc\<close>.
\<close>

definition send_hash_new_item :: "u64 \<Rightarrow> nat option \<Rightarrow> byte list \<Rightarrow> nat \<Rightarrow> send_tab \<Rightarrow> nat option \<times> send_tab" where
  "send_hash_new_item max_count mem info len_value s =
     (if max_count < scast (s_hash_count s) then (None, s)
      else case mem of None \<Rightarrow> (None, s)
      | Some a \<Rightarrow>
        (let cp = \<lparr>s_refcnt = SEND_CITE_ADD, s_len = of_nat len_value, s_sha1 = info\<rparr>;
             s1 = s\<lparr>s_item_at := (s_item_at s)(a \<mapsto> cp), s_hash_count := s_hash_count s + 1\<rparr>
         in (Some a, send_hash (bucket_of (s_sha1 cp)) a s1)))"

definition send_add_hash_info :: "u64 \<Rightarrow> nat option \<Rightarrow> byte list \<Rightarrow> nat \<Rightarrow> send_tab \<Rightarrow> int \<times> send_tab" where
  "send_add_hash_info max_count mem info len_value s =
     (case send_hash_new_item max_count mem info len_value s of (None, s') \<Rightarrow> (-1, s') | (Some a, s') \<Rightarrow> (0, s'))"

definition send_find :: "byte list \<Rightarrow> send_tab \<Rightarrow> nat option" where
  "send_find info s =
     List.find (\<lambda>a. \<exists>cp. s_item_at s a = Some cp \<and> s_sha1 cp = info) (s_hash_tab s (bucket_of info))"

definition send_get_hash_item :: "byte list \<Rightarrow> send_tab \<Rightarrow> nat option \<times> send_tab" where
  "send_get_hash_item info s =
     (case send_find info s of None \<Rightarrow> (None, s)
      | Some a \<Rightarrow> (case s_item_at s a of None \<Rightarrow> (None, s)
        | Some cp \<Rightarrow>
          (Some a, s\<lparr>s_item_at := (s_item_at s)(a \<mapsto> cp\<lparr>s_refcnt := s_refcnt cp + SEND_CITE_FIND\<rparr>)\<rparr>)))"

text \<open>\<open>hash_del_item\<close> and \<open>hash_item_expire\<close> (not called).\<close>

definition send_hash_del_item :: "nat \<Rightarrow> send_tab \<Rightarrow> send_tab option" where
  "send_hash_del_item a s =
     (case s_item_at s a of None \<Rightarrow> None
      | Some cp \<Rightarrow>
        (let r = s_refcnt cp + 1; b = bucket_of (s_sha1 cp);
             put = (\<lambda>r s. s\<lparr>s_item_at := (s_item_at s)(a \<mapsto> cp\<lparr>s_refcnt := r\<rparr>)\<rparr>)
         in if r = 2 then
              let s1 = send_unhash b a (put r s) in
              if r = 1 then Some (s1\<lparr>s_item_at := (s_item_at s1)(a := None), s_hash_count := s_hash_count s - 1\<rparr>)
              else Some (put (r - 1) (send_hash b a s1))
            else Some (put (r - 1) s)))"

definition send_hash_item_expire :: "nat \<Rightarrow> send_tab \<Rightarrow> send_tab option" where
  "send_hash_item_expire a s =
     (case s_item_at s a of None \<Rightarrow> None
      | Some cp \<Rightarrow>
        if s_refcnt cp = 1 then send_hash_del_item a s
        else Some (s\<lparr>s_item_at := (s_item_at s)(a \<mapsto> cp\<lparr>s_refcnt := s_refcnt cp - 1\<rparr>)\<rparr>))"

text \<open>Unlink, count and free one entry.\<close>

definition send_drop :: "nat \<Rightarrow> nat \<Rightarrow> send_tab \<Rightarrow> send_tab" where
  "send_drop b a s =
     (send_unhash b a s)\<lparr>s_hash_count := s_hash_count s - 1, s_item_at := (s_item_at s)(a := None)\<rparr>"

definition send_clear_step :: "nat \<Rightarrow> send_tab option \<Rightarrow> nat \<Rightarrow> send_tab option" where
  "send_clear_step b acc a =
     (case acc of None \<Rightarrow> None
      | Some s \<Rightarrow>
        (case s_item_at s a of None \<Rightarrow> None
         | Some cp \<Rightarrow>
           if sint (s_refcnt cp) \<le> 1 then Some (send_drop b a s)
           else Some (s\<lparr>s_item_at := (s_item_at s)(a \<mapsto> cp\<lparr>s_refcnt := s_refcnt cp - 1\<rparr>)\<rparr>)))"

definition send_bucket_clear_item :: "nat \<Rightarrow> send_tab \<Rightarrow> send_tab option" where
  "send_bucket_clear_item b s = foldl (send_clear_step b) (Some s) (s_hash_tab s b)"

definition send_flush_step :: "nat \<Rightarrow> send_tab option \<Rightarrow> nat \<Rightarrow> send_tab option" where
  "send_flush_step b acc a =
     (case acc of None \<Rightarrow> None
      | Some s \<Rightarrow> (case s_item_at s a of None \<Rightarrow> None | Some cp \<Rightarrow> Some (send_drop b a s)))"

definition send_flush_bucket :: "send_tab option \<Rightarrow> nat \<Rightarrow> send_tab option" where
  "send_flush_bucket acc b =
     (case acc of None \<Rightarrow> None | Some s \<Rightarrow> foldl (send_flush_step b) (Some s) (s_hash_tab s b))"

definition send_hash_flush :: "send_tab \<Rightarrow> send_tab option" where
  "send_hash_flush s = foldl send_flush_bucket (Some s) [0..<unat hash_tab_size]"

section \<open>Invariant\<close>

text \<open>The buckets hold exactly the allocated items, each in the bucket of its digest, once.\<close>

definition send_inv :: "send_tab \<Rightarrow> bool" where
  "send_inv s \<longleftrightarrow> finite (dom (s_item_at s)) \<and> s_hash_count s = of_nat (card (dom (s_item_at s)))
     \<and> (\<forall>b. distinct (s_hash_tab s b))
     \<and> (\<forall>a b. a \<in> set (s_hash_tab s b) \<longleftrightarrow> (\<exists>cp. s_item_at s a = Some cp \<and> bucket_of (s_sha1 cp) = b))"

definition send_keys :: "send_tab \<Rightarrow> byte list set" where
  "send_keys s = s_sha1 ` ran (s_item_at s)"

lemma send_keys_iff: "k \<in> send_keys s \<longleftrightarrow> (\<exists>a cp. s_item_at s a = Some cp \<and> s_sha1 cp = k)"
  by (auto simp: send_keys_def ran_def)

lemma send_inv_link: "send_inv s \<Longrightarrow> a \<in> set (s_hash_tab s b) \<longleftrightarrow> (\<exists>cp. s_item_at s a = Some cp \<and> bucket_of (s_sha1 cp) = b)"
  by (simp add: send_inv_def)

lemma send_find_Some:
  assumes "send_find info s = Some a"
  shows "a \<in> set (s_hash_tab s (bucket_of info)) \<and> (\<exists>cp. s_item_at s a = Some cp \<and> s_sha1 cp = info)"
  using assms unfolding send_find_def find_Some_iff by (metis nth_mem)

lemma send_find_None:
  assumes "send_inv s"
  shows "send_find info s = None \<longleftrightarrow> info \<notin> send_keys s"
  using send_inv_link [OF assms]
  by (auto simp: send_find_def find_None_iff send_keys_iff)

lemma send_upd_inv:
  assumes "send_inv s" "s_item_at s a = Some cp" "s_sha1 cp' = s_sha1 cp"
  shows "send_inv (s\<lparr>s_item_at := (s_item_at s)(a \<mapsto> cp')\<rparr>)"
    "send_keys (s\<lparr>s_item_at := (s_item_at s)(a \<mapsto> cp')\<rparr>) = send_keys s"
proof -
  have d: "insert a (dom (s_item_at s)) = dom (s_item_at s)" using assms(2) by auto
  show "send_inv (s\<lparr>s_item_at := (s_item_at s)(a \<mapsto> cp')\<rparr>)"
    using assms by (auto simp: send_inv_def d)
  show "send_keys (s\<lparr>s_item_at := (s_item_at s)(a \<mapsto> cp')\<rparr>) = send_keys s"
    unfolding set_eq_iff send_keys_iff using assms(2,3) by (simp, metis option.inject)
qed

lemma send_get_inv:
  assumes "send_inv s" "send_get_hash_item info s = (r, s')"
  shows "send_inv s'" "send_keys s' = send_keys s" "r \<noteq> None \<longleftrightarrow> info \<in> send_keys s"
    "dom (s_item_at s') = dom (s_item_at s)" "s_hash_count s' = s_hash_count s" "s_hash_tab s' = s_hash_tab s"
proof -
  show "r \<noteq> None \<longleftrightarrow> info \<in> send_keys s"
  proof (cases "send_find info s")
    case None
    then show ?thesis using assms(2) send_find_None [OF assms(1), of info] by (auto simp: send_get_hash_item_def)
  next
    case (Some a)
    then obtain cp where "s_item_at s a = Some cp" using send_find_Some by blast
    with Some assms(2) have "r = Some a" by (simp add: send_get_hash_item_def)
    then show ?thesis using Some send_find_None [OF assms(1), of info] by simp
  qed
  show "send_inv s'" "send_keys s' = send_keys s" "dom (s_item_at s') = dom (s_item_at s)"
    "s_hash_count s' = s_hash_count s" "s_hash_tab s' = s_hash_tab s"
    using assms send_upd_inv [OF assms(1)] by (auto simp: send_get_hash_item_def split: option.splits if_splits)
qed

lemma send_add_inv:
  assumes "send_inv s" "\<And>a. mem = Some a \<Longrightarrow> s_item_at s a = None" "send_add_hash_info mx mem info n s = (r, s')"
  shows "send_inv s'" "send_keys s' = (if r = 0 then insert info (send_keys s) else send_keys s)"
    "r = 0 \<longleftrightarrow> \<not> mx < scast (s_hash_count s) \<and> mem \<noteq> None"
proof -
  show r: "r = 0 \<longleftrightarrow> \<not> mx < scast (s_hash_count s) \<and> mem \<noteq> None"
    using assms(3) by (auto simp: send_add_hash_info_def send_hash_new_item_def Let_def split: if_splits option.splits)
  show "send_inv s'"
    using assms by (auto simp: send_add_hash_info_def send_hash_new_item_def Let_def send_hash_def send_inv_def
        domIff split: if_splits option.splits)
  show "send_keys s' = (if r = 0 then insert info (send_keys s) else send_keys s)"
    using assms(2,3) by (auto simp: send_add_hash_info_def send_hash_new_item_def Let_def send_hash_def send_keys_def
        split: if_splits option.splits)
qed

section \<open>The bucket timer\<close>

lemma remove1_keeps: "set xs - {a} \<subseteq> set (remove1 a xs)"
  by (induction xs) auto

lemma send_drop_inv:
  assumes "send_inv s" "a \<in> set (s_hash_tab s b)"
  shows "send_inv (send_drop b a s)"
proof -
  from assms obtain cp where it: "s_item_at s a = Some cp" and b: "bucket_of (s_sha1 cp) = b"
    by (auto simp: send_inv_link)
  let ?D = "dom (s_item_at s)"
  have "a \<in> ?D" "finite ?D" using assms(1) it by (auto simp: send_inv_def)
  then have "card ?D = Suc (card (?D - {a}))" by (rule card.remove [rotated])
  then have "s_hash_count s - 1 = of_nat (card (?D - {a}))" using assms(1) by (simp add: send_inv_def)
  moreover have "distinct (s_hash_tab (send_drop b a s) c)" for c
    using assms(1) by (simp add: send_inv_def send_drop_def send_unhash_def distinct_remove1)
  moreover have "x \<in> set (s_hash_tab (send_drop b a s) c) \<longleftrightarrow>
      (\<exists>y. s_item_at (send_drop b a s) x = Some y \<and> bucket_of (s_sha1 y) = c)" for x c
    using assms(1) it b by (auto simp: send_inv_def send_drop_def send_unhash_def)
  ultimately show ?thesis using \<open>finite ?D\<close>
    unfolding send_inv_def by (simp add: send_drop_def send_unhash_def)
qed

text \<open>The item that a run of the timer leaves.\<close>

definition aged :: "send_item \<Rightarrow> send_item option" where
  "aged cp = (if sint (s_refcnt cp) \<le> 1 then None else Some (cp\<lparr>s_refcnt := s_refcnt cp - 1\<rparr>))"

lemma send_clear_step_Some:
  assumes "send_inv s" "a \<in> set (s_hash_tab s b)"
  obtains cp s' where "s_item_at s a = Some cp" "send_clear_step b (Some s) a = Some s'" "send_inv s'"
    "s_item_at s' = (s_item_at s)(a := aged cp)" "set (s_hash_tab s b) - {a} \<subseteq> set (s_hash_tab s' b)"
proof -
  from assms obtain cp where it: "s_item_at s a = Some cp" and b: "bucket_of (s_sha1 cp) = b"
    by (auto simp: send_inv_link)
  show ?thesis
  proof (cases "sint (s_refcnt cp) \<le> 1")
    case True
    then show ?thesis using it send_drop_inv [OF assms]
      by (intro that [OF it, of "send_drop b a s"])
        (simp_all add: send_clear_step_def send_drop_def send_unhash_def aged_def remove1_keeps)
  next
    case False
    then show ?thesis using it send_upd_inv(1) [OF assms(1) it]
      by (intro that [OF it, of "s\<lparr>s_item_at := (s_item_at s)(a \<mapsto> cp\<lparr>s_refcnt := s_refcnt cp - 1\<rparr>)\<rparr>"])
        (auto simp: send_clear_step_def aged_def)
  qed
qed

lemma send_clear_loop:
  assumes "send_inv s" "distinct xs" "set xs \<subseteq> set (s_hash_tab s b)"
  shows "\<exists>s'. foldl (send_clear_step b) (Some s) xs = Some s' \<and> send_inv s'
    \<and> s_item_at s' = (\<lambda>a. if a \<in> set xs then Option.bind (s_item_at s a) aged else s_item_at s a)"
  using assms
proof (induction xs arbitrary: s)
  case (Cons a xs)
  then have "a \<in> set (s_hash_tab s b)" by simp
  from send_clear_step_Some [OF Cons.prems(1) this] obtain cp s1 where 1: "s_item_at s a = Some cp"
    "send_clear_step b (Some s) a = Some s1" "send_inv s1" "s_item_at s1 = (s_item_at s)(a := aged cp)"
    "set (s_hash_tab s b) - {a} \<subseteq> set (s_hash_tab s1 b)" .
  from Cons.IH [OF 1(3)] Cons.prems(2,3) 1(5) obtain s' where
    "foldl (send_clear_step b) (Some s1) xs = Some s'" "send_inv s'"
    "s_item_at s' = (\<lambda>a. if a \<in> set xs then Option.bind (s_item_at s1 a) aged else s_item_at s1 a)" by auto
  then show ?case using 1 Cons.prems(2) by (auto simp: fun_eq_iff)
qed simp

lemma send_bucket_clear_spec:
  assumes "send_inv s"
  shows "\<exists>s'. send_bucket_clear_item b s = Some s' \<and> send_inv s'
    \<and> s_item_at s' = (\<lambda>a. case s_item_at s a of None \<Rightarrow> None
        | Some cp \<Rightarrow> if bucket_of (s_sha1 cp) = b then aged cp else Some cp)"
proof -
  obtain s' where "send_bucket_clear_item b s = Some s'" "send_inv s'"
    "s_item_at s' = (\<lambda>a. if a \<in> set (s_hash_tab s b) then Option.bind (s_item_at s a) aged else s_item_at s a)"
    using send_clear_loop [OF assms, of "s_hash_tab s b" b] assms by (auto simp: send_bucket_clear_item_def send_inv_def)
  then show ?thesis by (auto simp: fun_eq_iff send_inv_link [OF assms] split: option.splits)
qed

lemma send_flush_step_Some:
  assumes "send_inv s" "a \<in> set (s_hash_tab s b)"
  shows "send_flush_step b (Some s) a = Some (send_drop b a s)"
  using assms by (auto simp: send_flush_step_def send_inv_link)

lemma send_flush_loop:
  assumes "send_inv s" "distinct xs" "set xs \<subseteq> set (s_hash_tab s b)"
  shows "\<exists>s'. foldl (send_flush_step b) (Some s) xs = Some s' \<and> send_inv s'
    \<and> s_item_at s' = (\<lambda>a. if a \<in> set xs then None else s_item_at s a)"
  using assms
proof (induction xs arbitrary: s)
  case (Cons a xs)
  then have a: "a \<in> set (s_hash_tab s b)" by simp
  have "set xs \<subseteq> set (s_hash_tab (send_drop b a s) b)"
    using Cons.prems remove1_keeps [of "s_hash_tab s b" a] by (auto simp: send_drop_def send_unhash_def)
  with Cons.IH [OF send_drop_inv [OF Cons.prems(1) a]] Cons.prems(2) obtain s' where
    "foldl (send_flush_step b) (Some (send_drop b a s)) xs = Some s'" "send_inv s'"
    "s_item_at s' = (\<lambda>x. if x \<in> set xs then None else s_item_at (send_drop b a s) x)" by auto
  then show ?case using send_flush_step_Some [OF Cons.prems(1) a]
    by (auto simp: fun_eq_iff send_drop_def)
qed simp

lemma send_flush_buckets:
  assumes "send_inv s"
  shows "\<exists>s'. foldl send_flush_bucket (Some s) bs = Some s' \<and> send_inv s'
    \<and> s_item_at s' = (\<lambda>a. case s_item_at s a of None \<Rightarrow> None
        | Some cp \<Rightarrow> if bucket_of (s_sha1 cp) \<in> set bs then None else Some cp)"
  using assms
proof (induction bs arbitrary: s)
  case Nil
  then show ?case by (auto simp: fun_eq_iff split: option.splits)
next
  case (Cons b bs)
  from send_flush_loop [OF Cons.prems, of "s_hash_tab s b" b] Cons.prems obtain s1 where
    1: "send_flush_bucket (Some s) b = Some s1" "send_inv s1"
    "s_item_at s1 = (\<lambda>a. if a \<in> set (s_hash_tab s b) then None else s_item_at s a)"
    by (auto simp: send_flush_bucket_def send_inv_def)
  have "s_item_at s1 a = (case s_item_at s a of None \<Rightarrow> None | Some cp \<Rightarrow> if bucket_of (s_sha1 cp) = b then None else Some cp)"
    for a
    by (auto simp: 1(3) send_inv_link [OF Cons.prems] split: option.splits)
  then have "(case s_item_at s1 a of None \<Rightarrow> None | Some cp \<Rightarrow> if bucket_of (s_sha1 cp) \<in> set bs then None else Some cp)
      = (case s_item_at s a of None \<Rightarrow> None | Some cp \<Rightarrow> if bucket_of (s_sha1 cp) \<in> set (b # bs) then None else Some cp)" for a
    by (simp split: option.split)
  with Cons.IH [OF 1(2)] show ?case by (simp add: 1(1))
qed

section \<open>The interface\<close>

text \<open>The outside of an insertion: the count limit, the allocator's answer and the chunk length.\<close>

type_synonym send_env = "u64 \<times> nat option \<times> nat"

definition send_look :: "byte list \<Rightarrow> send_tab \<Rightarrow> bool \<times> send_tab" where
  "send_look info s = (case send_get_hash_item info s of (r, s') \<Rightarrow> (r \<noteq> None, s'))"

definition send_ins :: "send_env \<Rightarrow> byte list \<Rightarrow> send_tab \<Rightarrow> send_tab option" where
  "send_ins = (\<lambda>(mx, mem, n) info s. Some (snd (send_add_hash_info mx mem info n s)))"

definition send_fresh :: "send_env \<Rightarrow> send_tab \<Rightarrow> bool" where
  "send_fresh = (\<lambda>(mx, mem, n) s. \<forall>a. mem = Some a \<longrightarrow> a \<notin> dom (s_item_at s))"

definition send_room :: "send_env \<Rightarrow> byte list \<Rightarrow> send_tab \<Rightarrow> bool" where
  "send_room = (\<lambda>(mx, mem, n) info s. \<not> mx < scast (s_hash_count s) \<and> mem \<noteq> None)"

interpretation sdx: dedup_index send_inv send_keys send_look send_ins send_fresh send_room
proof
  fix s :: send_tab and k :: "byte list" and k' :: "byte list" and e :: send_env
  assume inv: "send_inv s"
  obtain r t where g: "send_get_hash_item k s = (r, t)" by force
  note G = send_get_inv [OF inv g]
  show "fst (send_look k s) \<longleftrightarrow> k \<in> send_keys s" using G(3) by (simp add: send_look_def g)
  show "send_inv (snd (send_look k s)) \<and> send_keys (snd (send_look k s)) = send_keys s"
    using G(1,2) by (simp add: send_look_def g)
  show "send_fresh e (snd (send_look k s)) = send_fresh e s"
    using G(4) by (simp add: send_fresh_def send_look_def g split: prod.splits)
next
  fix s :: send_tab and k k' :: "byte list" and e :: send_env
  assume inv: "send_inv s"
  obtain r t where g: "send_get_hash_item k' s = (r, t)" by force
  show "send_room e k (snd (send_look k' s)) = send_room e k s"
    using send_get_inv(5) [OF inv g] by (simp add: send_room_def send_look_def g split: prod.splits)
next
  fix s s' :: send_tab and k :: "byte list" and e :: send_env
  assume inv: "send_inv s" and fr: "send_fresh e s" and i: "send_ins e k s = Some s'"
  obtain mx mem n where e: "e = (mx, mem, n)" by (cases e) auto
  obtain r where a: "send_add_hash_info mx mem k n s = (r, s')"
    using i by (cases "send_add_hash_info mx mem k n s") (simp add: send_ins_def e)
  have "\<And>a. mem = Some a \<Longrightarrow> s_item_at s a = None" using fr by (auto simp: send_fresh_def e)
  note A = send_add_inv [OF inv this a]
  show "send_inv s'" using A(1) by simp
  show "send_keys s' = (if send_room e k s then insert k (send_keys s) else send_keys s)"
    using A(2,3) by (simp add: send_room_def e)
qed

section \<open>Reachable tables\<close>

inductive send_reach :: "send_tab \<Rightarrow> bool" where
  init: "send_reach \<lparr>s_hash_tab = (\<lambda>_. []), s_item_at = Map.empty, s_hash_count = 0\<rparr>"
| get: "send_reach s \<Longrightarrow> send_get_hash_item info s = (r, s') \<Longrightarrow> send_reach s'"
| add: "send_reach s \<Longrightarrow> (\<And>a. mem = Some a \<Longrightarrow> s_item_at s a = None) \<Longrightarrow>
     send_add_hash_info mx mem info n s = (rc, s') \<Longrightarrow> send_reach s'"
| clear: "send_reach s \<Longrightarrow> send_bucket_clear_item b s = Some s' \<Longrightarrow> send_reach s'"

lemma send_reach_inv: "send_reach s \<Longrightarrow> send_inv s"
proof (induction rule: send_reach.induct)
  case init
  show ?case by (simp add: send_inv_def)
next
  case (get s info r s')
  show ?case by (rule send_get_inv(1) [OF get.IH get.hyps(2)])
next
  case (add s mem mx info n rc s')
  show ?case by (rule send_add_inv(1) [OF add.IH add.hyps(2,3)])
next
  case (clear s b s')
  then show ?case using send_bucket_clear_spec [OF clear.IH, of b] by auto
qed

lemma send_flush_empties:
  assumes "send_inv s"
  shows "\<exists>s'. send_hash_flush s = Some s' \<and> s_item_at s' = Map.empty \<and> s_hash_count s' = 0"
proof -
  obtain s' where s': "send_hash_flush s = Some s'" "send_inv s'" "s_item_at s' = (\<lambda>a. case s_item_at s a of None \<Rightarrow> None
      | Some cp \<Rightarrow> if bucket_of (s_sha1 cp) \<in> set [0..<unat hash_tab_size] then None else Some cp)"
    using send_flush_buckets [OF assms] unfolding send_hash_flush_def by blast
  have "bucket_of k \<in> set [0..<unat hash_tab_size]" for k
    using bucket_of_less [of k] by (simp add: hash_tab_size_val)
  then have "s_item_at s' = Map.empty" unfolding s'(3) by (auto simp: fun_eq_iff split: option.splits)
  then show ?thesis using s'(1,2) by (auto simp: send_inv_def)
qed

text \<open>
  (C17) The sending table, in every state that lookups, insertions and timer runs reach:
  \<open>get_hash_item\<close> finds a digest if and only if an item has it, a timer run of any bucket
  completes, \<open>hash_count\<close> is the number of items, and \<open>hash_flush\<close> completes and leaves
  no item and a zero count.
\<close>

theorem send_table_sound:
  assumes "send_reach s"
  shows "(fst (send_get_hash_item info s) \<noteq> None \<longleftrightarrow> (\<exists>a cp. s_item_at s a = Some cp \<and> s_sha1 cp = info))
    \<and> (\<exists>s'. send_bucket_clear_item b s = Some s')
    \<and> s_hash_count s = of_nat (card (dom (s_item_at s)))
    \<and> (\<exists>s'. send_hash_flush s = Some s' \<and> s_item_at s' = Map.empty \<and> s_hash_count s' = 0)"
proof (intro conjI)
  have inv: "send_inv s" by (rule send_reach_inv [OF assms])
  show "fst (send_get_hash_item info s) \<noteq> None \<longleftrightarrow> (\<exists>a cp. s_item_at s a = Some cp \<and> s_sha1 cp = info)"
    using send_get_inv(3) [OF inv, of info] by (metis prod.collapse send_keys_iff)
  show "\<exists>s'. send_bucket_clear_item b s = Some s'" using send_bucket_clear_spec [OF inv] by blast
  show "s_hash_count s = of_nat (card (dom (s_item_at s)))" using inv by (simp add: send_inv_def)
  show "\<exists>s'. send_hash_flush s = Some s' \<and> s_item_at s' = Map.empty \<and> s_hash_count s' = 0"
    by (rule send_flush_empties [OF inv])
qed

section \<open>How long an item lives\<close>

fun clear_times :: "nat \<Rightarrow> nat \<Rightarrow> send_tab \<Rightarrow> send_tab option" where
  "clear_times 0 b s = Some s"
| "clear_times (Suc n) b s = (case send_bucket_clear_item b s of None \<Rightarrow> None | Some s' \<Rightarrow> clear_times n b s')"

lemma sint_dec:
  fixes r :: u32
  assumes "1 < sint r"
  shows "sint (r - 1) = sint r - 1"
proof -
  have "sint r < 2 ^ 31" using sint_lt [of r] by simp
  with assms have "-(2 ^ 31) \<le> sint r - 1 \<and> sint r - 1 < 2 ^ 31" by simp
  then show ?thesis using signed_take_bit_int_eq_self [of 31 "sint r - 1"]
    by (simp add: sint_sbintrunc' sint_word_ariths)
qed

lemma clear_times_gone:
  assumes "send_inv s" "s_item_at s a = None"
  shows "\<exists>s'. clear_times n b s = Some s' \<and> s_item_at s' a = None"
  using assms
proof (induction n arbitrary: s)
  case (Suc n)
  then show ?case using send_bucket_clear_spec [OF Suc.prems(1), of b] by fastforce
qed simp

lemma clear_times_spec:
  assumes "send_inv s" "s_item_at s a = Some cp" "bucket_of (s_sha1 cp) = b" "1 \<le> sint (s_refcnt cp)"
  shows "\<exists>s'. clear_times n b s = Some s' \<and> s_item_at s' a =
    (if int n < sint (s_refcnt cp) then Some (cp\<lparr>s_refcnt := s_refcnt cp - of_nat n\<rparr>) else None)"
  using assms
proof (induction n arbitrary: s cp)
  case (Suc n)
  obtain s1 where 1: "send_bucket_clear_item b s = Some s1" "send_inv s1" "s_item_at s1 a = aged cp"
    using send_bucket_clear_spec [OF Suc.prems(1), of b] Suc.prems(2,3) by auto
  show ?case
  proof (cases "sint (s_refcnt cp) \<le> 1")
    case True
    then show ?thesis using 1 clear_times_gone [OF 1(2)] by (simp add: aged_def)
  next
    case False
    then have "sint (s_refcnt cp - 1) = sint (s_refcnt cp) - 1" by (simp add: sint_dec)
    with False Suc.IH [OF 1(2), of "cp\<lparr>s_refcnt := s_refcnt cp - 1\<rparr>"] Suc.prems show ?thesis
      using 1 by (auto simp: aged_def diff_diff_eq)
  qed
qed simp

text \<open>
  (C22) An item that nobody looks up lives for exactly as many timer runs of its bucket as its
  reference count says: with count \<open>r\<close>, it is there with count \<open>r - n\<close> after \<open>n < r\<close> runs
  and gone after \<open>r\<close> or more. A new item has the count 6.
\<close>

theorem send_lifetime:
  assumes "send_reach s" "s_item_at s a = Some cp" "1 \<le> sint (s_refcnt cp)"
  shows "\<exists>s'. clear_times n (bucket_of (s_sha1 cp)) s = Some s' \<and> s_item_at s' a =
    (if int n < sint (s_refcnt cp) then Some (cp\<lparr>s_refcnt := s_refcnt cp - of_nat n\<rparr>) else None)"
  by (rule clear_times_spec [OF send_reach_inv [OF assms(1)] assms(2) refl assms(3)])

end
