(* ===== verification/Nf_Out.thy ===== *)
theory Nf_Out
  imports Send_Table Partition Packet
begin

text \<open>
  The packet path of the sending module: \<open>send_module/nf_out.c\<close>. The netfilter hook
  \<open>nf_out\<close> cuts the payload of an outgoing packet into chunks (\<open>get_partition\<close>), offers each
  chunk to the table (\<open>build_hash\<close>, \<open>hand_hash\<close>), collects the known ones in
  \<open>hand_list\<close> and plans the shorter payload (\<open>replace_skb\<close>: the copying itself is
  commented out in the source, the positions are computed and the list is freed).

  \<open>ssha_live\<close> and \<open>srep_live\<close> count the objects of the caches \<open>sha_data\<close> and
  \<open>replace_data\<close> in use. Arguments for the outside: fifo, digest and allocators.
\<close>

section \<open>State\<close>

record send_state =
  stab :: send_tab
  shead :: "(nat \<times> nat \<times> byte list) list"
  new_len :: u64
  ssum_num :: u64
  ssave_num :: u64
  sskb_num :: u64
  ssha_live :: nat
  srep_live :: nat

record send_chunk_env =
  sc_dst :: bool
  sc_gen :: int
  sc_item :: "nat option"
  sc_rep :: bool

definition MTU :: u64 where "MTU = 1460"

section \<open>Chunks\<close>

definition send_hand_hash :: "u64 \<Rightarrow> send_chunk_env \<Rightarrow> nat \<Rightarrow> byte list \<Rightarrow> send_state \<Rightarrow> bool \<times> send_state" where
  "send_hand_hash mx e len dst s =
     (case send_get_hash_item dst (stab s) of
        (None, t) \<Rightarrow>
          (False, s\<lparr>stab := snd (send_add_hash_info mx (sc_item e) dst len t), ssum_num := ssum_num s + of_nat len\<rparr>)
      | (Some a, t) \<Rightarrow>
          (True, s\<lparr>stab := t, ssum_num := ssum_num s + of_nat len,
                  ssave_num := ssave_num s + (of_nat len - of_nat (SHALEN + 2)),
                  new_len := new_len s - (of_nat len - of_nat (SHALEN + 2))\<rparr>))"

definition build_hash ::
  "u64 \<Rightarrow> (byte list \<Rightarrow> byte list) \<Rightarrow> send_chunk_env \<Rightarrow> byte list \<Rightarrow> nat \<Rightarrow> nat \<Rightarrow> send_state \<Rightarrow> send_state option" where
  "build_hash mx sha e src st len s =
     (if len \<le> SHALEN + 2 then Some s
      else if \<not> sc_dst e then None
      else let s1 = s\<lparr>ssha_live := ssha_live s + 1\<rparr> in
        if sc_gen e \<noteq> 0 then Some s1
        else if length src < st + len then None
        else let dst = sha (segment src st (st + len - 1)) in
          case send_hand_hash mx e len dst s1 of
            (False, s2) \<Rightarrow> Some (s2\<lparr>ssha_live := ssha_live s2 - 1\<rparr>)
          | (True, s2) \<Rightarrow>
              if \<not> sc_rep e then None
              else Some (s2\<lparr>shead := shead s2 @ [(st, st + len - 1, dst)], srep_live := srep_live s2 + 1,
                           ssha_live := ssha_live s2 - 1\<rparr>))"

definition get_partition ::
  "u64 \<Rightarrow> (byte list \<Rightarrow> byte list) \<Rightarrow> 'f kfifo_ops \<Rightarrow> hash_params \<Rightarrow> (nat \<Rightarrow> send_chunk_env) \<Rightarrow> byte list \<Rightarrow> int \<Rightarrow>
   send_state \<Rightarrow> send_state option" where
  "get_partition mx sha q g env data len s =
     partition_run q g (\<lambda>st en. build_hash mx sha (env st) data st (en - st + 1)) data len s"

section \<open>The new payload\<close>

text \<open>The loop of \<open>replace_skb\<close> over the known chunks, with \<open>index\<close> and \<open>last\<close>.\<close>

fun replace_loop :: "(nat \<times> nat \<times> byte list) list \<Rightarrow> u64 \<Rightarrow> u64 \<Rightarrow> (u64 \<times> u64) option" where
  "replace_loop [] index lst = Some (index, lst)"
| "replace_loop ((st, en, d) # xs) index lst =
     (if lst < of_nat st then replace_loop xs (index + (of_nat st - lst) + 20) (of_nat en + 1)
      else if of_nat st = lst then replace_loop xs (index + 20) (of_nat en + 1)
      else None)"

text \<open>\<open>mtu_ok\<close> and \<open>big_ok\<close> are the answers of the two allocators. The result is the final \<open>index\<close>.\<close>

definition replace_skb :: "bool \<Rightarrow> bool \<Rightarrow> u64 \<Rightarrow> u64 \<Rightarrow> send_state \<Rightarrow> (u64 \<times> send_state) option" where
  "replace_skb mtu_ok big_ok len old_len s =
     (if \<not> (if len \<le> MTU then mtu_ok else big_ok) then None
      else case replace_loop (shead s) 0 0 of None \<Rightarrow> None
      | Some (index, lst) \<Rightarrow>
        Some (if lst \<noteq> old_len then index + (old_len - lst) else index,
              s\<lparr>shead := [], srep_live := srep_live s - length (shead s)\<rparr>))"

section \<open>The hook\<close>

definition NF_ACCEPT :: nat where "NF_ACCEPT = 1"

definition peer_host :: "byte list" where "peer_host = [192, 168, 109, 1]"

definition nf_out ::
  "u64 \<Rightarrow> (byte list \<Rightarrow> byte list) \<Rightarrow> 'f kfifo_ops \<Rightarrow> hash_params \<Rightarrow> (nat \<Rightarrow> send_chunk_env) \<Rightarrow> bool \<Rightarrow> bool \<Rightarrow>
   byte list \<Rightarrow> send_state \<Rightarrow> (nat \<times> send_state) option" where
  "nf_out mx sha q g env mtu_ok big_ok p s =
     (case byte_at p 9 of None \<Rightarrow> None
      | Some protocol \<Rightarrow>
        if protocol \<noteq> 6 then Some (NF_ACCEPT, s)
        else case ip_ihl p of None \<Rightarrow> None
        | Some ihl \<Rightarrow>
          if length p < ihl + 4 \<or> length p < 20 then None
          else if segment p 16 19 \<noteq> peer_host then Some (NF_ACCEPT, s)
          else case skb_payload p of None \<Rightarrow> None
          | Some (off, data_len) \<Rightarrow>
            (case get_partition mx sha q g env (drop off p) data_len (s\<lparr>shead := [], new_len := word_of_int data_len\<rparr>) of
               None \<Rightarrow> None
             | Some s1 \<Rightarrow>
               let s2 = s1\<lparr>sskb_num := sskb_num s1 + 1\<rparr> in
               if shead s2 = [] then Some (NF_ACCEPT, s2)
               else map_option (\<lambda>(_, s3). (NF_ACCEPT, s3))
                      (replace_skb mtu_ok big_ok (new_len s2) (word_of_int data_len) s2)))"

section \<open>Consecutive chunks\<close>

fun consec :: "nat \<Rightarrow> (nat \<times> nat) list \<Rightarrow> nat \<Rightarrow> bool" where
  "consec st [] n \<longleftrightarrow> st = n"
| "consec st ((a, b) # cs) n \<longleftrightarrow> a = st \<and> st \<le> b \<and> b < n \<and> consec (Suc b) cs n"

lemma chunks_from_consec:
  assumes "sorted_wrt (<) cs" "\<forall>c \<in> set cs. st \<le> c \<and> c < n" "st \<le> n"
  shows "consec st (chunks_from st cs n) n"
  using assms by (induction cs arbitrary: st) (auto simp: Suc_leI)

lemma payload_chunks_consec: "consec 0 (payload_chunks g p n) n"
proof -
  have "sorted_wrt (<) (kept_cuts g p n)" by (rule sorted_wrt_mono_rel [OF _ kept_cuts_sorted]) auto
  then show ?thesis unfolding payload_chunks_def using kept_cuts_less by (intro chunks_from_consec) auto
qed

section \<open>The plan of the new payload\<close>

text \<open>Replaced pieces in ascending order from position \<open>p\<close>, without overlap, up to \<open>n\<close>.\<close>

fun ordered :: "nat \<Rightarrow> (nat \<times> nat \<times> byte list) list \<Rightarrow> nat \<Rightarrow> bool" where
  "ordered p [] n \<longleftrightarrow> p \<le> n"
| "ordered p ((st, en, d) # xs) n \<longleftrightarrow> p \<le> st \<and> st + 22 \<le> en \<and> en < n \<and> ordered (Suc en) xs n"

text \<open>The bytes that a list of pieces takes out when \<open>k\<close> bytes replace each of them.\<close>

definition shrink :: "nat \<Rightarrow> (nat \<times> nat \<times> byte list) list \<Rightarrow> nat" where
  "shrink k xs = sum_list (map (\<lambda>(st, en, d). en + 1 - st - k) xs)"

lemma shrink_simps [simp]: "shrink k [] = 0" "shrink k ((st, en, d) # xs) = en + 1 - st - k + shrink k xs"
  "shrink k (xs @ ys) = shrink k xs + shrink k ys"
  by (simp_all add: shrink_def)

lemma ordered_shrink: "ordered p xs n \<Longrightarrow> shrink 20 xs \<le> n - p \<and> shrink 20 xs = shrink 22 xs + 2 * length xs"
  by (induction p xs n rule: ordered.induct) auto

lemma ordered_snoc: "ordered p xs m \<Longrightarrow> m \<le> st \<Longrightarrow> st + 22 \<le> en \<Longrightarrow> en < n \<Longrightarrow> ordered p (xs @ [(st, en, d)]) n"
  by (induction p xs m rule: ordered.induct) auto

lemma ordered_mono: "ordered p xs m \<Longrightarrow> m \<le> n \<Longrightarrow> ordered p xs n"
  by (induction p xs m rule: ordered.induct) auto

lemma replace_loop_ordered:
  assumes "ordered p xs n" "n < 2 ^ 32"
  shows "\<exists>l \<le> n. p \<le> l \<and> replace_loop xs i (of_nat p) = Some (i + of_nat (l - p - shrink 20 xs), of_nat l) \<and> shrink 20 xs \<le> l - p"
  using assms
proof (induction xs arbitrary: p i)
  case Nil
  then show ?case by (intro exI [of _ p]) simp
next
  case (Cons x xs)
  obtain st en d where x: "x = (st, en, d)" by (cases x) auto
  have o: "p \<le> st" "st + 22 \<le> en" "en < n" "ordered (Suc en) xs n" using Cons.prems(1) by (simp_all add: x)
  let ?i = "i + of_nat (st - p) + 20"
  obtain l where l: "l \<le> n" "Suc en \<le> l" "shrink 20 xs \<le> l - Suc en"
    "replace_loop xs ?i (of_nat (Suc en)) = Some (?i + of_nat (l - Suc en - shrink 20 xs), of_nat l)"
    using Cons.IH [OF o(4) Cons.prems(2), of ?i] by blast
  have lt: "(of_nat p < (of_nat st :: u64)) = (p < st)" "(of_nat st = (of_nat p :: u64)) = (st = p)"
    using o Cons.prems(2) by (simp_all add: word_of_nat_less_iff word_of_nat_eq_iff take_bit_nat_eq_self)
  have "replace_loop (x # xs) i (of_nat p) = replace_loop xs ?i (of_nat (Suc en))"
    using o(1) by (simp add: x lt add.commute)
  moreover have "?i + of_nat (l - Suc en - shrink 20 xs) = i + of_nat (l - p - shrink 20 (x # xs))"
  proof -
    have "l - p - shrink 20 (x # xs) = (st - p) + 20 + (l - Suc en - shrink 20 xs)"
      using o(1,2) l(2,3) by (simp add: x)
    then show ?thesis by (simp add: algebra_simps)
  qed
  ultimately show ?case using l o by (intro exI [of _ l]) (simp add: x)
qed

section \<open>What the partition leaves in the list\<close>

definition plan_ok :: "(byte list \<Rightarrow> byte list) \<Rightarrow> byte list \<Rightarrow> u64 \<Rightarrow> nat \<Rightarrow> nat \<Rightarrow> send_state \<Rightarrow> bool" where
  "plan_ok sha data len0 rep0 st s \<longleftrightarrow> ordered 0 (shead s) st \<and> new_len s + of_nat (shrink 22 (shead s)) = len0
     \<and> srep_live s = rep0 + length (shead s) \<and> (\<forall>(a, b, d) \<in> set (shead s). d = sha (segment data a b))"

lemma send_hand_hash_frame:
  assumes "send_hand_hash mx e len dst s = (h, s')"
  shows "shead s' = shead s" "srep_live s' = srep_live s" "ssha_live s' = ssha_live s"
    "new_len s' = (if h then new_len s - (of_nat len - of_nat (SHALEN + 2)) else new_len s)"
  using assms by (auto simp: send_hand_hash_def split: prod.splits option.splits)

lemma build_hash_plan:
  assumes ok: "plan_ok sha data len0 rep0 st s" and r: "build_hash mx sha e data st (en - st + 1) s = Some s'"
    and le: "st \<le> en"
  shows "plan_ok sha data len0 rep0 (Suc en) s'"
proof (cases "en - st + 1 \<le> SHALEN + 2 \<or> sc_gen e \<noteq> 0")
  case True
  then have "shead s' = shead s" "new_len s' = new_len s" "srep_live s' = srep_live s"
    using r by (auto simp: build_hash_def Let_def split: if_splits prod.splits bool.splits)
  then show ?thesis using ok le ordered_mono [of 0 "shead s" st "Suc en"] by (simp add: plan_ok_def)
next
  case False
  let ?n = "en - st + 1" and ?dst = "sha (segment data st en)"
  obtain h s2 where h: "send_hand_hash mx e ?n ?dst (s\<lparr>ssha_live := ssha_live s + 1\<rparr>) = (h, s2)" by force
  note F = send_hand_hash_frame [OF h]
  have en: "st + ?n - 1 = en" using le by simp
  show ?thesis
  proof (cases h)
    case False
    then have "shead s' = shead s" "new_len s' = new_len s" "srep_live s' = srep_live s"
      using r h F \<open>\<not> (?n \<le> SHALEN + 2 \<or> sc_gen e \<noteq> 0)\<close> en
      by (auto simp: build_hash_def Let_def split: if_splits)
    then show ?thesis using ok le ordered_mono [of 0 "shead s" st "Suc en"] by (simp add: plan_ok_def)
  next
    case True
    then have s': "shead s' = shead s @ [(st, en, ?dst)]" "srep_live s' = srep_live s + 1"
      "new_len s' = new_len s - (of_nat ?n - of_nat (SHALEN + 2))"
      using r h F \<open>\<not> (?n \<le> SHALEN + 2 \<or> sc_gen e \<noteq> 0)\<close> en
      by (auto simp: build_hash_def Let_def split: if_splits)
    have n: "22 < ?n" using False by (simp add: SHALEN_def)
    then have "new_len s' = new_len s - of_nat (?n - 22)" unfolding s'(3) by (simp add: SHALEN_def)
    moreover have "ordered 0 (shead s') (Suc en)"
      using ok n unfolding s'(1) by (intro ordered_snoc) (auto simp: plan_ok_def)
    ultimately show ?thesis using ok s'(1,2) le by (auto simp: plan_ok_def Suc_diff_le)
  qed
qed

lemma run_chunks_plan:
  assumes "consec st cs n" "plan_ok sha data len0 rep0 st s"
    "run_chunks (\<lambda>st en. build_hash mx sha (env st) data st (en - st + 1)) cs s = Some s'"
  shows "plan_ok sha data len0 rep0 n s'"
  using assms
proof (induction cs arbitrary: st s)
  case (Cons c cs)
  obtain a b where c: "c = (a, b)" by force
  from Cons.prems(3) obtain s1 where 1: "build_hash mx sha (env a) data a (b - a + 1) s = Some s1"
    "run_chunks (\<lambda>st en. build_hash mx sha (env st) data st (en - st + 1)) cs s1 = Some s'"
    by (auto simp: c split: option.splits)
  then have "plan_ok sha data len0 rep0 (Suc b) s1"
    using Cons.prems(1,2) by (intro build_hash_plan) (auto simp: c)
  then show ?case using Cons.IH Cons.prems(1) 1(2) by (auto simp: c)
qed simp

lemma get_partition_plan:
  assumes "kfifo_law q" "hp_ok g" "n \<le> length data" "shead s = []"
    "get_partition mx sha q g env data (int n) s = Some s'"
  shows "plan_ok sha data (new_len s) (srep_live s) n s'"
proof (cases "hp_chunk_num g < n")
  case True
  then have "run_chunks (\<lambda>st en. build_hash mx sha (env st) data st (en - st + 1)) (payload_chunks g data n) s = Some s'"
    using assms(3,5) by (simp add: get_partition_def partition_run_chunks [OF assms(1,2)])
  moreover have "plan_ok sha data (new_len s) (srep_live s) 0 s" by (simp add: plan_ok_def assms(4))
  ultimately show ?thesis using run_chunks_plan [OF payload_chunks_consec] by blast
next
  case False
  then show ?thesis using assms(4,5) by (simp add: get_partition_def partition_run_def plan_ok_def)
qed

text \<open>
  (C8) The plan of the new payload never reaches outside its buffer. Let \<open>get_partition\<close> run
  on a payload of \<open>n < 2^16\<close> bytes. Then \<open>replace_skb\<close> on the list it leaves reaches no
  \<open>BUG()\<close> but for a failing allocation, it frees every list entry, and the final \<open>index\<close>
  is two bytes below \<open>new_len\<close>, the size of the buffer, for each replaced chunk:
  \<open>hand_hash\<close> reserves 22 bytes for a chunk and \<open>replace_skb\<close> uses 20.
\<close>

theorem replace_plan_fits:
  assumes "kfifo_law q" "hp_ok g" "n \<le> length data" "n < 2 ^ 16" "shead s = []" "new_len s = of_nat n"
    "get_partition mx sha q g env data (int n) s = Some s1"
  shows "\<exists>index s2. replace_skb True True (new_len s1) (of_nat n) s1 = Some (index, s2)
    \<and> unat index + 2 * length (shead s1) = unat (new_len s1) \<and> unat (new_len s1) \<le> n
    \<and> shead s2 = [] \<and> srep_live s2 = srep_live s"
proof -
  have p: "plan_ok sha data (of_nat n) (srep_live s) n s1"
    using get_partition_plan [OF assms(1-3,5,7)] assms(6) by simp
  then have o: "ordered 0 (shead s1) n" and nl: "new_len s1 = of_nat n - of_nat (shrink 22 (shead s1))"
    and rl: "srep_live s1 = srep_live s + length (shead s1)"
    by (auto simp: plan_ok_def algebra_simps)
  note sh = ordered_shrink [OF o]
  obtain l where l: "l \<le> n" "shrink 20 (shead s1) \<le> l"
    "replace_loop (shead s1) 0 0 = Some (of_nat (l - shrink 20 (shead s1)), of_nat l)"
    using replace_loop_ordered [OF o, of 0] assms(4) by auto
  let ?i = "of_nat (n - shrink 20 (shead s1)) :: u64"
  have "replace_skb True True (new_len s1) (of_nat n) s1 = Some (?i, s1\<lparr>shead := [], srep_live := srep_live s\<rparr>)"
    using l sh by (simp add: replace_skb_def rl of_nat_diff algebra_simps)
  moreover have "unat ?i = n - shrink 20 (shead s1)" using assms(4) by (simp add: unat_of_nat take_bit_nat_eq_self)
  moreover have "unat (new_len s1) = n - shrink 22 (shead s1)"
  proof -
    have "new_len s1 = of_nat (n - shrink 22 (shead s1))" using nl sh by (simp add: of_nat_diff)
    then show ?thesis using assms(4) by (simp add: unat_of_nat take_bit_nat_eq_self)
  qed
  ultimately show ?thesis using sh by auto
qed

section \<open>What is replaced is known\<close>

text \<open>\<open>hand_hash\<close> offers the digest to the table.\<close>

lemma send_hand_hash_offer:
  "offer send_look send_ins (mx, sc_item e, len) dst (stab s)
   = Some (fst (send_hand_hash mx e len dst s), stab (snd (send_hand_hash mx e len dst s)))"
  by (simp add: offer_def send_look_def send_ins_def send_hand_hash_def split: prod.split option.split)

lemma send_hand_hash_reach:
  assumes "send_reach (stab s)" "\<And>a. sc_item e = Some a \<Longrightarrow> a \<notin> dom (s_item_at (stab s))"
    "send_hand_hash mx e len dst s = (h, s')"
  shows "send_reach (stab s')" "h \<longleftrightarrow> dst \<in> send_keys (stab s)" "send_keys (stab s') \<subseteq> insert dst (send_keys (stab s))"
    "dom (s_item_at (stab s')) \<subseteq> dom (s_item_at (stab s)) \<union> set_option (sc_item e)"
proof -
  have inv: "send_inv (stab s)" by (rule send_reach_inv [OF assms(1)])
  have fr: "send_fresh (mx, sc_item e, len) (stab s)" using assms(2) by (simp add: send_fresh_def)
  have "offer send_look send_ins (mx, sc_item e, len) dst (stab s) = Some (h, stab s')"
    by (simp add: send_hand_hash_offer assms(3))
  from sdx.offer_spec [OF inv fr this]
  show "h \<longleftrightarrow> dst \<in> send_keys (stab s)" "send_keys (stab s') \<subseteq> insert dst (send_keys (stab s))" by auto
  obtain r t where g: "send_get_hash_item dst (stab s) = (r, t)" by force
  have t: "send_reach t" "dom (s_item_at t) = dom (s_item_at (stab s))"
    using send_reach.get [OF assms(1) g] send_get_inv(4) [OF inv g] by simp_all
  have "send_reach (snd (send_add_hash_info mx (sc_item e) dst len t))"
    using assms(2) t by (intro send_reach.add [OF t(1), where mem = "sc_item e"]) (auto intro: prod.collapse [symmetric])
  then show "send_reach (stab s')" using assms(3) t(1) g by (auto simp: send_hand_hash_def split: option.splits)
  have "dom (s_item_at (snd (send_add_hash_info mx (sc_item e) dst len t))) \<subseteq> dom (s_item_at t) \<union> set_option (sc_item e)"
    by (auto simp: send_add_hash_info_def send_hash_new_item_def send_hash_def Let_def split: option.splits if_splits)
  moreover have "stab s' = (case r of None \<Rightarrow> snd (send_add_hash_info mx (sc_item e) dst len t) | Some a \<Rightarrow> t)"
    using assms(3) g by (auto simp: send_hand_hash_def split: option.splits)
  ultimately show "dom (s_item_at (stab s')) \<subseteq> dom (s_item_at (stab s)) \<union> set_option (sc_item e)"
    by (cases r) (simp_all add: t(2))
qed

definition digests :: "(byte list \<Rightarrow> byte list) \<Rightarrow> byte list \<Rightarrow> (nat \<times> nat) list \<Rightarrow> byte list set" where
  "digests sha data cs = (\<lambda>c. sha (segment data (fst c) (snd c))) ` set cs"

definition addrs :: "(nat \<Rightarrow> send_chunk_env) \<Rightarrow> (nat \<times> nat) list \<Rightarrow> nat set" where
  "addrs env cs = (\<Union>c \<in> set cs. set_option (sc_item (env (fst c))))"

text \<open>A chunk before position \<open>a\<close> has the digest \<open>d\<close>.\<close>

definition seen_before :: "(byte list \<Rightarrow> byte list) \<Rightarrow> byte list \<Rightarrow> (nat \<times> nat) list \<Rightarrow> nat \<Rightarrow> byte list \<Rightarrow> bool" where
  "seen_before sha data cs a d \<longleftrightarrow> (\<exists>c \<in> set cs. snd c < a \<and> sha (segment data (fst c) (snd c)) = d)"

lemma snoc_simps [simp]:
  "digests sha data (cs @ [(st, en)]) = insert (sha (segment data st en)) (digests sha data cs)"
  "addrs env (cs @ [(st, en)]) = set_option (sc_item (env st)) \<union> addrs env cs"
  "seen_before sha data (cs @ [(st, en)]) a d \<longleftrightarrow> seen_before sha data cs a d \<or> en < a \<and> sha (segment data st en) = d"
  by (auto simp: digests_def addrs_def seen_before_def)

text \<open>The state after the chunks \<open>cs\<close>; \<open>K\<close> are the digests known before, \<open>D\<close> the addresses in use.\<close>

definition known_ok ::
  "(byte list \<Rightarrow> byte list) \<Rightarrow> byte list \<Rightarrow> (nat \<Rightarrow> send_chunk_env) \<Rightarrow> byte list set \<Rightarrow> nat set \<Rightarrow> (nat \<times> nat) list \<Rightarrow> send_state \<Rightarrow> bool" where
  "known_ok sha data env K D cs s \<longleftrightarrow> send_reach (stab s) \<and> send_keys (stab s) \<subseteq> K \<union> digests sha data cs
     \<and> dom (s_item_at (stab s)) \<subseteq> D \<union> addrs env cs
     \<and> list_all (\<lambda>(a, b, d). d \<in> K \<or> seen_before sha data cs a d) (shead s)"

lemma list_all_seen_more:
  "list_all (\<lambda>(a, b, d). d \<in> K \<or> seen_before sha data cs a d) xs \<Longrightarrow>
   list_all (\<lambda>(a, b, d). d \<in> K \<or> seen_before sha data (cs @ [(st, en)]) a d) xs"
  by (rule list.pred_mono_strong) (auto simp: list.pred_set)

lemma known_ok_more:
  assumes ok: "known_ok sha data env K D cs s" and s': "shead s' = shead s" "stab s' = stab s"
  shows "known_ok sha data env K D (cs @ [(st, en)]) s'"
  using ok list_all_seen_more unfolding known_ok_def s' snoc_simps(1,2) by blast

lemma build_hash_known:
  assumes ok: "known_ok sha data env K D cs s" and r: "build_hash mx sha (env st) data st (en - st + 1) s = Some s'"
    and le: "st \<le> en" and cs: "\<forall>c \<in> set cs. fst c \<le> snd c \<and> snd c < st"
    and fr: "\<And>st a. sc_item (env st) = Some a \<Longrightarrow> a \<notin> D"
    and inj: "\<And>st st' a. sc_item (env st) = Some a \<Longrightarrow> sc_item (env st') = Some a \<Longrightarrow> st = st'"
  shows "known_ok sha data env K D (cs @ [(st, en)]) s'"
proof (cases "en - st + 1 \<le> SHALEN + 2 \<or> sc_gen (env st) \<noteq> 0")
  case True
  then have "shead s' = shead s" "stab s' = stab s"
    using r by (auto simp: build_hash_def Let_def split: if_splits prod.splits bool.splits)
  then show ?thesis by (rule known_ok_more [OF ok])
next
  case False
  let ?n = "en - st + 1" and ?dst = "sha (segment data st en)"
  obtain h s2 where h: "send_hand_hash mx (env st) ?n ?dst (s\<lparr>ssha_live := ssha_live s + 1\<rparr>) = (h, s2)" by force
  have ok': "send_reach (stab s)" "send_keys (stab s) \<subseteq> K \<union> digests sha data cs"
    "dom (s_item_at (stab s)) \<subseteq> D \<union> addrs env cs"
    "list_all (\<lambda>(a, b, d). d \<in> K \<or> seen_before sha data cs a d) (shead s)"
    using ok by (simp_all add: known_ok_def)
  have "a \<notin> dom (s_item_at (stab s))" if it: "sc_item (env st) = Some a" for a
  proof
    assume "a \<in> dom (s_item_at (stab s))"
    then obtain c where "c \<in> set cs" "sc_item (env (fst c)) = Some a"
      using ok'(3) fr [OF it] by (auto simp: addrs_def)
    then show False using cs inj [OF it] by fastforce
  qed
  note R = send_hand_hash_reach [OF _ _ h, simplified, OF ok'(1) this]
  have en: "st + ?n - 1 = en" using le by simp
  have s': "stab s' = stab s2" "shead s' = (if h then shead s @ [(st, en, ?dst)] else shead s)"
    using r h False en send_hand_hash_frame(1) [OF h]
    by (cases h; auto simp: build_hash_def Let_def split: if_splits)+
  have hit: "?dst \<in> K \<or> seen_before sha data cs st ?dst" if h
  proof -
    have "?dst \<in> K \<union> digests sha data cs" using R(2) that ok'(2) by auto
    then show ?thesis using cs by (force simp: seen_before_def digests_def)
  qed
  have "list_all (\<lambda>(a, b, d). d \<in> K \<or> seen_before sha data (cs @ [(st, en)]) a d) (shead s')"
    using list_all_seen_more [OF ok'(4), of st en] hit by (auto simp: s'(2))
  then show ?thesis
    unfolding known_ok_def s'(1) snoc_simps(1,2) using R(1,3,4) ok'(2,3) by blast
qed

lemma run_chunks_known:
  assumes "consec st cs n" "known_ok sha data env K D done s" "\<forall>c \<in> set done. fst c \<le> snd c \<and> snd c < st"
    "run_chunks (\<lambda>st en. build_hash mx sha (env st) data st (en - st + 1)) cs s = Some s'"
    and fr: "\<And>st a. sc_item (env st) = Some a \<Longrightarrow> a \<notin> D"
    and inj: "\<And>st st' a. sc_item (env st) = Some a \<Longrightarrow> sc_item (env st') = Some a \<Longrightarrow> st = st'"
  shows "known_ok sha data env K D (done @ cs) s'"
  using assms(1-4)
proof (induction cs arbitrary: st s "done")
  case (Cons c cs)
  obtain a b where c: "c = (a, b)" by force
  from Cons.prems(4) obtain s1 where 1: "build_hash mx sha (env a) data a (b - a + 1) s = Some s1"
    "run_chunks (\<lambda>st en. build_hash mx sha (env st) data st (en - st + 1)) cs s1 = Some s'"
    by (auto simp: c split: option.splits)
  have ab: "a = st" "st \<le> b" "consec (Suc b) cs n" using Cons.prems(1) by (simp_all add: c)
  have "known_ok sha data env K D (done @ [(a, b)]) s1"
    by (rule build_hash_known [OF Cons.prems(2) 1(1)]) (use ab Cons.prems(3) fr inj in auto)
  from Cons.IH [OF ab(3) this _ 1(2)] show ?case using ab Cons.prems(3) by (fastforce simp: c)
qed simp

text \<open>
  (C16) Only known chunks are replaced. Let the table be reachable and the allocator return
  fresh addresses. After \<open>get_partition\<close> every entry of \<open>hand_list\<close> has a digest that was in
  the table before the packet, or that an earlier chunk of the same packet has; and the table
  is reachable again. A first occurrence is never replaced.
\<close>

theorem replaced_are_known:
  assumes "kfifo_law q" "hp_ok g" "n \<le> length data" "hp_chunk_num g < n" "shead s = []" "send_reach (stab s)"
    "\<And>st a. sc_item (env st) = Some a \<Longrightarrow> a \<notin> dom (s_item_at (stab s))"
    "\<And>st st' a. sc_item (env st) = Some a \<Longrightarrow> sc_item (env st') = Some a \<Longrightarrow> st = st'"
    "get_partition mx sha q g env data (int n) s = Some s'"
  shows "send_reach (stab s') \<and> (\<forall>(a, b, d) \<in> set (shead s'). d = sha (segment data a b) \<and>
    (d \<in> send_keys (stab s) \<or> (\<exists>(a', b') \<in> set (payload_chunks g data n). b' < a \<and> sha (segment data a' b') = d)))"
proof -
  have r: "run_chunks (\<lambda>st en. build_hash mx sha (env st) data st (en - st + 1)) (payload_chunks g data n) s = Some s'"
    using assms(3,4,9) by (simp add: get_partition_def partition_run_chunks [OF assms(1,2)])
  have "known_ok sha data env (send_keys (stab s)) (dom (s_item_at (stab s))) [] s"
    using assms(5,6) by (simp add: known_ok_def)
  from run_chunks_known [OF payload_chunks_consec this _ r assms(7,8)]
  have "known_ok sha data env (send_keys (stab s)) (dom (s_item_at (stab s))) (payload_chunks g data n) s'" by simp
  then have "send_reach (stab s')" and
    k: "\<forall>(a, b, d) \<in> set (shead s'). d \<in> send_keys (stab s) \<or> seen_before sha data (payload_chunks g data n) a d"
    by (simp_all add: known_ok_def list_all_iff)
  moreover have "\<forall>(a, b, d) \<in> set (shead s'). d = sha (segment data a b)"
    using get_partition_plan [OF assms(1-3,5,9)] by (simp add: plan_ok_def)
  ultimately show ?thesis by (fastforce simp: seen_before_def)
qed

section \<open>The hook completes\<close>

lemma build_hash_total:
  assumes "sc_dst e" "sc_gen e = 0" "sc_rep e" "st \<le> en" "en < length data"
  shows "\<exists>s'. build_hash mx sha e data st (en - st + 1) s = Some s' \<and> ssha_live s' = ssha_live s"
proof -
  let ?s = "s\<lparr>ssha_live := ssha_live s + 1\<rparr>" and ?n = "en - st + 1"
  obtain h s2 where h: "send_hand_hash mx e ?n (sha (segment data st (st + ?n - 1))) ?s = (h, s2)" by force
  then show ?thesis using assms send_hand_hash_frame(3) [OF h]
    by (cases h) (auto simp: build_hash_def Let_def)
qed

lemma run_chunks_total:
  assumes "consec st cs n" "n \<le> length data" "\<And>st. sc_dst (env st) \<and> sc_gen (env st) = 0 \<and> sc_rep (env st)"
  shows "\<exists>s'. run_chunks (\<lambda>st en. build_hash mx sha (env st) data st (en - st + 1)) cs s = Some s' \<and> ssha_live s' = ssha_live s"
  using assms(1)
proof (induction cs arbitrary: st s)
  case (Cons c cs)
  obtain a b where c: "c = (a, b)" by force
  have "b < length data" "a \<le> b" using Cons.prems assms(2) by (simp_all add: c)
  then obtain s1 where 1: "build_hash mx sha (env a) data a (b - a + 1) s = Some s1" "ssha_live s1 = ssha_live s"
    using build_hash_total assms(3) by meson
  have "consec (Suc b) cs n" using Cons.prems by (simp add: c)
  from Cons.IH [OF this, of s1] show ?case using 1 by (auto simp: c)
qed simp

text \<open>
  The hook never loses a packet or memory. For a TCP packet to the peer whose headers and
  payload lie inside the buffer, and with every allocation and digest succeeding, \<open>nf_out\<close>
  completes and returns \<open>NF_ACCEPT\<close>; no digest buffer and no list entry stays allocated.
\<close>

theorem nf_out_accepts:
  assumes q: "kfifo_law q" and g: "hp_ok g"
    and env: "\<And>st. sc_dst (env st) \<and> sc_gen (env st) = 0 \<and> sc_rep (env st)"
    and p: "20 \<le> length p" "byte_at p 9 = Some 6" "ip_ihl p = Some ihl" "ihl + 4 \<le> length p"
    and pay: "skb_payload p = Some (off, int n)" "off + n \<le> length p" "n < 2 ^ 16"
  shows "\<exists>s'. nf_out mx sha q g env True True p s = Some (NF_ACCEPT, s')
    \<and> ssha_live s' = ssha_live s \<and> srep_live s' = srep_live s"
proof (cases "segment p 16 19 = peer_host")
  case False
  then show ?thesis using p by (simp add: nf_out_def)
next
  case True
  let ?d = "drop off p" and ?s = "s\<lparr>shead := [], new_len := word_of_int (int n)\<rparr>"
  have nd: "n \<le> length ?d" using pay(2) by simp
  have "\<exists>s1. get_partition mx sha q g env ?d (int n) ?s = Some s1 \<and> ssha_live s1 = ssha_live s"
  proof (cases "hp_chunk_num g < n")
    case True
    then show ?thesis using run_chunks_total [OF payload_chunks_consec [of g ?d n] nd env, where s = ?s] nd
      by (simp add: get_partition_def partition_run_chunks [OF q g])
  next
    case False
    then show ?thesis by (simp add: get_partition_def partition_run_def)
  qed
  then obtain s1 where s1: "get_partition mx sha q g env ?d (int n) ?s = Some s1" "ssha_live s1 = ssha_live s" by blast
  have pl: "plan_ok sha ?d (of_nat n) (srep_live s) n s1"
    using get_partition_plan [OF q g nd _ s1(1)] by simp
  then obtain l where "replace_loop (shead s1) 0 0 = Some (of_nat (l - shrink 20 (shead s1)), of_nat l)"
    using replace_loop_ordered [of 0 "shead s1" n 0] pay(3) by (auto simp: plan_ok_def)
  moreover have "srep_live s1 = srep_live s + length (shead s1)" using pl by (simp add: plan_ok_def)
  ultimately show ?thesis using True p pay(1) s1
    by (auto simp: nf_out_def Let_def replace_skb_def)
qed

end
