(* ===== verification/Send_Witness.thy ===== *)
theory Send_Witness
  imports Nf_Out
begin

text \<open>The sending module on concrete packets, with a table of one digest and an empty one.\<close>

definition demo_digest :: "byte list \<Rightarrow> byte list" where
  "demo_digest v = replicate 20 (case v of [] \<Rightarrow> 0 | c # _ \<Rightarrow> c)"

definition empty_tab :: send_tab where
  "empty_tab = \<lparr>s_hash_tab = (\<lambda>_. []), s_item_at = Map.empty, s_hash_count = 0\<rparr>"

definition one_tab :: send_tab where
  "one_tab = snd (send_add_hash_info 1000 (Some 5) (replicate 20 7) 40 empty_tab)"

definition one_item :: send_item where
  "one_item = \<lparr>s_refcnt = 6, s_len = 40, s_sha1 = replicate 20 7\<rparr>"

lemma empty_reach: "send_reach empty_tab"
  unfolding empty_tab_def by (rule send_reach.init)

lemma one_reach: "send_reach one_tab"
  unfolding one_tab_def
  by (rule send_reach.add [OF empty_reach _ prod.collapse [symmetric]]) (simp add: empty_tab_def)

lemma one_tab_item: "s_item_at one_tab 5 = Some one_item"
  by (simp add: one_tab_def send_add_hash_info_def send_hash_new_item_def empty_tab_def send_hash_def Let_def
      SEND_CITE_ADD_def one_item_def)

theorem send_table_sound_witness:
  "fst (send_get_hash_item (replicate 20 7) one_tab) \<noteq> None
   \<and> (\<exists>s'. send_hash_flush one_tab = Some s' \<and> s_item_at s' = Map.empty \<and> s_hash_count s' = 0)"
proof -
  have "\<exists>a cp. s_item_at one_tab a = Some cp \<and> s_sha1 cp = replicate 20 7"
    by (intro exI conjI, rule one_tab_item) (simp add: one_item_def)
  then show ?thesis using send_table_sound [OF one_reach] by blast
qed

theorem send_lifetime_witness:
  "(\<exists>s'. clear_times 5 (bucket_of (replicate 20 7)) one_tab = Some s' \<and> s_item_at s' 5 = Some (one_item\<lparr>s_refcnt := 1\<rparr>))
   \<and> (\<exists>s'. clear_times 6 (bucket_of (replicate 20 7)) one_tab = Some s' \<and> s_item_at s' 5 = None)"
  using send_lifetime [OF one_reach one_tab_item, of 5] send_lifetime [OF one_reach one_tab_item, of 6]
  by (simp add: one_item_def)

definition demo_env :: "nat \<Rightarrow> send_chunk_env" where
  "demo_env st = \<lparr>sc_dst = True, sc_gen = 0, sc_item = Some (st + 10), sc_rep = True\<rparr>"

definition demo_send :: send_state where
  "demo_send = \<lparr>stab = one_tab, shead = [], new_len = 40, ssum_num = 0, ssave_num = 0, sskb_num = 0, ssha_live = 0, srep_live = 0\<rparr>"

lemma demo_env_ok: "sc_dst (demo_env st) \<and> sc_gen (demo_env st) = 0 \<and> sc_rep (demo_env st)"
  by (simp add: demo_env_def)

lemma send_demo_partition:
  "\<exists>s'. get_partition 1000 demo_digest list_fifo module_params demo_env (replicate 40 7) (int 40) demo_send = Some s'"
  using run_chunks_total [where env = demo_env and s = demo_send and mx = 1000 and sha = demo_digest,
      OF payload_chunks_consec [of module_params "replicate 40 7" 40] _ demo_env_ok, of "replicate 40 7"]
  by (auto simp: get_partition_def partition_run_chunks [OF list_fifo_law module_params_ok, of 40, simplified])

theorem replace_plan_fits_witness:
  "\<exists>s1 index s2. get_partition 1000 demo_digest list_fifo module_params demo_env (replicate 40 7) (int 40) demo_send = Some s1
    \<and> replace_skb True True (new_len s1) 40 s1 = Some (index, s2)
    \<and> unat index + 2 * length (shead s1) = unat (new_len s1) \<and> srep_live s2 = 0"
proof -
  obtain s1 where "get_partition 1000 demo_digest list_fifo module_params demo_env (replicate 40 7) (int 40) demo_send = Some s1"
    using send_demo_partition by blast
  with replace_plan_fits [OF list_fifo_law module_params_ok _ _ _ _ this] show ?thesis
    by (auto simp: demo_send_def)
qed

theorem replaced_are_known_witness:
  "\<exists>s'. get_partition 1000 demo_digest list_fifo module_params demo_env (replicate 40 7) (int 40) demo_send = Some s'
    \<and> send_reach (stab s')"
proof -
  obtain s1 where s1: "get_partition 1000 demo_digest list_fifo module_params demo_env (replicate 40 7) (int 40) demo_send = Some s1"
    using send_demo_partition by blast
  have d: "dom (s_item_at (stab demo_send)) = {5}"
    by (auto simp: demo_send_def one_tab_def send_add_hash_info_def send_hash_new_item_def empty_tab_def send_hash_def Let_def
        split: if_splits)
  have "send_reach (stab s1) \<and> (\<forall>(a, b, d) \<in> set (shead s1). d = demo_digest (segment (replicate 40 7) a b) \<and>
      (d \<in> send_keys (stab demo_send) \<or> (\<exists>(a', b') \<in> set (payload_chunks module_params (replicate 40 7) 40).
        b' < a \<and> demo_digest (segment (replicate 40 7) a' b') = d)))"
    by (rule replaced_are_known [OF list_fifo_law module_params_ok _ _ _ _ _ _ s1])
      (auto simp: d demo_env_def, auto simp: demo_send_def one_reach)
  with s1 show ?thesis by blast
qed

definition demo_packet :: "byte list" where
  "demo_packet = [0x45, 0, 0, 80, 0, 0, 0, 0, 64, 6, 0, 0, 10, 0, 0, 1, 192, 168, 109, 1]
     @ [0, 80, 0, 80, 0, 0, 0, 0, 0, 0, 0, 0, 0x50, 0, 0, 0, 0, 0, 0, 0] @ replicate 40 7"

theorem nf_out_accepts_witness:
  "\<exists>s'. nf_out 1000 demo_digest list_fifo module_params demo_env True True demo_packet demo_send = Some (NF_ACCEPT, s')
    \<and> ssha_live s' = 0 \<and> srep_live s' = 0"
proof -
  have "byte_at demo_packet 9 = Some 6" "ip_ihl demo_packet = Some 20" "skb_payload demo_packet = Some (40, int 40)"
    by (simp_all add: demo_packet_def byte_at_def ip_ihl_def skb_payload_def tcp_doff_def ip_tot_len_def)
  then show ?thesis
    using nf_out_accepts [where env = demo_env and p = demo_packet and s = demo_send and mx = 1000 and sha = demo_digest
        and ihl = 20 and off = 40 and n = 40, OF list_fifo_law module_params_ok demo_env_ok]
    by (simp add: demo_send_def demo_packet_def)
qed

end
