(* ===== verification/Send_Main.thy ===== *)
theory Send_Main
  imports Nf_Out Resources
begin

text \<open>
  Loading and unloading the sending module: \<open>send_module/main.c\<close>, \<open>slab_cache.c\<close>, and
  \<open>initial_hash_table_cache\<close> and \<open>release_hash_table_cache\<close> of its \<open>hash_table.c\<close>. The three
  slab caches are \<open>sha_data\<close>, \<open>replace_data\<close> and \<open>mtu_data\<close>.
\<close>

section \<open>The parts\<close>

definition send_init_some_parameters :: "send_state mstate \<Rightarrow> send_state mstate" where
  "send_init_some_parameters s = s\<lparr>mcache := (mcache s)\<lparr>ssave_num := 0, ssum_num := 0, sskb_num := 0\<rparr>\<rparr>"

definition send_alloc_slab :: "outcomes \<Rightarrow> send_state mstate \<Rightarrow> int \<times> send_state mstate" where
  "send_alloc_slab q = alloc_slabs q [0..<3]"

definition send_free_slab :: "send_state mstate \<Rightarrow> send_state mstate option" where
  "send_free_slab = release_if_ptr (map Slab [0..<3])"

definition send_initial_hash_table_cache :: "outcomes \<Rightarrow> send_state mstate \<Rightarrow> int \<times> send_state mstate" where
  "send_initial_hash_table_cache q s =
     (if \<not> o_hash_tab q then (- ENOMEM, s)
      else let s2 = (acquire Hash_tab s)\<lparr>tab_st := TRaw, used_mem := used_mem s + ucast hash_tab_size * 16\<rparr> in
        if \<not> o_bucket_clear q then (- ENOMEM, s2)
        else let s3 = (acquire Bucket_clear s2)\<lparr>used_mem := used_mem s2 + ucast hash_tab_size * o_sizeof_timer q\<rparr> in
          if \<not> o_hash_cachep q then (- ENOMEM, s3\<lparr>held := held s3 - {Hash_tab}, tab_st := TFreed\<rparr>)
          else let s4 = acquire Bucket_timers (acquire Print_memory (acquire Hash_cachep s3))
               in (0, s4\<lparr>tab_st := TReady,
                        mcache := (mcache s4)\<lparr>stab := (stab (mcache s4))\<lparr>s_hash_tab := (\<lambda>_. [])\<rparr>\<rparr>\<rparr>))"

text \<open>As in the receiving module, \<open>bucket_clear\<close> is not given back.\<close>

definition send_release_hash_table_cache :: "send_state mstate \<Rightarrow> send_state mstate option" where
  "send_release_hash_table_cache s =
     (if tab_st s \<noteq> TReady then None
      else case send_hash_flush (stab (mcache s)) of None \<Rightarrow> None
      | Some t \<Rightarrow>
        (case release_list [Print_memory, Bucket_timers, Hash_cachep, Hash_tab] (s\<lparr>mcache := (mcache s)\<lparr>stab := t\<rparr>\<rparr>) of
           None \<Rightarrow> None | Some s' \<Rightarrow> Some (s'\<lparr>tab_st := TFreed\<rparr>)))"

section \<open>\<open>minit\<close> and \<open>mexit\<close>\<close>

definition send_err_hash_table_cache :: "send_state mstate \<Rightarrow> send_state mstate option" where
  "send_err_hash_table_cache s =
     (case send_release_hash_table_cache s of None \<Rightarrow> None | Some s' \<Rightarrow> send_free_slab s')"

definition send_err_nf_reg_out :: "send_state mstate \<Rightarrow> send_state mstate option" where
  "send_err_nf_reg_out s = (case release Hook_out s of None \<Rightarrow> None | Some s' \<Rightarrow> send_err_hash_table_cache s')"

definition send_minit :: "outcomes \<Rightarrow> nat list \<Rightarrow> send_state mstate \<Rightarrow> (int \<times> send_state mstate) option" where
  "send_minit q cpus s =
     (let s1 = send_init_some_parameters (s\<lparr>params := init_hash_parameters (params s)\<rparr>) in
      case send_alloc_slab q s1 of (err, s2) \<Rightarrow>
      if err < 0 then map_option (Pair err) (send_free_slab s2)
      else case send_initial_hash_table_cache q s2 of (err, s3) \<Rightarrow>
      if err < 0 then map_option (Pair err) (send_err_hash_table_cache s3)
      else if o_hook_out q < 0 then map_option (Pair (o_hook_out q)) (send_err_nf_reg_out s3)
      else let s4 = acquire Hook_out s3 in
        case tcp_alloc_sha1sig_pool (o_percpu q) (o_kz q) (o_ch q) cpus (msha s4) of None \<Rightarrow> None
        | Some (pool, h) \<Rightarrow>
          let s5 = s4\<lparr>msha := h\<rparr> in
          if \<not> pool then
            (case tcp_free_sha1sig_pool cpus h of None \<Rightarrow> None
             | Some h' \<Rightarrow> map_option (Pair (o_hook_out q)) (send_err_nf_reg_out (s5\<lparr>msha := h'\<rparr>)))
          else Some (o_hook_out q, s5\<lparr>kprobe_in_reged := True\<rparr>))"

definition send_mexit :: "nat list \<Rightarrow> send_state mstate \<Rightarrow> send_state mstate option" where
  "send_mexit cpus s =
     (case release Hook_out s of None \<Rightarrow> None
      | Some s1 \<Rightarrow> (case send_release_hash_table_cache s1 of None \<Rightarrow> None
        | Some s2 \<Rightarrow> (case send_free_slab s2 of None \<Rightarrow> None
          | Some s3 \<Rightarrow> map_option (\<lambda>h. s3\<lparr>msha := h\<rparr>) (tcp_free_sha1sig_pool cpus (msha s3)))))"

section \<open>Load, run, unload\<close>

definition send_loaded :: "send_state mstate \<Rightarrow> bool" where
  "send_loaded s \<longleftrightarrow> held s = {} \<and> ptrs s = {} \<and> tab_st s = TNull \<and> params s = hash_params_globals
     \<and> s_item_at (stab (mcache s)) = Map.empty \<and> s_hash_count (stab (mcache s)) = 0
     \<and> msha s = \<lparr>users = 0, sha_pool = None, live = no_live\<rparr>"

definition send_all_ok :: "outcomes \<Rightarrow> nat list \<Rightarrow> bool" where
  "send_all_ok q cpus \<longleftrightarrow> (\<forall>i < 3. o_slab q i) \<and> o_hash_tab q \<and> o_bucket_clear q \<and> o_hash_cachep q \<and> o_hook_out q = 0
     \<and> o_percpu q \<and> (\<forall>c \<in> set cpus. o_kz q c \<and> o_ch q c)"

definition send_resources :: "resource set" where
  "send_resources = {Hash_tab, Bucket_clear, Hash_cachep, Print_memory, Bucket_timers, Hook_out} \<union> Slab ` {0..<3}"

lemma send_minit_ok:
  assumes s: "send_loaded s" and q: "send_all_ok q cpus" and d: "distinct cpus"
  shows "\<exists>s' p. send_minit q cpus s = Some (0, s') \<and> held s' = send_resources \<and> ptrs s' = send_resources
    \<and> tab_st s' = TReady \<and> send_reach (stab (mcache s')) \<and> params s' = init_hash_parameters hash_params_globals
    \<and> msha s' = \<lparr>users = 1, sha_pool = Some p, live = add_pool cpus no_live\<rparr> \<and> full_pool cpus p"
proof -
  have o: "\<forall>i \<in> set [0..<3]. o_slab q i" "\<forall>c \<in> set cpus. o_kz q c \<and> o_ch q c" using q by (simp_all add: send_all_ok_def)
  obtain p where p: "alloc_pool True (o_kz q) (o_ch q) cpus no_live = Some (Some p, add_pool cpus no_live)" "full_pool cpus p"
    using alloc_pool_ok [OF d o(2), of no_live] by blast
  define s1 where "s1 = send_init_some_parameters (s\<lparr>params := init_hash_parameters (params s)\<rparr>)"
  obtain s2 where 2: "send_alloc_slab q s1 = (0, s2)"
    "s2 = s1\<lparr>held := held s1 \<union> Slab ` set [0..<3], ptrs := ptrs s1 \<union> Slab ` set [0..<3]\<rparr>"
    using alloc_slabs_ok [OF o(1)] unfolding send_alloc_slab_def by blast
  have m: "msha s2 = \<lparr>users = 0, sha_pool = None, live = no_live\<rparr>" and h2: "held s2 = Slab ` {0..<3}" "ptrs s2 = Slab ` {0..<3}"
    and p2: "params s2 = init_hash_parameters hash_params_globals"
    and t2: "(stab (mcache s2))\<lparr>s_hash_tab := (\<lambda>_. [])\<rparr> = \<lparr>s_hash_tab = (\<lambda>_. []), s_item_at = Map.empty, s_hash_count = 0\<rparr>"
    using s by (simp_all add: 2(2) s1_def send_init_some_parameters_def send_loaded_def)
  obtain s3 where 3: "send_initial_hash_table_cache q s2 = (0, s3)"
    "held s3 = {Hash_tab, Bucket_clear, Hash_cachep, Print_memory, Bucket_timers} \<union> held s2"
    "ptrs s3 = {Hash_tab, Bucket_clear, Hash_cachep, Print_memory, Bucket_timers} \<union> ptrs s2"
    "tab_st s3 = TReady" "stab (mcache s3) = (stab (mcache s2))\<lparr>s_hash_tab := (\<lambda>_. [])\<rparr>" "msha s3 = msha s2" "params s3 = params s2"
    using q by (auto simp: send_initial_hash_table_cache_def send_all_ok_def Let_def acquire_def)
  have "send_reach (stab (mcache s3))" unfolding 3(5) t2 by (rule send_reach.init)
  moreover have "send_minit q cpus s = Some (0, (acquire Hook_out s3)\<lparr>kprobe_in_reged := True,
      msha := \<lparr>users = 1, sha_pool = Some p, live = add_pool cpus no_live\<rparr>\<rparr>)"
    using q p by (simp add: send_minit_def s1_def [symmetric] 2(1) 3(1,6) m send_all_ok_def acquire_def
        tcp_alloc_sha1sig_pool_def tcp_alloc_begin_def tcp_alloc_end_def)
  moreover have "insert Hook_out (held s3) = send_resources" "insert Hook_out (ptrs s3) = send_resources"
    unfolding 3(2,3) h2 send_resources_def by auto
  ultimately show ?thesis using p(2) 3(4,7) p2 by (simp add: acquire_def)
qed

lemma send_mexit_ok:
  assumes h: "held s = send_resources" "ptrs s = send_resources" and t: "tab_st s = TReady"
    and f: "send_hash_flush (stab (mcache s)) = Some t'"
    and p: "msha s = \<lparr>users = 1, sha_pool = Some p, live = add_pool cpus no_live\<rparr>" "full_pool cpus p"
  shows "\<exists>s'. send_mexit cpus s = Some s' \<and> held s' = {Bucket_clear} \<and> stab (mcache s') = t'
    \<and> msha s' = \<lparr>users = 0, sha_pool = None, live = no_live\<rparr>"
proof -
  let ?R = "set [Print_memory, Bucket_timers, Hash_cachep, Hash_tab]"
  define s1 where "s1 = s\<lparr>held := held s - {Hook_out}\<rparr>"
  define s2 where "s2 = s1\<lparr>mcache := (mcache s)\<lparr>stab := t'\<rparr>, held := held s1 - ?R, tab_st := TFreed\<rparr>"
  have 1: "release Hook_out s = Some s1" by (simp add: release_def s1_def h send_resources_def)
  have "release_list [Print_memory, Bucket_timers, Hash_cachep, Hash_tab] (s1\<lparr>mcache := (mcache s)\<lparr>stab := t'\<rparr>\<rparr>)
      = Some (s1\<lparr>mcache := (mcache s)\<lparr>stab := t'\<rparr>, held := held s1 - ?R\<rparr>)"
    by (subst release_list_all) (auto simp: s1_def h send_resources_def)
  then have 2: "send_release_hash_table_cache s1 = Some s2"
    using t f by (simp add: send_release_hash_table_cache_def s1_def s2_def del: release_list.simps)
  have 3: "send_free_slab s2 = Some (s2\<lparr>held := held s2 - set (map Slab [0..<3]) \<inter> ptrs s2\<rparr>)"
    unfolding send_free_slab_def
    by (rule release_if_ptr_all) (auto simp: s2_def s1_def h send_resources_def distinct_map inj_on_def)
  have "tcp_free_sha1sig_pool cpus (msha s2) = Some \<lparr>users = 0, sha_pool = None, live = no_live\<rparr>"
    by (simp add: s2_def s1_def p tcp_free_sha1sig_pool_def Let_def free_full_pool [OF p(2)])
  moreover have "held s2 - set (map Slab [0..<3]) \<inter> ptrs s2 = {Bucket_clear}"
    by (auto simp: s2_def s1_def h send_resources_def)
  ultimately show ?thesis using 1 2 3 by (simp add: send_mexit_def s2_def)
qed


definition send_boot :: "send_state mstate" where
  "send_boot = \<lparr>held = {}, ptrs = {}, reserve_file = (\<lambda>_. FNull), tab_st = TNull, used_mem = 0, params = hash_params_globals,
     mcache = \<lparr>stab = \<lparr>s_hash_tab = (\<lambda>_. []), s_item_at = Map.empty, s_hash_count = 0\<rparr>, shead = [], new_len = 0, ssum_num = 0,
       ssave_num = 0, sskb_num = 0, ssha_live = 0, srep_live = 0\<rparr>,
     msha = \<lparr>users = 0, sha_pool = None, live = no_live\<rparr>, kprobe_in_reged = False\<rparr>"

definition send_no_failure :: outcomes where
  "send_no_failure = \<lparr>o_skb_wq = True, o_file = (\<lambda>_. True), o_slab = (\<lambda>_. True), o_bitmap = (\<lambda>_. True), o_wr_wq = True,
     o_hash_tab = True, o_bucket_clear = True, o_hash_cachep = True, o_hook_out = 0, o_hook_in = 0, o_percpu = True,
     o_kz = (\<lambda>_. True), o_ch = (\<lambda>_. True), o_jprobe = 0, o_sizeof_timer = 80\<rparr>"


end
