(* ===== verification/Hash_Algos.thy ===== *)
theory Hash_Algos
  imports Prelude
begin

unbundle bit_operations_syntax

text \<open>
  The checksum and the hash functions of the user-space library: \<open>lcthw/checksum.c\<close>,
  \<open>lcthw/hashmap_algos.c\<close> and \<open>default_hash\<close> of \<open>lcthw/hashmap.c\<close>. A \<open>bstring\<close> is the
  list of its bytes; \<open>bchare\<close> reads an unsigned byte, \<open>bdata\<close> gives a (signed) \<open>char\<close> pointer.
\<close>

section \<open>The functions\<close>

text \<open>\<open>xor_checksum(buff, buff_len)\<close>: the result is an \<open>int\<close>.\<close>

definition xor_checksum :: "byte list \<Rightarrow> int" where
  "xor_checksum buff = uint (foldl (\<lambda>x c. x XOR c) (0 :: byte) buff)"

definition Hashmap_fnv1a_hash :: "byte list \<Rightarrow> u32" where
  "Hashmap_fnv1a_hash s = foldl (\<lambda>hash c. (hash XOR ucast c) * 16777619) 2166136261 s"

definition MOD_ADLER :: u32 where "MOD_ADLER = 65521"

definition adler_step :: "u32 \<times> u32 \<Rightarrow> byte \<Rightarrow> u32 \<times> u32" where
  "adler_step = (\<lambda>(a, b) c. let a' = (a + ucast c) mod MOD_ADLER in (a', (b + a') mod MOD_ADLER))"

definition Hashmap_adler32_hash :: "byte list \<Rightarrow> u32" where
  "Hashmap_adler32_hash s = (case foldl adler_step (1, 0) s of (a, b) \<Rightarrow> push_bit 16 b OR a)"

definition Hashmap_djb_hash :: "byte list \<Rightarrow> u32" where
  "Hashmap_djb_hash s = foldl (\<lambda>hash c. (push_bit 5 hash + hash) + ucast c) 5381 s"

text \<open>\<open>hash += key[i]\<close> adds a signed character.\<close>

definition default_hash_step :: "u32 \<Rightarrow> byte \<Rightarrow> u32" where
  "default_hash_step hash c =
     (let hash = hash + scast c; hash = hash + push_bit 10 hash in hash XOR drop_bit 6 hash)"

definition default_hash :: "byte list \<Rightarrow> u32" where
  "default_hash key =
     (let hash = foldl default_hash_step 0 key; hash = hash + push_bit 3 hash; hash = hash XOR drop_bit 11 hash
      in hash + push_bit 15 hash)"

section \<open>Adler-32\<close>

text \<open>The two sums as numbers.\<close>

definition adler_a :: "byte list \<Rightarrow> nat" where
  "adler_a s = 1 + sum_list (map unat s)"

fun adler_b :: "byte list \<Rightarrow> nat" where
  "adler_b [] = 0"
| "adler_b (c # s) = adler_b s + (length s + 1) * unat c + 1"

lemma adler_a_snoc: "adler_a (s @ [c]) = adler_a s + unat c"
  by (simp add: adler_a_def)

lemma adler_b_snoc: "adler_b (s @ [c]) = adler_b s + adler_a (s @ [c])"
  by (induction s) (simp_all add: adler_a_def algebra_simps)

lemma MOD_ADLER_unat: "unat (MOD_ADLER :: u32) = 65521"
  by (simp add: MOD_ADLER_def)

lemma adler_add_mod:
  fixes x y :: u32
  assumes "unat x < 65521" "unat y < 65521"
  shows "unat ((x + y) mod MOD_ADLER) = (unat x + unat y) mod 65521"
proof -
  have "unat (x + y) = unat x + unat y"
    using assms by (subst unat_add_lem [THEN iffD1]) simp_all
  then show ?thesis by (simp add: unat_mod MOD_ADLER_unat)
qed

lemma adler_fold:
  "unat (fst (foldl adler_step (1, 0) s)) = adler_a s mod 65521
   \<and> unat (snd (foldl adler_step (1, 0) s)) = adler_b s mod 65521"
proof (induction s rule: rev_induct)
  case Nil
  show ?case by (simp add: adler_a_def)
next
  case (snoc c s)
  obtain a b where ab: "foldl adler_step (1, 0) s = (a, b)" by force
  have c: "unat (ucast c :: u32) = unat c" using unsigned_less [where 'a = nat and w = c] by (simp add: unsigned_ucast_eq take_bit_nat_eq_self)
  have lt: "unat c < 65521" using unsigned_less [where 'a = nat and w = c] by simp
  let ?a = "(a + ucast c) mod MOD_ADLER"
  have a: "unat ?a = adler_a (s @ [c]) mod 65521"
    using snoc ab lt c by (subst adler_add_mod) (simp_all add: adler_a_snoc mod_add_left_eq)
  have "unat ((b + ?a) mod MOD_ADLER) = adler_b (s @ [c]) mod 65521"
    using snoc ab a by (subst adler_add_mod) (simp_all add: adler_b_snoc mod_add_eq)
  with a ab show ?case by (simp add: adler_step_def Let_def)
qed

lemma push_or_unat:
  fixes a b :: u32
  assumes "unat a < 2 ^ 16" "unat b < 2 ^ 16"
  shows "unat (push_bit 16 b OR a) = unat b * 2 ^ 16 + unat a"
proof -
  have "push_bit 16 b AND a = 0"
  proof (rule bit_word_eqI)
    fix n assume n: "n < LENGTH(32)"
    have "take_bit 16 a = a" using assms(1) by (simp add: word_unat_eq_iff unsigned_take_bit_eq take_bit_nat_eq_self)
    then have "\<not> bit a n" if "16 \<le> n" using that by (metis bit_take_bit_iff not_less)
    then show "bit (push_bit 16 b AND a) n \<longleftrightarrow> bit (0 :: u32) n"
      by (auto simp: bit_and_iff bit_push_bit_iff)
  qed
  then have "push_bit 16 b OR a = push_bit 16 b + a" by (simp add: disjunctive_add_eq_or)
  moreover have "unat (push_bit 16 b) = unat b * 2 ^ 16" using assms(2)
    by (simp add: push_bit_eq_mult unat_word_ariths(2))
  ultimately show ?thesis using assms by (simp add: unat_word_ariths(1))
qed

text \<open>
  The hash functions compute what they are named after, without overflow. The xor checksum
  of a message followed by its checksum byte is 0 and every checksum is a byte; the Adler-32
  value has the sum \<open>1 + d1 + \<dots> + dn\<close> modulo 65521 in its low half and
  \<open>n + n d1 + (n-1) d2 + \<dots> + dn\<close> modulo 65521 in its high half.
\<close>

theorem hashes_meet_reference:
  "xor_checksum (s @ [word_of_int (xor_checksum s)]) = 0 \<and> 0 \<le> xor_checksum s \<and> xor_checksum s < 256
   \<and> unat (Hashmap_adler32_hash s) = (adler_b s mod 65521) * 2 ^ 16 + adler_a s mod 65521"
proof (intro conjI)
  show "xor_checksum (s @ [word_of_int (xor_checksum s)]) = 0" by (simp add: xor_checksum_def)
  show "0 \<le> xor_checksum s" by (simp add: xor_checksum_def)
  show "xor_checksum s < 256" using uint_lt2p [of "foldl (\<lambda>x c. x XOR c) (0 :: byte) s"] by (simp add: xor_checksum_def)
  obtain a b where ab: "foldl adler_step (1, 0) s = (a, b)" by force
  then have "unat a = adler_a s mod 65521" "unat b = adler_b s mod 65521" using adler_fold [of s] by simp_all
  moreover from this have "unat a < 2 ^ 16" "unat b < 2 ^ 16"
    by (simp_all add: order.strict_trans [OF mod_less_divisor])
  ultimately show "unat (Hashmap_adler32_hash s) = (adler_b s mod 65521) * 2 ^ 16 + adler_a s mod 65521"
    by (simp add: Hashmap_adler32_hash_def ab push_or_unat)
qed

end
