(* ===== verification/Chunk_Store.thy ===== *)
theory Chunk_Store
  imports Prelude
begin

text \<open>
  The growing buffer of the user-space packer: \<open>lcthw/chunk.c\<close>. It keeps the bytes after the
  last cut point until the next packet. \<open>None\<close> is a memory fault; \<open>ok\<close> tells whether the
  allocator returned memory.
\<close>

section \<open>Operations\<close>

record chunk =
  ck_end :: u64
  ck_limit :: u64
  ck_content :: block

definition CHUNK_LEN :: nat where "CHUNK_LEN = 30000"

text \<open>Conversion of a \<open>long\<close> to \<open>int\<close>.\<close>

definition c_int :: "int \<Rightarrow> int" where
  "c_int x = sint (word_of_int x :: u32)"

definition realloc_block :: "block \<Rightarrow> nat \<Rightarrow> block" where
  "realloc_block b n = take n b @ replicate (n - length b) None"

definition chunk_create :: "bool \<Rightarrow> bool \<Rightarrow> chunk option" where
  "chunk_create ok1 ok2 =
     (if ok1 \<and> ok2 then Some \<lparr>ck_end = 0, ck_limit = of_nat CHUNK_LEN, ck_content = malloc_block CHUNK_LEN\<rparr> else None)"

definition chunk_clean :: "chunk \<Rightarrow> chunk" where
  "chunk_clean ck = ck\<lparr>ck_end := 0\<rparr>"

text \<open>\<open>memcpy(content + off, src + begin, len)\<close> on the buffer of the chunk.\<close>

definition chunk_copy :: "chunk \<Rightarrow> nat \<Rightarrow> byte list \<Rightarrow> int \<Rightarrow> int \<Rightarrow> chunk option" where
  "chunk_copy ck off src bg len =
     (if bg < 0 \<or> len < 0 \<or> int (length src) < bg + len then None
      else map_option (\<lambda>b. ck\<lparr>ck_content := b\<rparr>) (memcpy_at (ck_content ck) off (take (nat len) (drop (nat bg) src))))"

definition chunk_store :: "byte list option \<Rightarrow> int \<Rightarrow> int \<Rightarrow> chunk \<Rightarrow> (int \<times> chunk) option" where
  "chunk_store src bg en ck =
     (let len = c_int (en - bg + 1) in
      case src of None \<Rightarrow> Some (-1, ck)
      | Some s \<Rightarrow>
        if en < bg then Some (-1, ck)
        else map_option (\<lambda>ck'. (len, ck'\<lparr>ck_end := word_of_int len\<rparr>)) (chunk_copy ck 0 s bg len))"

text \<open>The growth of \<open>chunk_merge\<close>: \<open>realloc\<close>, then clear \<open>len + 1\<close> bytes behind the old end.\<close>

definition chunk_grow :: "int \<Rightarrow> chunk \<Rightarrow> chunk option" where
  "chunk_grow len ck =
     (let lim = word_of_int len + ck_end ck - 1;
          b = realloc_block (ck_content ck) (unat lim)
      in map_option (\<lambda>b'. ck\<lparr>ck_limit := lim, ck_content := b'\<rparr>)
           (memcpy_at b (unat (ck_end ck)) (replicate (nat (len + 1)) 0)))"

definition chunk_merge :: "bool \<Rightarrow> byte list option \<Rightarrow> int \<Rightarrow> int \<Rightarrow> chunk \<Rightarrow> (int \<times> chunk) option" where
  "chunk_merge ok src bg en ck =
     (let len = c_int (en - bg + 1) in
      case src of None \<Rightarrow> Some (-1, ck)
      | Some s \<Rightarrow>
        if en < bg then Some (-1, ck)
        else if ck_limit ck < ck_end ck - 1 + word_of_int len \<and> \<not> ok
        then Some (-1, ck\<lparr>ck_limit := word_of_int len + ck_end ck - 1\<rparr>)
        else case (if ck_limit ck < ck_end ck - 1 + word_of_int len then chunk_grow len ck else Some ck) of None \<Rightarrow> None
        | Some ck1 \<Rightarrow>
          map_option (\<lambda>ck2. (len, ck2\<lparr>ck_end := ck_end ck2 + word_of_int len\<rparr>))
            (chunk_copy ck1 (unat (ck_end ck1)) s bg len))"

section \<open>Behaviour\<close>

definition chunk_ok :: "chunk \<Rightarrow> bool" where
  "chunk_ok ck \<longleftrightarrow> length (ck_content ck) = unat (ck_limit ck) \<and> unat (ck_limit ck) < 2 ^ 32
     \<and> read_block (ck_content ck) 0 (unat (ck_end ck)) \<noteq> None"

definition chunk_bytes :: "chunk \<Rightarrow> byte list" where
  "chunk_bytes ck = the (read_block (ck_content ck) 0 (unat (ck_end ck)))"

lemma chunk_ok_end: "chunk_ok ck \<Longrightarrow> unat (ck_end ck) \<le> length (ck_content ck)"
  by (auto simp: chunk_ok_def read_block_def split: if_splits)

lemma chunk_clean_ok: "chunk_ok ck \<Longrightarrow> chunk_ok (chunk_clean ck) \<and> chunk_bytes (chunk_clean ck) = []"
  by (simp add: chunk_ok_def chunk_clean_def chunk_bytes_def read_block_def)

lemma chunk_create_ok: "chunk_create True True = Some ck \<Longrightarrow> chunk_ok ck \<and> chunk_bytes ck = [] \<and> unat (ck_limit ck) = 30000"
  by (auto simp: chunk_create_def chunk_ok_def chunk_bytes_def read_block_def CHUNK_LEN_def malloc_block_def)

lemma unat_u64: "x < 2 ^ 64 \<Longrightarrow> unat (of_nat x :: u64) = x"
  by (simp add: unat_of_nat take_bit_nat_eq_self)

lemma c_int_id: "0 \<le> x \<Longrightarrow> x < 2 ^ 31 \<Longrightarrow> c_int x = x"
  by (simp add: c_int_def sint_sbintrunc' signed_take_bit_int_eq_self)

lemma segment_take:
  assumes "0 \<le> bg" "bg \<le> en"
  shows "take (nat (en - bg + 1)) (drop (nat bg) s) = segment s (nat bg) (nat en)"
proof -
  have "nat (en - bg + 1) = Suc (nat en) - nat bg" using assms by arith
  then show ?thesis by (simp add: segment_def)
qed

lemma read_block_append:
  assumes "memcpy_at b off src = Some b'" "read_block b 0 off = Some xs"
  shows "read_block b' 0 (off + length src) = Some (xs @ src)"
proof -
  from assms(1) have le: "off + length src \<le> length b"
    and b': "b' = take off b @ map Some src @ drop (off + length src) b"
    by (auto simp: memcpy_at_def split: if_splits)
  have "take (off + length src) b' = take off b @ map Some src" using le by (simp add: b')
  then show ?thesis using assms(2) le by (auto simp: read_block_def b' comp_def list_all_iff split: if_splits)
qed

lemma chunk_copy_Some:
  assumes "0 \<le> bg" "bg \<le> en" "en < int (length s)"
  shows "chunk_copy ck off s bg (en - bg + 1)
    = map_option (\<lambda>b. ck\<lparr>ck_content := b\<rparr>) (memcpy_at (ck_content ck) off (segment s (nat bg) (nat en)))"
  using assms segment_take [OF assms(1,2), of s] by (simp add: chunk_copy_def)

lemma segment_len: "0 \<le> bg \<Longrightarrow> bg \<le> en \<Longrightarrow> en < int (length s) \<Longrightarrow> length (segment s (nat bg) (nat en)) = nat (en - bg + 1)"
  by (subst length_segment) arith+

lemma chunk_store_exact:
  assumes ok: "chunk_ok ck" and r: "0 \<le> bg" "bg \<le> en" "en < int (length s)" and n: "en - bg + 1 < 2 ^ 31"
  shows "if nat (en - bg + 1) \<le> unat (ck_limit ck)
    then \<exists>ck'. chunk_store (Some s) bg en ck = Some (en - bg + 1, ck') \<and> chunk_ok ck' \<and> ck_limit ck' = ck_limit ck
        \<and> chunk_bytes ck' = segment s (nat bg) (nat en)
    else chunk_store (Some s) bg en ck = None"
proof -
  define m where "m = nat (en - bg + 1)"
  let ?s = "segment s (nat bg) (nat en)"
  have m: "m < 2 ^ 31" "en - bg + 1 = int m" using r n by (auto simp: m_def)
  have len: "length ?s = m" unfolding m_def by (rule segment_len [OF r])
  have c: "c_int (int m) = int m" using m(1) by (simp add: c_int_id)
  have u: "unat (of_nat m :: u64) = m" by (rule unat_u64) (use m(1) in simp)
  have st: "chunk_store (Some s) bg en ck
      = map_option (\<lambda>b. (int m, ck\<lparr>ck_content := b, ck_end := of_nat m\<rparr>)) (memcpy_at (ck_content ck) 0 ?s)"
    using r(2) chunk_copy_Some [OF r, of ck 0] by (simp add: chunk_store_def m(2) c Let_def option.map_comp comp_def)
  show ?thesis
  proof (cases "m \<le> unat (ck_limit ck)")
    case True
    then have "0 + length ?s \<le> length (ck_content ck)" using ok len by (simp add: chunk_ok_def)
    then obtain b where b: "memcpy_at (ck_content ck) 0 ?s = Some b" by (simp add: memcpy_at_def)
    have "read_block b 0 m = Some ?s" using read_after_memcpy [OF b] len by simp
    then show ?thesis
      using True ok b memcpy_at_length [OF b] by (simp add: st m(2) chunk_ok_def chunk_bytes_def u)
  next
    case False
    then have "memcpy_at (ck_content ck) 0 ?s = None" using ok len by (simp add: memcpy_at_def chunk_ok_def)
    then show ?thesis using False st by (simp add: m(2))
  qed
qed

lemma end_sums:
  assumes "e < 2 ^ 32" "1 \<le> m" "m < 2 ^ 31"
  shows "unat (of_nat e + of_nat m - 1 :: u64) = e + m - 1" "unat (of_nat e - 1 + of_nat m :: u64) = e + m - 1"
    "unat (of_nat e + of_nat m :: u64) = e + m" "unat (of_nat e :: u64) = e"
proof -
  have u: "unat (of_nat (e + m - 1) :: u64) = e + m - 1" "unat (of_nat (e + m) :: u64) = e + m"
    by (rule unat_u64, use assms in simp)+
  have w: "of_nat e + of_nat m - (1 :: u64) = of_nat (e + m - 1)" using assms(2) by (simp add: of_nat_diff algebra_simps)
  show 1: "unat (of_nat e + of_nat m - 1 :: u64) = e + m - 1" unfolding w by (rule u(1))
  have "of_nat e - 1 + of_nat m = of_nat e + of_nat m - (1 :: u64)" by simp
  then show "unat (of_nat e - 1 + of_nat m :: u64) = e + m - 1" using 1 by (simp only:)
  show "unat (of_nat e + of_nat m :: u64) = e + m" using u(2) by simp
  show "unat (of_nat e :: u64) = e" by (rule unat_u64) (use assms(1) in simp)
qed

lemma chunk_merge_nat:
  assumes r: "0 \<le> bg" "bg \<le> en" "en < int (length s)" and m: "en - bg + 1 = int m" "m < 2 ^ 31" and e: "unat (ck_end ck) = e" "e < 2 ^ 32"
  shows "chunk_merge True (Some s) bg en ck =
      (if unat (ck_limit ck) < e + m - 1 then
         (case chunk_grow (int m) ck of None \<Rightarrow> None
          | Some ck1 \<Rightarrow> map_option (\<lambda>ck2. (int m, ck2\<lparr>ck_end := ck_end ck2 + of_nat m\<rparr>))
              (chunk_copy ck1 (unat (ck_end ck1)) s bg (int m)))
       else map_option (\<lambda>b. (int m, ck\<lparr>ck_content := b, ck_end := of_nat e + of_nat m\<rparr>))
              (memcpy_at (ck_content ck) e (segment s (nat bg) (nat en))))"
proof -
  have m1: "1 \<le> m" using r m by auto
  have c: "c_int (int m) = int m" using m(2) by (simp add: c_int_id)
  have ck: "ck_end ck = of_nat e" using e(1) by auto
  have grow: "ck_limit ck < of_nat e - 1 + of_nat m \<longleftrightarrow> unat (ck_limit ck) < e + m - 1"
    unfolding word_less_nat_alt end_sums(2) [OF e(2) m1 m(2)] ..
  have grow': "ck_limit ck < of_nat e + of_nat m - 1 \<longleftrightarrow> unat (ck_limit ck) < e + m - 1"
    unfolding word_less_nat_alt end_sums(1) [OF e(2) m1 m(2)] ..
  show ?thesis
    using r m(1) chunk_copy_Some [OF r] end_sums(4) [OF e(2) m1 m(2)]
    by (simp add: chunk_merge_def c ck grow grow' Let_def option.map_comp comp_def split: option.split)
qed

lemma chunk_grow_faults:
  assumes "unat (ck_end ck) = e" "e < 2 ^ 32" "1 \<le> m" "m < 2 ^ 31" "length (ck_content ck) < e + m - 1"
  shows "chunk_grow (int m) ck = None"
proof -
  have ck: "ck_end ck = of_nat e" using assms(1) by auto
  have "length (realloc_block (ck_content ck) (e + m - 1)) = e + m - 1" using assms(5) by (simp add: realloc_block_def)
  then have "memcpy_at (realloc_block (ck_content ck) (e + m - 1)) e (replicate (nat (int m + 1)) 0) = None"
    using assms(3) by (simp add: memcpy_at_def)
  then show ?thesis
    using end_sums [OF assms(2-4)] by (simp add: chunk_grow_def ck add.commute [of "of_nat m"])
qed

lemma chunk_merge_exact:
  assumes ok: "chunk_ok ck" and r: "0 \<le> bg" "bg \<le> en" "en < int (length s)" and n: "en - bg + 1 < 2 ^ 31"
  shows "if unat (ck_end ck) + nat (en - bg + 1) \<le> unat (ck_limit ck)
    then \<exists>ck'. chunk_merge True (Some s) bg en ck = Some (en - bg + 1, ck') \<and> chunk_ok ck' \<and> ck_limit ck' = ck_limit ck
        \<and> chunk_bytes ck' = chunk_bytes ck @ segment s (nat bg) (nat en)
    else chunk_merge True (Some s) bg en ck = None"
proof -
  define m where "m = nat (en - bg + 1)"
  define e where "e = unat (ck_end ck)"
  let ?s = "segment s (nat bg) (nat en)"
  have m: "1 \<le> m" "m < 2 ^ 31" "en - bg + 1 = int m" using r n by (auto simp: m_def)
  have e: "unat (ck_end ck) = e" "e < 2 ^ 32" using chunk_ok_end [OF ok] ok by (auto simp: e_def chunk_ok_def)
  have len: "length ?s = m" unfolding m_def by (rule segment_len [OF r])
  have L: "length (ck_content ck) = unat (ck_limit ck)" using ok by (simp add: chunk_ok_def)
  note mg = chunk_merge_nat [OF r m(3,2) e]
  show ?thesis
  proof (cases "e + m \<le> unat (ck_limit ck)")
    case True
    then have "e + length ?s \<le> length (ck_content ck)" "\<not> unat (ck_limit ck) < e + m - 1" using L len by auto
    then obtain b where b: "memcpy_at (ck_content ck) e ?s = Some b"
      "chunk_merge True (Some s) bg en ck = Some (int m, ck\<lparr>ck_content := b, ck_end := of_nat e + of_nat m\<rparr>)"
      by (simp add: memcpy_at_def mg)
    obtain xs where xs: "read_block (ck_content ck) 0 e = Some xs" using ok by (auto simp: chunk_ok_def e_def)
    have rb: "read_block b 0 (e + m) = Some (xs @ ?s)" using read_block_append [OF b(1) xs] len by simp
    show ?thesis
      using True ok memcpy_at_length [OF b(1)] b(2) rb xs end_sums(3) [OF e(2) m(1,2)]
      by (simp add: m(3) m_def [symmetric] e(1) chunk_ok_def chunk_bytes_def)
  next
    case False
    have "chunk_merge True (Some s) bg en ck = None"
    proof (cases "unat (ck_limit ck) < e + m - 1")
      case True
      then show ?thesis using chunk_grow_faults [OF e m(1,2)] L by (simp add: mg)
    next
      case F: False
      then have "memcpy_at (ck_content ck) e ?s = None" using False L len by (simp add: memcpy_at_def)
      then show ?thesis using F by (simp add: mg)
    qed
    then show ?thesis using False by (simp add: m_def e_def)
  qed
qed

text \<open>
  (C35) The buffer works up to its limit and not beyond. On a chunk that is in order,
  \<open>chunk_store\<close> leaves exactly the given bytes and \<open>chunk_merge\<close> appends them, if they fit. If
  they do not, both write outside the buffer: \<open>chunk_store\<close> never looks at the limit, and
  \<open>chunk_merge\<close> computes the new limit one byte too small and clears two bytes too many.
\<close>

theorem chunk_exact_up_to_limit:
  assumes "chunk_ok ck" "0 \<le> bg" "bg \<le> en" "en < int (length s)" "en - bg + 1 < 2 ^ 31"
  shows "(if nat (en - bg + 1) \<le> unat (ck_limit ck)
      then \<exists>ck'. chunk_store (Some s) bg en ck = Some (en - bg + 1, ck') \<and> chunk_ok ck'
        \<and> chunk_bytes ck' = segment s (nat bg) (nat en)
      else chunk_store (Some s) bg en ck = None)
    \<and> (if unat (ck_end ck) + nat (en - bg + 1) \<le> unat (ck_limit ck)
      then \<exists>ck'. chunk_merge True (Some s) bg en ck = Some (en - bg + 1, ck') \<and> chunk_ok ck'
        \<and> chunk_bytes ck' = chunk_bytes ck @ segment s (nat bg) (nat en)
      else chunk_merge True (Some s) bg en ck = None)"
  using chunk_store_exact [OF assms] chunk_merge_exact [OF assms] by (auto split: if_splits)

definition demo_chunk :: chunk where
  "demo_chunk = \<lparr>ck_end = 2, ck_limit = 5, ck_content = [Some 1, Some 2, None, None, None]\<rparr>"

theorem chunk_exact_up_to_limit_witness:
  "(\<exists>ck'. chunk_merge True (Some [7, 8, 9, 10]) 1 3 demo_chunk = Some (3, ck') \<and> chunk_bytes ck' = [1, 2, 8, 9, 10])
   \<and> chunk_merge True (Some [7, 8, 9, 10]) 0 3 demo_chunk = None"
proof -
  have ok: "chunk_ok demo_chunk" by (simp add: chunk_ok_def demo_chunk_def read_block_def)
  have "chunk_bytes demo_chunk = [1, 2]" "unat (ck_end demo_chunk) = 2" "unat (ck_limit demo_chunk) = 5"
    by (simp_all add: demo_chunk_def chunk_bytes_def read_block_def)
  then show ?thesis
    using chunk_exact_up_to_limit [OF ok, of 1 3 "[7, 8, 9, 10]"] chunk_exact_up_to_limit [OF ok, of 0 3 "[7, 8, 9, 10]"]
    by (auto simp: segment_def)
qed

end
