(* ===== verification/DArray.thy ===== *)
theory DArray
  imports Prelude
begin

text \<open>
  The dynamic array of pointers: \<open>lcthw/darray.c\<close> and the inline operations of
  \<open>lcthw/darray.h\<close>. A pointer is an option (\<open>None\<close> is \<open>NULL\<close>); a cell that \<open>realloc\<close> added and
  nothing wrote is \<open>Garbage\<close>. \<open>end\<close> and \<open>max\<close> are C \<open>int\<close>s that stay small and non-negative
  and are kept as numbers. An operation without a result (\<open>None\<close>) touches memory outside the
  block or uses a pointer that was never written. \<open>ok\<close> tells whether an allocation succeeds.
\<close>

section \<open>Operations\<close>

datatype 'a cell = Garbage | Ptr "'a option"

record 'a darray =
  da_end :: nat
  da_max :: nat
  da_esize :: nat
  da_rate :: nat
  da_cells :: "'a cell list"

definition DEFAULT_EXPAND_RATE :: nat where "DEFAULT_EXPAND_RATE = 300"

definition DArray_create :: "bool \<Rightarrow> bool \<Rightarrow> nat \<Rightarrow> nat \<Rightarrow> 'a darray option" where
  "DArray_create ok1 ok2 element_size initial_max =
     (if \<not> ok1 \<or> initial_max = 0 \<or> \<not> ok2 then None
      else Some \<lparr>da_end = 0, da_max = initial_max, da_esize = element_size, da_rate = DEFAULT_EXPAND_RATE,
                 da_cells = replicate initial_max (Ptr None)\<rparr>)"

text \<open>\<open>DArray_clear\<close> frees every pointer up to \<open>max\<close> that is not \<open>NULL\<close>; the result is what it frees.\<close>

fun clear_cells :: "'a cell list \<Rightarrow> 'a list option" where
  "clear_cells [] = Some []"
| "clear_cells (Garbage # cs) = None"
| "clear_cells (Ptr None # cs) = clear_cells cs"
| "clear_cells (Ptr (Some p) # cs) = map_option (\<lambda>ps. p # ps) (clear_cells cs)"

definition DArray_clear :: "'a darray \<Rightarrow> 'a list option" where
  "DArray_clear a =
     (if da_esize a = 0 then Some []
      else if length (da_cells a) < da_max a then None
      else clear_cells (take (da_max a) (da_cells a)))"

text \<open>\<open>max\<close> is set before \<open>realloc\<close> is tried.\<close>

definition DArray_resize :: "bool \<Rightarrow> nat \<Rightarrow> 'a darray \<Rightarrow> int \<times> 'a darray" where
  "DArray_resize ok newsize a =
     (let a1 = a\<lparr>da_max := newsize\<rparr> in
      if newsize = 0 \<or> \<not> ok then (-1, a1)
      else (0, a1\<lparr>da_cells := take newsize (da_cells a) @ replicate (newsize - length (da_cells a)) Garbage\<rparr>))"

text \<open>
  \<open>memset\<close> of \<open>n\<close> bytes from cell \<open>i\<close>: the eight-byte cells it covers become \<open>NULL\<close>, a cell it
  covers in part is no pointer.
\<close>

definition memset_cells :: "nat \<Rightarrow> nat \<Rightarrow> 'a cell list \<Rightarrow> 'a cell list option" where
  "memset_cells i n cs =
     (if 8 * length cs < 8 * i + n then None
      else Some (take i cs @ replicate (n div 8) (Ptr None) @ replicate ((n + 7) div 8 - n div 8) Garbage
                 @ drop (i + (n + 7) div 8) cs))"

definition DArray_expand :: "bool \<Rightarrow> 'a darray \<Rightarrow> (int \<times> 'a darray) option" where
  "DArray_expand ok a =
     (let old_max = da_max a in
      case DArray_resize ok (da_max a + da_rate a) a of (rc, a1) \<Rightarrow>
        if rc \<noteq> 0 then Some (-1, a1)
        else map_option (\<lambda>cs. (0, a1\<lparr>da_cells := cs\<rparr>)) (memset_cells old_max (da_rate a + 1) (da_cells a1)))"

definition DArray_contract :: "bool \<Rightarrow> 'a darray \<Rightarrow> int \<times> 'a darray" where
  "DArray_contract ok a =
     (let new_size = (if da_end a < da_rate a then da_rate a else da_end a) in DArray_resize ok (new_size + 1) a)"

definition DArray_push :: "bool \<Rightarrow> 'a option \<Rightarrow> 'a darray \<Rightarrow> (int \<times> 'a darray) option" where
  "DArray_push ok el a =
     (if length (da_cells a) \<le> da_end a then None
      else let a1 = a\<lparr>da_cells := (da_cells a)[da_end a := Ptr el], da_end := da_end a + 1\<rparr> in
        if da_max a1 \<le> da_end a1 then DArray_expand ok a1 else Some (0, a1))"

definition DArray_remove :: "nat \<Rightarrow> 'a darray \<Rightarrow> ('a option \<times> 'a darray) option" where
  "DArray_remove i a =
     (if length (da_cells a) \<le> i then None
      else case da_cells a ! i of Garbage \<Rightarrow> None
        | Ptr el \<Rightarrow> Some (el, a\<lparr>da_cells := (da_cells a)[i := Ptr None]\<rparr>))"

definition DArray_pop :: "bool \<Rightarrow> 'a darray \<Rightarrow> ('a option \<times> 'a darray) option" where
  "DArray_pop ok a =
     (if da_end a = 0 then Some (None, a)
      else case DArray_remove (da_end a - 1) a of None \<Rightarrow> None
        | Some (el, a1) \<Rightarrow>
          (let a2 = a1\<lparr>da_end := da_end a - 1\<rparr> in
           if da_rate a2 < da_end a2 \<and> da_end a2 mod da_rate a2 \<noteq> 0
           then Some (el, snd (DArray_contract ok a2)) else Some (el, a2)))"

definition DArray_get :: "nat \<Rightarrow> 'a darray \<Rightarrow> 'a option option" where
  "DArray_get i a =
     (if da_max a \<le> i then Some None
      else if length (da_cells a) \<le> i then None
      else case da_cells a ! i of Garbage \<Rightarrow> None | Ptr el \<Rightarrow> Some el)"

text \<open>\<open>DArray_set\<close> past the end makes \<open>end\<close> the index, so that the new element is not counted.\<close>

definition DArray_set :: "nat \<Rightarrow> 'a option \<Rightarrow> 'a darray \<Rightarrow> 'a darray option" where
  "DArray_set i el a =
     (if da_max a \<le> i then Some a
      else if length (da_cells a) \<le> i then None
      else Some (a\<lparr>da_end := (if da_end a < i then i else da_end a), da_cells := (da_cells a)[i := Ptr el]\<rparr>))"

section \<open>The list it stands for\<close>

definition da_ok :: "'a darray \<Rightarrow> bool" where
  "da_ok a \<longleftrightarrow> length (da_cells a) = da_max a \<and> da_end a < da_max a \<and> 0 < da_rate a
     \<and> (\<forall>i < da_end a. da_cells a ! i \<noteq> Garbage)"

fun the_ptr :: "'a cell \<Rightarrow> 'a option" where
  "the_ptr (Ptr p) = p"
| "the_ptr Garbage = None"

definition da_list :: "'a darray \<Rightarrow> 'a option list" where
  "da_list a = map the_ptr (take (da_end a) (da_cells a))"

lemma length_da_list: "da_ok a \<Longrightarrow> length (da_list a) = da_end a"
  by (simp add: da_ok_def da_list_def)

lemma da_list_nth: "da_ok a \<Longrightarrow> i < da_end a \<Longrightarrow> da_cells a ! i = Ptr (da_list a ! i)"
  by (cases "da_cells a ! i") (auto simp: da_ok_def da_list_def)

lemma create_ok: "0 < n \<Longrightarrow> \<exists>a. DArray_create True True es n = Some a \<and> da_ok a \<and> da_list a = [] \<and> da_max a = n \<and> da_esize a = es"
  by (simp add: DArray_create_def da_ok_def da_list_def DEFAULT_EXPAND_RATE_def)

lemma expand_spec:
  assumes "length (da_cells a) = da_max a" "0 < da_rate a"
  shows "\<exists>cs. DArray_expand True a = Some (0, a\<lparr>da_max := da_max a + da_rate a, da_cells := da_cells a @ cs\<rparr>)
    \<and> length cs = da_rate a \<and> (9 \<le> da_rate a \<longrightarrow> Garbage \<in> set cs)"
proof -
  let ?n = "da_rate a + 1"
  let ?g = "replicate (da_rate a) (Garbage :: 'a cell)"
  let ?cs = "replicate (?n div 8) (Ptr None) @ replicate ((?n + 7) div 8 - ?n div 8) Garbage @ drop ((?n + 7) div 8) ?g"
  have le: "(?n + 7) div 8 \<le> da_rate a" "?n div 8 \<le> (?n + 7) div 8" "?n \<le> 8 * da_rate a" using assms(2) by (auto simp: div_le_mono)
  have "DArray_expand True a = Some (0, a\<lparr>da_max := da_max a + da_rate a, da_cells := da_cells a @ ?cs\<rparr>)"
    using assms le(3) by (simp add: DArray_expand_def DArray_resize_def memset_cells_def Let_def)
  moreover have "length ?cs = da_rate a" using le by simp
  moreover have "Garbage \<in> set ?cs" if "9 \<le> da_rate a"
  proof -
    have "(?n + 7) div 8 < da_rate a" using that by auto
    then have "Garbage \<in> set (drop ((?n + 7) div 8) ?g)" by (simp add: drop_replicate)
    then show ?thesis by auto
  qed
  ultimately show ?thesis by blast
qed

lemma push_ok:
  assumes "da_ok a"
  shows "\<exists>a'. DArray_push True el a = Some (0, a') \<and> da_ok a' \<and> da_list a' = da_list a @ [el] \<and> da_esize a' = da_esize a"
proof -
  let ?a = "a\<lparr>da_cells := (da_cells a)[da_end a := Ptr el], da_end := da_end a + 1\<rparr>"
  have len: "length (da_cells ?a) = da_max ?a" "0 < da_rate ?a" "da_end a < length (da_cells a)"
    using assms by (auto simp: da_ok_def)
  have cells: "\<forall>i < da_end ?a. da_cells ?a ! i \<noteq> Garbage"
    using assms by (auto simp: da_ok_def nth_list_update less_Suc_eq)
  have lst: "da_list ?a = da_list a @ [el]"
    using len(3) by (simp add: da_list_def take_Suc_conv_app_nth)
  show ?thesis
  proof (cases "da_max ?a \<le> da_end ?a")
    case False
    then show ?thesis using len cells lst by (auto simp: DArray_push_def Let_def da_ok_def)
  next
    case True
    obtain cs where cs: "DArray_expand True ?a = Some (0, ?a\<lparr>da_max := da_max ?a + da_rate ?a, da_cells := da_cells ?a @ cs\<rparr>)"
      "length cs = da_rate ?a" using expand_spec [OF len(1,2)] by blast
    let ?b = "?a\<lparr>da_max := da_max ?a + da_rate ?a, da_cells := da_cells ?a @ cs\<rparr>"
    have "da_end ?a \<le> length (da_cells ?a)" using len by simp
    then have "da_list ?b = da_list ?a" by (simp add: da_list_def)
    moreover have "da_ok ?b" using len cs(2) cells \<open>da_end ?a \<le> length (da_cells ?a)\<close> by (auto simp: da_ok_def nth_append)
    moreover have "DArray_push True el a = Some (0, ?b)" using True len cs(1) by (simp add: DArray_push_def Let_def)
    ultimately show ?thesis using lst by auto
  qed
qed

lemma da_get_ok: "da_ok a \<Longrightarrow> i < da_end a \<Longrightarrow> DArray_get i a = Some (da_list a ! i)"
  using da_list_nth [of a i] by (simp add: DArray_get_def da_ok_def)

lemma set_ok:
  assumes "da_ok a" "i < da_end a"
  shows "\<exists>a'. DArray_set i el a = Some a' \<and> da_ok a' \<and> da_list a' = (da_list a)[i := el] \<and> da_max a' = da_max a \<and> da_esize a' = da_esize a"
proof -
  let ?a = "a\<lparr>da_cells := (da_cells a)[i := Ptr el]\<rparr>"
  have "DArray_set i el a = Some ?a" using assms by (simp add: DArray_set_def da_ok_def)
  moreover have "da_ok ?a" using assms by (auto simp: da_ok_def nth_list_update)
  moreover have "da_list ?a = (da_list a)[i := el]" using assms by (simp add: da_list_def take_update_swap map_update)
  ultimately show ?thesis by auto
qed

lemma pop_empty: "da_end a = 0 \<Longrightarrow> DArray_pop ok a = Some (None, a)"
  by (simp add: DArray_pop_def)

lemma pop_ok:
  assumes "da_ok a" "da_list a \<noteq> []"
  shows "\<exists>a'. DArray_pop True a = Some (last (da_list a), a') \<and> da_ok a' \<and> da_list a' = butlast (da_list a) \<and> da_esize a' = da_esize a"
proof -
  have e: "0 < da_end a" using assms(2) unfolding length_da_list [OF assms(1), symmetric] by simp
  let ?i = "da_end a - 1"
  let ?a = "a\<lparr>da_cells := (da_cells a)[?i := Ptr None], da_end := ?i\<rparr>"
  have l: "last (da_list a) = da_list a ! ?i" using assms(2) length_da_list [OF assms(1)] by (simp add: last_conv_nth)
  have c: "da_cells a ! ?i = Ptr (last (da_list a))" using da_list_nth [OF assms(1), of ?i] e l by simp
  have r: "DArray_remove ?i a = Some (last (da_list a), a\<lparr>da_cells := (da_cells a)[?i := Ptr None]\<rparr>)"
    using c assms(1) e by (auto simp: DArray_remove_def da_ok_def)
  have ok: "da_ok ?a" using assms(1) e by (auto simp: da_ok_def nth_list_update)
  have lst: "da_list ?a = butlast (da_list a)"
    using assms(1) e by (simp add: da_list_def da_ok_def map_butlast [symmetric] butlast_take)
  show ?thesis
  proof (cases "da_rate ?a < da_end ?a \<and> da_end ?a mod da_rate ?a \<noteq> 0")
    case False
    then show ?thesis using r e ok lst by (auto simp: DArray_pop_def Let_def)
  next
    case True
    let ?n = "da_end ?a + 1"
    let ?b = "?a\<lparr>da_max := ?n, da_cells := take ?n (da_cells ?a) @ replicate (?n - length (da_cells ?a)) Garbage\<rparr>"
    have "DArray_contract True ?a = (0, ?b)" using True by (simp add: DArray_contract_def DArray_resize_def Let_def)
    moreover have "?n \<le> length (da_cells ?a)" using assms(1) e by (simp add: da_ok_def)
    then have "da_ok ?b" "da_list ?b = da_list ?a" using ok by (auto simp: da_ok_def da_list_def nth_append)
    ultimately show ?thesis using r e lst True by (auto simp: DArray_pop_def Let_def)
  qed
qed

section \<open>The interface\<close>

text \<open>What a client relies on: a bounded stack with indexed access that stands for a list.\<close>

fun push_all :: "('p \<Rightarrow> 'v \<Rightarrow> 'v option) \<Rightarrow> 'p list \<Rightarrow> 'v \<Rightarrow> 'v option" where
  "push_all push [] a = Some a"
| "push_all push (p # ps) a = (case push p a of None \<Rightarrow> None | Some a' \<Rightarrow> push_all push ps a')"

locale vector =
  fixes vinv :: "'v \<Rightarrow> bool"
    and vlist :: "'v \<Rightarrow> 'p list"
    and vpush :: "'p \<Rightarrow> 'v \<Rightarrow> 'v option"
    and vpop :: "'v \<Rightarrow> ('p \<times> 'v) option"
    and vget :: "nat \<Rightarrow> 'v \<Rightarrow> 'p option"
  assumes vpush: "vinv a \<Longrightarrow> \<exists>a'. vpush p a = Some a' \<and> vinv a' \<and> vlist a' = vlist a @ [p]"
    and vpop: "vinv a \<Longrightarrow> vlist a \<noteq> [] \<Longrightarrow> \<exists>a'. vpop a = Some (last (vlist a), a') \<and> vinv a' \<and> vlist a' = butlast (vlist a)"
    and vget: "vinv a \<Longrightarrow> i < length (vlist a) \<Longrightarrow> vget i a = Some (vlist a ! i)"
begin

lemma push_all_list:
  assumes "vinv a"
  shows "\<exists>a'. push_all vpush ps a = Some a' \<and> vinv a' \<and> vlist a' = vlist a @ ps"
  using assms
proof (induction ps arbitrary: a)
  case (Cons p ps)
  then obtain a1 where "vpush p a = Some a1" "vinv a1" "vlist a1 = vlist a @ [p]" using vpush by blast
  with Cons.IH [of a1] show ?case by auto
qed simp

text \<open>Last in, first out, whatever was pushed before.\<close>

lemma push_then_pop:
  assumes "vinv a"
  shows "\<exists>a1 a2. vpush p a = Some a1 \<and> vpop a1 = Some (p, a2) \<and> vinv a2 \<and> vlist a2 = vlist a"
proof -
  obtain a1 where a1: "vpush p a = Some a1" "vinv a1" "vlist a1 = vlist a @ [p]" using vpush [OF assms] by blast
  then show ?thesis using vpop [OF a1(2)] by auto
qed

end

definition da_push :: "'a option \<Rightarrow> 'a darray \<Rightarrow> 'a darray option" where
  "da_push el a = map_option snd (DArray_push True el a)"

interpretation dav: vector da_ok da_list da_push "DArray_pop True" DArray_get
proof
  fix a :: "'a darray" and p i
  assume ok: "da_ok a"
  show "\<exists>a'. da_push p a = Some a' \<and> da_ok a' \<and> da_list a' = da_list a @ [p]"
    using push_ok [OF ok, of p] by (auto simp: da_push_def)
  show "i < length (da_list a) \<Longrightarrow> DArray_get i a = Some (da_list a ! i)" using da_get_ok [OF ok] length_da_list [OF ok] by simp
  show "da_list a \<noteq> [] \<Longrightarrow> \<exists>a'. DArray_pop True a = Some (last (da_list a), a') \<and> da_ok a' \<and> da_list a' = butlast (da_list a)"
    using pop_ok [OF ok] by blast
qed

section \<open>Properties\<close>



lemma clear_cells_garbage: "Garbage \<in> set cs \<Longrightarrow> clear_cells cs = None"
  by (induction cs rule: clear_cells.induct) auto

text \<open>
  An array that has grown cannot be cleared. \<open>DArray_expand\<close> clears \<open>expand_rate + 1\<close> bytes
  behind the old cells, not as many pointers, so most new cells stay uninitialised; and
  \<open>DArray_clear\<close> looks at every cell up to \<open>max\<close>, not up to \<open>end\<close>. After the push that fills the
  array it frees a pointer that was never written.
\<close>

theorem clear_after_growth_faults:
  assumes "da_ok a" "0 < da_esize a" "9 \<le> da_rate a" "Suc (da_end a) = da_max a" "DArray_push True el a = Some (rc, a')"
  shows "DArray_clear a' = None"
proof -
  let ?a = "a\<lparr>da_cells := (da_cells a)[da_end a := Ptr el], da_end := da_end a + 1\<rparr>"
  have "length (da_cells ?a) = da_max ?a" "0 < da_rate ?a" using assms(1) by (auto simp: da_ok_def)
  from expand_spec [OF this] assms(3) obtain cs where
    "DArray_expand True ?a = Some (0, ?a\<lparr>da_max := da_max ?a + da_rate ?a, da_cells := da_cells ?a @ cs\<rparr>)"
    "length cs = da_rate ?a" "Garbage \<in> set cs" by auto
  moreover from this have "a' = ?a\<lparr>da_max := da_max ?a + da_rate ?a, da_cells := da_cells ?a @ cs\<rparr>"
    using assms(1,4,5) by (auto simp: DArray_push_def Let_def da_ok_def split: if_splits)
  ultimately show ?thesis using assms(1,2) by (simp add: DArray_clear_def da_ok_def clear_cells_garbage)
qed

theorem clear_after_growth_faults_witness:
  "\<exists>a0 a'. DArray_create True True 8 1 = Some a0 \<and> DArray_push True (Some (1::nat)) a0 = Some (0, a') \<and> DArray_clear a' = None"
proof -
  obtain a0 :: "nat darray" where a0: "DArray_create True True 8 1 = Some a0" "da_ok a0" "da_list a0 = []" "da_max a0 = 1" "da_esize a0 = 8"
    using create_ok [of 1 8] by auto
  have r: "da_rate a0 = 300" "da_end a0 = 0" using a0(1) by (auto simp: DArray_create_def DEFAULT_EXPAND_RATE_def)
  obtain a' where a': "DArray_push True (Some (1::nat)) a0 = Some (0, a')" using push_ok [OF a0(2)] by blast
  have "DArray_clear a' = None"
    by (rule clear_after_growth_faults [OF a0(2) _ _ _ a']) (simp_all add: a0 r)
  then show ?thesis using a0(1) a' by blast
qed

end
