(* ===== verification/Keyvalue.thy ===== *)
theory Keyvalue
  imports Chunk_Store
begin

text \<open>
  The store of digests that the hash map points into: \<open>lcthw/keyvalue.c\<close>. A pointer into the
  store is the number of the heap block and an offset; \<open>realloc\<close> returns a block that may be
  another one (\<open>nb\<close>), and then the old one is freed. \<open>None\<close> is a memory fault.

  \<open>index\<close>, \<open>capacity\<close> and \<open>expand_rate\<close> are byte counts (\<open>unsigned long\<close>); they stay below
  \<open>2^64\<close> and are kept as numbers. The capacity is never below \<open>step\<close>, so that
  \<open>capacity - step\<close> does not wrap.
\<close>

section \<open>Operations\<close>

record keyvalue =
  kv_index :: nat
  kv_capacity :: nat
  kv_rate :: nat
  kv_step :: nat
  kv_base :: nat
  kv_key :: block

definition SHA_BYTES :: nat where "SHA_BYTES = 20"
definition SHANUM :: nat where "SHANUM = 50000000"

definition keyvalue_create :: "bool \<Rightarrow> bool \<Rightarrow> nat \<Rightarrow> nat \<Rightarrow> nat \<Rightarrow> keyvalue option" where
  "keyvalue_create ok1 ok2 base num step_s =
     (let step = (if num \<le> 0 then SHA_BYTES else step_s); n = (if num \<le> 0 then SHANUM else num) in
      if \<not> ok1 \<or> \<not> ok2 then None
      else Some \<lparr>kv_index = 0, kv_capacity = n * step, kv_rate = n * step, kv_step = step, kv_base = base,
                 kv_key = zalloc_block (n * step)\<rparr>)"

definition keyvalue_full :: "keyvalue \<Rightarrow> bool" where
  "keyvalue_full kv \<longleftrightarrow> \<not> kv_index kv \<le> kv_capacity kv - kv_step kv"

text \<open>The new size is in bytes, and is multiplied by \<open>step\<close> once more.\<close>

definition keyvalue_resize :: "bool \<Rightarrow> nat \<Rightarrow> nat \<Rightarrow> keyvalue \<Rightarrow> int \<times> keyvalue" where
  "keyvalue_resize ok nb newsize kv =
     (let kv1 = kv\<lparr>kv_capacity := newsize\<rparr> in
      if newsize = 0 \<or> \<not> ok then (-1, kv1)
      else (0, kv1\<lparr>kv_key := realloc_block (kv_key kv) (newsize * kv_step kv), kv_base := nb\<rparr>))"

definition keyvalue_expand :: "bool \<Rightarrow> nat \<Rightarrow> keyvalue \<Rightarrow> (int \<times> keyvalue) option" where
  "keyvalue_expand ok nb kv =
     (let old_max = kv_capacity kv in
      case keyvalue_resize ok nb (kv_capacity kv + kv_rate kv) kv of (rc, kv1) \<Rightarrow>
        if rc \<noteq> 0 then Some (-1, kv1)
        else map_option (\<lambda>b. (0, kv1\<lparr>kv_key := b\<rparr>)) (memcpy_at (kv_key kv1) old_max (replicate (kv_rate kv) 0)))"

text \<open>\<open>old_index\<close> is an \<open>int\<close>. The result is the pointer, \<open>None\<close> for \<open>NULL\<close>.\<close>

definition keyvalue_push :: "bool \<Rightarrow> nat \<Rightarrow> byte list \<Rightarrow> keyvalue \<Rightarrow> ((nat \<times> nat) option \<times> keyvalue) option" where
  "keyvalue_push ok nb el kv =
     (let old_index = c_int (int (kv_index kv)) in
      if old_index < 0 \<or> length el < kv_step kv then None
      else case memcpy_at (kv_key kv) (nat old_index) (take (kv_step kv) el) of None \<Rightarrow> None
      | Some b \<Rightarrow>
        (let kv1 = kv\<lparr>kv_key := b, kv_index := kv_index kv + kv_step kv\<rparr> in
         if keyvalue_full kv1 then
           (case keyvalue_expand ok nb kv1 of None \<Rightarrow> None
            | Some (rc, kv2) \<Rightarrow> if rc \<noteq> 0 then Some (None, kv2) else Some (Some (kv_base kv2, nat old_index), kv2))
         else Some (Some (kv_base kv1, nat old_index), kv1)))"

text \<open>Following a pointer to an entry.\<close>

definition kv_read :: "keyvalue \<Rightarrow> nat \<times> nat \<Rightarrow> byte list option" where
  "kv_read kv p = (if fst p = kv_base kv then read_block (kv_key kv) (snd p) (kv_step kv) else None)"

section \<open>Behaviour\<close>

definition kv_ok :: "keyvalue \<Rightarrow> bool" where
  "kv_ok kv \<longleftrightarrow> 0 < kv_step kv \<and> kv_step kv \<le> kv_rate kv \<and> kv_index kv + kv_step kv \<le> kv_capacity kv
     \<and> read_block (kv_key kv) 0 (kv_capacity kv) \<noteq> None \<and> length (kv_key kv) \<le> kv_capacity kv * kv_step kv"

lemma read_block_zalloc: "read_block (zalloc_block n) 0 n = Some (replicate n 0)"
  by (simp add: read_block_def zalloc_block_def list_all_iff)

lemma keyvalue_create_ok:
  assumes "0 < step_s \<or> num = 0"
  shows "\<exists>kv. keyvalue_create True True base num step_s = Some kv \<and> kv_ok kv \<and> kv_index kv = 0 \<and> kv_base kv = base"
  using assms by (auto simp: keyvalue_create_def kv_ok_def read_block_zalloc SHA_BYTES_def SHANUM_def length_zalloc_block)

lemma read_block_prefix:
  assumes "read_block b 0 n \<noteq> None" "off + m \<le> n"
  shows "read_block b off m \<noteq> None"
proof -
  have 1: "n \<le> length b" "list_all (\<lambda>c. c \<noteq> None) (take n b)" using assms(1) by (auto simp: read_block_def split: if_splits)
  have "set (take m (drop off b)) \<subseteq> set (take n b)"
  proof -
    have "take m (drop off b) = take m (drop off (take n b))" using assms(2) by (simp add: drop_take min_def)
    then show ?thesis by (metis set_drop_subset set_take_subset subset_trans)
  qed
  then show ?thesis using 1 assms(2) by (auto simp: read_block_def list_all_iff)
qed

lemma memcpy_keeps_init:
  assumes "memcpy_at b off src = Some b'" "read_block b 0 n \<noteq> None"
  shows "read_block b' 0 n \<noteq> None"
proof -
  from assms(1) have le: "off + length src \<le> length b"
    and b': "b' = take off b @ map Some src @ drop (off + length src) b"
    by (auto simp: memcpy_at_def split: if_splits)
  have "b' ! i \<noteq> None" if "i < n" for i
  proof -
    have "i < length b" "b ! i \<noteq> None"
      using assms(2) that by (auto simp: read_block_def list_all_length split: if_splits)
    then show ?thesis using le by (auto simp: b' nth_append)
  qed
  then show ?thesis using assms memcpy_at_length [OF assms(1)]
    by (auto simp: read_block_def list_all_length split: if_splits)
qed

lemma read_block_realloc:
  assumes "length b \<le> n" "off + m \<le> length b"
  shows "read_block (realloc_block b n) off m = read_block b off m"
  using assms by (simp add: read_block_def realloc_block_def)

lemma expand_kv:
  assumes init: "read_block (kv_key kv) 0 (kv_capacity kv) \<noteq> None" and len: "length (kv_key kv) \<le> kv_capacity kv * kv_step kv"
    and pos: "0 < kv_step kv" "0 < kv_rate kv"
  shows "\<exists>b. keyvalue_expand True nb kv = Some (0, kv\<lparr>kv_capacity := kv_capacity kv + kv_rate kv, kv_base := nb, kv_key := b\<rparr>)
    \<and> (\<forall>off m. off + m \<le> kv_capacity kv \<longrightarrow> read_block b off m = read_block (kv_key kv) off m)
    \<and> read_block b 0 (kv_capacity kv + kv_rate kv) \<noteq> None \<and> length b = (kv_capacity kv + kv_rate kv) * kv_step kv"
proof -
  let ?c = "kv_capacity kv" and ?r = "kv_rate kv" and ?s = "kv_step kv"
  let ?b = "realloc_block (kv_key kv) ((?c + ?r) * ?s)"
  have cl: "?c \<le> length (kv_key kv)" using init by (auto simp: read_block_def split: if_splits)
  have le: "length (kv_key kv) \<le> (?c + ?r) * ?s" using len by (simp add: add_mult_distrib)
  have lb: "length ?b = (?c + ?r) * ?s" using le by (simp add: realloc_block_def)
  have "?c + ?r \<le> (?c + ?r) * ?s" using pos(1) by simp
  then obtain b where b: "memcpy_at ?b ?c (replicate ?r 0) = Some b" using lb by (simp add: memcpy_at_def)
  have keep: "read_block b off m = read_block (kv_key kv) off m" if "off + m \<le> ?c" for off m
    using read_block_frame [OF b, of off m] read_block_realloc [OF le, of off m] that cl by simp
  obtain xs where "read_block (kv_key kv) 0 ?c = Some xs" using init by auto
  then have "read_block ?b 0 ?c = Some xs" using read_block_realloc [OF le, of 0 ?c] cl by simp
  from read_block_append [OF b this] have "read_block b 0 (?c + ?r) \<noteq> None" by simp
  moreover have "length b = (?c + ?r) * ?s" using memcpy_at_length [OF b] lb by simp
  moreover have "keyvalue_expand True nb kv = Some (0, kv\<lparr>kv_capacity := ?c + ?r, kv_base := nb, kv_key := b\<rparr>)"
    using pos(2) b by (simp add: keyvalue_expand_def keyvalue_resize_def Let_def)
  ultimately show ?thesis using keep by blast
qed

lemma keyvalue_push_spec:
  assumes ok: "kv_ok kv" and el: "kv_step kv \<le> length el" and i: "kv_index kv < 2 ^ 31"
  shows "\<exists>kv' b. keyvalue_push True nb el kv = Some (Some (b, kv_index kv), kv') \<and> kv_ok kv' \<and> kv_base kv' = b
    \<and> kv_index kv' = kv_index kv + kv_step kv \<and> kv_step kv' = kv_step kv
    \<and> (kv_index kv + 2 * kv_step kv \<le> kv_capacity kv \<longrightarrow> kv_capacity kv' = kv_capacity kv)
    \<and> b = (if kv_index kv + 2 * kv_step kv \<le> kv_capacity kv then kv_base kv else nb)
    \<and> read_block (kv_key kv') (kv_index kv) (kv_step kv) = Some (take (kv_step kv) el)
    \<and> (\<forall>off. off + kv_step kv \<le> kv_index kv \<longrightarrow> read_block (kv_key kv') off (kv_step kv) = read_block (kv_key kv) off (kv_step kv))"
proof -
  let ?i = "kv_index kv" and ?s = "kv_step kv" and ?c = "kv_capacity kv" and ?src = "take (kv_step kv) el"
  have o: "0 < ?s" "?s \<le> kv_rate kv" "?i + ?s \<le> ?c" "read_block (kv_key kv) 0 ?c \<noteq> None" "length (kv_key kv) \<le> ?c * ?s"
    using ok by (simp_all add: kv_ok_def)
  have cl: "?c \<le> length (kv_key kv)" using o(4) by (auto simp: read_block_def split: if_splits)
  have ls: "length ?src = ?s" using el by simp
  have c: "c_int (int ?i) = int ?i" using i by (simp add: c_int_id)
  have "?i + length ?src \<le> length (kv_key kv)" using o(3) cl ls by linarith
  then obtain b where b: "memcpy_at (kv_key kv) ?i ?src = Some b" by (simp add: memcpy_at_def)
  have rd: "read_block b ?i ?s = Some ?src" using read_after_memcpy [OF b] ls by simp
  have keep: "read_block b off ?s = read_block (kv_key kv) off ?s" if "off + ?s \<le> ?i" for off
    using read_block_frame [OF b] that by simp
  define kv1 where "kv1 = kv\<lparr>kv_key := b, kv_index := ?i + ?s\<rparr>"
  have k1: "read_block (kv_key kv1) 0 (kv_capacity kv1) \<noteq> None" "length (kv_key kv1) \<le> kv_capacity kv1 * kv_step kv1"
    using memcpy_keeps_init [OF b o(4)] memcpy_at_length [OF b] o(5) by (simp_all add: kv1_def)
  have full: "keyvalue_full kv1 \<longleftrightarrow> \<not> ?i + 2 * ?s \<le> ?c"
    using o(3) by (auto simp: keyvalue_full_def kv1_def)
  have p: "keyvalue_push True nb el kv = (if keyvalue_full kv1 then
      (case keyvalue_expand True nb kv1 of None \<Rightarrow> None
       | Some (rc, kv2) \<Rightarrow> if rc \<noteq> 0 then Some (None, kv2) else Some (Some (kv_base kv2, ?i), kv2))
      else Some (Some (kv_base kv1, ?i), kv1))"
    using el b by (simp add: keyvalue_push_def c kv1_def Let_def split: option.split)
  show ?thesis
  proof (cases "keyvalue_full kv1")
    case False
    then have "kv_ok kv1" using o k1 full by (simp add: kv_ok_def kv1_def)
    then show ?thesis using False full p rd keep by (auto simp: kv1_def)
  next
    case True
    have "0 < kv_step kv1" "0 < kv_rate kv1" using o by (simp_all add: kv1_def)
    from expand_kv [OF k1 this, of nb] obtain b2 where
      e: "keyvalue_expand True nb kv1 = Some (0, kv1\<lparr>kv_capacity := kv_capacity kv1 + kv_rate kv1, kv_base := nb, kv_key := b2\<rparr>)"
      and k2: "\<forall>off m. off + m \<le> kv_capacity kv1 \<longrightarrow> read_block b2 off m = read_block (kv_key kv1) off m"
      and i2: "read_block b2 0 (kv_capacity kv1 + kv_rate kv1) \<noteq> None" "length b2 = (kv_capacity kv1 + kv_rate kv1) * kv_step kv1"
      by blast
    let ?kv = "kv1\<lparr>kv_capacity := kv_capacity kv1 + kv_rate kv1, kv_base := nb, kv_key := b2\<rparr>"
    have "kv_ok ?kv" using o i2 by (simp add: kv_ok_def kv1_def)
    moreover have "read_block b2 ?i ?s = Some ?src" using k2 [rule_format, of ?i ?s] o(3) rd by (simp add: kv1_def)
    moreover have "read_block b2 off ?s = read_block (kv_key kv) off ?s" if "off + ?s \<le> ?i" for off
      using k2 [rule_format, of off ?s] o(3) that keep [OF that] by (simp add: kv1_def)
    ultimately show ?thesis using True full p e by (auto simp: kv1_def)
  qed
qed

text \<open>
  Pushing a digest. On a store in order with an index below \<open>2^31\<close> and memory available,
  \<open>keyvalue_push\<close> stays inside the block and returns a pointer where the digest is read back;
  the entries before it keep their bytes. But when the push fills the store, \<open>realloc\<close> may
  return another block, and then every pointer handed out before dangles: the hash map that
  keeps them as keys reads freed memory.
\<close>

theorem keyvalue_push_exact:
  assumes "kv_ok kv" "kv_step kv \<le> length el" "kv_index kv < 2 ^ 31"
  shows "\<exists>p kv'. keyvalue_push True nb el kv = Some (Some p, kv') \<and> kv_ok kv' \<and> kv_read kv' p = Some (take (kv_step kv) el)
    \<and> (if kv_index kv + 2 * kv_step kv \<le> kv_capacity kv \<or> nb = kv_base kv
       then \<forall>off. off + kv_step kv \<le> kv_index kv \<longrightarrow> kv_read kv' (kv_base kv, off) = kv_read kv (kv_base kv, off)
       else \<forall>off. kv_read kv' (kv_base kv, off) = None)"
proof -
  obtain kv' b where p: "keyvalue_push True nb el kv = Some (Some (b, kv_index kv), kv')" "kv_ok kv'" "kv_base kv' = b"
    "kv_step kv' = kv_step kv" "b = (if kv_index kv + 2 * kv_step kv \<le> kv_capacity kv then kv_base kv else nb)"
    "read_block (kv_key kv') (kv_index kv) (kv_step kv) = Some (take (kv_step kv) el)"
    "\<forall>off. off + kv_step kv \<le> kv_index kv \<longrightarrow> read_block (kv_key kv') off (kv_step kv) = read_block (kv_key kv) off (kv_step kv)"
    using keyvalue_push_spec [OF assms, of nb] by blast
  show ?thesis
    by (intro exI [of _ "(b, kv_index kv)"] exI [of _ kv']) (use p in \<open>simp add: kv_read_def\<close>)
qed

definition demo_kv :: keyvalue where
  "demo_kv = \<lparr>kv_index = 2, kv_capacity = 4, kv_rate = 4, kv_step = 2, kv_base = 1, kv_key = [Some 1, Some 2, Some 0, Some 0]\<rparr>"

theorem keyvalue_push_exact_witness:
  "\<exists>p kv'. keyvalue_push True 2 [7, 8] demo_kv = Some (Some p, kv') \<and> kv_read kv' p = Some [7, 8]
    \<and> kv_read demo_kv (1, 0) = Some [1, 2] \<and> kv_read kv' (1, 0) = None"
proof -
  have "kv_ok demo_kv" by (simp add: kv_ok_def demo_kv_def read_block_def)
  moreover have "kv_step demo_kv = 2" "kv_index demo_kv = 2" "kv_base demo_kv = 1" "kv_capacity demo_kv = 4"
    "kv_read demo_kv (1, 0) = Some [1, 2]" by (simp_all add: demo_kv_def kv_read_def read_block_def)
  ultimately show ?thesis using keyvalue_push_exact [of demo_kv "[7, 8]" 2] by auto
qed

end
