(* ===== verification/Hashmap.thy ===== *)
theory Hashmap
  imports DArray Keyvalue Hash_Algos
begin

text \<open>
  The chained hash map: \<open>lcthw/hashmap.c\<close>. The buckets are a dynamic array of dynamic arrays of
  nodes. Keys and data are pointers of the client; comparison and hash are fields of the map.
  Every node and every bucket is referenced from one cell only, so an updated bucket is written
  back to its cell, and two node pointers are equal when they are in the same cell. \<open>None\<close> is a
  memory fault; the allocations of a call are in \<open>hm_env\<close>.
\<close>

section \<open>Data\<close>

record ('k, 'v) hnode =
  hn_key :: 'k
  hn_data :: "'v option"
  hn_hash :: u32
  hn_next :: keyvalue

record ('k, 'v) hashmap =
  hm_buckets :: "('k, 'v) hnode darray darray"
  hm_compare :: "'k \<Rightarrow> 'k \<Rightarrow> int"
  hm_hash :: "'k \<Rightarrow> u32"

record hm_env =
  he_arr :: bool
  he_cells :: bool
  he_node :: bool
  he_kv :: bool
  he_key :: bool
  he_base :: nat
  he_grow :: bool

definition DEFAULT_NUMBER_OF_BUCKETS :: nat where "DEFAULT_NUMBER_OF_BUCKETS = 100"

section \<open>Operations\<close>

text \<open>\<open>map->buckets->end\<close> is written before the result of \<open>DArray_create\<close> is checked.\<close>

definition Hashmap_create ::
  "bool \<Rightarrow> bool \<Rightarrow> bool \<Rightarrow> nat \<Rightarrow> ('k \<Rightarrow> 'k \<Rightarrow> int) \<Rightarrow> ('k \<Rightarrow> u32) \<Rightarrow> ('k, 'v) hashmap option option" where
  "Hashmap_create ok1 ok2 ok3 buckets_len compare hash =
     (let buckets_n = (if 0 < buckets_len then buckets_len else DEFAULT_NUMBER_OF_BUCKETS) in
      if \<not> ok1 then Some None
      else case DArray_create ok2 ok3 8 buckets_n of None \<Rightarrow> None
      | Some a \<Rightarrow> Some (Some \<lparr>hm_buckets = a\<lparr>da_end := da_max a\<rparr>, hm_compare = compare, hm_hash = hash\<rparr>))"

definition Hashmap_node_create :: "hm_env \<Rightarrow> u32 \<Rightarrow> 'k \<Rightarrow> 'v option \<Rightarrow> ('k, 'v) hnode option" where
  "Hashmap_node_create e hash key data =
     (if \<not> he_node e then None
      else case keyvalue_create (he_kv e) (he_key e) (he_base e) 1 SHA_BYTES of None \<Rightarrow> None
      | Some kv \<Rightarrow> Some \<lparr>hn_key = key, hn_data = data, hn_hash = hash, hn_next = kv\<rparr>)"

definition bucket_index :: "('k, 'v) hashmap \<Rightarrow> 'k \<Rightarrow> nat" where
  "bucket_index hm key = unat (hm_hash hm key) mod da_max (hm_buckets hm)"

text \<open>The bucket of a key, created when \<open>create\<close> is set and there is none.\<close>

definition Hashmap_find_bucket ::
  "hm_env \<Rightarrow> bool \<Rightarrow> 'k \<Rightarrow> ('k, 'v) hashmap \<Rightarrow> (('k, 'v) hnode darray option \<times> ('k, 'v) hashmap) option" where
  "Hashmap_find_bucket e create key hm =
     (let bucket_n = bucket_index hm key in
      case DArray_get bucket_n (hm_buckets hm) of None \<Rightarrow> None
      | Some (Some bucket) \<Rightarrow> Some (Some bucket, hm)
      | Some None \<Rightarrow>
        if \<not> create then Some (None, hm)
        else case DArray_create (he_arr e) (he_cells e) 8 DEFAULT_NUMBER_OF_BUCKETS of None \<Rightarrow> Some (None, hm)
        | Some bucket \<Rightarrow>
          map_option (\<lambda>bs. (Some bucket, hm\<lparr>hm_buckets := bs\<rparr>)) (DArray_set bucket_n (Some bucket) (hm_buckets hm)))"

text \<open>The bucket after an operation on it, in its cell.\<close>

definition put_bucket :: "'k \<Rightarrow> ('k, 'v) hnode darray \<Rightarrow> ('k, 'v) hashmap \<Rightarrow> ('k, 'v) hashmap" where
  "put_bucket key bucket hm =
     hm\<lparr>hm_buckets := (hm_buckets hm)\<lparr>da_cells := (da_cells (hm_buckets hm))[bucket_index hm key := Ptr (Some bucket)]\<rparr>\<rparr>"

definition Hashmap_set :: "hm_env \<Rightarrow> 'k \<Rightarrow> 'v option \<Rightarrow> ('k, 'v) hashmap \<Rightarrow> (int \<times> ('k, 'v) hashmap) option" where
  "Hashmap_set e key data hm =
     (case Hashmap_find_bucket e True key hm of None \<Rightarrow> None
      | Some (None, map1) \<Rightarrow> Some (-1, map1)
      | Some (Some bucket, map1) \<Rightarrow>
        (case Hashmap_node_create e (hm_hash hm key) key data of None \<Rightarrow> Some (-1, map1)
         | Some node \<Rightarrow>
           (case DArray_push (he_grow e) (Some node) bucket of None \<Rightarrow> None
            | Some (rc, bucket') \<Rightarrow> Some (0, put_bucket key bucket' map1))))"

text \<open>The loop of \<open>Hashmap_get_node\<close> with \<open>k\<close> entries to go from \<open>i\<close>; the inner \<open>None\<close> is -1.\<close>

fun get_node_loop ::
  "('k \<Rightarrow> 'k \<Rightarrow> int) \<Rightarrow> u32 \<Rightarrow> 'k \<Rightarrow> nat \<Rightarrow> nat \<Rightarrow> ('k, 'v) hnode darray \<Rightarrow> nat option option" where
  "get_node_loop compare hash key 0 i bucket = Some None"
| "get_node_loop compare hash key (Suc k) i bucket =
     (case DArray_get i bucket of None \<Rightarrow> None
      | Some None \<Rightarrow> None
      | Some (Some node) \<Rightarrow>
        if hn_hash node = hash \<and> compare (hn_key node) key = 0 then Some (Some i)
        else get_node_loop compare hash key k (Suc i) bucket)"

definition Hashmap_get_node :: "('k, 'v) hashmap \<Rightarrow> u32 \<Rightarrow> ('k, 'v) hnode darray \<Rightarrow> 'k \<Rightarrow> nat option option" where
  "Hashmap_get_node hm hash bucket key = get_node_loop (hm_compare hm) hash key (da_end bucket) 0 bucket"

definition no_env :: hm_env where
  "no_env = \<lparr>he_arr = False, he_cells = False, he_node = False, he_kv = False, he_key = False, he_base = 0, he_grow = False\<rparr>"

definition Hashmap_getnode :: "'k \<Rightarrow> ('k, 'v) hashmap \<Rightarrow> ('k, 'v) hnode option option" where
  "Hashmap_getnode key hm =
     (case Hashmap_find_bucket no_env False key hm of None \<Rightarrow> None
      | Some (None, _) \<Rightarrow> Some None
      | Some (Some bucket, _) \<Rightarrow>
        (case Hashmap_get_node hm (hm_hash hm key) bucket key of None \<Rightarrow> None
         | Some None \<Rightarrow> Some None
         | Some (Some i) \<Rightarrow> DArray_get i bucket))"

definition Hashmap_get :: "'k \<Rightarrow> ('k, 'v) hashmap \<Rightarrow> 'v option option" where
  "Hashmap_get key hm =
     (case Hashmap_getnode key hm of None \<Rightarrow> None
      | Some None \<Rightarrow> Some None
      | Some (Some node) \<Rightarrow> Some (hn_data node))"

text \<open>\<open>Hashmap_delete\<close> moves the last node into the hole; \<open>node->next\<close> is not freed.\<close>

definition Hashmap_delete :: "bool \<Rightarrow> 'k \<Rightarrow> ('k, 'v) hashmap \<Rightarrow> ('v option \<times> ('k, 'v) hashmap) option" where
  "Hashmap_delete ok key hm =
     (case Hashmap_find_bucket no_env False key hm of None \<Rightarrow> None
      | Some (None, _) \<Rightarrow> Some (None, hm)
      | Some (Some bucket, _) \<Rightarrow>
        (case Hashmap_get_node hm (hm_hash hm key) bucket key of None \<Rightarrow> None
         | Some None \<Rightarrow> Some (None, hm)
         | Some (Some i) \<Rightarrow>
           (case DArray_get i bucket of None \<Rightarrow> None
            | Some None \<Rightarrow> None
            | Some (Some node) \<Rightarrow>
              (case DArray_pop ok bucket of None \<Rightarrow> None
               | Some (ending, b1) \<Rightarrow>
                 (if i \<noteq> da_end bucket - 1
                  then map_option (\<lambda>b2. (hn_data node, put_bucket key b2 hm)) (DArray_set i ending b1)
                  else Some (hn_data node, put_bucket key b1 hm))))))"

text \<open>\<open>Hashmap_traverse\<close>: the callback may stop the walk with a result that is not 0.\<close>

fun traverse_bucket ::
  "(('k, 'v) hnode \<Rightarrow> 's \<Rightarrow> int \<times> 's) \<Rightarrow> nat \<Rightarrow> nat \<Rightarrow> ('k, 'v) hnode darray \<Rightarrow> 's \<Rightarrow> (int \<times> 's) option" where
  "traverse_bucket cb 0 j bucket s = Some (0, s)"
| "traverse_bucket cb (Suc k) j bucket s =
     (case DArray_get j bucket of None \<Rightarrow> None
      | Some None \<Rightarrow> None
      | Some (Some node) \<Rightarrow>
        (case cb node s of (rc, s') \<Rightarrow> if rc \<noteq> 0 then Some (rc, s') else traverse_bucket cb k (Suc j) bucket s'))"

fun traverse_loop ::
  "(('k, 'v) hnode \<Rightarrow> 's \<Rightarrow> int \<times> 's) \<Rightarrow> nat \<Rightarrow> nat \<Rightarrow> ('k, 'v) hnode darray darray \<Rightarrow> 's \<Rightarrow> (int \<times> 's) option" where
  "traverse_loop cb 0 i buckets s = Some (0, s)"
| "traverse_loop cb (Suc k) i buckets s =
     (case DArray_get i buckets of None \<Rightarrow> None
      | Some None \<Rightarrow> traverse_loop cb k (Suc i) buckets s
      | Some (Some bucket) \<Rightarrow>
        (case traverse_bucket cb (da_end bucket) 0 bucket s of None \<Rightarrow> None
         | Some (rc, s') \<Rightarrow> if rc \<noteq> 0 then Some (rc, s') else traverse_loop cb k (Suc i) buckets s'))"

definition Hashmap_traverse :: "(('k, 'v) hnode \<Rightarrow> 's \<Rightarrow> int \<times> 's) \<Rightarrow> ('k, 'v) hashmap \<Rightarrow> 's \<Rightarrow> (int \<times> 's) option" where
  "Hashmap_traverse cb hm s = traverse_loop cb (da_end (hm_buckets hm)) 0 (hm_buckets hm) s"

text \<open>\<open>Hashmap_destroy\<close> visits the same nodes and frees each with its \<open>next\<close>; the result lists them.\<close>

definition Hashmap_destroy :: "('k, 'v) hashmap \<Rightarrow> ('k, 'v) hnode list option" where
  "Hashmap_destroy hm = map_option snd (Hashmap_traverse (\<lambda>node freed. (0, freed @ [node])) hm [])"

section \<open>Invariant\<close>

definition bucket_nodes :: "('k, 'v) hnode darray option \<Rightarrow> ('k, 'v) hnode list" where
  "bucket_nodes b = (case b of None \<Rightarrow> [] | Some d \<Rightarrow> map the (da_list d))"

definition bucket_ok :: "('k, 'v) hashmap \<Rightarrow> nat \<Rightarrow> ('k, 'v) hnode darray \<Rightarrow> bool" where
  "bucket_ok hm i d \<longleftrightarrow> da_ok d \<and> None \<notin> set (da_list d)
     \<and> (\<forall>node \<in> set (bucket_nodes (Some d)). hn_hash node = hm_hash hm (hn_key node) \<and> bucket_index hm (hn_key node) = i)"

definition hm_cell :: "('k, 'v) hashmap \<Rightarrow> nat \<Rightarrow> ('k, 'v) hnode darray option" where
  "hm_cell hm i = the_ptr (da_cells (hm_buckets hm) ! i)"

definition hm_ok :: "('k, 'v) hashmap \<Rightarrow> bool" where
  "hm_ok hm \<longleftrightarrow> 0 < da_max (hm_buckets hm) \<and> da_end (hm_buckets hm) = da_max (hm_buckets hm)
     \<and> length (da_cells (hm_buckets hm)) = da_max (hm_buckets hm)
     \<and> Garbage \<notin> set (da_cells (hm_buckets hm))
     \<and> (\<forall>i d. i < da_max (hm_buckets hm) \<longrightarrow> hm_cell hm i = Some d \<longrightarrow> bucket_ok hm i d)"

text \<open>The nodes that a lookup of \<open>key\<close> passes.\<close>

definition hm_nodes :: "('k, 'v) hashmap \<Rightarrow> 'k \<Rightarrow> ('k, 'v) hnode list" where
  "hm_nodes hm key = bucket_nodes (hm_cell hm (bucket_index hm key))"

definition matches :: "('k, 'v) hashmap \<Rightarrow> 'k \<Rightarrow> ('k, 'v) hnode \<Rightarrow> bool" where
  "matches hm key node \<longleftrightarrow> hn_hash node = hm_hash hm key \<and> hm_compare hm (hn_key node) key = 0"

lemma bucket_index_less: "hm_ok hm \<Longrightarrow> bucket_index hm key < da_max (hm_buckets hm)"
  by (simp add: bucket_index_def hm_ok_def)

lemma cell_ptr:
  assumes "hm_ok hm" "i < da_max (hm_buckets hm)"
  shows "da_cells (hm_buckets hm) ! i = Ptr (hm_cell hm i)" "DArray_get i (hm_buckets hm) = Some (hm_cell hm i)"
proof -
  have "da_cells (hm_buckets hm) ! i \<in> set (da_cells (hm_buckets hm))" using assms by (simp add: hm_ok_def)
  then have "da_cells (hm_buckets hm) ! i \<noteq> Garbage" using assms(1) by (metis hm_ok_def)
  then show 1: "da_cells (hm_buckets hm) ! i = Ptr (hm_cell hm i)"
    by (cases "da_cells (hm_buckets hm) ! i") (auto simp: hm_cell_def)
  show "DArray_get i (hm_buckets hm) = Some (hm_cell hm i)"
    using assms by (simp add: DArray_get_def 1 hm_ok_def)
qed

lemma bucket_get:
  assumes "bucket_ok hm i d" "j < da_end d"
  shows "DArray_get j d = Some (Some (bucket_nodes (Some d) ! j))"
proof -
  have ok: "da_ok d" "None \<notin> set (da_list d)" using assms(1) by (simp_all add: bucket_ok_def)
  have j: "j < length (da_list d)" using assms(2) length_da_list [OF ok(1)] by simp
  then have "da_list d ! j \<noteq> None" using ok(2) nth_mem by metis
  then show ?thesis using da_get_ok [OF ok(1) assms(2)] j by (simp add: bucket_nodes_def)
qed

lemma bucket_nodes_length: "bucket_ok hm i d \<Longrightarrow> length (bucket_nodes (Some d)) = da_end d"
  by (simp add: bucket_ok_def bucket_nodes_def length_da_list)

lemma upt_find_Cons: "i < n \<Longrightarrow> find P [i..<n] = (if P i then Some i else find P [Suc i..<n])"
  by (simp add: upt_conv_Cons)

lemma get_node_loop_find:
  assumes "bucket_ok hm b d" "i \<le> da_end d"
  shows "get_node_loop (hm_compare hm) (hm_hash hm key) key (da_end d - i) i d
    = Some (find (\<lambda>j. matches hm key (bucket_nodes (Some d) ! j)) [i..<da_end d])"
  using assms(2)
proof (induction "da_end d - i" arbitrary: i)
  case (Suc k)
  then have i: "i < da_end d" "da_end d - Suc i = k" by auto
  show ?case
    using Suc(1) [of "Suc i"] i Suc(2) bucket_get [OF assms(1) i(1)]
    by (simp add: Suc(2) [symmetric] upt_find_Cons matches_def)
qed simp

lemma find_map_nth: "map_option ((!) xs) (find (\<lambda>j. P (xs ! j)) [0..<length xs]) = find P xs"
proof -
  have "find P (map f js) = map_option f (find (\<lambda>j. P (f j)) js)" for f :: "nat \<Rightarrow> 'a" and js
    by (induction js) auto
  from this [of "(!) xs" "[0..<length xs]"] show ?thesis by (simp add: map_nth)
qed

lemma find_bucket_look:
  assumes "hm_ok hm"
  shows "Hashmap_find_bucket e False key hm = Some (hm_cell hm (bucket_index hm key), hm)"
  using cell_ptr [OF assms bucket_index_less [OF assms]]
  by (simp add: Hashmap_find_bucket_def Let_def split: option.split)

lemma cell_bucket_ok: "hm_ok hm \<Longrightarrow> hm_cell hm (bucket_index hm key) = Some d \<Longrightarrow> bucket_ok hm (bucket_index hm key) d"
  using bucket_index_less [of hm key] by (simp add: hm_ok_def)

text \<open>A lookup returns the first node of the bucket that matches.\<close>

lemma getnode_find:
  assumes "hm_ok hm"
  shows "Hashmap_getnode key hm = Some (find (matches hm key) (hm_nodes hm key))"
proof (cases "hm_cell hm (bucket_index hm key)")
  case None
  then show ?thesis by (simp add: Hashmap_getnode_def find_bucket_look [OF assms] hm_nodes_def bucket_nodes_def)
next
  case (Some d)
  note ok = cell_bucket_ok [OF assms Some]
  let ?f = "find (\<lambda>j. matches hm key (bucket_nodes (Some d) ! j)) [0..<da_end d]"
  have l: "Hashmap_get_node hm (hm_hash hm key) d key = Some ?f"
    using get_node_loop_find [OF ok, of 0] by (simp add: Hashmap_get_node_def)
  have f: "map_option ((!) (bucket_nodes (Some d))) ?f = find (matches hm key) (hm_nodes hm key)"
    using find_map_nth [of "bucket_nodes (Some d)" "matches hm key"] by (simp add: hm_nodes_def Some bucket_nodes_length [OF ok])
  show ?thesis
  proof (cases ?f)
    case None
    then show ?thesis using f l by (simp add: Hashmap_getnode_def find_bucket_look [OF assms] Some)
  next
    case (Some i)
    then have "i < da_end d" by (auto simp: find_Some_iff)
    from bucket_get [OF ok this] show ?thesis
      using f l Some by (simp add: Hashmap_getnode_def find_bucket_look [OF assms] \<open>hm_cell hm _ = Some d\<close>)
  qed
qed

lemma Hashmap_get_find:
  "hm_ok hm \<Longrightarrow> Hashmap_get key hm = Some (case find (matches hm key) (hm_nodes hm key) of None \<Rightarrow> None | Some node \<Rightarrow> hn_data node)"
  by (simp add: Hashmap_get_def getnode_find split: option.split)

section \<open>Updates\<close>

lemma put_bucket_simps [simp]:
  "bucket_index (put_bucket key d hm) k = bucket_index hm k" "hm_hash (put_bucket key d hm) = hm_hash hm"
  "hm_compare (put_bucket key d hm) = hm_compare hm" "da_max (hm_buckets (put_bucket key d hm)) = da_max (hm_buckets hm)"
  "matches (put_bucket key d hm) = matches hm" "bucket_ok (put_bucket key d hm) = bucket_ok hm"
  by (auto simp: put_bucket_def bucket_index_def matches_def bucket_ok_def fun_eq_iff)

lemma put_bucket_cell:
  assumes "hm_ok hm" "i < da_max (hm_buckets hm)"
  shows "hm_cell (put_bucket key d hm) i = (if i = bucket_index hm key then Some d else hm_cell hm i)"
  using assms by (simp add: put_bucket_def hm_cell_def hm_ok_def)

lemma put_bucket_ok:
  assumes "hm_ok hm" "bucket_ok hm (bucket_index hm key) d"
  shows "hm_ok (put_bucket key d hm)"
proof -
  let ?h = "put_bucket key d hm"
  have "Garbage \<notin> set (da_cells (hm_buckets ?h))"
    using assms(1) set_update_subset_insert by (fastforce simp: put_bucket_def hm_ok_def)
  moreover have "bucket_ok ?h i b" if "i < da_max (hm_buckets ?h)" "hm_cell ?h i = Some b" for i b
    using that put_bucket_cell [OF assms(1), of i key d] assms by (auto simp: hm_ok_def split: if_splits)
  ultimately show ?thesis using assms(1) by (simp add: hm_ok_def put_bucket_def)
qed

lemma put_bucket_nodes:
  assumes "hm_ok hm"
  shows "hm_nodes (put_bucket key d hm) k =
    (if bucket_index hm k = bucket_index hm key then bucket_nodes (Some d) else hm_nodes hm k)"
  using put_bucket_cell [OF assms bucket_index_less [OF assms]] by (simp add: hm_nodes_def)

lemma find_bucket_create:
  assumes ok: "hm_ok hm" and e: "he_arr e" "he_cells e"
  shows "\<exists>d hm1. Hashmap_find_bucket e True key hm = Some (Some d, hm1) \<and> hm_ok hm1 \<and> bucket_ok hm (bucket_index hm key) d
    \<and> hm1 = put_bucket key d hm \<and> bucket_nodes (Some d) = hm_nodes hm key"
proof -
  let ?i = "bucket_index hm key"
  note i = bucket_index_less [OF ok, of key] and get = cell_ptr [OF ok bucket_index_less [OF ok, of key]]
  show ?thesis
  proof (cases "hm_cell hm ?i")
    case (Some d)
    have "put_bucket key d hm = hm" using get(1) by (simp add: put_bucket_def Some list_update_same_conv i ok [unfolded hm_ok_def])
    then show ?thesis
      using get(2) ok cell_bucket_ok [OF ok Some] by (simp add: Hashmap_find_bucket_def Let_def Some hm_nodes_def)
  next
    case None
    obtain d :: "('a, 'b) hnode darray" where d: "DArray_create True True 8 DEFAULT_NUMBER_OF_BUCKETS = Some d" "da_ok d" "da_list d = []"
      using create_ok [of DEFAULT_NUMBER_OF_BUCKETS 8] by (auto simp: DEFAULT_NUMBER_OF_BUCKETS_def)
    have bok: "bucket_ok hm ?i d" using d by (simp add: bucket_ok_def bucket_nodes_def)
    have "DArray_set ?i (Some d) (hm_buckets hm) = Some (hm_buckets (put_bucket key d hm))"
      using i ok by (simp add: DArray_set_def hm_ok_def put_bucket_def)
    then have "Hashmap_find_bucket e True key hm = Some (Some d, put_bucket key d hm)"
      using get(2) d(1) e by (simp add: Hashmap_find_bucket_def Let_def None put_bucket_def)
    then show ?thesis using put_bucket_ok [OF ok bok] bok d(3) by (simp add: hm_nodes_def None bucket_nodes_def)
  qed
qed

definition env_ok :: "hm_env \<Rightarrow> bool" where
  "env_ok e \<longleftrightarrow> he_arr e \<and> he_cells e \<and> he_node e \<and> he_kv e \<and> he_key e \<and> he_grow e"

lemma put_put_bucket [simp]: "put_bucket key d (put_bucket key c hm) = put_bucket key d hm"
  by (simp add: put_bucket_def bucket_index_def)

text \<open>\<open>Hashmap_set\<close> appends a node to the bucket of the key, whether or not the key is there.\<close>

lemma set_appends:
  assumes ok: "hm_ok hm" and e: "env_ok e"
  shows "\<exists>node hm'. Hashmap_set e key data hm = Some (0, hm') \<and> hm_ok hm'
    \<and> hn_key node = key \<and> hn_data node = data \<and> hn_hash node = hm_hash hm key
    \<and> hm_hash hm' = hm_hash hm \<and> hm_compare hm' = hm_compare hm \<and> bucket_index hm' = bucket_index hm
    \<and> (\<forall>k. hm_nodes hm' k = hm_nodes hm k @ (if bucket_index hm k = bucket_index hm key then [node] else []))"
proof -
  obtain d hm1 where d: "Hashmap_find_bucket e True key hm = Some (Some d, hm1)" "bucket_ok hm (bucket_index hm key) d"
    "hm1 = put_bucket key d hm" "bucket_nodes (Some d) = hm_nodes hm key"
    using find_bucket_create [OF ok, of e key] e by (auto simp: env_ok_def)
  obtain kv where "keyvalue_create True True (he_base e) 1 SHA_BYTES = Some kv"
    using keyvalue_create_ok [of SHA_BYTES 1 "he_base e"] by (auto simp: SHA_BYTES_def)
  then obtain node where n: "Hashmap_node_create e (hm_hash hm key) key data = Some node" "hn_key node = key"
    "hn_data node = data" "hn_hash node = hm_hash hm key"
    using e by (simp add: Hashmap_node_create_def env_ok_def)
  obtain d' where d': "DArray_push True (Some node) d = Some (0, d')" "da_ok d'" "da_list d' = da_list d @ [Some node]"
    using push_ok [of d "Some node"] d(2) by (auto simp: bucket_ok_def)
  have nodes: "bucket_nodes (Some d') = hm_nodes hm key @ [node]" using d'(3) d(4) by (simp add: bucket_nodes_def)
  have bok: "bucket_ok hm (bucket_index hm key) d'"
    using d(2) d' n(2,4) by (auto simp: bucket_ok_def bucket_nodes_def)
  have "Hashmap_set e key data hm = Some (0, put_bucket key d' hm)"
    using d(1,3) n(1) d'(1) e by (simp add: Hashmap_set_def env_ok_def)
  moreover have "hm_nodes (put_bucket key d' hm) k = hm_nodes hm k @ (if bucket_index hm k = bucket_index hm key then [node] else [])" for k
    using nodes by (simp add: put_bucket_nodes [OF ok]) (simp add: hm_nodes_def)
  ultimately show ?thesis using put_bucket_ok [OF ok bok] n by (auto simp: fun_eq_iff intro!: exI [of _ node])
qed

text \<open>Removal from an array by moving the last element into the hole.\<close>

definition swap_remove :: "nat \<Rightarrow> 'a list \<Rightarrow> 'a list" where
  "swap_remove i xs = (if i < length xs - 1 then (butlast xs)[i := last xs] else butlast xs)"

lemma mset_swap_remove:
  assumes "i < length xs"
  shows "mset (swap_remove i xs) = mset xs - {#xs ! i#}"
proof -
  obtain ys y where xs: "xs = ys @ [y]" using assms by (cases xs rule: rev_cases) auto
  show ?thesis
  proof (cases "i < length ys")
    case True
    then have "ys ! i \<in># mset ys" by simp
    then show ?thesis using True by (simp add: swap_remove_def xs mset_update nth_append add.commute)
  next
    case False
    then show ?thesis using assms by (simp add: swap_remove_def xs nth_append less_Suc_eq)
  qed
qed

text \<open>Taking element \<open>i\<close> out of a bucket: the last element is popped and, unless it is the one
  taken out, put in its place.\<close>

lemma bucket_swap_out:
  assumes d: "da_ok d" and lst: "da_list d = map Some ns" and i: "i < length ns"
  obtains b1 where "DArray_pop True d = Some (Some (last ns), b1)" "da_end b1 = length ns - 1"
    "if i = length ns - 1 then da_ok b1 \<and> da_list b1 = map Some (swap_remove i ns)
     else \<exists>b2. DArray_set i (Some (last ns)) b1 = Some b2 \<and> da_ok b2 \<and> da_list b2 = map Some (swap_remove i ns)"
proof -
  have "ns \<noteq> []" using i by auto
  then obtain b1 where b1: "DArray_pop True d = Some (Some (last ns), b1)" "da_ok b1" "da_list b1 = map Some (butlast ns)"
    using pop_ok [OF d] by (auto simp: lst last_map map_butlast)
  have e1: "da_end b1 = length ns - 1" using length_da_list [OF b1(2)] b1(3) by simp
  show thesis
  proof (cases "i = length ns - 1")
    case True
    then show thesis using that [OF b1(1) e1] b1 by (simp add: swap_remove_def)
  next
    case False
    with i have "i < length ns - 1" by simp
    then show thesis
      using that [OF b1(1) e1] set_ok [OF b1(2), of i "Some (last ns)"] False e1 b1(3)
      by (auto simp: swap_remove_def map_update)
  qed
qed

lemma delete_swaps:
  assumes ok: "hm_ok hm"
  shows "case find (matches hm key) (hm_nodes hm key) of
      None \<Rightarrow> Hashmap_delete True key hm = Some (None, hm)
    | Some node \<Rightarrow> \<exists>hm' i. Hashmap_delete True key hm = Some (hn_data node, hm') \<and> hm_ok hm'
        \<and> hm_hash hm' = hm_hash hm \<and> hm_compare hm' = hm_compare hm \<and> bucket_index hm' = bucket_index hm
        \<and> i < length (hm_nodes hm key) \<and> node = hm_nodes hm key ! i
        \<and> (\<forall>k. hm_nodes hm' k = (if bucket_index hm k = bucket_index hm key then swap_remove i (hm_nodes hm k) else hm_nodes hm k))"
proof (cases "hm_cell hm (bucket_index hm key)")
  case None
  then show ?thesis by (simp add: Hashmap_delete_def find_bucket_look [OF ok] hm_nodes_def bucket_nodes_def)
next
  case (Some d)
  note bok = cell_bucket_ok [OF ok Some] and look = find_bucket_look [OF ok, of no_env key, unfolded Some]
  have dok: "da_ok d" "None \<notin> set (da_list d)" using bok by (simp_all add: bucket_ok_def)
  define ns where "ns = bucket_nodes (Some d)"
  have ns: "hm_nodes hm key = ns" "length ns = da_end d" by (simp_all add: hm_nodes_def Some ns_def bucket_nodes_length [OF bok])
  have lst: "da_list d = map Some ns"
  proof -
    have "map (\<lambda>x. Some (the x)) (da_list d) = da_list d" by (rule map_idI) (metis dok(2) option.collapse)
    then show ?thesis by (simp add: ns_def bucket_nodes_def comp_def)
  qed
  have l: "Hashmap_get_node hm (hm_hash hm key) d key = Some (find (\<lambda>j. matches hm key (ns ! j)) [0..<length ns])"
    using get_node_loop_find [OF bok, of 0] by (simp add: Hashmap_get_node_def ns_def [symmetric] ns(2))
  show ?thesis
  proof (cases "find (\<lambda>j. matches hm key (ns ! j)) [0..<length ns]")
    case None
    then show ?thesis using find_map_nth [of ns "matches hm key"] l look by (simp add: Hashmap_delete_def ns(1))
  next
    case F: (Some i)
    then have i: "i < length ns" by (auto simp: find_Some_iff)
    have fd: "find (matches hm key) ns = Some (ns ! i)" using find_map_nth [of ns "matches hm key"] F by simp
    have g: "DArray_get i d = Some (Some (ns ! i))" using da_get_ok [OF dok(1), of i] i by (simp add: ns(2) lst)
    obtain b1 where b1: "DArray_pop True d = Some (Some (last ns), b1)" "da_end b1 = length ns - 1"
      "if i = length ns - 1 then da_ok b1 \<and> da_list b1 = map Some (swap_remove i ns)
       else \<exists>b2. DArray_set i (Some (last ns)) b1 = Some b2 \<and> da_ok b2 \<and> da_list b2 = map Some (swap_remove i ns)"
      by (rule bucket_swap_out [OF dok(1) lst i])
    obtain b2 where b2: "Hashmap_delete True key hm = Some (hn_data (ns ! i), put_bucket key b2 hm)" "da_ok b2"
      "da_list b2 = map Some (swap_remove i ns)"
      using b1 i g F l look ns(2) by (cases "i = length ns - 1") (auto simp: Hashmap_delete_def)
    have bn: "bucket_nodes (Some b2) = swap_remove i ns" using b2(3) by (simp add: bucket_nodes_def comp_def)
    have "mset (swap_remove i ns) \<subseteq># mset ns" using mset_swap_remove [OF i] by simp
    then have "set (swap_remove i ns) \<subseteq> set ns" by (metis set_mset_mono set_mset_mset)
    then have "bucket_ok hm (bucket_index hm key) b2"
      using bok b2(2,3) by (auto simp: bucket_ok_def bn ns_def [symmetric] subset_iff)
    from put_bucket_ok [OF ok this] show ?thesis
      using b2(1) fd i ns(1) bn by (auto simp: ns(1) put_bucket_nodes [OF ok] fun_eq_iff intro!: exI [of _ i])
        (simp add: hm_nodes_def Some ns_def [symmetric])
  qed
qed

section \<open>Creation and release\<close>

lemma create_empty:
  assumes "0 < n"
  shows "\<exists>hm :: ('k, 'v) hashmap. Hashmap_create True True True n cmp hash = Some (Some hm) \<and> hm_ok hm \<and> hm_compare hm = cmp \<and> hm_hash hm = hash
    \<and> (\<forall>k. hm_nodes hm k = [])"
proof -
  let ?a = "\<lparr>da_end = n, da_max = n, da_esize = 8, da_rate = DEFAULT_EXPAND_RATE, da_cells = replicate n (Ptr None)\<rparr>"
  let ?hm = "\<lparr>hm_buckets = ?a, hm_compare = cmp, hm_hash = hash\<rparr> :: ('k, 'v) hashmap"
  have c: "hm_cell ?hm i = None" if "i < n" for i using that by (simp add: hm_cell_def)
  have "hm_nodes ?hm k = []" for k using assms by (simp add: hm_nodes_def c bucket_index_def bucket_nodes_def)
  moreover have "hm_ok ?hm" using assms by (simp add: hm_ok_def c)
  moreover have "Hashmap_create True True True n cmp hash = Some (Some ?hm)"
    using assms by (simp add: Hashmap_create_def DArray_create_def Let_def)
  ultimately show ?thesis by (intro exI [of _ ?hm]) simp
qed

lemma traverse_bucket_all:
  assumes "bucket_ok hm b d" "j \<le> da_end d"
  shows "traverse_bucket (\<lambda>node freed. (0, freed @ [node])) (da_end d - j) j d s = Some (0, s @ drop j (bucket_nodes (Some d)))"
  using assms(2)
proof (induction "da_end d - j" arbitrary: j s)
  case 0
  then show ?case using bucket_nodes_length [OF assms(1)] by simp
next
  case (Suc k)
  then have j: "j < da_end d" "da_end d - Suc j = k" by auto
  have "drop j (bucket_nodes (Some d)) = bucket_nodes (Some d) ! j # drop (Suc j) (bucket_nodes (Some d))"
    using j(1) bucket_nodes_length [OF assms(1)] by (simp add: Cons_nth_drop_Suc)
  then show ?case using Suc(1) [of "Suc j"] j Suc(2) bucket_get [OF assms(1) j(1)] by (simp add: Suc(2) [symmetric])
qed

definition all_nodes :: "('k, 'v) hashmap \<Rightarrow> ('k, 'v) hnode list" where
  "all_nodes hm = concat (map (\<lambda>i. bucket_nodes (hm_cell hm i)) [0..<da_max (hm_buckets hm)])"

lemma traverse_loop_all:
  assumes ok: "hm_ok hm" and i: "i \<le> da_max (hm_buckets hm)"
  shows "traverse_loop (\<lambda>node freed. (0, freed @ [node])) (da_max (hm_buckets hm) - i) i (hm_buckets hm) s
    = Some (0, s @ concat (map (\<lambda>i. bucket_nodes (hm_cell hm i)) [i..<da_max (hm_buckets hm)]))"
  using i
proof (induction "da_max (hm_buckets hm) - i" arbitrary: i s)
  case (Suc k)
  then have i: "i < da_max (hm_buckets hm)" "da_max (hm_buckets hm) - Suc i = k" by auto
  note get = cell_ptr(2) [OF ok i(1)] and IH = Suc(1) [of "Suc i"]
  show ?case
  proof (cases "hm_cell hm i")
    case None
    then show ?thesis using IH i Suc(2) get by (simp add: Suc(2) [symmetric] upt_conv_Cons bucket_nodes_def)
  next
    case (Some d)
    then have "bucket_ok hm i d" using ok i(1) by (simp add: hm_ok_def)
    from traverse_bucket_all [OF this, of 0] show ?thesis
      using IH i Suc(2) get Some by (simp add: Suc(2) [symmetric] upt_conv_Cons)
  qed
qed simp

lemma destroy_frees_all: "hm_ok hm \<Longrightarrow> Hashmap_destroy hm = Some (all_nodes hm)"
  using traverse_loop_all [of hm 0 "[]"] by (simp add: Hashmap_destroy_def Hashmap_traverse_def all_nodes_def hm_ok_def)

section \<open>The finite map it stands for\<close>

text \<open>What the client's comparison and hash must satisfy.\<close>

locale hash_key =
  fixes cmp :: "'k \<Rightarrow> 'k \<Rightarrow> int" and hash :: "'k \<Rightarrow> u32"
  assumes cmp_refl: "cmp a a = 0"
    and cmp_sym: "cmp a b = 0 \<Longrightarrow> cmp b a = 0"
    and cmp_trans: "cmp a b = 0 \<Longrightarrow> cmp b c = 0 \<Longrightarrow> cmp a c = 0"
    and cmp_hash: "cmp a b = 0 \<Longrightarrow> hash a = hash b"

definition hm_lookup :: "('k, 'v) hashmap \<Rightarrow> 'k \<Rightarrow> 'v option" where
  "hm_lookup hm k = Option.bind (find (matches hm k) (hm_nodes hm k)) hn_data"

definition hm_unique :: "('k, 'v) hashmap \<Rightarrow> bool" where
  "hm_unique hm \<longleftrightarrow> (\<forall>k. length (filter (matches hm k) (hm_nodes hm k)) \<le> 1)"

definition hm_has :: "('k, 'v) hashmap \<Rightarrow> 'k \<Rightarrow> bool" where
  "hm_has hm k \<longleftrightarrow> find (matches hm k) (hm_nodes hm k) \<noteq> None"

lemma get_lookup: "hm_ok hm \<Longrightarrow> Hashmap_get key hm = Some (hm_lookup hm key)"
  by (auto simp: Hashmap_get_find hm_lookup_def split: option.split)

lemma find_filter: "find P xs = (case filter P xs of [] \<Rightarrow> None | x # _ \<Rightarrow> Some x)"
  by (induction xs) auto

lemma mset_filter_le1:
  assumes "mset xs = mset ys" "length xs \<le> 1"
  shows "xs = ys"
  using assms mset_eq_length [OF assms(1)] by (cases xs; cases ys) auto

lemma swap_remove_filter:
  assumes "i < length xs" "length (filter P xs) \<le> 1"
  shows "filter P (swap_remove i xs) = (if P (xs ! i) then [] else filter P xs)"
proof -
  have m: "mset (filter P (swap_remove i xs)) = filter_mset P (mset xs - {#xs ! i#})"
    by (simp add: mset_swap_remove [OF assms(1)])
  show ?thesis
  proof (cases "P (xs ! i)")
    case False
    then have "mset (filter P (swap_remove i xs)) = mset (filter P xs)" unfolding m by simp
    from mset_filter_le1 [OF this [symmetric] assms(2)] show ?thesis using False by simp
  next
    case True
    then have "mset (filter P (swap_remove i xs)) = mset (filter P xs) - {#xs ! i#}" unfolding m by simp
    moreover have "xs ! i \<in> set (filter P xs)" using True assms(1) by simp
    then have "filter P xs = [xs ! i]" using assms(2) by (cases "filter P xs") auto
    ultimately have "mset (filter P (swap_remove i xs)) = {#}" by simp
    then show ?thesis using True by simp
  qed
qed

context hash_key
begin

lemma same_bucket:
  assumes "hm_hash hm = hash" "cmp a b = 0"
  shows "bucket_index hm a = bucket_index hm b"
  using cmp_hash [OF assms(2)] assms(1) by (simp add: bucket_index_def)

lemma same_matches:
  fixes hm :: "('k, 'z) hashmap"
  assumes "hm_hash hm = hash" "hm_compare hm = cmp" "cmp a b = 0"
  shows "matches hm b = matches hm a"
proof
  fix node :: "('k, 'z) hnode"
  have "cmp (hn_key node) b = 0 \<longleftrightarrow> cmp (hn_key node) a = 0"
    using cmp_trans [OF _ assms(3)] cmp_trans [OF _ cmp_sym [OF assms(3)]] by blast
  then show "matches hm b node = matches hm a node" using cmp_hash [OF assms(3)] assms by (simp add: matches_def)
qed

lemma set_absent:
  assumes ok: "hm_ok hm" "hm_unique hm" and e: "env_ok e" and h: "hm_hash hm = hash" "hm_compare hm = cmp"
    and new: "\<not> hm_has hm key"
  shows "\<exists>hm'. Hashmap_set e key data hm = Some (0, hm') \<and> hm_ok hm' \<and> hm_unique hm' \<and> hm_hash hm' = hash \<and> hm_compare hm' = cmp
    \<and> (\<forall>k. hm_has hm' k = (cmp key k = 0 \<or> hm_has hm k))
    \<and> (\<forall>k. hm_lookup hm' k = (if cmp key k = 0 then data else hm_lookup hm k))"
proof -
  obtain node hm' where s: "Hashmap_set e key data hm = Some (0, hm')" "hm_ok hm'" "hn_key node = key" "hn_data node = data"
    "hn_hash node = hash key" "hm_hash hm' = hash" "hm_compare hm' = cmp"
    and nodes: "\<And>k. hm_nodes hm' k = hm_nodes hm k @ (if bucket_index hm k = bucket_index hm key then [node] else [])"
    using set_appends [OF ok(1) e, of key data] h by auto
  have m: "matches hm' = matches hm" using s h by (simp add: matches_def fun_eq_iff)
  have mn: "matches hm k node \<longleftrightarrow> cmp key k = 0" for k using s h cmp_hash by (auto simp: matches_def)
  have none: "filter (matches hm k) (hm_nodes hm k) = []" if "cmp key k = 0" for k
  proof -
    have "matches hm k = matches hm key" by (rule same_matches [OF h that])
    moreover have "hm_nodes hm k = hm_nodes hm key" using same_bucket [OF h(1) that] by (simp add: hm_nodes_def)
    ultimately show ?thesis using new by (simp add: hm_has_def find_None_iff filter_empty_conv)
  qed
  have f: "filter (matches hm' k) (hm_nodes hm' k) = (if cmp key k = 0 then [node] else filter (matches hm k) (hm_nodes hm k))" for k
    using same_bucket [OF h(1), of key k] none [of k] by (auto simp: m mn nodes)
  have "hm_unique hm'" using ok(2) by (auto simp: hm_unique_def f)
  moreover have "hm_has hm' k = (cmp key k = 0 \<or> hm_has hm k)" for k by (simp add: hm_has_def find_filter f)
  moreover have "hm_lookup hm' k = (if cmp key k = 0 then data else hm_lookup hm k)" for k
    by (simp add: hm_lookup_def find_filter f s(4))
  ultimately show ?thesis using s by blast
qed

lemma delete_removes:
  assumes ok: "hm_ok hm" "hm_unique hm" and h: "hm_hash hm = hash" "hm_compare hm = cmp"
  shows "\<exists>hm'. Hashmap_delete True key hm = Some (hm_lookup hm key, hm') \<and> hm_ok hm' \<and> hm_unique hm'
    \<and> hm_hash hm' = hash \<and> hm_compare hm' = cmp
    \<and> (\<forall>k. hm_has hm' k = (cmp key k \<noteq> 0 \<and> hm_has hm k))
    \<and> (\<forall>k. hm_lookup hm' k = (if cmp key k = 0 then None else hm_lookup hm k))"
proof (cases "find (matches hm key) (hm_nodes hm key)")
  case None
  have "find (matches hm k) (hm_nodes hm k) = None" if "cmp key k = 0" for k
  proof -
    have "matches hm k = matches hm key" by (rule same_matches [OF h that])
    then show ?thesis using None same_bucket [OF h(1) that] by (simp add: hm_nodes_def)
  qed
  then show ?thesis using delete_swaps [OF ok(1), of key] None ok h by (auto simp: hm_has_def hm_lookup_def)
next
  case (Some node)
  then obtain hm' i where s: "Hashmap_delete True key hm = Some (hn_data node, hm')" "hm_ok hm'" "hm_hash hm' = hash" "hm_compare hm' = cmp"
    "i < length (hm_nodes hm key)" "node = hm_nodes hm key ! i"
    and nodes: "\<And>k. hm_nodes hm' k = (if bucket_index hm k = bucket_index hm key then swap_remove i (hm_nodes hm k) else hm_nodes hm k)"
    using delete_swaps [OF ok(1), of key] h by auto
  have m: "matches hm' = matches hm" using s h by (simp add: matches_def fun_eq_iff)
  have node: "hn_hash node = hash key" "cmp (hn_key node) key = 0"
    using Some h by (auto simp: find_Some_iff matches_def)
  have mn: "matches hm k node \<longleftrightarrow> cmp key k = 0" for k
    using node h cmp_hash [of key k] cmp_trans [of "hn_key node" key k] cmp_trans [of key "hn_key node" k] cmp_sym [OF node(2)]
    by (auto simp: matches_def)
  have f: "filter (matches hm' k) (hm_nodes hm' k) = (if cmp key k = 0 then [] else filter (matches hm k) (hm_nodes hm k))" for k
  proof (cases "bucket_index hm k = bucket_index hm key")
    case True
    then have "hm_nodes hm k = hm_nodes hm key" by (simp add: hm_nodes_def)
    then show ?thesis
      using swap_remove_filter [OF s(5), of "matches hm k"] ok(2) [unfolded hm_unique_def, rule_format, of k] s(6) mn [of k] True
      by (simp add: m nodes)
  next
    case False
    then show ?thesis using same_bucket [OF h(1), of key k] by (auto simp: m nodes)
  qed
  have "hm_unique hm'" using ok(2) by (auto simp: hm_unique_def f)
  moreover have "hm_has hm' k = (cmp key k \<noteq> 0 \<and> hm_has hm k)" for k by (simp add: hm_has_def find_filter f)
  moreover have "hm_lookup hm' k = (if cmp key k = 0 then None else hm_lookup hm k)" for k
    by (simp add: hm_lookup_def find_filter f)
  moreover have "hm_lookup hm key = hn_data node" by (simp add: hm_lookup_def Some)
  ultimately show ?thesis using s by auto
qed

end

end
