(* ===== verification/Pack_Cut.thy ===== *)
theory Pack_Cut
  imports Chunking "HOL-Library.Signed_Division"
begin

unbundle bit_operations_syntax

text \<open>
  The choice of cut points in the user-space packer: \<open>pack_calculate_part\<close> and
  \<open>check_data_point\<close> of \<open>pack.c\<close>, the list of cut points of \<open>pack.h\<close>, and the constants
  that \<open>main\<close> computes. Unlike the kernel, the packer declares \<open>Q\<close> and \<open>RM\<close> as \<open>long\<close>, so
  that products with a \<open>char\<close> are signed and \<open>%\<close> keeps the sign of its left operand; it also
  cuts between bytes that are equal or neighbours, and carries the distance to the next cut
  (\<open>delay_time\<close>, a static variable) from one packet to the next. The products overflow
  \<open>long\<close>; the model wraps them, as the machine does.
\<close>

section \<open>Operations\<close>

text \<open>A call returns, leaves the process with \<open>exit(-1)\<close>, or touches memory it does not own.\<close>

datatype 'a run = Done 'a | Exit | Fault

definition bind_run :: "'a run \<Rightarrow> ('a \<Rightarrow> 'b run) \<Rightarrow> 'b run" where
  "bind_run r f = (case r of Done x \<Rightarrow> f x | Exit \<Rightarrow> Exit | Fault \<Rightarrow> Fault)"

definition run_of :: "'a option \<Rightarrow> 'a run" where
  "run_of r = (case r of None \<Rightarrow> Fault | Some x \<Rightarrow> Done x)"

lemma bind_run_simps [simp]:
  "bind_run (Done x) f = f x" "bind_run Exit f = Exit" "bind_run Fault f = Fault"
  "run_of None = Fault" "run_of (Some x) = Done x"
  by (simp_all add: bind_run_def run_of_def)

definition PLEN :: nat where "PLEN = 21000"

text \<open>The entries of \<open>index\<close> below \<open>end\<close>.\<close>

type_synonym part_point = "int list"

definition part_create :: part_point where "part_create = []"

definition part_clean :: "part_point \<Rightarrow> part_point" where "part_clean point = []"

definition part_set :: "int \<Rightarrow> part_point \<Rightarrow> part_point run" where
  "part_set data point = (if PLEN \<le> length point then Exit else Done (point @ [data]))"

text \<open>The remainder of \<open>long\<close>s.\<close>

definition srem64 :: "u64 \<Rightarrow> u64 \<Rightarrow> u64" where
  "srem64 a b = word_of_int (sint a smod sint b)"

definition pack_globals :: hash_params where
  "pack_globals = \<lparr>hp_RM = 1, hp_zero_value = 1, hp_zero_num = 6, hp_Q = 1, hp_R = 1048583, hp_chunk_num = 32\<rparr>"

text \<open>The loops at the start of \<open>main\<close>.\<close>

definition pack_precalculate :: "hash_params \<Rightarrow> hash_params" where
  "pack_precalculate g =
     (let q = ((\<lambda>x. 2 * x) ^^ 60) (hp_Q g);
          rm = ((\<lambda>x. srem64 (hp_R g * x) q) ^^ (hp_chunk_num g - 1)) (hp_RM g);
          z = ((\<lambda>x. 2 * x) ^^ hp_zero_num g) (hp_zero_value g)
      in g\<lparr>hp_Q := q, hp_RM := rm, hp_zero_value := z - 1\<rparr>)"

definition pack_params :: hash_params where
  "pack_params = pack_precalculate pack_globals"

definition pack_step :: nat where "pack_step = 32"

text \<open>
  What is reached of \<open>check_data_point\<close>: the bytes before and at \<open>index\<close>, as \<open>char\<close>s, are equal
  or differ by one. Both branches of its first test return.
\<close>

definition check_data_point :: "byte list \<Rightarrow> nat \<Rightarrow> bool" where
  "check_data_point playload index =
     (1 \<le> index \<and>
      (let a = sint (playload ! (index - 1)); b = sint (playload ! index)
       in a = b \<or> a = b + 1 \<or> b = a + 1))"

definition pack_roll :: "hash_params \<Rightarrow> u64 \<Rightarrow> byte \<Rightarrow> byte \<Rightarrow> u64" where
  "pack_roll g h old new =
     (let h1 = (h + hp_Q g - srem64 (hp_RM g * scast old) (hp_Q g)) mod hp_Q g
      in (h1 * hp_R g + scast new) mod hp_Q g)"

text \<open>The scan from \<open>i\<close>; the result is the new \<open>delay_time\<close> and the list. \<open>j\<close> of the code is never read.\<close>

function part_loop ::
  "hash_params \<Rightarrow> byte list \<Rightarrow> nat \<Rightarrow> nat \<Rightarrow> nat \<Rightarrow> u64 \<Rightarrow> part_point \<Rightarrow> (nat \<times> part_point) run" where
  "part_loop g p n i delay_time txthash part =
     (if i < n then
        let txthash' = pack_roll g txthash (p ! (i - hp_chunk_num g)) (p ! i)
        in if delay_time = 0 then
             if txthash' AND hp_zero_value g = 0 \<or> check_data_point p i
             then (case part_set (int i) part of
                 Done part' \<Rightarrow> part_loop g p n (Suc i) pack_step txthash' part'
               | Exit \<Rightarrow> Exit | Fault \<Rightarrow> Fault)
             else part_loop g p n (Suc i) 0 txthash' part
           else part_loop g p n (Suc i) (delay_time - 1) txthash' part
      else Done (delay_time, part))"
  by pat_completeness auto
termination
  by (relation "measure (\<lambda>(g, p, n, i, d, h, f). n - i)") auto

declare part_loop.simps [simp del]

definition pack_calculate_part ::
  "hash_params \<Rightarrow> int \<Rightarrow> byte list \<Rightarrow> nat \<Rightarrow> nat \<Rightarrow> part_point \<Rightarrow> (nat \<times> part_point) run" where
  "pack_calculate_part g count_packet playload playload_len delay_time part =
     (if length playload < playload_len then Fault
      else case pack_hash playload (hp_chunk_num g) (ucast (hp_R g)) (hp_Q g) of
        None \<Rightarrow> Fault
      | Some txthash \<Rightarrow>
          bind_run (part_set count_packet part) (\<lambda>part1.
          bind_run (part_set (int playload_len) part1) (\<lambda>part2.
            if delay_time = 0 then
              if txthash AND hp_zero_value g = 0 \<or> check_data_point playload (hp_chunk_num g - 1)
              then bind_run (part_set (int (hp_chunk_num g - 1)) part2) (\<lambda>part3.
                part_loop g playload playload_len (hp_chunk_num g) pack_step txthash part3)
              else part_loop g playload playload_len (hp_chunk_num g) 0 txthash part2
            else part_loop g playload playload_len (hp_chunk_num g) (delay_time - 1) txthash part2)))"

section \<open>The signed arithmetic agrees with the kernel's\<close>

lemma srem64_mod:
  assumes "uint Q dvd 2 ^ 64" "sint Q = uint Q"
  shows "uint (srem64 a Q) mod uint Q = uint a mod uint Q"
proof -
  have c: "uint (word_of_int x :: u64) mod uint Q = x mod uint Q" for x
    using assms(1) by (simp add: uint_word_of_int mod_mod_cancel)
  have "sint a smod uint Q mod uint Q = (sint a - uint Q * (sint a sdiv uint Q)) mod uint Q"
    by (simp only: minus_mult_sdiv_eq_smod)
  also have "\<dots> = sint a mod uint Q"
    using mod_mult_self2 [of "sint a" "uint Q" "- (sint a sdiv uint Q)"] by (simp only: mult_minus_right diff_conv_add_uminus)
  also have "\<dots> = uint a mod uint Q" using c [of "sint a"] by simp
  finally show ?thesis by (simp add: srem64_def c assms(2))
qed

lemma pack_roll_eq:
  assumes Q: "uint (hp_Q g) dvd 2 ^ 64" "sint (hp_Q g) = uint (hp_Q g)"
  shows "pack_roll g h old new = roll_hash g h old new"
proof -
  let ?Q = "hp_Q g" and ?x = "hp_RM g * scast old"
  have "uint ((h + ?Q - srem64 ?x ?Q) mod ?Q) = uint ((h + ?Q - ?x mod ?Q) mod ?Q)"
  proof -
    have "uint ((h + ?Q - srem64 ?x ?Q) mod ?Q) = (uint (h + ?Q) - uint (srem64 ?x ?Q) mod uint ?Q) mod uint ?Q"
      by (simp only: uint_mod_dvd(1,3) [OF Q(1)] mod_diff_right_eq)
    also have "\<dots> = (uint (h + ?Q) - uint (?x mod ?Q)) mod uint ?Q"
      by (simp only: srem64_mod [OF Q] uint_mod_dvd(1) [OF Q(1)])
    finally show ?thesis by (simp only: uint_mod_dvd(1,3) [OF Q(1)])
  qed
  then have "(h + ?Q - srem64 ?x ?Q) mod ?Q = (h + ?Q - ?x mod ?Q) mod ?Q" by (metis word_of_int_uint)
  then show ?thesis by (simp add: pack_roll_def roll_hash_def)
qed

lemma iterate_srem_mod:
  assumes "uint Q dvd 2 ^ 64" "sint Q = uint Q"
  shows "uint (((\<lambda>x. srem64 (R * x) Q) ^^ n) (1 :: u64)) mod uint Q = uint R ^ n mod uint Q"
proof (induction n)
  case (Suc n)
  let ?x = "((\<lambda>x. srem64 (R * x) Q) ^^ n) (1 :: u64)"
  have "uint (srem64 (R * ?x) Q) mod uint Q = uint R * (uint ?x mod uint Q) mod uint Q"
    by (simp only: srem64_mod [OF assms] uint_mod_dvd(4) [OF assms(1)] mod_mult_right_eq)
  also have "\<dots> = uint R ^ Suc n mod uint Q"
    by (simp only: Suc) (simp add: mod_mult_right_eq)
  finally show ?case by simp
qed simp

lemma pack_params_fields [simp]:
  "hp_Q pack_params = 2 ^ 60" "hp_R pack_params = 1048583" "hp_zero_value pack_params = 63" "hp_chunk_num pack_params = 32"
  by (simp_all add: pack_params_def pack_precalculate_def pack_globals_def iterate_double Let_def)

lemma pack_params_RM: "hp_RM pack_params = ((\<lambda>x. srem64 (1048583 * x) (2 ^ 60)) ^^ 31) 1"
  by (simp only: pack_params_def pack_precalculate_def pack_globals_def iterate_double Let_def hash_params.simps) simp

lemma two_60: "uint ((2 :: u64) ^ 60) dvd 2 ^ 64" "sint ((2 :: u64) ^ 60) = uint ((2 :: u64) ^ 60)"
  by simp_all

lemma pack_params_ok [simp]: "hp_ok pack_params"
proof -
  have R: "scast (ucast (1048583 :: u64) :: u32) = (1048583 :: u64)" by simp
  have n: "(32 :: nat) - 1 = 31" by simp
  show ?thesis
    unfolding hp_ok_def pack_params_fields pack_params_RM n
    by (intro conjI two_60 R iterate_srem_mod) simp
qed

lemma pack_roll_window:
  assumes "32 \<le> i" "i < length p" "uint h = window_hash pack_params p (i - 1)"
  shows "uint (pack_roll pack_params h (p ! (i - 32)) (p ! i)) = window_hash pack_params p i"
  using window_roll [OF pack_params_ok, of i p h] pack_roll_eq [of pack_params h] assms two_60 by simp

section \<open>The cut points are the reference choice\<close>

definition pack_candidate :: "byte list \<Rightarrow> nat \<Rightarrow> bool" where
  "pack_candidate p i \<longleftrightarrow> candidate pack_params p i \<or> check_data_point p i"

text \<open>How many positions are still ignored after the scan.\<close>

fun greedy_delay :: "(nat \<Rightarrow> bool) \<Rightarrow> nat \<Rightarrow> nat \<Rightarrow> nat list \<Rightarrow> nat" where
  "greedy_delay P s d [] = d"
| "greedy_delay P s 0 (i # is) = greedy_delay P s (if P i then s else 0) is"
| "greedy_delay P s (Suc d) (i # is) = greedy_delay P s d is"

definition pack_cuts :: "nat \<Rightarrow> byte list \<Rightarrow> nat list" where
  "pack_cuts d p = greedy_cuts (pack_candidate p) pack_step d [31..<length p]"

definition pack_delay :: "nat \<Rightarrow> byte list \<Rightarrow> nat" where
  "pack_delay d p = greedy_delay (pack_candidate p) pack_step d [31..<length p]"

text \<open>Cuts more than \<open>s\<close> apart: there are few.\<close>

lemma spaced_length:
  assumes "sorted_wrt (\<lambda>x y. x + s < y) xs" "\<forall>x \<in> set xs. x < (n :: nat)"
  shows "length xs * Suc s \<le> n + s"
  using assms
proof (induction xs arbitrary: n rule: rev_induct)
  case (snoc y xs)
  have "\<forall>x \<in> set xs. x < y - s" "sorted_wrt (\<lambda>x y. x + s < y) xs"
    using snoc.prems(1) by (auto simp: sorted_wrt_append)
  from snoc.IH [OF this(2,1)] have "length xs * Suc s \<le> y - s + s" .
  moreover have "xs \<noteq> [] \<Longrightarrow> s \<le> y" using snoc.prems(1) by (cases xs) (auto simp: sorted_wrt_append)
  moreover have "y < n" using snoc.prems(2) by simp
  ultimately show ?case by (cases "xs = []") auto
qed simp

lemma part_loop_cuts:
  assumes "32 \<le> i" "uint h = window_hash pack_params p (i - 1)"
    and "length part + length (greedy_cuts (pack_candidate p) pack_step d [i..<length p]) \<le> PLEN"
  shows "part_loop pack_params p (length p) i d h part =
    Done (greedy_delay (pack_candidate p) pack_step d [i..<length p],
      part @ map int (greedy_cuts (pack_candidate p) pack_step d [i..<length p]))"
  using assms
proof (induction "length p - i" arbitrary: i d h part)
  case 0
  then show ?case by (simp add: part_loop.simps)
next
  case (Suc k)
  then have i: "i < length p" "k = length p - Suc i" by auto
  let ?h = "pack_roll pack_params h (p ! (i - 32)) (p ! i)"
  have h: "uint ?h = window_hash pack_params p i" using Suc.prems i by (intro pack_roll_window) auto
  have cand: "?h AND 63 = 0 \<or> check_data_point p i \<longleftrightarrow> pack_candidate p i"
    using candidate_word [OF h] by (simp add: pack_candidate_def)
  have upt: "[i..<length p] = i # [Suc i..<length p]" using i(1) by (rule upt_conv_Cons)
  have IH: "part_loop pack_params p (length p) (Suc i) d' ?h part' =
      Done (greedy_delay (pack_candidate p) pack_step d' [Suc i..<length p],
        part' @ map int (greedy_cuts (pack_candidate p) pack_step d' [Suc i..<length p]))"
    if "length part' + length (greedy_cuts (pack_candidate p) pack_step d' [Suc i..<length p]) \<le> PLEN" for d' part'
    using Suc.hyps(1) [OF i(2), of ?h part' d'] h Suc.prems(1) that by simp
  have step: "part_loop pack_params p (length p) i d h part =
      (if d = 0 then
         if pack_candidate p i
         then (case part_set (int i) part of
             Done part' \<Rightarrow> part_loop pack_params p (length p) (Suc i) pack_step ?h part' | Exit \<Rightarrow> Exit | Fault \<Rightarrow> Fault)
         else part_loop pack_params p (length p) (Suc i) 0 ?h part
       else part_loop pack_params p (length p) (Suc i) (d - 1) ?h part)"
    unfolding cand [symmetric] using i(1) by (simp add: part_loop.simps [of _ _ _ i] Let_def)
  show ?case
    unfolding step upt using Suc.prems(3) [unfolded upt]
    by (cases d; cases "pack_candidate p i") (simp_all add: part_set_def IH)
qed

lemma cuts_few: "length (pack_cuts d p) * 33 \<le> length p + 32"
proof -
  have "\<forall>x \<in> set (pack_cuts d p). x < length p"
    using greedy_cuts_subset unfolding pack_cuts_def by fastforce
  from spaced_length [OF _ this, of pack_step] show ?thesis
    using greedy_cuts_spaced unfolding pack_cuts_def by (simp add: pack_step_def)
qed

lemma pack_calculate_part_cuts:
  assumes "32 \<le> length p" "length p < 2 ^ 16"
  shows "pack_calculate_part pack_params cp p (length p) d (part_clean part) =
    Done (pack_delay d p, [cp, int (length p)] @ map int (pack_cuts d p))"
proof -
  obtain h where ph: "pack_hash p 32 (ucast (hp_R pack_params)) (hp_Q pack_params) = Some h" and
    h: "uint h = poly_hash (uint (hp_R pack_params)) (take 32 p) mod uint (hp_Q pack_params)"
    using pack_hash_poly [OF pack_params_ok, of p] assms by auto
  from h have w: "uint h = window_hash pack_params p 31" by (simp add: window_hash_def segment_def)
  then have cand: "pack_candidate p 31 \<longleftrightarrow> h AND 63 = 0 \<or> check_data_point p 31"
    using candidate_word [OF w] by (simp add: pack_candidate_def)
  have upt: "[31..<length p] = 31 # [32..<length p]" using assms(1) by (simp add: upt_conv_Cons)
  have few: "length (pack_cuts d p) + 2 \<le> PLEN" using cuts_few [of d p] assms(2) by (simp add: PLEN_def)
  have loop: "part_loop pack_params p (length p) 32 d' h part' = Done (greedy_delay (pack_candidate p) pack_step d' [32..<length p],
      part' @ map int (greedy_cuts (pack_candidate p) pack_step d' [32..<length p]))"
    if "length part' + length (greedy_cuts (pack_candidate p) pack_step d' [32..<length p]) \<le> PLEN" for d' part'
    using part_loop_cuts [of 32 h p part' d'] w that by simp
  have ph': "pack_hash p 32 1048583 1152921504606846976 = Some h" using ph by simp
  have step: "pack_calculate_part pack_params cp p (length p) d (part_clean part) =
      (if d = 0 then
         if pack_candidate p 31
         then part_loop pack_params p (length p) 32 pack_step h [cp, int (length p), 31]
         else part_loop pack_params p (length p) 32 0 h [cp, int (length p)]
       else part_loop pack_params p (length p) 32 (d - 1) h [cp, int (length p)])"
    unfolding cand by (simp add: pack_calculate_part_def part_clean_def part_set_def PLEN_def ph')
  show ?thesis
    unfolding step pack_cuts_def pack_delay_def upt using few [unfolded pack_cuts_def upt]
    by (cases d; cases "pack_candidate p 31") (simp_all add: loop)
qed

lemma pack_cuts_range:
  assumes "c \<in> set (pack_cuts d p)"
  shows "31 + d \<le> c" "c < length p" "pack_candidate p c"
  using greedy_cuts_lower [of c] greedy_cuts_subset [of "pack_candidate p" pack_step d "[31..<length p]"] assms
  unfolding pack_cuts_def by fastforce+

lemma pack_cuts_spaced: "sorted_wrt (\<lambda>x y. x + 32 < y) (pack_cuts d p)"
  using greedy_cuts_spaced [of pack_step] unfolding pack_cuts_def by (simp add: pack_step_def)

interpretation pc: content_chunker "pack_cuts d" 31 for d
proof
  show "c \<in> set (pack_cuts d p) \<Longrightarrow> 31 \<le> c \<and> c < length p" for c p
    using pack_cuts_range(1,2) [of c d p] by simp
  show "sorted_wrt (\<lambda>x y. x + 31 < y) (pack_cuts d p)" for p
    by (rule sorted_wrt_mono_rel [OF _ pack_cuts_spaced]) auto
qed

text \<open>
  (C10) The packer's scan of a payload always returns and its list of cut points is the reference
  choice: with the constants that \<open>main\<close> computes, a position is a candidate when the polynomial
  hash of its 32-byte window has its low six bits clear or its byte and the one before are equal
  or neighbours; no cut falls in the \<open>delay_time\<close> positions left over from the packet before;
  cuts are more than 32 apart; and every other candidate lies at most 32 behind a cut. The signed
  arithmetic of the packer, with its negative remainders, gives the same hash as the unsigned
  arithmetic of the kernel, and the list of \<open>PLEN\<close> entries is never full.
\<close>

theorem pack_partition_correct:
  assumes "32 \<le> length p" "length p < 2 ^ 16"
  shows "pack_calculate_part pack_params cp p (length p) d (part_clean part) =
      Done (pack_delay d p, [cp, int (length p)] @ map int (pack_cuts d p))
    \<and> sorted_wrt (\<lambda>x y. x + 32 < y) (pack_cuts d p)
    \<and> (\<forall>c \<in> set (pack_cuts d p). 31 + d \<le> c \<and> c < length p \<and> pack_candidate p c)
    \<and> (\<forall>i. 31 + d \<le> i \<and> i < length p \<and> pack_candidate p i \<longrightarrow> (\<exists>c \<in> set (pack_cuts d p). c \<le> i \<and> i \<le> c + 32))"
proof -
  have "\<exists>c \<in> set (pack_cuts d p). c \<le> i \<and> i \<le> c + 32" if "31 + d \<le> i" "i < length p" "pack_candidate p i" for i
    using greedy_cuts_complete [of "pack_candidate p" i 31 "length p" d pack_step] that unfolding pack_cuts_def
    by (auto simp: pack_step_def)
  then show ?thesis
    using pack_calculate_part_cuts [OF assms] pack_cuts_spaced pack_cuts_range [of _ d p] by blast
qed

lemma zero_candidate: "1 \<le> i \<Longrightarrow> i < n \<Longrightarrow> pack_candidate (replicate n 0) i"
  by (simp add: pack_candidate_def check_data_point_def)

lemma zero_pack_cuts: "pack_cuts 0 (replicate 40 0) = [31]" "pack_delay 0 (replicate 40 0) = 24"
proof -
  have "[31..<40] = [31, 32, 33, 34, 35, 36, 37, 38, 39 :: nat]" by (simp add: upt_rec)
  then show "pack_cuts 0 (replicate 40 0) = [31]" "pack_delay 0 (replicate 40 0) = 24"
    using zero_candidate [of 31 40] by (simp_all add: pack_cuts_def pack_delay_def pack_step_def eval_nat_numeral)
qed

theorem pack_partition_correct_witness:
  "pack_calculate_part pack_params 0 (replicate 40 0) 40 0 (part_clean []) = Done (24, [0, 40, 31])"
  using pack_partition_correct [of "replicate 40 0" 0 0 "[]"] by (simp add: zero_pack_cuts)

end
