(* ===== verification/Pack_Map.thy ===== *)
theory Pack_Map
  imports Hashmap
begin

text \<open>
  The index of the packer: the hash map of \<open>lcthw/hashmap.c\<close> with the key functions of
  \<open>pack.c\<close>. A key is a pointer to the 20 bytes of a digest in the store of digests, which are
  never overwritten; the model takes these bytes for the key.
\<close>

definition BUCKETS_LEN :: nat where "BUCKETS_LEN = 127997"

text \<open>The hash with the number of buckets as a parameter, since \<open>winn_pack.c\<close> has another one.\<close>

definition mode_hash :: "nat \<Rightarrow> byte list \<Rightarrow> u32" where
  "mode_hash buckets data = ucast (foldl (\<lambda>h c. (10 * h + ucast c) mod of_nat buckets) (0 :: u64) (take SHA_BYTES data))"

definition Hashmap_mode_hash :: "byte list \<Rightarrow> u32" where
  "Hashmap_mode_hash = mode_hash BUCKETS_LEN"

text \<open>\<open>memcmp\<close>; on digests only the first two equations are used.\<close>

fun memcmp :: "nat \<Rightarrow> byte list \<Rightarrow> byte list \<Rightarrow> int" where
  "memcmp 0 a b = 0"
| "memcmp (Suc n) (x # a) (y # b) = (if x = y then memcmp n a b else uint x - uint y)"
| "memcmp (Suc n) [] [] = 0"
| "memcmp (Suc n) [] b = -1"
| "memcmp (Suc n) a [] = 1"

definition Hashmap_mode_compare :: "byte list \<Rightarrow> byte list \<Rightarrow> int" where
  "Hashmap_mode_compare a b = memcmp SHA_BYTES a b"

lemma memcmp_eq: "memcmp n a b = 0 \<longleftrightarrow> take n a = take n b"
  by (induction n a b rule: memcmp.induct) (auto simp: word_uint_eq_iff)

lemma mode_compare_eq: "Hashmap_mode_compare a b = 0 \<longleftrightarrow> take SHA_BYTES a = take SHA_BYTES b"
  by (simp add: Hashmap_mode_compare_def memcmp_eq)

lemma mode_compare_digest:
  "length a = SHA_BYTES \<Longrightarrow> length b = SHA_BYTES \<Longrightarrow> Hashmap_mode_compare a b = 0 \<longleftrightarrow> a = b"
  by (simp add: mode_compare_eq)

interpretation mk: hash_key Hashmap_mode_compare "mode_hash n" for n
  by unfold_locales (auto simp: mode_compare_eq mode_hash_def)

type_synonym index = "(byte list, byte list) hashmap"

definition index_ok :: "index \<Rightarrow> bool" where
  "index_ok hm \<longleftrightarrow> hm_ok hm \<and> hm_unique hm \<and> (\<exists>n. hm_hash hm = mode_hash n) \<and> hm_compare hm = Hashmap_mode_compare"

lemma index_create:
  assumes "0 < n"
  shows "\<exists>hm. Hashmap_create True True True n Hashmap_mode_compare (mode_hash b) = Some (Some hm)
    \<and> index_ok hm \<and> (\<forall>k. \<not> hm_has hm k \<and> hm_lookup hm k = None)"
proof -
  obtain hm :: index where "Hashmap_create True True True n Hashmap_mode_compare (mode_hash b) = Some (Some hm)"
    "hm_ok hm" "hm_compare hm = Hashmap_mode_compare" "hm_hash hm = mode_hash b" "\<forall>k. hm_nodes hm k = []"
    using create_empty [of n Hashmap_mode_compare "mode_hash b"] assms by auto
  then show ?thesis by (auto simp: index_ok_def hm_unique_def hm_has_def hm_lookup_def)
qed

lemma index_set:
  assumes "index_ok hm" "env_ok e" "\<not> hm_has hm key"
  shows "\<exists>hm'. Hashmap_set e key data hm = Some (0, hm') \<and> index_ok hm'
    \<and> (\<forall>k. hm_has hm' k = (Hashmap_mode_compare key k = 0 \<or> hm_has hm k))
    \<and> (\<forall>k. hm_lookup hm' k = (if Hashmap_mode_compare key k = 0 then data else hm_lookup hm k))"
proof -
  obtain n where "hm_hash hm = mode_hash n" using assms(1) by (auto simp: index_ok_def)
  then show ?thesis using mk.set_absent [of hm e n key data] assms by (auto simp: index_ok_def)
qed

lemma index_delete:
  assumes "index_ok hm"
  shows "\<exists>hm'. Hashmap_delete True key hm = Some (hm_lookup hm key, hm') \<and> index_ok hm'
    \<and> (\<forall>k. hm_has hm' k = (Hashmap_mode_compare key k \<noteq> 0 \<and> hm_has hm k))
    \<and> (\<forall>k. hm_lookup hm' k = (if Hashmap_mode_compare key k = 0 then None else hm_lookup hm k))"
proof -
  obtain n where "hm_hash hm = mode_hash n" using assms by (auto simp: index_ok_def)
  then show ?thesis using mk.delete_removes [of hm n key] assms by (auto simp: index_ok_def)
qed


text \<open>An empty map of one bucket.\<close>

definition demo_key :: "byte list" where "demo_key = replicate 20 7"

definition demo_map :: index where
  "demo_map = \<lparr>hm_buckets = \<lparr>da_end = 1, da_max = 1, da_esize = 8, da_rate = 300, da_cells = [Ptr None]\<rparr>,
     hm_compare = Hashmap_mode_compare, hm_hash = Hashmap_mode_hash\<rparr>"

definition demo_hm_env :: hm_env where
  "demo_hm_env = \<lparr>he_arr = True, he_cells = True, he_node = True, he_kv = True, he_key = True, he_base = 0, he_grow = True\<rparr>"


end
