(* ===== verification/Pack.thy ===== *)
theory Pack
  imports Pack_Cut Pack_Map Packet
begin

text \<open>
  The user-space packer \<open>pack.c\<close>: it reads a capture, cuts the TCP payloads of port 80 into
  chunks, digests every chunk and counts the bytes of chunks whose digest was seen before. The
  bytes after the last cut of a packet wait in \<open>remain_data\<close> for the next packet.

  \<open>sha\<close> is the digest that \<open>/dev/crypto\<close> computes (\<open>lcthw/sha.c\<close> passes the request on); the
  allocations and the time of the \<open>n\<close>th chunk are \<open>env n\<close>. \<open>ps_hashed\<close> lists the byte strings
  passed to \<open>calculate_sha\<close>, in order; the program does not keep it. The keys of the index are
  pointers into the store of digests: where \<open>realloc\<close> moves the store they dangle, which the
  model reports as a fault at once.
\<close>

section \<open>State\<close>

record pack_env =
  pe_grow :: bool
  pe_push :: bool
  pe_base :: nat
  pe_hm :: hm_env
  pe_time :: u64

record pack_state =
  ps_delay :: nat
  ps_part :: part_point
  ps_remain :: chunk
  ps_key :: keyvalue
  ps_map :: index
  ps_save :: u64
  ps_sum :: u64
  ps_sec :: u64
  ps_hashed :: "byte list list"

definition PACKET_LEN :: nat where "PACKET_LEN = 36000"
definition MAX_ETH_FRAME :: nat where "MAX_ETH_FRAME = 36000"

type_synonym digest_fun = "byte list \<Rightarrow> byte list"

section \<open>One chunk\<close>

text \<open>\<open>calculate_sha(data, begin, end, res)\<close>: a copy of the bytes, and their digest.\<close>

definition calculate_sha :: "digest_fun \<Rightarrow> block \<Rightarrow> int \<Rightarrow> int \<Rightarrow> (byte list \<times> byte list) option" where
  "calculate_sha sha data bg en =
     (let len = c_int (en - bg + 1) in
      if bg < 0 \<or> len < 0 then None
      else map_option (\<lambda>tmp. (tmp, sha tmp)) (read_block data (nat bg) (nat len)))"

text \<open>
  The digest is looked up; a new one is stored and entered, for a known one the length is added
  to \<open>save_len\<close>. The result is \<open>False\<close> where \<open>check_mem\<close> jumps to \<open>error\<close>.
\<close>

definition dedup_digest :: "pack_env \<Rightarrow> byte list \<Rightarrow> int \<Rightarrow> pack_state \<Rightarrow> (bool \<times> pack_state) run" where
  "dedup_digest e res len st =
     (case Hashmap_get res (ps_map st) of None \<Rightarrow> Fault
      | Some (Some _) \<Rightarrow> Done (True, st\<lparr>ps_save := ps_save st + word_of_int len\<rparr>)
      | Some None \<Rightarrow>
        (case keyvalue_push (pe_push e) (pe_base e) res (ps_key st) of None \<Rightarrow> Fault
         | Some (None, kv) \<Rightarrow> Done (False, st\<lparr>ps_key := kv\<rparr>)
         | Some (Some hashmap_key, kv) \<Rightarrow>
           if kv_base kv \<noteq> kv_base (ps_key st) then Fault
           else case Hashmap_set (pe_hm e) res (Some res) (ps_map st) of None \<Rightarrow> Fault
           | Some (rc, m) \<Rightarrow> Done (True, st\<lparr>ps_key := kv, ps_map := m\<rparr>)))"

text \<open>The environment of the next chunk.\<close>

definition env_at :: "(nat \<Rightarrow> pack_env) \<Rightarrow> pack_state \<Rightarrow> pack_env" where
  "env_at env st = env (length (ps_hashed st))"

text \<open>The first chunk of a packet: what remained, and the payload up to \<open>pp\<close>.\<close>

definition first_chunk ::
  "digest_fun \<Rightarrow> (nat \<Rightarrow> pack_env) \<Rightarrow> byte list \<Rightarrow> int \<Rightarrow> pack_state \<Rightarrow> (bool \<times> pack_state) run" where
  "first_chunk sha env playload pp st =
     (let e = env_at env st in
      case chunk_merge (pe_grow e) (Some playload) 0 pp (ps_remain st) of None \<Rightarrow> Fault
      | Some (rc, ck) \<Rightarrow>
        (let len = c_int (uint (ck_end ck)) in
         case calculate_sha sha (ck_content ck) 0 (sint (ck_end ck - 1)) of None \<Rightarrow> Fault
         | Some (tmp, res) \<Rightarrow>
           dedup_digest e res len
             (st\<lparr>ps_remain := chunk_clean ck, ps_sec := ps_sec st + pe_time e, ps_hashed := ps_hashed st @ [tmp]\<rparr>)))"

text \<open>A further chunk: the payload between two cut points.\<close>

definition next_chunk ::
  "digest_fun \<Rightarrow> (nat \<Rightarrow> pack_env) \<Rightarrow> byte list \<Rightarrow> int \<Rightarrow> int \<Rightarrow> pack_state \<Rightarrow> (bool \<times> pack_state) run" where
  "next_chunk sha env playload prev pp st =
     (let e = env_at env st; len = c_int (pp - prev) in
      case calculate_sha sha (map Some playload) (prev + 1) pp of None \<Rightarrow> Fault
      | Some (tmp, res) \<Rightarrow>
        dedup_digest e res len (st\<lparr>ps_sec := ps_sec st + pe_time e, ps_hashed := ps_hashed st @ [tmp]\<rparr>))"

section \<open>One packet\<close>

text \<open>What follows the last cut goes to \<open>remain_data\<close>.\<close>

definition store_rest :: "byte list \<Rightarrow> int \<Rightarrow> int \<Rightarrow> pack_state \<Rightarrow> pack_state run" where
  "store_rest playload playload_len pp st =
     (if pp \<noteq> playload_len - 1
      then (case chunk_store (Some playload) (pp + 1) (playload_len - 1) (ps_remain st) of None \<Rightarrow> Fault
        | Some (rc, ck) \<Rightarrow> Done (st\<lparr>ps_remain := ck\<rparr>))
      else Done st)"

text \<open>The loop over the cut points from the second on, then the rest.\<close>

fun cut_loop ::
  "digest_fun \<Rightarrow> (nat \<Rightarrow> pack_env) \<Rightarrow> byte list \<Rightarrow> int \<Rightarrow> int \<Rightarrow> int list \<Rightarrow> pack_state \<Rightarrow> pack_state run" where
  "cut_loop sha env playload playload_len prev [] st = store_rest playload playload_len prev st"
| "cut_loop sha env playload playload_len prev (pp # pps) st =
     bind_run (next_chunk sha env playload prev pp st) (\<lambda>(ok, st').
       if ok then cut_loop sha env playload playload_len pp pps st' else Done st')"

definition pack_SHA :: "digest_fun \<Rightarrow> (nat \<Rightarrow> pack_env) \<Rightarrow> byte list \<Rightarrow> int \<Rightarrow> pack_state \<Rightarrow> pack_state run" where
  "pack_SHA sha env playload playload_len st =
     (case ps_part st of
        [] \<Rightarrow> Exit
      | [_] \<Rightarrow> Exit
      | [_, _] \<Rightarrow>
          (case chunk_merge (pe_grow (env_at env st)) (Some playload) 0 (playload_len - 1) (ps_remain st) of None \<Rightarrow> Fault
           | Some (rc, ck) \<Rightarrow> Done (st\<lparr>ps_remain := ck\<rparr>))
      | _ # _ # pp # pps \<Rightarrow>
          bind_run (first_chunk sha env playload pp st) (\<lambda>(ok, st').
            if ok then cut_loop sha env playload playload_len pp pps st' else Done st'))"

definition remain_SHA :: "digest_fun \<Rightarrow> (nat \<Rightarrow> pack_env) \<Rightarrow> pack_state \<Rightarrow> pack_state run" where
  "remain_SHA sha env st =
     (let e = env_at env st; ck = ps_remain st in
      case calculate_sha sha (ck_content ck) 0 (sint (ck_end ck - 1)) of None \<Rightarrow> Fault
      | Some (tmp, res) \<Rightarrow>
        (let st1 = st\<lparr>ps_remain := chunk_clean ck, ps_hashed := ps_hashed st @ [tmp]\<rparr> in
         bind_run (dedup_digest e res 0 st1) (\<lambda>(ok, st2). if ok then Done st2 else Fault)))"

text \<open>
  The work of \<open>printPcap\<close> on a payload: packets shorter than the window are passed over.
  \<open>count_packet\<close> is never counted.
\<close>

definition pack_packet :: "digest_fun \<Rightarrow> (nat \<Rightarrow> pack_env) \<Rightarrow> byte list \<Rightarrow> pack_state \<Rightarrow> pack_state run" where
  "pack_packet sha env playload st =
     (if length playload < hp_chunk_num pack_params then Done st
      else bind_run (pack_calculate_part pack_params 0 playload (length playload) (ps_delay st) (part_clean (ps_part st)))
        (\<lambda>(d, part). bind_run (pack_SHA sha env playload (int (length playload)) (st\<lparr>ps_delay := d, ps_part := part\<rparr>))
          (\<lambda>st'. Done (st'\<lparr>ps_sum := ps_sum st' + of_nat (length playload)\<rparr>))))"

section \<open>The capture\<close>

text \<open>
  The headers in a frame buffer: Ethernet (14 bytes), IPv4, and TCP at a fixed offset of 34,
  though the length is computed from \<open>ihl\<close>. \<open>None\<close> stands for a frame that is not looked at.
\<close>

definition be16 :: "byte list \<Rightarrow> nat \<Rightarrow> nat" where
  "be16 p i = unat (p ! i) * 256 + unat (p ! (i + 1))"

definition pcap_payload :: "byte list \<Rightarrow> byte list option run" where
  "pcap_payload frame =
     (if length frame < 54 then Fault
      else if be16 frame 12 = 0x0800 \<and> unat (frame ! 23) = 6
        \<and> (unat (frame ! 47) div 2) mod 2 \<noteq> 1 \<and> (be16 frame 34 = 80 \<or> be16 frame 36 = 80)
      then
        (let doff = (unat (frame ! 46) div 16) * 4;
             len = int (be16 frame 16) - int ((unat (frame ! 14) mod 16) * 4) - int doff
         in if 0 < len then
              if int PACKET_LEN < len \<or> int (length frame) < 34 + int doff + len then Fault
              else Done (Some (take (nat len) (drop (34 + doff) frame)))
            else Done None)
      else Done None)"

definition printPcap :: "digest_fun \<Rightarrow> (nat \<Rightarrow> pack_env) \<Rightarrow> byte list \<Rightarrow> pack_state \<Rightarrow> pack_state run" where
  "printPcap sha env frame st =
     bind_run (pcap_payload frame) (\<lambda>r. case r of None \<Rightarrow> Done st | Some playload \<Rightarrow> pack_packet sha env playload st)"

text \<open>
  The loop of \<open>main\<close> over the records of the file: \<open>capture_len\<close> and the bytes that \<open>fread\<close> got.
  A long record overruns the buffer; after a short one the buffer is freed and then used.
\<close>

fun pcap_loop :: "digest_fun \<Rightarrow> (nat \<Rightarrow> pack_env) \<Rightarrow> (nat \<times> byte list) list \<Rightarrow> pack_state \<Rightarrow> pack_state run" where
  "pcap_loop sha env [] st = Done st"
| "pcap_loop sha env ((capture_len, got) # rs) st =
     (if MAX_ETH_FRAME < length got \<or> length got \<noteq> capture_len then Fault
      else bind_run (printPcap sha env (got @ replicate (MAX_ETH_FRAME - length got) 0) st)
        (\<lambda>st'. if capture_len = 0 then Done st' else pcap_loop sha env rs st'))"

text \<open>
  The set-up in \<open>main\<close>. Where an allocation fails, the error path closes files that were never
  opened.
\<close>

definition pack_setup :: "bool \<Rightarrow> bool \<Rightarrow> bool \<Rightarrow> nat \<Rightarrow> pack_state run" where
  "pack_setup ok_chunk ok_key ok_map base =
     (case (chunk_create ok_chunk ok_chunk, keyvalue_create ok_key ok_key base 0 0,
            Hashmap_create ok_map ok_map ok_map BUCKETS_LEN Hashmap_mode_compare Hashmap_mode_hash) of
        (Some ck, Some kv, Some (Some m)) \<Rightarrow>
          Done \<lparr>ps_delay = 0, ps_part = part_create, ps_remain = ck, ps_key = kv, ps_map = m,
                ps_save = 0, ps_sum = 0, ps_sec = 0, ps_hashed = []\<rparr>
      | _ \<Rightarrow> Fault)"

definition pack_main ::
  "digest_fun \<Rightarrow> (nat \<Rightarrow> pack_env) \<Rightarrow> bool \<Rightarrow> bool \<Rightarrow> bool \<Rightarrow> nat \<Rightarrow> (nat \<times> byte list) list \<Rightarrow> pack_state run" where
  "pack_main sha env ok_chunk ok_key ok_map base rs =
     bind_run (pack_setup ok_chunk ok_key ok_map base) (\<lambda>st.
     bind_run (pcap_loop sha env rs st) (\<lambda>st'. remain_SHA sha env st'))"

section \<open>Invariant\<close>

definition pe_ok :: "pack_env \<Rightarrow> bool" where
  "pe_ok e \<longleftrightarrow> pe_grow e \<and> pe_push e \<and> env_ok (pe_hm e)"

text \<open>The store and the index hold exactly the digests of the chunks \<open>hs\<close>.\<close>

definition index_core :: "digest_fun \<Rightarrow> byte list list \<Rightarrow> keyvalue \<Rightarrow> index \<Rightarrow> bool" where
  "index_core sha hs kv m \<longleftrightarrow> kv_ok kv \<and> kv_step kv = 20 \<and> kv_capacity kv = 10 ^ 9
     \<and> kv_index kv = 20 * card (sha ` set hs) \<and> index_ok m
     \<and> (\<forall>k. length k = 20 \<longrightarrow> hm_has m k = (k \<in> sha ` set hs))
     \<and> (\<forall>k. length k = 20 \<longrightarrow> hm_lookup m k = (if k \<in> sha ` set hs then Some k else None))"

text \<open>The bytes of the chunks whose digest occurs before.\<close>

definition saved_len :: "digest_fun \<Rightarrow> byte list list \<Rightarrow> nat" where
  "saved_len sha hs = (\<Sum>i < length hs. if sha (hs ! i) \<in> sha ` set (take i hs) then length (hs ! i) else 0)"

lemma saved_len_Nil [simp]: "saved_len sha [] = 0"
  by (simp add: saved_len_def)

lemma saved_len_snoc [simp]:
  "saved_len sha (hs @ [c]) = saved_len sha hs + (if sha c \<in> sha ` set hs then length c else 0)"
proof -
  have "(\<Sum>i < length hs. if sha ((hs @ [c]) ! i) \<in> sha ` set (take i (hs @ [c])) then length ((hs @ [c]) ! i) else 0) = saved_len sha hs"
    unfolding saved_len_def by (rule sum.cong) (simp_all add: nth_append)
  then show ?thesis by (simp add: saved_len_def)
qed

definition pack_inv :: "digest_fun \<Rightarrow> pack_state \<Rightarrow> bool" where
  "pack_inv sha st \<longleftrightarrow> chunk_ok (ps_remain st) \<and> unat (ck_limit (ps_remain st)) = CHUNK_LEN
     \<and> index_core sha (ps_hashed st) (ps_key st) (ps_map st)
     \<and> ps_save st = of_nat (saved_len sha (ps_hashed st))"

lemma index_core_dup:
  assumes "index_core sha hs kv m" "sha c \<in> sha ` set hs"
  shows "index_core sha (hs @ [c]) kv m"
  using assms by (simp add: index_core_def insert_absorb)

lemma index_core_new:
  assumes core: "index_core sha hs kv m" and new: "sha c \<notin> sha ` set hs" and len: "\<And>x. length (sha x) = 20"
    and few: "length hs + 2 \<le> SHANUM" and e: "pe_ok e"
  shows "\<exists>p kv' m'. keyvalue_push (pe_push e) (pe_base e) (sha c) kv = Some (Some p, kv') \<and> kv_base kv' = kv_base kv
    \<and> Hashmap_set (pe_hm e) (sha c) (Some (sha c)) m = Some (0, m') \<and> index_core sha (hs @ [c]) kv' m'"
proof -
  have k: "kv_ok kv" "kv_step kv = 20" "kv_capacity kv = 10 ^ 9" "kv_index kv = 20 * card (sha ` set hs)"
    and ix: "index_ok m" "\<And>k. length k = 20 \<Longrightarrow> hm_has m k = (k \<in> sha ` set hs)"
      "\<And>k. length k = 20 \<Longrightarrow> hm_lookup m k = (if k \<in> sha ` set hs then Some k else None)"
    using core by (simp_all add: index_core_def)
  have "card (sha ` set hs) \<le> length hs" by (rule order_trans [OF card_image_le card_length]) simp
  then have b: "card (sha ` set hs) + 2 \<le> 50000000" using few by (simp add: SHANUM_def)
  have fits: "kv_index kv + 2 * kv_step kv \<le> kv_capacity kv" "kv_index kv < 2 ^ 31" "kv_step kv \<le> length (sha c)"
    using b k len by simp_all
  have pe: "pe_push e" "env_ok (pe_hm e)" using e by (simp_all add: pe_ok_def)
  obtain kv' where kv': "keyvalue_push True (pe_base e) (sha c) kv = Some (Some (kv_base kv, kv_index kv), kv')" "kv_ok kv'"
    "kv_base kv' = kv_base kv" "kv_index kv' = kv_index kv + 20" "kv_step kv' = 20" "kv_capacity kv' = 10 ^ 9"
    using keyvalue_push_spec [OF k(1) fits(3,2), of "pe_base e"] fits(1) k(2,3) by auto
  have "\<not> hm_has m (sha c)" using ix(2) len new by simp
  then obtain m' where m': "Hashmap_set (pe_hm e) (sha c) (Some (sha c)) m = Some (0, m')" "index_ok m'"
    "\<And>k. hm_has m' k = (Hashmap_mode_compare (sha c) k = 0 \<or> hm_has m k)"
    "\<And>k. hm_lookup m' k = (if Hashmap_mode_compare (sha c) k = 0 then Some (sha c) else hm_lookup m k)"
    using index_set [OF ix(1) pe(2)] by blast
  have eq: "Hashmap_mode_compare (sha c) k = 0 \<longleftrightarrow> sha c = k" if "length k = 20" for k
    using mode_compare_digest len that by (simp add: SHA_BYTES_def)
  have "index_core sha (hs @ [c]) kv' m'"
    using kv' k(4) m' eq ix(2,3) new by (auto simp: index_core_def)
  then show ?thesis using kv'(1,3) m'(1) pe(1) by auto
qed

lemma dedup_digest_spec:
  assumes core: "index_core sha hs (ps_key st) (ps_map st)" and len: "\<And>x. length (sha x) = 20"
    and few: "length hs + 2 \<le> SHANUM" and e: "pe_ok e"
  shows "\<exists>kv m. dedup_digest e (sha c) n st =
      Done (True, st\<lparr>ps_key := kv, ps_map := m, ps_save := ps_save st + (if sha c \<in> sha ` set hs then word_of_int n else 0)\<rparr>)
    \<and> index_core sha (hs @ [c]) kv m"
proof (cases "sha c \<in> sha ` set hs")
  case True
  then have "Hashmap_get (sha c) (ps_map st) = Some (Some (sha c))"
    using core len by (simp add: index_core_def index_ok_def get_lookup)
  then show ?thesis using index_core_dup [OF core True] True
    by (intro exI [of _ "ps_key st"] exI [of _ "ps_map st"]) (simp add: dedup_digest_def)
next
  case False
  then have "Hashmap_get (sha c) (ps_map st) = Some None"
    using core len by (simp add: index_core_def index_ok_def get_lookup)
  moreover obtain p kv m where "keyvalue_push (pe_push e) (pe_base e) (sha c) (ps_key st) = Some (Some p, kv)"
    "kv_base kv = kv_base (ps_key st)" "Hashmap_set (pe_hm e) (sha c) (Some (sha c)) (ps_map st) = Some (0, m)"
    "index_core sha (hs @ [c]) kv m"
    using index_core_new [OF core False len few e] by blast
  ultimately show ?thesis using False
    by (intro exI [of _ kv] exI [of _ m]) (simp add: dedup_digest_def)
qed

section \<open>The steps of a packet\<close>

lemma length_chunk_bytes: "chunk_ok ck \<Longrightarrow> length (chunk_bytes ck) = unat (ck_end ck)"
  by (auto simp: chunk_ok_def chunk_bytes_def read_block_def split: if_splits)

lemma sint_pred: "e < 2 ^ 31 \<Longrightarrow> sint (of_nat e - 1 :: u64) = int e - 1"
proof -
  assume "e < 2 ^ 31"
  then have "signed_take_bit 63 (int e - 1) = int e - 1" by (intro signed_take_bit_int_eq_self) auto
  moreover have "(of_nat e - 1 :: u64) = word_of_int (int e - 1)" by simp
  ultimately show ?thesis by (simp only: sint_sbintrunc') simp
qed

lemma calculate_sha_chunk:
  assumes "chunk_ok ck" "unat (ck_limit ck) = CHUNK_LEN"
  shows "calculate_sha sha (ck_content ck) 0 (sint (ck_end ck - 1)) = Some (chunk_bytes ck, sha (chunk_bytes ck))"
    "c_int (uint (ck_end ck)) = int (length (chunk_bytes ck))"
proof -
  define e where "e = unat (ck_end ck)"
  have e: "e < 2 ^ 31" "ck_end ck = of_nat e"
    using chunk_ok_end [OF assms(1)] assms by (auto simp: e_def chunk_ok_def CHUNK_LEN_def)
  have c: "c_int (int e) = int e" using e(1) by (simp add: c_int_id)
  have "read_block (ck_content ck) 0 e = Some (chunk_bytes ck)" using assms(1) by (auto simp: chunk_ok_def chunk_bytes_def e_def)
  then show "calculate_sha sha (ck_content ck) 0 (sint (ck_end ck - 1)) = Some (chunk_bytes ck, sha (chunk_bytes ck))"
    using c sint_pred [OF e(1)] by (simp add: calculate_sha_def e(2) Let_def)
  have "uint (ck_end ck) = int e" by (simp add: e_def)
  then show "c_int (uint (ck_end ck)) = int (length (chunk_bytes ck))"
    using c length_chunk_bytes [OF assms(1)] by (simp add: e_def)
qed

text \<open>Digests have 20 bytes and memory is available.\<close>

definition world_ok :: "digest_fun \<Rightarrow> (nat \<Rightarrow> pack_env) \<Rightarrow> bool" where
  "world_ok sha env \<longleftrightarrow> (\<forall>x. length (sha x) = 20) \<and> (\<forall>n. pe_ok (env n))"

lemma world_okD: "world_ok sha env \<Longrightarrow> length (sha x) = 20" "world_ok sha env \<Longrightarrow> pe_ok (env n)"
  by (simp_all add: world_ok_def)

lemma hash_chunk:
  assumes w: "world_ok sha env" and inv: "pack_inv sha st" and few: "length (ps_hashed st) + 2 \<le> SHANUM"
    and st1: "ps_key st1 = ps_key st" "ps_map st1 = ps_map st" "ps_save st1 = ps_save st"
      "ps_hashed st1 = ps_hashed st @ [c]" "chunk_ok (ps_remain st1)" "unat (ck_limit (ps_remain st1)) = CHUNK_LEN"
  shows "\<exists>st'. dedup_digest (env n) (sha c) (int (length c)) st1 = Done (True, st') \<and> pack_inv sha st'
    \<and> ps_hashed st' = ps_hashed st @ [c] \<and> ps_remain st' = ps_remain st1 \<and> ps_sum st' = ps_sum st1 \<and> ps_delay st' = ps_delay st1"
proof -
  have core: "index_core sha (ps_hashed st) (ps_key st1) (ps_map st1)" using inv st1 by (simp add: pack_inv_def)
  obtain kv m where d: "dedup_digest (env n) (sha c) (int (length c)) st1 =
      Done (True, st1\<lparr>ps_key := kv, ps_map := m, ps_save := ps_save st1 + (if sha c \<in> sha ` set (ps_hashed st) then word_of_int (int (length c)) else 0)\<rparr>)"
    "index_core sha (ps_hashed st @ [c]) kv m"
    using dedup_digest_spec [OF core world_okD(1) [OF w] few world_okD(2) [OF w, of n], where c = c and n = "int (length c)"] by blast
  then show ?thesis using inv st1 by (auto simp: pack_inv_def)
qed

lemma first_chunk_spec:
  assumes w: "world_ok sha env" and inv: "pack_inv sha st" and few: "length (ps_hashed st) + 2 \<le> SHANUM" and pp: "pp < length p"
    and fits: "length (chunk_bytes (ps_remain st)) + Suc pp \<le> CHUNK_LEN"
  shows "\<exists>st'. first_chunk sha env p (int pp) st = Done (True, st') \<and> pack_inv sha st'
    \<and> ps_hashed st' = ps_hashed st @ [chunk_bytes (ps_remain st) @ take (Suc pp) p]
    \<and> chunk_bytes (ps_remain st') = [] \<and> ps_sum st' = ps_sum st \<and> ps_delay st' = ps_delay st"
proof -
  let ?c = "chunk_bytes (ps_remain st) @ take (Suc pp) p"
  have ck: "chunk_ok (ps_remain st)" "unat (ck_limit (ps_remain st)) = CHUNK_LEN" using inv by (simp_all add: pack_inv_def)
  have small: "int pp - 0 + 1 < 2 ^ 31" using fits by (simp add: CHUNK_LEN_def)
  have "unat (ck_end (ps_remain st)) + nat (int pp - 0 + 1) \<le> unat (ck_limit (ps_remain st))"
    using fits ck length_chunk_bytes [OF ck(1)] by (simp add: nat_add_distrib)
  then obtain ck' where ck': "chunk_merge True (Some p) 0 (int pp) (ps_remain st) = Some (int pp - 0 + 1, ck')" "chunk_ok ck'"
    "ck_limit ck' = ck_limit (ps_remain st)" "chunk_bytes ck' = ?c"
    using chunk_merge_exact [OF ck(1) _ _ _ small, of p] pp by (auto simp: segment_def)
  have lim: "unat (ck_limit ck') = CHUNK_LEN" using ck'(3) ck(2) by simp
  let ?st = "st\<lparr>ps_remain := chunk_clean ck', ps_sec := ps_sec st + pe_time (env_at env st), ps_hashed := ps_hashed st @ [?c]\<rparr>"
  have cl: "chunk_ok (chunk_clean ck')" "chunk_bytes (chunk_clean ck') = []" "ck_limit (chunk_clean ck') = ck_limit ck'"
    using chunk_clean_ok [OF ck'(2)] by (simp_all add: chunk_clean_def)
  have g: "pe_grow (env_at env st)" using w by (simp add: env_at_def world_ok_def pe_ok_def)
  have "first_chunk sha env p (int pp) st = dedup_digest (env_at env st) (sha ?c) (int (length ?c)) ?st"
    using calculate_sha_chunk(1) [OF ck'(2) lim, of sha] calculate_sha_chunk(2) [OF ck'(2) lim] ck'(1,4) g by (simp add: first_chunk_def Let_def)
  then show ?thesis
    using hash_chunk [OF w inv few, where ?st1.0 = ?st and c = ?c and n = "length (ps_hashed st)"] cl lim by (auto simp: env_at_def)
qed

lemma read_payload:
  assumes "i \<le> Suc j" "j < length p"
  shows "read_block (map Some p) i (Suc j - i) = Some (segment p i j)"
  using assms by (simp add: read_block_def segment_def drop_map take_map comp_def list_all_iff)

lemma next_chunk_spec:
  assumes w: "world_ok sha env" and inv: "pack_inv sha st" and few: "length (ps_hashed st) + 2 \<le> SHANUM" and pp: "prev < pp" "pp < length p"
    and small: "length p < 2 ^ 31"
  shows "\<exists>st'. next_chunk sha env p (int prev) (int pp) st = Done (True, st') \<and> pack_inv sha st'
    \<and> ps_hashed st' = ps_hashed st @ [segment p (Suc prev) pp]
    \<and> ps_remain st' = ps_remain st \<and> ps_sum st' = ps_sum st \<and> ps_delay st' = ps_delay st"
proof -
  let ?c = "segment p (Suc prev) pp"
  let ?st = "st\<lparr>ps_sec := ps_sec st + pe_time (env_at env st), ps_hashed := ps_hashed st @ [?c]\<rparr>"
  have len: "length ?c = pp - prev" using pp by (subst length_segment) auto
  have d: "int pp - int prev = int (pp - prev)" "int pp - (int prev + 1) + 1 = int (pp - prev)" using pp by auto
  have c: "c_int (int (pp - prev)) = int (pp - prev)" by (rule c_int_id) (use pp small in simp_all)
  have n: "nat (int prev + 1) = Suc prev" by simp
  have s: "calculate_sha sha (map Some p) (int prev + 1) (int pp) = Some (?c, sha ?c)"
    using read_payload [of "Suc prev" pp p] pp by (simp add: calculate_sha_def d(2) c n del: of_nat_diff)
  have "next_chunk sha env p (int prev) (int pp) st = dedup_digest (env_at env st) (sha ?c) (int (length ?c)) ?st"
    unfolding next_chunk_def Let_def d(1) c s len by simp
  then show ?thesis
    using hash_chunk [OF w inv few, where ?st1.0 = ?st and c = ?c and n = "length (ps_hashed st)"] inv by (auto simp: env_at_def pack_inv_def)
qed

lemma store_rest_spec:
  assumes inv: "pack_inv sha st" and l: "pp < length p" "length p \<le> CHUNK_LEN" and e: "chunk_bytes (ps_remain st) = []"
  shows "\<exists>st'. store_rest p (int (length p)) (int pp) st = Done st' \<and> pack_inv sha st' \<and> ps_hashed st' = ps_hashed st
    \<and> chunk_bytes (ps_remain st') = drop (Suc pp) p \<and> ps_sum st' = ps_sum st \<and> ps_delay st' = ps_delay st"
proof (cases "pp = length p - 1")
  case True
  then have "int pp = int (length p) - 1" using l by simp
  then show ?thesis using inv e True l by (simp add: store_rest_def)
next
  case False
  let ?bg = "int pp + 1" and ?en = "int (length p) - 1"
  have r: "0 \<le> ?bg" "?bg \<le> ?en" "?en < int (length p)" "?en - ?bg + 1 < 2 ^ 31" using l False by (auto simp: CHUNK_LEN_def)
  have ck: "chunk_ok (ps_remain st)" "unat (ck_limit (ps_remain st)) = CHUNK_LEN" using inv by (simp_all add: pack_inv_def)
  have "nat (?en - ?bg + 1) \<le> unat (ck_limit (ps_remain st))" unfolding ck(2) using l by arith
  then obtain ck' where ck': "chunk_store (Some p) ?bg ?en (ps_remain st) = Some (?en - ?bg + 1, ck')" "chunk_ok ck'"
    "ck_limit ck' = ck_limit (ps_remain st)" "chunk_bytes ck' = segment p (nat ?bg) (nat ?en)"
    using chunk_store_exact [OF ck(1) r] by auto
  have "nat ?bg = Suc pp" "Suc (nat ?en) = length p" using l by auto
  then have "segment p (nat ?bg) (nat ?en) = drop (Suc pp) p" by (simp add: segment_def)
  then show ?thesis using ck' inv False l by (auto simp: store_rest_def pack_inv_def)
qed

lemma cut_loop_spec:
  assumes w: "world_ok sha env" and "pack_inv sha st" "length (ps_hashed st) + length cuts + 1 \<le> SHANUM" "prev < length p" "length p \<le> CHUNK_LEN"
    and "sorted_wrt (<) (prev # cuts)" "\<forall>c \<in> set cuts. c < length p" "chunk_bytes (ps_remain st) = []"
  shows "\<exists>st' new. cut_loop sha env p (int (length p)) (int prev) (map int cuts) st = Done st' \<and> pack_inv sha st'
    \<and> ps_hashed st' = ps_hashed st @ new \<and> length new = length cuts
    \<and> concat new @ chunk_bytes (ps_remain st') = drop (Suc prev) p
    \<and> chunk_bytes (ps_remain st') = drop (Suc (last (prev # cuts))) p \<and> ps_sum st' = ps_sum st \<and> ps_delay st' = ps_delay st"
  using assms(2-)
proof (induction cuts arbitrary: prev st)
  case Nil
  then show ?case using store_rest_spec [of sha st prev p] by auto
next
  case (Cons c cuts)
  have pc: "prev < c" "c < length p" using Cons.prems by auto
  obtain st1 where st1: "next_chunk sha env p (int prev) (int c) st = Done (True, st1)" "pack_inv sha st1"
    "ps_hashed st1 = ps_hashed st @ [segment p (Suc prev) c]" "ps_remain st1 = ps_remain st" "ps_sum st1 = ps_sum st"
    "ps_delay st1 = ps_delay st"
    using next_chunk_spec [OF w Cons.prems(1) _ pc] Cons.prems(2,4) by (auto simp: CHUNK_LEN_def)
  obtain st' new where st': "cut_loop sha env p (int (length p)) (int c) (map int cuts) st1 = Done st'" "pack_inv sha st'"
    "ps_hashed st' = ps_hashed st1 @ new" "length new = length cuts" "concat new @ chunk_bytes (ps_remain st') = drop (Suc c) p"
    "chunk_bytes (ps_remain st') = drop (Suc (last (c # cuts))) p" "ps_sum st' = ps_sum st1" "ps_delay st' = ps_delay st1"
    using Cons.IH [of st1 c] st1 Cons.prems pc by auto
  have "segment p (Suc prev) c @ drop (Suc c) p = drop (Suc prev) p"
    using pc append_take_drop_id [of "c - prev" "drop (Suc prev) p"] by (simp add: segment_def)
  then have "concat (segment p (Suc prev) c # new) @ chunk_bytes (ps_remain st') = drop (Suc prev) p" using st'(5) by simp
  then show ?case
    using st1 st' by (intro exI [of _ st'] exI [of _ "segment p (Suc prev) c # new"]) simp
qed

section \<open>Streams of packets\<close>

text \<open>The number of bytes that remain after a packet, from the reference cut points.\<close>

definition rest_len :: "nat \<Rightarrow> nat \<Rightarrow> byte list \<Rightarrow> nat" where
  "rest_len d r p = (if length p < 32 then r else if pack_cuts d p = [] then r + length p else length p - Suc (last (pack_cuts d p)))"

definition next_delay :: "nat \<Rightarrow> byte list \<Rightarrow> nat" where
  "next_delay d p = (if length p < 32 then d else pack_delay d p)"

definition kept :: "byte list \<Rightarrow> byte list" where
  "kept p = (if length p < 32 then [] else p)"

lemma pack_SHA_no_cut:
  assumes w: "world_ok sha env" and inv: "pack_inv sha st" and part: "ps_part st = [a, b]" and len: "1 \<le> length p" "length p < 2 ^ 16"
    and fits: "length (chunk_bytes (ps_remain st)) + length p \<le> CHUNK_LEN"
  shows "\<exists>st'. pack_SHA sha env p (int (length p)) st = Done st' \<and> pack_inv sha st' \<and> ps_delay st' = ps_delay st
    \<and> ps_hashed st' = ps_hashed st \<and> chunk_bytes (ps_remain st') = chunk_bytes (ps_remain st) @ p \<and> ps_sum st' = ps_sum st"
proof -
  have ck: "chunk_ok (ps_remain st)" "unat (ck_limit (ps_remain st)) = CHUNK_LEN" using inv by (simp_all add: pack_inv_def)
  let ?en = "int (length p) - 1"
  have r: "0 \<le> (0 :: int)" "0 \<le> ?en" "?en < int (length p)" "?en - 0 + 1 < 2 ^ 31" using len by auto
  have "unat (ck_end (ps_remain st)) + nat (?en - 0 + 1) \<le> unat (ck_limit (ps_remain st))"
    using fits ck length_chunk_bytes [OF ck(1)] by simp
  moreover have "nat ?en = length p - 1" by simp
  ultimately obtain ck' where ck': "chunk_merge True (Some p) 0 ?en (ps_remain st) = Some (?en - 0 + 1, ck')" "chunk_ok ck'"
    "ck_limit ck' = ck_limit (ps_remain st)" "chunk_bytes ck' = chunk_bytes (ps_remain st) @ p"
    using chunk_merge_exact [OF ck(1) r] len(1) by (auto simp: segment_def)
  have "pe_grow (env_at env st)" using w by (simp add: env_at_def world_ok_def pe_ok_def)
  then have "pack_SHA sha env p (int (length p)) st = Done (st\<lparr>ps_remain := ck'\<rparr>)"
    using ck'(1) part by (simp add: pack_SHA_def)
  then show ?thesis using inv ck' ck(2) by (auto simp: pack_inv_def)
qed

lemma pack_SHA_cuts:
  assumes w: "world_ok sha env" and inv: "pack_inv sha st" and part: "ps_part st = [a, b] @ map int (c # cs)"
    and srt: "sorted_wrt (<) (c # cs)" and bnd: "\<forall>x \<in> set (c # cs). x < length p"
    and fits: "length (chunk_bytes (ps_remain st)) + length p \<le> CHUNK_LEN" and few: "length (ps_hashed st) + length (c # cs) + 2 \<le> SHANUM"
  shows "\<exists>st' new. pack_SHA sha env p (int (length p)) st = Done st' \<and> pack_inv sha st' \<and> ps_delay st' = ps_delay st
    \<and> ps_hashed st' = ps_hashed st @ new \<and> length new = length (c # cs)
    \<and> concat new @ chunk_bytes (ps_remain st') = chunk_bytes (ps_remain st) @ p
    \<and> chunk_bytes (ps_remain st') = drop (Suc (last (c # cs))) p \<and> ps_sum st' = ps_sum st"
proof -
  let ?r = "chunk_bytes (ps_remain st)"
  obtain st2 where st2: "first_chunk sha env p (int c) st = Done (True, st2)" "pack_inv sha st2"
    "ps_hashed st2 = ps_hashed st @ [?r @ take (Suc c) p]" "chunk_bytes (ps_remain st2) = []" "ps_sum st2 = ps_sum st"
    "ps_delay st2 = ps_delay st"
    using first_chunk_spec [OF w inv, of c p] few fits bnd by auto
  obtain st' new where st': "cut_loop sha env p (int (length p)) (int c) (map int cs) st2 = Done st'" "pack_inv sha st'"
    "ps_hashed st' = ps_hashed st2 @ new" "length new = length cs" "concat new @ chunk_bytes (ps_remain st') = drop (Suc c) p"
    "chunk_bytes (ps_remain st') = drop (Suc (last (c # cs))) p" "ps_sum st' = ps_sum st2" "ps_delay st' = ps_delay st2"
    using cut_loop_spec [OF w st2(2), of cs c p] st2 few bnd srt fits by auto
  have "concat ((?r @ take (Suc c) p) # new) @ chunk_bytes (ps_remain st') = ?r @ p" using st'(5) by simp
  moreover have "pack_SHA sha env p (int (length p)) st = Done st'" using part st2(1) st'(1) by (simp add: pack_SHA_def)
  ultimately show ?thesis using st2 st' by (intro exI [of _ st'] exI [of _ "(?r @ take (Suc c) p) # new"]) simp
qed

lemma pack_packet_spec:
  assumes w: "world_ok sha env" and inv: "pack_inv sha st"
    and fits: "length (chunk_bytes (ps_remain st)) + length p \<le> CHUNK_LEN"
    and few: "33 * (length (ps_hashed st) + 2) + 2 * length (kept p) \<le> 33 * SHANUM"
  shows "\<exists>st' new. pack_packet sha env p st = Done st' \<and> pack_inv sha st' \<and> ps_delay st' = next_delay (ps_delay st) p
    \<and> ps_hashed st' = ps_hashed st @ new \<and> 33 * length new \<le> 2 * length (kept p)
    \<and> concat new @ chunk_bytes (ps_remain st') = chunk_bytes (ps_remain st) @ kept p
    \<and> length (chunk_bytes (ps_remain st')) = rest_len (ps_delay st) (length (chunk_bytes (ps_remain st))) p
    \<and> ps_sum st' = ps_sum st + of_nat (length (kept p))"
proof (cases "length p < 32")
  case True
  then show ?thesis using inv by (auto simp: pack_packet_def next_delay_def kept_def rest_len_def)
next
  case False
  let ?d = "ps_delay st" and ?r = "chunk_bytes (ps_remain st)"
  have len: "32 \<le> length p" "length p < 2 ^ 16" "1 \<le> length p" using False fits by (auto simp: CHUNK_LEN_def)
  define cuts where "cuts = pack_cuts ?d p"
  define st1 where "st1 = st\<lparr>ps_delay := pack_delay ?d p, ps_part := [0, int (length p)] @ map int cuts\<rparr>"
  have inv1: "pack_inv sha st1" using inv by (simp add: pack_inv_def st1_def)
  have st1: "ps_part st1 = [0, int (length p)] @ map int cuts" "ps_remain st1 = ps_remain st" "ps_hashed st1 = ps_hashed st"
    "ps_sum st1 = ps_sum st" "ps_delay st1 = pack_delay ?d p" by (simp_all add: st1_def)
  have few1: "33 * length cuts \<le> 2 * length p" "length (ps_hashed st) + length cuts + 2 \<le> SHANUM"
    using few cuts_few [of ?d p] len(1) False by (simp_all add: cuts_def kept_def)
  have "\<exists>st' new. pack_SHA sha env p (int (length p)) st1 = Done st' \<and> pack_inv sha st' \<and> ps_delay st' = pack_delay ?d p
      \<and> ps_hashed st' = ps_hashed st @ new \<and> length new = length cuts \<and> concat new @ chunk_bytes (ps_remain st') = ?r @ p
      \<and> length (chunk_bytes (ps_remain st')) = rest_len ?d (length ?r) p \<and> ps_sum st' = ps_sum st"
  proof (cases cuts)
    case Nil
    then have "ps_part st1 = [0, int (length p)]" by (simp add: st1)
    from pack_SHA_no_cut [OF w inv1 this len(3,2)] show ?thesis using st1 fits Nil False by (auto simp: rest_len_def cuts_def)
  next
    case (Cons c cs)
    have "sorted_wrt (<) (c # cs)" "\<forall>x \<in> set (c # cs). x < length p"
      using pc.cuts_increasing [of ?d p] pack_cuts_range(2) [of _ ?d p] Cons by (auto simp: cuts_def)
    from pack_SHA_cuts [OF w inv1 st1(1) [unfolded Cons] this] obtain st' new where
      "pack_SHA sha env p (int (length p)) st1 = Done st'" "pack_inv sha st'" "ps_delay st' = ps_delay st1" "ps_hashed st' = ps_hashed st1 @ new"
      "length new = length (c # cs)" "concat new @ chunk_bytes (ps_remain st') = ?r @ p"
      "chunk_bytes (ps_remain st') = drop (Suc (last (c # cs))) p" "ps_sum st' = ps_sum st1"
      using st1(2,3) fits few1(2) Cons by auto
    then show ?thesis using st1 Cons False by (intro exI [of _ st'] exI [of _ new]) (simp add: rest_len_def cuts_def)
  qed
  then obtain st' new where "pack_SHA sha env p (int (length p)) st1 = Done st'" "pack_inv sha st'" "ps_delay st' = pack_delay ?d p"
    "ps_hashed st' = ps_hashed st @ new" "length new = length cuts" "concat new @ chunk_bytes (ps_remain st') = ?r @ p"
    "length (chunk_bytes (ps_remain st')) = rest_len ?d (length ?r) p" "ps_sum st' = ps_sum st" by blast
  moreover have "pack_packet sha env p st = bind_run (pack_SHA sha env p (int (length p)) st1)
      (\<lambda>st'. Done (st'\<lparr>ps_sum := ps_sum st' + of_nat (length p)\<rparr>))"
    using pack_calculate_part_cuts [OF len(1,2), of 0 ?d "ps_part st"] False by (simp add: pack_packet_def st1_def cuts_def)
  ultimately show ?thesis using False few1(1)
    by (intro exI [of _ "st'\<lparr>ps_sum := ps_sum st' + of_nat (length p)\<rparr>"] exI [of _ new])
      (simp add: kept_def next_delay_def pack_inv_def)
qed

definition record_frame :: "nat \<times> byte list \<Rightarrow> byte list" where
  "record_frame r = snd r @ replicate (MAX_ETH_FRAME - length (snd r)) 0"

text \<open>A record that is not empty, was read completely and whose headers point into the buffer.\<close>

definition good_record :: "nat \<times> byte list \<Rightarrow> bool" where
  "good_record r \<longleftrightarrow> length (snd r) = fst r \<and> 0 < fst r \<and> fst r \<le> MAX_ETH_FRAME
     \<and> (case pcap_payload (record_frame r) of Done _ \<Rightarrow> True | _ \<Rightarrow> False)"

definition payload_of :: "nat \<times> byte list \<Rightarrow> byte list" where
  "payload_of r = (case pcap_payload (record_frame r) of Done (Some p) \<Rightarrow> p | _ \<Rightarrow> [])"

text \<open>What remains and one more payload never exceed the buffer.\<close>

fun fits :: "nat \<Rightarrow> nat \<Rightarrow> byte list list \<Rightarrow> bool" where
  "fits d r [] = True"
| "fits d r (p # ps) = (r + length p \<le> CHUNK_LEN \<and> fits (next_delay d p) (rest_len d r p) ps)"

definition stream :: "(nat \<times> byte list) list \<Rightarrow> byte list" where
  "stream rs = concat (map (\<lambda>r. kept (payload_of r)) rs)"

lemma printPcap_good:
  assumes "good_record r"
  shows "printPcap sha env (record_frame r) st = pack_packet sha env (payload_of r) st"
  using assms
  by (auto simp: good_record_def payload_of_def printPcap_def pack_packet_def split: run.splits option.split)

lemma pcap_loop_spec:
  assumes w: "world_ok sha env" and "pack_inv sha st" "list_all good_record rs"
    and "fits (ps_delay st) (length (chunk_bytes (ps_remain st))) (map payload_of rs)"
    and "33 * (length (ps_hashed st) + 2) + 2 * length (stream rs) \<le> 33 * SHANUM"
  shows "\<exists>st' new. pcap_loop sha env rs st = Done st' \<and> pack_inv sha st' \<and> ps_hashed st' = ps_hashed st @ new
    \<and> 33 * length new \<le> 2 * length (stream rs)
    \<and> concat new @ chunk_bytes (ps_remain st') = chunk_bytes (ps_remain st) @ stream rs
    \<and> ps_sum st' = ps_sum st + of_nat (length (stream rs))"
  using assms(2-)
proof (induction rs arbitrary: st)
  case Nil
  then show ?case by (simp add: stream_def)
next
  case (Cons r rs)
  obtain n got where r: "r = (n, got)" by (cases r)
  let ?p = "payload_of r"
  have s: "stream (r # rs) = kept ?p @ stream rs" by (simp add: stream_def)
  have good: "good_record r" using Cons.prems(2) by simp
  have few: "33 * (length (ps_hashed st) + 2) + 2 * length (kept ?p) \<le> 33 * SHANUM" using Cons.prems(4) by (simp add: s)
  obtain st1 new1 where 1: "pack_packet sha env ?p st = Done st1" "pack_inv sha st1" "ps_delay st1 = next_delay (ps_delay st) ?p"
    "ps_hashed st1 = ps_hashed st @ new1" "33 * length new1 \<le> 2 * length (kept ?p)"
    "concat new1 @ chunk_bytes (ps_remain st1) = chunk_bytes (ps_remain st) @ kept ?p"
    "length (chunk_bytes (ps_remain st1)) = rest_len (ps_delay st) (length (chunk_bytes (ps_remain st))) ?p"
    "ps_sum st1 = ps_sum st + of_nat (length (kept ?p))"
    using pack_packet_spec [OF w Cons.prems(1) _ few] Cons.prems(3) by auto
  obtain st' new where 2: "pcap_loop sha env rs st1 = Done st'" "pack_inv sha st'" "ps_hashed st' = ps_hashed st1 @ new"
    "33 * length new \<le> 2 * length (stream rs)" "concat new @ chunk_bytes (ps_remain st') = chunk_bytes (ps_remain st1) @ stream rs"
    "ps_sum st' = ps_sum st1 + of_nat (length (stream rs))"
    using Cons.IH [of st1] Cons.prems 1 by (auto simp: s)
  have "pcap_loop sha env (r # rs) st = Done st'"
    using good printPcap_good [OF good, of sha env st] 1(1) 2(1) by (simp add: r good_record_def record_frame_def)
  moreover have "concat (new1 @ new) @ chunk_bytes (ps_remain st') = chunk_bytes (ps_remain st) @ stream (r # rs)"
    using 2(5) 1(6) by (simp add: s)
  ultimately show ?case
    using 1 2 by (intro exI [of _ st'] exI [of _ "new1 @ new"]) (simp add: s)
qed

section \<open>The program\<close>

lemma setup_inv:
  "\<exists>st. pack_setup True True True base = Done st \<and> pack_inv sha st \<and> ps_hashed st = [] \<and> ps_delay st = 0
    \<and> chunk_bytes (ps_remain st) = [] \<and> ps_sum st = 0"
proof -
  obtain ck where ck: "chunk_create True True = Some ck" by (simp add: chunk_create_def)
  obtain kv where kv: "keyvalue_create True True base 0 0 = Some kv" "kv_ok kv" "kv_index kv = 0" "kv_step kv = 20" "kv_capacity kv = 10 ^ 9"
    using keyvalue_create_ok [of 0 0 base] by (auto simp: keyvalue_create_def SHA_BYTES_def SHANUM_def Let_def)
  obtain m where m: "Hashmap_create True True True BUCKETS_LEN Hashmap_mode_compare Hashmap_mode_hash = Some (Some m)"
    "index_ok m" "\<forall>k. \<not> hm_has m k \<and> hm_lookup m k = None"
    using index_create [of BUCKETS_LEN BUCKETS_LEN] by (auto simp: Hashmap_mode_hash_def BUCKETS_LEN_def)
  show ?thesis
    using chunk_create_ok [OF ck] ck kv m by (simp add: pack_setup_def pack_inv_def index_core_def CHUNK_LEN_def)
qed

lemma remain_SHA_spec:
  assumes w: "world_ok sha env" and inv: "pack_inv sha st" and few: "length (ps_hashed st) + 2 \<le> SHANUM"
  shows "\<exists>st'. remain_SHA sha env st = Done st' \<and> ps_hashed st' = ps_hashed st @ [chunk_bytes (ps_remain st)]
    \<and> ps_save st' = of_nat (saved_len sha (ps_hashed st)) \<and> ps_sum st' = ps_sum st
    \<and> index_core sha (ps_hashed st') (ps_key st') (ps_map st')"
proof -
  let ?c = "chunk_bytes (ps_remain st)"
  have ck: "chunk_ok (ps_remain st)" "unat (ck_limit (ps_remain st)) = CHUNK_LEN" using inv by (simp_all add: pack_inv_def)
  let ?st = "st\<lparr>ps_remain := chunk_clean (ps_remain st), ps_hashed := ps_hashed st @ [?c]\<rparr>"
  have core: "index_core sha (ps_hashed st) (ps_key ?st) (ps_map ?st)" using inv by (simp add: pack_inv_def)
  obtain kv m where "dedup_digest (env_at env st) (sha ?c) 0 ?st =
      Done (True, ?st\<lparr>ps_key := kv, ps_map := m, ps_save := ps_save ?st + (if sha ?c \<in> sha ` set (ps_hashed st) then word_of_int 0 else 0)\<rparr>)"
    "index_core sha (ps_hashed st @ [?c]) kv m"
    unfolding env_at_def using dedup_digest_spec [OF core world_okD(1) [OF w] few world_okD(2) [OF w], where c = ?c and n = 0] by blast
  then show ?thesis
    using calculate_sha_chunk(1) [OF ck, of sha] inv by (simp add: remain_SHA_def Let_def pack_inv_def)
qed


text \<open>One frame with forty zero bytes of payload.\<close>

definition demo_header :: "byte list" where
  "demo_header = [0, 0, 0, 0, 0, 0, 0, 0, 0, 0, 0, 0, 8, 0, 69, 0, 0, 80, 0, 0, 0, 0, 0, 6, 0, 0, 0,
     0, 0, 0, 0, 0, 0, 0, 0, 80, 0, 0, 0, 0, 0, 0, 0, 0, 0, 0, 80, 16, 0, 0, 0, 0, 0, 0]"

definition demo_record :: "nat \<times> byte list" where
  "demo_record = (94, demo_header @ replicate 40 0)"

definition demo_sha :: digest_fun where "demo_sha x = replicate 20 (of_nat (length x))"

definition demo_pe :: "nat \<Rightarrow> pack_env" where
  "demo_pe n = \<lparr>pe_grow = True, pe_push = True, pe_base = 0, pe_hm = demo_hm_env, pe_time = 1\<rparr>"

lemma demo_frame: "pcap_payload (record_frame demo_record) = Done (Some (replicate 40 0))"
proof -
  let ?f = "record_frame demo_record"
  have f: "?f = demo_header @ replicate 35946 0"
    by (simp add: record_frame_def demo_record_def MAX_ETH_FRAME_def demo_header_def replicate_add [symmetric])
  have "length demo_header = 54" by (simp add: demo_header_def)
  then have n: "i < 54 \<Longrightarrow> ?f ! i = demo_header ! i" for i by (simp add: f nth_append)
  have l: "length ?f = 36000" by (simp add: f demo_header_def)
  have d: "drop 54 ?f = replicate 35946 0" by (simp add: f demo_header_def)
  show ?thesis
    by (simp add: pcap_payload_def be16_def n l Let_def PACKET_LEN_def d) (simp add: demo_header_def d)
qed


end
