(* ===== verification/Pack_Sort.thy ===== *)
theory Pack_Sort
  imports Prelude
begin

text \<open>
  The byte histogram of the packer: \<open>merge\<close>, \<open>sort\<close> and \<open>store_char\<close> of \<open>pack.c\<close>. The arrays
  \<open>a\<close> and \<open>aux\<close> (a global) are lists that the functions pass on; bytes are compared as \<open>char\<close>s.
\<close>

section \<open>Operations\<close>

text \<open>The loop of \<open>merge\<close> with \<open>n\<close> elements to write from \<open>k\<close> on.\<close>

fun merge_loop :: "byte list \<Rightarrow> nat \<Rightarrow> nat \<Rightarrow> nat \<Rightarrow> nat \<Rightarrow> nat \<Rightarrow> nat \<Rightarrow> byte list \<Rightarrow> byte list" where
  "merge_loop aux mid hi 0 k i j a = a"
| "merge_loop aux mid hi (Suc n) k i j a =
     (if mid < i then merge_loop aux mid hi n (k + 1) i (j + 1) (a[k := aux ! j])
      else if hi < j then merge_loop aux mid hi n (k + 1) (i + 1) j (a[k := aux ! i])
      else if sint (aux ! j) < sint (aux ! i) then merge_loop aux mid hi n (k + 1) i (j + 1) (a[k := aux ! j])
      else merge_loop aux mid hi n (k + 1) (i + 1) j (a[k := aux ! i]))"

definition pack_merge :: "byte list \<Rightarrow> byte list \<Rightarrow> nat \<Rightarrow> nat \<Rightarrow> nat \<Rightarrow> byte list \<times> byte list" where
  "pack_merge a aux lo mid hi =
     (let aux1 = take lo aux @ segment a lo hi @ drop (Suc hi) aux
      in (merge_loop aux1 mid hi (Suc hi - lo) lo lo (mid + 1) a, aux1))"

text \<open>\<open>lo\<close> and \<open>hi\<close> are \<open>int\<close>s; \<open>hi\<close> is -1 for an empty array.\<close>

function pack_sort :: "byte list \<Rightarrow> byte list \<Rightarrow> int \<Rightarrow> int \<Rightarrow> byte list \<times> byte list" where
  "pack_sort a aux lo hi =
     (if hi \<le> lo then (a, aux)
      else let mid = lo + (hi - lo) div 2 in
        case pack_sort a aux lo mid of (a1, aux1) \<Rightarrow>
        case pack_sort a1 aux1 (mid + 1) hi of (a2, aux2) \<Rightarrow>
          pack_merge a2 aux2 (nat lo) (nat mid) (nat hi))"
  by pat_completeness auto
termination
  by (relation "measure (\<lambda>(a, aux, lo, hi). nat (hi - lo))") (auto simp: nat_less_eq_zless)

declare pack_sort.simps [simp del]

text \<open>
  The counting loop of \<open>store_char\<close>: \<open>cmp\<close> and its count so far, the bytes to go, the pairs that
  \<open>fprintf\<close> wrote.
\<close>

fun count_runs :: "byte \<Rightarrow> nat \<Rightarrow> byte list \<Rightarrow> (byte \<times> nat) list" where
  "count_runs cmp n [] = []"
| "count_runs cmp n (x # xs) = (if cmp \<noteq> x then (cmp, n) # count_runs x 1 xs else count_runs cmp (n + 1) xs)"

text \<open>An empty payload reads \<open>tmp_data[0]\<close> outside its block.\<close>

definition store_char :: "byte list \<Rightarrow> byte list \<Rightarrow> (byte \<times> nat) list option" where
  "store_char aux playload =
     (case fst (pack_sort playload aux 0 (int (length playload) - 1)) of
        [] \<Rightarrow> None
      | x # xs \<Rightarrow> Some (count_runs x 1 xs))"

section \<open>Merging\<close>

text \<open>The merge of two lists, as a reference.\<close>

fun merge_lists :: "byte list \<Rightarrow> byte list \<Rightarrow> byte list" where
  "merge_lists [] ys = ys"
| "merge_lists (x # xs) [] = x # xs"
| "merge_lists (x # xs) (y # ys) = (if sint y < sint x then y # merge_lists (x # xs) ys else x # merge_lists xs (y # ys))"

lemma mset_merge_lists [simp]: "mset (merge_lists xs ys) = mset xs + mset ys"
  by (induction xs ys rule: merge_lists.induct) auto

lemma set_merge_lists [simp]: "set (merge_lists xs ys) = set xs \<union> set ys"
  by (metis mset_merge_lists set_mset_mset set_mset_union)

lemma sorted_merge_lists:
  "sorted (map sint xs) \<Longrightarrow> sorted (map sint ys) \<Longrightarrow> sorted (map sint (merge_lists xs ys))"
  by (induction xs ys rule: merge_lists.induct) (auto intro: order_trans less_imp_le)

lemma merge_sorted_parts: "merge_lists (sort_key sint xs) (sort_key sint ys) = sort_key sint (xs @ ys)"
proof -
  have "sort_key sint (xs @ ys) = merge_lists (sort_key sint xs) (sort_key sint ys)"
  proof (rule sort_key_inj_key_eq)
    show "inj_on sint (set (xs @ ys))" by (rule inj_onI) (rule signed_word_eqI)
  qed (simp_all add: sorted_merge_lists)
  then show ?thesis ..
qed

lemma merge_lists_Nil2 [simp]: "merge_lists xs [] = xs"
  by (cases xs) auto

lemma segment_empty: "j < i \<Longrightarrow> segment p i j = []"
  by (simp add: segment_def)

lemma merge_loop_lists:
  assumes "length P = k" "n = (Suc mid - i) + (Suc hi - j)" "length a = length aux" "mid < length aux" "hi < length aux"
    and "a = P @ X" "n \<le> length X" "i \<le> Suc mid" "j \<le> Suc hi"
  shows "merge_loop aux mid hi n k i j a = P @ merge_lists (segment aux i mid) (segment aux j hi) @ drop n X"
  using assms
proof (induction n arbitrary: P X k i j a)
  case 0
  then show ?case by (simp add: segment_empty)
next
  case (Suc n)
  then obtain x X' where X: "X = x # X'" by (cases X) auto
  have upd: "(P @ x # X')[k := v] = P @ v # X'" for v using Suc.prems(1) by (simp add: list_update_append)
  have len: "length (P @ [v]) = k + 1" for v :: byte using Suc.prems by simp
  have seg_i: "i \<le> mid \<Longrightarrow> segment aux i mid = aux ! i # segment aux (i + 1) mid"
    using Suc.prems segment_hd [of i mid aux] by simp
  have seg_j: "j \<le> hi \<Longrightarrow> segment aux j hi = aux ! j # segment aux (j + 1) hi"
    using Suc.prems segment_hd [of j hi aux] by simp
  have IH: "merge_loop aux mid hi n (k + 1) i' j' (P @ v # X') = P @ v # merge_lists (segment aux i' mid) (segment aux j' hi) @ drop n X'"
    if "n = (Suc mid - i') + (Suc hi - j')" "i' \<le> Suc mid" "j' \<le> Suc hi" for v i' j'
    using Suc.IH [OF len, of i' j' "(P @ [v]) @ X'" v X'] Suc.prems X that by simp
  consider "mid < i" "j \<le> hi" | "i \<le> mid" "hi < j" | "i \<le> mid" "j \<le> hi" using Suc.prems(2) by linarith
  then show ?case
  proof cases
    case 1
    then show ?thesis using IH [of i "j + 1" "aux ! j"] Suc.prems X seg_j
      by (simp add: upd segment_empty Suc_diff_le)
  next
    case 2
    then show ?thesis using IH [of "i + 1" j "aux ! i"] Suc.prems X seg_i
      by (simp add: upd segment_empty Suc_diff_le)
  next
    case 3
    then show ?thesis using IH [of i "j + 1" "aux ! j"] IH [of "i + 1" j "aux ! i"] Suc.prems X seg_i seg_j
      by (simp add: upd Suc_diff_le)
  qed
qed

section \<open>Sorting\<close>

lemma pack_merge_parts:
  assumes "lo = length P" "length L = Suc mid - lo" "length R = hi - mid" "lo \<le> mid" "mid < hi" "length aux = length (P @ L @ R @ S)"
  shows "\<exists>aux'. pack_merge (P @ L @ R @ S) aux lo mid hi = (P @ merge_lists L R @ S, aux') \<and> length aux' = length aux"
proof -
  let ?a = "P @ L @ R @ S"
  have n: "Suc hi - lo = length (L @ R)" "Suc hi - lo = (Suc mid - lo) + (Suc hi - (mid + 1))" using assms by auto
  have sa: "segment ?a lo hi = L @ R" using assms(1) n(1) by (simp add: segment_def)
  define aux1 where "aux1 = take lo aux @ (L @ R) @ drop (Suc hi) aux"
  have len: "length aux1 = length aux" "length (take lo aux) = lo" using assms by (auto simp: aux1_def)
  have s1: "segment aux1 lo mid = L" using assms len(2) by (simp add: segment_def aux1_def)
  have s2: "segment aux1 (mid + 1) hi = R"
  proof -
    have "drop (mid + 1) aux1 = R @ drop (Suc hi) aux" using assms len(2) by (simp add: aux1_def)
    then show ?thesis using assms by (simp add: segment_def)
  qed
  have "merge_loop aux1 mid hi (Suc hi - lo) lo lo (mid + 1) ?a =
      P @ merge_lists (segment aux1 lo mid) (segment aux1 (mid + 1) hi) @ drop (Suc hi - lo) (L @ R @ S)"
    by (rule merge_loop_lists) (use assms n len in auto)
  also have "drop (Suc hi - lo) (L @ R @ S) = S" unfolding n(1) by simp
  finally have "merge_loop aux1 mid hi (Suc hi - lo) lo lo (mid + 1) ?a = P @ merge_lists L R @ S" by (simp only: s1 s2)
  moreover have "take lo aux @ segment ?a lo hi @ drop (Suc hi) aux = aux1" by (simp only: sa aux1_def)
  ultimately show ?thesis using len(1) by (simp only: pack_merge_def Let_def) simp
qed

lemma pack_sort_part:
  assumes "X \<noteq> []" "length aux = length (P @ X @ S)"
  shows "\<exists>aux'. pack_sort (P @ X @ S) aux (int (length P)) (int (length P + length X) - 1) = (P @ sort_key sint X @ S, aux')
    \<and> length aux' = length aux"
  using assms
proof (induction "length X" arbitrary: X P S aux rule: less_induct)
  case less
  let ?lo = "int (length P)" and ?hi = "int (length P + length X) - 1"
  show ?case
  proof (cases "length X = 1")
    case True
    then have "sort_key sint X = X" "\<not> ?lo < ?hi" by (auto simp: length_Suc_conv)
    then show ?thesis by (simp add: pack_sort.simps)
  next
    case False
    define m where "m = (length X - 1) div 2"
    define L R where "L = take (Suc m) X" and "R = drop (Suc m) X"
    have X: "X = L @ R" by (simp add: L_def R_def)
    have len: "1 < length X" using False less.prems(1) by (cases X) auto
    have m: "Suc m < length X" using len by (simp add: m_def)
    then have lL: "length L = Suc m" "length R = length X - Suc m" "L \<noteq> []" "R \<noteq> []" "length L < length X" "length R < length X"
      by (auto simp: L_def R_def)
    have mid: "?lo + (?hi - ?lo) div 2 = int (length P + length L) - 1"
      using len lL(1) by (simp add: m_def zdiv_int of_nat_diff)
    have mid1: "int (length P + length L) - 1 + 1 = int (length (P @ sort_key sint L))" by simp
    obtain x1 where x1: "pack_sort (P @ X @ S) aux ?lo (int (length P + length L) - 1) = (P @ sort_key sint L @ R @ S, x1)" "length x1 = length aux"
      using less.hyps [OF lL(5,3), of aux P "R @ S"] less.prems(2) by (auto simp: X)
    have hi: "?hi = int (length (P @ sort_key sint L) + length R) - 1" by (simp add: X)
    obtain x2 where x2: "pack_sort (P @ sort_key sint L @ R @ S) x1 (int (length P + length L) - 1 + 1) ?hi = (P @ sort_key sint L @ sort_key sint R @ S, x2)"
      "length x2 = length aux"
      using less.hyps [OF lL(6,4), of x1 "P @ sort_key sint L" S] x1(2) less.prems(2) unfolding mid1 hi by (auto simp: X)
    have nat: "nat ?hi = length P + length X - 1" "nat (int (length P + length L) - 1) = length P + m" using lL(1) by auto
    have "length (sort_key sint L) = Suc (length P + m) - length P" using lL(1) by simp
    moreover have "length (sort_key sint R) = length P + length X - 1 - (length P + m)" using lL(2) by simp
    moreover have "length P \<le> length P + m" "length P + m < length P + length X - 1" using m by auto
    moreover have "length x2 = length (P @ sort_key sint L @ sort_key sint R @ S)" using x2(2) less.prems(2) lL(1,2) m by simp
    ultimately obtain x3 where x3: "pack_merge (P @ sort_key sint L @ sort_key sint R @ S) x2 (length P) (length P + m) (length P + length X - 1)
        = (P @ merge_lists (sort_key sint L) (sort_key sint R) @ S, x3)" "length x3 = length x2"
      using pack_merge_parts [OF refl] by blast
    have "\<not> ?hi \<le> ?lo" using len by simp
    have "pack_sort (P @ X @ S) aux ?lo ?hi =
        pack_merge (P @ sort_key sint L @ sort_key sint R @ S) x2 (nat ?lo) (nat (int (length P + length L) - 1)) (nat ?hi)"
      unfolding pack_sort.simps [of "P @ X @ S" aux ?lo ?hi] mid Let_def using \<open>\<not> ?hi \<le> ?lo\<close> x1(1) x2(1) by simp
    moreover have "merge_lists (sort_key sint L) (sort_key sint R) = sort_key sint X" by (simp only: merge_sorted_parts X)
    ultimately show ?thesis using x2(2) x3 by (simp only: nat nat_int) simp
  qed
qed

lemma pack_sort_whole: "length aux = length p \<Longrightarrow> fst (pack_sort p aux 0 (int (length p) - 1)) = sort_key sint p"
proof (cases "p = []")
  case True
  then show ?thesis by (simp add: pack_sort.simps)
next
  case False
  assume "length aux = length p"
  then show ?thesis using pack_sort_part [OF False, of aux "[]" "[]"] by auto
qed

section \<open>Counting\<close>

definition expand :: "(byte \<times> nat) list \<Rightarrow> byte list" where
  "expand rs = concat (map (\<lambda>(c, n). replicate n c) rs)"

lemma count_runs_rest: "0 < n \<Longrightarrow> \<exists>k > 0. expand (count_runs c n xs) @ replicate k (last (c # xs)) = replicate n c @ xs"
proof (induction xs arbitrary: c n)
  case (Cons x xs)
  show ?case
  proof (cases "c = x")
    case True
    then show ?thesis using Cons.IH [of "n + 1" c] by (auto simp: replicate_app_Cons_same)
  next
    case False
    then show ?thesis using Cons.IH [of 1 x] by (auto simp: expand_def)
  qed
qed (auto simp: expand_def)

text \<open>
  The packer's merge sort sorts the bytes of a payload, as signed characters, in place and
  for any contents of the auxiliary array; and the histogram that \<open>store_char\<close> prints from the
  sorted bytes lists the runs of equal bytes with their lengths in order, but without the last
  run: the largest byte of the payload is never printed.
\<close>

theorem store_char_drops_last:
  assumes "playload \<noteq> []" "length aux = length playload"
  shows "fst (pack_sort playload aux 0 (int (length playload) - 1)) = sort_key sint playload
    \<and> (\<exists>out k. store_char aux playload = Some out \<and> 0 < k
        \<and> concat (map (\<lambda>(c, n). replicate n c) out) @ replicate k (last (sort_key sint playload)) = sort_key sint playload)"
proof -
  obtain x xs where s: "sort_key sint playload = x # xs"
    using assms(1) by (metis list.exhaust mset.simps(1) mset_sort mset_zero_iff_right)
  have "store_char aux playload = Some (count_runs x 1 xs)" using pack_sort_whole [OF assms(2)] s by (simp add: store_char_def)
  then show ?thesis using pack_sort_whole [OF assms(2)] count_runs_rest [of 1 x xs] s by (auto simp: expand_def)
qed

theorem store_char_drops_last_witness:
  "\<exists>out k. store_char [0, 0, 0] [5, 5, 250] = Some out \<and> 0 < k
    \<and> concat (map (\<lambda>(c, n). replicate n c) out) @ replicate k 5 = [250, 5, 5]"
proof -
  have "sort_key sint [5, 5, 250 :: byte] = [250, 5, 5]" by (simp add: insort_key_def)
  then show ?thesis using store_char_drops_last [of "[5, 5, 250]" "[0, 0, 0]"] by simp
qed

end
