(* ===== verification/Winnow.thy ===== *)
theory Winnow
  imports Pack_Cut
begin

unbundle bit_operations_syntax

text \<open>
  The other choice of cut points: \<open>pack_calculate_part\<close> of \<open>winn_pack.c\<close>. Positions are taken in
  windows of 16; in each full window the position with the largest hash is a cut, if it lies at
  least 16 behind the cut before. The variables of the code are called \<open>min_index\<close> and
  \<open>min_hash\<close>, from an earlier version that took the smallest.
\<close>

section \<open>Operations\<close>

record winn =
  wn_window :: int
  wn_index :: int
  wn_hash :: u64

definition WINDOW :: int where "WINDOW = 16"
definition THRESHOLD :: int where "THRESHOLD = 16"

definition winn_globals :: hash_params where
  "winn_globals = \<lparr>hp_RM = 1, hp_zero_value = 1, hp_zero_num = 6, hp_Q = 1, hp_R = 1048583, hp_chunk_num = 16\<rparr>"

text \<open>\<open>main\<close> computes the constants with the same loops as the packer.\<close>

definition winn_params :: hash_params where
  "winn_params = pack_precalculate winn_globals"

text \<open>The initial values of \<open>window\<close>, \<open>min_index\<close> and \<open>min_hash\<close>, to which the code resets them.\<close>

definition winn_reset :: winn where
  "winn_reset = \<lparr>wn_window = WINDOW, wn_index = 0, wn_hash = 0\<rparr>"

definition winn_see :: "int \<Rightarrow> u64 \<Rightarrow> winn \<Rightarrow> winn" where
  "winn_see i txthash w =
     (let w1 = w\<lparr>wn_window := wn_window w - 1\<rparr> in
      if wn_hash w1 \<le> txthash then w1\<lparr>wn_index := i, wn_hash := txthash\<rparr> else w1)"

text \<open>The end of a window at the first position, and in the loop.\<close>

definition winn_first :: "part_point \<Rightarrow> winn \<Rightarrow> (part_point \<times> winn) run" where
  "winn_first part w =
     (if wn_window w = 0 then bind_run (part_set (wn_index w) part) (\<lambda>part1. Done (part1, winn_reset))
      else Done (part, w))"

definition winn_emit :: "part_point \<Rightarrow> winn \<Rightarrow> (part_point \<times> winn) run" where
  "winn_emit part w =
     (if wn_window w = 0 then
        bind_run (if length part = 2 then part_set (wn_index w) part else Done part) (\<lambda>part1.
        bind_run (if 2 < length part1 \<and> THRESHOLD \<le> wn_index w - part1 ! (length part1 - 1)
                  then part_set (wn_index w) part1 else Done part1) (\<lambda>part2. Done (part2, winn_reset)))
      else Done (part, w))"

function winn_loop ::
  "hash_params \<Rightarrow> byte list \<Rightarrow> nat \<Rightarrow> nat \<Rightarrow> winn \<Rightarrow> u64 \<Rightarrow> part_point \<Rightarrow> (part_point \<times> winn) run" where
  "winn_loop g p n i w txthash part =
     (if i < n then
        let txthash' = pack_roll g txthash (p ! (i - hp_chunk_num g)) (p ! i)
        in case winn_emit part (winn_see (int i) txthash' w) of
             Done (part', w') \<Rightarrow> winn_loop g p n (Suc i) w' txthash' part'
           | Exit \<Rightarrow> Exit | Fault \<Rightarrow> Fault
      else Done (part, w))"
  by pat_completeness auto
termination
  by (relation "measure (\<lambda>(g, p, n, i, w, h, f). n - i)") auto

declare winn_loop.simps [simp del]

text \<open>The result: \<open>count_packet\<close>, the list, and the window variables, reset on both branches at the end.\<close>

definition winn_calculate_part ::
  "hash_params \<Rightarrow> int \<Rightarrow> byte list \<Rightarrow> nat \<Rightarrow> winn \<Rightarrow> part_point \<Rightarrow> (int \<times> part_point \<times> winn) run" where
  "winn_calculate_part g count_packet playload playload_len w part =
     (if length playload < playload_len then Fault
      else case pack_hash playload (hp_chunk_num g) (ucast (hp_R g)) (hp_Q g) of
        None \<Rightarrow> Fault
      | Some txthash \<Rightarrow>
          bind_run (part_set count_packet part) (\<lambda>part1.
          bind_run (part_set (int playload_len) part1) (\<lambda>part2.
          bind_run (winn_first part2 (winn_see (int (hp_chunk_num g - 1)) txthash w)) (\<lambda>(part3, w3).
          bind_run (winn_loop g playload playload_len (hp_chunk_num g) w3 txthash part3) (\<lambda>(part4, w4).
            Done (count_packet + 1, part4, if wn_index w4 = 0 \<and> wn_hash w4 = 0 \<and> wn_window w4 = WINDOW then w4 else winn_reset))))))"

section \<open>Reference\<close>

text \<open>The last position with the largest value from \<open>s\<close> to before \<open>e\<close>.\<close>

definition block_max :: "(nat \<Rightarrow> int) \<Rightarrow> nat \<Rightarrow> nat \<Rightarrow> nat" where
  "block_max H s e = foldl (\<lambda>b i. if H b \<le> H i then i else b) s [s..<e]"

lemma block_max_start [simp]: "block_max H s s = s" "block_max H s (Suc s) = s"
  by (simp_all add: block_max_def)

lemma block_max_Suc: "s \<le> e \<Longrightarrow> block_max H s (Suc e) = (if H (block_max H s e) \<le> H e then e else block_max H s e)"
  by (simp add: block_max_def)

lemma block_max_spec:
  assumes "s < e"
  shows "s \<le> block_max H s e \<and> block_max H s e < e \<and> (\<forall>i. s \<le> i \<and> i < e \<longrightarrow> H i \<le> H (block_max H s e))
    \<and> (\<forall>i. block_max H s e < i \<and> i < e \<longrightarrow> H i < H (block_max H s e))"
  using assms
proof (induction e)
  case (Suc e)
  show ?case
  proof (cases "s = e")
    case True
    then show ?thesis by (auto simp: le_less_Suc_eq)
  next
    case False
    then have IH: "s \<le> block_max H s e" "block_max H s e < e" "\<forall>i. s \<le> i \<and> i < e \<longrightarrow> H i \<le> H (block_max H s e)"
      "\<forall>i. block_max H s e < i \<and> i < e \<longrightarrow> H i < H (block_max H s e)" "s \<le> e"
      using Suc by auto
    show ?thesis
    proof (cases "H (block_max H s e) \<le> H e")
      case True
      then show ?thesis using IH by (auto simp: block_max_Suc less_Suc_eq intro: order_trans)
    next
      case F: False
      then show ?thesis using IH by (auto simp: block_max_Suc less_Suc_eq)
    qed
  qed
qed simp

function block_tops :: "(nat \<Rightarrow> int) \<Rightarrow> nat \<Rightarrow> nat \<Rightarrow> nat list" where
  "block_tops H s n = (if s + 16 \<le> n then block_max H s (s + 16) # block_tops H (s + 16) n else [])"
  by pat_completeness auto
termination
  by (relation "measure (\<lambda>(H, s, n). n - s)") auto

declare block_tops.simps [simp del]

text \<open>Those at least 16 behind the one taken before.\<close>

fun thin_from :: "nat \<Rightarrow> nat list \<Rightarrow> nat list" where
  "thin_from c [] = []"
| "thin_from c (d # ds) = (if c + 16 \<le> d then d # thin_from d ds else thin_from c ds)"

fun thin :: "nat list \<Rightarrow> nat list" where
  "thin [] = []"
| "thin (d # ds) = d # thin_from d ds"

definition more_cuts :: "nat list \<Rightarrow> nat list \<Rightarrow> nat list" where
  "more_cuts cuts ds = (if cuts = [] then thin ds else thin_from (last cuts) ds)"

lemma block_tops_length: "16 * length (block_tops H s n) \<le> n - s"
proof (induction H s n rule: block_tops.induct)
  case (1 H s n)
  then show ?case by (subst block_tops.simps) auto
qed

lemma thin_from_length: "length (thin_from c ds) \<le> length ds"
  by (induction c ds rule: thin_from.induct) auto

section \<open>The scan meets the reference\<close>

lemma winn_params_fields [simp]:
  "hp_Q winn_params = 2 ^ 60" "hp_R winn_params = 1048583" "hp_chunk_num winn_params = 16"
  by (simp_all add: winn_params_def pack_precalculate_def winn_globals_def iterate_double Let_def)

lemma winn_params_RM: "hp_RM winn_params = ((\<lambda>x. srem64 (1048583 * x) (2 ^ 60)) ^^ 15) 1"
  by (simp only: winn_params_def pack_precalculate_def winn_globals_def iterate_double Let_def hash_params.simps) simp

lemma winn_params_ok [simp]: "hp_ok winn_params"
proof -
  have R: "scast (ucast (1048583 :: u64) :: u32) = (1048583 :: u64)" by simp
  have n: "(16 :: nat) - 1 = 15" by simp
  show ?thesis
    unfolding hp_ok_def winn_params_fields winn_params_RM n
    by (intro conjI two_60 R iterate_srem_mod) simp
qed

lemma winn_roll_window:
  assumes "16 \<le> i" "i < length p" "uint h = window_hash winn_params p (i - 1)"
  shows "uint (pack_roll winn_params h (p ! (i - 16)) (p ! i)) = window_hash winn_params p i"
  using window_roll [OF winn_params_ok, of i p h] pack_roll_eq [of winn_params h] assms two_60 by simp

text \<open>The window variables after the positions from \<open>s\<close> to before \<open>i\<close>.\<close>

definition winn_at :: "byte list \<Rightarrow> nat \<Rightarrow> nat \<Rightarrow> winn \<Rightarrow> bool" where
  "winn_at p s i w \<longleftrightarrow> s \<le> i \<and> i < s + 16 \<and> wn_window w = 16 - int (i - s)
     \<and> (if i = s then w = winn_reset
        else wn_index w = int (block_max (window_hash winn_params p) s i)
          \<and> uint (wn_hash w) = window_hash winn_params p (block_max (window_hash winn_params p) s i))"

lemma winn_see_at:
  assumes "winn_at p s i w" "uint h = window_hash winn_params p i"
  shows "wn_window (winn_see (int i) h w) = 16 - int (Suc i - s)
    \<and> wn_index (winn_see (int i) h w) = int (block_max (window_hash winn_params p) s (Suc i))
    \<and> uint (wn_hash (winn_see (int i) h w)) = window_hash winn_params p (block_max (window_hash winn_params p) s (Suc i))"
proof (cases "i = s")
  case True
  then show ?thesis using assms by (simp add: winn_at_def winn_see_def winn_reset_def WINDOW_def Let_def)
next
  case False
  then have w: "s \<le> i" "wn_window w = 16 - int (i - s)" "wn_index w = int (block_max (window_hash winn_params p) s i)"
    "uint (wn_hash w) = window_hash winn_params p (block_max (window_hash winn_params p) s i)"
    using assms(1) by (auto simp: winn_at_def)
  then show ?thesis using assms(2) by (auto simp: winn_see_def Let_def block_max_Suc word_le_def of_nat_diff)
qed

lemma winn_emit_at:
  assumes "wn_window w = 0" "wn_index w = int t" "length cuts + 2 < PLEN"
  shows "winn_emit ([a, b] @ map int cuts) w =
    Done ([a, b] @ map int (cuts @ (if cuts = [] \<or> last cuts + 16 \<le> t then [t] else [])), winn_reset)"
proof (cases "cuts = []")
  case True
  then show ?thesis using assms by (simp add: winn_emit_def part_set_def THRESHOLD_def)
next
  case False
  let ?part = "[a, b] @ map int cuts"
  have l: "?part ! (length ?part - 1) = int (last cuts)"
    using last_conv_nth [of ?part] False by (simp add: last_map)
  have n: "length ?part \<noteq> 2" "2 < length ?part" using False by auto
  have "THRESHOLD \<le> int t - int (last cuts) \<longleftrightarrow> last cuts + 16 \<le> t" by (auto simp: THRESHOLD_def)
  then show ?thesis
    unfolding winn_emit_def using assms n False by (simp add: l [simplified] part_set_def)
qed

lemma more_cuts_step:
  "more_cuts cuts (t # ts) = (if cuts = [] \<or> last cuts + 16 \<le> t then [t] else [])
     @ more_cuts (cuts @ (if cuts = [] \<or> last cuts + 16 \<le> t then [t] else [])) ts"
  by (auto simp: more_cuts_def)

lemma winn_loop_cuts:
  assumes "winn_at p s i w" "16 \<le> i" "uint h = window_hash winn_params p (i - 1)"
    and "length cuts + 2 + length (block_tops (window_hash winn_params p) s (length p)) \<le> PLEN"
  shows "\<exists>w'. winn_loop winn_params p (length p) i w h ([a, b] @ map int cuts) =
    Done ([a, b] @ map int (cuts @ more_cuts cuts (block_tops (window_hash winn_params p) s (length p))), w')"
  using assms
proof (induction "length p - i" arbitrary: i s w h cuts)
  case 0
  then have "\<not> s + 16 \<le> length p" by (auto simp: winn_at_def)
  then have "block_tops (window_hash winn_params p) s (length p) = []" by (simp add: block_tops.simps)
  then show ?case using 0 by (simp add: winn_loop.simps more_cuts_def)
next
  case (Suc k)
  let ?H = "window_hash winn_params p"
  have i: "i < length p" "k = length p - Suc i" using Suc.hyps(2) by auto
  let ?h = "pack_roll winn_params h (p ! (i - 16)) (p ! i)"
  let ?w = "winn_see (int i) ?h w"
  have h: "uint ?h = ?H i" using Suc.prems i by (intro winn_roll_window) auto
  note see = winn_see_at [OF Suc.prems(1) h]
  have s: "s \<le> i" "i < s + 16" using Suc.prems(1) by (auto simp: winn_at_def)
  have step: "winn_loop winn_params p (length p) i w h part =
      (case winn_emit part ?w of Done (part', w') \<Rightarrow> winn_loop winn_params p (length p) (Suc i) w' ?h part' | Exit \<Rightarrow> Exit | Fault \<Rightarrow> Fault)" for part
    using i(1) by (simp add: winn_loop.simps [of _ _ _ i] Let_def)
  show ?case
  proof (cases "Suc i = s + 16")
    case False
    then have w: "wn_window ?w \<noteq> 0" using see s by auto
    have at: "winn_at p s (Suc i) ?w" using see s False by (auto simp: winn_at_def)
    have "winn_emit ([a, b] @ map int cuts) ?w = Done ([a, b] @ map int cuts, ?w)" using w by (simp add: winn_emit_def)
    then show ?thesis
      using Suc.hyps(1) [OF i(2) at, of ?h cuts] h Suc.prems(2,4) unfolding step by simp
  next
    case True
    let ?t = "block_max ?H s (s + 16)"
    let ?new = "if cuts = [] \<or> last cuts + 16 \<le> ?t then [?t] else []"
    have tops: "block_tops ?H s (length p) = ?t # block_tops ?H (s + 16) (length p)"
      using i(1) True by (simp add: block_tops.simps [of _ s])
    have "wn_window ?w = 0" "wn_index ?w = int ?t" using see True by auto
    from winn_emit_at [OF this, of cuts a b] have em: "winn_emit ([a, b] @ map int cuts) ?w = Done ([a, b] @ map int (cuts @ ?new), winn_reset)"
      using Suc.prems(4) tops by simp
    have at: "winn_at p (s + 16) (Suc i) winn_reset" using True by (simp add: winn_at_def winn_reset_def WINDOW_def)
    have len: "length (cuts @ ?new) + 2 + length (block_tops ?H (s + 16) (length p)) \<le> PLEN" using Suc.prems(4) by (simp add: tops)
    have "\<exists>w'. winn_loop winn_params p (length p) (Suc i) winn_reset ?h ([a, b] @ map int (cuts @ ?new)) =
        Done ([a, b] @ map int ((cuts @ ?new) @ more_cuts (cuts @ ?new) (block_tops ?H (s + 16) (length p))), w')"
      using Suc.hyps(1) [OF i(2) at _ _ len, of ?h] h Suc.prems(2) by simp
    then show ?thesis unfolding step em tops more_cuts_step [of cuts ?t] by simp
  qed
qed

definition winn_cuts :: "byte list \<Rightarrow> nat list" where
  "winn_cuts p = thin (block_tops (window_hash winn_params p) 15 (length p))"

lemma winn_calculate_part_cuts:
  assumes "16 \<le> length p" "length p < 2 ^ 16"
  shows "winn_calculate_part winn_params cp p (length p) winn_reset (part_clean part) =
    Done (cp + 1, [cp, int (length p)] @ map int (winn_cuts p), winn_reset)"
proof -
  let ?H = "window_hash winn_params p"
  obtain h where ph: "pack_hash p 16 (ucast (hp_R winn_params)) (hp_Q winn_params) = Some h" and
    h: "uint h = poly_hash (uint (hp_R winn_params)) (take 16 p) mod uint (hp_Q winn_params)"
    using pack_hash_poly [OF winn_params_ok, of p] assms by auto
  from h have w: "uint h = ?H 15" by (simp add: window_hash_def segment_def)
  have at0: "winn_at p 15 15 winn_reset" by (simp add: winn_at_def winn_reset_def WINDOW_def)
  let ?w = "winn_see 15 h winn_reset"
  have b16: "block_max ?H 15 16 = 15" using block_max_start(2) [of ?H 15] by simp
  have see: "wn_window ?w = 15" "wn_index ?w = 15" "uint (wn_hash ?w) = ?H 15"
    using winn_see_at [OF at0 w] b16 by auto
  have at: "winn_at p 15 16 ?w" using see b16 by (simp add: winn_at_def)
  have "length (block_tops ?H 15 (length p)) + 2 \<le> PLEN"
    using block_tops_length [of ?H 15 "length p"] assms(2) by (simp add: PLEN_def)
  then obtain w' where l: "winn_loop winn_params p (length p) 16 ?w h ([cp, int (length p)] @ map int []) =
      Done ([cp, int (length p)] @ map int ([] @ more_cuts [] (block_tops ?H 15 (length p))), w')"
    using winn_loop_cuts [OF at, of h "[]" cp "int (length p)"] w by auto
  have fin: "(if wn_index w' = 0 \<and> wn_hash w' = 0 \<and> wn_window w' = WINDOW then w' else winn_reset) = winn_reset"
    by (cases w') (simp add: winn_reset_def)
  have ph': "pack_hash p 16 1048583 1152921504606846976 = Some h" using ph by simp
  have "winn_first [cp, int (length p)] ?w = Done ([cp, int (length p)], ?w)" using see by (simp add: winn_first_def)
  then show ?thesis
    using l fin by (simp add: winn_calculate_part_def ph' part_clean_def part_set_def PLEN_def more_cuts_def winn_cuts_def)
qed

section \<open>Properties of the cuts\<close>

lemma block_tops_in:
  "t \<in> set (block_tops H s n) \<longleftrightarrow> (\<exists>k. s + 16 * Suc k \<le> n \<and> t = block_max H (s + 16 * k) (s + 16 * k + 16))"
proof (induction H s n rule: block_tops.induct)
  case (1 H s n)
  show ?case
  proof (cases "s + 16 \<le> n")
    case False
    then show ?thesis by (simp add: block_tops.simps)
  next
    case True
    have "(\<exists>k. s + 16 * Suc k \<le> n \<and> t = block_max H (s + 16 * k) (s + 16 * k + 16)) \<longleftrightarrow>
        t = block_max H s (s + 16) \<or> (\<exists>k. s + 16 + 16 * Suc k \<le> n \<and> t = block_max H (s + 16 + 16 * k) (s + 16 + 16 * k + 16))"
      (is "(\<exists>k. ?P k) \<longleftrightarrow> ?Q \<or> (\<exists>k. ?R k)")
    proof -
      have "?P 0 \<longleftrightarrow> ?Q" using True by simp
      moreover have "?P (Suc k) \<longleftrightarrow> ?R k" for k by (simp add: add.assoc)
      ultimately show ?thesis by (metis not0_implies_Suc)
    qed
    then show ?thesis using 1 True by (subst block_tops.simps) simp
  qed
qed

lemma block_tops_sorted: "sorted_wrt (<) (block_tops H s n) \<and> (\<forall>t \<in> set (block_tops H s n). s \<le> t)"
proof (induction H s n rule: block_tops.induct)
  case (1 H s n)
  have "block_max H s (s + 16) < s + 16" "s \<le> block_max H s (s + 16)" using block_max_spec [of s "s + 16" H] by auto
  then show ?case using 1 by (subst (1 2) block_tops.simps) (fastforce simp: sorted_wrt.simps)
qed

lemma thin_from_spec:
  assumes "sorted_wrt (<) (c # ds)"
  shows "set (thin_from c ds) \<subseteq> set ds \<and> sorted_wrt (\<lambda>x y. x + 16 \<le> y) (c # thin_from c ds)
    \<and> (\<forall>d \<in> set ds. \<exists>x \<in> set (c # thin_from c ds). x \<le> d \<and> d < x + 16)"
  using assms
proof (induction c ds rule: thin_from.induct)
  case (2 c d ds)
  show ?case
  proof (cases "c + 16 \<le> d")
    case True
    then show ?thesis using 2 by fastforce
  next
    case False
    then show ?thesis using 2 by fastforce
  qed
qed simp

lemma thin_spec:
  assumes "sorted_wrt (<) ds"
  shows "set (thin ds) \<subseteq> set ds \<and> sorted_wrt (\<lambda>x y. x + 16 \<le> y) (thin ds)
    \<and> (\<forall>d \<in> set ds. \<exists>x \<in> set (thin ds). x \<le> d \<and> d < x + 16)"
proof (cases ds)
  case (Cons c cs)
  then show ?thesis using thin_from_spec [of c cs] assms by auto
qed simp

text \<open>
  (C11) Winnowing. The scan of \<open>winn_pack.c\<close> always returns and leaves its variables as it
  found them. Let the positions from 15 on be grouped in windows of 16. Every cut is the last
  position with the largest hash of a complete window; cuts are at least 16 apart; and the
  largest hash of every complete window is at a cut or less than 16 behind one.
\<close>

theorem winn_partition_correct:
  assumes "16 \<le> length p" "length p < 2 ^ 16"
  shows "winn_calculate_part winn_params cp p (length p) winn_reset (part_clean part) =
      Done (cp + 1, [cp, int (length p)] @ map int (winn_cuts p), winn_reset)
    \<and> sorted_wrt (\<lambda>x y. x + 16 \<le> y) (winn_cuts p)
    \<and> (\<forall>c \<in> set (winn_cuts p). \<exists>k. 15 + 16 * Suc k \<le> length p \<and> 15 + 16 * k \<le> c \<and> c < 15 + 16 * Suc k
        \<and> (\<forall>i. 15 + 16 * k \<le> i \<and> i < 15 + 16 * Suc k \<longrightarrow>
             (if i \<le> c then window_hash winn_params p i \<le> window_hash winn_params p c
              else window_hash winn_params p i < window_hash winn_params p c)))
    \<and> (\<forall>k. 15 + 16 * Suc k \<le> length p \<longrightarrow> (\<exists>c \<in> set (winn_cuts p). c < 15 + 16 * Suc k \<and> 15 + 16 * k < c + 16))"
proof -
  let ?H = "window_hash winn_params p"
  note th = thin_spec [OF conjunct1 [OF block_tops_sorted], of ?H 15 "length p", folded winn_cuts_def]
  define T where "T k = block_max ?H (15 + 16 * k) (15 + 16 * k + 16)" for k
  have top: "15 + 16 * k \<le> T k" "T k < 15 + 16 * Suc k"
    "\<forall>i. 15 + 16 * k \<le> i \<and> i < 15 + 16 * Suc k \<longrightarrow> (if i \<le> T k then ?H i \<le> ?H (T k) else ?H i < ?H (T k))" for k
    using block_max_spec [of "15 + 16 * k" "15 + 16 * k + 16" ?H] by (auto simp: not_le T_def)
  have tops: "t \<in> set (block_tops ?H 15 (length p)) \<longleftrightarrow> (\<exists>k. 15 + 16 * Suc k \<le> length p \<and> t = T k)" for t
    unfolding T_def by (rule block_tops_in)
  have "\<exists>k. 15 + 16 * Suc k \<le> length p \<and> 15 + 16 * k \<le> c \<and> c < 15 + 16 * Suc k
      \<and> (\<forall>i. 15 + 16 * k \<le> i \<and> i < 15 + 16 * Suc k \<longrightarrow> (if i \<le> c then ?H i \<le> ?H c else ?H i < ?H c))"
    if "c \<in> set (winn_cuts p)" for c
  proof -
    have "c \<in> set (block_tops ?H 15 (length p))" using that conjunct1 [OF th] by (rule subsetD [rotated])
    then obtain k where k: "15 + 16 * Suc k \<le> length p" "c = T k" unfolding tops by (elim exE conjE)
    show ?thesis unfolding k(2) by (intro exI [of _ k] conjI k(1) top)
  qed
  moreover have "\<exists>c \<in> set (winn_cuts p). c < 15 + 16 * Suc k \<and> 15 + 16 * k < c + 16" if "15 + 16 * Suc k \<le> length p" for k
  proof -
    have "T k \<in> set (block_tops ?H 15 (length p))" unfolding tops by (intro exI [of _ k] conjI that refl)
    from bspec [OF conjunct2 [OF conjunct2 [OF th]] this]
    obtain c where "c \<in> set (winn_cuts p)" "c \<le> T k" "T k < c + 16" by (elim bexE conjE)
    then show ?thesis using top(1,2) [of k] by (intro bexI [of _ c]) auto
  qed
  ultimately show ?thesis using winn_calculate_part_cuts [OF assms] conjunct1 [OF conjunct2 [OF th]] by (intro conjI) blast+
qed

text \<open>Winnowing provides the interface of a chunker as well.\<close>

interpretation wc: content_chunker winn_cuts 15
proof
  fix p
  note th = thin_spec [OF conjunct1 [OF block_tops_sorted], of "window_hash winn_params p" 15 "length p", folded winn_cuts_def]
  show "sorted_wrt (\<lambda>x y. x + 15 < y) (winn_cuts p)"
    by (rule sorted_wrt_mono_rel [OF _ conjunct1 [OF conjunct2 [OF th]]]) auto
  fix c
  assume "c \<in> set (winn_cuts p)"
  with th obtain k where k: "15 + 16 * Suc k \<le> length p"
    "c = block_max (window_hash winn_params p) (15 + 16 * k) (15 + 16 * k + 16)"
    using block_tops_in [of c _ 15 "length p"] by (meson subsetD)
  show "15 \<le> c \<and> c < length p"
    using block_max_spec [of "15 + 16 * k" "15 + 16 * k + 16" "window_hash winn_params p"] k by auto
qed

lemma zero_winn_hash: "15 \<le> i \<Longrightarrow> i < 32 \<Longrightarrow> window_hash winn_params (replicate 32 0) i = 0"
proof -
  assume i: "15 \<le> i" "i < 32"
  have z: "poly_hash r (replicate k 0) = 0" for r k by (induction k) (simp_all add: poly_hash_Cons)
  have "segment (replicate 32 (0 :: byte)) (Suc i - 16) i = replicate 16 0" using i by (simp add: segment_def)
  then show ?thesis by (simp add: window_hash_def z)
qed

lemma zero_winn_cuts: "winn_cuts (replicate 32 0) = [30]"
proof -
  let ?H = "window_hash winn_params (replicate 32 0)" and ?t = "block_max (window_hash winn_params (replicate 32 0)) 15 31"
  have "15 \<le> ?t" "?t < 31" "\<forall>i. ?t < i \<and> i < 31 \<longrightarrow> ?H i < ?H ?t" using block_max_spec [of 15 31 ?H] by auto
  then have "?t = 30" using zero_winn_hash [of 30] zero_winn_hash [of ?t] by (cases "?t < 30") auto
  then have "block_tops ?H 15 32 = [30]" by (simp add: block_tops.simps [of ?H 15] block_tops.simps [of ?H 31])
  then show ?thesis by (simp add: winn_cuts_def)
qed

theorem winn_partition_correct_witness:
  "winn_calculate_part winn_params 0 (replicate 32 0) 32 winn_reset (part_clean []) = Done (1, [0, 32, 30], winn_reset)"
  using winn_partition_correct [of "replicate 32 0" 0 "[]"] by (simp add: zero_winn_cuts)

end
