(* ===== verification/Winn_Pack.thy ===== *)
theory Winn_Pack
  imports Pack Winnow
begin

text \<open>
  The program \<open>winn_pack.c\<close>: a copy of the packer whose cut points come from winnowing (\<open>Winnow\<close>),
  with an index of 997 buckets and packets counted. The digests, the stores and the capture are
  those of \<open>Pack\<close>; the time statistics of \<open>pack.c\<close> are not there (\<open>no_time\<close>).
\<close>

section \<open>Operations\<close>

definition WINN_BUCKETS_LEN :: nat where "WINN_BUCKETS_LEN = 997"

definition winn_mode_hash :: "byte list \<Rightarrow> u32" where
  "winn_mode_hash = mode_hash WINN_BUCKETS_LEN"

record winn_state =
  wp_pack :: pack_state
  wp_winn :: winn
  wp_count :: int

definition no_time :: "(nat \<Rightarrow> pack_env) \<Rightarrow> nat \<Rightarrow> pack_env" where
  "no_time env n = (env n)\<lparr>pe_time := 0\<rparr>"

definition winn_SHA :: "digest_fun \<Rightarrow> (nat \<Rightarrow> pack_env) \<Rightarrow> byte list \<Rightarrow> int \<Rightarrow> pack_state \<Rightarrow> pack_state run" where
  "winn_SHA sha env = pack_SHA sha (no_time env)"

definition winn_remain_SHA :: "digest_fun \<Rightarrow> (nat \<Rightarrow> pack_env) \<Rightarrow> winn_state \<Rightarrow> winn_state run" where
  "winn_remain_SHA sha env st =
     bind_run (remain_SHA sha (no_time env) (wp_pack st)) (\<lambda>s. Done (st\<lparr>wp_pack := s\<rparr>))"

definition winn_packet :: "digest_fun \<Rightarrow> (nat \<Rightarrow> pack_env) \<Rightarrow> byte list \<Rightarrow> winn_state \<Rightarrow> winn_state run" where
  "winn_packet sha env playload st =
     (if length playload < hp_chunk_num winn_params then Done st
      else bind_run (winn_calculate_part winn_params (wp_count st) playload (length playload) (wp_winn st)
             (part_clean (ps_part (wp_pack st))))
        (\<lambda>(n, part, w). bind_run (winn_SHA sha env playload (int (length playload)) ((wp_pack st)\<lparr>ps_part := part\<rparr>))
          (\<lambda>s. Done \<lparr>wp_pack = s\<lparr>ps_sum := ps_sum s + of_nat (length playload)\<rparr>, wp_winn = w, wp_count = n\<rparr>)))"

definition winn_printPcap :: "digest_fun \<Rightarrow> (nat \<Rightarrow> pack_env) \<Rightarrow> byte list \<Rightarrow> winn_state \<Rightarrow> winn_state run" where
  "winn_printPcap sha env frame st =
     bind_run (pcap_payload frame) (\<lambda>r. case r of None \<Rightarrow> Done st | Some playload \<Rightarrow> winn_packet sha env playload st)"

fun winn_pcap_loop :: "digest_fun \<Rightarrow> (nat \<Rightarrow> pack_env) \<Rightarrow> (nat \<times> byte list) list \<Rightarrow> winn_state \<Rightarrow> winn_state run" where
  "winn_pcap_loop sha env [] st = Done st"
| "winn_pcap_loop sha env ((capture_len, got) # rs) st =
     (if MAX_ETH_FRAME < length got \<or> length got \<noteq> capture_len then Fault
      else bind_run (winn_printPcap sha env (got @ replicate (MAX_ETH_FRAME - length got) 0) st)
        (\<lambda>st'. if capture_len = 0 then Done st' else winn_pcap_loop sha env rs st'))"

definition winn_setup :: "bool \<Rightarrow> bool \<Rightarrow> bool \<Rightarrow> nat \<Rightarrow> winn_state run" where
  "winn_setup ok_chunk ok_key ok_map base =
     (case (chunk_create ok_chunk ok_chunk, keyvalue_create ok_key ok_key base 0 0,
            Hashmap_create ok_map ok_map ok_map WINN_BUCKETS_LEN Hashmap_mode_compare winn_mode_hash) of
        (Some ck, Some kv, Some (Some m)) \<Rightarrow>
          Done \<lparr>wp_pack = \<lparr>ps_delay = 0, ps_part = part_create, ps_remain = ck, ps_key = kv, ps_map = m,
                  ps_save = 0, ps_sum = 0, ps_sec = 0, ps_hashed = []\<rparr>,
                wp_winn = winn_reset, wp_count = 0\<rparr>
      | _ \<Rightarrow> Fault)"

definition winn_main ::
  "digest_fun \<Rightarrow> (nat \<Rightarrow> pack_env) \<Rightarrow> bool \<Rightarrow> bool \<Rightarrow> bool \<Rightarrow> nat \<Rightarrow> (nat \<times> byte list) list \<Rightarrow> winn_state run" where
  "winn_main sha env ok_chunk ok_key ok_map base rs =
     bind_run (winn_setup ok_chunk ok_key ok_map base) (\<lambda>st.
     bind_run (winn_pcap_loop sha env rs st) (\<lambda>st'. winn_remain_SHA sha env st'))"

section \<open>One packet\<close>

definition winn_kept :: "byte list \<Rightarrow> byte list" where
  "winn_kept p = (if length p < 16 then [] else p)"

definition winn_rest :: "nat \<Rightarrow> byte list \<Rightarrow> nat" where
  "winn_rest r p = (if length p < 16 then r else if winn_cuts p = [] then r + length p else length p - Suc (last (winn_cuts p)))"

abbreviation waiting :: "winn_state \<Rightarrow> byte list" where
  "waiting st \<equiv> chunk_bytes (ps_remain (wp_pack st))"

abbreviation hashed :: "winn_state \<Rightarrow> byte list list" where
  "hashed st \<equiv> ps_hashed (wp_pack st)"

lemma no_time_ok: "world_ok sha env \<Longrightarrow> world_ok sha (no_time env)"
  by (simp add: world_ok_def pe_ok_def no_time_def)

lemma winn_cuts_few: "16 * length (winn_cuts p) \<le> length p"
proof -
  have "length (thin ds) \<le> length ds" for ds by (cases ds) (simp_all add: thin_from_length)
  then show ?thesis
    using block_tops_length [of "window_hash winn_params p" 15 "length p"] unfolding winn_cuts_def
    by (meson le_trans mult_le_mono2 diff_le_self)
qed

lemma winn_SHA_spec:
  assumes w: "world_ok sha env" and inv: "pack_inv sha s" and part: "ps_part s = [a, b] @ map int (winn_cuts p)"
    and len: "16 \<le> length p" "length (chunk_bytes (ps_remain s)) + length p \<le> CHUNK_LEN"
    and few: "length (ps_hashed s) + length (winn_cuts p) + 2 \<le> SHANUM"
  shows "\<exists>s' new. winn_SHA sha env p (int (length p)) s = Done s' \<and> pack_inv sha s' \<and> ps_hashed s' = ps_hashed s @ new
    \<and> length new = length (winn_cuts p) \<and> concat new @ chunk_bytes (ps_remain s') = chunk_bytes (ps_remain s) @ p
    \<and> length (chunk_bytes (ps_remain s')) = winn_rest (length (chunk_bytes (ps_remain s))) p \<and> ps_sum s' = ps_sum s"
proof (cases "winn_cuts p")
  case Nil
  then have "ps_part s = [a, b]" by (simp add: part)
  moreover have "1 \<le> length p" "length p < 2 ^ 16" using len by (simp_all add: CHUNK_LEN_def)
  ultimately obtain s' where "winn_SHA sha env p (int (length p)) s = Done s'" "pack_inv sha s'" "ps_hashed s' = ps_hashed s"
    "chunk_bytes (ps_remain s') = chunk_bytes (ps_remain s) @ p" "ps_sum s' = ps_sum s"
    using pack_SHA_no_cut [OF no_time_ok [OF w] inv, of a b p] len unfolding winn_SHA_def by blast
  then show ?thesis using len Nil by (intro exI [of _ s'] exI [of _ "[]"]) (simp add: winn_rest_def)
next
  case (Cons c cs)
  have "sorted_wrt (<) (c # cs)" "\<forall>x \<in> set (c # cs). x < length p"
    using wc.cuts_increasing [of p] wc.cuts_bound [of _ p] by (auto simp: Cons)
  from pack_SHA_cuts [OF no_time_ok [OF w] inv part [unfolded Cons] this len(2)] few obtain s' new where
    "winn_SHA sha env p (int (length p)) s = Done s'" "pack_inv sha s'" "ps_hashed s' = ps_hashed s @ new"
    "length new = length (c # cs)" "concat new @ chunk_bytes (ps_remain s') = chunk_bytes (ps_remain s) @ p"
    "chunk_bytes (ps_remain s') = drop (Suc (last (c # cs))) p" "ps_sum s' = ps_sum s"
    by (auto simp: winn_SHA_def Cons)
  then show ?thesis using Cons len(1) by (intro exI [of _ s'] exI [of _ new]) (simp add: winn_rest_def)
qed

definition winn_inv :: "digest_fun \<Rightarrow> winn_state \<Rightarrow> bool" where
  "winn_inv sha st \<longleftrightarrow> pack_inv sha (wp_pack st) \<and> wp_winn st = winn_reset"

lemma winn_packet_spec:
  assumes w: "world_ok sha env" and inv: "winn_inv sha st" and fits: "length (waiting st) + length p \<le> CHUNK_LEN"
    and few: "16 * (length (hashed st) + 2) + length (winn_kept p) \<le> 16 * SHANUM"
  shows "\<exists>st' new. winn_packet sha env p st = Done st' \<and> winn_inv sha st'
    \<and> hashed st' = hashed st @ new \<and> 16 * length new \<le> length (winn_kept p)
    \<and> concat new @ waiting st' = waiting st @ winn_kept p
    \<and> length (waiting st') = winn_rest (length (waiting st)) p
    \<and> ps_sum (wp_pack st') = ps_sum (wp_pack st) + of_nat (length (winn_kept p))
    \<and> wp_count st' = wp_count st + (if length p < 16 then 0 else 1)"
proof (cases "length p < 16")
  case True
  then show ?thesis using inv by (auto simp: winn_packet_def winn_kept_def winn_rest_def)
next
  case False
  let ?s = "(wp_pack st)\<lparr>ps_part := [wp_count st, int (length p)] @ map int (winn_cuts p)\<rparr>"
  have len: "16 \<le> length p" "length p < 2 ^ 16" using False fits by (auto simp: CHUNK_LEN_def)
  have "pack_inv sha ?s" using inv by (simp add: winn_inv_def pack_inv_def)
  moreover have "length (ps_hashed ?s) + length (winn_cuts p) + 2 \<le> SHANUM"
    using few winn_cuts_few [of p] False by (simp add: winn_kept_def)
  ultimately obtain s' new where s': "winn_SHA sha env p (int (length p)) ?s = Done s'" "pack_inv sha s'"
    "ps_hashed s' = hashed st @ new" "length new = length (winn_cuts p)" "concat new @ chunk_bytes (ps_remain s') = waiting st @ p"
    "length (chunk_bytes (ps_remain s')) = winn_rest (length (waiting st)) p" "ps_sum s' = ps_sum (wp_pack st)"
    using winn_SHA_spec [OF w, of ?s "wp_count st" "int (length p)" p] len fits by auto
  have "winn_packet sha env p st =
      Done \<lparr>wp_pack = s'\<lparr>ps_sum := ps_sum s' + of_nat (length p)\<rparr>, wp_winn = winn_reset, wp_count = wp_count st + 1\<rparr>"
    using winn_calculate_part_cuts [OF len] inv s'(1) False by (simp add: winn_packet_def winn_inv_def)
  then show ?thesis
    using s' winn_cuts_few [of p] False by (auto simp: winn_kept_def winn_inv_def pack_inv_def)
qed

section \<open>The program\<close>

definition winn_stream :: "(nat \<times> byte list) list \<Rightarrow> byte list" where
  "winn_stream rs = concat (map (\<lambda>r. winn_kept (payload_of r)) rs)"

definition winn_packets :: "(nat \<times> byte list) list \<Rightarrow> nat" where
  "winn_packets rs = length (filter (\<lambda>r. 16 \<le> length (payload_of r)) rs)"

text \<open>What remains and one more payload never exceed the buffer.\<close>

fun winn_fits :: "nat \<Rightarrow> byte list list \<Rightarrow> bool" where
  "winn_fits r [] = True"
| "winn_fits r (p # ps) = (r + length p \<le> CHUNK_LEN \<and> winn_fits (winn_rest r p) ps)"

lemma winn_record:
  assumes "good_record r"
  shows "winn_pcap_loop sha env (r # rs) st = bind_run (winn_packet sha env (payload_of r) st) (winn_pcap_loop sha env rs)"
proof -
  have "winn_printPcap sha env (record_frame r) st = winn_packet sha env (payload_of r) st"
    using assms by (auto simp: good_record_def payload_of_def winn_printPcap_def winn_packet_def split: run.splits option.split)
  then show ?thesis using assms by (cases r) (auto simp: good_record_def record_frame_def)
qed

lemma winn_pcap_loop_spec:
  assumes w: "world_ok sha env" and "winn_inv sha st" "list_all good_record rs"
    and "winn_fits (length (waiting st)) (map payload_of rs)"
    and "16 * (length (hashed st) + 2) + length (winn_stream rs) \<le> 16 * SHANUM"
  shows "\<exists>st' new. winn_pcap_loop sha env rs st = Done st' \<and> winn_inv sha st' \<and> hashed st' = hashed st @ new
    \<and> 16 * length new \<le> length (winn_stream rs)
    \<and> concat new @ waiting st' = waiting st @ winn_stream rs
    \<and> ps_sum (wp_pack st') = ps_sum (wp_pack st) + of_nat (length (winn_stream rs))
    \<and> wp_count st' = wp_count st + int (winn_packets rs)"
  using assms(2-)
proof (induction rs arbitrary: st)
  case Nil
  then show ?case by (simp add: winn_stream_def winn_packets_def)
next
  case (Cons r rs)
  let ?p = "payload_of r"
  have s: "winn_stream (r # rs) = winn_kept ?p @ winn_stream rs" by (simp add: winn_stream_def)
  have few: "16 * (length (hashed st) + 2) + length (winn_kept ?p) \<le> 16 * SHANUM" using Cons.prems(4) by (simp add: s)
  obtain st1 new1 where 1: "winn_packet sha env ?p st = Done st1" "winn_inv sha st1"
    "hashed st1 = hashed st @ new1" "16 * length new1 \<le> length (winn_kept ?p)"
    "concat new1 @ waiting st1 = waiting st @ winn_kept ?p" "length (waiting st1) = winn_rest (length (waiting st)) ?p"
    "ps_sum (wp_pack st1) = ps_sum (wp_pack st) + of_nat (length (winn_kept ?p))"
    "wp_count st1 = wp_count st + (if length ?p < 16 then 0 else 1)"
    using winn_packet_spec [OF w Cons.prems(1) _ few] Cons.prems(3) by auto
  obtain st' new where 2: "winn_pcap_loop sha env rs st1 = Done st'" "winn_inv sha st'" "hashed st' = hashed st1 @ new"
    "16 * length new \<le> length (winn_stream rs)" "concat new @ waiting st' = waiting st1 @ winn_stream rs"
    "ps_sum (wp_pack st') = ps_sum (wp_pack st1) + of_nat (length (winn_stream rs))"
    "wp_count st' = wp_count st1 + int (winn_packets rs)"
    using Cons.IH [of st1] Cons.prems 1 by (auto simp: s)
  have "winn_pcap_loop sha env (r # rs) st = Done st'" using winn_record [of r] Cons.prems(2) 1(1) 2(1) by simp
  moreover have "concat (new1 @ new) @ waiting st' = waiting st @ winn_stream (r # rs)"
    using 2(5) 1(5) by (simp add: s)
  moreover have "wp_count st' = wp_count st + int (winn_packets (r # rs))" using 1(8) 2(7) by (simp add: winn_packets_def)
  ultimately show ?case
    using 1 2 by (intro exI [of _ st'] exI [of _ "new1 @ new"]) (simp add: s)
qed

lemma winn_setup_inv:
  "\<exists>st. winn_setup True True True base = Done st \<and> winn_inv sha st \<and> hashed st = [] \<and> waiting st = []
    \<and> ps_sum (wp_pack st) = 0 \<and> wp_count st = 0"
proof -
  obtain ck where ck: "chunk_create True True = Some ck" by (simp add: chunk_create_def)
  obtain kv where kv: "keyvalue_create True True base 0 0 = Some kv" "kv_ok kv" "kv_index kv = 0" "kv_step kv = 20" "kv_capacity kv = 10 ^ 9"
    using keyvalue_create_ok [of 0 0 base] by (auto simp: keyvalue_create_def SHA_BYTES_def SHANUM_def Let_def)
  obtain m where m: "Hashmap_create True True True WINN_BUCKETS_LEN Hashmap_mode_compare winn_mode_hash = Some (Some m)"
    "index_ok m" "\<forall>k. \<not> hm_has m k \<and> hm_lookup m k = None"
    using index_create [of WINN_BUCKETS_LEN WINN_BUCKETS_LEN] by (auto simp: winn_mode_hash_def WINN_BUCKETS_LEN_def)
  show ?thesis
    using chunk_create_ok [OF ck] ck kv m by (simp add: winn_setup_def winn_inv_def pack_inv_def index_core_def CHUNK_LEN_def)
qed

text \<open>
  (C12) The winnowing packer accounts for every byte as well. On a capture of complete records, with
  memory available and 20-byte digests, while what waits and the next payload fit into 30000
  bytes and the stream has less than 799 million bytes, \<open>main\<close> runs to its end; the strings it
  digested are, put together, the payloads of 16 bytes and more in order; \<open>sum_len\<close> is their
  length, \<open>save_len\<close> the bytes of the repeated chunks but the last, \<open>count_packet\<close> the number of
  these payloads, and the index answers for exactly the digests seen.
\<close>

theorem winn_main_conserves:
  assumes "world_ok sha env" "list_all good_record rs" "winn_fits 0 (map payload_of rs)" "length (winn_stream rs) < 799000000"
  shows "\<exists>st. winn_main sha env True True True base rs = Done st
    \<and> concat (hashed st) = winn_stream rs \<and> ps_sum (wp_pack st) = of_nat (length (winn_stream rs))
    \<and> ps_save (wp_pack st) = of_nat (saved_len sha (butlast (hashed st)))
    \<and> wp_count st = int (winn_packets rs)
    \<and> (\<forall>k. length k = 20 \<longrightarrow> Hashmap_get k (ps_map (wp_pack st)) = Some (if k \<in> sha ` set (hashed st) then Some k else None))"
proof -
  obtain st0 where 0: "winn_setup True True True base = Done st0" "winn_inv sha st0" "hashed st0 = []" "waiting st0 = []"
    "ps_sum (wp_pack st0) = 0" "wp_count st0 = 0" using winn_setup_inv by blast
  obtain st1 where 1: "winn_pcap_loop sha env rs st0 = Done st1" "winn_inv sha st1" "16 * length (hashed st1) \<le> length (winn_stream rs)"
    "concat (hashed st1) @ waiting st1 = winn_stream rs" "ps_sum (wp_pack st1) = of_nat (length (winn_stream rs))"
    "wp_count st1 = int (winn_packets rs)"
    using winn_pcap_loop_spec [OF assms(1) 0(2) assms(2)] assms(3,4) 0(3-) by (auto simp: SHANUM_def)
  have "pack_inv sha (wp_pack st1)" "length (hashed st1) + 2 \<le> SHANUM" using 1(2,3) assms(4) by (simp_all add: SHANUM_def winn_inv_def)
  from remain_SHA_spec [OF no_time_ok [OF assms(1)] this] obtain s where 2: "remain_SHA sha (no_time env) (wp_pack st1) = Done s"
    "ps_hashed s = hashed st1 @ [waiting st1]" "ps_save s = of_nat (saved_len sha (hashed st1))"
    "ps_sum s = ps_sum (wp_pack st1)" "index_core sha (ps_hashed s) (ps_key s) (ps_map s)" by blast
  have "Hashmap_get k (ps_map s) = Some (if k \<in> sha ` set (ps_hashed s) then Some k else None)" if "length k = 20" for k
    using 2(5) that by (simp add: index_core_def index_ok_def get_lookup)
  moreover have "winn_main sha env True True True base rs = Done (st1\<lparr>wp_pack := s\<rparr>)"
    using 0(1) 1(1) 2(1) by (simp add: winn_main_def winn_remain_SHA_def)
  ultimately show ?thesis using 1 2 by simp
qed

text \<open>The frame with forty bytes of payload, twice.\<close>

theorem winn_main_conserves_witness:
  "\<exists>st. winn_main demo_sha demo_pe True True True 0 [demo_record, demo_record] = Done st
    \<and> concat (hashed st) = replicate 80 0 \<and> ps_sum (wp_pack st) = 80 \<and> wp_count st = 2"
proof -
  have p: "payload_of demo_record = replicate 40 0" by (simp add: payload_of_def demo_frame)
  have g: "good_record demo_record" using demo_frame by (simp add: good_record_def demo_record_def demo_header_def MAX_ETH_FRAME_def)
  have w: "world_ok demo_sha demo_pe"
    by (simp add: world_ok_def demo_sha_def pe_ok_def demo_pe_def env_ok_def demo_hm_env_def)
  have s: "winn_stream [demo_record, demo_record] = replicate 80 0"
    by (simp add: winn_stream_def p winn_kept_def replicate_add [symmetric])
  have "winn_rest 0 (replicate 40 0) \<le> 40" unfolding winn_rest_def by auto
  then have f: "winn_fits 0 (map payload_of [demo_record, demo_record])" by (simp add: p CHUNK_LEN_def)
  have "winn_packets [demo_record, demo_record] = 2" by (simp add: winn_packets_def p)
  then show ?thesis using winn_main_conserves [OF w _ f, of 0] g s by auto
qed

end
