(* ===== verification/Tcpre.thy ===== *)
theory Tcpre
  imports Pack_Cut Hashmap
begin

unbundle bit_operations_syntax

text \<open>
  The redundancy counter \<open>tcpre.c\<close>: it reads a text file line by line, and where the rolling hash
  of a 64-byte window has its low bits clear it looks whether the same 64 bytes were stored
  before. Keys are 64-bit hashes, in a static array that never moves; the data of a key are up
  to 192 bytes of the line.

  The program is modelled with the line number and offset where the data of a key come from
  (\<open>kd_line\<close>, \<open>kd_off\<close>) and a log of the repetitions it counts (\<open>tp_hits\<close>); it keeps neither.
\<close>

section \<open>Data\<close>

record keydata =
  kd_line :: nat
  kd_off :: nat
  kd_bytes :: "byte list"

record tcpre =
  tp_map :: "(u64, keydata) hashmap"
  tp_reindex :: nat
  tp_recount :: u32
  tp_hashmapnum :: u64
  tp_stats :: "nat \<Rightarrow> u64"
  tp_sumbytes :: u64
  tp_hits :: "((nat \<times> nat) \<times> (nat \<times> nat)) list"

definition CHUNK :: nat where "CHUNK = 64"
definition TBUCKETS_LEN :: nat where "TBUCKETS_LEN = 997"
definition KEYNUM :: nat where "KEYNUM = TBUCKETS_LEN * 30000"
definition SIZE :: nat where "SIZE = 30000"

definition tcpre_globals :: hash_params where
  "tcpre_globals = \<lparr>hp_RM = 1, hp_zero_value = 1, hp_zero_num = 2, hp_Q = 1, hp_R = 1048583, hp_chunk_num = CHUNK\<rparr>"

definition tcpre_params :: hash_params where
  "tcpre_params = pack_precalculate tcpre_globals"

definition tcpre_mode_hash :: "u64 \<Rightarrow> u32" where
  "tcpre_mode_hash data = ucast (data mod of_nat TBUCKETS_LEN)"

text \<open>The difference of two \<open>unsigned long\<close>s, returned as an \<open>int\<close>: keys that agree in their low 32 bits are equal.\<close>

definition tcpre_mode_compare :: "u64 \<Rightarrow> u64 \<Rightarrow> int" where
  "tcpre_mode_compare a b = sint (ucast (a - b) :: u32)"

section \<open>One line\<close>

text \<open>
  What happens at a position whose hash passes the test: the bytes at \<open>off\<close> are compared with
  the data of the key, or stored. The result is the return code, and whether a repetition was
  counted.
\<close>

definition tcpre_point ::
  "hm_env \<Rightarrow> nat \<Rightarrow> byte list \<Rightarrow> nat \<Rightarrow> nat \<Rightarrow> u64 \<Rightarrow> tcpre \<Rightarrow> (int \<times> bool \<times> tcpre) run" where
  "tcpre_point e line buf playload_len off txthash st =
     (case Hashmap_get txthash (tp_map st) of None \<Rightarrow> Fault
      | Some (Some data) \<Rightarrow>
          if length (kd_bytes data) < CHUNK \<or> length buf < off + CHUNK then Fault
          else if take CHUNK (kd_bytes data) = take CHUNK (drop off buf)
          then Done (0, True, st\<lparr>tp_recount := tp_recount st + 1,
                 tp_hits := tp_hits st @ [((kd_line data, kd_off data), (line, off))]\<rparr>)
          else Done (0, False, st)
      | Some None \<Rightarrow>
          if tp_reindex st < KEYNUM then
            (let len = (if playload_len < CHUNK * 3 then playload_len else CHUNK * 3) in
             if length buf < off + len then Fault
             else case Hashmap_set e txthash (Some \<lparr>kd_line = line, kd_off = off, kd_bytes = take len (drop off buf)\<rparr>) (tp_map st) of
                 None \<Rightarrow> Fault
               | Some (rc, m) \<Rightarrow>
                   if rc \<noteq> 0 then Done (-1, False, st\<lparr>tp_map := m\<rparr>)
                   else Done (0, False, st\<lparr>tp_map := m, tp_reindex := tp_reindex st + 1, tp_hashmapnum := tp_hashmapnum st + 1,
                     tp_stats := (tp_stats st)(unat (txthash mod of_nat TBUCKETS_LEN) := tp_stats st (unat (txthash mod of_nat TBUCKETS_LEN)) + 1)\<rparr>))
          else Done (-1, False, st))"

text \<open>
  The loop of \<open>calculate_hash\<close>: the window ends at \<open>i\<close>, but the bytes are taken from
  \<open>i - chunk_num\<close>, one before its start.
\<close>

function hash_loop ::
  "(nat \<Rightarrow> nat \<Rightarrow> hm_env) \<Rightarrow> nat \<Rightarrow> byte list \<Rightarrow> nat \<Rightarrow> nat \<Rightarrow> nat \<Rightarrow> u64 \<Rightarrow> tcpre \<Rightarrow> (int \<times> tcpre) run" where
  "hash_loop env line buf n i delay_time txthash st =
     (if i < n then
        let txthash' = pack_roll tcpre_params txthash (buf ! (i - CHUNK)) (buf ! i)
        in if delay_time = 0 then
             if txthash' AND hp_zero_value tcpre_params = 0
             then (case tcpre_point (env line i) line buf n (i - CHUNK) txthash' st of
                 Done (rc, hit, st') \<Rightarrow>
                   if rc \<noteq> 0 then Done (-1, st')
                   else hash_loop env line buf n (Suc i) (if hit then CHUNK else 0) txthash' st'
               | Exit \<Rightarrow> Exit | Fault \<Rightarrow> Fault)
             else hash_loop env line buf n (Suc i) 0 txthash' st
           else hash_loop env line buf n (Suc i) (delay_time - 1) txthash' st
      else Done (0, st))"
  by pat_completeness auto
termination
  by (relation "measure (\<lambda>(env, line, buf, n, i, d, h, st). n - i)") auto

declare hash_loop.simps [simp del]

definition calculate_hash ::
  "(nat \<Rightarrow> nat \<Rightarrow> hm_env) \<Rightarrow> nat \<Rightarrow> byte list \<Rightarrow> nat \<Rightarrow> tcpre \<Rightarrow> (int \<times> tcpre) run" where
  "calculate_hash env line buf playload_len st =
     (case pack_hash buf CHUNK (ucast (hp_R tcpre_params)) (hp_Q tcpre_params) of None \<Rightarrow> Fault
      | Some txthash \<Rightarrow>
        if txthash AND hp_zero_value tcpre_params = 0
        then bind_run (tcpre_point (env line 0) line buf playload_len 0 txthash st) (\<lambda>(rc, hit, st').
          if rc \<noteq> 0 then Done (-1, st')
          else hash_loop env line buf playload_len CHUNK (if hit then CHUNK else 0) txthash st')
        else hash_loop env line buf playload_len CHUNK 0 txthash st)"

section \<open>The file\<close>

text \<open>
  The loop of \<open>read_file\<close>: \<open>source\<close> is what \<open>fgets\<close> returned, its last character is dropped, and the
  rest is copied into \<open>packet\<close>, which keeps older bytes behind it.
\<close>

fun read_lines ::
  "(nat \<Rightarrow> nat \<Rightarrow> hm_env) \<Rightarrow> nat \<Rightarrow> byte list list \<Rightarrow> byte list \<Rightarrow> tcpre \<Rightarrow> (int \<times> tcpre) run" where
  "read_lines env line [] packet st = Done (0, st)"
| "read_lines env line (source # ls) packet st =
     (let temp = butlast source; copy_len = length temp;
          packet' = temp @ [0] @ drop (copy_len + 1) packet;
          st1 = st\<lparr>tp_sumbytes := tp_sumbytes st + of_nat copy_len\<rparr>
      in if source = [] \<or> length packet < copy_len + 1 then Fault
         else if CHUNK \<le> copy_len
         then bind_run (calculate_hash env line packet' copy_len st1) (\<lambda>(rc, st').
           if rc \<noteq> 0 then Done (-1, st') else read_lines env (line + 1) ls packet' st')
         else read_lines env (line + 1) ls packet' st1)"

section \<open>Invariant\<close>

text \<open>The 64 bytes at an offset of a line, and when an occurrence comes before another.\<close>

definition block_at :: "byte list list \<Rightarrow> nat \<times> nat \<Rightarrow> byte list" where
  "block_at ls = (\<lambda>(l, off). take CHUNK (drop off (butlast (ls ! l))))"

definition complete_at :: "byte list list \<Rightarrow> nat \<times> nat \<Rightarrow> bool" where
  "complete_at ls = (\<lambda>(l, off). off + CHUNK \<le> length (butlast (ls ! l)))"

definition before :: "nat \<times> nat \<Rightarrow> nat \<times> nat \<Rightarrow> bool" where
  "before = (\<lambda>(l, off) (l', off'). l < l' \<or> l = l' \<and> (off < off' \<or> off = 0 \<and> off' = 0))"

definition true_hit :: "byte list list \<Rightarrow> (nat \<times> nat) \<times> (nat \<times> nat) \<Rightarrow> bool" where
  "true_hit ls = (\<lambda>(a, b). before a b \<and> complete_at ls a \<and> complete_at ls b \<and> block_at ls a = block_at ls b)"

text \<open>The data of a key are a copy of a block of the file, from before the given position.\<close>

definition from_file :: "byte list list \<Rightarrow> nat \<times> nat \<Rightarrow> keydata \<Rightarrow> bool" where
  "from_file ls pos d \<longleftrightarrow> CHUNK \<le> length (kd_bytes d) \<and> before (kd_line d, kd_off d) pos \<and> complete_at ls (kd_line d, kd_off d)
     \<and> take CHUNK (kd_bytes d) = block_at ls (kd_line d, kd_off d)"

definition tp_inv :: "byte list list \<Rightarrow> nat \<times> nat \<Rightarrow> tcpre \<Rightarrow> bool" where
  "tp_inv ls pos st \<longleftrightarrow> hm_ok (tp_map st)
     \<and> (\<forall>k. \<forall>node \<in> set (hm_nodes (tp_map st) k). \<exists>d. hn_data node = Some d \<and> from_file ls pos d)
     \<and> (\<forall>h \<in> set (tp_hits st). true_hit ls h) \<and> tp_recount st = of_nat (length (tp_hits st))"

lemma before_later: "before a (l, off) \<Longrightarrow> l < l' \<or> l = l' \<and> off \<le> off' \<Longrightarrow> before a (l', off')"
  by (auto simp: before_def)

lemma before_first: "before a (l, Suc 0) = before a (l, 0)"
  by (auto simp: before_def)

lemma tp_inv_first: "tp_inv ls (l, Suc 0) st = tp_inv ls (l, 0) st"
  by (simp add: tp_inv_def from_file_def before_first)

lemma from_file_later: "from_file ls (l, off) d \<Longrightarrow> l < l' \<or> l = l' \<and> off \<le> off' \<Longrightarrow> from_file ls (l', off') d"
  by (auto simp: from_file_def intro: before_later)

lemma tp_inv_later: "tp_inv ls (l, off) st \<Longrightarrow> l < l' \<or> l = l' \<and> off \<le> off' \<Longrightarrow> tp_inv ls (l', off') st"
  unfolding tp_inv_def by (meson from_file_later)

lemma stored_from_file:
  assumes "n = length (butlast (ls ! line))" "off + CHUNK \<le> n" "take n buf = butlast (ls ! line)" "CHUNK \<le> len" "off + len \<le> length buf"
  shows "from_file ls (line, Suc off) \<lparr>kd_line = line, kd_off = off, kd_bytes = take len (drop off buf)\<rparr>"
proof -
  have "take CHUNK (drop off buf) = take CHUNK (drop off (take n buf))"
    using assms(2) by (simp add: drop_take min_def)
  then show ?thesis using assms by (auto simp: from_file_def before_def complete_at_def block_at_def min_def)
qed

lemma block_of_buffer:
  assumes "n = length (butlast (ls ! line))" "off + CHUNK \<le> n" "take n buf = butlast (ls ! line)"
  shows "take CHUNK (drop off buf) = block_at ls (line, off)" "complete_at ls (line, off)"
proof -
  have "take CHUNK (drop off buf) = take CHUNK (drop off (take n buf))" using assms(2) by (simp add: drop_take min_def)
  then show "take CHUNK (drop off buf) = block_at ls (line, off)" using assms(3) by (simp add: block_at_def)
  show "complete_at ls (line, off)" using assms by (simp add: complete_at_def)
qed

lemma tcpre_point_known:
  assumes inv: "tp_inv ls (line, off) st" and n: "n = length (butlast (ls ! line))" "off + CHUNK \<le> n"
    and buf: "take n buf = butlast (ls ! line)" "n \<le> length buf"
    and node: "find (matches (tp_map st) h) (hm_nodes (tp_map st) h) = Some node"
  shows "\<exists>hit st'. tcpre_point e line buf n off h st = Done (0, hit, st') \<and> tp_inv ls (line, Suc off) st' \<and> tp_reindex st' = tp_reindex st"
proof -
  have ok: "hm_ok (tp_map st)" using inv by (simp add: tp_inv_def)
  note get = Hashmap_get_find [OF ok, of h] and blk = block_of_buffer [OF n buf(1)]
  have later: "tp_inv ls (line, Suc off) st" using tp_inv_later [OF inv, of line "Suc off"] by simp
  from node have "node \<in> set (hm_nodes (tp_map st) h)" by (auto simp: find_Some_iff)
  then obtain d where d: "hn_data node = Some d" "from_file ls (line, off) d" using inv unfolding tp_inv_def by blast
  have len: "CHUNK \<le> length (kd_bytes d)" "off + CHUNK \<le> length buf" using d(2) n(2) buf(2) by (simp_all add: from_file_def)
  show ?thesis
  proof (cases "take CHUNK (kd_bytes d) = take CHUNK (drop off buf)")
    case False
    then show ?thesis using get node d(1) len later
      by (intro exI [of _ False] exI [of _ st]) (simp add: tcpre_point_def)
  next
    case True
    let ?st = "st\<lparr>tp_recount := tp_recount st + 1, tp_hits := tp_hits st @ [((kd_line d, kd_off d), (line, off))]\<rparr>"
    have "true_hit ls ((kd_line d, kd_off d), (line, off))" using d(2) True blk by (simp add: true_hit_def from_file_def)
    then have "tp_inv ls (line, Suc off) ?st" using later by (auto simp: tp_inv_def)
    then show ?thesis using get node d(1) len True
      by (intro exI [of _ True] exI [of _ ?st]) (simp add: tcpre_point_def)
  qed
qed

lemma tcpre_point_new:
  assumes inv: "tp_inv ls (line, off) st" and e: "env_ok e" and n: "n = length (butlast (ls ! line))" "off + CHUNK \<le> n"
    and buf: "take n buf = butlast (ls ! line)" "n + 2 * CHUNK \<le> length buf" and room: "tp_reindex st < KEYNUM"
    and none: "find (matches (tp_map st) h) (hm_nodes (tp_map st) h) = None"
  shows "\<exists>st'. tcpre_point e line buf n off h st = Done (0, False, st') \<and> tp_inv ls (line, Suc off) st'
    \<and> tp_reindex st' = Suc (tp_reindex st)"
proof -
  have ok: "hm_ok (tp_map st)" using inv by (simp add: tp_inv_def)
  have later: "tp_inv ls (line, Suc off) st" using tp_inv_later [OF inv, of line "Suc off"] by simp
  let ?len = "if n < CHUNK * 3 then n else CHUNK * 3"
  let ?d = "\<lparr>kd_line = line, kd_off = off, kd_bytes = take ?len (drop off buf)\<rparr>"
  have len: "off + ?len \<le> length buf" "CHUNK \<le> ?len" using n(2) buf(2) by auto
  obtain node m where m: "Hashmap_set e h (Some ?d) (tp_map st) = Some (0, m)" "hm_ok m" "hn_data node = Some ?d"
    "\<And>k. hm_nodes m k = hm_nodes (tp_map st) k @ (if bucket_index (tp_map st) k = bucket_index (tp_map st) h then [node] else [])"
    using set_appends [OF ok e, of h "Some ?d"] by blast
  have nodes: "\<exists>d. hn_data nd = Some d \<and> from_file ls (line, Suc off) d" if "nd \<in> set (hm_nodes m k)" for nd k
  proof (cases "nd \<in> set (hm_nodes (tp_map st) k)")
    case True
    then show ?thesis using later unfolding tp_inv_def by blast
  next
    case False
    then have "nd = node" using that m(4) [of k] by (auto split: if_splits)
    then show ?thesis using m(3) stored_from_file [OF n buf(1) len(2,1)] by simp
  qed
  let ?j = "unat (h mod of_nat TBUCKETS_LEN)"
  let ?st = "st\<lparr>tp_map := m, tp_reindex := tp_reindex st + 1, tp_hashmapnum := tp_hashmapnum st + 1,
    tp_stats := (tp_stats st)(?j := tp_stats st ?j + 1)\<rparr>"
  have "tp_inv ls (line, Suc off) ?st" using later m(2) nodes by (simp add: tp_inv_def)
  moreover have "tcpre_point e line buf n off h st = Done (0, False, ?st)"
    using Hashmap_get_find [OF ok, of h] none room len(1) m(1) unfolding tcpre_point_def Let_def by simp
  ultimately show ?thesis by simp
qed

lemma tcpre_point_spec:
  assumes inv: "tp_inv ls (line, off) st" and e: "env_ok e" and n: "n = length (butlast (ls ! line))" "off + CHUNK \<le> n"
    and buf: "take n buf = butlast (ls ! line)" "n + 2 * CHUNK \<le> length buf" and room: "tp_reindex st < KEYNUM"
  shows "\<exists>hit st'. tcpre_point e line buf n off h st = Done (0, hit, st') \<and> tp_inv ls (line, Suc off) st'
    \<and> tp_reindex st' \<le> Suc (tp_reindex st)"
proof (cases "find (matches (tp_map st) h) (hm_nodes (tp_map st) h)")
  case None
  from tcpre_point_new [OF inv e n buf room None] show ?thesis by (metis order.refl)
next
  case (Some node)
  have "n \<le> length buf" using buf(2) by simp
  from tcpre_point_known [OF inv n buf(1) this Some, of e] show ?thesis by (metis le_SucI order.refl)
qed

section \<open>The whole file\<close>

lemma hash_loop_spec:
  assumes "tp_inv ls (line, i - CHUNK) st" and e: "\<And>l i. env_ok (env l i)" and n: "n = length (butlast (ls ! line))" and "CHUNK \<le> i" "i \<le> n"
    and buf: "take n buf = butlast (ls ! line)" "n + 2 * CHUNK \<le> length buf" and "tp_reindex st + (n - i) + B \<le> KEYNUM"
  shows "\<exists>st'. hash_loop env line buf n i d h st = Done (0, st') \<and> tp_inv ls (line, n) st' \<and> tp_reindex st' + B \<le> KEYNUM"
  using assms(1,4,5,8)
proof (induction "n - i" arbitrary: i d h st)
  case 0
  then show ?case using tp_inv_later [OF "0.prems"(1), of line n] by (simp add: hash_loop.simps)
next
  case (Suc k)
  then have i: "i < n" "k = n - Suc i" "Suc i - CHUNK = Suc (i - CHUNK)" by auto
  let ?h = "pack_roll tcpre_params h (buf ! (i - CHUNK)) (buf ! i)"
  have skip: "\<exists>st'. hash_loop env line buf n (Suc i) d' ?h st = Done (0, st') \<and> tp_inv ls (line, n) st' \<and> tp_reindex st' + B \<le> KEYNUM" for d'
    using Suc.hyps(1) [OF i(2), of st d' ?h] Suc.prems i tp_inv_later [OF Suc.prems(1), of line "Suc (i - CHUNK)"] by simp
  show ?case
  proof (cases "d = 0 \<and> ?h AND hp_zero_value tcpre_params = 0")
    case False
    then show ?thesis using skip i(1) by (auto simp: hash_loop.simps [of _ _ _ _ i] Let_def)
  next
    case True
    have "i - CHUNK + CHUNK \<le> n" "tp_reindex st < KEYNUM" using Suc.prems i by auto
    from tcpre_point_spec [OF Suc.prems(1) e n this(1) buf this(2), of line i ?h]
    obtain hit st1 where p: "tcpre_point (env line i) line buf n (i - CHUNK) ?h st = Done (0, hit, st1)"
      "tp_inv ls (line, Suc i - CHUNK) st1" "tp_reindex st1 \<le> Suc (tp_reindex st)" unfolding i(3) by blast
    have "tp_reindex st1 + (n - Suc i) + B \<le> KEYNUM" using p(3) Suc.prems(4) i(1) by simp
    from Suc.hyps(1) [OF i(2) p(2) _ _ this, of "if hit then CHUNK else 0" ?h] show ?thesis
      using p(1) True i(1) Suc.prems by (simp add: hash_loop.simps [of _ _ _ _ i] Let_def)
  qed
qed

lemma tcpre_params_fields: "hp_Q tcpre_params = 2 ^ 60" "hp_zero_value tcpre_params = 3"
  by (simp_all add: tcpre_params_def pack_precalculate_def tcpre_globals_def iterate_double Let_def)

lemma calculate_hash_spec:
  assumes inv: "tp_inv ls (line, 0) st" and e: "\<And>l i. env_ok (env l i)" and n: "n = length (butlast (ls ! line))" "CHUNK \<le> n"
    and buf: "take n buf = butlast (ls ! line)" "n + 2 * CHUNK \<le> length buf" and room: "tp_reindex st + n + B \<le> KEYNUM"
  shows "\<exists>st'. calculate_hash env line buf n st = Done (0, st') \<and> tp_inv ls (line, n) st' \<and> tp_reindex st' + B \<le> KEYNUM"
proof -
  have c: "0 < CHUNK" by (simp add: CHUNK_def)
  obtain h where h: "pack_hash buf CHUNK (ucast (hp_R tcpre_params)) (hp_Q tcpre_params) = Some h"
    using n(2) buf(2) by (simp add: pack_hash_def tcpre_params_fields)
  have loop: "\<exists>st'. hash_loop env line buf n CHUNK d h st1 = Done (0, st') \<and> tp_inv ls (line, n) st' \<and> tp_reindex st' + B \<le> KEYNUM"
    if "tp_inv ls (line, 0) st1" "tp_reindex st1 \<le> Suc (tp_reindex st)" for d st1
    using hash_loop_spec [OF _ e n(1) order.refl n(2) buf, where st = st1 and B = B and d = d and h = h] that room c n(2) by simp
  show ?thesis
  proof (cases "h AND hp_zero_value tcpre_params = 0")
    case False
    then show ?thesis using loop [OF inv, of 0] h by (simp add: calculate_hash_def)
  next
    case True
    have "0 + CHUNK \<le> n" "tp_reindex st < KEYNUM" using n(2) room c by auto
    from tcpre_point_spec [OF inv e n(1) this(1) buf this(2), of line 0 h]
    obtain hit st1 where p: "tcpre_point (env line 0) line buf n 0 h st = Done (0, hit, st1)"
      "tp_inv ls (line, Suc 0) st1" "tp_reindex st1 \<le> Suc (tp_reindex st)" by blast
    show ?thesis
      using True h p(1) loop [OF p(2) [unfolded tp_inv_first] p(3), of "if hit then CHUNK else 0"] by (simp add: calculate_hash_def)
  qed
qed

text \<open>Lines as \<open>fgets\<close> returns them, with room behind them in the buffer.\<close>

definition line_ok :: "byte list \<Rightarrow> bool" where
  "line_ok src \<longleftrightarrow> src \<noteq> [] \<and> length src + 2 * CHUNK \<le> SIZE"

lemma tp_inv_sum: "tp_inv ls pos (st\<lparr>tp_sumbytes := x\<rparr>) = tp_inv ls pos st"
  by (simp add: tp_inv_def)

lemma read_lines_spec:
  assumes "tp_inv ls (line, 0) st" and e: "\<And>l i. env_ok (env l i)" and "rest = drop line ls" "line \<le> length ls" "length packet = SIZE"
    and "list_all line_ok rest" "tp_reindex st + length (concat rest) \<le> KEYNUM"
  shows "\<exists>st'. read_lines env line rest packet st = Done (0, st') \<and> tp_inv ls (length ls, 0) st'"
  using assms(1,3-7)
proof (induction rest arbitrary: line packet st)
  case Nil
  then show ?case by simp
next
  case (Cons src rest)
  have l: "line < length ls" using Cons.prems(2) by (cases "line < length ls") auto
  have src: "src = ls ! line" "rest = drop (Suc line) ls" using Cons.prems(2) unfolding Cons_nth_drop_Suc [OF l, symmetric] by auto
  define n where "n = length (butlast src)"
  define packet' where "packet' = butlast src @ [0] @ drop (n + 1) packet"
  define st1 where "st1 = st\<lparr>tp_sumbytes := tp_sumbytes st + of_nat n\<rparr>"
  have ok: "src \<noteq> []" "n + 1 + 2 * CHUNK \<le> SIZE" using Cons.prems(5) by (auto simp: line_ok_def n_def)
  have pk: "length packet' = SIZE" "take n packet' = butlast src" using Cons.prems(4) ok(2) by (auto simp: packet'_def n_def)
  have inv1: "tp_inv ls (line, 0) st1" using Cons.prems(1) by (simp add: st1_def tp_inv_sum)
  have room: "tp_reindex st1 + n + length (concat rest) \<le> KEYNUM" using Cons.prems(6) by (simp add: n_def st1_def)
  have step: "read_lines env line (src # rest) packet st =
      (if CHUNK \<le> n then bind_run (calculate_hash env line packet' n st1) (\<lambda>(rc, st').
         if rc \<noteq> 0 then Done (-1, st') else read_lines env (line + 1) rest packet' st')
       else read_lines env (line + 1) rest packet' st1)"
  proof -
    have "\<not> (src = [] \<or> length packet < n + 1)" using ok Cons.prems(4) by simp
    then show ?thesis
      unfolding read_lines.simps Let_def n_def [symmetric] packet'_def [symmetric] st1_def [symmetric] by (simp only: if_False)
  qed
  have IH: "\<exists>st'. read_lines env (Suc line) rest packet' st2 = Done (0, st') \<and> tp_inv ls (length ls, 0) st'"
    if "tp_inv ls (Suc line, 0) st2" "tp_reindex st2 + length (concat rest) \<le> KEYNUM" for st2
    using Cons.IH [OF that(1) src(2) _ pk(1)] that(2) l Cons.prems(5) by simp
  show ?case
  proof (cases "CHUNK \<le> n")
    case False
    have "tp_inv ls (Suc line, 0) st1" using tp_inv_later [OF inv1, of "Suc line" 0] by simp
    then show ?thesis unfolding step using IH [of st1] room False by simp
  next
    case True
    have n_def': "n = length (butlast (ls ! line))" by (simp only: n_def src(1))
    obtain st2 where st2: "calculate_hash env line packet' n st1 = Done (0, st2)" "tp_inv ls (line, n) st2"
      "tp_reindex st2 + length (concat rest) \<le> KEYNUM"
      using calculate_hash_spec [where env = env, OF inv1 e n_def' True pk(2) [unfolded src(1)] _ room] ok(2) pk(1) by auto
    have "tp_inv ls (Suc line, 0) st2" using tp_inv_later [OF st2(2), of "Suc line" 0] by simp
    then show ?thesis unfolding step using IH [of st2] st2 True by simp
  qed
qed

text \<open>The state after the set-up in \<open>main\<close>.\<close>

definition tcpre_init :: "(u64, keydata) hashmap \<Rightarrow> tcpre" where
  "tcpre_init m = \<lparr>tp_map = m, tp_reindex = 0, tp_recount = 0, tp_hashmapnum = 0, tp_stats = (\<lambda>_. 0), tp_sumbytes = 0, tp_hits = []\<rparr>"

definition tcpre_main :: "(nat \<Rightarrow> nat \<Rightarrow> hm_env) \<Rightarrow> byte list list \<Rightarrow> byte list \<Rightarrow> (int \<times> tcpre) run" where
  "tcpre_main env ls packet =
     (case Hashmap_create True True True TBUCKETS_LEN tcpre_mode_compare tcpre_mode_hash of
        Some (Some m) \<Rightarrow> read_lines env 0 ls packet (tcpre_init m)
      | _ \<Rightarrow> Fault)"

text \<open>
  (C13) The counter counts only true repetitions. On a file whose lines leave 128 bytes of the
  buffer free, with memory available and fewer characters than the table has keys, the program
  completes, and every repetition it counts is a pair of complete 64-byte blocks of the file with
  the same bytes: although keys are compared by their low 32 bits only, the bytes are
  compared too. The first block of the pair lies before the second, with one exception: the
  block at offset 0 of a line can be counted as a repetition of itself, since the loop takes its
  bytes from one position before the window it has hashed.
\<close>

theorem tcpre_repetitions_true:
  assumes "\<And>l i. env_ok (env l i)" "list_all line_ok ls" "length (concat ls) \<le> KEYNUM" "length packet = SIZE"
  shows "\<exists>st. tcpre_main env ls packet = Done (0, st) \<and> tp_recount st = of_nat (length (tp_hits st))
    \<and> (\<forall>((l, off), (l', off')) \<in> set (tp_hits st).
        (l < l' \<or> l = l' \<and> (off < off' \<or> off = 0 \<and> off' = 0))
        \<and> off + 64 \<le> length (butlast (ls ! l)) \<and> off' + 64 \<le> length (butlast (ls ! l'))
        \<and> take 64 (drop off (butlast (ls ! l))) = take 64 (drop off' (butlast (ls ! l'))))"
proof -
  obtain m :: "(u64, keydata) hashmap" where m: "Hashmap_create True True True TBUCKETS_LEN tcpre_mode_compare tcpre_mode_hash = Some (Some m)"
    "hm_ok m" "\<forall>k. hm_nodes m k = []"
    using create_empty [of TBUCKETS_LEN tcpre_mode_compare tcpre_mode_hash] by (auto simp: TBUCKETS_LEN_def)
  have "tp_inv ls (0, 0) (tcpre_init m)" using m by (simp add: tp_inv_def tcpre_init_def)
  from read_lines_spec [where env = env, OF this assms(1) _ _ assms(4,2)] obtain st where
    "read_lines env 0 ls packet (tcpre_init m) = Done (0, st)" "tp_inv ls (length ls, 0) st"
    using assms(3) by (auto simp: tcpre_init_def [of m])
  then show ?thesis
    using m(1) by (intro exI [of _ st]) (auto simp: tcpre_main_def tp_inv_def true_hit_def before_def complete_at_def block_at_def CHUNK_def)
qed

definition demo_tcpre_env :: "nat \<Rightarrow> nat \<Rightarrow> hm_env" where
  "demo_tcpre_env l i = \<lparr>he_arr = True, he_cells = True, he_node = True, he_kv = True, he_key = True, he_base = 0, he_grow = True\<rparr>"

theorem tcpre_repetitions_true_witness:
  "\<exists>st. tcpre_main demo_tcpre_env [replicate 130 97, replicate 70 97] (replicate 30000 0) = Done (0, st)
    \<and> tp_recount st = of_nat (length (tp_hits st))"
proof -
  have e: "env_ok (demo_tcpre_env l i)" for l i by (simp add: env_ok_def demo_tcpre_env_def)
  have l: "list_all line_ok [replicate 130 97, replicate 70 97]" by (simp add: line_ok_def SIZE_def CHUNK_def)
  have n: "length (concat [replicate 130 97, replicate 70 97 :: byte list]) \<le> KEYNUM" by (simp add: KEYNUM_def TBUCKETS_LEN_def)
  have s: "length (replicate 30000 0 :: byte list) = SIZE" unfolding SIZE_def by (rule length_replicate)
  obtain st where "tcpre_main demo_tcpre_env [replicate 130 97, replicate 70 97] (replicate 30000 0) = Done (0, st)
    \<and> tp_recount st = of_nat (length (tp_hits st))"
    using tcpre_repetitions_true [where env = demo_tcpre_env, OF e l n s] by (elim exE conjE) (rule that, intro conjI)
  then show ?thesis by (rule exI)
qed

end
