(* ===== verification/Skb.thy ===== *)
theory Skb
  imports Prelude
begin

text \<open>
  Socket buffers and the Internet checksum, as \<open>build_tcp\<close> uses them. A buffer is the memory
  between \<open>head\<close> and \<open>end\<close>, which \<open>alloc_skb\<close> hands out with whatever it held before, and the
  offsets \<open>data\<close> and \<open>tail\<close> into it. Pushing below \<open>head\<close> is \<open>skb_under_panic\<close>: no result.
  A \<open>__be16\<close> or \<open>__sum16\<close> is the number it denotes in network order.
\<close>

section \<open>Socket buffers\<close>

record skb =
  sk_mem :: "byte list"
  sk_data :: nat
  sk_tail :: nat
  network_header :: nat
  transport_header :: nat
  mac_header :: nat
  ip_summed :: nat
  sk_csum :: u32
  csum_start :: nat
  csum_offset :: nat
  pkt_type :: nat
  local_df :: bool
  sk_protocol :: nat
  sk_dev :: bool
  sk_dst :: bool

definition alloc_skb :: "byte list \<Rightarrow> skb" where
  "alloc_skb mem = \<lparr>sk_mem = mem, sk_data = 0, sk_tail = 0, network_header = 0, transport_header = 0,
     mac_header = 0, ip_summed = 0, sk_csum = 0, csum_start = 0, csum_offset = 0, pkt_type = 0,
     local_df = False, sk_protocol = 0, sk_dev = False, sk_dst = False\<rparr>"

definition skb_reserve :: "nat \<Rightarrow> skb \<Rightarrow> skb" where
  "skb_reserve n k = k\<lparr>sk_data := sk_data k + n, sk_tail := sk_tail k + n\<rparr>"

definition skb_push :: "nat \<Rightarrow> skb \<Rightarrow> skb option" where
  "skb_push n k = (if n \<le> sk_data k then Some (k\<lparr>sk_data := sk_data k - n\<rparr>) else None)"

definition skb_tailroom :: "skb \<Rightarrow> nat" where
  "skb_tailroom k = length (sk_mem k) - sk_tail k"

definition skb_len :: "skb \<Rightarrow> nat" where
  "skb_len k = sk_tail k - sk_data k"

definition skb_bytes :: "skb \<Rightarrow> byte list" where
  "skb_bytes k = take (skb_len k) (drop (sk_data k) (sk_mem k))"

section \<open>Writing fields\<close>

text \<open>Bytes of a field at an offset of the memory; outside it there is no result.\<close>

definition patch :: "nat \<Rightarrow> 'a list \<Rightarrow> 'a list \<Rightarrow> 'a list" where
  "patch off v m = take off m @ v @ drop (off + length v) m"

definition put :: "nat \<Rightarrow> byte list \<Rightarrow> skb \<Rightarrow> skb option" where
  "put off v k = (if off + length v \<le> length (sk_mem k) then Some (k\<lparr>sk_mem := patch off v (sk_mem k)\<rparr>) else None)"

text \<open>\<open>htons\<close> and \<open>htonl\<close> stored to memory: the most significant byte first.\<close>

definition be16 :: "nat \<Rightarrow> byte list" where
  "be16 v = [of_nat (v div 256), of_nat v]"

definition be32 :: "u32 \<Rightarrow> byte list" where
  "be32 v = [ucast (drop_bit 24 v), ucast (drop_bit 16 v), ucast (drop_bit 8 v), ucast v]"

fun put_all :: "(nat \<times> byte list) list \<Rightarrow> skb \<Rightarrow> skb option" where
  "put_all [] k = Some k"
| "put_all ((off, v) # fs) k = (case put off v k of None \<Rightarrow> None | Some k' \<Rightarrow> put_all fs k')"

lemma length_patch [buf_simps]: "off + length v \<le> length m \<Longrightarrow> length (patch off v m) = length m"
  by (simp add: patch_def)

lemma length_be16 [simp]: "length (be16 v) = 2"
  by (simp add: be16_def)

lemma length_be32 [simp]: "length (be32 v) = 4"
  by (simp add: be32_def)

lemma patch_patch_same: "length v = length w \<Longrightarrow> off + length w \<le> length m \<Longrightarrow>
    patch off v (patch off w m) = patch off v m"
  by (simp add: patch_def)

lemma patch_append_right:
  "length m1 \<le> off \<Longrightarrow> patch off v (m1 @ m2) = m1 @ patch (off - length m1) v m2"
  by (simp add: patch_def)

lemma patch_append_left:
  "off + length v \<le> length m1 \<Longrightarrow> patch off v (m1 @ m2) = patch off v m1 @ m2"
  by (simp add: patch_def)

lemma nth_patch:
  "off + length v \<le> length m \<Longrightarrow> i < off \<or> off + length v \<le> i \<Longrightarrow> i < length m \<Longrightarrow> patch off v m ! i = m ! i"
  by (auto simp: patch_def nth_append)

lemma nth_patch_in: "off + length v \<le> length m \<Longrightarrow> i < length v \<Longrightarrow> patch off v m ! (off + i) = v ! i"
  by (simp add: patch_def nth_append)

lemma drop_patch: "d \<le> off \<Longrightarrow> off + length v \<le> length m \<Longrightarrow> drop d (patch off v m) = patch (off - d) v (drop d m)"
  by (simp add: patch_def drop_take add.commute)

lemma take_patch:
  assumes "off + length v \<le> n" "n \<le> length m"
  shows "take n (patch off v m) = patch off v (take n m)"
proof -
  from assms have "off \<le> n" "length v \<le> n - off" by simp_all
  with assms show ?thesis by (simp add: patch_def take_drop min.absorb1 min.absorb2)
qed

lemma take_patch_over: "n \<le> off \<Longrightarrow> off \<le> length m \<Longrightarrow> take n (patch off v m) = take n m"
  by (simp add: patch_def)

lemma drop_patch_over: "off + length v \<le> d \<Longrightarrow> d \<le> length m \<Longrightarrow> drop d (patch off v m) = drop d m"
  by (simp add: patch_def)

text \<open>A buffer in good order, and writing a field of its data.\<close>

definition skb_ok :: "skb \<Rightarrow> bool" where
  "skb_ok k \<longleftrightarrow> sk_data k \<le> sk_tail k \<and> sk_tail k \<le> length (sk_mem k)"

lemma length_skb_bytes: "skb_ok k \<Longrightarrow> length (skb_bytes k) = skb_len k"
  by (auto simp: skb_bytes_def skb_len_def skb_ok_def)

lemma put_data:
  assumes "skb_ok k" "off + length v \<le> skb_len k"
  shows "put (sk_data k + off) v k = Some (k\<lparr>sk_mem := patch (sk_data k + off) v (sk_mem k)\<rparr>)"
    and "skb_bytes (k\<lparr>sk_mem := patch (sk_data k + off) v (sk_mem k)\<rparr>) = patch off v (skb_bytes k)"
    and "skb_ok (k\<lparr>sk_mem := patch (sk_data k + off) v (sk_mem k)\<rparr>)"
proof -
  have le: "sk_data k + off + length v \<le> length (sk_mem k)" using assms by (auto simp: skb_ok_def skb_len_def)
  then show "put (sk_data k + off) v k = Some (k\<lparr>sk_mem := patch (sk_data k + off) v (sk_mem k)\<rparr>)"
    by (simp add: put_def)
  have "take (skb_len k) (patch off v (drop (sk_data k) (sk_mem k))) = patch off v (take (skb_len k) (drop (sk_data k) (sk_mem k)))"
    using assms by (intro take_patch) (auto simp: skb_ok_def skb_len_def)
  then show "skb_bytes (k\<lparr>sk_mem := patch (sk_data k + off) v (sk_mem k)\<rparr>) = patch off v (skb_bytes k)"
    using le by (simp add: skb_bytes_def skb_len_def drop_patch)
  show "skb_ok (k\<lparr>sk_mem := patch (sk_data k + off) v (sk_mem k)\<rparr>)"
    using assms(1) le by (simp add: skb_ok_def length_patch)
qed

section \<open>The Internet checksum\<close>

text \<open>
  RFC 1071: the sum of the 16-bit words, an odd last byte padded with zero, and its folding to
  16 bits by adding the carries. A receiver accepts data whose words, the checksum included,
  fold to \<open>0xffff\<close>.
\<close>

fun sum16 :: "byte list \<Rightarrow> nat" where
  "sum16 [] = 0"
| "sum16 [a] = 256 * unat a"
| "sum16 (a # b # bs) = 256 * unat a + unat b + sum16 bs"

definition fold16 :: "nat \<Rightarrow> nat" where
  "fold16 s = (if s = 0 then 0 else (s - 1) mod 65535 + 1)"

definition csum_valid :: "nat \<Rightarrow> bool" where
  "csum_valid s \<longleftrightarrow> fold16 s = 65535"

lemma csum_valid_iff: "csum_valid s \<longleftrightarrow> s > 0 \<and> s mod 65535 = 0"
proof (cases s)
  case (Suc n)
  have "(Suc n mod 65535 = 0) = (n mod 65535 = 65534)"
    by (simp add: mod_Suc)
  with Suc show ?thesis by (simp add: csum_valid_def fold16_def)
qed (simp add: csum_valid_def fold16_def)

lemma sum16_append: "even (length xs) \<Longrightarrow> sum16 (xs @ ys) = sum16 xs + sum16 ys"
  by (induction xs rule: sum16.induct) auto

lemma sum16_pos: "xs \<noteq> [] \<Longrightarrow> 0 < unat (hd xs) \<Longrightarrow> 0 < sum16 xs"
  by (cases xs rule: sum16.cases) auto

lemma sum16_be16: "v < 65536 \<Longrightarrow> sum16 (be16 v) = v"
  by (simp add: be16_def unat_of_nat take_bit_eq_mod)

text \<open>Storing a value in a cleared 16-bit field at an even offset adds that value to the sum.\<close>

lemma sum16_patch:
  assumes "even off" "off + 2 \<le> length m" "v < 65536"
  shows "sum16 (patch off (be16 v) m) = sum16 (patch off (be16 0) m) + v"
proof -
  have "even (length (take off m))" using assms by simp
  then show ?thesis
    using sum16_append [of "take off m @ be16 v"] sum16_append [of "take off m @ be16 0"] assms(3)
    by (simp add: patch_def sum16_append sum16_be16)
qed

text \<open>
  What the kernel's checksum routines return, each described up to the carries: the complement
  of the sum of the header for \<open>ip_fast_csum\<close>, an unfolded sum for \<open>skb_checksum\<close>, the complement
  of the sum of the pseudo header and a partial sum for \<open>csum_tcpudp_magic\<close>.
\<close>

record csum_api =
  ip_fast_csum :: "byte list \<Rightarrow> nat \<Rightarrow> u16"
  skb_checksum :: "byte list \<Rightarrow> nat \<Rightarrow> nat \<Rightarrow> u32 \<Rightarrow> u32"
  csum_tcpudp_magic :: "u32 \<Rightarrow> u32 \<Rightarrow> nat \<Rightarrow> nat \<Rightarrow> u32 \<Rightarrow> u16"

definition pseudo_sum :: "u32 \<Rightarrow> u32 \<Rightarrow> nat \<Rightarrow> nat \<Rightarrow> nat" where
  "pseudo_sum saddr daddr len proto = sum16 (be32 saddr) + sum16 (be32 daddr) + len + proto"

definition csum_laws :: "csum_api \<Rightarrow> bool" where
  "csum_laws c \<longleftrightarrow>
     (\<forall>p n. 4 * n \<le> length p \<longrightarrow> (unat (ip_fast_csum c p n) + sum16 (take (4 * n) p)) mod 65535 = 0)
   \<and> (\<forall>p off len s. off + len \<le> length p \<longrightarrow>
        unat (skb_checksum c p off len s) mod 65535 = (unat s + sum16 (take len (drop off p))) mod 65535)
   \<and> (\<forall>sa da len proto s. len < 65536 \<longrightarrow> proto < 256 \<longrightarrow>
        (unat (csum_tcpudp_magic c sa da len proto s) + pseudo_sum sa da len proto + unat s) mod 65535 = 0)"

lemma csum_lawsD:
  assumes "csum_laws c"
  shows "4 * n \<le> length p \<Longrightarrow> (unat (ip_fast_csum c p n) + sum16 (take (4 * n) p)) mod 65535 = 0"
    and "off + len \<le> length p \<Longrightarrow>
      unat (skb_checksum c p off len s) mod 65535 = (unat s + sum16 (take len (drop off p))) mod 65535"
    and "len < 65536 \<Longrightarrow> proto < 256 \<Longrightarrow>
      (unat (csum_tcpudp_magic c sa da len proto s) + pseudo_sum sa da len proto + unat s) mod 65535 = 0"
  using assms unfolding csum_laws_def by blast+

text \<open>The routines of RFC 1071 have these properties.\<close>

definition rfc1071 :: csum_api where
  "rfc1071 = \<lparr>ip_fast_csum = (\<lambda>p n. NOT (of_nat (fold16 (sum16 (take (4 * n) p))))),
     skb_checksum = (\<lambda>p off len s. of_nat (fold16 (unat s + sum16 (take len (drop off p))))),
     csum_tcpudp_magic = (\<lambda>sa da len proto s. NOT (of_nat (fold16 (pseudo_sum sa da len proto + unat s))))\<rparr>"

lemma fold16_less: "fold16 s < 65536"
  by (simp add: fold16_def Suc_le_eq less_Suc_eq_le [symmetric])

lemma fold16_mod: "fold16 s mod 65535 = s mod 65535"
proof (cases s)
  case (Suc n)
  then show ?thesis by (simp add: fold16_def mod_Suc_eq)
qed (simp add: fold16_def)

lemma unat16_less: "unat (w :: u16) < 65536"
  using unsigned_less [of w, where ?'a = nat] by simp

lemma unat_NOT16: "unat (NOT w :: u16) = 65535 - unat w"
proof -
  have "NOT w = - 1 - w" by (simp add: not_eq_complement)
  then have "unat (NOT w) = unat (- 1 :: u16) - unat w" by (simp only: unat_sub word_order.extremum)
  then show ?thesis by (simp add: unsigned_minus_1_eq_mask mask_eq_exp_minus_1)
qed

lemma complement_fold: "(unat (NOT (of_nat (fold16 s)) :: u16) + s) mod 65535 = 0"
proof -
  have "unat (of_nat (fold16 s) :: u16) = fold16 s" using fold16_less [of s] by (simp add: unat_of_nat take_bit_eq_mod)
  then have "(unat (NOT (of_nat (fold16 s)) :: u16) + s) mod 65535 = (65535 - fold16 s + fold16 s mod 65535) mod 65535"
    by (simp add: unat_NOT16 fold16_mod mod_simps)
  also have "\<dots> = (65535 - fold16 s + fold16 s) mod 65535" by (simp only: mod_simps)
  also have "\<dots> = 0" using fold16_less [of s] by simp
  finally show ?thesis .
qed

lemma rfc1071_laws: "csum_laws rfc1071"
proof -
  have "unat (of_nat (fold16 t) :: u32) mod 65535 = t mod 65535" for t
    using fold16_less [of t] by (simp add: unat_of_nat take_bit_eq_mod fold16_mod)
  then show ?thesis
    using complement_fold by (simp add: csum_laws_def rfc1071_def add.assoc)
qed

end
