(* ===== verification/Csum.thy ===== *)
theory Csum
  imports Skb Packet
begin

text \<open>
  \<open>skbcsum\<close> of \<open>build_tcp/csum.c\<close>: the checksums of the IPv4 and the TCP header of a packet under
  construction. The kernel's checksum routines are parameters. The code is compiled for a
  kernel of at least 2.6.32.
\<close>

definition IPPROTO_TCP :: nat where "IPPROTO_TCP = 6"
definition CHECKSUM_NONE :: nat where "CHECKSUM_NONE = 0"
definition CHECKSUM_PARTIAL :: nat where "CHECKSUM_PARTIAL = 3"

text \<open>Header fields at an offset of a byte list long enough for them.\<close>

definition rd16 :: "byte list \<Rightarrow> nat \<Rightarrow> nat" where
  "rd16 p i = 256 * unat (p ! i) + unat (p ! (i + 1))"

definition rd32 :: "byte list \<Rightarrow> nat \<Rightarrow> u32" where
  "rd32 p i = of_nat (65536 * rd16 p i + rd16 p (i + 2))"

definition ihl_of :: "byte list \<Rightarrow> nat \<Rightarrow> nat" where
  "ihl_of p i = unat (p ! i) mod 16"

text \<open>
  \<open>iph\<close> is the offset of the IP header in the buffer. A length below that of the IP header
  leaves \<open>tcplen\<close> negative, on which \<open>skb_checksum\<close> is a bug check of the kernel.
\<close>

definition skbcsum :: "csum_api \<Rightarrow> nat \<Rightarrow> skb \<Rightarrow> skb option" where
  "skbcsum c iph k =
     (if length (sk_mem k) < iph + 20 then None
      else let ihl = ihl_of (sk_mem k) iph; tcph = iph + 4 * ihl in
       case put (iph + 10) (be16 0) k of None \<Rightarrow> None
     | Some k1 \<Rightarrow> (case put (iph + 10) (be16 (unat (ip_fast_csum c (drop iph (sk_mem k1)) ihl))) k1 of None \<Rightarrow> None
     | Some k2 \<Rightarrow> (case put (tcph + 16) (be16 0) k2 of None \<Rightarrow> None
     | Some k3 \<Rightarrow>
         let saddr = rd32 (sk_mem k3) (iph + 12); daddr = rd32 (sk_mem k3) (iph + 16);
             tcplen = int (rd16 (sk_mem k3) (iph + 2)) - int (4 * ihl)
         in if tcplen < 0 then None
            else if ip_summed k3 = CHECKSUM_PARTIAL then
              put (tcph + 16) (be16 (unat (NOT (csum_tcpudp_magic c saddr daddr (nat tcplen) IPPROTO_TCP 0))))
                (k3\<lparr>csum_start := transport_header k3, csum_offset := 16\<rparr>)
            else
              let s = skb_checksum c (skb_bytes k3) (4 * ihl) (nat tcplen) 0 in
              put (tcph + 16) (be16 (unat (csum_tcpudp_magic c saddr daddr (nat tcplen) IPPROTO_TCP s)))
                (k3\<lparr>sk_csum := s\<rparr>))))"

text \<open>What a receiver checks of an IP packet with a TCP segment.\<close>

definition ip_csum_ok :: "byte list \<Rightarrow> bool" where
  "ip_csum_ok p \<longleftrightarrow> csum_valid (sum16 (take (4 * ihl_of p 0) p))"

definition tcp_sum :: "byte list \<Rightarrow> nat" where
  "tcp_sum p = pseudo_sum (rd32 p 12) (rd32 p 16) (rd16 p 2 - 4 * ihl_of p 0) IPPROTO_TCP
     + sum16 (drop (4 * ihl_of p 0) p)"

definition tcp_csum_ok :: "byte list \<Rightarrow> bool" where
  "tcp_csum_ok p \<longleftrightarrow> csum_valid (tcp_sum p)"

text \<open>A packet whose fields describe it: a full IP header, room for the TCP checksum, the total
  length that of the packet.\<close>

definition packet_shaped :: "byte list \<Rightarrow> bool" where
  "packet_shaped p \<longleftrightarrow> 5 \<le> ihl_of p 0 \<and> 4 * ihl_of p 0 + 18 \<le> length p \<and> rd16 p 2 = length p"

section \<open>The checksums are valid\<close>

lemma rd16_less: "rd16 p i < 65536"
proof -
  have "unat (p ! i) < 256" "unat (p ! (i + 1)) < 256" using unsigned_less [where ?'b = 8] by simp_all
  then show ?thesis by (simp add: rd16_def)
qed

lemma rd_patch:
  assumes "off + length v \<le> length p" "i + 1 < length p" "i + 1 < off \<or> off + length v \<le> i"
  shows "rd16 (patch off v p) i = rd16 p i"
  using assms by (auto simp: rd16_def nth_patch)

lemma rd32_patch:
  assumes "off + length v \<le> length p" "i + 3 < length p" "i + 3 < off \<or> off + length v \<le> i"
  shows "rd32 (patch off v p) i = rd32 p i"
  using assms rd_patch [of off v p i] rd_patch [of off v p "i + 2"] by (auto simp: rd32_def)

lemma ihl_patch: "0 < off \<Longrightarrow> off + length v \<le> length p \<Longrightarrow> ihl_of (patch off v p) 0 = ihl_of p 0"
  using nth_patch [of off v p 0] by (cases p) (auto simp: ihl_of_def)

lemma rd_skb_bytes:
  assumes "skb_ok k" "i + 3 < skb_len k"
  shows "rd16 (sk_mem k) (sk_data k + i) = rd16 (skb_bytes k) i"
    and "rd32 (sk_mem k) (sk_data k + i) = rd32 (skb_bytes k) i"
    and "ihl_of (sk_mem k) (sk_data k + i) = ihl_of (skb_bytes k) i"
  using assms by (simp_all add: rd32_def rd16_def ihl_of_def skb_bytes_def skb_len_def skb_ok_def add.assoc)

lemma put_same: "length v = length w \<Longrightarrow> off + length w \<le> length (sk_mem k) \<Longrightarrow>
    put off v (k\<lparr>sk_mem := patch off w (sk_mem k)\<rparr>) = Some (k\<lparr>sk_mem := patch off v (sk_mem k)\<rparr>)"
  by (simp add: put_def length_patch patch_patch_same)

text \<open>The code up to the choice of the TCP checksum: the IP checksum is stored, the TCP checksum is
  zero.\<close>

lemma skbcsum_ip:
  assumes laws: "csum_laws c" and ok: "skb_ok k" and p: "p = skb_bytes k" and sh: "packet_shaped p"
    and h: "h = 4 * ihl_of p 0"
  obtains v m k3 where "v < 65536" "(v + sum16 (take h (patch 10 (be16 0) p))) mod 65535 = 0"
    "skb_ok k3" "k3 = k\<lparr>sk_mem := m\<rparr>" "take (sk_data k) m = take (sk_data k) (sk_mem k)"
    "skb_bytes k3 = patch (h + 16) (be16 0) (patch 10 (be16 v) p)"
    "skbcsum c (sk_data k) k =
       (let tcplen = length p - h; saddr = rd32 p 12; daddr = rd32 p 16 in
        if ip_summed k = CHECKSUM_PARTIAL then
          put (sk_data k + (h + 16)) (be16 (unat (NOT (csum_tcpudp_magic c saddr daddr tcplen IPPROTO_TCP 0))))
            (k3\<lparr>csum_start := transport_header k, csum_offset := 16\<rparr>)
        else let s = skb_checksum c (skb_bytes k3) h tcplen 0 in
          put (sk_data k + (h + 16)) (be16 (unat (csum_tcpudp_magic c saddr daddr tcplen IPPROTO_TCP s)))
            (k3\<lparr>sk_csum := s\<rparr>))"
proof -
  let ?n = "skb_len k"
  have len: "length p = ?n" "20 \<le> h" "h + 18 \<le> ?n" "rd16 p 2 = ?n"
    using sh ok by (auto simp: packet_shaped_def p length_skb_bytes h)
  have mem: "sk_data k + ?n \<le> length (sk_mem k)" using ok by (simp add: skb_ok_def skb_len_def)
  define k1 where "k1 = k\<lparr>sk_mem := patch (sk_data k + 10) (be16 0) (sk_mem k)\<rparr>"
  have k1: "put (sk_data k + 10) (be16 0) k = Some k1" "skb_bytes k1 = patch 10 (be16 0) p"
    using put_data [OF ok, of 10 "be16 0"] len by (simp_all add: k1_def p)
  define v where "v = unat (ip_fast_csum c (drop (sk_data k) (sk_mem k1)) (ihl_of p 0))"
  have v: "v < 65536" by (simp add: v_def unat16_less)
  have "take h (drop (sk_data k) (sk_mem k1)) = take h (skb_bytes k1)"
    using len by (simp add: skb_bytes_def skb_len_def k1_def)
  moreover have "h \<le> length (drop (sk_data k) (sk_mem k1))"
    using mem len by (simp add: k1_def length_patch)
  ultimately have v1: "(v + sum16 (take h (patch 10 (be16 0) p))) mod 65535 = 0"
    using csum_lawsD(1) [OF laws, of "ihl_of p 0" "drop (sk_data k) (sk_mem k1)"] k1(2) by (simp add: v_def h)
  define k2 where "k2 = k\<lparr>sk_mem := patch (sk_data k + 10) (be16 v) (sk_mem k)\<rparr>"
  have k2: "put (sk_data k + 10) (be16 v) k1 = Some k2" "skb_bytes k2 = patch 10 (be16 v) p" "skb_ok k2"
    "skb_len k2 = ?n" "sk_data k2 = sk_data k"
    using put_data [OF ok, of 10 "be16 v"] len mem by (simp_all add: k1_def k2_def p put_same skb_len_def)
  define k3 where "k3 = k2\<lparr>sk_mem := patch (sk_data k + (h + 16)) (be16 0) (sk_mem k2)\<rparr>"
  have k3: "put (sk_data k + (h + 16)) (be16 0) k2 = Some k3"
    "skb_bytes k3 = patch (h + 16) (be16 0) (patch 10 (be16 v) p)" "skb_ok k3"
    using put_data [OF k2(3), of "h + 16" "be16 0"] len k2 by (simp_all add: k3_def)
  have same: "sk_data k3 = sk_data k" "skb_len k3 = ?n" "k3 = k\<lparr>sk_mem := sk_mem k3\<rparr>"
    by (simp_all add: k3_def k2_def skb_len_def)
  have fields: "rd16 (sk_mem k3) (sk_data k + 2) = ?n" "rd32 (sk_mem k3) (sk_data k + 12) = rd32 p 12"
    "rd32 (sk_mem k3) (sk_data k + 16) = rd32 p 16"
    using rd_skb_bytes [OF k3(3), of 2] rd_skb_bytes [OF k3(3), of 12] rd_skb_bytes [OF k3(3), of 16] len
    by (simp_all add: same(1,2) k3(2) rd_patch rd32_patch length_patch)
  have low: "take (sk_data k) (sk_mem k3) = take (sk_data k) (sk_mem k)"
    using mem len by (simp add: k3_def k2_def take_patch_over length_patch)
  have nn: "nat (int (skb_len k) - int h) = skb_len k - h" by simp
  have ip: "ip_summed k3 = ip_summed k" "transport_header k3 = transport_header k" by (simp_all add: k3_def k2_def)
  have "ihl_of (sk_mem k) (sk_data k) = ihl_of p 0"
    using rd_skb_bytes(3) [OF ok, of 0] len by (simp add: p)
  then have "skbcsum c (sk_data k) k =
       (let tcplen = length p - h; saddr = rd32 p 12; daddr = rd32 p 16 in
        if ip_summed k = CHECKSUM_PARTIAL then
          put (sk_data k + (h + 16)) (be16 (unat (NOT (csum_tcpudp_magic c saddr daddr tcplen IPPROTO_TCP 0))))
            (k3\<lparr>csum_start := transport_header k, csum_offset := 16\<rparr>)
        else let s = skb_checksum c (skb_bytes k3) h tcplen 0 in
          put (sk_data k + (h + 16)) (be16 (unat (csum_tcpudp_magic c saddr daddr tcplen IPPROTO_TCP s)))
            (k3\<lparr>sk_csum := s\<rparr>))"
    using mem len k1(1) k2(1) k3(1)
    by (simp add: skbcsum_def Let_def fields add.assoc ip nn flip: v_def h del: add_2_eq_Suc')
  from that [OF v v1 k3(3) same(3) low k3(2) this] show thesis .
qed

text \<open>Storing the IP checksum makes the header valid, and the TCP checksum field does not touch it.\<close>

lemma ip_valid:
  assumes "packet_shaped p" "h = 4 * ihl_of p 0" "v < 65536" "w < 65536"
    and v: "(v + sum16 (take h (patch 10 (be16 0) p))) mod 65535 = 0"
  shows "ip_csum_ok (patch (h + 16) (be16 w) (patch 10 (be16 v) p))"
proof -
  let ?q = "patch (h + 16) (be16 w) (patch 10 (be16 v) p)"
  have len: "20 \<le> h" "h + 18 \<le> length p" using assms by (auto simp: packet_shaped_def)
  then have ihl: "ihl_of ?q 0 = ihl_of p 0" by (simp add: ihl_patch length_patch)
  have t: "take h ?q = patch 10 (be16 v) (take h p)" "take h (patch 10 (be16 0) p) = patch 10 (be16 0) (take h p)"
    using len by (simp_all add: take_patch_over take_patch length_patch)
  have "sum16 (take h ?q) = sum16 (take h (patch 10 (be16 0) p)) + v"
    using len sum16_patch [of 10 "take h p" v] assms(3) by (simp add: t)
  moreover have "0 < sum16 (take h ?q)"
  proof (rule sum16_pos)
    show "take h ?q \<noteq> []" using len by (simp add: patch_def)
    then have "hd (take h ?q) = ?q ! 0" by (simp add: hd_conv_nth)
    then show "0 < unat (hd (take h ?q))"
      using ihl assms(1) unfolding ihl_of_def packet_shaped_def by (auto intro: gr0I)
  qed
  ultimately show ?thesis
    unfolding ip_csum_ok_def csum_valid_iff ihl assms(2) [symmetric] using v by (simp add: add.commute)
qed

text \<open>The TCP sum of the packet before and after its checksum is stored.\<close>

lemma tcp_sum_store:
  assumes "packet_shaped p" "h = 4 * ihl_of p 0" "w < 65536"
  shows "tcp_sum (patch (h + 16) (be16 w) (patch 10 (be16 v) p)) =
     pseudo_sum (rd32 p 12) (rd32 p 16) (length p - h) IPPROTO_TCP + sum16 (drop h (patch (h + 16) (be16 0) p)) + w"
proof -
  let ?q = "patch (h + 16) (be16 w) (patch 10 (be16 v) p)"
  have len: "20 \<le> h" "h + 18 \<le> length p" "rd16 p 2 = length p" using assms by (auto simp: packet_shaped_def)
  then have f: "ihl_of ?q 0 = ihl_of p 0" "rd16 ?q 2 = length p" "rd32 ?q 12 = rd32 p 12" "rd32 ?q 16 = rd32 p 16"
    by (simp_all add: ihl_patch rd_patch rd32_patch length_patch)
  have "drop h ?q = patch 16 (be16 w) (drop h p)" "drop h (patch (h + 16) (be16 0) p) = patch 16 (be16 0) (drop h p)"
    using len by (simp_all add: drop_patch drop_patch_over length_patch)
  then show ?thesis using len sum16_patch [of 16 "drop h p" w] assms(3) by (simp add: tcp_sum_def f flip: assms(2))
qed

lemma skbcsum_run:
  assumes "csum_laws c" "skb_ok k" "packet_shaped (skb_bytes k)" "ip_summed k \<noteq> CHECKSUM_PARTIAL"
  shows "\<exists>v w m s. skbcsum c (sk_data k) k = Some (k\<lparr>sk_csum := s, sk_mem := m\<rparr>) \<and> v < 65536 \<and> w < 65536
    \<and> skb_ok (k\<lparr>sk_csum := s, sk_mem := m\<rparr>) \<and> take (sk_data k) m = take (sk_data k) (sk_mem k)
    \<and> (\<exists>p'. skb_bytes (k\<lparr>sk_csum := s, sk_mem := m\<rparr>) = p' \<and> ip_csum_ok p' \<and> tcp_csum_ok p'
         \<and> p' = patch (4 * ihl_of (skb_bytes k) 0 + 16) (be16 w) (patch 10 (be16 v) (skb_bytes k)))"
proof -
  define p h where "p = skb_bytes k" and "h = 4 * ihl_of p 0"
  have sh: "packet_shaped p" using assms(3) by (simp add: p_def)
  have len: "20 \<le> h" "h + 18 \<le> length p" "length p < 65536"
    using sh rd16_less [of p 2] by (simp_all add: packet_shaped_def h_def)
  obtain v m k3 where v: "v < 65536" "(v + sum16 (take h (patch 10 (be16 0) p))) mod 65535 = 0"
    and k3: "skb_ok k3" "k3 = k\<lparr>sk_mem := m\<rparr>" "take (sk_data k) m = take (sk_data k) (sk_mem k)"
    "skb_bytes k3 = patch (h + 16) (be16 0) (patch 10 (be16 v) p)"
    and run: "skbcsum c (sk_data k) k = (let s = skb_checksum c (skb_bytes k3) h (length p - h) 0 in
        put (sk_data k + (h + 16)) (be16 (unat (csum_tcpudp_magic c (rd32 p 12) (rd32 p 16) (length p - h) IPPROTO_TCP s)))
          (k3\<lparr>sk_csum := s\<rparr>))"
    by (rule skbcsum_ip [OF assms(1,2) p_def sh h_def]) (use assms(4) in \<open>simp add: Let_def\<close>)
  define s where "s = skb_checksum c (skb_bytes k3) h (length p - h) 0"
  define w where "w = unat (csum_tcpudp_magic c (rd32 p 12) (rd32 p 16) (length p - h) IPPROTO_TCP s)"
  have w: "w < 65536" by (simp add: w_def unat16_less)
  let ?P = "pseudo_sum (rd32 p 12) (rd32 p 16) (length p - h) IPPROTO_TCP"
  let ?S = "sum16 (drop h (patch (h + 16) (be16 0) p))"
  have s: "unat s mod 65535 = ?S mod 65535"
    using csum_lawsD(2) [OF assms(1), of h "length p - h" "skb_bytes k3" 0] len
    by (simp add: s_def k3(4) length_patch drop_patch drop_patch_over)
  have "(w + ?P + unat s) mod 65535 = 0"
    unfolding w_def using len by (intro csum_lawsD(3) [OF assms(1)]) (simp_all add: IPPROTO_TCP_def)
  with mod_add_cong [OF refl s, of "w + ?P"] have "(?P + ?S + w) mod 65535 = 0" by (simp add: ac_simps)
  moreover have "0 < ?P" by (simp add: pseudo_sum_def IPPROTO_TCP_def)
  ultimately have tcp: "tcp_csum_ok (patch (h + 16) (be16 w) (patch 10 (be16 v) p))"
    by (simp add: tcp_csum_ok_def csum_valid_iff tcp_sum_store [OF sh h_def w])
  define k4 where "k4 = k3\<lparr>sk_csum := s\<rparr>"
  have k4: "sk_data k4 = sk_data k" "skb_len k4 = length p" "skb_ok k4" "skb_bytes k4 = skb_bytes k3"
    using k3(1,2) assms(2) by (auto simp: k4_def skb_len_def skb_ok_def skb_bytes_def p_def length_skb_bytes)
  define m' where "m' = patch (sk_data k + (h + 16)) (be16 w) m"
  have fin: "put (sk_data k + (h + 16)) (be16 w) k4 = Some (k\<lparr>sk_csum := s, sk_mem := m'\<rparr>)"
      "skb_bytes (k\<lparr>sk_csum := s, sk_mem := m'\<rparr>) = patch (h + 16) (be16 w) (patch 10 (be16 v) p)"
      "skb_ok (k\<lparr>sk_csum := s, sk_mem := m'\<rparr>)"
    using put_data [OF k4(3), of "h + 16" "be16 w"] len k4(1,2,4)
    by (simp_all add: k3(4) patch_patch_same length_patch) (simp_all add: k4_def k3(2) m'_def)
  have "sk_data k \<le> length m" using k3(1) by (simp add: k3(2) skb_ok_def)
  then have low: "take (sk_data k) m' = take (sk_data k) (sk_mem k)"
    using k3(1,3) len k4(1,2) by (simp add: m'_def patch_def k3(2) skb_ok_def skb_len_def k4_def min_def)
  have "skbcsum c (sk_data k) k = Some (k\<lparr>sk_csum := s, sk_mem := m'\<rparr>)"
    using run fin(1) by (simp add: Let_def s_def w_def k4_def)
  with fin(2,3) low v(1) w tcp ip_valid [OF sh h_def v(1) w v(2)] show ?thesis
    unfolding p_def [symmetric] h_def [symmetric] by blast
qed

text \<open>
  Software checksums: \<open>skbcsum\<close> completes on a packet whose fields describe it, stores both
  checksums and leaves every other byte alone; a receiver accepts both.
\<close>

theorem skbcsum_valid:
  assumes "csum_laws c" "skb_ok k" "packet_shaped (skb_bytes k)" "ip_summed k \<noteq> CHECKSUM_PARTIAL"
  shows "\<exists>k' v w. skbcsum c (sk_data k) k = Some k' \<and> v < 65536 \<and> w < 65536
    \<and> skb_bytes k' = patch (4 * ihl_of (skb_bytes k) 0 + 16) (be16 w) (patch 10 (be16 v) (skb_bytes k))
    \<and> ip_csum_ok (skb_bytes k') \<and> tcp_csum_ok (skb_bytes k')"
  using skbcsum_run [OF assms] by blast

text \<open>
  Checksum offload: with \<open>CHECKSUM_PARTIAL\<close> the code stores the sum of the pseudo header and says
  where the device has to work. A device that stores the complement of the sum from
  \<open>csum_start\<close> on at \<open>csum_start + csum_offset\<close> then completes the TCP checksum.
\<close>

theorem skbcsum_offload:
  assumes "csum_laws c" "skb_ok k" "packet_shaped (skb_bytes k)" "ip_summed k = CHECKSUM_PARTIAL"
    and th: "transport_header k = sk_data k + 4 * ihl_of (skb_bytes k) 0"
    and k': "skbcsum c (sk_data k) k = Some k'"
    and p': "p' = drop (csum_start k') (take (sk_tail k') (sk_mem k'))"
    and w: "w < 65536" "(w + sum16 p') mod 65535 = 0"
  shows "ip_csum_ok (patch (csum_start k' - sk_data k' + csum_offset k') (be16 w) (skb_bytes k'))
    \<and> tcp_csum_ok (patch (csum_start k' - sk_data k' + csum_offset k') (be16 w) (skb_bytes k'))"
proof -
  define p h where "p = skb_bytes k" and "h = 4 * ihl_of p 0"
  have sh: "packet_shaped p" using assms(3) by (simp add: p_def)
  have len: "20 \<le> h" "h + 18 \<le> length p" "length p < 65536"
    using sh rd16_less [of p 2] by (simp_all add: packet_shaped_def h_def)
  define u where "u = unat (NOT (csum_tcpudp_magic c (rd32 p 12) (rd32 p 16) (length p - h) IPPROTO_TCP 0))"
  obtain v m k3 where v: "v < 65536" "(v + sum16 (take h (patch 10 (be16 0) p))) mod 65535 = 0"
    and k3: "skb_ok k3" "k3 = k\<lparr>sk_mem := m\<rparr>" "take (sk_data k) m = take (sk_data k) (sk_mem k)"
    "skb_bytes k3 = patch (h + 16) (be16 0) (patch 10 (be16 v) p)"
    and run: "skbcsum c (sk_data k) k =
        put (sk_data k + (h + 16)) (be16 u) (k3\<lparr>csum_start := transport_header k, csum_offset := 16\<rparr>)"
    by (rule skbcsum_ip [OF assms(1,2) p_def sh h_def]) (use assms(4) in \<open>simp add: Let_def u_def\<close>)
  define k4 where "k4 = k3\<lparr>csum_start := transport_header k, csum_offset := 16\<rparr>"
  have k4: "sk_data k4 = sk_data k" "skb_len k4 = length p" "skb_ok k4" "skb_bytes k4 = skb_bytes k3"
    using k3(1,2) assms(2) by (auto simp: k4_def skb_len_def skb_ok_def skb_bytes_def p_def length_skb_bytes)
  have fin: "skb_bytes k' = patch (h + 16) (be16 u) (patch 10 (be16 v) p)" "sk_data k' = sk_data k"
      "csum_start k' = sk_data k + h" "csum_offset k' = 16" "skb_ok k'"
  proof -
    have h: "transport_header k = sk_data k + h" using th by (simp add: h_def p_def)
    have "k' = k4\<lparr>sk_mem := patch (sk_data k + (h + 16)) (be16 u) (sk_mem k4)\<rparr>"
      "skb_bytes k' = patch (h + 16) (be16 u) (skb_bytes k3)" "skb_ok k'"
      using put_data [OF k4(3), of "h + 16" "be16 u"] len run k' by (auto simp: k4 simp flip: k4_def)
    then show "skb_bytes k' = patch (h + 16) (be16 u) (patch 10 (be16 v) p)" "sk_data k' = sk_data k"
      "csum_start k' = sk_data k + h" "csum_offset k' = 16" "skb_ok k'"
      using len h by (simp_all add: k4(1) k3(4) patch_patch_same length_patch) (simp_all add: k4_def)
  qed
  have u: "u < 65536" by (simp add: u_def unat16_less)
  let ?P = "pseudo_sum (rd32 p 12) (rd32 p 16) (length p - h) IPPROTO_TCP"
  let ?S = "sum16 (drop h (patch (h + 16) (be16 0) p))"
  define g where "g = unat (csum_tcpudp_magic c (rd32 p 12) (rd32 p 16) (length p - h) IPPROTO_TCP 0)"
  have "(g + ?P) mod 65535 = 0"
    using csum_lawsD(3) [OF assms(1), of "length p - h" IPPROTO_TCP "rd32 p 12" "rd32 p 16" 0] len
    by (simp add: g_def IPPROTO_TCP_def)
  then have "(u + (g + ?P)) mod 65535 = u mod 65535" by (metis add.right_neutral mod_add_right_eq)
  moreover have "u = 65535 - g" "g < 65536" by (simp_all add: u_def unat_NOT16 g_def unat16_less)
  then have "u + (g + ?P) = ?P + 65535" by linarith
  ultimately have uP: "?P mod 65535 = u mod 65535" by simp
  have "p' = drop h (skb_bytes k')"
    using fin(2,3,5) by (simp add: p' skb_bytes_def skb_len_def skb_ok_def drop_take add.commute)
  moreover have "sum16 (drop h (skb_bytes k')) = ?S + u"
    using len sum16_patch [of 16 "drop h p" u] u by (simp add: fin(1) drop_patch drop_patch_over length_patch)
  ultimately have "(w + ?S + u) mod 65535 = 0" using w(2) by (simp add: add.assoc)
  with mod_add_cong [OF refl uP, of "w + ?S"] have "(?P + ?S + w) mod 65535 = 0" by (simp add: ac_simps)
  moreover have "0 < ?P" by (simp add: pseudo_sum_def IPPROTO_TCP_def)
  ultimately have "tcp_csum_ok (patch (h + 16) (be16 w) (patch 10 (be16 v) p))"
    by (simp add: tcp_csum_ok_def csum_valid_iff tcp_sum_store [OF sh h_def w(1)])
  then show ?thesis
    using ip_valid [OF sh h_def v(1) w(1) v(2)] len by (simp add: fin patch_patch_same length_patch)
qed

text \<open>A packet of 40 bytes at the front of its buffer.\<close>

definition demo_skb :: skb where
  "demo_skb = (alloc_skb ([0x45, 0, 0, 40] @ replicate 36 7))\<lparr>sk_tail := 40\<rparr>"

lemma skbcsum_valid_witness:
  "\<exists>k' v w. skbcsum rfc1071 0 demo_skb = Some k' \<and> v < 65536 \<and> w < 65536
    \<and> skb_bytes k' = patch 36 (be16 w) (patch 10 (be16 v) (skb_bytes demo_skb))
    \<and> ip_csum_ok (skb_bytes k') \<and> tcp_csum_ok (skb_bytes k')"
proof -
  have "ihl_of (skb_bytes demo_skb) 0 = 5" "packet_shaped (skb_bytes demo_skb)" "skb_ok demo_skb"
    "ip_summed demo_skb \<noteq> CHECKSUM_PARTIAL" "sk_data demo_skb = 0"
    by (simp_all add: demo_skb_def alloc_skb_def skb_bytes_def skb_len_def skb_ok_def packet_shaped_def ihl_of_def rd16_def
        CHECKSUM_PARTIAL_def)
  then show ?thesis using skbcsum_valid [OF rfc1071_laws, of demo_skb] by simp
qed

end
