(* ===== verification/Mac_Table.thy ===== *)
theory Mac_Table
  imports Skb
begin

text \<open>
  The table of resolved link addresses of \<open>build_tcp/main.c\<close> and the resolution of a next hop
  (\<open>lookup_table\<close>, \<open>addup_table\<close>, \<open>get_mac\<close>). Routing and the neighbour table of the kernel are
  parameters; the references the code takes on routes and neighbours are counted.
\<close>

section \<open>State and operations\<close>

definition ETH_ALEN :: nat where "ETH_ALEN = 6"
definition MAC_IP_TAB_SIZE :: nat where "MAC_IP_TAB_SIZE = 2"

record mac_ip =
  mi_ip :: u32
  mi_mac :: "byte list"
  mi_expires :: u64

type_synonym mac_table = "mac_ip list"

definition mac_ip_table_init :: mac_table where
  "mac_ip_table_init = replicate MAC_IP_TAB_SIZE \<lparr>mi_ip = 0, mi_mac = replicate ETH_ALEN 0, mi_expires = 0\<rparr>"

fun lookup_table :: "u64 \<Rightarrow> u32 \<Rightarrow> mac_table \<Rightarrow> mac_ip option" where
  "lookup_table jiffies ip [] = None"
| "lookup_table jiffies ip (e # es) =
     (if ip = mi_ip e \<and> mi_expires e > jiffies then Some e else lookup_table jiffies ip es)"

fun addup_table :: "u64 \<Rightarrow> u64 \<Rightarrow> u32 \<Rightarrow> byte list \<Rightarrow> mac_table \<Rightarrow> mac_table" where
  "addup_table xmit_itv jiffies ip mac [] = []"
| "addup_table xmit_itv jiffies ip mac (e # es) =
     (let e1 = (if mi_expires e < jiffies then e\<lparr>mi_ip := 0\<rparr> else e) in
      if mi_ip e1 = 0 then e1\<lparr>mi_ip := ip, mi_expires := jiffies + xmit_itv, mi_mac := take ETH_ALEN mac\<rparr> # es
      else e1 # addup_table xmit_itv jiffies ip mac es)"

record neighbour =
  nud_valid :: bool
  ha :: "byte list"

record net_env =
  jiffies :: u64
  xmit_itv :: u64
  route_ok :: "u32 \<Rightarrow> bool"
  neigh_of :: "u32 \<Rightarrow> neighbour option"

record mac_state =
  mac_tab :: mac_table
  rt_refs :: nat
  neigh_refs :: nat
  probes :: nat

text \<open>
  \<open>get_mac\<close> returns its code, the address written to \<open>dest\<close>, the state, and the buffer whose
  \<open>dst\<close> takes over the route. A \<open>dst\<close> already there is dropped, with its reference.
\<close>

definition get_mac :: "net_env \<Rightarrow> u32 \<Rightarrow> skb \<Rightarrow> mac_state \<Rightarrow> int \<times> byte list option \<times> skb \<times> mac_state" where
  "get_mac env dst_ip k s =
     (case lookup_table (jiffies env) dst_ip (mac_tab s) of
        Some e \<Rightarrow> (1, Some (take ETH_ALEN (mi_mac e)), k, s)
      | None \<Rightarrow>
        if \<not> route_ok env dst_ip then (- 2, None, k, s)
        else let s1 = s\<lparr>rt_refs := rt_refs s + 1\<rparr> in
          case neigh_of env dst_ip of
            None \<Rightarrow> (- 3, None, k, s1\<lparr>probes := probes s1 + 1, rt_refs := rt_refs s1 - 1\<rparr>)
          | Some nb \<Rightarrow>
            let s2 = s1\<lparr>neigh_refs := neigh_refs s1 + 1\<rparr> in
            if \<not> nud_valid nb then
              (- 3, None, k, s2\<lparr>probes := probes s2 + 1, neigh_refs := neigh_refs s2 - 1, rt_refs := rt_refs s2 - 1\<rparr>)
            else
              let s3 = s2\<lparr>neigh_refs := neigh_refs s2 - 1,
                          mac_tab := addup_table (xmit_itv env) (jiffies env) dst_ip (ha nb) (mac_tab s2)\<rparr>;
                  s4 = (if sk_dst k then s3\<lparr>rt_refs := rt_refs s3 - 1\<rparr> else s3)
              in (1, Some (take ETH_ALEN (ha nb)), k\<lparr>sk_dst := True\<rparr>, s4))"

section \<open>The table\<close>

lemma length_addup_table [simp]: "length (addup_table itv j ip mac t) = length t"
  by (induction t) (auto simp: Let_def)

lemma lookup_table_Some:
  assumes "lookup_table j ip t = Some e"
  shows "e \<in> set t" "mi_ip e = ip" "j < mi_expires e"
  using assms by (induction t) (auto split: if_splits)

lemma lookup_table_None: "lookup_table j ip t = None \<longleftrightarrow> (\<forall>e \<in> set t. mi_ip e = ip \<longrightarrow> mi_expires e \<le> j)"
  by (induction t) auto

text \<open>Every entry is an old one, an old expired one with its address cleared, or the new one.\<close>

lemma addup_table_entries:
  assumes "e \<in> set (addup_table itv j ip mac t)"
  shows "e \<in> set t \<or> (\<exists>e0 \<in> set t. mi_expires e0 < j \<and> e = e0\<lparr>mi_ip := 0\<rparr>)
    \<or> e = \<lparr>mi_ip = ip, mi_mac = take ETH_ALEN mac, mi_expires = j + itv\<rparr>"
  using assms
proof (induction t)
  case (Cons e0 t)
  then show ?case by (auto simp: Let_def intro!: mac_ip.equality split: if_splits)
qed simp

definition has_room :: "u64 \<Rightarrow> mac_table \<Rightarrow> bool" where
  "has_room j t \<longleftrightarrow> (\<exists>e \<in> set t. mi_expires e < j \<or> mi_ip e = 0)"

lemma addup_table_lookup:
  assumes "lookup_table j ip t = None" "has_room j t" "j \<le> j'" "j' < j + itv"
  shows "lookup_table j' ip (addup_table itv j ip mac t) =
    Some \<lparr>mi_ip = ip, mi_mac = take ETH_ALEN mac, mi_expires = j + itv\<rparr>"
  using assms
proof (induction t)
  case (Cons e t)
  have dead: "mi_ip e = ip \<Longrightarrow> \<not> j' < mi_expires e"
    using Cons.prems(1,3) by (auto split: if_splits dest: order.strict_trans1)
  show ?case
  proof (cases "mi_expires e < j \<or> mi_ip e = 0")
    case True
    then show ?thesis using Cons.prems(4) by (auto simp: Let_def intro!: mac_ip.equality)
  next
    case False
    then have "lookup_table j' ip (addup_table itv j ip mac t) =
        Some \<lparr>mi_ip = ip, mi_mac = take ETH_ALEN mac, mi_expires = j + itv\<rparr>"
      using Cons.prems by (intro Cons.IH) (auto simp: has_room_def split: if_splits)
    then show ?thesis using False dead by (auto simp: Let_def)
  qed
qed (simp add: has_room_def)

text \<open>A full table is left as it is: the address is resolved again for every packet.\<close>

lemma addup_table_full: "\<not> has_room j t \<Longrightarrow> addup_table itv j ip mac t = t"
  by (induction t) (auto simp: has_room_def Let_def)

section \<open>Resolution\<close>

text \<open>The references are balanced: a successful resolution hands one route to the buffer, and
  nothing else stays taken.\<close>

lemma get_mac_refs:
  assumes "get_mac env ip k s = (r, d, k', s')" "sk_dst k \<longrightarrow> 0 < rt_refs s"
  shows "neigh_refs s' = neigh_refs s"
    and "rt_refs s' + (if sk_dst k then 1 else 0) = rt_refs s + (if sk_dst k' then 1 else 0)"
    and "r = 1 \<longleftrightarrow> d \<noteq> None" and "k' = k\<lparr>sk_dst := sk_dst k'\<rparr>"
  using assms by (auto simp: get_mac_def Let_def split: option.splits if_splits)

text \<open>The resolution does not depend on the buffer.\<close>

definition resolve :: "net_env \<Rightarrow> u32 \<Rightarrow> mac_state \<Rightarrow> int \<times> byte list option \<times> bool \<times> mac_state" where
  "resolve env ip s = (case get_mac env ip (alloc_skb []) s of (r, d, k, s') \<Rightarrow> (r, d, sk_dst k, s'))"

lemma get_mac_resolve:
  "\<not> sk_dst k \<Longrightarrow> get_mac env ip k s = (case resolve env ip s of (r, d, b, s') \<Rightarrow> (r, d, k\<lparr>sk_dst := b\<rparr>, s'))"
  by (auto simp: resolve_def get_mac_def alloc_skb_def Let_def split: option.splits)

lemma resolve_refs:
  assumes "resolve env ip s = (r, d, b, s')"
  shows "neigh_refs s' = neigh_refs s" "rt_refs s' = rt_refs s + (if b then 1 else 0)" "r = 1 \<longleftrightarrow> d \<noteq> None"
    "r \<noteq> 1 \<Longrightarrow> \<not> b" "r \<noteq> 0"
  using assms by (auto simp: resolve_def get_mac_def alloc_skb_def Let_def split: option.splits if_splits)

text \<open>The runs of the module: calls of \<open>get_mac\<close> at times that do not go back, with the addresses
  that the neighbour table gave and when (\<open>H\<close>).\<close>

inductive mac_reach :: "u64 \<Rightarrow> u64 \<Rightarrow> (u32 \<times> byte list \<times> u64) set \<Rightarrow> mac_table \<Rightarrow> bool" for itv where
  start: "mac_reach itv j {} mac_ip_table_init"
| call: "mac_reach itv j H (mac_tab s) \<Longrightarrow> j \<le> jiffies env \<Longrightarrow> xmit_itv env = itv \<Longrightarrow>
    unat (jiffies env) + unat itv < 2 ^ 64 \<Longrightarrow> get_mac env ip k s = (r, d, k', s') \<Longrightarrow>
    H' = H \<union> {(ip, take ETH_ALEN (ha nb), jiffies env) | nb. neigh_of env ip = Some nb \<and> nud_valid nb} \<Longrightarrow>
    mac_reach itv (jiffies env) H' (mac_tab s')"

definition mac_inv :: "u64 \<Rightarrow> u64 \<Rightarrow> (u32 \<times> byte list \<times> u64) set \<Rightarrow> mac_table \<Rightarrow> bool" where
  "mac_inv itv j H t \<longleftrightarrow> length t = MAC_IP_TAB_SIZE \<and> (\<forall>(ip, mac, t0) \<in> H. t0 \<le> j)
     \<and> (\<forall>e \<in> set t. length (mi_mac e) \<le> ETH_ALEN \<and>
          (j < mi_expires e \<longrightarrow> (\<exists>t0. (mi_ip e, mi_mac e, t0) \<in> H \<and> unat (mi_expires e) = unat t0 + unat itv)))"

lemma mac_reach_inv: "mac_reach itv j H t \<Longrightarrow> mac_inv itv j H t"
proof (induction rule: mac_reach.induct)
  case (start j)
  then show ?case by (auto simp: mac_inv_def mac_ip_table_init_def)
next
  case (call j H s env ip k r d k' s' H')
  have le: "j \<le> jiffies env" by fact
  have old: "mac_inv itv (jiffies env) H' (mac_tab s)"
    using call.IH le call.hyps by (fastforce simp: mac_inv_def dest: order.trans order.strict_trans1)
  show ?case
  proof (cases "mac_tab s' = mac_tab s")
    case False
    then obtain nb where nb: "neigh_of env ip = Some nb" "nud_valid nb"
      and t: "mac_tab s' = addup_table itv (jiffies env) ip (ha nb) (mac_tab s)"
      using call.hyps by (auto simp: get_mac_def Let_def split: option.splits if_splits)
    have "unat (jiffies env + itv) = unat (jiffies env) + unat itv"
      using call.hyps(4) by (simp add: unat_plus_if_size word_size)
    moreover have "(ip, take ETH_ALEN (ha nb), jiffies env) \<in> H'" using nb call.hyps by auto
    ultimately show ?thesis
      using old by (auto simp: mac_inv_def t ETH_ALEN_def dest!: addup_table_entries)
  qed (use old in simp)
qed

text \<open>
  (C24) An address that \<open>get_mac\<close> returns was given by the neighbour table for this next hop, now or less
  than \<open>xmit_itv\<close> ago; without an address it fails.
\<close>

theorem get_mac_fresh:
  assumes "mac_reach itv j H (mac_tab s)" "j \<le> jiffies env" "get_mac env ip k s = (r, d, k', s')"
  shows "(r = 1 \<and> (\<exists>mac. d = Some mac \<and>
      ((\<exists>nb. neigh_of env ip = Some nb \<and> nud_valid nb \<and> mac = take ETH_ALEN (ha nb))
       \<or> (\<exists>t0. (ip, mac, t0) \<in> H \<and> t0 \<le> jiffies env \<and> unat (jiffies env) < unat t0 + unat itv))))
    \<or> (r \<in> {- 2, - 3} \<and> d = None \<and> mac_tab s' = mac_tab s)"
proof (cases "lookup_table (jiffies env) ip (mac_tab s)")
  case None
  then show ?thesis using assms(3) by (auto simp: get_mac_def Let_def split: option.splits if_splits)
next
  case (Some e)
  note e = lookup_table_Some [OF Some]
  from e(3) assms(2) have "j < mi_expires e" by (rule order.strict_trans1 [rotated])
  with e(1,2) mac_reach_inv [OF assms(1)] obtain t0
    where t0: "(ip, mi_mac e, t0) \<in> H" "unat (mi_expires e) = unat t0 + unat itv" "t0 \<le> j" "length (mi_mac e) \<le> ETH_ALEN"
    by (fastforce simp: mac_inv_def)
  have "unat (jiffies env) < unat t0 + unat itv" using e(3) t0(2) by (simp add: word_less_nat_alt)
  then show ?thesis using Some assms(2,3) t0 by (auto simp: get_mac_def)
qed

text \<open>While the table has room, a resolved next hop is answered from the table until it expires,
  whatever routes and neighbours do then.\<close>

theorem resolved_is_cached:
  assumes "lookup_table (jiffies env) ip (mac_tab s) = None" "has_room (jiffies env) (mac_tab s)"
    and "route_ok env ip" "neigh_of env ip = Some nb" "nud_valid nb"
    and "get_mac env ip k s = (r, d, k', s')"
    and "jiffies env \<le> jiffies env'" "jiffies env' < jiffies env + xmit_itv env" "mac_tab s'' = mac_tab s'"
  shows "get_mac env' ip k2 s'' = (1, Some (take ETH_ALEN (ha nb)), k2, s'')"
proof -
  have "mac_tab s' = addup_table (xmit_itv env) (jiffies env) ip (ha nb) (mac_tab s)"
    using assms(1,3-6) by (auto simp: get_mac_def Let_def split: if_splits)
  with addup_table_lookup [OF assms(1,2,7,8), of "ha nb"] assms(9) show ?thesis by (simp add: get_mac_def)
qed

section \<open>A concrete run\<close>

text \<open>The gateway is resolved at 1000; at 2000 there is no route, and the address comes from the table.\<close>

definition demo_net :: "bool \<Rightarrow> u64 \<Rightarrow> net_env" where
  "demo_net up t = \<lparr>jiffies = t, xmit_itv = 30000, route_ok = (\<lambda>_. up),
     neigh_of = (\<lambda>_. Some \<lparr>nud_valid = True, ha = [2, 0, 0, 0, 0, 1]\<rparr>)\<rparr>"

definition demo_mac :: mac_state where
  "demo_mac = \<lparr>mac_tab = mac_ip_table_init, rt_refs = 0, neigh_refs = 0, probes = 0\<rparr>"

definition demo_mac1 :: mac_state where
  "demo_mac1 = demo_mac\<lparr>mac_tab := addup_table 30000 1000 9 [2, 0, 0, 0, 0, 1] mac_ip_table_init, rt_refs := 1\<rparr>"

lemma replicate_2: "replicate 2 x = [x, x]"
  by (simp add: numeral_2_eq_2)

lemmas demo_mac_defs = demo_net_def demo_mac_def demo_mac1_def get_mac_def mac_ip_table_init_def MAC_IP_TAB_SIZE_def
  ETH_ALEN_def alloc_skb_def replicate_2

lemma demo_mac_reach: "mac_reach 30000 1000 {(9, [2, 0, 0, 0, 0, 1], 1000)} (mac_tab demo_mac1)"
proof -
  have start: "mac_reach 30000 0 {} (mac_tab demo_mac)" using mac_reach.start by (simp add: demo_mac_def)
  have run: "get_mac (demo_net True 1000) 9 (alloc_skb []) demo_mac =
      (1, Some [2, 0, 0, 0, 0, 1], (alloc_skb [])\<lparr>sk_dst := True\<rparr>, demo_mac1)"
    by (simp add: demo_mac_defs)
  have "mac_reach 30000 (jiffies (demo_net True 1000)) {(9, [2, 0, 0, 0, 0, 1], 1000)} (mac_tab demo_mac1)"
    by (rule mac_reach.call [OF start _ _ _ run]) (auto simp: demo_net_def ETH_ALEN_def)
  then show ?thesis by (simp add: demo_net_def)
qed

lemma get_mac_fresh_witness:
  "get_mac (demo_net False 2000) 9 (alloc_skb []) demo_mac1 = (1, Some [2, 0, 0, 0, 0, 1], alloc_skb [], demo_mac1)
   \<and> (\<exists>mac. Some [2, 0, 0, 0, 0, 1] = Some mac \<and>
      ((\<exists>nb. neigh_of (demo_net False 2000) 9 = Some nb \<and> nud_valid nb \<and> mac = take ETH_ALEN (ha nb))
       \<or> (\<exists>t0. (9, mac, t0) \<in> {(9, [2, 0, 0, 0, 0, 1], 1000)} \<and> t0 \<le> jiffies (demo_net False 2000)
            \<and> unat (jiffies (demo_net False 2000)) < unat t0 + unat (30000 :: u64))))"
proof -
  have "get_mac (demo_net False 2000) 9 (alloc_skb []) demo_mac1 = (1, Some [2, 0, 0, 0, 0, 1], alloc_skb [], demo_mac1)"
    by (simp add: demo_mac_defs)
  moreover have "(1000 :: u64) \<le> jiffies (demo_net False 2000)" by (simp add: demo_net_def)
  ultimately show ?thesis using get_mac_fresh [OF demo_mac_reach] by fastforce
qed

end
