(* ===== verification/Build_Tcp.thy ===== *)
theory Build_Tcp
  imports Csum Mac_Table
begin

text \<open>
  The packet generator \<open>build_tcp/main.c\<close>: a TCP segment with a 16-byte payload is built from the
  payload outwards in a socket buffer and handed to the device. \<open>mem\<close> is the memory that
  \<open>alloc_skb\<close> returns, with its previous contents; \<open>in_aton\<close>, the device table, routing and the
  transmission are parameters.
\<close>

section \<open>The steps\<close>

definition MD5LEN :: nat where "MD5LEN = 16"
definition ETH_HLEN :: nat where "ETH_HLEN = 14"
definition ETH_P_IP :: nat where "ETH_P_IP = 2048"
definition PACKET_OUTGOING :: nat where "PACKET_OUTGOING = 4"
definition IP_DF :: nat where "IP_DF = 16384"
definition TCPCB_FLAG_FIN :: nat where "TCPCB_FLAG_FIN = 1"
definition SOURCE :: nat where "SOURCE = 6880"
definition DEST :: nat where "DEST = 6880"
definition GATE_IP :: string where "GATE_IP = ''139.209.90.1''"
definition SOU_IP :: string where "SOU_IP = ''139.209.90.213''"
definition DST_IP :: string where "DST_IP = ''119.184.176.146''"

definition ALIGN :: "nat \<Rightarrow> nat \<Rightarrow> nat" where
  "ALIGN x a = ((x + (a - 1)) div a) * a"

text \<open>\<open>RT_TOS\<close> of the kernel headers: the TOS bits of the byte.\<close>

definition RT_TOS :: "nat \<Rightarrow> nat" where
  "RT_TOS tos = unat (of_nat tos AND 0x1E :: byte)"

definition skb_size :: nat where
  "skb_size = ALIGN 14 4 + ALIGN 20 4 + ALIGN 20 4 + ALIGN MD5LEN 4"

definition alloc_set_skb :: "byte list option \<Rightarrow> skb option" where
  "alloc_set_skb mem = (case mem of None \<Rightarrow> None | Some m \<Rightarrow> Some (skb_reserve skb_size (alloc_skb m)))"

definition md5_result :: "byte list" where
  "md5_result = [1, 2, 3, 4, 5, 6, 7, 8, 9, 10, 11, 12, 13, 14, 15, 16]"

definition copy_md5sum :: "skb \<Rightarrow> (int \<times> skb) option" where
  "copy_md5sum k =
     (if skb_tailroom k < MD5LEN then Some (- 1, k)
      else case skb_push MD5LEN k of None \<Rightarrow> None
      | Some k1 \<Rightarrow> map_option (Pair 0) (put (sk_data k1) md5_result k1))"

text \<open>The fields of a header, each with its offset from the header's start.\<close>

fun put_fields :: "nat \<Rightarrow> (nat \<times> byte list) list \<Rightarrow> skb \<Rightarrow> skb option" where
  "put_fields base [] k = Some k"
| "put_fields base ((off, v) # fs) k = (case put (base + off) v k of None \<Rightarrow> None | Some k' \<Rightarrow> put_fields base fs k')"

definition tcp_fields :: "(nat \<times> byte list) list" where
  "tcp_fields = [(0, be16 SOURCE), (2, be16 DEST), (4, be32 123), (8, be32 0),
     (12, be16 (4096 * (20 div 4) + TCPCB_FLAG_FIN)), (14, be16 560), (16, be16 0), (18, be16 0)]"

definition build_tcphdr :: "skb \<Rightarrow> (int \<times> skb) option" where
  "build_tcphdr k =
     (case skb_push (ALIGN 20 4) k of None \<Rightarrow> None
      | Some k1 \<Rightarrow> let k2 = k1\<lparr>transport_header := sk_data k1\<rparr> in
          map_option (Pair 0) (put_fields (transport_header k2) tcp_fields k2))"

definition ip_fields :: "(string \<Rightarrow> u32) \<Rightarrow> nat \<Rightarrow> (nat \<times> byte list) list" where
  "ip_fields aton len = [(0, be16 (4 * 4096 + 5 * 256 + RT_TOS 20)), (2, be16 len), (6, be16 IP_DF), (8, [64]),
     (9, [of_nat IPPROTO_TCP]), (12, be32 (aton SOU_IP)), (16, be32 (aton DST_IP))]"

definition build_iphdr :: "(string \<Rightarrow> u32) \<Rightarrow> skb \<Rightarrow> (int \<times> skb) option" where
  "build_iphdr aton k =
     (case skb_push 20 k of None \<Rightarrow> None
      | Some k1 \<Rightarrow> let k2 = k1\<lparr>network_header := sk_data k1\<rparr> in
          map_option (Pair 0) (put_fields (network_header k2) (ip_fields aton (skb_len k2)) k2))"

text \<open>
  The module's state: the address table with its references, references on the device, buffers
  that exist, and the frames handed to the device.
\<close>

record gen_state = mac_state +
  dev_refs :: nat
  skbs :: nat
  sent :: "byte list list"

record gen_env = net_env +
  in_aton :: "string \<Rightarrow> u32"
  csum_fns :: csum_api
  alloc_mem :: "byte list option"
  eth0 :: "byte list option"
  xmit_result :: int

text \<open>Giving a buffer back drops its route.\<close>

definition kfree_skb :: "skb \<Rightarrow> gen_state \<Rightarrow> gen_state" where
  "kfree_skb k s = s\<lparr>skbs := skbs s - 1, rt_refs := rt_refs s - (if sk_dst k then 1 else 0)\<rparr>"

definition dev_queue_xmit :: "gen_env \<Rightarrow> skb \<Rightarrow> gen_state \<Rightarrow> int \<times> gen_state" where
  "dev_queue_xmit env k s = (xmit_result env, (kfree_skb k s)\<lparr>sent := sent s @ [skb_bytes k]\<rparr>)"

text \<open>The table part of the state, for \<open>get_mac\<close>.\<close>

definition with_mac :: "mac_state \<Rightarrow> gen_state \<Rightarrow> gen_state" where
  "with_mac m s = s\<lparr>mac_tab := mac_tab m, rt_refs := rt_refs m, neigh_refs := neigh_refs m, probes := probes m\<rparr>"

definition build_ethhdr :: "gen_env \<Rightarrow> skb \<Rightarrow> gen_state \<Rightarrow> (int \<times> skb \<times> gen_state) option" where
  "build_ethhdr env k s =
     (case eth0 env of None \<Rightarrow> Some (- 3, k, s)
      | Some dev_addr \<Rightarrow>
        let s1 = s\<lparr>dev_refs := dev_refs s + 1\<rparr>;
            k1 = k\<lparr>sk_dev := True, pkt_type := PACKET_OUTGOING, local_df := True, sk_protocol := ETH_P_IP\<rparr>
        in case skb_push ETH_HLEN k1 of None \<Rightarrow> None
        | Some k2 \<Rightarrow> let k3 = k2\<lparr>mac_header := sk_data k2\<rparr> in
          (case put (mac_header k3 + 6) (take ETH_ALEN dev_addr) k3 of None \<Rightarrow> None
           | Some k4 \<Rightarrow>
             (case get_mac (net_env.truncate env) (in_aton env GATE_IP) k4 (mac_state.truncate s1) of
                (err, d, k5, m) \<Rightarrow> let s2 = with_mac m s1 in
                  if err \<noteq> 1 then Some (err, k5, kfree_skb k5 s2)
                  else case d of None \<Rightarrow> None
                    | Some mac \<Rightarrow> map_option (\<lambda>k6. (0, k6, s2)) (put (mac_header k5) mac k5))))"

definition minit :: "gen_env \<Rightarrow> gen_state \<Rightarrow> (int \<times> gen_state) option" where
  "minit env s =
     (case alloc_set_skb (alloc_mem env) of None \<Rightarrow> Some (- 1, s)
      | Some k \<Rightarrow> let s0 = s\<lparr>skbs := skbs s + 1\<rparr> in
       (case copy_md5sum k of None \<Rightarrow> None
        | Some (err, k1) \<Rightarrow> if err \<noteq> 0 then Some (err, kfree_skb k1 s0) else
       (case build_tcphdr k1 of None \<Rightarrow> None
        | Some (err, k2) \<Rightarrow> if err \<noteq> 0 then Some (err, kfree_skb k2 s0) else
       (case build_iphdr (in_aton env) k2 of None \<Rightarrow> None
        | Some (err, k3) \<Rightarrow> if err \<noteq> 0 then Some (err, kfree_skb k3 s0) else
       (case skbcsum (csum_fns env) (network_header k3) (k3\<lparr>ip_summed := CHECKSUM_NONE\<rparr>) of None \<Rightarrow> None
        | Some k4 \<Rightarrow>
       (case build_ethhdr env k4 s0 of None \<Rightarrow> None
        | Some (err, k5, s1) \<Rightarrow> if err \<noteq> 0 then Some (err, s1) else Some (dev_queue_xmit env k5 s1)))))))"

section \<open>Building outwards\<close>

text \<open>\<open>built m k bs\<close>: the buffer holds \<open>bs\<close>, and below its data the memory is still \<open>m\<close>.\<close>

definition built :: "byte list \<Rightarrow> skb \<Rightarrow> byte list \<Rightarrow> bool" where
  "built m k bs \<longleftrightarrow> skb_ok k \<and> take (sk_data k) (sk_mem k) = take (sk_data k) m \<and> skb_bytes k = bs"

lemma built_push:
  assumes "built m k bs" "n \<le> sk_data k"
  shows "skb_push n k = Some (k\<lparr>sk_data := sk_data k - n\<rparr>)"
    and "built m (k\<lparr>sk_data := sk_data k - n\<rparr>) (take n (drop (sk_data k - n) m) @ bs)"
proof -
  let ?d = "sk_data k" and ?mem = "sk_mem k"
  have ok: "skb_ok k" and low: "take ?d ?mem = take ?d m" and bs: "skb_bytes k = bs"
    using assms by (simp_all add: built_def)
  have "take (sk_tail k - (?d - n)) (drop (?d - n) ?mem) = take n (drop (?d - n) ?mem) @ take (sk_tail k - ?d) (drop ?d ?mem)"
    using ok assms(2) take_add [of n "sk_tail k - ?d" "drop (?d - n) ?mem"] by (simp add: skb_ok_def add.commute)
  moreover have "take n (drop (?d - n) ?mem) = take n (drop (?d - n) m)"
    using arg_cong [OF low, of "drop (?d - n)"] assms(2) by (simp add: drop_take)
  ultimately have "skb_bytes (k\<lparr>sk_data := ?d - n\<rparr>) = take n (drop (?d - n) m) @ bs"
    using bs by (simp add: skb_bytes_def skb_len_def)
  moreover have "take (?d - n) ?mem = take (?d - n) m"
    using arg_cong [OF low, of "take (?d - n)"] by (simp add: min.absorb1)
  ultimately show "built m (k\<lparr>sk_data := ?d - n\<rparr>) (take n (drop (?d - n) m) @ bs)"
    using ok assms(2) by (auto simp: built_def skb_ok_def)
qed (use assms(2) in \<open>simp add: skb_push_def\<close>)

lemma built_put:
  assumes "built m k bs" "off + length v \<le> length bs" "d = sk_data k + off"
  shows "\<exists>mem. put d v k = Some (k\<lparr>sk_mem := mem\<rparr>) \<and> built m (k\<lparr>sk_mem := mem\<rparr>) (patch off v bs)"
proof -
  have k: "skb_ok k" "off + length v \<le> skb_len k" using assms(1,2) length_skb_bytes by (auto simp: built_def)
  then have "take (sk_data k) (patch d v (sk_mem k)) = take (sk_data k) (sk_mem k)"
    using assms(3) by (intro take_patch_over) (auto simp: skb_ok_def skb_len_def)
  with put_data [OF k] assms show ?thesis by (auto simp: built_def)
qed

lemma built_put_fields:
  assumes "built m k bs" "d = sk_data k" "\<forall>(off, v) \<in> set fs. off + length v \<le> length bs"
  shows "\<exists>mem. put_fields d fs k = Some (k\<lparr>sk_mem := mem\<rparr>)
     \<and> built m (k\<lparr>sk_mem := mem\<rparr>) (fold (\<lambda>(off, v). patch off v) fs bs)"
  using assms
proof (induction fs arbitrary: k bs)
  case Nil
  then show ?case by (auto intro!: exI [of _ "sk_mem k"])
next
  case (Cons f fs)
  obtain off v where f: "f = (off, v)" by (cases f)
  with Cons.prems have off: "off + length v \<le> length bs" by simp
  from built_put [OF Cons.prems(1) off] Cons.prems(2) obtain mem
    where put: "put (d + off) v k = Some (k\<lparr>sk_mem := mem\<rparr>)" "built m (k\<lparr>sk_mem := mem\<rparr>) (patch off v bs)" by auto
  have "\<exists>mem'. put_fields d fs (k\<lparr>sk_mem := mem\<rparr>) = Some (k\<lparr>sk_mem := mem, sk_mem := mem'\<rparr>)
      \<and> built m (k\<lparr>sk_mem := mem, sk_mem := mem'\<rparr>) (fold (\<lambda>(off, v). patch off v) fs (patch off v bs))"
    using Cons.prems off by (intro Cons.IH put(2)) (auto simp: f length_patch)
  then show ?case by (auto simp: f put(1))
qed

section \<open>The bytes\<close>

definition tcp_header :: "byte list" where
  "tcp_header = [26, 224, 26, 224, 0, 0, 0, 123, 0, 0, 0, 0, 80, 1, 2, 48, 0, 0, 0, 0]"

text \<open>The IP header as built: identification and checksum (\<open>i\<close>, \<open>c\<close>) are what the memory held.\<close>

definition ip_header :: "(string \<Rightarrow> u32) \<Rightarrow> byte list \<Rightarrow> byte list \<Rightarrow> byte list" where
  "ip_header aton i c = [69, 20, 0, 56] @ i @ [64, 0, 64, 6] @ c @ be32 (aton SOU_IP) @ be32 (aton DST_IP)"

lemma length_20:
  assumes "length xs = 20"
  obtains x0 x1 x2 x3 x4 x5 x6 x7 x8 x9 x10 x11 x12 x13 x14 x15 x16 x17 x18 x19
  where "xs = [x0, x1, x2, x3, x4, x5, x6, x7, x8, x9, x10, x11, x12, x13, x14, x15, x16, x17, x18, x19]"
  using assms by (auto simp: length_Suc_conv eval_nat_numeral)

lemmas header_consts = SOURCE_def DEST_def TCPCB_FLAG_FIN_def IP_DF_def IPPROTO_TCP_def RT_TOS_def

lemma tcp_fields_bytes:
  assumes "length xs = 20"
  shows "fold (\<lambda>(off, v). patch off v) tcp_fields (xs @ bs) = tcp_header @ bs"
proof -
  from assms obtain x0 x1 x2 x3 x4 x5 x6 x7 x8 x9 x10 x11 x12 x13 x14 x15 x16 x17 x18 x19
    where "xs = [x0, x1, x2, x3, x4, x5, x6, x7, x8, x9, x10, x11, x12, x13, x14, x15, x16, x17, x18, x19]"
    by (rule length_20)
  then show ?thesis by (simp add: tcp_fields_def tcp_header_def patch_def be16_def be32_def header_consts)
qed

lemma ip_fields_bytes:
  assumes "length xs = 20"
  shows "fold (\<lambda>(off, v). patch off v) (ip_fields aton 56) (xs @ bs) =
    ip_header aton [xs ! 4, xs ! 5] [xs ! 10, xs ! 11] @ bs"
proof -
  from assms obtain x0 x1 x2 x3 x4 x5 x6 x7 x8 x9 x10 x11 x12 x13 x14 x15 x16 x17 x18 x19
    where "xs = [x0, x1, x2, x3, x4, x5, x6, x7, x8, x9, x10, x11, x12, x13, x14, x15, x16, x17, x18, x19]"
    by (rule length_20)
  then show ?thesis by (simp add: ip_fields_def ip_header_def patch_def be16_def be32_def header_consts)
qed

lemma built_field [simp]: "built m (k\<lparr>transport_header := x\<rparr>) bs = built m k bs"
  "built m (k\<lparr>network_header := x\<rparr>) bs = built m k bs" "built m (k\<lparr>mac_header := x\<rparr>) bs = built m k bs"
  "built m (k\<lparr>ip_summed := y\<rparr>) bs = built m k bs" "built m (k\<lparr>sk_dst := b\<rparr>) bs = built m k bs"
  "built m (k\<lparr>sk_dev := a, pkt_type := y, local_df := b, sk_protocol := z\<rparr>) bs = built m k bs"
  by (simp_all add: built_def skb_ok_def skb_bytes_def skb_len_def)

text \<open>The contents of the buffer after the payload, the TCP header and the IP header.\<close>

lemma skb_size_72: "skb_size = 72"
  by (simp add: skb_size_def ALIGN_def MD5LEN_def)

lemma md5_built:
  assumes "alloc_set_skb (Some m) = Some k" "skb_size + MD5LEN \<le> length m"
  obtains k1 where "copy_md5sum k = Some (0, k1)" "built m k1 md5_result" "sk_data k1 = 56" "sk_tail k1 = 72" "\<not> sk_dst k1"
proof -
  have len: "88 \<le> length m" using assms(2) by (simp add: skb_size_72 MD5LEN_def)
  have k: "k = skb_reserve 72 (alloc_skb m)" using assms(1) by (simp add: alloc_set_skb_def skb_size_72)
  have b0: "built m k []" "sk_data k = 72"
    using len by (simp_all add: k skb_reserve_def alloc_skb_def built_def skb_ok_def skb_bytes_def skb_len_def)
  note push = built_push [OF b0(1), of MD5LEN]
  from built_put [OF push(2), of 0 md5_result "sk_data k - MD5LEN"] obtain m1
    where "put 56 md5_result (k\<lparr>sk_data := 56\<rparr>) = Some (k\<lparr>sk_data := 56, sk_mem := m1\<rparr>)"
      "built m (k\<lparr>sk_data := 56, sk_mem := m1\<rparr>) md5_result"
    using len b0(2) by (auto simp: MD5LEN_def md5_result_def patch_def)
  moreover define k1 where "k1 = k\<lparr>sk_data := 56, sk_mem := m1\<rparr>"
  ultimately have "copy_md5sum k = Some (0, k1)" "built m k1 md5_result"
    using push(1) len b0(2)
    by (simp_all add: copy_md5sum_def MD5LEN_def skb_tailroom_def) (simp add: k skb_reserve_def alloc_skb_def)
  then show thesis by (rule that) (simp_all add: k1_def k skb_reserve_def alloc_skb_def)
qed

lemma tcphdr_built:
  assumes "built m k md5_result" "sk_data k = 56" "56 \<le> length m"
  obtains k' where "build_tcphdr k = Some (0, k')" "built m k' (tcp_header @ md5_result)"
    "sk_data k' = 36" "sk_tail k' = sk_tail k" "sk_dst k' = sk_dst k"
proof -
  define k1 where "k1 = k\<lparr>sk_data := 36, transport_header := 36\<rparr>"
  have push: "skb_push 20 k = Some (k\<lparr>sk_data := 36\<rparr>)" "built m k1 (take 20 (drop 36 m) @ md5_result)"
    using built_push [OF assms(1), of 20] assms(2) by (simp_all add: k1_def)
  obtain m2 where "put_fields 36 tcp_fields k1 = Some (k1\<lparr>sk_mem := m2\<rparr>)"
      "built m (k1\<lparr>sk_mem := m2\<rparr>) (fold (\<lambda>(off, v). patch off v) tcp_fields (take 20 (drop 36 m) @ md5_result))"
    using built_put_fields [OF push(2), of 36 tcp_fields] assms(3) by (auto simp: k1_def tcp_fields_def)
  then show thesis
    using that [of "k1\<lparr>sk_mem := m2\<rparr>"] push(1) assms(3) tcp_fields_bytes [of "take 20 (drop 36 m)" md5_result]
    by (simp add: build_tcphdr_def ALIGN_def k1_def)
qed

lemma iphdr_built:
  assumes "built m k (tcp_header @ md5_result)" "sk_data k = 36" "sk_tail k = 72" "36 \<le> length m"
  obtains k' where "build_iphdr aton k = Some (0, k')"
    "built m k' (ip_header aton [m ! 20, m ! 21] [m ! 26, m ! 27] @ tcp_header @ md5_result)"
    "sk_data k' = 16" "network_header k' = 16" "sk_dst k' = sk_dst k"
proof -
  define k1 where "k1 = k\<lparr>sk_data := 16, network_header := 16\<rparr>"
  have push: "skb_push 20 k = Some (k\<lparr>sk_data := 16\<rparr>)" "built m k1 (take 20 (drop 16 m) @ tcp_header @ md5_result)"
    using built_push [OF assms(1), of 20] assms(2) by (simp_all add: k1_def)
  have len: "skb_len k1 = 56" using assms(3) by (simp add: k1_def skb_len_def)
  obtain m3 where "put_fields 16 (ip_fields aton 56) k1 = Some (k1\<lparr>sk_mem := m3\<rparr>)"
      "built m (k1\<lparr>sk_mem := m3\<rparr>)
        (fold (\<lambda>(off, v). patch off v) (ip_fields aton 56) (take 20 (drop 16 m) @ tcp_header @ md5_result))"
    using built_put_fields [OF push(2), of 16 "ip_fields aton 56"] assms(4) by (auto simp: k1_def ip_fields_def)
  then show thesis
    using that [of "k1\<lparr>sk_mem := m3\<rparr>"] push(1) assms(4) len
      ip_fields_bytes [of "take 20 (drop 16 m)" aton "tcp_header @ md5_result"]
    by (simp add: build_iphdr_def k1_def)
qed

text \<open>The packet with its checksums.\<close>

definition packet :: "(string \<Rightarrow> u32) \<Rightarrow> byte list \<Rightarrow> nat \<Rightarrow> nat \<Rightarrow> byte list" where
  "packet aton i v w = ip_header aton i (be16 v) @ patch 16 (be16 w) tcp_header @ md5_result"

lemma packet_patch:
  "length i = 2 \<Longrightarrow> length c = 2 \<Longrightarrow>
   patch 36 (be16 w) (patch 10 (be16 v) (ip_header aton i c @ tcp_header @ md5_result)) = packet aton i v w"
  by (auto simp: packet_def ip_header_def tcp_header_def md5_result_def be16_def be32_def patch_def
      length_Suc_conv numeral_2_eq_2)

lemma packet_csum:
  assumes "csum_laws c" "built m k (ip_header aton [m ! 20, m ! 21] cs @ tcp_header @ md5_result)" "length cs = 2"
    and "sk_data k = 16" "ip_summed k = CHECKSUM_NONE"
  obtains k' v w where "skbcsum c 16 k = Some k'" "built m k' (packet aton [m ! 20, m ! 21] v w)"
    "sk_data k' = 16" "sk_dst k' = sk_dst k" "ip_csum_ok (packet aton [m ! 20, m ! 21] v w)"
    "tcp_csum_ok (packet aton [m ! 20, m ! 21] v w)"
proof -
  let ?p = "ip_header aton [m ! 20, m ! 21] cs @ tcp_header @ md5_result"
  have b: "skb_ok k" "skb_bytes k = ?p" "take 16 (sk_mem k) = take 16 m"
    using assms(2,4) by (simp_all add: built_def)
  obtain c1 c2 where cs: "cs = [c1, c2]" using assms(3) by (auto simp: length_Suc_conv numeral_2_eq_2)
  have ihl: "ihl_of ?p 0 = 5" by (simp add: ihl_of_def ip_header_def)
  have shape: "packet_shaped ?p"
    by (simp add: packet_shaped_def ihl) (simp add: cs ip_header_def tcp_header_def md5_result_def rd16_def)
  from skbcsum_run [OF assms(1) b(1), unfolded b(2), OF shape] assms(4,5) obtain v w mem s
    where run: "skbcsum c 16 k = Some (k\<lparr>sk_csum := s, sk_mem := mem\<rparr>)" "skb_ok (k\<lparr>sk_csum := s, sk_mem := mem\<rparr>)"
      "take 16 mem = take 16 (sk_mem k)" "skb_bytes (k\<lparr>sk_csum := s, sk_mem := mem\<rparr>) = patch 36 (be16 w) (patch 10 (be16 v) ?p)"
      "ip_csum_ok (patch 36 (be16 w) (patch 10 (be16 v) ?p))" "tcp_csum_ok (patch 36 (be16 w) (patch 10 (be16 v) ?p))"
    by (auto simp: ihl CHECKSUM_NONE_def CHECKSUM_PARTIAL_def)
  have eq: "patch 36 (be16 w) (patch 10 (be16 v) ?p) = packet aton [m ! 20, m ! 21] v w"
    by (rule packet_patch) (simp_all add: assms(3))
  have bt: "built m (k\<lparr>sk_csum := s, sk_mem := mem\<rparr>) (packet aton [m ! 20, m ! 21] v w)"
    using run(2-4) b(3) assms(4) by (simp add: built_def eq)
  show thesis using run(5,6) assms(4) by (intro that [OF run(1) bt]) (simp_all add: eq)
qed

section \<open>Loading the module\<close>

text \<open>What \<open>minit\<close> has done when it comes to the link layer.\<close>

lemma minit_to_link:
  assumes "csum_laws (csum_fns env)" "alloc_mem env = Some m" "skb_size + MD5LEN \<le> length m"
  obtains k v w where "built m k (packet (in_aton env) [m ! 20, m ! 21] v w)" "sk_data k = 16" "\<not> sk_dst k"
    "ip_csum_ok (packet (in_aton env) [m ! 20, m ! 21] v w)" "tcp_csum_ok (packet (in_aton env) [m ! 20, m ! 21] v w)"
    "\<forall>s. minit env s = (case build_ethhdr env k (s\<lparr>skbs := skbs s + 1\<rparr>) of None \<Rightarrow> None
        | Some (err, k5, s1) \<Rightarrow> if err \<noteq> 0 then Some (err, s1) else Some (dev_queue_xmit env k5 s1))"
proof -
  have len: "88 \<le> length m" using assms(3) by (simp add: skb_size_72 MD5LEN_def)
  obtain k where k: "alloc_set_skb (Some m) = Some k" by (simp add: alloc_set_skb_def)
  obtain k1 where k1: "copy_md5sum k = Some (0, k1)" "built m k1 md5_result" "sk_data k1 = 56" "sk_tail k1 = 72" "\<not> sk_dst k1"
    by (rule md5_built [OF k assms(3)])
  obtain k2 where k2: "build_tcphdr k1 = Some (0, k2)" "built m k2 (tcp_header @ md5_result)"
    "sk_data k2 = 36" "sk_tail k2 = 72" "\<not> sk_dst k2"
    by (rule tcphdr_built [OF k1(2,3)]) (use len k1(4,5) in auto)
  obtain k3 where k3: "build_iphdr (in_aton env) k2 = Some (0, k3)"
    "built m k3 (ip_header (in_aton env) [m ! 20, m ! 21] [m ! 26, m ! 27] @ tcp_header @ md5_result)"
    "sk_data k3 = 16" "network_header k3 = 16" "\<not> sk_dst k3"
    by (rule iphdr_built [OF k2(2-4)]) (use len k2(5) in auto)
  obtain k4 v w where "skbcsum (csum_fns env) 16 (k3\<lparr>ip_summed := CHECKSUM_NONE\<rparr>) = Some k4"
    and k4: "built m k4 (packet (in_aton env) [m ! 20, m ! 21] v w)" "sk_data k4 = 16" "\<not> sk_dst k4"
      "ip_csum_ok (packet (in_aton env) [m ! 20, m ! 21] v w)" "tcp_csum_ok (packet (in_aton env) [m ! 20, m ! 21] v w)"
    by (rule packet_csum [OF assms(1), of m "k3\<lparr>ip_summed := CHECKSUM_NONE\<rparr>"]) (use k3 in auto)
  then show thesis using that [OF k4] by (simp add: minit_def assms(2) k k1(1) k2(1) k3(1,4))
qed

text \<open>The resolution of the gateway from a state of the module.\<close>

definition gateway :: "gen_env \<Rightarrow> gen_state \<Rightarrow> int \<times> byte list option \<times> bool \<times> mac_state" where
  "gateway env s = resolve (net_env.truncate env) (in_aton env GATE_IP) (mac_state.truncate s)"

lemma gateway_dev [simp]: "gateway env (s\<lparr>dev_refs := n\<rparr>) = gateway env s" "gateway env (s\<lparr>skbs := n\<rparr>) = gateway env s"
  by (simp_all add: gateway_def mac_state.defs)

text \<open>The link layer: the frame, or why there is none.\<close>

lemma ethhdr_built:
  assumes b: "built m k bs" and k: "sk_data k = 16" "\<not> sk_dst k" and m: "16 \<le> length m"
    and dev: "eth0 env = Some a" "length a = ETH_ALEN" and g: "gateway env s = (r, d, dst, t)"
  shows "r \<noteq> 1 \<Longrightarrow> \<exists>k'. build_ethhdr env k s = Some (r, k', kfree_skb k' (with_mac t (s\<lparr>dev_refs := dev_refs s + 1\<rparr>))) \<and> \<not> sk_dst k'"
    and "d = Some mac \<Longrightarrow> length mac = ETH_ALEN \<Longrightarrow>
      \<exists>k'. build_ethhdr env k s = Some (0, k', with_mac t (s\<lparr>dev_refs := dev_refs s + 1\<rparr>))
        \<and> sk_dst k' = dst \<and> built m k' (mac @ a @ [m ! 14, m ! 15] @ bs)"
proof -
  define k1 where "k1 = k\<lparr>sk_dev := True, pkt_type := PACKET_OUTGOING, local_df := True, sk_protocol := ETH_P_IP,
      sk_data := 2, mac_header := 2\<rparr>"
  have b1: "built m k1 (take 14 (drop 2 m) @ bs)" "skb_push 14 (k\<lparr>sk_dev := True, pkt_type := PACKET_OUTGOING,
      local_df := True, sk_protocol := ETH_P_IP\<rparr>) = Some (k\<lparr>sk_dev := True, pkt_type := PACKET_OUTGOING,
      local_df := True, sk_protocol := ETH_P_IP, sk_data := 2\<rparr>)"
    using built_push [of m "k\<lparr>sk_dev := True, pkt_type := PACKET_OUTGOING, local_df := True, sk_protocol := ETH_P_IP\<rparr>" bs 14]
      b k(1) by (simp_all add: k1_def)
  have "\<exists>mem. put (2 + 6) a k1 = Some (k1\<lparr>sk_mem := mem\<rparr>)
      \<and> built m (k1\<lparr>sk_mem := mem\<rparr>) (patch 6 a (take 14 (drop 2 m) @ bs))"
    using dev(2) m by (intro built_put [OF b1(1)]) (simp_all add: k1_def ETH_ALEN_def)
  then obtain m1 where p: "put 8 a k1 = Some (k1\<lparr>sk_mem := m1\<rparr>)"
      "built m (k1\<lparr>sk_mem := m1\<rparr>) (patch 6 a (take 14 (drop 2 m) @ bs))" by auto
  define k2 where "k2 = k1\<lparr>sk_mem := m1, sk_dst := dst\<rparr>"
  let ?s = "with_mac t (s\<lparr>dev_refs := dev_refs s + 1\<rparr>)"
  have "get_mac (net_env.truncate env) (in_aton env GATE_IP) (k1\<lparr>sk_mem := m1\<rparr>)
      (mac_state.truncate (s\<lparr>dev_refs := dev_refs s + 1\<rparr>)) = (r, d, k2, t)"
    using g k(2) by (subst get_mac_resolve) (simp_all add: gateway_def k1_def k2_def mac_state.defs)
  then have run: "build_ethhdr env k s = (if r \<noteq> 1 then Some (r, k2, kfree_skb k2 ?s)
      else case d of None \<Rightarrow> None | Some mac \<Rightarrow> map_option (\<lambda>k6. (0, k6, ?s)) (put 2 mac k2))"
    using b1(2) p(1) dev by (simp add: build_ethhdr_def ETH_HLEN_def k1_def k2_def ETH_ALEN_def Let_def split: option.split)
  note refs = resolve_refs [OF g [unfolded gateway_def]]
  show "\<exists>k'. build_ethhdr env k s = Some (r, k', kfree_skb k' ?s) \<and> \<not> sk_dst k'" if "r \<noteq> 1"
    using run refs(4) that by (auto simp: k2_def)
  show "\<exists>k'. build_ethhdr env k s = Some (0, k', ?s) \<and> sk_dst k' = dst \<and> built m k' (mac @ a @ [m ! 14, m ! 15] @ bs)"
    if mac: "d = Some mac" "length mac = ETH_ALEN"
  proof -
    have "\<exists>mem. put 2 mac k2 = Some (k2\<lparr>sk_mem := mem\<rparr>)
        \<and> built m (k2\<lparr>sk_mem := mem\<rparr>) (patch 0 mac (patch 6 a (take 14 (drop 2 m) @ bs)))"
      using p(2) m mac(2) dev(2) by (intro built_put) (simp_all add: k2_def k1_def ETH_ALEN_def length_patch)
    moreover have "patch 0 mac (patch 6 a (take 14 (drop 2 m) @ bs)) = mac @ a @ [m ! 14, m ! 15] @ bs"
      using mac(2) dev(2) m by (simp add: patch_def ETH_ALEN_def drop_take take_Suc_conv_app_nth numeral_2_eq_2 hd_drop_conv_nth)
    ultimately show ?thesis using run refs(3) mac(1) by (auto simp: k2_def)
  qed
qed

text \<open>
  A successful run sends one frame: the resolved address, the address of the device, an IP packet
  with valid IP and TCP checksums and the payload. Two fields are never written: the type of the
  frame and the identification of the IP packet are what the memory of the buffer held.
\<close>

theorem generated_frame:
  assumes "csum_laws (csum_fns env)" "alloc_mem env = Some m" "skb_size + MD5LEN \<le> length m"
    and "eth0 env = Some a" "length a = ETH_ALEN" "gateway env s = (r, Some mac, dst, t)" "length mac = ETH_ALEN"
  shows "\<exists>p v w s'. minit env s = Some (xmit_result env, s')
    \<and> sent s' = sent s @ [mac @ a @ [m ! 14, m ! 15] @ p]
    \<and> p = packet (in_aton env) [m ! 20, m ! 21] v w \<and> ip_csum_ok p \<and> tcp_csum_ok p"
proof -
  obtain k v w where k: "built m k (packet (in_aton env) [m ! 20, m ! 21] v w)" "sk_data k = 16" "\<not> sk_dst k"
    and ok: "ip_csum_ok (packet (in_aton env) [m ! 20, m ! 21] v w)" "tcp_csum_ok (packet (in_aton env) [m ! 20, m ! 21] v w)"
    and run: "\<forall>s. minit env s = (case build_ethhdr env k (s\<lparr>skbs := skbs s + 1\<rparr>) of None \<Rightarrow> None
        | Some (err, k5, s1) \<Rightarrow> if err \<noteq> 0 then Some (err, s1) else Some (dev_queue_xmit env k5 s1))"
    by (rule minit_to_link [OF assms(1-3)])
  have "16 \<le> length m" using assms(3) by (simp add: skb_size_72)
  then obtain k' where "build_ethhdr env k (s\<lparr>skbs := skbs s + 1\<rparr>) =
        Some (0, k', with_mac t (s\<lparr>skbs := skbs s + 1, dev_refs := dev_refs s + 1\<rparr>))"
      "built m k' (mac @ a @ [m ! 14, m ! 15] @ packet (in_aton env) [m ! 20, m ! 21] v w)"
    using ethhdr_built(2) [OF k _ assms(4,5), of "s\<lparr>skbs := skbs s + 1\<rparr>" r "Some mac" dst t] assms(6,7) by auto
  then show ?thesis using ok run by (auto simp: dev_queue_xmit_def with_mac_def kfree_skb_def built_def)
qed

text \<open>
  (C15) Whatever the kernel answers, \<open>minit\<close> completes, and this is what it leaves behind. Without the
  device the buffer is leaked. The reference on the device is never given back. All else is
  balanced: no route, no neighbour and no other buffer stays taken.
\<close>

theorem minit_accounts:
  assumes "csum_laws (csum_fns env)" "\<forall>m. alloc_mem env = Some m \<longrightarrow> skb_size \<le> length m"
    and "\<forall>a. eth0 env = Some a \<longrightarrow> length a = ETH_ALEN"
    and "\<forall>r mac dst t. gateway env s = (r, Some mac, dst, t) \<longrightarrow> length mac = ETH_ALEN"
  shows "\<exists>err s' leak dev. minit env s = Some (err, s') \<and> rt_refs s' = rt_refs s \<and> neigh_refs s' = neigh_refs s
    \<and> skbs s' = skbs s + leak \<and> dev_refs s' = dev_refs s + dev
    \<and> leak = (if (\<exists>m. alloc_mem env = Some m \<and> skb_size + MD5LEN \<le> length m) \<and> eth0 env = None then 1 else 0)
    \<and> dev = (if (\<exists>m. alloc_mem env = Some m \<and> skb_size + MD5LEN \<le> length m) \<and> eth0 env \<noteq> None then 1 else 0)"
proof (cases "\<exists>m. alloc_mem env = Some m \<and> skb_size + MD5LEN \<le> length m")
  case False
  then show ?thesis
  proof (cases "alloc_mem env")
    case (Some m)
    with False assms(2) have "skb_size \<le> length m" "length m < skb_size + MD5LEN" by auto
    then show ?thesis using Some False
      by (simp add: minit_def alloc_set_skb_def copy_md5sum_def skb_tailroom_def skb_reserve_def alloc_skb_def
          kfree_skb_def less_diff_conv2 add.commute)
  qed (simp add: minit_def alloc_set_skb_def)
next
  case True
  then obtain m where m: "alloc_mem env = Some m" "skb_size + MD5LEN \<le> length m" by blast
  obtain k v w where k: "built m k (packet (in_aton env) [m ! 20, m ! 21] v w)" "sk_data k = 16" "\<not> sk_dst k"
    and run: "\<forall>s. minit env s = (case build_ethhdr env k (s\<lparr>skbs := skbs s + 1\<rparr>) of None \<Rightarrow> None
        | Some (err, k5, s1) \<Rightarrow> if err \<noteq> 0 then Some (err, s1) else Some (dev_queue_xmit env k5 s1))"
    by (rule minit_to_link [OF assms(1) m]) blast
  show ?thesis
  proof (cases "eth0 env")
    case None
    then show ?thesis using True run by (simp add: build_ethhdr_def)
  next
    case (Some a)
    have len: "16 \<le> length m" "length a = ETH_ALEN" using m(2) assms(3) Some by (simp_all add: skb_size_72)
    obtain r d dst t where g: "gateway env s = (r, d, dst, t)" by (metis prod_cases4)
    note refs = resolve_refs [OF g [unfolded gateway_def]]
    note eth = ethhdr_built [OF k len(1) Some len(2), of "s\<lparr>skbs := skbs s + 1\<rparr>" r d dst t]
    show ?thesis
    proof (cases d)
      case None
      then have "r \<noteq> 1" using refs(3) by simp
      with eth(1) g obtain k' where "build_ethhdr env k (s\<lparr>skbs := skbs s + 1\<rparr>) =
          Some (r, k', kfree_skb k' (with_mac t (s\<lparr>skbs := skbs s + 1, dev_refs := dev_refs s + 1\<rparr>)))" "\<not> sk_dst k'" by auto
      then show ?thesis using refs \<open>r \<noteq> 1\<close> run True Some
        by (simp add: kfree_skb_def with_mac_def mac_state.defs)
    next
      case d: (Some mac)
      with eth(2) g assms(4) obtain k' where "build_ethhdr env k (s\<lparr>skbs := skbs s + 1\<rparr>) =
          Some (0, k', with_mac t (s\<lparr>skbs := skbs s + 1, dev_refs := dev_refs s + 1\<rparr>))" "sk_dst k' = dst" by auto
      then show ?thesis using refs run True Some
        by (simp add: dev_queue_xmit_def kfree_skb_def with_mac_def mac_state.defs)
    qed
  qed
qed

end
