(* ===== verification/Receive_Tcp.thy ===== *)
theory Receive_Tcp
  imports Build_Tcp
begin

text \<open>
  The counterpart of the generator, \<open>receive_tcp/main.c\<close>: a netfilter hook that recognises the
  packets by their ports, prints a payload of 16 bytes and drops them. A packet is the list of
  bytes from its IP header on; reading outside it has no result.
\<close>

definition NF_DROP :: nat where "NF_DROP = 0"
definition NF_ACCEPT :: nat where "NF_ACCEPT = 1"

definition be16_at :: "byte list \<Rightarrow> nat \<Rightarrow> nat option" where
  "be16_at p i = (case (byte_at p i, byte_at p (i + 1)) of (Some a, Some b) \<Rightarrow> Some (a * 256 + b) | _ \<Rightarrow> None)"

text \<open>The verdict and the bytes printed. The length of the payload is a \<open>size_t\<close>: it wraps.\<close>

definition rx_nf_in :: "byte list \<Rightarrow> (nat \<times> byte list) option" where
  "rx_nf_in p =
     (case byte_at p 9 of None \<Rightarrow> None
      | Some protocol \<Rightarrow>
        if protocol \<noteq> IPPROTO_TCP then Some (NF_ACCEPT, [])
        else case ip_ihl p of None \<Rightarrow> None
        | Some ihl \<Rightarrow>
          (case (be16_at p ihl, be16_at p (ihl + 2)) of
             (Some sport, Some dport) \<Rightarrow>
               if sport = 6880 \<and> dport = 6880 then
                 (case (tcp_doff p ihl, ip_tot_len p) of
                    (Some doff, Some tot_len) \<Rightarrow>
                      let len = word_of_int (int tot_len - int ihl - int doff) :: u64 in
                      if len = 16 then
                        (if ihl + doff + 16 \<le> length p then Some (NF_DROP, take 16 (drop (ihl + doff) p)) else None)
                      else Some (NF_DROP, [])
                  | _ \<Rightarrow> None)
               else Some (NF_ACCEPT, [])
           | _ \<Rightarrow> None))"

text \<open>\<open>minit\<close> of the receiver returns what registering the hook returned.\<close>

definition rx_minit :: "int \<Rightarrow> bool \<times> int" where
  "rx_minit err = (if 0 > err then (False, err) else (True, err))"

text \<open>
  On a packet that holds the headers and the payload its length fields claim, the hook completes;
  it drops exactly the TCP packets between the two ports.
\<close>

definition well_cut :: "byte list \<Rightarrow> bool" where
  "well_cut p \<longleftrightarrow> 20 \<le> length p \<and> (unat (p ! 9) = IPPROTO_TCP \<longrightarrow>
     4 * ihl_of p 0 + 20 \<le> length p \<and>
     (rd16 p 2 = 4 * ihl_of p 0 + 4 * (unat (p ! (4 * ihl_of p 0 + 12)) div 16) + 16 \<longrightarrow> rd16 p 2 \<le> length p))"

definition from_generator :: "byte list \<Rightarrow> bool" where
  "from_generator p \<longleftrightarrow> unat (p ! 9) = IPPROTO_TCP \<and> rd16 p (4 * ihl_of p 0) = SOURCE \<and> rd16 p (4 * ihl_of p 0 + 2) = DEST"

lemma payload_len_16:
  assumes "tot < 65536" "ihl \<le> 60" "doff \<le> 60"
  shows "(word_of_int (int tot - int ihl - int doff) :: u64) = 16 \<longleftrightarrow> tot = ihl + doff + 16"
proof
  let ?n = "int tot - int ihl - int doff"
  assume "(word_of_int ?n :: u64) = 16"
  then have "(word_of_int ?n :: u64) = word_of_int 16" by simp
  then have "?n mod 2 ^ 64 = 16 mod 2 ^ 64" by (simp only: word_of_int_eq_iff take_bit_eq_mod) simp
  then have d: "2 ^ 64 dvd (?n - 16)" by (simp only: mod_eq_dvd_iff)
  have "\<bar>?n - 16\<bar> < 2 ^ 64" using assms by simp
  with d have "?n - 16 = 0" by (metis abs_dvd_iff dvd_abs_iff zdvd_not_zless zero_less_abs_iff)
  then show "tot = ihl + doff + 16" by simp
qed simp

lemma rd_reads:
  "i < length p \<Longrightarrow> byte_at p i = Some (unat (p ! i))"
  "i + 1 < length p \<Longrightarrow> be16_at p i = Some (rd16 p i)"
  "0 < length p \<Longrightarrow> ip_ihl p = Some (4 * ihl_of p 0)"
  "h + 12 < length p \<Longrightarrow> tcp_doff p h = Some (4 * (unat (p ! (h + 12)) div 16))"
  "3 < length p \<Longrightarrow> ip_tot_len p = Some (rd16 p 2)"
  by (simp_all add: byte_at_def be16_at_def ip_ihl_def tcp_doff_def ip_tot_len_def ihl_of_def rd16_def)

lemma rx_nf_in_tcp:
  assumes "20 \<le> length p" "unat (p ! 9) = IPPROTO_TCP" "h = 4 * ihl_of p 0" "h + 20 \<le> length p"
    and "d = 4 * (unat (p ! (h + 12)) div 16)"
  shows "rx_nf_in p =
    (if rd16 p h = 6880 \<and> rd16 p (h + 2) = 6880 then
       if rd16 p 2 = h + d + 16 then
         if h + d + 16 \<le> length p then Some (NF_DROP, take 16 (drop (h + d) p)) else None
       else Some (NF_DROP, [])
     else Some (NF_ACCEPT, []))"
proof -
  have "unat (p ! (h + 12)) < 256" using unsigned_less [of "p ! (h + 12)", where ?'a = nat] by simp
  then have "unat (p ! (h + 12)) div 16 \<le> 15" by linarith
  moreover have "h \<le> 60" using assms(3) by (simp add: ihl_of_def)
  ultimately have "(word_of_int (int (rd16 p 2) - int h - int d) :: u64) = 16 \<longleftrightarrow> rd16 p 2 = h + d + 16"
    using rd16_less [of p 2] assms(5) by (intro payload_len_16) simp_all
  moreover have "p \<noteq> []" using assms(1) by auto
  ultimately show ?thesis
    using assms(1,2,4) by (simp add: rx_nf_in_def rd_reads Let_def flip: assms(3,5))
qed

theorem rx_verdict:
  assumes "well_cut p"
  shows "\<exists>out. rx_nf_in p = Some (if from_generator p then NF_DROP else NF_ACCEPT, out)"
proof (cases "unat (p ! 9) = IPPROTO_TCP")
  case True
  with assms show ?thesis
    by (auto simp: rx_nf_in_tcp [OF _ _ refl _ refl] well_cut_def from_generator_def SOURCE_def DEST_def)
next
  case False
  with assms show ?thesis by (simp add: rx_nf_in_def well_cut_def from_generator_def rd_reads)
qed

text \<open>A TCP packet cut off behind its IP header is read outside its bytes.\<close>

theorem rx_short_faults:
  assumes "20 \<le> length p" "unat (p ! 9) = IPPROTO_TCP" "length p \<le> 4 * ihl_of p 0"
  shows "rx_nf_in p = None"
proof -
  from assms(1) have "p \<noteq> []" by auto
  with assms show ?thesis by (simp add: rx_nf_in_def rd_reads be16_at_def byte_at_def)
qed


section \<open>A concrete run\<close>

text \<open>A kernel whose memory held ones, with a neighbour for the gateway and the checksums of RFC 1071.\<close>

definition demo_env :: gen_env where
  "demo_env = \<lparr>jiffies = 1000, xmit_itv = 30000, route_ok = (\<lambda>_. True),
     neigh_of = (\<lambda>_. Some \<lparr>nud_valid = True, ha = [2, 0, 0, 0, 0, 1]\<rparr>),
     in_aton = (\<lambda>_. 0x7f000001), csum_fns = rfc1071, alloc_mem = Some (replicate 128 1),
     eth0 = Some [2, 0, 0, 0, 0, 2], xmit_result = 0\<rparr>"

definition demo_state :: gen_state where
  "demo_state = \<lparr>mac_tab = mac_ip_table_init, rt_refs = 0, neigh_refs = 0, probes = 0, dev_refs = 0, skbs = 0, sent = []\<rparr>"

lemma demo_gateway: "gateway demo_env demo_state = (1, Some [2, 0, 0, 0, 0, 1], True,
    \<lparr>mac_tab = addup_table 30000 1000 0x7f000001 [2, 0, 0, 0, 0, 1] mac_ip_table_init, rt_refs = 1, neigh_refs = 0, probes = 0\<rparr>)"
  by (simp add: gateway_def resolve_def get_mac_def demo_env_def demo_state_def mac_ip_table_init_def MAC_IP_TAB_SIZE_def
      ETH_ALEN_def net_env.defs mac_state.defs alloc_skb_def numeral_2_eq_2)

lemmas demo_hyps = rfc1071_laws skb_size_72 MD5LEN_def ETH_ALEN_def demo_env_def


text \<open>Without the device the buffer stays.\<close>

lemma minit_accounts_witness:
  "\<exists>err s'. minit (demo_env\<lparr>eth0 := None\<rparr>) demo_state = Some (err, s') \<and> rt_refs s' = 0 \<and> neigh_refs s' = 0
    \<and> skbs s' = 1 \<and> dev_refs s' = 0"
proof -
  have same: "gateway (demo_env\<lparr>eth0 := None\<rparr>) demo_state = gateway demo_env demo_state"
    by (simp add: gateway_def net_env.defs)
  have env: "csum_fns demo_env = rfc1071" "alloc_mem demo_env = Some (replicate 128 1)" by (simp_all add: demo_env_def)
  have start: "rt_refs demo_state = 0" "neigh_refs demo_state = 0" "skbs demo_state = 0" "dev_refs demo_state = 0"
    by (simp_all add: demo_state_def)
  show ?thesis
    using minit_accounts [of "demo_env\<lparr>eth0 := None\<rparr>" demo_state]
    by (simp add: same demo_gateway env start rfc1071_laws skb_size_72 MD5LEN_def ETH_ALEN_def)
qed

end
