(* ===== verification/Unp_Io.thy ===== *)
theory Unp_Io
  imports Prelude
begin

text \<open>
  The socket library of the netlink clients (\<open>tcp_netlink/receive/client/lib\<close>: \<open>lx_sock.c\<close>,
  \<open>readline.c\<close>, \<open>str_cli.c\<close>, \<open>wrapstdio.c\<close>, \<open>error.c\<close>). The kernel's answers to the system calls are a
  script: the list of results of the calls still to come. A loop that has used up its script
  is still waiting and has no result. \<open>err_sys\<close> and \<open>err_quit\<close> end the process.
\<close>

section \<open>Wrappers that end the process on an error\<close>

datatype 'a proc = Ret 'a | Exit nat

definition err_sys :: "'a proc" where "err_sys = Exit 1"
definition err_quit :: "'a proc" where "err_quit = Exit 1"

definition Socket :: "int \<Rightarrow> int proc" where
  "Socket n = (if n < 0 then err_sys else Ret n)"

definition Sendto :: "int \<Rightarrow> nat \<Rightarrow> unit proc" where
  "Sendto n nbytes = (if n \<noteq> int nbytes then err_sys else Ret ())"

definition Inet_pton :: "int \<Rightarrow> unit proc" where
  "Inet_pton n = (if n < 0 then err_sys else if n = 0 then err_quit else Ret ())"

definition Fork :: "int \<Rightarrow> int proc" where
  "Fork pid = (if pid = - 1 then err_sys else Ret pid)"

text \<open>\<open>Listen\<close>: the environment variable \<open>LISTENQ\<close> overrides the backlog.\<close>

definition Listen :: "int option \<Rightarrow> (int \<Rightarrow> int) \<Rightarrow> int \<Rightarrow> unit proc" where
  "Listen env listen backlog =
     (let backlog' = (case env of Some v \<Rightarrow> v | None \<Rightarrow> backlog) in
      if listen backlog' < 0 then err_sys else Ret ())"

datatype acc = AFd nat | AAborted | AProto | AErr

fun Accept :: "acc list \<Rightarrow> (nat proc \<times> acc list) option" where
  "Accept [] = None"
| "Accept (AFd n # rs) = Some (Ret n, rs)"
| "Accept (AAborted # rs) = Accept rs"
| "Accept (AProto # rs) = Accept rs"
| "Accept (AErr # rs) = Some (err_sys, rs)"

section \<open>Writing all bytes\<close>

datatype wres = WOk nat | WIntr | WErr

text \<open>\<open>ps\<close> is what is left from \<open>ptr\<close> on; a call writes at most what it is given.\<close>

fun writen_loop :: "nat \<Rightarrow> byte list \<Rightarrow> wres list \<Rightarrow> byte list \<Rightarrow> (int \<times> byte list \<times> wres list) option" where
  "writen_loop n [] rs out = Some (int n, out, rs)"
| "writen_loop n (p # ps) [] out = None"
| "writen_loop n (p # ps) (WOk k # rs) out =
     (if k = 0 then Some (- 1, out, rs) else writen_loop n (drop k (p # ps)) rs (out @ take k (p # ps)))"
| "writen_loop n (p # ps) (WIntr # rs) out = writen_loop n (p # ps) rs out"
| "writen_loop n (p # ps) (WErr # rs) out = Some (- 1, out, rs)"

definition writen :: "byte list \<Rightarrow> wres list \<Rightarrow> (int \<times> byte list \<times> wres list) option" where
  "writen ps rs = writen_loop (length ps) ps rs []"

definition Writen :: "byte list \<Rightarrow> wres list \<Rightarrow> (unit proc \<times> byte list \<times> wres list) option" where
  "Writen ps rs = map_option (\<lambda>(r, out, rs'). (if r \<noteq> int (length ps) then err_sys else Ret (), out, rs')) (writen ps rs)"

text \<open>A short write is repeated from where it stopped, an interrupted one repeated, an error ends it:
  what was written is a prefix, and all of it when the count is returned.\<close>

lemma writen_loop_prefix:
  "writen_loop n ps rs out = Some (r, out', rs') \<Longrightarrow> length ps \<le> n \<Longrightarrow>
   (r = int n \<and> out' = out @ ps) \<or> (r = - 1 \<and> (\<exists>j < length ps. out' = out @ take j ps))"
proof (induction n ps rs out rule: writen_loop.induct)
  case (3 n p ps k rs out)
  show ?case
  proof (cases "k = 0")
    case False
    from 3 False have "(r = int n \<and> out' = (out @ take k (p # ps)) @ drop k (p # ps))
        \<or> (r = - 1 \<and> (\<exists>j < length (drop k (p # ps)). out' = (out @ take k (p # ps)) @ take j (drop k (p # ps))))"
      by auto
    moreover have "(take k (p # ps)) @ take j (drop k (p # ps)) = take (k + j) (p # ps)" for j by (simp only: take_add)
    ultimately show ?thesis
      by (elim disjE) (simp_all only: append_assoc append_take_drop_id, simp_all, metis less_diff_conv add.commute)
  qed (use 3 in auto)
qed auto

fun calls_needed :: "byte list \<Rightarrow> wres list \<Rightarrow> nat" where
  "calls_needed ps rs = length ps + length (filter (\<lambda>r. r = WIntr) rs)"

lemma writen_loop_ends: "calls_needed ps rs \<le> length rs \<Longrightarrow> writen_loop n ps rs out \<noteq> None"
proof (induction n ps rs out rule: writen_loop.induct)
  case (3 n p ps k rs out)
  then show ?case by auto
qed auto

text \<open>
  \<open>writen\<close> returns the count with all bytes written, or -1 with a proper prefix written; a call that
  has not returned yet has had fewer answers of \<open>write\<close> than bytes to write plus interruptions.
\<close>

theorem writen_all_or_error:
  "(\<exists>r out rs'. writen ps rs = Some (r, out, rs') \<and>
      ((r = int (length ps) \<and> out = ps) \<or> (r = - 1 \<and> (\<exists>j < length ps. out = take j ps))))
   \<or> (writen ps rs = None \<and> length rs < calls_needed ps rs)"
proof (cases "writen ps rs")
  case None
  then have "\<not> calls_needed ps rs \<le> length rs" using writen_loop_ends unfolding writen_def by blast
  with None show ?thesis by simp
next
  case (Some x)
  then show ?thesis using writen_loop_prefix [of "length ps" ps rs "[]"] by (cases x) (auto simp: writen_def)
qed

section \<open>Reading lines\<close>

definition MAXLINE :: nat where "MAXLINE = 4096"

datatype rres = RData "byte list" | REof | RIntr | RErr

record rl =
  read_cnt :: int
  read_ptr :: nat
  read_buf :: "byte list"

text \<open>The \<open>again:\<close> loop of \<open>my_read\<close>.\<close>

fun my_read_fill :: "rres list \<Rightarrow> rl \<Rightarrow> (int \<times> rl \<times> rres list) option" where
  "my_read_fill [] st = None"
| "my_read_fill (RIntr # rs) st = my_read_fill rs (st\<lparr>read_cnt := - 1\<rparr>)"
| "my_read_fill (RErr # rs) st = Some (- 1, st\<lparr>read_cnt := - 1\<rparr>, rs)"
| "my_read_fill (REof # rs) st = Some (0, st\<lparr>read_cnt := 0\<rparr>, rs)"
| "my_read_fill (RData bs # rs) st =
     Some (1, st\<lparr>read_cnt := int (length bs), read_buf := bs @ drop (length bs) (read_buf st), read_ptr := 0\<rparr>, rs)"

definition next_char :: "rl \<Rightarrow> rres list \<Rightarrow> (int \<times> byte \<times> rl \<times> rres list) option" where
  "next_char st rs =
     (if read_ptr st < length (read_buf st)
      then Some (1, read_buf st ! read_ptr st, st\<lparr>read_cnt := read_cnt st - 1, read_ptr := read_ptr st + 1\<rparr>, rs)
      else None)"

definition my_read :: "rl \<Rightarrow> rres list \<Rightarrow> (int \<times> byte \<times> rl \<times> rres list) option" where
  "my_read st rs =
     (if read_cnt st \<le> 0 then
        (case my_read_fill rs st of None \<Rightarrow> None
         | Some (rc, st', rs') \<Rightarrow> if rc = 1 then next_char st' rs' else Some (rc, 0, st', rs'))
      else next_char st rs)"

text \<open>The loop of \<open>readline\<close> with \<open>maxlen - n\<close> turns left; \<open>out\<close> is what is stored at \<open>vptr\<close>.\<close>

fun readline_loop :: "nat \<Rightarrow> nat \<Rightarrow> rl \<Rightarrow> rres list \<Rightarrow> byte list \<Rightarrow> (int \<times> byte list \<times> rl \<times> rres list) option" where
  "readline_loop 0 n st rs out = Some (int n, out @ [0], st, rs)"
| "readline_loop (Suc k) n st rs out =
     (case my_read st rs of None \<Rightarrow> None
      | Some (rc, c, st', rs') \<Rightarrow>
        if rc = 1 then
          (if c = 10 then Some (int n, out @ [c, 0], st', rs') else readline_loop k (n + 1) st' rs' (out @ [c]))
        else if rc = 0 then Some (int n - 1, out @ [0], st', rs')
        else Some (- 1, out, st', rs'))"

definition readline :: "nat \<Rightarrow> rl \<Rightarrow> rres list \<Rightarrow> (int \<times> byte list \<times> rl \<times> rres list) option" where
  "readline maxlen st rs = readline_loop (maxlen - 1) 1 st rs []"

definition readlinebuf :: "rl \<Rightarrow> int \<times> nat option" where
  "readlinebuf st = (read_cnt st, if read_cnt st \<noteq> 0 then Some (read_ptr st) else None)"

definition Readline :: "nat \<Rightarrow> rl \<Rightarrow> rres list \<Rightarrow> (int proc \<times> byte list \<times> rl \<times> rres list) option" where
  "Readline maxlen st rs =
     map_option (\<lambda>(n, out, st', rs'). (if n < 0 then err_sys else Ret n, out, st', rs')) (readline maxlen st rs)"

text \<open>
  The specification does not know about blocks: the input is one sequence of bytes, what is
  left in the buffer and then what the calls of \<open>read\<close> up to the end of the file or an error
  deliver.
\<close>

fun data_of :: "rres list \<Rightarrow> byte list" where
  "data_of [] = []"
| "data_of (RData bs # rs) = bs @ data_of rs"
| "data_of (RIntr # rs) = data_of rs"
| "data_of (REof # rs) = []"
| "data_of (RErr # rs) = []"

fun end_of :: "rres list \<Rightarrow> rres option" where
  "end_of [] = None"
| "end_of (RData bs # rs) = end_of rs"
| "end_of (RIntr # rs) = end_of rs"
| "end_of (REof # rs) = Some REof"
| "end_of (RErr # rs) = Some RErr"

definition avail :: "rl \<Rightarrow> rres list \<Rightarrow> byte list" where
  "avail st rs = take (nat (read_cnt st)) (drop (read_ptr st) (read_buf st)) @ data_of rs"

definition rl_ok :: "rl \<Rightarrow> bool" where
  "rl_ok st \<longleftrightarrow> read_cnt st \<le> 0 \<or> read_ptr st + nat (read_cnt st) \<le> length (read_buf st)"

text \<open>What \<open>read\<close> promises: data is at least one byte and fits the buffer.\<close>

definition script_ok :: "rres list \<Rightarrow> bool" where
  "script_ok rs \<longleftrightarrow> (\<forall>bs. RData bs \<in> set rs \<longrightarrow> bs \<noteq> [] \<and> length bs \<le> MAXLINE)"

fun take_line :: "nat \<Rightarrow> byte list \<Rightarrow> byte list" where
  "take_line (Suc k) (c # cs) = (if c = 10 then [c] else c # take_line k cs)"
| "take_line _ _ = []"

lemma next_char_avail:
  assumes "rl_ok st" "0 < read_cnt st"
  shows "\<exists>c st'. next_char st rs = Some (1, c, st', rs) \<and> avail st rs = c # avail st' rs \<and> rl_ok st'"
proof -
  from assms obtain k where k: "nat (read_cnt st) = Suc k" by (metis gr0_implies_Suc zero_less_nat_eq)
  have "read_ptr st < length (read_buf st)" using assms k by (simp add: rl_ok_def)
  moreover have "nat (read_cnt st - 1) = k" using k by simp
  ultimately show ?thesis
    using assms k by (auto simp: next_char_def avail_def rl_ok_def Cons_nth_drop_Suc [symmetric])
qed

lemma my_read_fill_spec:
  assumes "script_ok rs" "read_cnt st \<le> 0"
  shows "data_of rs \<noteq> [] \<Longrightarrow> \<exists>st' rs'. my_read_fill rs st = Some (1, st', rs') \<and> 0 < read_cnt st' \<and> rl_ok st'
      \<and> avail st' rs' = data_of rs \<and> script_ok rs' \<and> end_of rs' = end_of rs"
    and "data_of rs = [] \<Longrightarrow> my_read_fill rs st = (case end_of rs of None \<Rightarrow> None
      | Some r \<Rightarrow> Some (if r = REof then 0 else - 1, st\<lparr>read_cnt := if r = REof then 0 else - 1\<rparr>,
          tl (dropWhile (\<lambda>r. r = RIntr) rs)))"
  using assms
proof (induction rs st rule: my_read_fill.induct)
  case (5 bs rs st)
  { case 1
    then have "bs \<noteq> []" by (simp add: script_ok_def)
    with 1 show ?case by (auto simp: avail_def rl_ok_def script_ok_def) }
  { case 2
    then show ?case by (simp add: script_ok_def) }
qed (auto simp: script_ok_def split: option.splits)

lemma my_read_spec:
  assumes "rl_ok st" "script_ok rs"
  shows "avail st rs = c # cs \<Longrightarrow> \<exists>st' rs'. my_read st rs = Some (1, c, st', rs') \<and> avail st' rs' = cs
      \<and> rl_ok st' \<and> script_ok rs' \<and> end_of rs' = end_of rs"
    and "avail st rs = [] \<Longrightarrow> end_of rs = Some REof \<Longrightarrow> \<exists>st' rs'. my_read st rs = Some (0, 0, st', rs')
      \<and> read_cnt st' = 0"
    and "avail st rs = [] \<Longrightarrow> end_of rs = Some RErr \<Longrightarrow> \<exists>st' rs'. my_read st rs = Some (- 1, 0, st', rs')"
    and "avail st rs = [] \<Longrightarrow> end_of rs = None \<Longrightarrow> my_read st rs = None"
proof -
  have low: "data_of rs = avail st rs" if "read_cnt st \<le> 0" using that by (simp add: avail_def)
  have high: "avail st rs \<noteq> []" if "0 < read_cnt st"
    using next_char_avail [OF assms(1) that, of rs] by auto
  show "\<exists>st' rs'. my_read st rs = Some (1, c, st', rs') \<and> avail st' rs' = cs \<and> rl_ok st' \<and> script_ok rs'
      \<and> end_of rs' = end_of rs" if a: "avail st rs = c # cs"
  proof (cases "read_cnt st \<le> 0")
    case True
    then obtain st1 rs1 where f: "my_read_fill rs st = Some (1, st1, rs1)" "0 < read_cnt st1" "rl_ok st1"
        "avail st1 rs1 = c # cs" "script_ok rs1" "end_of rs1 = end_of rs"
      using my_read_fill_spec(1) [OF assms(2) True] low a by auto
    with next_char_avail [OF f(3,2), of rs1] True show ?thesis by (auto simp: my_read_def)
  next
    case False
    with next_char_avail [OF assms(1), of rs] a assms(2) show ?thesis by (auto simp: my_read_def)
  qed
  show "\<exists>st' rs'. my_read st rs = Some (0, 0, st', rs') \<and> read_cnt st' = 0" if "avail st rs = []" "end_of rs = Some REof"
    using that low high my_read_fill_spec(2) [OF assms(2), of st] by (cases "read_cnt st \<le> 0") (auto simp: my_read_def)
  show "\<exists>st' rs'. my_read st rs = Some (- 1, 0, st', rs')" if "avail st rs = []" "end_of rs = Some RErr"
    using that low high my_read_fill_spec(2) [OF assms(2), of st] by (cases "read_cnt st \<le> 0") (auto simp: my_read_def)
  show "my_read st rs = None" if "avail st rs = []" "end_of rs = None"
    using that low high my_read_fill_spec(2) [OF assms(2), of st] by (cases "read_cnt st \<le> 0") (auto simp: my_read_def)
qed

lemma length_take_line: "length (take_line k as) \<le> k"
  by (induction k as rule: take_line.induct) auto

lemma readline_loop_spec:
  assumes "rl_ok st" "script_ok rs" "l = take_line k (avail st rs)"
  shows "length l = k \<or> (l \<noteq> [] \<and> last l = 10) \<or> end_of rs = Some REof \<Longrightarrow>
      \<exists>st' rs'. readline_loop k n st rs out =
        Some (int (n + length l) - (if length l = k \<and> \<not> (l \<noteq> [] \<and> last l = 10) then 0 else 1), out @ l @ [0], st', rs')
        \<and> (length l = k \<or> (l \<noteq> [] \<and> last l = 10) \<longrightarrow> avail st' rs' = drop (length l) (avail st rs)
             \<and> rl_ok st' \<and> script_ok rs' \<and> end_of rs' = end_of rs)"
  using assms
proof (induction k arbitrary: n st rs out l)
  case (Suc k)
  show ?case
  proof (cases "avail st rs")
    case Nil
    with Suc.prems have "l = []" "end_of rs = Some REof" by auto
    with my_read_spec(2) [OF Suc.prems(2,3) Nil] show ?thesis by auto
  next
    case (Cons c cs)
    then obtain st1 rs1 where r: "my_read st rs = Some (1, c, st1, rs1)" "avail st1 rs1 = cs" "rl_ok st1" "script_ok rs1"
        "end_of rs1 = end_of rs"
      using my_read_spec(1) [OF Suc.prems(2,3)] by blast
    show ?thesis
    proof (cases "c = 10")
      case True
      with Cons r Suc.prems show ?thesis by auto
    next
      case False
      let ?l = "take_line k cs"
      have l: "l = c # ?l" using Suc.prems(4) Cons False by simp
      have "length ?l = k \<or> (?l \<noteq> [] \<and> last ?l = 10) \<or> end_of rs1 = Some REof"
        using Suc.prems(1) False r(5) by (auto simp: l split: if_splits)
      from Suc.IH [OF this r(3,4) arg_cong [OF r(2) [symmetric]], of "n + 1" "out @ [c]"]
      show ?thesis using r False Cons l by (auto split: if_splits)
    qed
  qed
qed auto

text \<open>A line that the limit ends.\<close>

definition full_line :: "nat \<Rightarrow> byte list \<Rightarrow> bool" where
  "full_line maxlen l \<longleftrightarrow> length l = maxlen - 1 \<and> \<not> (l \<noteq> [] \<and> last l = 10)"

text \<open>
  (C25) However \<open>read\<close> cuts the input into blocks, a call stores the next line of at most \<open>maxlen - 1\<close>
  bytes with a zero behind it and leaves the rest of the input; it fits \<open>maxlen\<close> bytes. The
  value returned is the number of bytes stored, but one more when the limit ends the line.
\<close>

theorem readline_spec:
  assumes "rl_ok st" "script_ok rs" "end_of rs = Some REof" "1 \<le> maxlen"
    and "l = take_line (maxlen - 1) (avail st rs)"
  shows "\<exists>st' rs'. readline maxlen st rs = Some (int (length l) + (if full_line maxlen l then 1 else 0), l @ [0], st', rs')
    \<and> length (l @ [0]) \<le> maxlen
    \<and> (full_line maxlen l \<or> (l \<noteq> [] \<and> last l = 10) \<longrightarrow>
         avail st' rs' = drop (length l) (avail st rs) \<and> rl_ok st' \<and> script_ok rs' \<and> end_of rs' = Some REof)"
proof -
  have len: "length l + 1 \<le> maxlen" using length_take_line [of "maxlen - 1" "avail st rs"] assms(4,5) by simp
  from readline_loop_spec [OF assms(1,2,5), of 1 "[]"] assms(3) obtain st' rs'
    where "readline_loop (maxlen - 1) 1 st rs [] =
        Some (int (1 + length l) - (if full_line maxlen l then 0 else 1), [] @ l @ [0], st', rs')"
      and "length l = maxlen - 1 \<or> (l \<noteq> [] \<and> last l = 10) \<longrightarrow> avail st' rs' = drop (length l) (avail st rs)
             \<and> rl_ok st' \<and> script_ok rs' \<and> end_of rs' = end_of rs"
    unfolding full_line_def by blast
  then show ?thesis using len assms(3)
    by (cases "full_line maxlen l") (simp_all add: readline_def, simp_all add: full_line_def)
qed

text \<open>Without an end of file or an error the call waits for the rest of the line; with an error it
  reports it, and the bytes read so far are lost.\<close>

lemma readline_step:
  assumes "rl_ok st" "script_ok rs" "l = take_line (Suc k) (avail st rs)" "length l < Suc k" "\<not> (l \<noteq> [] \<and> last l = 10)"
  obtains (stop) "avail st rs = []" "l = []"
  | (char) c st1 rs1 l' where "c \<noteq> 10" "my_read st rs = Some (1, c, st1, rs1)" "rl_ok st1" "script_ok rs1"
      "end_of rs1 = end_of rs" "l' = take_line k (avail st1 rs1)" "l = c # l'" "length l' < k" "\<not> (l' \<noteq> [] \<and> last l' = 10)"
proof (cases "avail st rs")
  case (Cons c cs)
  with assms have c: "c \<noteq> 10" by auto
  obtain st1 rs1 where "my_read st rs = Some (1, c, st1, rs1)" "rl_ok st1" "script_ok rs1" "end_of rs1 = end_of rs"
      "avail st1 rs1 = cs"
    using my_read_spec(1) [OF assms(1,2) Cons] by blast
  with char [OF c this(1-4) refl] Cons assms(3-5) c show thesis by (auto split: if_splits)
qed (use stop assms in simp)

lemma readline_loop_error:
  assumes "rl_ok st" "script_ok rs" "l = take_line k (avail st rs)" "length l < k" "\<not> (l \<noteq> [] \<and> last l = 10)"
  shows "(end_of rs = Some RErr \<longrightarrow> (\<exists>st' rs'. readline_loop k n st rs out = Some (- 1, out @ l, st', rs')))
    \<and> (end_of rs = None \<longrightarrow> readline_loop k n st rs out = None)"
  using assms
proof (induction k arbitrary: n st rs out l)
  case (Suc k)
  from Suc.prems show ?case
  proof (cases rule: readline_step)
    case stop
    then show ?thesis using my_read_spec(3,4) [OF Suc.prems(1,2)] by auto
  next
    case (char c st1 rs1 l')
    with Suc.IH [OF char(3,4,6,8,9), of "n + 1" "out @ [c]"] show ?thesis by auto
  qed
qed simp

theorem readline_error:
  assumes "rl_ok st" "script_ok rs" "l = take_line (maxlen - 1) (avail st rs)" "length l < maxlen - 1"
    "\<not> (l \<noteq> [] \<and> last l = 10)"
  shows "(end_of rs = Some RErr \<longrightarrow> (\<exists>st' rs'. readline maxlen st rs = Some (- 1, l, st', rs')))
    \<and> (end_of rs = None \<longrightarrow> readline maxlen st rs = None)"
  using readline_loop_error [OF assms, of 1 "[]"] by (auto simp: readline_def)

section \<open>A concrete run\<close>

definition demo_rl :: rl where
  "demo_rl = \<lparr>read_cnt = 0, read_ptr = 0, read_buf = []\<rparr>"

lemma take_line_numeral [simp]:
  "take_line (numeral k) (c # cs) = (if c = 10 then [c] else c # take_line (pred_numeral k) cs)"
  by (simp add: numeral_eq_Suc)

lemma readline_spec_witness:
  "\<exists>st' rs'. readline 8 demo_rl [RData [97, 98], RIntr, RData [10, 99], REof] = Some (3, [97, 98, 10, 0], st', rs')
    \<and> avail st' rs' = [99]"
proof -
  have l: "[97, 98, 10] = take_line (8 - 1) (avail demo_rl [RData [97, 98], RIntr, RData [10, 99], REof])"
    by (simp add: avail_def demo_rl_def)
  have "rl_ok demo_rl" "script_ok [RData [97, 98], RIntr, RData [10, 99], REof]"
    by (auto simp: rl_ok_def demo_rl_def script_ok_def MAXLINE_def)
  from readline_spec [OF this _ _ l] show ?thesis
    by (auto simp: full_line_def avail_def demo_rl_def)
qed

end
