(* ===== verification/Str_Cli.thy ===== *)
theory Str_Cli
  imports Unp_Io
begin

text \<open>
  The interactive client \<open>str_cli.c\<close>, which relays between a terminal and a socket until the
  server has closed, and the message printer of \<open>error.c\<close>. A turn of the client's loop is what
  \<open>select\<close> and the calls after it answer.
\<close>

section \<open>The relay\<close>

record turn =
  select_ok :: bool
  sock_in :: "rres option"
  tty_in :: "rres option"
  stdout_ok :: bool
  send_ok :: bool
  shutdown_ok :: bool

record cli =
  stdineof :: bool
  to_stdout :: "byte list"
  to_sock :: "byte list"
  fin_sent :: bool

datatype cli_res = Go cli | Return cli | Quit cli

text \<open>The second half of a turn: the terminal, which \<open>select\<close> is only asked about before its end.\<close>

definition tty_part :: "turn \<Rightarrow> cli \<Rightarrow> cli_res" where
  "tty_part t c =
     (if stdineof c then Go c
      else case tty_in t of None \<Rightarrow> Go c
      | Some REof \<Rightarrow> (if shutdown_ok t then Go (c\<lparr>stdineof := True, fin_sent := True\<rparr>) else Quit (c\<lparr>stdineof := True\<rparr>))
      | Some (RData bs) \<Rightarrow> (if send_ok t then Go (c\<lparr>to_sock := to_sock c @ bs\<rparr>) else Quit c)
      | Some _ \<Rightarrow> Quit c)"

definition str_cli_turn :: "turn \<Rightarrow> cli \<Rightarrow> cli_res" where
  "str_cli_turn t c =
     (if \<not> select_ok t then Quit c
      else case sock_in t of None \<Rightarrow> tty_part t c
      | Some REof \<Rightarrow> (if stdineof c then Return c else Quit c)
      | Some (RData bs) \<Rightarrow>
          (if stdout_ok t then tty_part t (c\<lparr>to_stdout := to_stdout c @ bs\<rparr>) else Quit c)
      | Some _ \<Rightarrow> Quit c)"

fun str_cli :: "turn list \<Rightarrow> cli \<Rightarrow> cli_res" where
  "str_cli [] c = Go c"
| "str_cli (t # ts) c = (case str_cli_turn t c of Go c' \<Rightarrow> str_cli ts c' | r \<Rightarrow> r)"

definition cli_start :: cli where
  "cli_start = \<lparr>stdineof = False, to_stdout = [], to_sock = [], fin_sent = False\<rparr>"

text \<open>What arrived: from the socket, and from the terminal up to its end.\<close>

fun sock_data :: "turn list \<Rightarrow> byte list" where
  "sock_data [] = []"
| "sock_data (t # ts) = (case sock_in t of Some (RData bs) \<Rightarrow> bs | _ \<Rightarrow> []) @ sock_data ts"

fun tty_data :: "turn list \<Rightarrow> byte list" where
  "tty_data [] = []"
| "tty_data (t # ts) = (case tty_in t of Some (RData bs) \<Rightarrow> bs @ tty_data ts | Some REof \<Rightarrow> [] | _ \<Rightarrow> tty_data ts)"

definition tty_ended :: "turn list \<Rightarrow> bool" where
  "tty_ended ts \<longleftrightarrow> (\<exists>t \<in> set ts. tty_in t = Some REof)"

lemma tty_part_Go:
  assumes "tty_part t c = Go c'"
  shows "to_stdout c' = to_stdout c"
    and "to_sock c' = to_sock c @ (if stdineof c then [] else case tty_in t of Some (RData bs) \<Rightarrow> bs | _ \<Rightarrow> [])"
    and "stdineof c' \<longleftrightarrow> stdineof c \<or> tty_in t = Some REof"
    and "fin_sent c' \<longleftrightarrow> fin_sent c \<or> (\<not> stdineof c \<and> tty_in t = Some REof)"
  using assms by (auto simp: tty_part_def split: if_splits option.splits rres.splits)

lemma turn_Go:
  assumes "str_cli_turn t c = Go c'"
  shows "to_stdout c' = to_stdout c @ sock_data [t]"
    and "to_sock c' = to_sock c @ (if stdineof c then [] else case tty_in t of Some (RData bs) \<Rightarrow> bs | _ \<Rightarrow> [])"
    and "stdineof c' \<longleftrightarrow> stdineof c \<or> tty_in t = Some REof"
    and "fin_sent c' \<longleftrightarrow> fin_sent c \<or> (\<not> stdineof c \<and> tty_in t = Some REof)"
  using assms by (auto simp: str_cli_turn_def split: if_splits option.splits rres.splits dest: tty_part_Go)

lemma turn_Return: "str_cli_turn t c = Return c' \<Longrightarrow> c' = c \<and> stdineof c \<and> sock_in t = Some REof"
  by (auto simp: str_cli_turn_def tty_part_def split: if_splits option.splits rres.splits)

lemma str_cli_Go:
  assumes "str_cli ts c = Go c'" "fin_sent c = stdineof c"
  shows "to_stdout c' = to_stdout c @ sock_data ts \<and> to_sock c' = to_sock c @ (if stdineof c then [] else tty_data ts)
    \<and> (stdineof c' \<longleftrightarrow> stdineof c \<or> tty_ended ts) \<and> fin_sent c' = stdineof c'"
  using assms
proof (induction ts arbitrary: c)
  case (Cons t ts)
  then obtain c1 where c1: "str_cli_turn t c = Go c1" "str_cli ts c1 = Go c'" by (auto split: cli_res.splits)
  note step = turn_Go [OF c1(1)]
  have "fin_sent c1 = stdineof c1" using step Cons.prems(2) by auto
  from Cons.IH [OF c1(2) this] show ?case
    using step by (auto simp: tty_ended_def split: option.splits rres.splits)
qed (simp add: tty_ended_def)

lemma str_cli_Return:
  "str_cli ts c = Return c' \<Longrightarrow>
   \<exists>ts1 t rest. ts = ts1 @ t # rest \<and> str_cli ts1 c = Go c' \<and> stdineof c' \<and> sock_in t = Some REof"
proof (induction ts arbitrary: c)
  case (Cons t ts)
  show ?case
  proof (cases "str_cli_turn t c")
    case (Go c1)
    with Cons obtain ts1 t' rest where "ts = ts1 @ t' # rest \<and> str_cli ts1 c1 = Go c' \<and> stdineof c' \<and> sock_in t' = Some REof"
      by fastforce
    with Go show ?thesis by (intro exI [of _ "t # ts1"] exI [of _ t'] exI [of _ rest]) simp
  next
    case (Return c1)
    with turn_Return [OF Return] Cons.prems show ?thesis
      by (intro exI [of _ "[]"] exI [of _ t] exI [of _ ts]) simp
  qed (use Cons.prems in simp)
qed simp

text \<open>A turn without failures, in which the server does not close.\<close>

definition turn_ok :: "turn \<Rightarrow> bool" where
  "turn_ok t \<longleftrightarrow> select_ok t \<and> stdout_ok t \<and> send_ok t \<and> shutdown_ok t
     \<and> sock_in t \<notin> {Some REof, Some RIntr, Some RErr} \<and> tty_in t \<notin> {Some RIntr, Some RErr}"

lemma turn_ok_Go: "turn_ok t \<Longrightarrow> \<exists>c'. str_cli_turn t c = Go c'"
  by (auto simp: turn_ok_def str_cli_turn_def tty_part_def split: option.splits rres.splits)

lemma str_cli_ok_Go: "list_all turn_ok ts \<Longrightarrow> \<exists>c'. str_cli ts c = Go c'"
proof (induction ts arbitrary: c)
  case (Cons t ts)
  then show ?case using turn_ok_Go [of t c] by auto
qed simp

lemma str_cli_append: "str_cli (ts @ us) c = (case str_cli ts c of Go c' \<Rightarrow> str_cli us c' | r \<Rightarrow> r)"
  by (induction ts arbitrary: c) (auto split: cli_res.splits)

lemma cli_start_facts: "fin_sent cli_start = stdineof cli_start" "\<not> stdineof cli_start"
    "to_stdout cli_start = []" "to_sock cli_start = []"
  by (simp_all add: cli_start_def)

lemma str_cli_started:
  assumes "str_cli ts cli_start = Go c"
  shows "to_stdout c = sock_data ts" "to_sock c = tty_data ts" "fin_sent c = tty_ended ts" "stdineof c = tty_ended ts"
  using str_cli_Go [OF assms cli_start_facts(1)] cli_start_facts by simp_all

lemma str_cli_closes:
  assumes "list_all turn_ok ts" "tty_ended ts" "select_ok t" "sock_in t = Some REof"
  shows "\<exists>c. str_cli (ts @ t # rest) cli_start = Return c"
proof -
  from str_cli_ok_Go [OF assms(1)] obtain c where c: "str_cli ts cli_start = Go c" by blast
  then have "stdineof c" using assms(2) str_cli_started(4) by simp
  then show ?thesis using assms(3,4) c by (simp add: str_cli_append str_cli_turn_def)
qed

text \<open>
  (C26) While the client runs, everything from the socket has gone to the screen and everything from the
  terminal to the socket, in order; the end of the terminal has closed the sending side. It
  returns only when the server closes after that, with all output shown; and if nothing fails
  and the server closes after that, it does return.
\<close>

theorem str_cli_relays:
  "(str_cli ts cli_start = Go c \<longrightarrow> to_stdout c = sock_data ts \<and> to_sock c = tty_data ts \<and> fin_sent c = tty_ended ts)
   \<and> (str_cli ts cli_start = Return c \<longrightarrow> (\<exists>ts1 t rest. ts = ts1 @ t # rest \<and> sock_in t = Some REof \<and> tty_ended ts1
      \<and> fin_sent c \<and> to_stdout c = sock_data ts1 \<and> to_sock c = tty_data ts1))
   \<and> (list_all turn_ok ts \<and> tty_ended ts \<and> select_ok t \<and> sock_in t = Some REof \<longrightarrow>
      (\<exists>c. str_cli (ts @ t # rest) cli_start = Return c))"
proof (intro conjI impI)
  assume "str_cli ts cli_start = Return c"
  from str_cli_Return [OF this] show "\<exists>ts1 t rest. ts = ts1 @ t # rest \<and> sock_in t = Some REof \<and> tty_ended ts1
      \<and> fin_sent c \<and> to_stdout c = sock_data ts1 \<and> to_sock c = tty_data ts1"
    using str_cli_started by blast
qed (use str_cli_started str_cli_closes in blast)+

text \<open>A line typed, the end of the terminal, an answer, the end of the server.\<close>

definition demo_turn :: "rres option \<Rightarrow> rres option \<Rightarrow> turn" where
  "demo_turn sk tt = \<lparr>select_ok = True, sock_in = sk, tty_in = tt, stdout_ok = True, send_ok = True, shutdown_ok = True\<rparr>"

definition demo_turns :: "turn list" where
  "demo_turns = [demo_turn None (Some (RData [104, 105, 10])), demo_turn (Some (RData [72])) (Some REof)]"

lemma str_cli_relays_witness:
  "(\<exists>c. str_cli (demo_turns @ [demo_turn (Some REof) None]) cli_start = Return c \<and> to_stdout c = [72]
     \<and> to_sock c = [104, 105, 10] \<and> fin_sent c)"
proof -
  have go: "list_all turn_ok demo_turns" "tty_ended demo_turns"
    "select_ok (demo_turn (Some REof) None)" "sock_in (demo_turn (Some REof) None) = Some REof"
    by (auto simp: turn_ok_def demo_turns_def demo_turn_def tty_ended_def)
  from str_cli_ok_Go [OF go(1)] obtain c where c: "str_cli demo_turns cli_start = Go c" by blast
  have "to_stdout c = sock_data demo_turns \<and> to_sock c = tty_data demo_turns \<and> fin_sent c = tty_ended demo_turns"
    using str_cli_relays [of demo_turns c] c by blast
  moreover have "str_cli (demo_turns @ [demo_turn (Some REof) None]) cli_start = Return c"
  proof -
    obtain d where "str_cli (demo_turns @ [demo_turn (Some REof) None]) cli_start = Return d"
      using str_cli_relays [of demo_turns c "demo_turn (Some REof) None" "[]"] go by blast
    then show ?thesis using c by (auto simp: str_cli_append str_cli_turn_def demo_turn_def split: if_splits)
  qed
  ultimately show ?thesis using go(2) by (simp add: demo_turns_def demo_turn_def)
qed

section \<open>Error messages\<close>

text \<open>
  \<open>err_doit\<close> builds its message in \<open>buf[MAXLINE + 1]\<close>: \<open>msg\<close> is the formatted text, \<open>strerr\<close> what
  \<open>strerror\<close> returns. Writing outside the buffer has no result. \<open>vs\<close> says whether the library was
  built with \<open>HAVE_VSNPRINTF\<close>.
\<close>

definition fits_buf :: "byte list \<Rightarrow> byte list option" where
  "fits_buf str = (if length str + 1 \<le> MAXLINE + 1 then Some str else None)"

definition snprintf :: "nat \<Rightarrow> byte list \<Rightarrow> byte list" where
  "snprintf n str = take (n - 1) str"

definition err_doit :: "bool \<Rightarrow> bool \<Rightarrow> byte list \<Rightarrow> byte list \<Rightarrow> byte list option" where
  "err_doit vs errnoflag msg strerr =
     (case (if vs then fits_buf (snprintf MAXLINE msg) else fits_buf msg) of None \<Rightarrow> None
      | Some buf \<Rightarrow>
        let n = length buf;
            buf1 = (if errnoflag then buf @ snprintf (MAXLINE - n) ([58, 32] @ strerr) else buf)
        in fits_buf (buf1 @ [10]))"

datatype err_end = Returns | Exits nat | Aborts

datatype err_call = Err_ret | Err_sys | Err_dump | Err_msg | Err_quit

text \<open>Which of the functions add the system error, and how they end.\<close>

fun err_report :: "bool \<Rightarrow> err_call \<Rightarrow> byte list \<Rightarrow> byte list \<Rightarrow> byte list option \<times> err_end" where
  "err_report vs Err_ret msg strerr = (err_doit vs True msg strerr, Returns)"
| "err_report vs Err_sys msg strerr = (err_doit vs True msg strerr, Exits 1)"
| "err_report vs Err_dump msg strerr = (err_doit vs True msg strerr, Aborts)"
| "err_report vs Err_msg msg strerr = (err_doit vs False msg strerr, Returns)"
| "err_report vs Err_quit msg strerr = (err_doit vs False msg strerr, Exits 1)"

text \<open>With \<open>vsnprintf\<close> every message fits, cut to the size of the buffer. Without it a text of
  \<open>MAXLINE\<close> bytes is written beyond the buffer, and a shorter one never is.\<close>

theorem err_doit_bounds:
  shows "err_doit True e msg strerr =
      Some (take (MAXLINE - 1) (msg @ (if e then [58, 32] @ strerr else [])) @ [10])"
    and "err_doit False e msg strerr = (if length msg < MAXLINE then err_doit True e msg strerr else None)"
proof -
  have "length (take (MAXLINE - 1) xs) < MAXLINE" for xs :: "byte list" by (simp add: MAXLINE_def)
  then have safe: "err_doit True e msg strerr =
      Some (take (MAXLINE - 1) (msg @ (if e then [58, 32] @ strerr else [])) @ [10])" for msg
    by (auto simp: err_doit_def fits_buf_def snprintf_def Let_def MAXLINE_def min_def)
  then show "err_doit True e msg strerr = Some (take (MAXLINE - 1) (msg @ (if e then [58, 32] @ strerr else [])) @ [10])" .
  show "err_doit False e msg strerr = (if length msg < MAXLINE then err_doit True e msg strerr else None)"
    by (auto simp: safe err_doit_def fits_buf_def snprintf_def Let_def MAXLINE_def)
qed

end
