(* ===== verification/Netlink.thy ===== *)
theory Netlink
  imports Prelude
begin

text \<open>
  The netlink prototype (\<open>tcp_netlink\<close>): two kernel modules that answer a ping from user space
  (\<open>send_kernel.c\<close>, \<open>lx_kernel.c\<close>) and the programs that look for them, in the raw socket version
  (\<open>server_old\<close>, \<open>client_old\<close>) and the libnl version (\<open>server\<close>, \<open>client\<close>). Netlink itself and
  libnl are the queue of messages to the program; receiving from an empty queue blocks.
\<close>

section \<open>Messages and strings\<close>

definition PING_PONG_TYPE :: nat where "PING_PONG_TYPE = 0x10 + 3"
definition MD5_TYPE :: nat where "MD5_TYPE = 0x10 + 4"
definition MY_MSG_TYPE :: nat where "MY_MSG_TYPE = 0x10 + 2"
definition NLMSG_DONE :: nat where "NLMSG_DONE = 3"
definition MAX_PAYLOAD :: nat where "MAX_PAYLOAD = 128"

record nlmsg =
  nl_type :: nat
  nl_pid :: nat
  nl_data :: "byte list"

definition cstr :: "string \<Rightarrow> byte list" where
  "cstr s = map of_char s"

text \<open>\<open>strcmp(s, p) == 0\<close> for the memory \<open>p\<close>: no result when \<open>p\<close> ends before the comparison does.\<close>

fun strcmp_eq :: "byte list \<Rightarrow> byte list \<Rightarrow> bool option" where
  "strcmp_eq s [] = None"
| "strcmp_eq [] (q # qs) = Some (q = 0)"
| "strcmp_eq (c # s) (q # qs) = (if c = q then strcmp_eq s qs else Some False)"

datatype 'a wait = Done 'a | Blocks | Crash

section \<open>The kernel modules\<close>

definition pong :: nlmsg where
  "pong = \<lparr>nl_type = NLMSG_DONE, nl_pid = 0, nl_data = cstr ''get your pid''\<rparr>"

text \<open>\<open>nl_data_ready\<close> of \<open>send_kernel.c\<close>: the state is \<open>pid\<close>. A failed allocation of the reply is
  reported and then used: the kernel oopses.\<close>

definition send_nl_data_ready :: "bool \<Rightarrow> nlmsg \<Rightarrow> nat \<Rightarrow> (nat \<times> nlmsg option) option" where
  "send_nl_data_ready alloc m pid =
     (if nl_type m = PING_PONG_TYPE then if alloc then Some (nl_pid m, Some pong) else None
      else if nl_type m = MD5_TYPE then Some (pid, None)
      else Some (pid, None))"

text \<open>\<open>lx_kernel.c\<close>: it also sends a message to the last program that pinged it, every ten seconds.\<close>

record lx_state =
  lx_sock :: bool
  lx_pid :: nat
  lx_timer :: bool

definition lx_nl_data_ready :: "bool \<Rightarrow> nlmsg \<Rightarrow> lx_state \<Rightarrow> (lx_state \<times> nlmsg option) option" where
  "lx_nl_data_ready alloc m k =
     (if nl_type m \<noteq> PING_PONG_TYPE then Some (k, None)
      else let k1 = k\<lparr>lx_pid := nl_pid m\<rparr> in if alloc then Some (k1, Some pong) else Some (k1, None))"

definition lx_text :: "byte list" where
  "lx_text = cstr ''send your message every 10s.''"

text \<open>The timer has expired when the function runs; only \<open>mod_timer\<close> arms it again.\<close>

definition lx_send_message :: "bool \<Rightarrow> lx_state \<Rightarrow> lx_state \<times> nlmsg option" where
  "lx_send_message alloc k =
     (let k0 = k\<lparr>lx_timer := False\<rparr> in
      if lx_pid k0 = 1 then (k0\<lparr>lx_timer := True\<rparr>, None)
      else if \<not> alloc then (k0, None)
      else (k0\<lparr>lx_timer := True\<rparr>, Some \<lparr>nl_type = NLMSG_DONE, nl_pid = 0, nl_data = lx_text\<rparr>))"

definition lx_module_init :: "bool \<Rightarrow> lx_state \<Rightarrow> int \<times> lx_state" where
  "lx_module_init created k = (if created then 0 else - 1, k\<lparr>lx_sock := created, lx_timer := True\<rparr>)"

definition lx_module_exit :: "lx_state \<Rightarrow> lx_state option" where
  "lx_module_exit k = (if lx_sock k then Some (k\<lparr>lx_sock := False, lx_timer := False\<rparr>) else None)"

definition send_module_init :: "bool \<Rightarrow> int" where
  "send_module_init created = (if created then 0 else - 1)"

section \<open>The raw socket programs\<close>

record 'k world =
  kern :: 'k
  queue :: "nlmsg list"

type_synonym 'k handler = "nlmsg \<Rightarrow> 'k \<Rightarrow> ('k \<times> nlmsg option) option"

text \<open>A message to the kernel is handled at once and may put an answer into the queue.\<close>

definition deliver :: "'k handler \<Rightarrow> nlmsg \<Rightarrow> 'k world \<Rightarrow> 'k world option" where
  "deliver handle m w =
     (case handle m (kern w) of None \<Rightarrow> None
      | Some (k, r) \<Rightarrow> Some (w\<lparr>kern := k, queue := queue w @ (case r of None \<Rightarrow> [] | Some m' \<Rightarrow> [m'])\<rparr>))"

text \<open>\<open>set_send_msg\<close>: the payload area comes from \<open>malloc\<close> (\<open>junk\<close>) and the string is copied into it.\<close>

definition set_send_msg :: "nat \<Rightarrow> byte list \<Rightarrow> nlmsg" where
  "set_send_msg pid junk = \<lparr>nl_type = PING_PONG_TYPE, nl_pid = pid,
     nl_data = cstr ''give your present!'' @ [0] @ drop 19 (take MAX_PAYLOAD junk)\<rparr>"

text \<open>The receive buffer: cleared, then the payload, cut at its size.\<close>

definition rece_area :: "nlmsg \<Rightarrow> byte list" where
  "rece_area m = take MAX_PAYLOAD (nl_data m) @ replicate (MAX_PAYLOAD - length (nl_data m)) 0"

definition check_from_kernel :: "'k world \<Rightarrow> (int \<times> 'k world) wait" where
  "check_from_kernel w =
     (case queue w of [] \<Rightarrow> Blocks
      | m # q \<Rightarrow> (case strcmp_eq (cstr ''get your pid'') (rece_area m) of None \<Rightarrow> Crash
          | Some eq \<Rightarrow> Done (if eq then 0 else 1, w\<lparr>queue := q\<rparr>)))"

text \<open>\<open>check_netlink_status\<close> with \<open>n\<close> attempts left (three at the start). The result of \<open>sendmsg\<close>
  is ignored: \<open>sent\<close> says which attempts reach the kernel.\<close>

fun old_check_netlink_status :: "'k handler \<Rightarrow> nlmsg \<Rightarrow> (nat \<Rightarrow> bool) \<Rightarrow> nat \<Rightarrow> 'k world \<Rightarrow> (int \<times> 'k world) wait" where
  "old_check_netlink_status handle msg sent 0 w = Done (1, w)"
| "old_check_netlink_status handle msg sent (Suc n) w =
     (case (if sent n then deliver handle msg w else Some w) of None \<Rightarrow> Crash
      | Some w1 \<Rightarrow> (case check_from_kernel w1 of Done (r, w2) \<Rightarrow>
            if r = 0 then Done (0, w2) else old_check_netlink_status handle msg sent n w2
          | Blocks \<Rightarrow> Blocks | Crash \<Rightarrow> Crash))"

section \<open>The libnl programs\<close>

datatype nl_cb = Ping_cb | Data_cb

record nluser =
  nls_live :: bool
  insmod_flag :: bool
  msg_in :: nl_cb

definition init_sock :: "bool \<Rightarrow> int \<Rightarrow> nluser \<Rightarrow> int \<times> nluser" where
  "init_sock alloc conn u =
     (if \<not> alloc then (1, u\<lparr>nls_live := False\<rparr>)
      else if conn < 0 then (1, u\<lparr>msg_in := Ping_cb, nls_live := False\<rparr>)
      else (conn, u\<lparr>msg_in := Ping_cb, nls_live := True\<rparr>))"

text \<open>\<open>ping_from_kernel\<close>; \<open>pad\<close> is the memory behind the payload, which has no terminating zero.\<close>

definition ping_from_kernel :: "byte list \<Rightarrow> nlmsg \<Rightarrow> nluser \<Rightarrow> nluser option" where
  "ping_from_kernel pad m u =
     (if nl_type m mod 256 \<noteq> NLMSG_DONE then Some u
      else map_option (\<lambda>eq. u\<lparr>insmod_flag := eq\<rparr>) (strcmp_eq (cstr ''get your pid'') (nl_data m @ pad)))"

text \<open>Sending frees the socket on an error, and the code goes on to receive from it.\<close>

definition send_message_kernel :: "'k handler \<Rightarrow> nlmsg \<Rightarrow> int \<Rightarrow> nluser \<Rightarrow> 'k world \<Rightarrow> (int \<times> nluser \<times> 'k world) wait" where
  "send_message_kernel handle m ret u w =
     (if \<not> nls_live u then Crash
      else if ret < 0 then Done (1, u\<lparr>nls_live := False\<rparr>, w)
      else case deliver handle m w of None \<Rightarrow> Crash | Some w' \<Rightarrow> Done (ret, u, w'))"

definition rece_from_kernel :: "byte list \<Rightarrow> int \<Rightarrow> nluser \<Rightarrow> 'k world \<Rightarrow> (int \<times> nluser \<times> 'k world) wait" where
  "rece_from_kernel pad ret u w =
     (if \<not> nls_live u then Crash
      else if ret < 0 then Done (1, u\<lparr>nls_live := False\<rparr>, w)
      else case queue w of [] \<Rightarrow> Blocks
      | m # q \<Rightarrow> (case ping_from_kernel pad m u of None \<Rightarrow> Crash | Some u' \<Rightarrow> Done (ret, u', w\<lparr>queue := q\<rparr>)))"

fun check_netlink_status :: "'k handler \<Rightarrow> nlmsg \<Rightarrow> byte list \<Rightarrow> (nat \<Rightarrow> int \<times> int) \<Rightarrow> nat \<Rightarrow> nluser \<Rightarrow> 'k world
    \<Rightarrow> (int \<times> nluser \<times> 'k world) wait" where
  "check_netlink_status handle m pad res 0 u w = Done (1, u, w)"
| "check_netlink_status handle m pad res (Suc n) u w =
     (case send_message_kernel handle m (fst (res n)) u w of Blocks \<Rightarrow> Blocks | Crash \<Rightarrow> Crash
      | Done (_, u1, w1) \<Rightarrow>
       (case rece_from_kernel pad (snd (res n)) u1 w1 of Blocks \<Rightarrow> Blocks | Crash \<Rightarrow> Crash
        | Done (_, u2, w2) \<Rightarrow>
          if insmod_flag u2 then Done (0, u2, w2) else check_netlink_status handle m pad res n u2 w2))"

text \<open>The client then has its messages delivered to \<open>data_from_kernel\<close>.\<close>

definition client_check_netlink_status :: "'k handler \<Rightarrow> nlmsg \<Rightarrow> byte list \<Rightarrow> (nat \<Rightarrow> int \<times> int) \<Rightarrow> nluser \<Rightarrow> 'k world
    \<Rightarrow> (int \<times> nluser \<times> 'k world) wait" where
  "client_check_netlink_status handle m pad res u w =
     (case check_netlink_status handle m pad res 3 u w of
        Done (r, u', w') \<Rightarrow> Done (r, if r = 0 then u'\<lparr>msg_in := Data_cb\<rparr> else u', w')
      | Blocks \<Rightarrow> Blocks | Crash \<Rightarrow> Crash)"

text \<open>The pings as the two programs send them.\<close>

definition present :: "byte list" where
  "present = cstr ''give your present'' @ [0]"

definition server_ping :: "nat \<Rightarrow> nlmsg" where
  "server_ping pid = \<lparr>nl_type = MD5_TYPE, nl_pid = pid, nl_data = present\<rparr>"

definition client_ping :: "nat \<Rightarrow> nlmsg" where
  "client_ping pid = \<lparr>nl_type = MY_MSG_TYPE, nl_pid = pid, nl_data = present\<rparr>"

text \<open>\<open>ping_pong_kernel\<close> of \<open>main.c\<close>: a failed check releases the socket.\<close>

definition ping_pong_kernel :: "(nluser \<Rightarrow> 'k world \<Rightarrow> (int \<times> nluser \<times> 'k world) wait) \<Rightarrow> bool \<Rightarrow> int \<Rightarrow> nluser \<Rightarrow> 'k world
    \<Rightarrow> (int \<times> nluser \<times> 'k world) wait" where
  "ping_pong_kernel check alloc conn u w =
     (case init_sock alloc conn u of (r, u1) \<Rightarrow>
        if r \<noteq> 0 then Done (r, u1, w)
        else case check u1 w of Blocks \<Rightarrow> Blocks | Crash \<Rightarrow> Crash
        | Done (r, u2, w2) \<Rightarrow>
          if r \<noteq> 0 then (if nls_live u2 then Done (r, u2\<lparr>nls_live := False\<rparr>, w2) else Crash)
          else Done (0, u2, w2))"

section \<open>The interface between the programs and the modules\<close>

lemma strcmp_eq_self: "0 \<notin> set s \<Longrightarrow> strcmp_eq s (s @ 0 # r) = Some True"
  by (induction s) auto

lemma strcmp_eq_unterminated: "strcmp_eq s s = None"
  by (induction s) auto

lemma ping_text: "length (cstr ''get your pid'') = 12" "0 \<notin> set (cstr ''get your pid'')"
  by (simp_all add: cstr_def)

text \<open>
  What a program relies on: a module answers a message of type \<open>PING_PONG_TYPE\<close> with its text and
  remembers the sender, and no other message.
\<close>

locale ping_module =
  fixes handle :: "'k handler" and peer :: "'k \<Rightarrow> nat"
  assumes answers: "nl_type m = PING_PONG_TYPE \<Longrightarrow> \<exists>k'. handle m k = Some (k', Some pong) \<and> peer k' = nl_pid m"
    and silent: "nl_type m \<noteq> PING_PONG_TYPE \<Longrightarrow> handle m k = Some (k, None)"
begin

lemma old_first_ping:
  assumes "queue w = []" "sent n" "nl_type msg = PING_PONG_TYPE"
  shows "\<exists>k'. old_check_netlink_status handle msg sent (Suc n) w = Done (0, w\<lparr>kern := k'\<rparr>) \<and> peer k' = nl_pid msg"
proof -
  obtain k' where k': "handle msg (kern w) = Some (k', Some pong)" "peer k' = nl_pid msg"
    using answers [OF assms(3)] by blast
  have "rece_area pong = cstr ''get your pid'' @ 0 # replicate 115 0"
    by (simp add: rece_area_def pong_def ping_text MAX_PAYLOAD_def replicate_Suc [symmetric] del: replicate_Suc)
  with k' assms show ?thesis
    by (simp add: deliver_def check_from_kernel_def strcmp_eq_self ping_text) (rule exI [of _ k'], simp add: k')
qed

lemma ping_answered:
  assumes "queue w = []" "nls_live u" "0 \<le> fst (res n)" "0 \<le> snd (res n)" "nl_type m = PING_PONG_TYPE"
  shows "\<exists>k'. check_netlink_status handle m (0 # pad) res (Suc n) u w = Done (0, u\<lparr>insmod_flag := True\<rparr>, w\<lparr>kern := k'\<rparr>)
    \<and> peer k' = nl_pid m"
proof -
  obtain k' where k': "handle m (kern w) = Some (k', Some pong)" "peer k' = nl_pid m"
    using answers [OF assms(5)] by blast
  have "ping_from_kernel (0 # pad) pong u = Some (u\<lparr>insmod_flag := True\<rparr>)"
    by (simp add: ping_from_kernel_def pong_def NLMSG_DONE_def strcmp_eq_self ping_text)
  with k' assms show ?thesis
    by (simp add: send_message_kernel_def deliver_def rece_from_kernel_def) (rule exI [of _ k'], simp add: k')
qed

lemma other_type_blocks:
  assumes "queue w = []" "nls_live u" "\<forall>i. 0 \<le> fst (res i) \<and> 0 \<le> snd (res i)" "nl_type m \<noteq> PING_PONG_TYPE"
  shows "check_netlink_status handle m pad res (Suc n) u w = Blocks"
proof -
  have "\<not> fst (res n) < 0" "\<not> snd (res n) < 0" using assms(3) by (simp_all add: not_less)
  with assms(1,2) silent [OF assms(4)] show ?thesis
    by (simp add: send_message_kernel_def deliver_def rece_from_kernel_def)
qed

end

interpretation snd_mod: ping_module "send_nl_data_ready True" "\<lambda>pid. pid"
  by unfold_locales (simp_all add: send_nl_data_ready_def)

interpretation rcv_mod: ping_module "lx_nl_data_ready True" lx_pid
  by unfold_locales (simp_all add: lx_nl_data_ready_def)

section \<open>Finding the module\<close>

text \<open>The raw socket programs find their modules with the first ping that is sent, and the modules
  then know the program.\<close>

theorem old_programs_find_modules:
  assumes "sent 2" "queue w = []" "queue v = []"
  shows "(\<exists>pid. old_check_netlink_status (send_nl_data_ready True) (set_send_msg p junk) sent 3 w =
        Done (0, w\<lparr>kern := pid\<rparr>) \<and> pid = p)
    \<and> (\<exists>k. old_check_netlink_status (lx_nl_data_ready True) (set_send_msg p junk) sent 3 v =
        Done (0, v\<lparr>kern := k\<rparr>) \<and> lx_pid k = p)"
proof -
  have m: "nl_type (set_send_msg p junk) = PING_PONG_TYPE" "nl_pid (set_send_msg p junk) = p"
    by (simp_all add: set_send_msg_def)
  show ?thesis
    using snd_mod.old_first_ping [OF assms(2) _ m(1), of sent 2] rcv_mod.old_first_ping [OF assms(3) _ m(1), of sent 2] m(2) assms(1)
    by (simp add: eval_nat_numeral)
qed

text \<open>
  (C27) The libnl programs do not: their pings have other types, the modules ignore them, and the
  programs wait for ever, while a ping of the right type with a zero behind the answer would
  have been enough.
\<close>

theorem libnl_programs_wait:
  assumes "\<forall>i. 0 \<le> fst (res i) \<and> 0 \<le> snd (res i)" "queue w = []" "queue v = []"
  shows "ping_pong_kernel (check_netlink_status (send_nl_data_ready True) (server_ping p) pad res 3) True 0 u w = Blocks
    \<and> ping_pong_kernel (client_check_netlink_status (lx_nl_data_ready True) (client_ping p) pad res) True 0 u v = Blocks
    \<and> (\<exists>k. ping_pong_kernel (client_check_netlink_status (lx_nl_data_ready True) ((client_ping p)\<lparr>nl_type := PING_PONG_TYPE\<rparr>)
          (0 # pad) res) True 0 u v =
        Done (0, u\<lparr>nls_live := True, insmod_flag := True, msg_in := Data_cb\<rparr>, v\<lparr>kern := k\<rparr>) \<and> lx_pid k = p)"
proof -
  let ?u = "u\<lparr>msg_in := Ping_cb, nls_live := True\<rparr>"
  have t: "nl_type (server_ping p) \<noteq> PING_PONG_TYPE" "nl_type (client_ping p) \<noteq> PING_PONG_TYPE"
    by (simp_all add: server_ping_def client_ping_def PING_PONG_TYPE_def MD5_TYPE_def MY_MSG_TYPE_def)
  have three: "(3 :: nat) = Suc 2" by simp
  have "check_netlink_status (send_nl_data_ready True) (server_ping p) pad res 3 ?u w = Blocks"
    unfolding three by (rule snd_mod.other_type_blocks) (use assms t in simp_all)
  moreover have "check_netlink_status (lx_nl_data_ready True) (client_ping p) pad res 3 ?u v = Blocks"
    unfolding three by (rule rcv_mod.other_type_blocks) (use assms t in simp_all)
  moreover have "\<exists>k. check_netlink_status (lx_nl_data_ready True) ((client_ping p)\<lparr>nl_type := PING_PONG_TYPE\<rparr>) (0 # pad) res 3 ?u v
      = Done (0, ?u\<lparr>insmod_flag := True\<rparr>, v\<lparr>kern := k\<rparr>) \<and> lx_pid k = nl_pid ((client_ping p)\<lparr>nl_type := PING_PONG_TYPE\<rparr>)"
    unfolding three by (rule rcv_mod.ping_answered) (use assms in simp_all)
  ultimately show ?thesis
    by (auto simp: ping_pong_kernel_def client_check_netlink_status_def init_sock_def client_ping_def)
qed

text \<open>A failed send frees the socket, and the check goes on to use it.\<close>

theorem failed_send_uses_freed:
  assumes "fst (res n) < 0" "nls_live u"
  shows "check_netlink_status handle m pad res (Suc n) u w = Crash"
  using assms by (simp add: send_message_kernel_def rece_from_kernel_def)

section \<open>The timer\<close>

fun lx_ticks :: "bool list \<Rightarrow> lx_state \<Rightarrow> lx_state \<times> nlmsg list" where
  "lx_ticks [] k = (k, [])"
| "lx_ticks (a # as) k =
     (if lx_timer k then
        (case lx_send_message a k of (k1, r) \<Rightarrow> (case lx_ticks as k1 of (k2, ms) \<Rightarrow>
           (k2, (case r of None \<Rightarrow> [] | Some m \<Rightarrow> [m]) @ ms)))
      else (k, []))"

text \<open>
  Once a program is known, every tick sends the message and arms the timer again, up to the first
  failed allocation: it sends nothing and no tick follows.
\<close>

theorem lx_timer_until_failure:
  assumes "lx_timer k" "lx_pid k \<noteq> 1"
  shows "lx_ticks as k =
    (k\<lparr>lx_timer := list_all id as\<rparr>, replicate (length (takeWhile id as)) \<lparr>nl_type = NLMSG_DONE, nl_pid = 0, nl_data = lx_text\<rparr>)"
  using assms
proof (induction as arbitrary: k)
  case Nil
  then show ?case by (simp add: lx_state.equality)
next
  case (Cons a as)
  have "lx_ticks as (k\<lparr>lx_timer := False\<rparr>) = (k\<lparr>lx_timer := False\<rparr>, [])" by (cases as) simp_all
  with Cons.IH [of "k\<lparr>lx_timer := True\<rparr>"] Cons.prems show ?case
    by (cases a) (simp_all add: lx_send_message_def Let_def)
qed

text \<open>Loading the module without a socket reports an error and leaves the timer armed.\<close>

theorem lx_failed_init_leaves_timer:
  "lx_module_init False k = (- 1, k') \<Longrightarrow> lx_timer k' \<and> lx_module_exit k' = None"
  by (auto simp: lx_module_init_def lx_module_exit_def)

section \<open>A concrete run\<close>

definition demo_user :: nluser where
  "demo_user = \<lparr>nls_live = False, insmod_flag = False, msg_in = Ping_cb\<rparr>"

definition demo_lx :: "lx_state world" where
  "demo_lx = \<lparr>kern = \<lparr>lx_sock = True, lx_pid = 1, lx_timer = True\<rparr>, queue = []\<rparr>"

lemma libnl_programs_wait_witness:
  "ping_pong_kernel (check_netlink_status (send_nl_data_ready True) (server_ping 77) [] (\<lambda>_. (0, 0)) 3) True 0 demo_user
      \<lparr>kern = 1, queue = []\<rparr> = Blocks
   \<and> ping_pong_kernel (client_check_netlink_status (lx_nl_data_ready True) (client_ping 77) [] (\<lambda>_. (0, 0))) True 0
      demo_user demo_lx = Blocks"
  using libnl_programs_wait [of "\<lambda>_. (0, 0)" "\<lparr>kern = 1, queue = []\<rparr>" demo_lx 77 "[]" demo_user]
  by (simp add: demo_lx_def)

end
