(* ===== verification/Netlink_Relay.thy ===== *)
theory Netlink_Relay
  imports Netlink
begin

text \<open>
  What the programs do once their module is found: the client forwards the text of its module
  over TCP, the server hands what arrives to the other module. The event library calls the
  handlers; bytes written outside a buffer have no result.
\<close>

section \<open>C strings\<close>

definition c_string :: "byte list \<Rightarrow> byte list option" where
  "c_string p = (if 0 \<in> set p then Some (takeWhile (\<lambda>c. c \<noteq> 0) p) else None)"

definition strcpy :: "byte list \<Rightarrow> byte list \<Rightarrow> byte list option" where
  "strcpy dst p = (case c_string p of None \<Rightarrow> None
     | Some s \<Rightarrow> if length s < length dst then Some (s @ [0] @ drop (length s + 1) dst) else None)"

definition strncpy :: "byte list \<Rightarrow> byte list \<Rightarrow> nat \<Rightarrow> byte list option" where
  "strncpy dst p n =
     (let s = takeWhile (\<lambda>c. c \<noteq> 0) (take n p) in
      if n \<le> length dst then Some (s @ replicate (n - length s) 0 @ drop n dst) else None)"

section \<open>The client\<close>

text \<open>The libnl client: \<open>data_from_kernel\<close> copies the text to a buffer of 64 bytes, \<open>event_handler\<close> sends
  28 bytes of it.\<close>

definition data_from_kernel :: "byte list \<Rightarrow> nlmsg \<Rightarrow> byte list \<Rightarrow> byte list option" where
  "data_from_kernel pad m buf =
     (if nl_type m mod 256 \<noteq> NLMSG_DONE then Some buf else strcpy buf (nl_data m @ pad))"

definition event_handler :: "byte list \<Rightarrow> nlmsg \<Rightarrow> byte list \<Rightarrow> (byte list \<times> byte list) option" where
  "event_handler pad m buf =
     (case data_from_kernel pad m buf of None \<Rightarrow> None
      | Some b \<Rightarrow> let n = length (cstr ''send your message every 10s.'') in
          if n < length b then Some (take n (b[n := 0]), replicate 64 0 @ drop 64 b) else None)"

text \<open>The raw socket client: \<open>recvmsg\<close> fails (\<open>None\<close>) or returns the size of the message with its
  header of 16 bytes, at most that of the buffer.\<close>

definition old_rece_from_kernel :: "nlmsg option \<Rightarrow> byte list \<Rightarrow> (int \<times> byte list) option" where
  "old_rece_from_kernel got buf =
     (case got of None \<Rightarrow> Some (- 1, buf)
      | Some m \<Rightarrow> let n = min (16 + length (nl_data m)) (16 + MAX_PAYLOAD) in
          map_option (Pair (int n)) (strncpy buf (rece_area m) n))"

definition old_event_handler :: "nlmsg option \<Rightarrow> byte list \<Rightarrow> (byte list \<times> byte list) option" where
  "old_event_handler got buf =
     (case old_rece_from_kernel got buf of None \<Rightarrow> None
      | Some (n, b) \<Rightarrow>
        if n > 0 then (case c_string b of None \<Rightarrow> None | Some s \<Rightarrow> Some (s, replicate 64 0 @ drop 64 b))
        else Some ([], b))"

datatype conn = Watching | Closed

definition eventcb :: "bool \<Rightarrow> conn" where
  "eventcb connected = (if connected then Watching else Closed)"

section \<open>The server\<close>

definition MAX_LINE :: nat where "MAX_LINE = 4096"
definition FD_SETSIZE :: int where "FD_SETSIZE = 1024"

datatype accept_res = Accept_failed | Accept_closed | Accept_serving int

definition do_accept :: "int \<Rightarrow> accept_res" where
  "do_accept fd = (if fd < 0 then Accept_failed else if fd > FD_SETSIZE then Accept_closed else Accept_serving fd)"

text \<open>\<open>read_cb\<close>: the blocks are what \<open>bufferevent_read\<close> returns, each of at most \<open>MAX_LINE\<close> bytes; the
  zero behind a block of \<open>MAX_LINE\<close> bytes is outside the line.\<close>

fun read_cb :: "nat \<Rightarrow> byte list list \<Rightarrow> nlmsg list option" where
  "read_cb pid [] = Some []"
| "read_cb pid (line # ls) =
     (if length line < MAX_LINE then
        map_option (Cons \<lparr>nl_type = MD5_TYPE, nl_pid = pid, nl_data = line\<rparr>) (read_cb pid ls)
      else None)"

text \<open>\<open>build_md5_msg\<close>: the message is cleared and the string copied without its zero.\<close>

definition build_md5_msg :: "nat \<Rightarrow> byte list \<Rightarrow> nlmsg option" where
  "build_md5_msg pid s =
     (if length s \<le> MAX_PAYLOAD
      then Some \<lparr>nl_type = MD5_TYPE, nl_pid = pid, nl_data = s @ replicate (MAX_PAYLOAD - length s) 0\<rparr> else None)"

fun old_read_cb :: "nat \<Rightarrow> byte list list \<Rightarrow> nlmsg list option" where
  "old_read_cb pid [] = Some []"
| "old_read_cb pid (line # ls) =
     (if length line < MAX_LINE then
        (case build_md5_msg pid (takeWhile (\<lambda>c. c \<noteq> 0) line) of None \<Rightarrow> None
         | Some m \<Rightarrow> map_option (Cons m) (old_read_cb pid ls))
      else None)"

text \<open>\<open>main\<close>: the exit status, and whether the event loop was started.\<close>

definition nl_main :: "bool \<Rightarrow> bool \<Rightarrow> int \<Rightarrow> bool \<Rightarrow> bool \<Rightarrow> nat \<times> bool" where
  "nl_main create1 join1 res_check create2 join2 =
     (if \<not> create1 then (1, False) else if \<not> join1 then (1, False) else if res_check \<noteq> 0 then (1, False)
      else if \<not> create2 then (1, False) else if \<not> join2 then (1, True) else (0, True))"

section \<open>Forwarding\<close>

lemma lx_text_facts: "length lx_text = 28" "0 \<notin> set lx_text"
  by (simp_all add: lx_text_def cstr_def)

lemma takeWhile_no_zero: "0 \<notin> set s \<Longrightarrow> takeWhile (\<lambda>c. c \<noteq> (0 :: byte)) (s @ 0 # r) = s"
  by (induction s) auto

lemma takeWhile_clean: "0 \<notin> set s \<Longrightarrow> takeWhile (\<lambda>c. c \<noteq> (0 :: byte)) s = s"
  by (induction s) auto

lemma sixteen_zeros: "replicate 16 (0 :: byte) = 0 # replicate 15 0"
  by (simp add: replicate_Suc [symmetric] del: replicate_Suc)

text \<open>The raw socket client forwards a text of up to 112 bytes as it is; a longer one is copied
  beyond its buffer of 128 bytes.\<close>

theorem old_event_forwards:
  assumes "0 \<notin> set (nl_data m)" "length buf = 128"
  shows "old_event_handler (Some m) buf =
    (if length (nl_data m) \<le> 112 then
       Some (nl_data m, replicate 64 0 @ drop 64 (nl_data m @ replicate 16 0 @ drop (16 + length (nl_data m)) buf))
     else None)"
proof -
  let ?d = "nl_data m"
  have area: "takeWhile (\<lambda>c. c \<noteq> 0) (take (16 + length ?d) (rece_area m)) = ?d" if "length ?d \<le> 112"
  proof -
    have "take (16 + length ?d) (rece_area m) = ?d @ replicate 16 0"
      using that by (simp add: rece_area_def MAX_PAYLOAD_def min_def)
    then show ?thesis using assms(1) by (simp add: sixteen_zeros takeWhile_no_zero)
  qed
  have str: "c_string (?d @ replicate 16 0 @ r) = Some ?d" for r
    using assms(1) by (simp add: c_string_def sixteen_zeros takeWhile_no_zero)
  show ?thesis
  proof (cases "length ?d \<le> 112")
    case True
    then have "strncpy buf (rece_area m) (16 + length ?d) = Some (?d @ replicate 16 0 @ drop (16 + length ?d) buf)"
      using assms(2) by (simp add: strncpy_def area Let_def)
    then show ?thesis
      using True str by (simp add: old_event_handler_def old_rece_from_kernel_def Let_def min_def MAX_PAYLOAD_def)
  next
    case False
    then show ?thesis using assms(2)
      by (simp add: old_event_handler_def old_rece_from_kernel_def Let_def min_def MAX_PAYLOAD_def strncpy_def)
  qed
qed

text \<open>The libnl client forwards its module's text when a zero follows it in memory.\<close>

lemma event_forwards:
  assumes "length buf = 64" "nl_type m = NLMSG_DONE" "nl_data m = lx_text"
  shows "event_handler (0 # pad) m buf = Some (lx_text, replicate 64 0)"
proof -
  have "c_string (lx_text @ 0 # pad) = Some lx_text" by (simp add: c_string_def takeWhile_no_zero lx_text_facts)
  with assms lx_text_facts show ?thesis
    by (simp add: event_handler_def data_from_kernel_def NLMSG_DONE_def strcpy_def Let_def lx_text_def [symmetric])
qed

text \<open>The servers: the messages carry the bytes of the stream, however it is cut into blocks.\<close>

lemma read_cb_conserves:
  assumes "\<forall>l \<in> set ls. length l < MAX_LINE"
  shows "\<exists>ms. read_cb pid ls = Some ms \<and> concat (map nl_data ms) = concat ls \<and> (\<forall>m \<in> set ms. nl_type m = MD5_TYPE)"
  using assms by (induction ls) auto

lemma old_read_cb_conserves:
  assumes "\<forall>l \<in> set ls. length l \<le> MAX_PAYLOAD \<and> 0 \<notin> set l"
  shows "\<exists>ms. old_read_cb pid ls = Some ms \<and> (\<forall>m \<in> set ms. nl_type m = MD5_TYPE)
    \<and> concat (map (\<lambda>m. takeWhile (\<lambda>c. c \<noteq> 0) (nl_data m)) ms) = concat ls"
  using assms
proof (induction ls)
  case (Cons l ls)
  then have l: "0 \<notin> set l" "length l \<le> MAX_PAYLOAD" "length l < MAX_LINE"
    by (auto simp: MAX_PAYLOAD_def MAX_LINE_def)
  have "takeWhile (\<lambda>c. c \<noteq> 0) (l @ replicate n 0) = l" for n
    using l(1) by (cases n) (simp_all add: takeWhile_no_zero takeWhile_clean)
  with Cons l show ?case by (auto simp: build_md5_msg_def takeWhile_clean)
qed simp

text \<open>A block that fills the line, or a string longer than the message, is written out of bounds.\<close>

theorem read_cb_overflows:
  "(length line = MAX_LINE \<longrightarrow> read_cb pid (line # ls) = None)
   \<and> (MAX_PAYLOAD < length line \<and> 0 \<notin> set line \<longrightarrow> old_read_cb pid (line # ls) = None)"
  by (auto simp: build_md5_msg_def takeWhile_clean)

text \<open>
  (C28) From module to module with the raw socket programs: a tick of the receiving module's timer
  reaches the sending module as messages whose texts together are the text sent, however TCP
  cuts the stream, and no message is answered.
\<close>

theorem relay_end_to_end:
  assumes "lx_pid k \<noteq> 1" "lx_send_message True k = (k', Some m)" "length buf = 128"
  shows "\<exists>out buf'. old_event_handler (Some m) buf = Some (out, buf') \<and>
    (\<forall>ls. concat ls = out \<longrightarrow> (\<exists>ms. old_read_cb pid ls = Some ms
       \<and> concat (map (\<lambda>m. takeWhile (\<lambda>c. c \<noteq> 0) (nl_data m)) ms) = lx_text
       \<and> (\<forall>m \<in> set ms. \<forall>a q. send_nl_data_ready a m q = Some (q, None))))"
proof -
  have m: "nl_data m = lx_text" using assms(1,2) by (auto simp: lx_send_message_def Let_def)
  from old_event_forwards [of m buf] assms(3) obtain buf' where ev: "old_event_handler (Some m) buf = Some (lx_text, buf')"
    by (simp add: m lx_text_facts)
  have "\<exists>ms. old_read_cb pid ls = Some ms \<and> concat (map (\<lambda>m. takeWhile (\<lambda>c. c \<noteq> 0) (nl_data m)) ms) = lx_text
       \<and> (\<forall>m \<in> set ms. \<forall>a q. send_nl_data_ready a m q = Some (q, None))" if ls: "concat ls = lx_text" for ls
  proof -
    have "\<forall>l \<in> set ls. length l \<le> MAX_PAYLOAD \<and> 0 \<notin> set l"
    proof
      fix l assume "l \<in> set ls"
      then obtain ls1 ls2 where "ls = ls1 @ l # ls2" by (meson split_list)
      with ls have split: "lx_text = concat ls1 @ l @ concat ls2" by simp
      from arg_cong [OF this, of length] have "length l \<le> 28" using lx_text_facts(1) by simp
      moreover have "0 \<notin> set l" using lx_text_facts(2) arg_cong [OF split, of set] by simp
      ultimately show "length l \<le> MAX_PAYLOAD \<and> 0 \<notin> set l" by (simp add: MAX_PAYLOAD_def)
    qed
    from old_read_cb_conserves [OF this, of pid] ls show ?thesis
      by (auto simp: send_nl_data_ready_def MD5_TYPE_def PING_PONG_TYPE_def)
  qed
  with ev show ?thesis by auto
qed

lemma relay_end_to_end_witness:
  "\<exists>out buf'. old_event_handler (Some \<lparr>nl_type = NLMSG_DONE, nl_pid = 0, nl_data = lx_text\<rparr>) (replicate 128 0) = Some (out, buf') \<and>
    (\<forall>ls. concat ls = out \<longrightarrow> (\<exists>ms. old_read_cb 5 ls = Some ms
       \<and> concat (map (\<lambda>m. takeWhile (\<lambda>c. c \<noteq> 0) (nl_data m)) ms) = lx_text
       \<and> (\<forall>m \<in> set ms. \<forall>a q. send_nl_data_ready a m q = Some (q, None))))"
  by (rule relay_end_to_end [of "\<lparr>lx_sock = True, lx_pid = 77, lx_timer = True\<rparr>"])
    (simp_all add: lx_send_message_def)

end
