(* ===== verification/Bstr.thy ===== *)
theory Bstr
  imports Chunk_Store
begin

unbundle bit_operations_syntax

text \<open>
  The string type of the containers: the memory management and the editing operations of
  \<open>lcthw/bstrlib.c\<close>. A string is a header with its length, the size of its memory (not positive:
  read only) and the memory. Cells never written, writes outside the memory and reads of either
  are faults (\<open>None\<close>). A null pointer to a header is \<open>NULL_b\<close>, that every operation refuses.
\<close>

section \<open>State\<close>

record bstr =
  bs_mlen :: int
  bs_slen :: int
  bs_data :: "block option"

definition NULL_b :: bstr where
  "NULL_b = \<lparr>bs_mlen = - 1, bs_slen = - 1, bs_data = None\<rparr>"

definition BSTR_OK :: int where "BSTR_OK = 0"
definition BSTR_ERR :: int where "BSTR_ERR = - 1"

text \<open>What the allocator answers during an operation: to the request for a header, for a new block, for a
  block of the snapped size, and for one of the tightest size.\<close>

record bmem =
  m_hdr :: bool
  m_alloc :: bool
  m_snap :: bool
  m_tight :: bool

text \<open>One byte of a block.\<close>

definition poke :: "block \<Rightarrow> int \<Rightarrow> byte \<Rightarrow> block option" where
  "poke d i c = (if 0 \<le> i \<and> nat i < length d then Some (d[nat i := Some c]) else None)"

text \<open>\<open>memmove\<close> inside a block, and from another one.\<close>

definition copy_from :: "block \<Rightarrow> int \<Rightarrow> block \<Rightarrow> int \<Rightarrow> int \<Rightarrow> block option" where
  "copy_from d off src pos len =
     (if len \<le> 0 then Some d
      else if off < 0 \<or> pos < 0 then None
      else case read_block src (nat pos) (nat len) of None \<Rightarrow> None | Some xs \<Rightarrow> memcpy_at d (nat off) xs)"

definition store :: "bstr \<Rightarrow> block option \<Rightarrow> int \<Rightarrow> (int \<times> bstr) option" where
  "store b d len = (case d of None \<Rightarrow> None
     | Some d1 \<Rightarrow> map_option (\<lambda>d2. (BSTR_OK, b\<lparr>bs_data := Some d2, bs_slen := len\<rparr>)) (poke d1 len 0))"

section \<open>Allocation\<close>

definition snapUpSize :: "int \<Rightarrow> int" where
  "snapUpSize i =
     (if i < 8 then 8
      else let j = word_of_int i :: u32;
               j = j OR drop_bit 1 j; j = j OR drop_bit 2 j; j = j OR drop_bit 4 j;
               j = j OR drop_bit 8 j; j = j OR drop_bit 16 j; j = j + 1
           in if i \<le> sint j then sint j else i)"

definition not_writable :: "bstr \<Rightarrow> bool" where
  "not_writable b \<longleftrightarrow> bs_data b = None \<or> bs_slen b < 0 \<or> bs_mlen b \<le> 0 \<or> bs_mlen b < bs_slen b"

definition balloc :: "bmem \<Rightarrow> bstr \<Rightarrow> int \<Rightarrow> (int \<times> bstr) option" where
  "balloc m b olen =
     (if not_writable b \<or> olen \<le> 0 then Some (BSTR_ERR, b)
      else if olen < bs_mlen b then Some (BSTR_OK, b)
      else let len = snapUpSize olen; d = the (bs_data b) in
      if len \<le> bs_mlen b then Some (BSTR_OK, b)
      else
        let realloc = (if m_snap m then Some (realloc_block d (nat len), len)
                       else if m_tight m then Some (realloc_block d (nat olen), olen) else None);
            x = (if c_int (7 * bs_mlen b) < c_int (8 * bs_slen b) \<or> \<not> m_alloc m then realloc
                 else Some (take (nat (bs_slen b)) d @ malloc_block (nat (len - bs_slen b)), len))
        in case x of None \<Rightarrow> Some (BSTR_ERR, b)
           | Some (x, n) \<Rightarrow> map_option (\<lambda>x'. (BSTR_OK, b\<lparr>bs_data := Some x', bs_mlen := n\<rparr>)) (poke x (bs_slen b) 0))"

definition ballocmin :: "bmem \<Rightarrow> bstr \<Rightarrow> int \<Rightarrow> (int \<times> bstr) option" where
  "ballocmin m b len =
     (if bs_data b = None \<or> c_int (bs_slen b + 1) < 0 \<or> bs_mlen b \<le> 0 \<or> bs_mlen b < bs_slen b \<or> len \<le> 0
      then Some (BSTR_ERR, b)
      else let len = (if len < bs_slen b + 1 then bs_slen b + 1 else len) in
      if len = bs_mlen b then Some (BSTR_OK, b)
      else if \<not> m_tight m then Some (BSTR_ERR, b)
      else map_option (\<lambda>x. (BSTR_OK, b\<lparr>bs_data := Some x, bs_mlen := len\<rparr>))
             (poke (realloc_block (the (bs_data b)) (nat len)) (bs_slen b) 0))"

section \<open>Creation\<close>

text \<open>A C string is the list of its characters before the terminating zero.\<close>

definition bnew :: "int \<Rightarrow> int \<Rightarrow> byte list \<Rightarrow> bstr option option" where
  "bnew i len xs = map_option (\<lambda>d. Some \<lparr>bs_mlen = i, bs_slen = len, bs_data = Some d\<rparr>)
     (memcpy_at (malloc_block (nat i)) 0 (xs @ [0]))"

definition bfromcstralloc :: "bmem \<Rightarrow> int \<Rightarrow> byte list \<Rightarrow> bstr option option" where
  "bfromcstralloc m mlen str =
     (let j = int (length str); i = snapUpSize (c_int (j + (if j \<noteq> 0 then 1 else 2))) in
      if i \<le> c_int j then Some None
      else if \<not> m_hdr m then Some None
      else let i = (if i < mlen then mlen else i) in
      if \<not> m_snap m then Some None else bnew i (c_int j) str)"

definition bfromcstr :: "bmem \<Rightarrow> byte list \<Rightarrow> bstr option option" where
  "bfromcstr m str =
     (let j = int (length str); i = snapUpSize (c_int (j + (if j \<noteq> 0 then 1 else 2))) in
      if i \<le> c_int j then Some None
      else if \<not> m_hdr m \<or> \<not> m_snap m then Some None else bnew i (c_int j) str)"

definition blk2bstr :: "bmem \<Rightarrow> block option \<Rightarrow> int \<Rightarrow> bstr option option" where
  "blk2bstr m blk len =
     (case blk of None \<Rightarrow> Some None
      | Some d \<Rightarrow>
        if len < 0 \<or> \<not> m_hdr m then Some None
        else let i = snapUpSize (c_int (len + (if len \<noteq> 0 then 1 else 2))) in
        if \<not> m_snap m then Some None
        else case read_block d 0 (nat len) of None \<Rightarrow> None | Some xs \<Rightarrow> bnew i len xs)"

definition bstrcpy :: "bmem \<Rightarrow> bstr \<Rightarrow> bstr option option" where
  "bstrcpy m b =
     (if bs_slen b < 0 \<or> bs_data b = None \<or> \<not> m_hdr m then Some None
      else let i = bs_slen b; j = snapUpSize (c_int (i + 1)) in
      if \<not> m_snap m \<and> \<not> m_tight m then Some None
      else case read_block (the (bs_data b)) 0 (nat i) of None \<Rightarrow> None
        | Some xs \<Rightarrow> bnew (if m_snap m then j else c_int (i + 1)) i xs)"

definition bmidstr :: "bmem \<Rightarrow> bstr \<Rightarrow> int \<Rightarrow> int \<Rightarrow> bstr option option" where
  "bmidstr m b left len =
     (if bs_slen b < 0 \<or> bs_data b = None then Some None
      else let len = (if left < 0 then c_int (len + left) else len); left = (if left < 0 then 0 else left);
               len = (if len > bs_slen b - left then bs_slen b - left else len) in
      if len \<le> 0 then bfromcstr m []
      else blk2bstr m (map_option (drop (nat left)) (bs_data b)) len)"

text \<open>The C string of a string, its zeros replaced.\<close>

definition bstr2cstr :: "bmem \<Rightarrow> bstr \<Rightarrow> byte \<Rightarrow> byte list option option" where
  "bstr2cstr m b z =
     (if bs_slen b < 0 \<or> bs_data b = None \<or> \<not> m_snap m then Some None
      else map_option (\<lambda>xs. Some (map (\<lambda>c. if c = 0 then z else c) xs)) (read_block (the (bs_data b)) 0 (nat (bs_slen b))))"

section \<open>Editing\<close>

text \<open>
  A string operand may be a header of its own (\<open>Sep\<close>), or its data may point into the memory of
  the string that is edited (\<open>Alias\<close>, with the offset and the length).
\<close>

datatype operand = Sep bstr | Alias nat int

definition op_view :: "bstr \<Rightarrow> operand \<Rightarrow> bstr" where
  "op_view b op = (case op of Sep b1 \<Rightarrow> b1
     | Alias off len \<Rightarrow> \<lparr>bs_mlen = - 1, bs_slen = len, bs_data = map_option (drop off) (bs_data b)\<rparr>)"

definition inside :: "bstr \<Rightarrow> operand \<Rightarrow> bool" where
  "inside b op = (case op of Sep b1 \<Rightarrow> False | Alias off len \<Rightarrow> int off < bs_mlen b)"

text \<open>An aliased operand is copied first.\<close>

definition bcopy_op :: "bmem \<Rightarrow> bstr \<Rightarrow> operand \<Rightarrow> bstr option option" where
  "bcopy_op m b op = (if inside b op then bstrcpy m (op_view b op) else Some (Some (op_view b op)))"

text \<open>Go on after a successful \<open>balloc\<close>.\<close>

definition after_alloc :: "(int \<times> bstr) option \<Rightarrow> (bstr \<Rightarrow> (int \<times> bstr) option) \<Rightarrow> (int \<times> bstr) option" where
  "after_alloc r k = (case r of None \<Rightarrow> None | Some (rc, b) \<Rightarrow> if rc \<noteq> BSTR_OK then Some (BSTR_ERR, b) else k b)"

definition bconcat :: "bmem \<Rightarrow> bmem \<Rightarrow> bstr \<Rightarrow> operand \<Rightarrow> (int \<times> bstr) option" where
  "bconcat mc m b0 op =
     (let b1 = op_view b0 op; d = bs_slen b0; len = bs_slen b1 in
      if bs_data b0 = None \<or> bs_data b1 = None
        \<or> d < 0 \<or> c_int (bs_mlen b0 - d) < 0 \<or> len < 0 \<or> c_int (d + len) < 0 then Some (BSTR_ERR, b0)
      else if bs_mlen b0 \<le> c_int (d + len + 1) then
        (case bcopy_op mc b0 op of None \<Rightarrow> None | Some None \<Rightarrow> Some (BSTR_ERR, b0)
         | Some (Some aux) \<Rightarrow> after_alloc (balloc m b0 (c_int (d + len + 1)))
             (\<lambda>b. store b (copy_from (the (bs_data b)) d (the (bs_data aux)) 0 len) (d + len)))
      else store b0 (copy_from (the (bs_data b0)) d (the (bs_data b1)) 0 len) (d + len))"

definition bconchar :: "bmem \<Rightarrow> bstr \<Rightarrow> byte \<Rightarrow> (int \<times> bstr) option" where
  "bconchar m b c =
     (let d = bs_slen b in
      if d < 0 \<or> c_int (bs_mlen b - d) < 0 then Some (BSTR_ERR, b)
      else after_alloc (balloc m b (c_int (d + 2))) (\<lambda>b'. store b' (poke (the (bs_data b')) d c) (d + 1)))"

definition bcatblk :: "bmem \<Rightarrow> bstr \<Rightarrow> block option \<Rightarrow> int \<Rightarrow> (int \<times> bstr) option" where
  "bcatblk m b s len =
     (if not_writable b \<or> s = None \<or> len < 0 then Some (BSTR_ERR, b)
      else let nl = c_int (bs_slen b + len) in
      if nl < 0 then Some (BSTR_ERR, b)
      else after_alloc (if bs_mlen b \<le> nl then balloc m b (c_int (nl + 1)) else Some (BSTR_OK, b))
        (\<lambda>b'. store b' (copy_from (the (bs_data b')) (bs_slen b') (the s) 0 len) nl))"

text \<open>\<open>bcatcstr\<close> first fills the memory at hand, and appends the rest as a block.\<close>

definition bcatcstr :: "bmem \<Rightarrow> bstr \<Rightarrow> byte list \<Rightarrow> (int \<times> bstr) option" where
  "bcatcstr m b s =
     (if not_writable b then Some (BSTR_ERR, b)
      else let l = nat (bs_mlen b - bs_slen b); off = nat (bs_slen b); d = the (bs_data b) in
      if length s < l
      then map_option (\<lambda>d'. (BSTR_OK, b\<lparr>bs_data := Some d', bs_slen := bs_slen b + int (length s)\<rparr>)) (memcpy_at d off (s @ [0]))
      else case memcpy_at d off (take l s) of None \<Rightarrow> None
        | Some d' \<Rightarrow> bcatblk m (b\<lparr>bs_data := Some d', bs_slen := bs_slen b + int l\<rparr>)
            (Some (map Some (drop l s @ [0]))) (c_int (int (length (drop l s)))))"

text \<open>The data of an operand once the target may have moved: an alias then dangles.\<close>

definition op_data_after :: "bstr \<Rightarrow> bstr \<Rightarrow> operand \<Rightarrow> block option" where
  "op_data_after b b' op = (case op of Sep b1 \<Rightarrow> bs_data b1
     | Alias off len \<Rightarrow> if bs_mlen b' = bs_mlen b then map_option (drop off) (bs_data b') else None)"

definition bassign :: "bmem \<Rightarrow> bstr \<Rightarrow> operand \<Rightarrow> (int \<times> bstr) option" where
  "bassign m a op =
     (let b = op_view a op; n = bs_slen b in
      if bs_data b = None \<or> n < 0 then Some (BSTR_ERR, a)
      else if n \<noteq> 0 then after_alloc (balloc m a n) (\<lambda>a'.
        case op_data_after a a' op of None \<Rightarrow> None | Some d \<Rightarrow> store a' (copy_from (the (bs_data a')) 0 d 0 n) n)
      else if bs_data a = None \<or> bs_mlen a < bs_slen a \<or> bs_slen a < 0 \<or> bs_mlen a = 0 then Some (BSTR_ERR, a)
      else store a (bs_data a) 0)"

definition bassignmidstr :: "bmem \<Rightarrow> bstr \<Rightarrow> operand \<Rightarrow> int \<Rightarrow> int \<Rightarrow> (int \<times> bstr) option" where
  "bassignmidstr m a op left len =
     (let b = op_view a op in
      if bs_data b = None \<or> bs_slen b < 0 then Some (BSTR_ERR, a)
      else let len = (if left < 0 then c_int (len + left) else len); left = (if left < 0 then 0 else left);
               len = (if len > bs_slen b - left then bs_slen b - left else len) in
      if bs_data a = None \<or> bs_mlen a < bs_slen a \<or> bs_slen a < 0 \<or> bs_mlen a = 0 then Some (BSTR_ERR, a)
      else if len > 0 then after_alloc (balloc m a len) (\<lambda>a'.
        case op_data_after a a' op of None \<Rightarrow> None | Some d \<Rightarrow> store a' (copy_from (the (bs_data a')) 0 d left len) len)
      else store a (bs_data a) 0)"

definition bassigncstr :: "bmem \<Rightarrow> bstr \<Rightarrow> byte list \<Rightarrow> (int \<times> bstr) option" where
  "bassigncstr m a str =
     (if bs_data a = None \<or> bs_mlen a < bs_slen a \<or> bs_slen a < 0 \<or> bs_mlen a = 0 then Some (BSTR_ERR, a)
      else let i = nat (bs_mlen a); d = the (bs_data a) in
      if length str < i
      then map_option (\<lambda>d'. (BSTR_OK, a\<lparr>bs_data := Some d', bs_slen := int (length str)\<rparr>)) (memcpy_at d 0 (str @ [0]))
      else case memcpy_at d 0 (take i str) of None \<Rightarrow> None
        | Some d' \<Rightarrow>
          (let a1 = a\<lparr>bs_data := Some d', bs_slen := int i\<rparr>; len = length (drop i str) in
           if 2 ^ 31 \<le> i + len + 1 then Some (BSTR_ERR, a1)
           else after_alloc (balloc m a1 (int (i + len + 1))) (\<lambda>a'.
             map_option (\<lambda>d''. (BSTR_OK, a'\<lparr>bs_data := Some d'', bs_slen := bs_slen a' + int len\<rparr>))
               (memcpy_at (the (bs_data a')) i (drop i str @ [0])))))"

definition bassignblk :: "bmem \<Rightarrow> bstr \<Rightarrow> block option \<Rightarrow> int \<Rightarrow> (int \<times> bstr) option" where
  "bassignblk m a s len =
     (if bs_data a = None \<or> bs_mlen a < bs_slen a \<or> bs_slen a < 0 \<or> bs_mlen a = 0 \<or> s = None \<or> c_int (len + 1) < 1
      then Some (BSTR_ERR, a)
      else after_alloc (if len + 1 > bs_mlen a then balloc m a (len + 1) else Some (BSTR_OK, a))
        (\<lambda>a'. store a' (copy_from (the (bs_data a')) 0 (the s) 0 len) len))"

definition btrunc :: "bstr \<Rightarrow> int \<Rightarrow> (int \<times> bstr) option" where
  "btrunc b n =
     (if n < 0 \<or> not_writable b then Some (BSTR_ERR, b)
      else if bs_slen b > n then store b (bs_data b) n else Some (BSTR_OK, b))"

definition bdelete :: "bstr \<Rightarrow> int \<Rightarrow> int \<Rightarrow> (int \<times> bstr) option" where
  "bdelete b pos len =
     (let len = (if pos < 0 then c_int (len + pos) else len); pos = (if pos < 0 then 0 else pos) in
      if len < 0 \<or> not_writable b then Some (BSTR_ERR, b)
      else if len > 0 \<and> pos < bs_slen b then
        if c_int (pos + len) \<ge> bs_slen b then store b (bs_data b) pos
        else store b (copy_from (the (bs_data b)) pos (the (bs_data b)) (pos + len) (bs_slen b - (pos + len))) (bs_slen b - len)
      else Some (BSTR_OK, b))"

definition fill_from :: "block \<Rightarrow> int \<Rightarrow> int \<Rightarrow> byte \<Rightarrow> block option" where
  "fill_from d off n c = (if n \<le> 0 then Some d else if off < 0 then None else memcpy_at d (nat off) (replicate (nat n) c))"

definition bsetstr :: "bmem \<Rightarrow> bmem \<Rightarrow> bstr \<Rightarrow> int \<Rightarrow> operand option \<Rightarrow> byte \<Rightarrow> (int \<times> bstr) option" where
  "bsetstr mc m b0 pos op fill =
     (if pos < 0 \<or> not_writable b0 then Some (BSTR_ERR, b0)
      else if \<exists>p. op = Some p \<and> (bs_slen (op_view b0 p) < 0 \<or> bs_data (op_view b0 p) = None) then Some (BSTR_ERR, b0)
      else case (case op of None \<Rightarrow> Some (Some NULL_b) | Some p \<Rightarrow> bcopy_op mc b0 p) of
        None \<Rightarrow> None | Some None \<Rightarrow> Some (BSTR_ERR, b0)
      | Some (Some aux) \<Rightarrow>
        (let n = (case op of None \<Rightarrow> 0 | Some p \<Rightarrow> bs_slen aux); d = c_int (pos + n) in
         after_alloc (balloc m b0 (c_int (d + 1))) (\<lambda>b.
           let newlen = (if pos > bs_slen b then pos else bs_slen b) in
           case fill_from (the (bs_data b)) (bs_slen b) (pos - bs_slen b) fill of None \<Rightarrow> None
           | Some d1 \<Rightarrow> store b (case op of None \<Rightarrow> Some d1 | Some p \<Rightarrow> copy_from d1 pos (the (bs_data aux)) 0 n)
               (if d > newlen then d else newlen))))"

definition binsert :: "bmem \<Rightarrow> bmem \<Rightarrow> bstr \<Rightarrow> int \<Rightarrow> operand \<Rightarrow> byte \<Rightarrow> (int \<times> bstr) option" where
  "binsert mc m b1 pos op fill =
     (if pos < 0 \<or> bs_slen b1 < 0 \<or> bs_slen (op_view b1 op) < 0 \<or> bs_mlen b1 < bs_slen b1 \<or> bs_mlen b1 \<le> 0
      then Some (BSTR_ERR, b1)
      else case bcopy_op mc b1 op of None \<Rightarrow> None | Some None \<Rightarrow> Some (BSTR_ERR, b1)
      | Some (Some aux) \<Rightarrow>
        (let n = bs_slen aux; d = c_int (bs_slen b1 + n); l = c_int (pos + n) in
         if d < 0 \<or> l < 0 then Some (BSTR_ERR, b1)
         else after_alloc (balloc m b1 (c_int ((if l > d then l else d) + 1))) (\<lambda>b.
           case (if l > d then fill_from (the (bs_data b)) (bs_slen b) (pos - bs_slen b) fill
                 else copy_from (the (bs_data b)) l (the (bs_data b)) pos (d - l)) of None \<Rightarrow> None
           | Some d1 \<Rightarrow> (case bs_data aux of None \<Rightarrow> if n > 0 then None else store b (Some d1) (if l > d then l else d)
               | Some da \<Rightarrow> store b (copy_from d1 pos da 0 n) (if l > d then l else d)))))"

definition binsertch :: "bmem \<Rightarrow> bstr \<Rightarrow> int \<Rightarrow> int \<Rightarrow> byte \<Rightarrow> (int \<times> bstr) option" where
  "binsertch m b pos len fill =
     (if pos < 0 \<or> bs_slen b < 0 \<or> bs_mlen b < bs_slen b \<or> bs_mlen b \<le> 0 \<or> len < 0 then Some (BSTR_ERR, b)
      else let d = c_int (bs_slen b + len); l = c_int (pos + len) in
      if d < 0 \<or> l < 0 then Some (BSTR_ERR, b)
      else after_alloc (balloc m b (c_int ((if l > d then l else d) + 1))) (\<lambda>b'.
        if l > d then store b' (fill_from (the (bs_data b')) (bs_slen b') (l - bs_slen b') fill) l
        else case copy_from (the (bs_data b')) l (the (bs_data b')) pos (d - l) of None \<Rightarrow> None
          | Some d1 \<Rightarrow> store b' (fill_from d1 pos (l - pos) fill) d))"

text \<open>\<open>bpattern\<close>: \<open>k\<close> bytes from position \<open>i\<close> on are copied from \<open>d\<close> positions before.\<close>

fun pattern_loop :: "nat \<Rightarrow> nat \<Rightarrow> nat \<Rightarrow> block \<Rightarrow> block option" where
  "pattern_loop 0 i d blk = Some blk"
| "pattern_loop (Suc k) i d blk =
     (case read_block blk (i - d) 1 of None \<Rightarrow> None
      | Some xs \<Rightarrow> (case poke blk (int i) (hd xs) of None \<Rightarrow> None | Some blk' \<Rightarrow> pattern_loop k (Suc i) d blk'))"

definition bpattern :: "bmem \<Rightarrow> bmem \<Rightarrow> bstr \<Rightarrow> int \<Rightarrow> (int \<times> bstr) option" where
  "bpattern ms m b len =
     (let d = (if bs_slen b < 0 then 0 else bs_slen b) in
      if d \<le> 0 \<or> len < 0 then Some (BSTR_ERR, b)
      else after_alloc (balloc m b (c_int (len + 1))) (\<lambda>b'.
        if len > 0 \<and> d = 1 then
          (case read_block (the (bs_data b')) 0 1 of None \<Rightarrow> None | Some xs \<Rightarrow> bsetstr ms ms b' len None (hd xs))
        else store b' (pattern_loop (nat (len - d)) (nat d) (nat d) (the (bs_data b'))) len))"

section \<open>The snapped size\<close>

lemma bit_smear:
  fixes j :: u32
  assumes "\<And>n. bit j n \<longleftrightarrow> (\<exists>m < k. bit x (n + m))" "0 < k"
  shows "bit (j OR drop_bit k j) n \<longleftrightarrow> (\<exists>m < 2 * k. bit x (n + m))"
proof -
  have "(\<exists>m < 2 * k. bit x (n + m)) \<longleftrightarrow> (\<exists>m < k. bit x (n + m)) \<or> (\<exists>m < k. bit x (n + k + m))"
  proof (intro iffI; elim exE conjE disjE)
    fix m assume m: "m < 2 * k" "bit x (n + m)"
    show "(\<exists>m < k. bit x (n + m)) \<or> (\<exists>m < k. bit x (n + k + m))"
    proof (cases "m < k")
      case False
      with m have "m - k < k" "bit x (n + k + (m - k))" by simp_all
      then show ?thesis by blast
    qed (use m in blast)
  next
    fix m assume "m < k" "bit x (n + m)"
    then show "\<exists>m < 2 * k. bit x (n + m)" by (intro exI [of _ m]) simp
  next
    fix m assume "m < k" "bit x (n + k + m)"
    then show "\<exists>m < 2 * k. bit x (n + m)" by (intro exI [of _ "k + m"]) (simp add: add.assoc)
  qed
  then show ?thesis using assms(1) by (auto simp: bit_or_iff bit_drop_bit_eq add.commute [of k])
qed

definition smear :: "u32 \<Rightarrow> u32" where
  "smear j = (let j = j OR drop_bit 1 j; j = j OR drop_bit 2 j; j = j OR drop_bit 4 j; j = j OR drop_bit 8 j
     in j OR drop_bit 16 j)"

lemma bit_smear_all: "bit (smear x) n \<longleftrightarrow> (\<exists>m < 32. bit x (n + m))"
proof -
  have 1: "bit x n \<longleftrightarrow> (\<exists>m < 1. bit x (n + m))" for n by simp
  note 2 = bit_smear [OF 1, simplified]
  note 4 = bit_smear [OF 2, simplified]
  note 8 = bit_smear [OF 4, simplified]
  note 16 = bit_smear [OF 8, simplified]
  show ?thesis using bit_smear [OF 16, of n] by (simp add: smear_def Let_def)
qed

text \<open>The bits below the highest one: the least power of two above the size, less one.\<close>

lemma smear_mask:
  assumes "2 ^ h \<le> unat x" "unat x < 2 ^ Suc h"
  shows "smear x = mask (Suc h)"
proof (rule bit_word_eqI)
  fix n assume n: "n < LENGTH(32)"
  have top: "bit x h" "\<And>k. h < k \<Longrightarrow> \<not> bit x k"
  proof -
    have b: "bit x k \<longleftrightarrow> odd (unat x div 2 ^ k)" for k
      using bit_unsigned_iff [of x k, where ?'a = nat] by (simp add: bit_iff_odd [of "unat x"])
    have "unat x div 2 ^ h = 1" using assms by (intro div_nat_eqI) simp_all
    then show "bit x h" by (simp add: b)
    fix k assume "h < k"
    then have "unat x < 2 ^ k" using assms(2) by (meson Suc_leI le_trans less_le_trans one_le_numeral power_increasing)
    then show "\<not> bit x k" by (simp add: b)
  qed
  show "bit (smear x) n \<longleftrightarrow> bit (mask (Suc h) :: u32) n"
  proof
    assume "bit (smear x) n"
    then obtain m where "bit x (n + m)" by (auto simp: bit_smear_all)
    then have "n + m \<le> h" using top(2) not_less by blast
    then show "bit (mask (Suc h) :: u32) n" using n by (simp add: bit_mask_iff)
  next
    assume "bit (mask (Suc h) :: u32) n"
    then have "n \<le> h" by (simp add: bit_mask_iff)
    moreover have "h < 32" using top(1) bit_imp_le_length [of x h] by simp
    ultimately show "bit (smear x) n" using top(1) by (auto simp: bit_smear_all intro!: exI [of _ "h - n"])
  qed
qed

lemma snapUpSize_smear:
  "snapUpSize i = (if i < 8 then 8 else if i \<le> sint (smear (word_of_int i) + 1) then sint (smear (word_of_int i) + 1) else i)"
  by (simp add: snapUpSize_def smear_def Let_def)

lemma snapUpSize_at:
  assumes "2 ^ h \<le> i" "i < 2 ^ Suc h" "3 \<le> h" "h \<le> 30"
  shows "snapUpSize i = (if h \<le> 29 then 2 ^ Suc h else i)"
proof -
  have "(2 :: int) ^ 3 \<le> 2 ^ h" "(2 :: int) ^ Suc h \<le> 2 ^ 31" using assms by (intro power_increasing; simp)+
  then have i: "8 \<le> i" "i < 2 ^ 31" using assms by simp_all
  then have u: "unat (word_of_int i :: u32) = nat i" by (simp add: unsigned_of_int take_bit_int_eq_self)
  have "2 ^ h \<le> nat i" "nat i < 2 ^ Suc h" using assms i by (simp_all add: nat_less_iff le_nat_iff)
  then have s: "smear (word_of_int i) + 1 = 2 ^ Suc h" using smear_mask [of h "word_of_int i"] u by (simp add: mask_eq_exp_minus_1)
  show ?thesis
  proof (cases "h \<le> 29")
    case True
    have p: "(2 :: int) ^ Suc h \<le> 2 ^ 30" "(0 :: int) \<le> 2 ^ Suc h" using True by (intro power_increasing) simp_all
    have w: "(2 :: u32) ^ Suc h = word_of_int (2 ^ Suc h)" by simp
    have "signed_take_bit 31 (2 ^ Suc h) = (2 ^ Suc h :: int)"
      using p by (intro signed_take_bit_int_eq_self order_trans [OF _ p(2)]) (simp_all del: power_Suc)
    then have "sint ((2 :: u32) ^ Suc h) = 2 ^ Suc h" unfolding w sint_sbintrunc' by simp
    then show ?thesis using True assms i s by (simp add: snapUpSize_smear)
  next
    case False
    then have "h = 30" using assms by simp
    then have "smear (word_of_int i) + 1 = (2147483648 :: u32)" using s by simp
    then show ?thesis using i False by (simp add: snapUpSize_smear)
  qed
qed

text \<open>The size is at least the request; below \<open>2^30\<close> it is larger, a power of two, and at most twice the request.\<close>

lemma snapUpSize_bounds:
  assumes "i < 2 ^ 31"
  shows "i \<le> snapUpSize i \<and> 8 \<le> snapUpSize i \<and> snapUpSize i < 2 ^ 31
    \<and> (i < 2 ^ 30 \<longrightarrow> i < snapUpSize i \<and> snapUpSize i \<le> max 8 (2 * i) \<and> (\<exists>k. snapUpSize i = 2 ^ k))"
proof (cases "i < 8")
  case True
  have "\<exists>k. (8 :: int) = 2 ^ k" by (rule exI [of _ 3]) simp
  then show ?thesis using True by (simp add: snapUpSize_smear)
next
  case False
  have "1 \<le> nat i" using False by simp
  then obtain h where h: "2 ^ h \<le> nat i" "nat i < 2 ^ (h + 1)" using ex_power_ivl1 [of 2 "nat i"] by blast
  then have hi: "2 ^ h \<le> i" "i < 2 ^ Suc h" using False by (simp_all add: nat_less_iff le_nat_iff)
  have "3 \<le> h"
  proof (rule ccontr)
    assume "\<not> 3 \<le> h"
    then have "(2 :: int) ^ Suc h \<le> 2 ^ 3" by (intro power_increasing) simp_all
    then show False using hi False by simp
  qed
  moreover have "h \<le> 30"
  proof (rule ccontr)
    assume "\<not> h \<le> 30"
    then have "(2 :: int) ^ 31 \<le> 2 ^ h" by (intro power_increasing) simp_all
    then show False using hi assms by simp
  qed
  ultimately have s: "snapUpSize i = (if h \<le> 29 then 2 ^ Suc h else i)" using snapUpSize_at hi by blast
  show ?thesis
  proof (cases "h \<le> 29")
    case True
    have "(2 :: int) ^ Suc h \<le> 2 ^ 30" using True by (intro power_increasing) simp_all
    then show ?thesis using True s hi False by (auto intro: exI [of _ "Suc h"])
  next
    case h30: False
    then have "(2 :: int) ^ 30 \<le> 2 ^ h" by (intro power_increasing) simp_all
    then show ?thesis using h30 s hi False assms by simp
  qed
qed

section \<open>Well-formed strings\<close>

text \<open>A string that may be edited: its memory has the size of the header, the bytes of the string are
  written, and a zero follows them.\<close>

definition bstr_ok :: "bstr \<Rightarrow> bool" where
  "bstr_ok b = (case bs_data b of None \<Rightarrow> False
     | Some d \<Rightarrow> 0 \<le> bs_slen b \<and> bs_slen b < bs_mlen b \<and> bs_mlen b < 2 ^ 31 \<and> length d = nat (bs_mlen b)
         \<and> list_all (\<lambda>c. c \<noteq> None) (take (nat (bs_slen b)) d) \<and> d ! nat (bs_slen b) = Some 0)"

definition bytes :: "bstr \<Rightarrow> byte list" where
  "bytes b = map the (take (nat (bs_slen b)) (the (bs_data b)))"

definition holds :: "bstr \<Rightarrow> byte list \<Rightarrow> bool" where
  "holds b xs \<longleftrightarrow> bstr_ok b \<and> bytes b = xs"

lemma written_cells: "list_all (\<lambda>c. c \<noteq> None) cs \<Longrightarrow> map Some (map the cs) = cs"
  by (induction cs) auto

lemma read_block_cells:
  assumes "read_block d off n = Some xs"
  shows "off + n \<le> length d" "length xs = n" "take n (drop off d) = map Some xs"
proof -
  from assms have r: "off + n \<le> length d" "list_all (\<lambda>c. c \<noteq> None) (take n (drop off d))" "xs = map the (take n (drop off d))"
    by (auto simp: read_block_def split: if_splits)
  show "off + n \<le> length d" by fact
  then show "length xs = n" using r(3) by simp
  show "take n (drop off d) = map Some xs" using written_cells [OF r(2)] r(3) by simp
qed

lemma holds_iff:
  "holds b xs \<longleftrightarrow> (\<exists>rest. b = \<lparr>bs_mlen = int (length xs + 1 + length rest), bs_slen = int (length xs),
      bs_data = Some (map Some xs @ Some 0 # rest)\<rparr> \<and> length xs + 1 + length rest < 2 ^ 31)" (is "_ \<longleftrightarrow> ?r")
proof
  assume "holds b xs"
  then obtain d where d: "bs_data b = Some d" "0 \<le> bs_slen b" "bs_slen b < bs_mlen b" "bs_mlen b < 2 ^ 31"
    "length d = nat (bs_mlen b)" "list_all (\<lambda>c. c \<noteq> None) (take (nat (bs_slen b)) d)" "d ! nat (bs_slen b) = Some 0"
    "xs = map the (take (nat (bs_slen b)) d)" by (auto simp: holds_def bstr_ok_def bytes_def split: option.splits)
  define n where "n = nat (bs_slen b)"
  have n: "n < length d" "length xs = n" "map Some xs = take n d" using d written_cells [OF d(6)] by (auto simp: n_def)
  have "d = take n d @ d ! n # drop (Suc n) d" using n(1) by (rule id_take_nth_drop)
  then have "d = map Some xs @ Some 0 # drop (Suc n) d" using n d(7) by (simp add: n_def)
  moreover have "bs_slen b = int n" "bs_mlen b = int (length xs + 1 + length (drop (Suc n) d))"
    using d n by (auto simp: n_def)
  ultimately show ?r using d n
    by (intro exI [of _ "drop (Suc n) d"]) (cases b; auto)
next
  assume ?r
  then obtain rest where r: "bs_mlen b = int (length xs + 1 + length rest)" "bs_slen b = int (length xs)"
    "bs_data b = Some (map Some xs @ Some 0 # rest)" "length xs + 1 + length rest < 2 ^ 31" by auto
  have "(map Some xs @ Some 0 # rest) ! length xs = Some (0 :: byte)" using nth_append_length [of "map Some xs"] by simp
  moreover have "nat (bs_mlen b) = length xs + 1 + length rest" "bs_mlen b < 2 ^ 31" using r(1,4) by simp_all
  ultimately show "holds b xs" using r by (simp add: holds_def bstr_ok_def bytes_def list_all_iff comp_def)
qed

lemma holdsE:
  assumes "holds b xs"
  obtains rest where "bs_data b = Some (map Some xs @ Some 0 # rest)" "bs_slen b = int (length xs)"
    "bs_mlen b = int (length xs + 1 + length rest)" "length xs + 1 + length rest < 2 ^ 31" "\<not> not_writable b"
  using assms by (auto simp: holds_iff not_writable_def)

lemma holds_bytes: "bstr_ok b \<Longrightarrow> holds b (bytes b)"
  by (simp add: holds_def)

text \<open>Writing the end of a string.\<close>

lemma store_holds:
  assumes "take (length zs) d = map Some zs" "length zs < length d" "bs_mlen b = int (length d)" "length d < 2 ^ 31"
  shows "\<exists>b'. store b (Some d) (int (length zs)) = Some (BSTR_OK, b') \<and> holds b' zs \<and> bs_mlen b' = bs_mlen b"
proof -
  have "d[length zs := Some 0] = map Some zs @ Some 0 # drop (Suc (length zs)) d"
    using assms(1,2) by (simp add: upd_conv_take_nth_drop)
  then show ?thesis using assms by (auto simp: store_def poke_def holds_iff intro!: exI [of _ "drop (Suc (length zs)) d"])
qed

lemma copy_from_spec:
  assumes "ys = [] \<or> read_block src (nat pos) (length ys) = Some ys" "0 \<le> pos" "off + length ys \<le> length d"
  shows "copy_from d (int off) src pos (int (length ys)) = Some (take off d @ map Some ys @ drop (off + length ys) d)"
  using assms by (cases "ys = []") (auto simp: copy_from_def memcpy_at_def)

lemma read_prefix: "n \<le> length xs \<Longrightarrow> read_block (map Some xs @ r) 0 n = Some (take n xs)"
  by (simp add: read_block_def list_all_iff comp_def take_map)

lemma read_part:
  "pos + n \<le> length xs \<Longrightarrow> read_block (map Some xs @ r) pos n = Some (take n (drop pos xs))"
  by (simp add: read_block_def list_all_iff comp_def take_map drop_map)

section \<open>Allocation keeps the string\<close>

text \<open>The bytes of the string are there; a zero need not follow.\<close>

definition full :: "bstr \<Rightarrow> byte list \<Rightarrow> bool" where
  "full b xs \<longleftrightarrow> (\<exists>d. bs_data b = Some d \<and> bs_slen b = int (length xs) \<and> bs_mlen b = int (length d)
     \<and> take (length xs) d = map Some xs \<and> length xs \<le> length d \<and> 0 < length d \<and> length d < 2 ^ 31)"

lemma holds_full: "holds b xs \<Longrightarrow> full b xs \<and> bs_slen b < bs_mlen b"
  by (auto simp: holds_iff full_def)

lemma holds_poke:
  assumes "take (length xs) x = map Some xs" "length xs < length x" "length x < 2 ^ 31" "bs_slen b = int (length xs)"
  shows "\<exists>x'. poke x (bs_slen b) 0 = Some x' \<and> holds (b\<lparr>bs_data := Some x', bs_mlen := int (length x)\<rparr>) xs"
proof -
  have "x[length xs := Some 0] = map Some xs @ Some 0 # drop (Suc (length xs)) x"
    using assms(1,2) by (simp add: upd_conv_take_nth_drop)
  then show ?thesis using assms
    by (auto simp: poke_def holds_iff intro!: exI [of _ "drop (Suc (length xs)) x"] bstr.equality)
qed

lemma balloc_full:
  assumes b: "full b xs" and olen: "0 < olen" "olen < 2 ^ 31" "int (length xs) < max olen (bs_mlen b)"
  shows "\<exists>r b'. balloc m b olen = Some (r, b') \<and> (b' = b \<or> holds b' xs) \<and> bs_mlen b \<le> bs_mlen b'
    \<and> (r = BSTR_OK \<and> olen \<le> bs_mlen b' \<and> (m_snap m \<and> olen < 2 ^ 30 \<longrightarrow> olen < bs_mlen b')
       \<or> r = BSTR_ERR \<and> b' = b \<and> \<not> m_snap m \<and> \<not> m_tight m)"
proof -
  obtain d where d: "bs_data b = Some d" "bs_slen b = int (length xs)" "bs_mlen b = int (length d)"
    "take (length xs) d = map Some xs" "length xs \<le> length d" "0 < length d" "length d < 2 ^ 31" using b by (auto simp: full_def)
  have w: "\<not> not_writable b" using d by (simp add: not_writable_def)
  have len: "olen \<le> snapUpSize olen" "snapUpSize olen < 2 ^ 31" "olen < 2 ^ 30 \<longrightarrow> olen < snapUpSize olen"
    using snapUpSize_bounds [OF olen(2)] by auto
  show ?thesis
  proof (cases "olen < bs_mlen b \<or> snapUpSize olen \<le> bs_mlen b")
    case True
    then show ?thesis using w olen len by (auto simp: balloc_def)
  next
    case False
    have grow: "\<exists>x'. poke x (bs_slen b) 0 = Some x' \<and> holds (b\<lparr>bs_data := Some x', bs_mlen := n\<rparr>) xs"
      if "take (length xs) x = map Some xs" "int (length x) = n" "int (length xs) < n" "n < 2 ^ 31" for x n
      using holds_poke [of xs x b] that d(2) by auto
    have big: "int (length xs) < olen" "int (length xs) < snapUpSize olen" "length d \<le> nat olen" "length d \<le> nat (snapUpSize olen)"
      using False olen len d by auto
    have r: "take (length xs) (realloc_block d (nat n)) = map Some xs" "int (length (realloc_block d (nat n))) = n"
      if "length d \<le> nat n" "0 < n" for n
      using that d(4,5) by (auto simp: realloc_block_def)
    have a: "take (length xs) (take (nat (bs_slen b)) d @ malloc_block k) = map Some xs"
      "length (take (nat (bs_slen b)) d @ malloc_block k) = length xs + k" for k
      using d by (simp_all add: malloc_block_def)
    obtain x1 where 1: "poke (realloc_block d (nat (snapUpSize olen))) (bs_slen b) 0 = Some x1"
      "holds (b\<lparr>bs_data := Some x1, bs_mlen := snapUpSize olen\<rparr>) xs"
      using grow [OF r [of "snapUpSize olen"]] big len olen by auto
    obtain x2 where 2: "poke (realloc_block d (nat olen)) (bs_slen b) 0 = Some x2"
      "holds (b\<lparr>bs_data := Some x2, bs_mlen := olen\<rparr>) xs"
      using grow [OF r [of olen]] big olen by auto
    have n3: "int (length (take (nat (bs_slen b)) d @ malloc_block (nat (snapUpSize olen - bs_slen b)))) = snapUpSize olen"
      unfolding a(2) using big(2) d(2) by simp
    obtain x3 where 3: "poke (take (nat (bs_slen b)) d @ malloc_block (nat (snapUpSize olen - bs_slen b))) (bs_slen b) 0 = Some x3"
      "holds (b\<lparr>bs_data := Some x3, bs_mlen := snapUpSize olen\<rparr>) xs"
      using grow [OF a(1) n3 big(2) len(2)] by blast
    show ?thesis
      using w False olen len 1 2 3 d(1) by (auto simp: balloc_def Let_def)
  qed
qed

lemma balloc_holds:
  assumes "holds b xs" "0 < olen" "olen < 2 ^ 31"
  shows "\<exists>r b'. balloc m b olen = Some (r, b') \<and> holds b' xs \<and> bs_mlen b \<le> bs_mlen b'
    \<and> (r = BSTR_OK \<and> olen \<le> bs_mlen b' \<and> (m_snap m \<and> olen < 2 ^ 30 \<longrightarrow> olen < bs_mlen b')
       \<or> r = BSTR_ERR \<and> b' = b \<and> \<not> m_snap m \<and> \<not> m_tight m)"
proof -
  have "full b xs" "int (length xs) < max olen (bs_mlen b)" using holds_full [OF assms(1)] by (auto simp: full_def)
  from balloc_full [OF this(1) assms(2,3) this(2)] show ?thesis using assms(1) by blast
qed

end
