(* ===== verification/Bstr_Edit.thy ===== *)
theory Bstr_Edit
  imports Bstr
begin

text \<open>
  What the editing operations of \<open>bstrlib\<close> do to the string: each is a list operation, keeps the
  string well formed, and on a refused allocation reports an error and leaves the string as
  it was. The exceptions are \<open>bassign\<close> with memory allocated to the last byte, \<open>bconcat\<close> to a
  length of \<open>INT_MAX\<close>, and \<open>bcatcstr\<close> without memory.
\<close>

section \<open>Blocks that start with a string\<close>

definition starts :: "block \<Rightarrow> byte list \<Rightarrow> bool" where
  "starts d zs \<longleftrightarrow> (\<exists>rest. d = map Some zs @ rest)"

definition finished :: "byte list \<Rightarrow> (int \<times> bstr) option \<Rightarrow> bool" where
  "finished zs res \<longleftrightarrow> (\<exists>b. res = Some (BSTR_OK, b) \<and> holds b zs)"

text \<open>The outcome of an operation on \<open>b\<close>: done, or without memory refused.\<close>

definition edited :: "bool \<Rightarrow> bstr \<Rightarrow> byte list \<Rightarrow> (int \<times> bstr) option \<Rightarrow> bool" where
  "edited avail b zs res \<longleftrightarrow> finished zs res \<or> (\<not> avail \<and> res = Some (BSTR_ERR, b))"

lemma BSTR_codes [simp]: "BSTR_OK \<noteq> BSTR_ERR" "BSTR_ERR \<noteq> BSTR_OK"
  by (simp_all add: BSTR_OK_def BSTR_ERR_def)

lemma finished_edited: "finished zs res \<Longrightarrow> edited avail b zs res"
  by (simp add: edited_def)

lemma starts_len: "starts d zs \<Longrightarrow> length zs \<le> length d"
  by (auto simp: starts_def)

lemma holds_starts:
  assumes "holds b xs"
  obtains d where "bs_data b = Some d" "starts d xs" "length d = nat (bs_mlen b)" "bs_mlen b = int (length d)"
    "length d < 2 ^ 31" "length xs < length d" "bs_slen b = int (length xs)"
  using assms by (auto simp: holds_iff starts_def)

lemma holds_fields:
  assumes "holds b xs"
  shows "bs_slen b = int (length xs)" "\<not> not_writable b" "int (length xs) < bs_mlen b" "bs_mlen b < 2 ^ 31" "bs_data b \<noteq> None"
  using assms by (auto simp: holds_iff not_writable_def)

lemma starts_take: "starts d zs \<Longrightarrow> starts d (take n zs)"
proof -
  assume "starts d zs"
  then obtain r where "d = map Some zs @ r" by (auto simp: starts_def)
  then have "d = map Some (take n zs) @ map Some (drop n zs) @ r"
    by (simp add: append_assoc [symmetric] map_append [symmetric] del: append_assoc)
  then show ?thesis by (auto simp: starts_def)
qed

lemma store_starts:
  assumes "starts d zs" "length zs < length d" "bs_mlen b = int (length d)" "length d < 2 ^ 31"
  shows "finished zs (store b (Some d) (int (length zs)))"
  using store_holds [of zs d b] assms by (auto simp: starts_def finished_def)

lemma starts_copy:
  assumes "starts d xs" "pos \<le> length xs" "pos + length ys \<le> length d" "0 \<le> p"
    and "ys = [] \<or> read_block src (nat p) (length ys) = Some ys"
  shows "\<exists>d'. copy_from d (int pos) src p (int (length ys)) = Some d' \<and> length d' = length d
    \<and> starts d' (take pos xs @ ys @ drop (pos + length ys) xs)"
proof -
  obtain r where r: "d = map Some xs @ r" using assms(1) by (auto simp: starts_def)
  have "take pos d @ map Some ys @ drop (pos + length ys) d =
      map Some (take pos xs @ ys @ drop (pos + length ys) xs) @ drop (pos + length ys - length xs) r"
    using assms(2) by (simp add: r take_map drop_map)
  moreover have "length (take pos d @ map Some ys @ drop (pos + length ys) d) = length d" using assms(3) by simp
  ultimately show ?thesis using copy_from_spec [OF assms(5,4,3)] by (auto simp: starts_def)
qed

lemma starts_fill:
  assumes "starts d xs" "length xs + n \<le> length d"
  shows "\<exists>d'. fill_from d (int (length xs)) (int n) c = Some d' \<and> length d' = length d \<and> starts d' (xs @ replicate n c)"
proof (cases "n = 0")
  case False
  obtain r where r: "d = map Some xs @ r" using assms(1) by (auto simp: starts_def)
  have "memcpy_at d (length xs) (replicate n c) = Some (map Some (xs @ replicate n c) @ drop n r)"
    using assms(2) by (simp add: memcpy_at_def r)
  then show ?thesis using False assms(2) r by (auto simp: fill_from_def starts_def)
qed (use assms in \<open>simp add: fill_from_def\<close>)

lemma starts_read: "starts d xs \<Longrightarrow> pos + n \<le> length xs \<Longrightarrow> read_block d pos n = Some (take n (drop pos xs))"
  by (auto simp: starts_def read_part)

text \<open>Writing a string at a place inside another and ending there.\<close>

lemma store_edit:
  assumes b: "holds b xs" and pos: "pos \<le> length xs" "int (pos + length ys) < bs_mlen b" "0 \<le> p"
    and ys: "ys = [] \<or> read_block src (nat p) (length ys) = Some ys"
  shows "finished (take pos xs @ ys) (store b (copy_from (the (bs_data b)) (int pos) src p (int (length ys))) (int (pos + length ys)))"
proof -
  obtain d where d: "bs_data b = Some d" "starts d xs" "bs_mlen b = int (length d)" "length d < 2 ^ 31"
    using holds_starts [OF b] by metis
  have "pos + length ys \<le> length d" using pos d by simp
  then obtain d' where d': "copy_from d (int pos) src p (int (length ys)) = Some d'" "length d' = length d"
    "starts d' (take pos xs @ ys @ drop (pos + length ys) xs)" using starts_copy [OF d(2) pos(1) _ pos(3) ys] by blast
  have "take (pos + length ys) (take pos xs @ ys @ drop (pos + length ys) xs) = take pos xs @ ys" using pos(1) by simp
  then have "starts d' (take pos xs @ ys)" using starts_take [OF d'(3)] by metis
  from store_starts [OF this, of b] show ?thesis using d d' pos by simp
qed

lemma edited_alloc:
  assumes "holds b xs" "0 < olen" "olen < 2 ^ 31" "avail \<Longrightarrow> m_snap m"
    and "\<And>b'. holds b' xs \<Longrightarrow> olen \<le> bs_mlen b' \<Longrightarrow> finished zs (k b')"
  shows "edited avail b zs (after_alloc (balloc m b olen) k)"
  using balloc_holds [OF assms(1-3), of m] assms(4,5) by (fastforce simp: edited_def after_alloc_def)

section \<open>Operands\<close>

definition reads :: "bstr \<Rightarrow> byte list \<Rightarrow> bool" where
  "reads v ys \<longleftrightarrow> bs_slen v = int (length ys) \<and> (\<exists>d. bs_data v = Some d \<and> read_block d 0 (length ys) = Some ys)"

definition op_is :: "bstr \<Rightarrow> operand \<Rightarrow> byte list \<Rightarrow> bool" where
  "op_is b op ys \<longleftrightarrow> reads (op_view b op) ys"

lemma readsE:
  assumes "reads v ys"
  obtains d where "bs_slen v = int (length ys)" "bs_data v = Some d" "read_block d 0 (length ys) = Some ys"
  using assms by (auto simp: reads_def)

lemma holds_reads: "holds b xs \<Longrightarrow> reads b xs"
  by (auto simp: holds_iff reads_def read_prefix)

lemma c_int_range: "- (2 ^ 31) \<le> x \<Longrightarrow> x < 2 ^ 31 \<Longrightarrow> c_int x = x"
  by (simp add: c_int_def sint_sbintrunc' signed_take_bit_int_eq_self)

lemma bnew_holds:
  assumes "int (length xs) < i" "i < 2 ^ 31"
  shows "\<exists>b. bnew i (int (length xs)) xs = Some (Some b) \<and> holds b xs \<and> bs_mlen b = i"
proof -
  have "length xs + 1 \<le> nat i" using assms(1) by simp
  then have "memcpy_at (malloc_block (nat i)) 0 (xs @ [0]) = Some (map Some xs @ Some 0 # malloc_block (nat i - (length xs + 1)))"
    by (simp add: memcpy_at_def malloc_block_def)
  then show ?thesis using assms by (simp add: bnew_def holds_iff malloc_block_def)
qed

lemma bstrcpy_spec:
  assumes "reads b xs" "length xs + 1 < 2 ^ 31"
  shows "(\<exists>b'. bstrcpy m b = Some (Some b') \<and> holds b' xs)
    \<or> (bstrcpy m b = Some None \<and> \<not> (m_hdr m \<and> m_snap m))"
proof -
  have c: "c_int (int (length xs) + 1) = int (length xs) + 1" using assms(2) by (intro c_int_range) simp_all
  have n: "int (length xs) < snapUpSize (int (length xs) + 1)" "snapUpSize (int (length xs) + 1) < 2 ^ 31"
    using snapUpSize_bounds [of "int (length xs) + 1"] assms(2) by auto
  show ?thesis
    using assms(1) bnew_holds [OF n] bnew_holds [of xs "int (length xs) + 1"] assms(2)
    by (elim readsE) (auto simp: bstrcpy_def c Let_def)
qed

lemma bcopy_op_spec:
  assumes "op_is b op ys" "length ys + 1 < 2 ^ 31"
  shows "(\<exists>aux. bcopy_op mc b op = Some (Some aux) \<and> reads aux ys) \<or> (bcopy_op mc b op = Some None \<and> \<not> (m_hdr mc \<and> m_snap mc))"
  using bstrcpy_spec [of "op_view b op" ys mc] assms holds_reads by (auto simp: bcopy_op_def op_is_def)

section \<open>The operations\<close>

lemma bconcat_edited:
  assumes b: "holds b xs" and op: "op_is b op ys" and len: "length xs + length ys + 1 < 2 ^ 31"
  shows "edited (m_hdr mc \<and> m_snap mc \<and> m_snap m) b (xs @ ys) (bconcat mc m b op)"
proof -
  obtain d where d: "bs_data b = Some d" "bs_slen b = int (length xs)" "bs_mlen b = int (length d)" "length xs < length d" "length d < 2 ^ 31"
    using holds_starts [OF b] by metis
  obtain s where s: "bs_slen (op_view b op) = int (length ys)" "bs_data (op_view b op) = Some s" "read_block s 0 (length ys) = Some ys"
    using op readsE unfolding op_is_def by metis
  have c: "c_int (int (length xs) + int (length ys)) = int (length xs) + int (length ys)"
    "c_int (int (length xs) + int (length ys) + 1) = int (length xs) + int (length ys) + 1"
    "c_int (int (length d) - int (length xs)) = int (length d) - int (length xs)"
    using len d by (auto intro!: c_int_range)
  have put: "finished (xs @ ys) (store b' (copy_from (the (bs_data b')) (int (length xs)) src 0 (int (length ys))) (int (length xs) + int (length ys)))"
    if "holds b' xs" "int (length xs) + int (length ys) + 1 \<le> bs_mlen b'" "read_block src 0 (length ys) = Some ys" for b' src
    using store_edit [OF that(1), of "length xs" ys 0 src] that by simp
  show ?thesis
  proof (cases "int (length d) \<le> int (length xs) + int (length ys) + 1")
    case False
    then have "bconcat mc m b op = store b (copy_from d (int (length xs)) s 0 (int (length ys))) (int (length xs) + int (length ys))"
      using d s c by (auto simp: bconcat_def Let_def)
    then show ?thesis using put [OF b _ s(3)] d False by (auto intro: finished_edited)
  next
    case True
    have "length ys + 1 < 2 ^ 31" using len by simp
    from bcopy_op_spec [OF op this, of mc] show ?thesis
    proof (elim disjE exE conjE)
      fix aux
      assume aux: "bcopy_op mc b op = Some (Some aux)" "reads aux ys"
      obtain da where da: "bs_data aux = Some da" "read_block da 0 (length ys) = Some ys" using aux(2) by (rule readsE)
      have "bconcat mc m b op = after_alloc (balloc m b (int (length xs) + int (length ys) + 1))
          (\<lambda>b'. store b' (copy_from (the (bs_data b')) (int (length xs)) da 0 (int (length ys))) (int (length xs) + int (length ys)))"
        using True d s c aux(1) da(1) by (auto simp: bconcat_def Let_def)
      then show ?thesis using edited_alloc [OF b, where k = "\<lambda>b'. store b' (copy_from (the (bs_data b')) (int (length xs)) da 0 (int (length ys))) (int (length xs) + int (length ys))"]
          put da(2) len by auto
    next
      assume "bcopy_op mc b op = Some None" "\<not> (m_hdr mc \<and> m_snap mc)"
      then show ?thesis using True d s c by (auto simp: bconcat_def Let_def edited_def)
    qed
  qed
qed

lemma bconchar_edited:
  assumes b: "holds b xs" and len: "length xs + 2 < 2 ^ 31"
  shows "edited (m_snap m) b (xs @ [c]) (bconchar m b c)"
proof -
  have d: "bs_slen b = int (length xs)" "c_int (bs_mlen b - int (length xs)) = bs_mlen b - int (length xs)"
    "int (length xs) < bs_mlen b" "c_int (int (length xs) + 2) = int (length xs) + 2"
    using holds_fields [OF b] len by (simp_all add: c_int_range)
  have "bconchar m b c = after_alloc (balloc m b (int (length xs) + 2)) (\<lambda>b'. store b' (poke (the (bs_data b')) (int (length xs)) c) (int (length xs) + 1))"
    using d by (simp add: bconchar_def Let_def)
  moreover have "finished (xs @ [c]) (store b' (poke (the (bs_data b')) (int (length xs)) c) (int (length xs) + 1))"
    if b': "holds b' xs" "int (length xs) + 2 \<le> bs_mlen b'" for b'
  proof -
    obtain e r where e: "bs_data b' = Some (map Some xs @ e # r)" "bs_mlen b' = int (length (map Some xs @ e # r))" "length (map Some xs @ e # r) < 2 ^ 31"
      by (rule holdsE [OF b'(1)]) auto
    have "poke (map Some xs @ e # r) (int (length xs)) c = Some (map Some (xs @ [c]) @ r)"
      by (simp add: poke_def list_update_append)
    moreover have "r \<noteq> []" using e(2) b'(2) by auto
    ultimately show ?thesis
      using store_starts [of "map Some (xs @ [c]) @ r" "xs @ [c]" b'] e b'(2) by (auto simp: starts_def add.commute)
  qed
  ultimately show ?thesis using edited_alloc [OF b, of "int (length xs) + 2" "m_snap m" m] len by simp
qed

lemma bcatblk_edited:
  assumes b: "holds b xs" and s: "read_block s 0 (length ys) = Some ys" and len: "length xs + length ys + 1 < 2 ^ 31"
  shows "edited (m_snap m) b (xs @ ys) (bcatblk m b (Some s) (int (length ys)))"
proof -
  note w = holds_fields(2,1) [OF b]
  have c: "c_int (int (length xs) + int (length ys)) = int (length xs) + int (length ys)"
    "c_int (int (length xs) + int (length ys) + 1) = int (length xs) + int (length ys) + 1" using len by (auto intro!: c_int_range)
  have put: "finished (xs @ ys) (store b' (copy_from (the (bs_data b')) (bs_slen b') s 0 (int (length ys))) (int (length xs) + int (length ys)))"
    if "holds b' xs" "int (length xs) + int (length ys) + 1 \<le> bs_mlen b'" for b'
    using store_edit [OF that(1), of "length xs" ys 0 s] that s holds_fields(1) [OF that(1)] by simp
  show ?thesis
  proof (cases "bs_mlen b \<le> int (length xs) + int (length ys)")
    case True
    then show ?thesis using edited_alloc [OF b, OF _ _ _ put] w c len by (auto simp: bcatblk_def Let_def)
  next
    case False
    then show ?thesis using put [OF b] w c by (auto simp: bcatblk_def Let_def after_alloc_def intro!: finished_edited)
  qed
qed

lemma btrunc_finished:
  assumes b: "holds b xs"
  shows "finished (take n xs) (btrunc b (int n))"
proof -
  note w = holds_fields(2,1) [OF b]
  obtain d where d: "bs_data b = Some d" "starts d xs" "bs_mlen b = int (length d)" "length d < 2 ^ 31" "length xs < length d"
    using holds_starts [OF b] by metis
  show ?thesis
  proof (cases "n < length xs")
    case True
    then show ?thesis using store_starts [OF starts_take [OF d(2), of n], of b] d w by (simp add: btrunc_def)
  next
    case False
    then show ?thesis using w b by (simp add: btrunc_def finished_def)
  qed
qed

lemma bdelete_finished:
  assumes b: "holds b xs" and r: "pos + len < 2 ^ 31"
  shows "finished (take pos xs @ drop (pos + len) xs) (bdelete b (int pos) (int len))"
proof -
  note w = holds_fields(2,1) [OF b]
  obtain d where d: "bs_data b = Some d" "starts d xs" "bs_mlen b = int (length d)" "length d < 2 ^ 31" "length xs < length d"
    using holds_starts [OF b] by metis
  have c: "c_int (int pos + int len) = int pos + int len" using r by (intro c_int_range) simp_all
  consider "len = 0 \<or> length xs \<le> pos" | "0 < len" "pos < length xs" "length xs \<le> pos + len" | "0 < len" "pos + len < length xs"
    by linarith
  then show ?thesis
  proof cases
    case 1
    then show ?thesis using w b by (auto simp: bdelete_def finished_def)
  next
    case 2
    then show ?thesis using store_starts [OF starts_take [OF d(2), of pos], of b] d w c by (simp add: bdelete_def)
  next
    case 3
    have "read_block d (nat (int pos + int len)) (length (drop (pos + len) xs)) = Some (drop (pos + len) xs)"
      using starts_read [OF d(2), of "pos + len" "length xs - (pos + len)"] 3 by (simp add: nat_add_distrib)
    then have "finished (take pos xs @ drop (pos + len) xs)
        (store b (copy_from (the (bs_data b)) (int pos) d (int pos + int len) (int (length (drop (pos + len) xs)))) (int (pos + length (drop (pos + len) xs))))"
      using store_edit [OF b, of pos "drop (pos + len) xs" "int pos + int len" d] 3 d by auto
    moreover have "int (length (drop (pos + len) xs)) = int (length xs) - (int pos + int len)"
      "int (pos + length (drop (pos + len) xs)) = int (length xs) - int len" using 3 by simp_all
    ultimately show ?thesis using 3 d(1) w c by (simp add: bdelete_def Let_def)
  qed
qed

text \<open>Insertion: the tail moves up, or a gap is filled, and the operand is written.\<close>

lemma move_insert:
  assumes "starts d xs" "pos \<le> length xs" "length xs + length ys \<le> length d" "ys = [] \<or> read_block src 0 (length ys) = Some ys"
  shows "\<exists>d1 d2. copy_from d (int (pos + length ys)) d (int pos) (int (length xs - pos)) = Some d1 \<and> length d1 = length d
    \<and> copy_from d1 (int pos) src 0 (int (length ys)) = Some d2 \<and> length d2 = length d
    \<and> starts d2 (take pos xs @ ys @ drop pos xs)
    \<and> take pos d1 = map Some (take pos xs) \<and> drop (pos + length ys) d1 = map Some (drop pos xs) @ drop (length xs + length ys) d"
proof -
  let ?t = "drop pos xs" and ?l = "pos + length ys"
  obtain r where r: "d = map Some xs @ r" using assms(1) by (auto simp: starts_def)
  have tl: "read_block d (nat (int pos)) (length ?t) = Some ?t" using starts_read [OF assms(1), of pos "length ?t"] assms(2) by simp
  have lt: "?l + length ?t = length xs + length ys" using assms(2) by simp
  define d1 where "d1 = take ?l d @ map Some ?t @ drop (length xs + length ys) d"
  have c1: "copy_from d (int ?l) d (int pos) (int (length xs - pos)) = Some d1"
    using copy_from_spec [of ?t d "int pos" ?l d] tl assms(3) unfolding lt d1_def by (auto simp: lt)
  have l1: "length d1 = length d" using assms(2,3) by (simp add: d1_def)
  have t1: "take pos d1 = map Some (take pos xs)" using assms(2,3) by (simp add: d1_def r take_map)
  have e1: "drop ?l d1 = map Some ?t @ drop (length xs + length ys) d" using assms(2,3) by (simp add: d1_def)
  define d2 where "d2 = take pos d1 @ map Some ys @ drop ?l d1"
  have c2: "copy_from d1 (int pos) src 0 (int (length ys)) = Some d2"
    using copy_from_spec [of ys src 0 pos d1] assms(2-4) l1 by (simp add: d2_def)
  have "d2 = map Some (take pos xs @ ys @ ?t) @ drop (length xs + length ys) d" unfolding d2_def t1 e1 by simp
  then have "starts d2 (take pos xs @ ys @ ?t)" by (auto simp: starts_def)
  moreover have "length d2 = length d" using assms(2,3) l1 by (simp add: d2_def)
  ultimately show ?thesis using c1 l1 c2 t1 e1 by blast
qed

definition insert_at :: "nat \<Rightarrow> byte list \<Rightarrow> byte \<Rightarrow> byte list \<Rightarrow> byte list" where
  "insert_at pos ys c xs = take pos xs @ replicate (pos - length xs) c @ ys @ drop pos xs"

lemma length_insert_at: "length (insert_at pos ys c xs) = max pos (length xs) + length ys"
  by (auto simp: insert_at_def)

lemma binsert_edited:
  assumes b: "holds b xs" and op: "op_is b op ys" and len: "max pos (length xs) + length ys + 1 < 2 ^ 31"
  shows "edited (m_hdr mc \<and> m_snap mc \<and> m_snap m) b (insert_at pos ys c xs) (binsert mc m b (int pos) op c)"
proof -
  note f = holds_fields [OF b]
  have "length ys + 1 < 2 ^ 31" using len by simp
  from bcopy_op_spec [OF op this, of mc] show ?thesis
  proof (elim disjE exE conjE)
    assume "bcopy_op mc b op = Some None" "\<not> (m_hdr mc \<and> m_snap mc)"
    then show ?thesis using f op by (auto simp: binsert_def edited_def)
  next
    fix aux
    assume aux: "bcopy_op mc b op = Some (Some aux)" "reads aux ys"
    obtain da where da: "bs_slen aux = int (length ys)" "bs_data aux = Some da" "read_block da 0 (length ys) = Some ys"
      using aux(2) by (rule readsE)
    have s: "bs_slen (op_view b op) = int (length ys)" using op by (simp add: op_is_def reads_def)
    define n where "n = max pos (length xs) + length ys"
    have c: "c_int (int (length xs) + int (length ys)) = int (length xs) + int (length ys)"
      "c_int (int pos + int (length ys)) = int pos + int (length ys)"
      "c_int (int (length xs) + int (length ys) + 1) = int (length xs) + int (length ys) + 1"
      "c_int (int pos + int (length ys) + 1) = int pos + int (length ys) + 1"
      using len by (auto intro!: c_int_range)
    define k where "k b' = (case (if length xs < pos then fill_from (the (bs_data b')) (bs_slen b') (int pos - bs_slen b') c
           else copy_from (the (bs_data b')) (int pos + int (length ys)) (the (bs_data b')) (int pos) (int (length xs) - int pos)) of None \<Rightarrow> None
         | Some d1 \<Rightarrow> store b' (copy_from d1 (int pos) da 0 (int (length ys))) (int n))" for b'
    have run: "binsert mc m b (int pos) op c = after_alloc (balloc m b (int n + 1)) k"
      unfolding binsert_def k_def n_def using f s aux(1) da c
      by (cases "length xs < pos") (simp_all add: Let_def not_le max_def cong: option.case_cong)
    have k: "finished (insert_at pos ys c xs) (k b')" if b': "holds b' xs" "int n + 1 \<le> bs_mlen b'" for b'
    proof -
      obtain d where d: "bs_data b' = Some d" "starts d xs" "bs_mlen b' = int (length d)" "length d < 2 ^ 31"
        using holds_starts [OF b'(1)] by metis
      have fits: "max pos (length xs) + length ys < length d" using b'(2) d(3) by (simp add: n_def)
      show ?thesis
      proof (cases "length xs < pos")
        case True
        obtain d1 where d1: "fill_from d (int (length xs)) (int (pos - length xs)) c = Some d1" "length d1 = length d"
          "starts d1 (xs @ replicate (pos - length xs) c)" using starts_fill [OF d(2), of "pos - length xs" c] fits True by auto
        obtain d2 where d2: "copy_from d1 (int pos) da 0 (int (length ys)) = Some d2" "length d2 = length d1"
          "starts d2 (take pos (xs @ replicate (pos - length xs) c) @ ys @ drop (pos + length ys) (xs @ replicate (pos - length xs) c))"
          using starts_copy [OF d1(3), of pos ys 0 da] fits True d1(2) da(3) by auto
        have "starts d2 (insert_at pos ys c xs)" using d2(3) True by (simp add: insert_at_def)
        moreover have "length (insert_at pos ys c xs) = n" by (simp add: length_insert_at n_def)
        ultimately show ?thesis
          using store_starts [of d2 "insert_at pos ys c xs" b'] d d1 d2 fits True holds_fields(1) [OF b'(1)]
          by (simp add: k_def n_def of_nat_diff)
      next
        case False
        then obtain d1 d2 where d1: "copy_from d (int (pos + length ys)) d (int pos) (int (length xs - pos)) = Some d1" "length d1 = length d"
          and d2: "copy_from d1 (int pos) da 0 (int (length ys)) = Some d2" "length d2 = length d" "starts d2 (take pos xs @ ys @ drop pos xs)"
          using move_insert [OF d(2), of pos ys da] fits da(3) by auto
        have "starts d2 (insert_at pos ys c xs)" using d2(3) False by (simp add: insert_at_def)
        moreover have "length (insert_at pos ys c xs) = n" by (simp add: length_insert_at n_def)
        ultimately show ?thesis
          using store_starts [of d2 "insert_at pos ys c xs" b'] d d1 d2 fits False
          by (simp add: k_def n_def of_nat_diff)
      qed
    qed
    show ?thesis unfolding run by (rule edited_alloc [OF b _ _ _ k]) (use len in \<open>auto simp: n_def\<close>)
  qed
qed

lemma binsertch_edited:
  assumes b: "holds b xs" and len: "max pos (length xs) + n + 1 < 2 ^ 31"
  shows "edited (m_snap m) b (insert_at pos (replicate n c) c xs) (binsertch m b (int pos) (int n) c)"
proof -
  note f = holds_fields [OF b]
  define l where "l = max pos (length xs) + n"
  have c: "c_int (int (length xs) + int n) = int (length xs) + int n" "c_int (int pos + int n) = int pos + int n"
    "c_int (int (length xs) + int n + 1) = int (length xs) + int n + 1" "c_int (int pos + int n + 1) = int pos + int n + 1"
    using len by (auto intro!: c_int_range)
  define k where "k b' = (if length xs < pos then store b' (fill_from (the (bs_data b')) (bs_slen b') (int pos + int n - bs_slen b') c) (int l)
      else case copy_from (the (bs_data b')) (int pos + int n) (the (bs_data b')) (int pos) (int (length xs) - int pos) of None \<Rightarrow> None
        | Some d1 \<Rightarrow> store b' (fill_from d1 (int pos) (int n) c) (int l))" for b'
  have run: "binsertch m b (int pos) (int n) c = after_alloc (balloc m b (int l + 1)) k"
    unfolding binsertch_def k_def l_def using f c
    by (cases "length xs < pos") (simp_all add: Let_def not_le max_def not_writable_def cong: option.case_cong)
  have k: "finished (insert_at pos (replicate n c) c xs) (k b')" if b': "holds b' xs" "int l + 1 \<le> bs_mlen b'" for b'
  proof -
    obtain d where d: "bs_data b' = Some d" "starts d xs" "bs_mlen b' = int (length d)" "length d < 2 ^ 31"
      using holds_starts [OF b'(1)] by metis
    have fits: "l < length d" using b'(2) d(3) by simp
    have ln: "length (insert_at pos (replicate n c) c xs) = l" by (simp add: length_insert_at l_def)
    show ?thesis
    proof (cases "length xs < pos")
      case True
      obtain d1 where d1: "fill_from d (int (length xs)) (int (pos + n - length xs)) c = Some d1" "length d1 = length d"
        "starts d1 (xs @ replicate (pos + n - length xs) c)" using starts_fill [OF d(2), of "pos + n - length xs" c] fits True by (auto simp: l_def)
      have "xs @ replicate (pos + n - length xs) c = insert_at pos (replicate n c) c xs"
        using True by (simp add: insert_at_def replicate_add [symmetric])
      with d1(3) have "starts d1 (insert_at pos (replicate n c) c xs)" by simp
      from store_starts [OF this, of b'] show ?thesis
        using d d1(1,2) fits True ln holds_fields(1) [OF b'(1)] by (simp add: k_def of_nat_diff)
    next
      case False
      have "read_block (map Some (replicate n c)) 0 n = Some (replicate n c)" using read_prefix [of n "replicate n c" "[]"] by simp
      then obtain d1 where d1: "copy_from d (int (pos + n)) d (int pos) (int (length xs - pos)) = Some d1" "length d1 = length d"
        "take pos d1 = map Some (take pos xs)" "drop (pos + n) d1 = map Some (drop pos xs) @ drop (length xs + n) d"
        using move_insert [OF d(2), of pos "replicate n c" "map Some (replicate n c)"] fits False by (auto simp: l_def)
      have "fill_from d1 (int pos) (int n) c = Some (take pos d1 @ map Some (replicate n c) @ drop (pos + n) d1)"
        using fits False d1(2) by (cases "n = 0") (auto simp: fill_from_def memcpy_at_def l_def)
      then have "fill_from d1 (int pos) (int n) c = Some (map Some (insert_at pos (replicate n c) c xs) @ drop (length xs + n) d)"
        using False by (simp add: d1 insert_at_def)
      moreover have "length (map Some (insert_at pos (replicate n c) c xs) @ drop (length xs + n) d) = length d"
        using fits False by (simp add: ln) (simp add: l_def)
      ultimately show ?thesis
        using store_starts [of "map Some (insert_at pos (replicate n c) c xs) @ drop (length xs + n) d" "insert_at pos (replicate n c) c xs" b']
          d d1(1) fits False ln by (simp add: k_def of_nat_diff starts_def)
    qed
  qed
  show ?thesis unfolding run by (rule edited_alloc [OF b _ _ _ k]) (use len in \<open>auto simp: l_def\<close>)
qed

definition set_at :: "nat \<Rightarrow> byte list \<Rightarrow> byte \<Rightarrow> byte list \<Rightarrow> byte list" where
  "set_at pos ys c xs = take pos xs @ replicate (pos - length xs) c @ ys @ drop (pos + length ys) xs"

lemma bsetstr_edited:
  assumes b: "holds b xs" and op: "op_is b op ys" and len: "pos + length ys + 1 < 2 ^ 31"
  shows "edited (m_hdr mc \<and> m_snap mc \<and> m_snap m) b (set_at pos ys c xs) (bsetstr mc m b (int pos) (Some op) c)"
proof -
  note f = holds_fields [OF b]
  have s: "bs_slen (op_view b op) = int (length ys)" "bs_data (op_view b op) \<noteq> None" using op by (auto simp: op_is_def reads_def)
  have "length ys + 1 < 2 ^ 31" using len by simp
  from bcopy_op_spec [OF op this, of mc] show ?thesis
  proof (elim disjE exE conjE)
    assume "bcopy_op mc b op = Some None" "\<not> (m_hdr mc \<and> m_snap mc)"
    then show ?thesis using f s by (auto simp: bsetstr_def edited_def)
  next
    fix aux
    assume aux: "bcopy_op mc b op = Some (Some aux)" "reads aux ys"
    obtain da where da: "bs_slen aux = int (length ys)" "bs_data aux = Some da" "read_block da 0 (length ys) = Some ys"
      using aux(2) by (rule readsE)
    have c: "c_int (int pos + int (length ys)) = int pos + int (length ys)"
      "c_int (int pos + int (length ys) + 1) = int pos + int (length ys) + 1" using len by (auto intro!: c_int_range)
    define k where "k b' = (let newlen = (if int pos > bs_slen b' then int pos else bs_slen b') in
        case fill_from (the (bs_data b')) (bs_slen b') (int pos - bs_slen b') c of None \<Rightarrow> None
        | Some d1 \<Rightarrow> store b' (copy_from d1 (int pos) da 0 (int (length ys)))
            (if int pos + int (length ys) > newlen then int pos + int (length ys) else newlen))" for b'
    have run: "bsetstr mc m b (int pos) (Some op) c = after_alloc (balloc m b (int pos + int (length ys) + 1)) k"
      unfolding bsetstr_def k_def using f s aux(1) da c by (auto simp: Let_def cong: option.case_cong if_cong)
    have k: "finished (set_at pos ys c xs) (k b')" if b': "holds b' xs" "int pos + int (length ys) + 1 \<le> bs_mlen b'" for b'
    proof -
      obtain d where d: "bs_data b' = Some d" "starts d xs" "bs_mlen b' = int (length d)" "length d < 2 ^ 31" "length xs < length d"
        using holds_starts [OF b'(1)] by metis
      have fits: "pos + length ys < length d" using b'(2) d(3) by simp
      let ?xs = "xs @ replicate (pos - length xs) c"
      obtain d1 where d1: "fill_from d (int (length xs)) (int pos - int (length xs)) c = Some d1" "length d1 = length d" "starts d1 ?xs"
      proof (cases "length xs \<le> pos")
        case True
        then show ?thesis using starts_fill [OF d(2), of "pos - length xs" c] fits that by (auto simp: of_nat_diff)
      next
        case False
        then show ?thesis using that d(2) by (simp add: fill_from_def)
      qed
      obtain d2 where d2: "copy_from d1 (int pos) da 0 (int (length ys)) = Some d2" "length d2 = length d1"
        "starts d2 (take pos ?xs @ ys @ drop (pos + length ys) ?xs)"
        using starts_copy [OF d1(3), of pos ys 0 da] fits d1(2) da(3) by fastforce
      have z: "take pos ?xs @ ys @ drop (pos + length ys) ?xs = set_at pos ys c xs" by (simp add: set_at_def)
      have "length (set_at pos ys c xs) = max (pos + length ys) (max pos (length xs))" by (auto simp: set_at_def)
      then have n: "(if int pos + int (length ys) > (if int pos > int (length xs) then int pos else int (length xs)) then int pos + int (length ys)
          else (if int pos > int (length xs) then int pos else int (length xs))) = int (length (set_at pos ys c xs))"
        "length (set_at pos ys c xs) < length d" using fits d(5) by auto
      have "k b' = store b' (Some d2) (int (length (set_at pos ys c xs)))"
        unfolding k_def Let_def holds_fields(1) [OF b'(1)] d(1) option.sel d1(1) option.case d2(1) n(1) ..
      then show ?thesis using store_starts [OF d2(3) [unfolded z], of b'] d d1(2) d2(2) n(2) by simp
    qed
    show ?thesis unfolding run by (rule edited_alloc [OF b _ _ _ k]) (use len in auto)
  qed
qed

text \<open>Assignment needs a byte more than it asks for: it is safe while sizes snap up.\<close>

lemma bassign_edited:
  assumes b: "holds a xs" and op: "reads v ys" and len: "length ys < 2 ^ 30" and m: "m_snap m"
  shows "finished ys (bassign m a (Sep v))"
proof -
  obtain d where d: "bs_slen v = int (length ys)" "bs_data v = Some d" "read_block d 0 (length ys) = Some ys" using op by (rule readsE)
  note f = holds_fields [OF b]
  show ?thesis
  proof (cases "ys = []")
    case True
    obtain da where da: "bs_data a = Some da" "starts da xs" "bs_mlen a = int (length da)" "length da < 2 ^ 31" "length xs < length da"
      using holds_starts [OF b] by metis
    then show ?thesis using store_starts [OF starts_take [OF da(2), of 0], of a] True d f da(1)
      by (auto simp: bassign_def op_view_def Let_def)
  next
    case False
    obtain a' where a': "balloc m a (int (length ys)) = Some (BSTR_OK, a')" "holds a' xs" "int (length ys) < bs_mlen a'"
      using balloc_holds [OF b, of "int (length ys)" m] False len m by auto
    have "bassign m a (Sep v) = store a' (copy_from (the (bs_data a')) 0 d 0 (int (length ys))) (int (length ys))"
      using False d a'(1) by (simp add: bassign_def op_view_def op_data_after_def after_alloc_def Let_def)
    then show ?thesis using store_edit [OF a'(2), of 0 ys 0 d] a'(3) d(3) by simp
  qed
qed

text \<open>With memory for exactly the bytes of the string, its terminating zero is written behind them.\<close>

lemma bassign_tight_faults:
  assumes a: "holds a xs" and v: "reads v ys" and big: "bs_mlen a \<le> int (length ys)" "length ys < 2 ^ 30"
    and m: "\<not> m_snap m" "\<not> m_alloc m" "m_tight m"
  shows "bassign m a (Sep v) = None"
proof -
  obtain d where d: "bs_slen v = int (length ys)" "bs_data v = Some d" "read_block d 0 (length ys) = Some ys" using v by (rule readsE)
  obtain da where da: "bs_data a = Some da" "bs_mlen a = int (length da)" "length xs < length da" "bs_slen a = int (length xs)"
    using holds_starts [OF a] by metis
  have n: "0 < length ys" "length da \<le> length ys" using da big by auto
  have "\<not> snapUpSize (int (length ys)) \<le> bs_mlen a" using snapUpSize_bounds [of "int (length ys)"] big by auto
  moreover obtain x where x: "poke (realloc_block da (length ys)) (int (length xs)) 0 = Some x" "length x = length ys"
    using da n by (auto simp: poke_def realloc_block_def)
  ultimately have "balloc m a (int (length ys)) = Some (BSTR_OK, a\<lparr>bs_data := Some x, bs_mlen := int (length ys)\<rparr>)"
    using holds_fields(2) [OF a] m da n by (auto simp: balloc_def Let_def)
  moreover have "copy_from x 0 d 0 (int (length ys)) = Some (map Some ys)"
    using copy_from_spec [of ys d 0 0 x] d(3) x(2) by simp
  ultimately show ?thesis
    using n d by (simp add: bassign_def op_view_def op_data_after_def after_alloc_def store_def poke_def)
qed

text \<open>The check of \<open>bconcat\<close> overflows for a result of \<open>INT_MAX\<close> bytes, and it writes outside the memory.\<close>

lemma bconcat_limit_faults:
  assumes b: "holds b xs" and v: "reads v ys" and len: "length xs + length ys = 2 ^ 31 - 1"
  shows "bconcat mc m b (Sep v) = None"
proof -
  obtain d where d: "bs_data b = Some d" "bs_slen b = int (length xs)" "bs_mlen b = int (length d)" "length d < 2 ^ 31" "length xs < length d"
    using holds_starts [OF b] by metis
  obtain s where s: "bs_slen v = int (length ys)" "bs_data v = Some s" "read_block s 0 (length ys) = Some ys" using v by (rule readsE)
  have i: "int (length xs) + int (length ys) = 2 ^ 31 - 1" using len by simp
  have c: "c_int (2 ^ 31 - 1) = 2 ^ 31 - 1" "c_int (2 ^ 31) = - (2 ^ 31)" by (simp_all add: c_int_def)
  have e: "c_int (int (length d) - int (length xs)) = int (length d) - int (length xs)" using d by (intro c_int_range) auto
  have "bconcat mc m b (Sep v) = store b (copy_from d (int (length xs)) s 0 (int (length ys))) (2 ^ 31 - 1)"
    using d s c e i by (simp add: bconcat_def op_view_def Let_def)
  moreover have "length d \<le> nat (2 ^ 31 - 1)" using d(4) by simp
  ultimately show ?thesis by (cases "copy_from d (int (length xs)) s 0 (int (length ys))")
      (auto simp: store_def poke_def copy_from_def split: if_splits option.splits dest: memcpy_at_length)
qed

text \<open>
  \<open>bcatcstr\<close> fills the memory before it asks for more. If that is refused, the string keeps the part that
  was copied, fills its memory and has no terminating zero.
\<close>

lemma bcatcstr_spec:
  assumes b: "holds b xs" and len: "length xs + length s + 1 < 2 ^ 31"
  shows "finished (xs @ s) (bcatcstr m b s)
    \<or> (\<not> m_snap m \<and> (\<exists>b'. bcatcstr m b s = Some (BSTR_ERR, b') \<and> bs_slen b' = bs_mlen b' \<and> \<not> bstr_ok b'))"
proof -
  obtain d where d: "bs_data b = Some d" "bs_slen b = int (length xs)" "bs_mlen b = int (length d)" "length d < 2 ^ 31" "length xs < length d"
    "starts d xs" using holds_starts [OF b] by metis
  obtain r where r: "d = map Some xs @ r" using d(6) by (auto simp: starts_def)
  note w = holds_fields(2) [OF b]
  let ?l = "length d - length xs"
  have l: "nat (bs_mlen b - bs_slen b) = ?l" "nat (bs_slen b) = length xs" using d by simp_all
  show ?thesis
  proof (cases "length s < ?l")
    case True
    have "memcpy_at d (length xs) (s @ [0]) = Some (map Some (xs @ s) @ Some 0 # drop (length s + 1) r)"
      using True by (simp add: memcpy_at_def r)
    then have "finished (xs @ s) (bcatcstr m b s)"
      using True w l d by (auto simp: bcatcstr_def Let_def finished_def holds_iff r intro!: exI [of _ "drop (length s + 1) r"])
    then show ?thesis ..
  next
    case False
    let ?ys = "xs @ take ?l s" and ?zs = "drop ?l s"
    have cpy: "memcpy_at d (length xs) (take ?l s) = Some (map Some ?ys)" using False d(5) by (simp add: memcpy_at_def r min_def)
    have n: "length ?ys = length d" using False d(5) by simp
    define b1 where "b1 = b\<lparr>bs_data := Some (map Some ?ys), bs_slen := bs_slen b + int ?l\<rparr>"
    have b1: "full b1 ?ys" "bs_slen b1 = int (length d)" "bs_mlen b1 = int (length d)" "\<not> not_writable b1"
      using d n by (auto simp: full_def b1_def not_writable_def)
    have tot: "length d + length ?zs = length xs + length s" using False d(5) by simp
    have c: "c_int (int (length ?zs)) = int (length ?zs)" "c_int (int (length d) + int (length ?zs)) = int (length d) + int (length ?zs)"
      "c_int (int (length d) + int (length ?zs) + 1) = int (length d) + int (length ?zs) + 1" using len tot by (auto intro!: c_int_range)
    let ?k = "\<lambda>b'. store b' (copy_from (the (bs_data b')) (bs_slen b') (map Some (?zs @ [0])) 0 (int (length ?zs))) (int (length d) + int (length ?zs))"
    have "bcatcstr m b s = bcatblk m b1 (Some (map Some (?zs @ [0]))) (c_int (int (length ?zs)))"
      unfolding bcatcstr_def Let_def l d(1) option.sel using False w cpy d(5) by (simp add: b1_def)
    also have "\<dots> = after_alloc (balloc m b1 (int (length d) + int (length ?zs) + 1)) ?k"
      unfolding c(1) using b1 c(2,3) by (simp add: bcatblk_def Let_def)
    finally have run: "bcatcstr m b s = after_alloc (balloc m b1 (int (length d) + int (length ?zs) + 1)) ?k" .
    have pre: "0 < int (length d) + int (length ?zs) + 1" "int (length d) + int (length ?zs) + 1 < 2 ^ 31"
      "int (length ?ys) < max (int (length d) + int (length ?zs) + 1) (bs_mlen b1)" unfolding n using len tot by simp_all
    obtain rc b2 where 2: "balloc m b1 (int (length d) + int (length ?zs) + 1) = Some (rc, b2)" "b2 = b1 \<or> holds b2 ?ys"
      "rc = BSTR_OK \<and> int (length d) + int (length ?zs) + 1 \<le> bs_mlen b2 \<or> rc = BSTR_ERR \<and> b2 = b1 \<and> \<not> m_snap m"
      using balloc_full [OF b1(1) pre, of m] by blast
    show ?thesis
    proof (cases "rc = BSTR_OK")
      case True
      then have big: "int (length d) + int (length ?zs) + 1 \<le> bs_mlen b2" using 2(3) by auto
      then have h: "holds b2 ?ys" using 2(2) b1(3) by auto
      have "read_block (map Some (?zs @ [0])) 0 (length ?zs) = Some ?zs" using read_prefix [of "length ?zs" "?zs @ [0]" "[]"] by simp
      from store_edit [OF h, of "length ?ys" ?zs 0 "map Some (?zs @ [0])"] this big holds_fields(1) [OF h] n d(5)
      have "finished (?ys @ ?zs) (?k b2)" by (simp del: length_append)
      then show ?thesis using run 2(1) True by (simp add: after_alloc_def)
    next
      case False
      have "\<not> bstr_ok b1" using b1(2,3) by (auto simp: bstr_ok_def split: option.splits)
      then show ?thesis using run 2 False b1(2,3) by (auto simp: after_alloc_def)
    qed
  qed
qed

section \<open>Creation\<close>

lemma bfromcstr_spec:
  assumes "length s + 2 < 2 ^ 31" "0 \<notin> set s"
  shows "(\<exists>b. bfromcstr m s = Some (Some b) \<and> holds b s) \<or> (bfromcstr m s = Some None \<and> \<not> (m_hdr m \<and> m_snap m))"
proof -
  let ?n = "int (length s) + (if s = [] then 2 else 1)"
  have c: "c_int (int (length s)) = int (length s)" "c_int ?n = ?n" using assms(1) by (auto intro!: c_int_range)
  have n: "int (length s) < snapUpSize ?n" "snapUpSize ?n < 2 ^ 31" using snapUpSize_bounds [of ?n] assms(1) by (auto split: if_splits)
  show ?thesis using bnew_holds [OF n] n c by (auto simp: bfromcstr_def Let_def)
qed

lemma blk2bstr_spec:
  assumes "read_block d 0 (length xs) = Some xs" "length xs + 2 < 2 ^ 31"
  shows "(\<exists>b. blk2bstr m (Some d) (int (length xs)) = Some (Some b) \<and> holds b xs)
    \<or> (blk2bstr m (Some d) (int (length xs)) = Some None \<and> \<not> (m_hdr m \<and> m_snap m))"
proof -
  let ?n = "int (length xs) + (if xs = [] then 2 else 1)"
  have c: "c_int ?n = ?n" using assms(2) by (auto intro!: c_int_range)
  have n: "int (length xs) < snapUpSize ?n" "snapUpSize ?n < 2 ^ 31" using snapUpSize_bounds [of ?n] assms(2) by (auto split: if_splits)
  show ?thesis using bnew_holds [OF n] c assms(1) by (auto simp: blk2bstr_def Let_def)
qed

lemma bmidstr_spec:
  assumes b: "reads b xs" and len: "length xs + 2 < 2 ^ 31"
  shows "(\<exists>b'. bmidstr m b (int left) (int n) = Some (Some b') \<and> holds b' (take n (drop left xs)))
    \<or> (bmidstr m b (int left) (int n) = Some None \<and> \<not> (m_hdr m \<and> m_snap m))"
proof -
  obtain d where d: "bs_slen b = int (length xs)" "bs_data b = Some d" "read_block d 0 (length xs) = Some xs" using b by (rule readsE)
  define k where "k = min n (length xs - left)"
  have k: "take n (drop left xs) = take k (drop left xs)" by (simp add: k_def min_def)
  show ?thesis
  proof (cases "k = 0")
    case True
    then have "bmidstr m b (int left) (int n) = bfromcstr m []" using d by (auto simp: bmidstr_def k_def Let_def min_def split: if_splits)
    then show ?thesis using bfromcstr_spec [of "[]" m] True k by auto
  next
    case False
    have len_k: "length (take k (drop left xs)) = k" by (simp add: k_def)
    have "bmidstr m b (int left) (int n) = blk2bstr m (Some (drop left d)) (int k)"
      using d False by (auto simp: bmidstr_def Let_def k_def min_def of_nat_diff)
    moreover have "read_block (drop left d) 0 k = Some (take k (drop left xs))"
    proof -
      have l: "length xs \<le> length d" "map Some xs = take (length xs) d" using read_block_cells [OF d(3)] by simp_all
      then have "take k (drop left d) = map Some (take k (drop left xs))"
        using False by (simp add: take_map [symmetric] drop_map [symmetric] k_def) (simp add: drop_take min_def)
      moreover have "k \<le> length d - left" "left \<le> length d" using l(1) False by (auto simp: k_def)
      ultimately show ?thesis by (simp add: read_block_def list_all_iff comp_def)
    qed
    moreover have "k \<le> length xs" by (simp add: k_def)
    ultimately show ?thesis
      using blk2bstr_spec [of "drop left d" "take k (drop left xs)" m] len unfolding k len_k by auto
  qed
qed

section \<open>Sequences of operations\<close>

datatype bedit =
    Concat operand
  | Conchar byte
  | Catblk "byte list"
  | Trunc nat
  | Delete nat nat
  | Insert nat operand byte
  | Insertch nat nat byte
  | Setstr nat operand byte

fun do_edit :: "bmem \<Rightarrow> bmem \<Rightarrow> bedit \<Rightarrow> bstr \<Rightarrow> (int \<times> bstr) option" where
  "do_edit mc m (Concat op) b = bconcat mc m b op"
| "do_edit mc m (Conchar c) b = bconchar m b c"
| "do_edit mc m (Catblk ys) b = bcatblk m b (Some (map Some ys)) (int (length ys))"
| "do_edit mc m (Trunc n) b = btrunc b (int n)"
| "do_edit mc m (Delete pos len) b = bdelete b (int pos) (int len)"
| "do_edit mc m (Insert pos op c) b = binsert mc m b (int pos) op c"
| "do_edit mc m (Insertch pos n c) b = binsertch m b (int pos) (int n) c"
| "do_edit mc m (Setstr pos op c) b = bsetstr mc m b (int pos) (Some op) c"

text \<open>The same on byte lists. An operand that is part of the string is that part.\<close>

fun op_bytes :: "byte list \<Rightarrow> operand \<Rightarrow> byte list" where
  "op_bytes xs (Sep v) = bytes v"
| "op_bytes xs (Alias off len) = take (nat len) (drop off xs)"

fun op_valid :: "byte list \<Rightarrow> operand \<Rightarrow> bool" where
  "op_valid xs (Sep v) = bstr_ok v"
| "op_valid xs (Alias off len) = (0 \<le> len \<and> off + nat len \<le> length xs)"

fun edit_spec :: "bedit \<Rightarrow> byte list \<Rightarrow> byte list" where
  "edit_spec (Concat op) xs = xs @ op_bytes xs op"
| "edit_spec (Conchar c) xs = xs @ [c]"
| "edit_spec (Catblk ys) xs = xs @ ys"
| "edit_spec (Trunc n) xs = take n xs"
| "edit_spec (Delete pos len) xs = take pos xs @ drop (pos + len) xs"
| "edit_spec (Insert pos op c) xs = insert_at pos (op_bytes xs op) c xs"
| "edit_spec (Insertch pos n c) xs = insert_at pos (replicate n c) c xs"
| "edit_spec (Setstr pos op c) xs = set_at pos (op_bytes xs op) c xs"

text \<open>Operands are strings and the result, the positions too, stays below \<open>INT_MAX\<close>.\<close>

fun edit_valid :: "bedit \<Rightarrow> byte list \<Rightarrow> bool" where
  "edit_valid (Concat op) xs = (op_valid xs op \<and> length xs + length (op_bytes xs op) + 1 < 2 ^ 31)"
| "edit_valid (Conchar c) xs = (length xs + 2 < 2 ^ 31)"
| "edit_valid (Catblk ys) xs = (length xs + length ys + 1 < 2 ^ 31)"
| "edit_valid (Trunc n) xs = True"
| "edit_valid (Delete pos len) xs = (pos + len < 2 ^ 31)"
| "edit_valid (Insert pos op c) xs = (op_valid xs op \<and> max pos (length xs) + length (op_bytes xs op) + 1 < 2 ^ 31)"
| "edit_valid (Insertch pos n c) xs = (max pos (length xs) + n + 1 < 2 ^ 31)"
| "edit_valid (Setstr pos op c) xs = (op_valid xs op \<and> pos + length (op_bytes xs op) + 1 < 2 ^ 31)"

definition has_memory :: "bmem \<Rightarrow> bmem \<Rightarrow> bool" where
  "has_memory mc m \<longleftrightarrow> m_hdr mc \<and> m_snap mc \<and> m_snap m"

lemma op_is_bytes:
  assumes "holds b xs" "op_valid xs op"
  shows "op_is b op (op_bytes xs op)"
proof (cases op)
  case (Sep v)
  then show ?thesis using assms holds_reads [OF holds_bytes] by (simp add: op_is_def op_view_def)
next
  case (Alias off len)
  obtain d where d: "bs_data b = Some d" "starts d xs" using holds_starts [OF assms(1)] by metis
  have "read_block d off (nat len) = Some (take (nat len) (drop off xs))"
    using starts_read [OF d(2), of off "nat len"] assms(2) Alias by simp
  then have "read_block (drop off d) 0 (nat len) = Some (take (nat len) (drop off xs))"
    by (auto simp: read_block_def add.commute split: if_splits)
  moreover have "nat len \<le> length xs - off" "0 \<le> len" using assms(2) Alias by auto
  ultimately show ?thesis using Alias d(1) by (simp add: op_is_def op_view_def reads_def min_absorb2)
qed

lemma edited_mono: "edited a b zs res \<Longrightarrow> (a' \<Longrightarrow> a) \<Longrightarrow> edited a' b zs res"
  by (auto simp: edited_def)

lemma do_edit_edited:
  assumes b: "holds b xs" and v: "edit_valid e xs"
  shows "edited (has_memory mc m) b (edit_spec e xs) (do_edit mc m e b)"
proof (cases e)
  case (Concat op)
  then show ?thesis using bconcat_edited [OF b op_is_bytes [OF b]] v by (auto simp: has_memory_def)
next
  case (Conchar c)
  then show ?thesis using bconchar_edited [OF b] v by (auto simp: has_memory_def intro: edited_mono)
next
  case (Catblk ys)
  have "read_block (map Some ys) 0 (length ys) = Some ys" using read_prefix [of "length ys" ys "[]"] by simp
  then show ?thesis using bcatblk_edited [OF b] v Catblk by (auto simp: has_memory_def intro: edited_mono)
next
  case (Trunc n)
  then show ?thesis using btrunc_finished [OF b] by (simp add: edited_def)
next
  case (Delete pos len)
  then show ?thesis using bdelete_finished [OF b] v by (simp add: edited_def)
next
  case (Insert pos op c)
  then show ?thesis using binsert_edited [OF b op_is_bytes [OF b]] v by (auto simp: has_memory_def)
next
  case (Insertch pos n c)
  then show ?thesis using edited_mono [OF binsertch_edited [OF b, of pos n m c], of "has_memory mc m"] v by (simp add: has_memory_def)
next
  case (Setstr pos op c)
  then show ?thesis using bsetstr_edited [OF b op_is_bytes [OF b]] v by (auto simp: has_memory_def)
qed

text \<open>
  (C29) The type of strings: an operation on a well-formed string never touches memory outside it or reads
  a cell that was not written, and leaves a well-formed string, also where the operand is part of
  the string that is edited. It does what the list operation says, or it lacked memory, reports
  an error and leaves the string as it was.
\<close>

theorem edit_typed:
  assumes "bstr_ok b" "edit_valid e (bytes b)"
  shows "\<exists>r b'. do_edit mc m e b = Some (r, b') \<and> bstr_ok b'
    \<and> ((r = BSTR_OK \<and> bytes b' = edit_spec e (bytes b)) \<or> (r = BSTR_ERR \<and> b' = b \<and> \<not> has_memory mc m))"
  using do_edit_edited [OF holds_bytes [OF assms(1)] assms(2), of mc m] assms(1)
  by (auto simp: edited_def finished_def holds_def)

fun do_edits :: "(bmem \<times> bmem \<times> bedit) list \<Rightarrow> bstr \<Rightarrow> bstr option" where
  "do_edits [] b = Some b"
| "do_edits ((mc, m, e) # es) b = (case do_edit mc m e b of None \<Rightarrow> None | Some (r, b') \<Rightarrow> do_edits es b')"

fun edits_spec :: "bedit list \<Rightarrow> byte list \<Rightarrow> byte list" where
  "edits_spec [] xs = xs"
| "edits_spec (e # es) xs = edits_spec es (edit_spec e xs)"

fun edits_valid :: "bedit list \<Rightarrow> byte list \<Rightarrow> bool" where
  "edits_valid [] xs = True"
| "edits_valid (e # es) xs = (edit_valid e xs \<and> edits_valid es (edit_spec e xs))"

lemma do_edits_holds:
  "holds b xs \<Longrightarrow> edits_valid (map (\<lambda>(_, _, e). e) es) xs \<Longrightarrow> list_all (\<lambda>(mc, m, _). has_memory mc m) es \<Longrightarrow>
   \<exists>b'. do_edits es b = Some b' \<and> holds b' (edits_spec (map (\<lambda>(_, _, e). e) es) xs)"
proof (induction es arbitrary: b xs)
  case (Cons x es)
  obtain mc m e where x: "x = (mc, m, e)" by (cases x)
  obtain b1 where "do_edit mc m e b = Some (BSTR_OK, b1)" "holds b1 (edit_spec e xs)"
    using do_edit_edited [OF Cons.prems(1), of e mc m] Cons.prems(2,3) by (auto simp: x edited_def finished_def)
  then show ?case using Cons.IH [of b1 "edit_spec e xs"] Cons.prems(2,3) by (auto simp: x)
qed simp

text \<open>
  From \<open>bfromcstr\<close> on, any sequence of operations with memory runs without a fault and has the
  result of the list operations, with all the growing and moving of memory in between.
\<close>

theorem bstr_refines_lists:
  assumes "0 \<notin> set s" "length s + 2 < 2 ^ 31" "m_hdr m0" "m_snap m0"
    and "edits_valid (map (\<lambda>(_, _, e). e) es) s" "list_all (\<lambda>(mc, m, _). has_memory mc m) es"
  shows "\<exists>b b'. bfromcstr m0 s = Some (Some b) \<and> do_edits es b = Some b' \<and> bstr_ok b'
    \<and> bytes b' = edits_spec (map (\<lambda>(_, _, e). e) es) s"
proof -
  obtain b where b: "bfromcstr m0 s = Some (Some b)" "holds b s" using bfromcstr_spec [OF assms(2,1), of m0] assms(3,4) by auto
  from do_edits_holds [OF b(2) assms(5,6)] b(1) show ?thesis by (auto simp: holds_def)
qed

section \<open>A concrete run\<close>

definition demo_bmem :: bmem where
  "demo_bmem = \<lparr>m_hdr = True, m_alloc = True, m_snap = True, m_tight = True\<rparr>"

definition demo_bstr :: bstr where
  "demo_bstr = \<lparr>bs_mlen = 4, bs_slen = 3, bs_data = Some [Some 97, Some 98, Some 99, Some 0]\<rparr>"

text \<open>A string that is appended to itself with its memory full, without and with memory.\<close>

lemma edit_typed_witness:
  "(\<exists>b'. do_edit demo_bmem demo_bmem (Concat (Alias 0 3)) demo_bstr = Some (BSTR_OK, b') \<and> bstr_ok b' \<and> bytes b' = [97, 98, 99, 97, 98, 99])"
proof -
  have "bstr_ok demo_bstr" "bytes demo_bstr = [97, 98, 99]" "has_memory demo_bmem demo_bmem"
    by (simp_all add: demo_bstr_def bstr_ok_def bytes_def has_memory_def demo_bmem_def numeral_3_eq_3)
  then show ?thesis using edit_typed [of demo_bstr "Concat (Alias 0 3)" demo_bmem demo_bmem] by auto
qed

lemma bstr_refines_lists_witness:
  "\<exists>b b'. bfromcstr demo_bmem [104, 105] = Some (Some b)
    \<and> do_edits [(demo_bmem, demo_bmem, Conchar 33), (demo_bmem, demo_bmem, Insert 1 (Alias 0 2) 0), (demo_bmem, demo_bmem, Delete 0 1)] b = Some b'
    \<and> bytes b' = [104, 105, 105, 33]"
proof -
  have "has_memory demo_bmem demo_bmem" by (simp add: has_memory_def demo_bmem_def)
  then show ?thesis
    using bstr_refines_lists [of "[104, 105]" demo_bmem
        "[(demo_bmem, demo_bmem, Conchar 33), (demo_bmem, demo_bmem, Insert 1 (Alias 0 2) 0), (demo_bmem, demo_bmem, Delete 0 1)]"]
    by (auto simp: demo_bmem_def insert_at_def)
qed

end
