(* ===== verification/Bstr_Search.thy ===== *)
theory Bstr_Search
  imports Bstr_Edit Hash_Algos
begin

unbundle bit_operations_syntax

text \<open>
  Comparison and search in \<open>lcthw/bstrlib.c\<close>. \<open>same\<close> says whether the two strings have the same data
  pointer, which the code tests as a short cut. The main result is that the unrolled search of
  \<open>binstr\<close>, which does not go back on every mismatch, always ends and finds the first occurrence.
\<close>

section \<open>Comparison\<close>

definition SHRT_MIN :: int where "SHRT_MIN = - 32768"

definition no_string :: "bstr \<Rightarrow> bool" where
  "no_string b \<longleftrightarrow> bs_data b = None \<or> bs_slen b < 0"

definition str_of :: "bstr \<Rightarrow> byte list option" where
  "str_of b = read_block (the (bs_data b)) 0 (nat (bs_slen b))"

definition biseq :: "bool \<Rightarrow> bstr \<Rightarrow> bstr \<Rightarrow> int option" where
  "biseq same b0 b1 =
     (if no_string b0 \<or> no_string b1 then Some BSTR_ERR
      else if bs_slen b0 \<noteq> bs_slen b1 then Some BSTR_OK
      else if same \<or> bs_slen b0 = 0 then Some 1
      else case (str_of b0, str_of b1) of (Some x, Some y) \<Rightarrow> Some (if x = y then 1 else 0) | _ \<Rightarrow> None)"

text \<open>The loop of \<open>bstrcmp\<close> on the two strings, which stops at a zero, and the comparison of the lengths.\<close>

fun cmp_loop :: "byte list \<Rightarrow> byte list \<Rightarrow> int" where
  "cmp_loop (x # xs) (y # ys) =
     (let v = sint x - sint y in if v \<noteq> 0 then v else if x = 0 then BSTR_OK else cmp_loop xs ys)"
| "cmp_loop (x # xs) [] = 1"
| "cmp_loop [] (y # ys) = - 1"
| "cmp_loop [] [] = BSTR_OK"

definition bstrcmp :: "bool \<Rightarrow> bstr \<Rightarrow> bstr \<Rightarrow> int option" where
  "bstrcmp same b0 b1 =
     (if no_string b0 \<or> no_string b1 then Some SHRT_MIN
      else if bs_slen b0 = bs_slen b1 \<and> (same \<or> bs_slen b0 = 0) then Some BSTR_OK
      else case (str_of b0, str_of b1) of (Some x, Some y) \<Rightarrow> Some (cmp_loop x y) | _ \<Rightarrow> None)"

text \<open>\<open>bstrncmp\<close>: the loop over at most \<open>m\<close> bytes; \<open>None\<close> if it runs to its end.\<close>

fun ncmp_loop :: "nat \<Rightarrow> byte list \<Rightarrow> byte list \<Rightarrow> int option" where
  "ncmp_loop (Suc m) (x # xs) (y # ys) =
     (let v = sint x - sint y in if v \<noteq> 0 then Some v else if x = 0 then Some BSTR_OK else ncmp_loop m xs ys)"
| "ncmp_loop _ _ _ = None"

definition bstrncmp :: "bool \<Rightarrow> bstr \<Rightarrow> bstr \<Rightarrow> int \<Rightarrow> int option" where
  "bstrncmp same b0 b1 n =
     (if no_string b0 \<or> no_string b1 then Some SHRT_MIN
      else let m = n; m = (if m > bs_slen b0 then bs_slen b0 else m); m = (if m > bs_slen b1 then bs_slen b1 else m);
               rest = (if n = m \<or> bs_slen b0 = bs_slen b1 then BSTR_OK else if bs_slen b0 > m then 1 else - 1) in
      if same then Some rest
      else case (str_of b0, str_of b1) of
        (Some x, Some y) \<Rightarrow> (case ncmp_loop (nat m) x y of Some v \<Rightarrow> Some v | None \<Rightarrow> Some rest) | _ \<Rightarrow> None)"

lemma reads_str: "reads b xs \<Longrightarrow> \<not> no_string b \<and> str_of b = Some xs \<and> bs_slen b = int (length xs)"
  by (auto simp: reads_def no_string_def str_of_def)

lemma biseq_iff:
  assumes "reads b0 xs" "reads b1 ys" "same \<Longrightarrow> length xs = length ys \<Longrightarrow> xs = ys"
  shows "biseq same b0 b1 = Some (if xs = ys then 1 else 0)"
  using reads_str [OF assms(1)] reads_str [OF assms(2)] assms(3)
  by (auto simp: biseq_def BSTR_OK_def)

lemma cmp_loop_takeWhile:
  "cmp_loop xs ys = 0 \<longleftrightarrow> xs = ys \<or> (\<exists>zs r s. xs = zs @ 0 # r \<and> ys = zs @ 0 # s)"
proof (induction xs ys rule: cmp_loop.induct)
  case (1 x xs y ys)
  have eq: "sint x - sint y = 0 \<longleftrightarrow> x = y" by (auto simp: signed_word_eqI)
  show ?case
  proof (cases "x = y \<and> x \<noteq> 0")
    case True
    then have "cmp_loop (x # xs) (y # ys) = cmp_loop xs ys" by auto
    moreover have "(\<exists>zs r s. x # xs = zs @ 0 # r \<and> y # ys = zs @ 0 # s) \<longleftrightarrow> (\<exists>zs r s. xs = zs @ 0 # r \<and> ys = zs @ 0 # s)"
      using True by (auto simp: Cons_eq_append_conv)
    ultimately show ?thesis using 1 True by auto
  next
    case False
    show ?thesis
    proof (cases "x = y")
      case True
      with False have "x = 0" "y = 0" by auto
      then show ?thesis by (auto simp: BSTR_OK_def)
    next
      case F: False
      have "\<not> (\<exists>zs r s. x # xs = zs @ 0 # r \<and> y # ys = zs @ 0 # s)" using F by (auto simp: Cons_eq_append_conv)
      then show ?thesis using F eq by (auto simp: Let_def)
    qed
  qed
qed (auto simp: BSTR_OK_def)

text \<open>The strings are equal up to the first zero; for strings without zeros this is equality.\<close>

lemma bstrcmp_zero:
  assumes "reads b0 xs" "reads b1 ys" "same \<Longrightarrow> length xs = length ys \<Longrightarrow> xs = ys"
  shows "\<exists>v. bstrcmp same b0 b1 = Some v \<and> (v = 0 \<longleftrightarrow> xs = ys \<or> (\<exists>zs r s. xs = zs @ 0 # r \<and> ys = zs @ 0 # s))"
proof (cases "length xs = length ys \<and> (same \<or> xs = [])")
  case True
  then show ?thesis using reads_str [OF assms(1)] reads_str [OF assms(2)] assms(3) by (auto simp: bstrcmp_def BSTR_OK_def)
next
  case False
  then show ?thesis
    using reads_str [OF assms(1)] reads_str [OF assms(2)] cmp_loop_takeWhile [of xs ys] by (auto simp: bstrcmp_def)
qed

lemma bstrcmp_equal_no_zero:
  assumes "reads b0 xs" "reads b1 ys" "same \<Longrightarrow> length xs = length ys \<Longrightarrow> xs = ys" "0 \<notin> set xs"
  shows "\<exists>v. bstrcmp same b0 b1 = Some v \<and> (v = 0 \<longleftrightarrow> xs = ys)"
  using bstrcmp_zero [OF assms(1-3)] assms(4) by fastforce

section \<open>Characters\<close>

definition bstrchrp :: "bstr \<Rightarrow> byte \<Rightarrow> int \<Rightarrow> int option" where
  "bstrchrp b c pos =
     (if bs_data b = None \<or> bs_slen b \<le> pos \<or> pos < 0 then Some BSTR_ERR
      else map_option (\<lambda>xs. let k = length (takeWhile (\<lambda>x. x \<noteq> c) (drop (nat pos) xs)) in
          if nat pos + k < length xs then pos + int k else BSTR_ERR) (str_of b))"

fun rchr_loop :: "nat \<Rightarrow> byte list \<Rightarrow> (byte \<Rightarrow> bool) \<Rightarrow> int" where
  "rchr_loop 0 xs P = (if P (xs ! 0) then 0 else BSTR_ERR)"
| "rchr_loop (Suc i) xs P = (if P (xs ! Suc i) then int (Suc i) else rchr_loop i xs P)"

definition bstrrchrp :: "bstr \<Rightarrow> byte \<Rightarrow> int \<Rightarrow> int option" where
  "bstrrchrp b c pos =
     (if bs_data b = None \<or> bs_slen b \<le> pos \<or> pos < 0 then Some BSTR_ERR
      else map_option (\<lambda>xs. rchr_loop (nat pos) xs (\<lambda>x. x = c)) (str_of b))"

text \<open>A set of characters as 32 bytes.\<close>

type_synonym charField = "byte list"

definition setInCharField :: "byte \<Rightarrow> charField \<Rightarrow> charField" where
  "setInCharField c cf = (let i = unat (drop_bit 3 c) in cf[i := cf ! i OR push_bit (unat (c AND 7)) 1])"

definition testInCharField :: "charField \<Rightarrow> byte \<Rightarrow> bool" where
  "testInCharField cf c \<longleftrightarrow> cf ! unat (drop_bit 3 c) AND push_bit (unat (c AND 7)) 1 \<noteq> 0"

definition buildCharField :: "byte list \<Rightarrow> charField option" where
  "buildCharField xs = (if xs = [] then None else Some (fold setInCharField xs (replicate 32 0)))"

definition invertCharField :: "charField \<Rightarrow> charField" where
  "invertCharField cf = map NOT cf"

fun binchrCF :: "byte list \<Rightarrow> nat \<Rightarrow> charField \<Rightarrow> int" where
  "binchrCF [] i cf = BSTR_ERR"
| "binchrCF (c # cs) i cf = (if testInCharField cf c then int i else binchrCF cs (Suc i) cf)"

definition binchr :: "bstr \<Rightarrow> int \<Rightarrow> bstr \<Rightarrow> int option" where
  "binchr b0 pos b1 =
     (if pos < 0 \<or> bs_data b0 = None \<or> bs_slen b0 \<le> pos then Some BSTR_ERR
      else if bs_slen b1 = 1 then
        (case str_of b1 of None \<Rightarrow> None | Some ys \<Rightarrow> bstrchrp b0 (hd ys) pos)
      else if no_string b1 \<or> bs_slen b1 = 0 then Some BSTR_ERR
      else case (str_of b0, str_of b1) of
        (Some xs, Some ys) \<Rightarrow> (case buildCharField ys of None \<Rightarrow> Some BSTR_ERR
          | Some cf \<Rightarrow> Some (binchrCF (drop (nat pos) xs) (nat pos) cf)) | _ \<Rightarrow> None)"

definition bninchr :: "bstr \<Rightarrow> int \<Rightarrow> bstr \<Rightarrow> int option" where
  "bninchr b0 pos b1 =
     (if pos < 0 \<or> bs_data b0 = None \<or> bs_slen b0 \<le> pos \<or> no_string b1 \<or> bs_slen b1 = 0 then Some BSTR_ERR
      else case (str_of b0, str_of b1) of
        (Some xs, Some ys) \<Rightarrow> (case buildCharField ys of None \<Rightarrow> Some BSTR_ERR
          | Some cf \<Rightarrow> Some (binchrCF (drop (nat pos) xs) (nat pos) (invertCharField cf))) | _ \<Rightarrow> None)"

lemma bit_of_char:
  fixes c d :: byte
  shows "drop_bit 3 c = drop_bit 3 d \<and> c AND 7 = d AND 7 \<longleftrightarrow> c = d"
proof
  assume a: "drop_bit 3 c = drop_bit 3 d \<and> c AND 7 = d AND 7"
  have m: "x AND 7 = take_bit 3 x" for x :: byte by (simp add: take_bit_eq_mask mask_numeral)
  have "c = push_bit 3 (drop_bit 3 c) + take_bit 3 c" by (rule bits_ident [symmetric])
  also have "\<dots> = push_bit 3 (drop_bit 3 d) + take_bit 3 d" using a unfolding m by (simp only:)
  also have "\<dots> = d" by (rule bits_ident)
  finally show "c = d" .
qed simp

lemma char_index: "unat (drop_bit 3 (c :: byte)) < 32" "unat (c AND 7) < 8"
proof -
  have "unat c < 2 ^ LENGTH(8)" by (rule unsigned_less)
  then show "unat (drop_bit 3 c) < 32" unfolding unat_drop_bit_eq by (simp add: drop_bit_eq_div)
  have "c AND 7 = take_bit 3 c" by (simp add: take_bit_eq_mask mask_numeral)
  then have "unat (c AND 7) = take_bit 3 (unat c)" by (simp only: unsigned_take_bit_eq)
  then show "unat (c AND 7) < 8" by (simp add: take_bit_eq_mod)
qed

lemma test_bit: "testInCharField cf c \<longleftrightarrow> bit (cf ! unat (drop_bit 3 c)) (unat (c AND 7))"
  by (simp add: testInCharField_def and_exp_eq_0_iff_not_bit push_bit_eq_mult)

lemma test_set:
  assumes "length cf = 32"
  shows "testInCharField (setInCharField c cf) d \<longleftrightarrow> d = c \<or> testInCharField cf d"
proof (cases "drop_bit 3 d = drop_bit 3 c")
  case True
  have "unat (d AND 7) = unat (c AND 7) \<longleftrightarrow> d = c" using bit_of_char [of d c] True by (auto simp: word_unat_eq_iff)
  then show ?thesis using True assms char_index
    by (auto simp: test_bit setInCharField_def Let_def bit_or_iff bit_exp_iff)
next
  case False
  then have "unat (drop_bit 3 d) \<noteq> unat (drop_bit 3 c)" "d \<noteq> c"
    using word_unat_eq_iff [of "drop_bit 3 d" "drop_bit 3 c"] by blast+
  then show ?thesis by (simp add: test_bit setInCharField_def Let_def)
qed

lemma test_fold:
  "length cf = 32 \<Longrightarrow> testInCharField (fold setInCharField xs cf) d \<longleftrightarrow> d \<in> set xs \<or> testInCharField cf d"
proof (induction xs arbitrary: cf)
  case (Cons x xs)
  have "length (setInCharField x cf) = 32" using Cons.prems by (simp add: setInCharField_def Let_def)
  then show ?case using Cons test_set by auto
qed simp

lemma length_fold_set: "length (fold setInCharField xs cf) = length cf"
  by (induction xs arbitrary: cf) (simp_all add: setInCharField_def Let_def)

text \<open>The field built from a string contains exactly its characters, the inverted one the others.\<close>

lemma charField_exact:
  assumes "buildCharField xs = Some cf"
  shows "testInCharField cf d \<longleftrightarrow> d \<in> set xs" "testInCharField (invertCharField cf) d \<longleftrightarrow> d \<notin> set xs"
proof -
  have cf: "cf = fold setInCharField xs (replicate 32 0)" using assms by (auto simp: buildCharField_def split: if_splits)
  have z: "\<not> testInCharField (replicate 32 0) d" using char_index(1) [of d] by (simp add: test_bit)
  show t: "testInCharField cf d \<longleftrightarrow> d \<in> set xs" using test_fold [of "replicate 32 0" xs d] z by (simp add: cf)
  have "length cf = 32" by (simp add: cf length_fold_set)
  then have "testInCharField (invertCharField cf) d \<longleftrightarrow> \<not> testInCharField cf d"
    using char_index [of d] by (simp add: test_bit invertCharField_def bit_not_iff)
  then show "testInCharField (invertCharField cf) d \<longleftrightarrow> d \<notin> set xs" using t by simp
qed

definition first_from :: "(nat \<Rightarrow> bool) \<Rightarrow> nat \<Rightarrow> int \<Rightarrow> bool" where
  "first_from P pos r \<longleftrightarrow> (r = BSTR_ERR \<and> (\<forall>m. pos \<le> m \<longrightarrow> \<not> P m))
     \<or> (\<exists>m. r = int m \<and> pos \<le> m \<and> P m \<and> (\<forall>k. pos \<le> k \<and> k < m \<longrightarrow> \<not> P k))"

lemma binchrCF_first:
  "first_from (\<lambda>m. i \<le> m \<and> m - i < length cs \<and> testInCharField cf (cs ! (m - i))) i (binchrCF cs i cf)"
proof (induction cs arbitrary: i)
  case Nil
  then show ?case by (simp add: first_from_def)
next
  case (Cons c cs)
  show ?case
  proof (cases "testInCharField cf c")
    case True
    then show ?thesis by (auto simp: first_from_def)
  next
    case False
    have "(i \<le> m \<and> m - i < length (c # cs) \<and> testInCharField cf ((c # cs) ! (m - i))) \<longleftrightarrow>
        (Suc i \<le> m \<and> m - Suc i < length cs \<and> testInCharField cf (cs ! (m - Suc i)))" for m
    proof (cases "m = i")
      case False
      then show ?thesis by (cases "i \<le> m") (auto simp: nth_Cons' Suc_le_eq)
    qed (use False in simp)
    then show ?thesis using Cons [of "Suc i"] False by (auto simp: first_from_def Suc_le_eq not_less_eq_eq)
  qed
qed

lemma binchr_first:
  assumes "reads b0 xs" "reads b1 ys" "2 \<le> length ys" "pos < length xs"
  shows "\<exists>r. binchr b0 (int pos) b1 = Some r \<and> first_from (\<lambda>m. m < length xs \<and> xs ! m \<in> set ys) pos r"
    and "\<exists>r. bninchr b0 (int pos) b1 = Some r \<and> first_from (\<lambda>m. m < length xs \<and> xs ! m \<notin> set ys) pos r"
proof -
  obtain cf where cf: "buildCharField ys = Some cf" using assms(3) by (cases ys) (auto simp: buildCharField_def)
  have b: "bs_data b0 \<noteq> None" using assms(1) by (auto simp: reads_def)
  have eq: "first_from (\<lambda>m. pos \<le> m \<and> m - pos < length (drop pos xs) \<and> testInCharField f (drop pos xs ! (m - pos))) pos r
      \<longleftrightarrow> first_from (\<lambda>m. m < length xs \<and> testInCharField f (xs ! m)) pos r" for f r
    using assms(4) by (auto simp: first_from_def)
  show "\<exists>r. binchr b0 (int pos) b1 = Some r \<and> first_from (\<lambda>m. m < length xs \<and> xs ! m \<in> set ys) pos r"
    using binchrCF_first [of pos "drop pos xs" cf, unfolded eq, unfolded charField_exact(1) [OF cf]]
      reads_str [OF assms(1)] reads_str [OF assms(2)] assms(3,4) b cf by (auto simp: binchr_def)
  show "\<exists>r. bninchr b0 (int pos) b1 = Some r \<and> first_from (\<lambda>m. m < length xs \<and> xs ! m \<notin> set ys) pos r"
    using binchrCF_first [of pos "drop pos xs" "invertCharField cf", unfolded eq, unfolded charField_exact(2) [OF cf]]
      reads_str [OF assms(1)] reads_str [OF assms(2)] assms(3,4) b cf by (auto simp: bninchr_def)
qed

section \<open>Substrings\<close>

text \<open>
  The loop of \<open>binstr\<close> for a pattern of two bytes and more. \<open>j\<close> bytes of the pattern were seen in
  order, the first at \<open>ii\<close>, but not necessarily next to each other; only when all were seen does
  the code look whether they were, and if not it starts again \<open>j\<close> positions before.
\<close>

partial_function (option) binstr_loop :: "byte list \<Rightarrow> byte list \<Rightarrow> nat \<Rightarrow> nat \<Rightarrow> nat \<Rightarrow> int option" where
  "binstr_loop p t i j ii =
     (if i < length t - 1 then
        (if p ! j \<noteq> t ! i \<and> p ! j \<noteq> t ! (i + 1) then binstr_loop p t (i + 2) j ii
         else let i1 = (if p ! j \<noteq> t ! i then i + 1 else i); ii1 = (if j = 0 then i1 else ii) in
           if j + 1 < length p then binstr_loop p t (i1 + 1) (j + 1) ii1
           else if i1 + 1 = ii1 + (j + 1) then Some (int ii1)
           else binstr_loop p t (i1 + 1 - (j + 1)) 0 ii1)
      else if i = length t - 1 \<and> length p = j + 1 \<and> p ! j = t ! i then
        (if i = ii + j then Some (int ii) else binstr_loop p t (i - j) 0 ii)
      else Some BSTR_ERR)"

definition binstr :: "bool \<Rightarrow> bstr \<Rightarrow> int \<Rightarrow> bstr \<Rightarrow> int option" where
  "binstr same b1 pos b2 =
     (if no_string b1 \<or> no_string b2 then Some BSTR_ERR
      else if bs_slen b1 = pos then Some (if bs_slen b2 = 0 then pos else BSTR_ERR)
      else if bs_slen b1 < pos \<or> pos < 0 then Some BSTR_ERR
      else if bs_slen b2 = 0 then Some pos
      else if bs_slen b1 - bs_slen b2 + 1 \<le> pos then Some BSTR_ERR
      else if same \<and> pos = 0 then Some 0
      else case (str_of b1, str_of b2) of
        (Some t, Some p) \<Rightarrow>
          if length p = 1 then
            (let k = length (takeWhile (\<lambda>x. x \<noteq> hd p) (drop (nat pos) t)) in
             Some (if nat pos + k < length t then pos + int k else BSTR_ERR))
          else binstr_loop p t (nat pos) 0 0
      | _ \<Rightarrow> None)"

definition occurs :: "byte list \<Rightarrow> byte list \<Rightarrow> nat \<Rightarrow> bool" where
  "occurs p t m \<longleftrightarrow> m + length p \<le> length t \<and> (\<forall>k < length p. t ! (m + k) = p ! k)"

text \<open>No occurrence is passed: the bytes seen are the earliest that an occurrence could have.\<close>

definition search_inv :: "byte list \<Rightarrow> byte list \<Rightarrow> nat \<Rightarrow> nat \<Rightarrow> nat \<Rightarrow> nat \<Rightarrow> bool" where
  "search_inv p t pos i j ii \<longleftrightarrow> j < length p \<and> i \<le> length t
     \<and> (\<forall>m. pos \<le> m \<and> occurs p t m \<longrightarrow> i \<le> m + j)
     \<and> (if j = 0 then pos \<le> i else pos \<le> ii \<and> ii + j \<le> i \<and> (i = ii + j \<longrightarrow> (\<forall>k < j. t ! (ii + k) = p ! k)))"

lemma search_invD:
  assumes "search_inv p t pos i j ii"
  shows "j < length p" "i \<le> length t" "\<And>m. pos \<le> m \<Longrightarrow> occurs p t m \<Longrightarrow> i \<le> m + j"
    "j = 0 \<Longrightarrow> pos \<le> i" "0 < j \<Longrightarrow> pos \<le> ii" "0 < j \<Longrightarrow> ii + j \<le> i"
    "0 < j \<Longrightarrow> i = ii + j \<Longrightarrow> k < j \<Longrightarrow> t ! (ii + k) = p ! k"
  using assms by (auto simp: search_inv_def split: if_splits)

text \<open>A mismatch moves every possible occurrence on.\<close>

lemma mismatch_moves:
  assumes "j < length p" "p ! j \<noteq> t ! i" "occurs p t m" "i \<le> m + j"
  shows "Suc i \<le> m + j"
proof -
  have "t ! (m + j) = p ! j" using assms by (auto simp: occurs_def)
  then have "m + j \<noteq> i" using assms(2) by metis
  then show ?thesis using assms(4) by simp
qed

lemma search_skip:
  assumes inv: "search_inv p t pos i j ii" and i: "i < length t - 1" and ne: "p ! j \<noteq> t ! i" "p ! j \<noteq> t ! (i + 1)"
  shows "search_inv p t pos (i + 2) j ii"
proof -
  note d = search_invD [OF inv]
  have "i + 2 \<le> m + j" if "pos \<le> m" "occurs p t m" for m
    using mismatch_moves [OF d(1) _ that(2), of "i + 1"] mismatch_moves [OF d(1) ne(1) that(2) d(3) [OF that]] ne(2) by simp
  then show ?thesis using inv i by (auto simp: search_inv_def)
qed

lemma search_match:
  assumes inv: "search_inv p t pos i j ii" and i: "i < length t - 1"
    and i1: "i1 = (if p ! j \<noteq> t ! i then i + 1 else i)" "p ! j = t ! i1" and ii1: "ii1 = (if j = 0 then i1 else ii)"
  shows "\<And>m. pos \<le> m \<Longrightarrow> occurs p t m \<Longrightarrow> i1 + 1 \<le> m + (j + 1)"
    and "pos \<le> ii1" "ii1 + (j + 1) \<le> i1 + 1"
    and "i1 + 1 = ii1 + (j + 1) \<Longrightarrow> k < j + 1 \<Longrightarrow> t ! (ii1 + k) = p ! k"
    and "j + 1 < length p \<Longrightarrow> search_inv p t pos (i1 + 1) (j + 1) ii1"
proof -
  note d = search_invD [OF inv]
  show 1: "i1 + 1 \<le> m + (j + 1)" if "pos \<le> m" "occurs p t m" for m
    using mismatch_moves [OF d(1) _ that(2) d(3) [OF that]] d(3) [OF that] by (auto simp: i1(1))
  show 2: "pos \<le> ii1" using d(4,5) by (auto simp: ii1 i1(1))
  have le: "i \<le> i1" "i1 \<le> i + 1" by (simp_all add: i1(1))
  show 3: "ii1 + (j + 1) \<le> i1 + 1" using d(6) le by (auto simp: ii1)
  show 4: "t ! (ii1 + k) = p ! k" if "i1 + 1 = ii1 + (j + 1)" "k < j + 1" for k
  proof (cases "k = j")
    case True
    then show ?thesis using i1(2) that(1) by simp
  next
    case False
    then have "0 < j" "k < j" using that(2) by auto
    then have "ii1 = ii" "i = ii + j" using d(6) le that(1) by (auto simp: ii1)
    then show ?thesis using d(7) \<open>0 < j\<close> \<open>k < j\<close> by simp
  qed
  show "search_inv p t pos (i1 + 1) (j + 1) ii1" if "j + 1 < length p"
    using that 1 2 3 4 i le by (auto simp: search_inv_def)
qed

lemma search_restart:
  assumes "0 < j" "pos \<le> ii" "ii + j \<le> i" "i \<noteq> ii + j" "i \<le> length t" "p \<noteq> []"
    and "\<And>m. pos \<le> m \<Longrightarrow> occurs p t m \<Longrightarrow> i \<le> m + j"
  shows "search_inv p t pos (i - j) 0 ii" "ii < i - j"
  using assms by (auto simp: search_inv_def le_diff_conv)

lemma search_found:
  assumes "pos \<le> ii" "ii + length p \<le> length t" "\<And>k. k < length p \<Longrightarrow> t ! (ii + k) = p ! k"
    and "\<And>m. pos \<le> m \<Longrightarrow> occurs p t m \<Longrightarrow> ii \<le> m"
  shows "first_from (occurs p t) pos (int ii)"
  using assms by (fastforce simp: first_from_def occurs_def)

definition search_order :: "byte list \<Rightarrow> ((nat \<times> nat \<times> nat) \<times> (nat \<times> nat \<times> nat)) set" where
  "search_order t = measures [\<lambda>(i, j, ii). length t + 1 - (if j = 0 then i else ii), \<lambda>(i, j, ii). length t + 1 - i]"

lemma search_match_found:
  assumes "search_inv p t pos i j ii" "i < length t - 1" "i1 = (if p ! j \<noteq> t ! i then i + 1 else i)" "p ! j = t ! i1"
    and "ii1 = (if j = 0 then i1 else ii)" "length p = j + 1" "i1 + 1 = ii1 + (j + 1)"
  shows "first_from (occurs p t) pos (int ii1)"
proof (rule search_found)
  note s = search_match [OF assms(1-5)]
  show "pos \<le> ii1" by (rule s(2))
  show "ii1 + length p \<le> length t" using assms(2,3,6,7) by (auto split: if_splits)
  show "t ! (ii1 + k) = p ! k" if "k < length p" for k using s(4) [OF assms(7)] that assms(6) by simp
  show "ii1 \<le> m" if "pos \<le> m" "occurs p t m" for m using s(1) [OF that] assms(7) by simp
qed

lemma search_end_found:
  assumes inv: "search_inv p t pos i j ii" and e: "i = length t - 1" "length p = j + 1" "p ! j = t ! i" "i = ii + j" and j: "0 < j"
  shows "first_from (occurs p t) pos (int ii)"
proof (rule search_found)
  note d = search_invD [OF inv]
  show "pos \<le> ii" using d(5) j by simp
  show "ii + length p \<le> length t" using e j by simp
  show "t ! (ii + k) = p ! k" if "k < length p" for k using d(7) [OF j e(4), of k] e that by (cases "k = j") auto
  show "ii \<le> m" if "pos \<le> m" "occurs p t m" for m using d(3) [OF that] e(4) by simp
qed

lemma search_end_none:
  assumes inv: "search_inv p t pos i j ii" and e: "\<not> i < length t - 1" "\<not> (i = length t - 1 \<and> length p = j + 1 \<and> p ! j = t ! i)"
  shows "first_from (occurs p t) pos BSTR_ERR"
proof -
  note d = search_invD [OF inv]
  have "\<not> occurs p t m" if "pos \<le> m" for m
  proof
    assume o: "occurs p t m"
    have m: "i \<le> m + j" "m + length p \<le> length t" using d(3) [OF that o] o by (simp_all add: occurs_def)
    then have "length p = j + 1" "i = length t - 1" "m + j = i" using d(1) e(1) by linarith+
    moreover have "t ! (m + j) = p ! j" using o d(1) by (simp add: occurs_def)
    ultimately show False using e(2) by simp
  qed
  then show ?thesis by (simp add: first_from_def)
qed

lemma binstr_loop_first:
  assumes p: "2 \<le> length p" and inv: "search_inv p t pos i j ii"
  shows "\<exists>r. binstr_loop p t i j ii = Some r \<and> first_from (occurs p t) pos r"
proof -
  have "p \<noteq> []" using p by auto
  have "wf (search_order t)" by (simp add: search_order_def)
  then show ?thesis using inv
  proof (induction "(i, j, ii)" arbitrary: i j ii rule: wf_induct_rule)
    case less
    note IH = less.hyps and inv = less.prems
    note d = search_invD [OF inv]
    define i1 where "i1 = (if p ! j \<noteq> t ! i then i + 1 else i)"
    define ii1 where "ii1 = (if j = 0 then i1 else ii)"
    note run = binstr_loop.simps [of p t i j ii, unfolded Let_def, folded i1_def, folded ii1_def]
    consider (skip) "i < length t - 1" "p ! j \<noteq> t ! i \<and> p ! j \<noteq> t ! (i + 1)"
      | (match) "i < length t - 1" "\<not> (p ! j \<noteq> t ! i \<and> p ! j \<noteq> t ! (i + 1))"
      | (last) "\<not> i < length t - 1" "i = length t - 1 \<and> length p = j + 1 \<and> p ! j = t ! i"
      | (none) "\<not> i < length t - 1" "\<not> (i = length t - 1 \<and> length p = j + 1 \<and> p ! j = t ! i)" by blast
    then show ?case
    proof cases
      case skip
      have "((i + 2, j, ii), (i, j, ii)) \<in> search_order t" using skip(1) by (auto simp: search_order_def)
      from IH [OF this search_skip [OF inv skip(1)]] skip(2) show ?thesis unfolding run if_P [OF skip(1)] if_P [OF skip(2)] by blast
    next
      case match
      have e: "p ! j = t ! i1" using match by (auto simp: i1_def)
      note s = search_match [OF inv match(1) i1_def e ii1_def]
      have le: "i \<le> i1" "i1 + 1 \<le> length t" using match by (auto simp: i1_def)
      note run' = run [unfolded if_P [OF match(1)] if_not_P [OF match(2)]]
      consider "j + 1 < length p" | "\<not> j + 1 < length p" "i1 + 1 = ii1 + (j + 1)" | "\<not> j + 1 < length p" "i1 + 1 \<noteq> ii1 + (j + 1)" by blast
      then show ?thesis
      proof cases
        case 1
        have "((i1 + 1, j + 1, ii1), (i, j, ii)) \<in> search_order t" using le match(1) by (auto simp: search_order_def ii1_def)
        from IH [OF this s(5) [OF 1]] show ?thesis unfolding run' if_P [OF 1] .
      next
        case 2
        then show ?thesis using search_match_found [OF inv match(1) i1_def e ii1_def] d(1) unfolding run' by simp
      next
        case 3
        have "0 < j" using 3(1) p by simp
        note r = search_restart [OF _ s(2,3) 3(2) le(2) \<open>p \<noteq> []\<close> s(1)]
        have "((i1 + 1 - (j + 1), 0, ii1), (i, j, ii)) \<in> search_order t"
          using r(2) \<open>0 < j\<close> le by (auto simp: search_order_def ii1_def)
        from IH [OF this r(1)] show ?thesis unfolding run' if_not_P [OF 3(1)] if_not_P [OF 3(2)] by simp
      qed
    next
      case last
      then have j: "0 < j" using p by simp
      note run' = run [unfolded if_not_P [OF last(1)] if_P [OF last(2)]]
      show ?thesis
      proof (cases "i = ii + j")
        case True
        then show ?thesis using search_end_found [OF inv] last j unfolding run' by auto
      next
        case False
        note r = search_restart [OF j d(5,6) [OF j] False d(2) \<open>p \<noteq> []\<close> d(3)]
        have "((i - j, 0, ii), (i, j, ii)) \<in> search_order t" using r(2) j d(2) by (auto simp: search_order_def)
        from IH [OF this r(1)] show ?thesis unfolding run' if_not_P [OF False] .
      qed
    next
      case none
      then show ?thesis using search_end_none [OF inv] unfolding run if_not_P [OF none(1)] if_not_P [OF none(2)] by blast
    qed
  qed
qed

lemma takeWhile_first:
  assumes "pos \<le> length t" "k = length (takeWhile (\<lambda>x. x \<noteq> c) (drop pos t))"
  shows "first_from (\<lambda>m. m < length t \<and> t ! m = c) pos (if pos + k < length t then int pos + int k else BSTR_ERR)"
proof -
  have before: "t ! m \<noteq> c" if "pos \<le> m" "m < pos + k" for m
  proof -
    have "m - pos < length (takeWhile (\<lambda>x. x \<noteq> c) (drop pos t))" using that assms(2) by simp
    from nth_mem [OF this] takeWhile_nth [OF this] show ?thesis using that assms(1) set_takeWhileD by fastforce
  qed
  show ?thesis
  proof (cases "pos + k < length t")
    case True
    then have "drop pos t ! k = c" using nth_length_takeWhile [of "\<lambda>x. x \<noteq> c" "drop pos t"] assms(2) by auto
    then show ?thesis using True before by (auto simp: first_from_def intro!: exI [of _ "pos + k"])
  next
    case False
    then show ?thesis using before by (auto simp: first_from_def)
  qed
qed

text \<open>
  \<open>binstr\<close> always returns, and finds the first occurrence of one string in another at a position or
  behind it, or reports that there is none: the search that skips two positions at a time and
  rewinds only after all bytes of the pattern were seen agrees with the definition.
\<close>

theorem binstr_first:
  assumes "reads b1 t" "reads b2 p" "pos \<le> length t" "same \<longrightarrow> take (min (length p) (length t)) p = take (min (length p) (length t)) t"
  shows "\<exists>r. binstr same b1 (int pos) b2 = Some r \<and> first_from (occurs p t) pos r"
proof -
  note r = reads_str [OF assms(1)] reads_str [OF assms(2)]
  consider "p = []" | "p \<noteq> []" "length t < pos + length p" | "p \<noteq> []" "pos + length p \<le> length t" "same" "pos = 0"
    | c where "p = [c]" "pos + length p \<le> length t" "\<not> (same \<and> pos = 0)" | "2 \<le> length p" "pos + length p \<le> length t" "\<not> (same \<and> pos = 0)"
  proof -
    have "p = [] \<or> (\<exists>c. p = [c]) \<or> 2 \<le> length p" by (cases p rule: remdups_adj.cases) auto
    then show ?thesis using that by (metis linorder_not_less list.simps(3))
  qed
  then show ?thesis
  proof cases
    case 1
    then have "first_from (occurs p t) pos (int pos)" using assms(3) by (auto simp: first_from_def occurs_def)
    then show ?thesis using 1 r assms(3) by (auto simp: binstr_def)
  next
    case 2
    then have "first_from (occurs p t) pos BSTR_ERR" by (auto simp: first_from_def occurs_def)
    then show ?thesis using 2 r assms(3) by (auto simp: binstr_def)
  next
    case 3
    then have "p = take (length p) t" using assms(4) by (simp add: min_def)
    then have "t ! k = p ! k" if "k < length p" for k using that by (metis nth_take)
    then have "first_from (occurs p t) pos (int 0)" using 3 by (auto simp: first_from_def occurs_def)
    then show ?thesis using 3 r by (auto simp: binstr_def)
  next
    case (4 c)
    have "occurs p t m \<longleftrightarrow> m < length t \<and> t ! m = c" for m by (auto simp: occurs_def 4(1))
    then have "first_from (occurs p t) pos x \<longleftrightarrow> first_from (\<lambda>m. m < length t \<and> t ! m = c) pos x" for x by (simp add: first_from_def)
    then show ?thesis using takeWhile_first [OF assms(3) refl, of c] 4 r by (auto simp: binstr_def Let_def)
  next
    case 5
    then have "search_inv p t pos pos 0 0" by (auto simp: search_inv_def)
    from binstr_loop_first [OF 5(1) this] 5 r show ?thesis by (auto simp: binstr_def)
  qed
qed

section \<open>Searching backwards\<close>

function binstrr_loop :: "byte list \<Rightarrow> byte list \<Rightarrow> nat \<Rightarrow> nat \<Rightarrow> int" where
  "binstrr_loop p t i j =
     (if p ! j = t ! (i + j) then (if length p \<le> j + 1 then int i else binstrr_loop p t i (j + 1))
      else if i = 0 then BSTR_ERR else binstrr_loop p t (i - 1) 0)"
  by pat_completeness auto
termination
  by (relation "measures [\<lambda>(p, t, i, j). i, \<lambda>(p, t, i, j). length p - j]") auto

declare binstrr_loop.simps [simp del]

definition binstrr :: "bool \<Rightarrow> bstr \<Rightarrow> int \<Rightarrow> bstr \<Rightarrow> int option" where
  "binstrr same b1 pos b2 =
     (if no_string b1 \<or> no_string b2 then Some BSTR_ERR
      else if bs_slen b1 = pos \<and> bs_slen b2 = 0 then Some pos
      else if bs_slen b1 < pos \<or> pos < 0 then Some BSTR_ERR
      else if bs_slen b2 = 0 then Some pos
      else if same \<and> pos = 0 \<and> bs_slen b2 \<le> bs_slen b1 then Some 0
      else let l = bs_slen b1 - bs_slen b2 in
      if l < 0 then Some BSTR_ERR
      else case (str_of b1, str_of b2) of
        (Some t, Some p) \<Rightarrow> Some (binstrr_loop p t (nat (if l + 1 \<le> pos then l else pos)) 0)
      | _ \<Rightarrow> None)"

definition last_upto :: "(nat \<Rightarrow> bool) \<Rightarrow> nat \<Rightarrow> int \<Rightarrow> bool" where
  "last_upto P pos r \<longleftrightarrow> (r = BSTR_ERR \<and> (\<forall>m \<le> pos. \<not> P m))
     \<or> (\<exists>m. r = int m \<and> m \<le> pos \<and> P m \<and> (\<forall>k. m < k \<and> k \<le> pos \<longrightarrow> \<not> P k))"

lemma binstrr_loop_last:
  assumes "j < length p" "i + length p \<le> length t" "i \<le> pos" "\<forall>k < j. t ! (i + k) = p ! k"
    and "\<forall>m. i < m \<and> m \<le> pos \<longrightarrow> \<not> occurs p t m"
  shows "last_upto (occurs p t) pos (binstrr_loop p t i j)"
  using assms
proof (induction p t i j rule: binstrr_loop.induct)
  case (1 p t i j)
  consider "p ! j = t ! (i + j)" "length p \<le> j + 1" | "p ! j = t ! (i + j)" "\<not> length p \<le> j + 1"
    | "p ! j \<noteq> t ! (i + j)" by blast
  then show ?case
  proof cases
    case 1
    then have "t ! (i + k) = p ! k" if "k < length p" for k using "1.prems"(1,4) that by (cases "k = j") auto
    then have "occurs p t i" using "1.prems"(2) by (simp add: occurs_def)
    then show ?thesis using 1 "1.prems"(3,5) by (simp add: binstrr_loop.simps [of p t i] last_upto_def)
  next
    case 2
    then have "\<forall>k < j + 1. t ! (i + k) = p ! k" using "1.prems"(4) less_Suc_eq by auto
    then show ?thesis using "1.IH"(1) [OF 2] 2 "1.prems" by (simp add: binstrr_loop.simps [of p t i])
  next
    case 3
    have i: "\<not> occurs p t i" using 3 "1.prems"(1) by (auto simp: occurs_def)
    show ?thesis
    proof (cases "i = 0")
      case True
      have "\<not> occurs p t m" if "m \<le> pos" for m using that i True "1.prems"(5) by (cases "m = 0") auto
      then show ?thesis using 3 True by (simp add: binstrr_loop.simps [of p t 0] last_upto_def)
    next
      case False
      have "\<not> occurs p t m" if "i - 1 < m \<and> m \<le> pos" for m using that i "1.prems"(5) False by (cases "m = i") auto
      moreover have "p \<noteq> []" "i + length p - Suc 0 \<le> length t" "i - Suc 0 \<le> pos" using "1.prems"(1-3) by auto
      ultimately show ?thesis using "1.IH"(2) [OF 3 False] 3 False by (simp add: binstrr_loop.simps [of p t i])
    qed
  qed
qed

text \<open>\<open>binstrr\<close> finds the last occurrence at a position or before it.\<close>

lemma binstrr_last:
  assumes "reads b1 t" "reads b2 p" "p \<noteq> []" "pos \<le> length t" "same \<longrightarrow> take (min (length p) (length t)) p = take (min (length p) (length t)) t"
  shows "\<exists>r. binstrr same b1 (int pos) b2 = Some r \<and> last_upto (occurs p t) pos r"
proof -
  note r = reads_str [OF assms(1)] reads_str [OF assms(2)]
  consider "length t < length p" | "length p \<le> length t" "same \<and> pos = 0" | "length p \<le> length t" "\<not> (same \<and> pos = 0)" by linarith
  then show ?thesis
  proof cases
    case 1
    then have "last_upto (occurs p t) pos BSTR_ERR" by (auto simp: last_upto_def occurs_def)
    then show ?thesis using 1 r assms(3,4) by (auto simp: binstrr_def Let_def)
  next
    case 2
    then have "p = take (length p) t" using assms(5) by (simp add: min_def)
    then have "t ! k = p ! k" if "k < length p" for k using that by (metis nth_take)
    then have "last_upto (occurs p t) pos (int 0)" using 2 by (auto simp: last_upto_def occurs_def)
    then show ?thesis using 2 r assms(3) by (auto simp: binstrr_def)
  next
    case 3
    define i where "i = min pos (length t - length p)"
    have i: "nat (if int (length t) - int (length p) + 1 \<le> int pos then int (length t) - int (length p) else int pos) = i"
      using 3(1) by (auto simp: i_def)
    have "last_upto (occurs p t) pos (binstrr_loop p t i 0)"
      using assms(3) 3(1) by (intro binstrr_loop_last) (auto simp: i_def occurs_def)
    moreover have "binstrr same b1 (int pos) b2 = Some (binstrr_loop p t i 0)"
      unfolding binstrr_def Let_def i [symmetric] using r 3 assms(3,4) by (auto simp: of_nat_diff)
    ultimately show ?thesis by blast
  qed
qed

section \<open>Keys of the default hash map\<close>

text \<open>
  With the default functions of \<open>hashmap.c\<close> equal keys can have different hashes: \<open>bstrcmp\<close> stops at
  a zero and \<open>default_hash\<close> does not.
\<close>

lemma default_keys_clash:
  "cmp_loop [97, 0, 98] [97, 0, 99] = 0 \<and> default_hash [97, 0, 98] \<noteq> default_hash [97, 0, 99]"
  by (simp add: BSTR_OK_def default_hash_def default_hash_step_def)

section \<open>A concrete run\<close>

definition demo_text :: "byte list \<Rightarrow> bstr" where
  "demo_text xs = \<lparr>bs_mlen = - 1, bs_slen = int (length xs), bs_data = Some (map Some xs @ [Some 0])\<rparr>"

lemma reads_demo: "reads (demo_text xs) xs"
  by (simp add: reads_def demo_text_def read_prefix)

text \<open>The pattern is seen with a gap first, and found behind.\<close>

lemma binstr_first_witness:
  "\<exists>r. binstr False (demo_text [97, 120, 97, 98, 99]) 0 (demo_text [97, 98]) = Some r
    \<and> first_from (occurs [97, 98] [97, 120, 97, 98, 99]) 0 r"
  using binstr_first [OF reads_demo reads_demo, of 0 "[97, 120, 97, 98, 99]" False "[97, 98]"] by simp

end
