(* ===== verification/Bstr_Case.thy ===== *)
theory Bstr_Case
  imports Bstr_Search
begin

text \<open>
  Case conversion, caseless comparison and search, trimming, and the comparisons with blocks and C
  strings of \<open>lcthw/bstrlib.c\<close>. The program never sets a locale, so that the character functions of the
  C library are those of ASCII.
\<close>

section \<open>Characters\<close>

definition upcase :: "byte \<Rightarrow> byte" where
  "upcase c = (if 97 \<le> c \<and> c \<le> 122 then c - 32 else c)"

definition downcase :: "byte \<Rightarrow> byte" where
  "downcase c = (if 65 \<le> c \<and> c \<le> 90 then c + 32 else c)"

definition wspace :: "byte \<Rightarrow> bool" where
  "wspace c \<longleftrightarrow> c = 32 \<or> (9 \<le> c \<and> c \<le> 13)"

section \<open>Conversion\<close>

text \<open>\<open>k\<close> bytes from position \<open>i\<close> on are converted in place.\<close>

fun conv_loop :: "(byte \<Rightarrow> byte) \<Rightarrow> nat \<Rightarrow> nat \<Rightarrow> block \<Rightarrow> block option" where
  "conv_loop f 0 i d = Some d"
| "conv_loop f (Suc k) i d =
     (case read_block d i 1 of None \<Rightarrow> None
      | Some xs \<Rightarrow> (case poke d (int i) (f (hd xs)) of None \<Rightarrow> None | Some d' \<Rightarrow> conv_loop f k (Suc i) d'))"

definition bconvert :: "(byte \<Rightarrow> byte) \<Rightarrow> bstr \<Rightarrow> (int \<times> bstr) option" where
  "bconvert f b =
     (if not_writable b then Some (BSTR_ERR, b)
      else map_option (\<lambda>d. (BSTR_OK, b\<lparr>bs_data := Some d\<rparr>)) (conv_loop f (nat (bs_slen b)) 0 (the (bs_data b))))"

definition btoupper :: "bstr \<Rightarrow> (int \<times> bstr) option" where
  "btoupper b = bconvert upcase b"

definition btolower :: "bstr \<Rightarrow> (int \<times> bstr) option" where
  "btolower b = bconvert downcase b"

section \<open>Comparison without case\<close>

text \<open>The loop of \<open>bstricmp\<close>, and what it answers for the first byte that only one string has.\<close>

definition extra :: "byte \<Rightarrow> int" where
  "extra c = (let v = sint (downcase c) in if v \<noteq> 0 then v else 256)"

fun icmp_loop :: "byte list \<Rightarrow> byte list \<Rightarrow> int" where
  "icmp_loop (x # xs) (y # ys) =
     (let v = sint (downcase x) - sint (downcase y) in if v \<noteq> 0 then v else icmp_loop xs ys)"
| "icmp_loop (x # xs) [] = extra x"
| "icmp_loop [] (y # ys) = - extra y"
| "icmp_loop [] [] = BSTR_OK"

definition bstricmp :: "bool \<Rightarrow> bstr \<Rightarrow> bstr \<Rightarrow> int option" where
  "bstricmp same b0 b1 =
     (if no_string b0 \<or> no_string b1 then Some SHRT_MIN
      else if bs_slen b0 = bs_slen b1 \<and> same then Some BSTR_OK
      else case (str_of b0, str_of b1) of (Some x, Some y) \<Rightarrow> Some (icmp_loop x y) | _ \<Rightarrow> None)"

text \<open>\<open>bstrnicmp\<close> answers with the difference of the bytes as they are.\<close>

fun nicmp_loop :: "nat \<Rightarrow> byte list \<Rightarrow> byte list \<Rightarrow> int option" where
  "nicmp_loop (Suc m) (x # xs) (y # ys) =
     (if sint (downcase x) - sint (downcase y) \<noteq> 0 then Some (uint x - uint y) else nicmp_loop m xs ys)"
| "nicmp_loop _ _ _ = None"

definition bstrnicmp :: "bool \<Rightarrow> bstr \<Rightarrow> bstr \<Rightarrow> int \<Rightarrow> int option" where
  "bstrnicmp same b0 b1 n =
     (if no_string b0 \<or> no_string b1 \<or> n < 0 then Some SHRT_MIN
      else let m = n; m = (if m > bs_slen b0 then bs_slen b0 else m); m = (if m > bs_slen b1 then bs_slen b1 else m) in
      case (str_of b0, str_of b1) of
        (Some x, Some y) \<Rightarrow>
          (case (if same then None else nicmp_loop (nat m) x y) of Some v \<Rightarrow> Some v
           | None \<Rightarrow> Some (if n = m \<or> bs_slen b0 = bs_slen b1 then BSTR_OK
                            else if bs_slen b0 > m then extra (x ! nat m) else - extra (y ! nat m)))
      | _ \<Rightarrow> None)"

fun ieq_loop :: "byte list \<Rightarrow> byte list \<Rightarrow> int" where
  "ieq_loop (x # xs) (y # ys) = (if x \<noteq> y \<and> downcase x \<noteq> downcase y then 0 else ieq_loop xs ys)"
| "ieq_loop _ _ = 1"

definition biseqcaseless :: "bool \<Rightarrow> bstr \<Rightarrow> bstr \<Rightarrow> int option" where
  "biseqcaseless same b0 b1 =
     (if no_string b0 \<or> no_string b1 then Some BSTR_ERR
      else if bs_slen b0 \<noteq> bs_slen b1 then Some BSTR_OK
      else if same \<or> bs_slen b0 = 0 then Some 1
      else case (str_of b0, str_of b1) of (Some x, Some y) \<Rightarrow> Some (ieq_loop x y) | _ \<Rightarrow> None)"

text \<open>The beginning of a string and a block.\<close>

definition bisstemeqcaselessblk :: "bool \<Rightarrow> bstr \<Rightarrow> block option \<Rightarrow> int \<Rightarrow> int option" where
  "bisstemeqcaselessblk same b0 blk len =
     (if no_string b0 \<or> blk = None \<or> len < 0 then Some BSTR_ERR
      else if bs_slen b0 < len then Some BSTR_OK
      else if same \<or> len = 0 then Some 1
      else case (str_of b0, read_block (the blk) 0 (nat len)) of (Some x, Some y) \<Rightarrow> Some (ieq_loop x y) | _ \<Rightarrow> None)"

fun stem_loop :: "byte list \<Rightarrow> byte list \<Rightarrow> int" where
  "stem_loop (x # xs) (y # ys) = (if x \<noteq> y then BSTR_OK else stem_loop xs ys)"
| "stem_loop _ _ = 1"

definition bisstemeqblk :: "bool \<Rightarrow> bstr \<Rightarrow> block option \<Rightarrow> int \<Rightarrow> int option" where
  "bisstemeqblk same b0 blk len =
     (if no_string b0 \<or> blk = None \<or> len < 0 then Some BSTR_ERR
      else if bs_slen b0 < len then Some BSTR_OK
      else if same \<or> len = 0 then Some 1
      else case (str_of b0, read_block (the blk) 0 (nat len)) of (Some x, Some y) \<Rightarrow> Some (stem_loop x y) | _ \<Rightarrow> None)"

text \<open>A string and a C string, which is the list of its bytes before the zero.\<close>

fun cstr_loop :: "(byte \<Rightarrow> byte \<Rightarrow> bool) \<Rightarrow> byte list \<Rightarrow> byte list \<Rightarrow> int" where
  "cstr_loop eq (x # xs) [] = BSTR_OK"
| "cstr_loop eq (x # xs) (c # cs) = (if eq x c then cstr_loop eq xs cs else BSTR_OK)"
| "cstr_loop eq [] cs = (if cs = [] then 1 else 0)"

definition biseqcstr :: "bstr \<Rightarrow> byte list option \<Rightarrow> int option" where
  "biseqcstr b s =
     (if no_string b \<or> s = None then Some BSTR_ERR
      else map_option (\<lambda>xs. cstr_loop (=) xs (the s)) (str_of b))"

definition biseqcstrcaseless :: "bstr \<Rightarrow> byte list option \<Rightarrow> int option" where
  "biseqcstrcaseless b s =
     (if no_string b \<or> s = None then Some BSTR_ERR
      else map_option (\<lambda>xs. cstr_loop (\<lambda>x c. x = c \<or> downcase x = downcase c) xs (the s)) (str_of b))"

section \<open>Trimming\<close>

definition bltrimws :: "bstr \<Rightarrow> (int \<times> bstr) option" where
  "bltrimws b =
     (if not_writable b then Some (BSTR_ERR, b)
      else case str_of b of None \<Rightarrow> None
      | Some xs \<Rightarrow>
        let i = length (takeWhile wspace xs) in
        if i < length xs then bdelete b 0 (int i) else store b (bs_data b) 0)"

text \<open>The last byte that is not white space.\<close>

definition last_black :: "byte list \<Rightarrow> int" where
  "last_black xs = (if xs = [] then - 1 else rchr_loop (length xs - 1) xs (\<lambda>c. \<not> wspace c))"

definition cut_right :: "bstr \<Rightarrow> int \<Rightarrow> (int \<times> bstr) option" where
  "cut_right b i = (if bs_mlen b > i then store b (bs_data b) (i + 1) else Some (BSTR_OK, b\<lparr>bs_slen := i + 1\<rparr>))"

definition brtrimws :: "bstr \<Rightarrow> (int \<times> bstr) option" where
  "brtrimws b =
     (if not_writable b then Some (BSTR_ERR, b)
      else case str_of b of None \<Rightarrow> None
      | Some xs \<Rightarrow> if 0 \<le> last_black xs then cut_right b (last_black xs) else store b (bs_data b) 0)"

definition btrimws :: "bstr \<Rightarrow> (int \<times> bstr) option" where
  "btrimws b =
     (if not_writable b then Some (BSTR_ERR, b)
      else case str_of b of None \<Rightarrow> None
      | Some xs \<Rightarrow>
        if 0 \<le> last_black xs then
          (case cut_right b (last_black xs) of None \<Rightarrow> None
           | Some (_, b') \<Rightarrow> bdelete b' 0 (int (length (takeWhile wspace xs))))
        else store b (bs_data b) 0)"

section \<open>Search without case\<close>

text \<open>\<open>l\<close> is the first position where the pattern no longer fits.\<close>

function icase_loop :: "byte list \<Rightarrow> byte list \<Rightarrow> nat \<Rightarrow> nat \<Rightarrow> nat \<Rightarrow> int" where
  "icase_loop p t l i j =
     (if p ! j = t ! (i + j) \<or> downcase (p ! j) = downcase (t ! (i + j))
      then (if length p \<le> j + 1 then int i else icase_loop p t l i (j + 1))
      else if l \<le> i + 1 then BSTR_ERR else icase_loop p t l (i + 1) 0)"
  by pat_completeness auto
termination
  by (relation "measures [\<lambda>(p, t, l, i, j). l - i, \<lambda>(p, t, l, i, j). length p - j]") auto

declare icase_loop.simps [simp del]

definition binstrcaseless :: "bool \<Rightarrow> bstr \<Rightarrow> int \<Rightarrow> bstr \<Rightarrow> int option" where
  "binstrcaseless same b1 pos b2 =
     (if no_string b1 \<or> no_string b2 then Some BSTR_ERR
      else if bs_slen b1 = pos then Some (if bs_slen b2 = 0 then pos else BSTR_ERR)
      else if bs_slen b1 < pos \<or> pos < 0 then Some BSTR_ERR
      else if bs_slen b2 = 0 then Some pos
      else let l = bs_slen b1 - bs_slen b2 + 1 in
      if l \<le> pos then Some BSTR_ERR
      else if same \<and> pos = 0 then Some BSTR_OK
      else case (str_of b1, str_of b2) of
        (Some t, Some p) \<Rightarrow> Some (icase_loop p t (nat l) (nat pos) 0) | _ \<Rightarrow> None)"

function ricase_loop :: "byte list \<Rightarrow> byte list \<Rightarrow> nat \<Rightarrow> nat \<Rightarrow> int" where
  "ricase_loop p t i j =
     (if p ! j = t ! (i + j) \<or> downcase (p ! j) = downcase (t ! (i + j))
      then (if length p \<le> j + 1 then int i else ricase_loop p t i (j + 1))
      else if i = 0 then BSTR_ERR else ricase_loop p t (i - 1) 0)"
  by pat_completeness auto
termination
  by (relation "measures [\<lambda>(p, t, i, j). i, \<lambda>(p, t, i, j). length p - j]") auto

declare ricase_loop.simps [simp del]

definition binstrrcaseless :: "bool \<Rightarrow> bstr \<Rightarrow> int \<Rightarrow> bstr \<Rightarrow> int option" where
  "binstrrcaseless same b1 pos b2 =
     (if no_string b1 \<or> no_string b2 then Some BSTR_ERR
      else if bs_slen b1 = pos \<and> bs_slen b2 = 0 then Some pos
      else if bs_slen b1 < pos \<or> pos < 0 then Some BSTR_ERR
      else if bs_slen b2 = 0 then Some pos
      else if same \<and> pos = 0 \<and> bs_slen b2 \<le> bs_slen b1 then Some BSTR_OK
      else let l = bs_slen b1 - bs_slen b2 in
      if l < 0 then Some BSTR_ERR
      else case (str_of b1, str_of b2) of
        (Some t, Some p) \<Rightarrow> Some (ricase_loop p t (nat (if l + 1 \<le> pos then l else pos)) 0)
      | _ \<Rightarrow> None)"

section \<open>Character sets, backwards\<close>

definition binchrr :: "bstr \<Rightarrow> int \<Rightarrow> bstr \<Rightarrow> int option" where
  "binchrr b0 pos b1 =
     (if pos < 0 \<or> bs_data b0 = None \<or> bs_slen b0 < pos then Some BSTR_ERR
      else let pos = (if pos = bs_slen b0 then pos - 1 else pos) in
      if bs_slen b1 = 1 then (case str_of b1 of None \<Rightarrow> None | Some ys \<Rightarrow> bstrrchrp b0 (hd ys) pos)
      else if no_string b1 \<or> bs_slen b1 = 0 then Some BSTR_ERR
      else case (str_of b0, str_of b1) of
        (Some xs, Some ys) \<Rightarrow> (case buildCharField ys of None \<Rightarrow> Some BSTR_ERR
          | Some cf \<Rightarrow> Some (if pos < 0 then BSTR_ERR else rchr_loop (nat pos) xs (testInCharField cf))) | _ \<Rightarrow> None)"

definition bninchrr :: "bstr \<Rightarrow> int \<Rightarrow> bstr \<Rightarrow> int option" where
  "bninchrr b0 pos b1 =
     (if pos < 0 \<or> bs_data b0 = None \<or> bs_slen b0 < pos then Some BSTR_ERR
      else let pos = (if pos = bs_slen b0 then pos - 1 else pos) in
      if no_string b1 \<or> bs_slen b1 = 0 then Some BSTR_ERR
      else case (str_of b0, str_of b1) of
        (Some xs, Some ys) \<Rightarrow> (case buildCharField ys of None \<Rightarrow> Some BSTR_ERR
          | Some cf \<Rightarrow> Some (if pos < 0 then BSTR_ERR else rchr_loop (nat pos) xs (testInCharField (invertCharField cf)))) | _ \<Rightarrow> None)"

section \<open>Conversion is a map\<close>

lemma conv_loop_map:
  "conv_loop f (length ys) (length zs) (map Some (zs @ ys) @ r) = Some (map Some (zs @ map f ys) @ r)"
proof (induction ys arbitrary: zs)
  case (Cons y ys)
  have "read_block (map Some (zs @ y # ys) @ r) (length zs) 1 = Some [y]"
    using read_part [of "length zs" 1 "zs @ y # ys" r] by simp
  moreover have "poke (map Some (zs @ y # ys) @ r) (int (length zs)) (f y) = Some (map Some ((zs @ [f y]) @ ys) @ r)"
    using list_update_length [of "map Some zs" "Some y" "map Some ys @ r" "Some (f y)"] by (simp add: poke_def)
  ultimately show ?case using Cons [of "zs @ [f y]"] by simp
qed simp

lemma bconvert_finished:
  assumes "holds b xs"
  shows "finished (map f xs) (bconvert f b)"
proof -
  obtain rest where b: "b = \<lparr>bs_mlen = int (length xs + 1 + length rest), bs_slen = int (length xs),
      bs_data = Some (map Some xs @ Some 0 # rest)\<rparr>" "length xs + 1 + length rest < 2 ^ 31"
    using assms by (auto simp: holds_iff)
  have "conv_loop f (length xs) 0 (map Some xs @ Some 0 # rest) = Some (map Some (map f xs) @ Some 0 # rest)"
    using conv_loop_map [of f xs "[]"] by simp
  then show ?thesis using b by (simp add: bconvert_def not_writable_def finished_def holds_iff)
qed

lemma downcase_idem [simp]: "downcase (downcase c) = downcase c"
  by (auto simp: downcase_def word_le_nat_alt unat_word_ariths)

lemma downcase_upcase: "downcase (upcase c) = downcase c"
  by (auto simp: downcase_def upcase_def word_le_nat_alt unat_word_ariths unat_sub)

text \<open>Conversion to either case changes nothing that a caseless comparison sees.\<close>

lemma bconvert_case:
  assumes "holds b xs"
  shows "finished (map upcase xs) (btoupper b)" "finished (map downcase xs) (btolower b)"
    "map downcase (map upcase xs) = map downcase xs" "map downcase (map downcase xs) = map downcase xs"
  using bconvert_finished [OF assms] by (simp_all add: btoupper_def btolower_def downcase_upcase)

section \<open>Comparison without case is comparison of the converted strings\<close>

lemma sint_eq_iff: "sint x = sint y \<longleftrightarrow> x = y"
  by (auto simp: signed_word_eqI)

lemma extra_nonzero [simp]: "extra c \<noteq> 0"
  by (simp add: extra_def Let_def)

lemma icmp_loop_zero: "icmp_loop xs ys = 0 \<longleftrightarrow> map downcase xs = map downcase ys"
  by (induction xs ys rule: icmp_loop.induct) (auto simp: sint_eq_iff BSTR_OK_def Let_def)

lemma icmp_loop_flip: "icmp_loop ys xs = - icmp_loop xs ys"
  by (induction xs ys rule: icmp_loop.induct) (auto simp: BSTR_OK_def Let_def)

lemma bstricmp_zero:
  assumes "reads b0 xs" "reads b1 ys" "same \<Longrightarrow> length xs = length ys \<Longrightarrow> xs = ys"
  shows "\<exists>v. bstricmp same b0 b1 = Some v \<and> (v = 0 \<longleftrightarrow> map downcase xs = map downcase ys)
    \<and> bstricmp same b1 b0 = Some (- v)"
proof (cases "length xs = length ys \<and> same")
  case True
  then show ?thesis using reads_str [OF assms(1)] reads_str [OF assms(2)] assms(3) by (simp add: bstricmp_def BSTR_OK_def)
next
  case False
  then have "bstricmp same b0 b1 = Some (icmp_loop xs ys)" "bstricmp same b1 b0 = Some (icmp_loop ys xs)"
    using reads_str [OF assms(1)] reads_str [OF assms(2)] by (auto simp: bstricmp_def)
  then show ?thesis using icmp_loop_zero [of xs ys] icmp_loop_flip [of xs ys] by simp
qed

text \<open>\<open>bstricmp\<close> orders by the converted characters, \<open>bstrnicmp\<close> by the characters themselves: for \<open>a\<close> and \<open>B\<close>
  they disagree.\<close>

lemma caseless_orders_differ:
  "icmp_loop [97] [66] = - 1" "nicmp_loop 1 [97] [66] = Some 31"
  by (simp_all add: downcase_def Let_def numeral_eq_Suc [of "num.One"])

lemma ieq_loop_map: "length xs = length ys \<Longrightarrow> ieq_loop xs ys = (if map downcase xs = map downcase ys then 1 else 0)"
  by (induction xs ys rule: list_induct2) auto

lemma ieq_loop_take: "length ys \<le> length xs \<Longrightarrow> ieq_loop xs ys = ieq_loop (take (length ys) xs) ys"
  by (induction xs ys rule: ieq_loop.induct) auto

lemma biseqcaseless_iff:
  assumes "reads b0 xs" "reads b1 ys" "same \<Longrightarrow> length xs = length ys \<Longrightarrow> xs = ys"
  shows "biseqcaseless same b0 b1 = Some (if map downcase xs = map downcase ys then 1 else 0)"
proof (cases "length xs = length ys")
  case True
  then show ?thesis using reads_str [OF assms(1)] reads_str [OF assms(2)] assms(3) ieq_loop_map [OF True]
    by (auto simp: biseqcaseless_def)
next
  case False
  then have "map downcase xs \<noteq> map downcase ys" using map_eq_imp_length_eq by blast
  then show ?thesis using False reads_str [OF assms(1)] reads_str [OF assms(2)] by (simp add: biseqcaseless_def BSTR_OK_def)
qed

lemma stem_loop_take: "length ys \<le> length xs \<Longrightarrow> stem_loop xs ys = (if take (length ys) xs = ys then 1 else 0)"
  by (induction xs ys rule: stem_loop.induct) (auto simp: BSTR_OK_def)

lemma bisstemeqblk_iff:
  assumes "reads b0 xs" "read_block blk 0 (length ys) = Some ys"
  shows "bisstemeqblk False b0 (Some blk) (int (length ys)) = Some (if take (length ys) xs = ys then 1 else 0)"
    and "bisstemeqcaselessblk False b0 (Some blk) (int (length ys)) =
      Some (if map downcase (take (length ys) xs) = map downcase ys then 1 else 0)"
proof -
  note r = reads_str [OF assms(1)] assms(2)
  have short: "take (length ys) xs \<noteq> ys" "map downcase (take (length ys) xs) \<noteq> map downcase ys" if "length xs < length ys"
    using that by (auto dest: arg_cong [where f = length])
  show "bisstemeqblk False b0 (Some blk) (int (length ys)) = Some (if take (length ys) xs = ys then 1 else 0)"
    using r short stem_loop_take [of ys xs] by (auto simp: bisstemeqblk_def BSTR_OK_def)
  show "bisstemeqcaselessblk False b0 (Some blk) (int (length ys)) =
      Some (if map downcase (take (length ys) xs) = map downcase ys then 1 else 0)"
    using r short ieq_loop_take [of ys xs] ieq_loop_map [of "take (length ys) xs" ys]
    by (auto simp: bisstemeqcaselessblk_def BSTR_OK_def)
qed

lemma cstr_loop_all: "cstr_loop eq xs cs = (if list_all2 eq xs cs then 1 else 0)"
  by (induction eq xs cs rule: cstr_loop.induct) (auto simp: BSTR_OK_def)

lemma biseqcstr_iff:
  assumes "reads b xs"
  shows "biseqcstr b (Some s) = Some (if xs = s then 1 else 0)"
    and "biseqcstrcaseless b (Some s) = Some (if map downcase xs = map downcase s then 1 else 0)"
proof -
  have "list_all2 (\<lambda>x c. x = c \<or> downcase x = downcase c) xs s \<longleftrightarrow> list_all2 (\<lambda>x c. downcase x = downcase c) xs s"
    by (rule list.rel_cong) auto
  then have e: "list_all2 (\<lambda>x c. x = c \<or> downcase x = downcase c) xs s \<longleftrightarrow> map downcase xs = map downcase s"
    by (simp add: list.rel_eq [symmetric] list_all2_map1 list_all2_map2)
  show "biseqcstr b (Some s) = Some (if xs = s then 1 else 0)"
    "biseqcstrcaseless b (Some s) = Some (if map downcase xs = map downcase s then 1 else 0)"
    using reads_str [OF assms] e by (simp_all add: biseqcstr_def biseqcstrcaseless_def cstr_loop_all list.rel_eq)
qed

end
