(* ===== verification/Bstr_Case_Search.thy ===== *)
theory Bstr_Case_Search
  imports Bstr_Case
begin

text \<open>
  Trimming removes exactly the white space at the ends; a search without case is a search in the
  converted string; the backward search in a character set finds the last member.
\<close>

section \<open>Trimming removes the white space at the ends\<close>

definition rtrim :: "byte list \<Rightarrow> byte list" where
  "rtrim xs = rev (dropWhile wspace (rev xs))"

lemma rtrim_snoc [simp]: "rtrim [] = []" "rtrim (xs @ [x]) = (if wspace x then rtrim xs else xs @ [x])"
  by (simp_all add: rtrim_def)

lemma rtrim_take: "rtrim xs = take (length (rtrim xs)) xs" "length (rtrim xs) \<le> length xs"
  by (induction xs rule: rev_induct) auto

lemma rchr_loop_append: "i < length xs \<Longrightarrow> rchr_loop i (xs @ ys) P = rchr_loop i xs P"
  by (induction i) (simp_all add: nth_append)

lemma last_black_rtrim: "last_black xs = int (length (rtrim xs)) - 1"
proof (induction xs rule: rev_induct)
  case (snoc x xs)
  show ?case
  proof (cases xs rule: rev_cases)
    case (snoc ys y)
    have "last_black (xs @ [x]) = (if wspace x then last_black xs else int (length xs))"
      using rchr_loop_append [of "length xs - 1" xs "[x]"] by (simp add: last_black_def snoc nth_append)
    then show ?thesis using \<open>last_black xs = _\<close> by simp
  qed (simp add: last_black_def BSTR_ERR_def rtrim_def)
qed (simp add: last_black_def)

lemma rtrim_empty: "rtrim xs = [] \<longleftrightarrow> list_all wspace xs"
  by (induction xs rule: rev_induct) auto

lemma takeWhile_short: "length (takeWhile P xs) < length xs \<longleftrightarrow> \<not> list_all P xs"
  by (induction xs) auto

lemma dropWhile_empty: "list_all P xs \<Longrightarrow> dropWhile P xs = []"
  by (auto simp: list_all_iff)

lemma store_take:
  assumes "holds b xs" "n \<le> length xs"
  shows "finished (take n xs) (store b (bs_data b) (int n))"
proof -
  obtain d where d: "bs_data b = Some d" "starts d xs" "length d < 2 ^ 31" "length xs < length d" "bs_mlen b = int (length d)"
    using holds_starts [OF assms(1)] by metis
  have "length (take n xs) = n" using assms(2) by simp
  then show ?thesis using store_starts [OF starts_take [OF d(2), of n], of b] d assms(2) by simp
qed

lemma holds_length: "holds b xs \<Longrightarrow> length xs < 2 ^ 31"
  by (auto simp: holds_iff)

lemma holds_str: "holds b xs \<Longrightarrow> str_of b = Some xs \<and> \<not> not_writable b"
  using reads_str [OF holds_reads] holds_fields(2) by blast

lemma bltrimws_finished:
  assumes "holds b xs"
  shows "finished (dropWhile wspace xs) (bltrimws b)"
proof (cases "list_all wspace xs")
  case True
  then have "\<not> length (takeWhile wspace xs) < length xs" by (simp add: takeWhile_short)
  then show ?thesis using store_take [OF assms, of 0] holds_str [OF assms] True by (simp add: bltrimws_def Let_def dropWhile_empty)
next
  case False
  then have "length (takeWhile wspace xs) < length xs" by (simp add: takeWhile_short)
  moreover from this have "length (takeWhile wspace xs) < 2 ^ 31" using holds_length [OF assms] by linarith
  ultimately show ?thesis using bdelete_finished [OF assms, of 0 "length (takeWhile wspace xs)"] holds_str [OF assms]
    by (simp add: bltrimws_def Let_def dropWhile_eq_drop)
qed

lemma cut_right_finished:
  assumes "holds b xs" "0 \<le> last_black xs"
  shows "finished (rtrim xs) (cut_right b (last_black xs))"
proof -
  have "last_black xs < bs_mlen b" using holds_fields(3) [OF assms(1)] rtrim_take(2) [of xs] by (simp add: last_black_rtrim)
  then show ?thesis using store_take [OF assms(1) rtrim_take(2)] rtrim_take(1) [of xs] by (simp add: cut_right_def last_black_rtrim)
qed

lemma brtrimws_finished:
  assumes "holds b xs"
  shows "finished (rtrim xs) (brtrimws b)"
  using cut_right_finished [OF assms] store_take [OF assms, of 0] holds_str [OF assms]
  by (auto simp: brtrimws_def last_black_rtrim)

lemma takeWhile_rtrim: "rtrim xs \<noteq> [] \<Longrightarrow> takeWhile wspace (rtrim xs) = takeWhile wspace xs"
  by (induction xs rule: rev_induct) (auto simp: takeWhile_append rtrim_empty list_all_iff)

lemma btrimws_finished:
  assumes "holds b xs"
  shows "finished (dropWhile wspace (rtrim xs)) (btrimws b)"
proof (cases "rtrim xs = []")
  case True
  then show ?thesis using store_take [OF assms, of 0] holds_str [OF assms] by (simp add: btrimws_def last_black_rtrim)
next
  case False
  then have l: "0 \<le> last_black xs" by (simp add: last_black_rtrim Suc_le_eq)
  obtain b' where b': "cut_right b (last_black xs) = Some (BSTR_OK, b')" "holds b' (rtrim xs)"
    using cut_right_finished [OF assms l] by (auto simp: finished_def)
  let ?n = "length (takeWhile wspace (rtrim xs))"
  have "?n < 2 ^ 31" using holds_length [OF b'(2)] length_takeWhile_le [of wspace "rtrim xs"] by linarith
  then have "finished (dropWhile wspace (rtrim xs)) (bdelete b' 0 (int ?n))"
    using bdelete_finished [OF b'(2), of 0 ?n] by (simp add: dropWhile_eq_drop)
  then show ?thesis using b'(1) l holds_str [OF assms] by (simp add: btrimws_def takeWhile_rtrim [OF False])
qed

text \<open>
  \<open>brtrimws\<close> tests \<open>mlen > i\<close> before it writes at \<open>i + 1\<close>. The test is always true, and for a string that fills
  its memory and has no white space at its end the write is outside.
\<close>

lemma brtrimws_full_faults:
  assumes "full b xs" "bs_mlen b = int (length xs)" "rtrim xs = xs" "xs \<noteq> []"
  shows "brtrimws b = None \<and> btrimws b = None"
proof -
  obtain d where d: "bs_data b = Some d" "bs_slen b = int (length xs)" "bs_mlen b = int (length d)" "take (length xs) d = map Some xs"
    using assms(1) unfolding full_def by blast
  have n: "length d = length xs" using d(3) assms(2) by simp
  have "d = map Some xs" using d(4) n by simp
  then have "reads b xs" using d(1,2) read_prefix [of "length xs" xs "[]"] by (simp add: reads_def)
  then have s: "str_of b = Some xs" using reads_str by blast
  have "\<not> not_writable b" using d(1,2) assms(2,4) by (simp add: not_writable_def)
  moreover have "cut_right b (last_black xs) = None"
    using d(1,2) n assms(2-4) by (simp add: cut_right_def last_black_rtrim store_def poke_def)
  moreover have "0 \<le> last_black xs" using assms(3,4) by (simp add: last_black_rtrim Suc_le_eq)
  ultimately show ?thesis using s by (simp add: brtrimws_def btrimws_def)
qed

section \<open>Search without case is search in the converted string\<close>

definition ioccurs :: "byte list \<Rightarrow> byte list \<Rightarrow> nat \<Rightarrow> bool" where
  "ioccurs p t m \<longleftrightarrow> occurs (map downcase p) (map downcase t) m"

lemma ioccurs_iff: "ioccurs p t m \<longleftrightarrow> m + length p \<le> length t \<and> (\<forall>k < length p. downcase (t ! (m + k)) = downcase (p ! k))"
  by (auto simp: ioccurs_def occurs_def)

lemma icase_loop_first:
  assumes "j < length p" "l = Suc (length t) - length p" "length p \<le> length t" "i < l" "pos \<le> i"
    and "\<forall>k < j. downcase (t ! (i + k)) = downcase (p ! k)" "\<forall>m. pos \<le> m \<and> m < i \<longrightarrow> \<not> ioccurs p t m"
  shows "first_from (ioccurs p t) pos (icase_loop p t l i j)"
  using assms
proof (induction p t l i j rule: icase_loop.induct)
  case (1 p t l i j)
  let ?eq = "p ! j = t ! (i + j) \<or> downcase (p ! j) = downcase (t ! (i + j))"
  have fits: "i + length p \<le> length t" using "1.prems"(2-4) by linarith
  consider (found) ?eq "length p \<le> j + 1" | (more) ?eq "\<not> length p \<le> j + 1" | (fail) "\<not> ?eq" by blast
  then show ?case
  proof cases
    case found
    have "downcase (t ! (i + k)) = downcase (p ! k)" if "k < length p" for k
      using that found "1.prems"(1,6) by (cases "k = j") auto
    then have "ioccurs p t i" using fits by (simp add: ioccurs_iff)
    then show ?thesis using found "1.prems"(5,7) by (auto simp: icase_loop.simps [of p t l i] first_from_def)
  next
    case more
    have "\<forall>k < j + 1. downcase (t ! (i + k)) = downcase (p ! k)" using more(1) "1.prems"(6) less_Suc_eq by auto
    then show ?thesis using "1.IH"(1) [OF more] more "1.prems"(2-5,7) by (simp add: icase_loop.simps [of p t _ i j])
  next
    case fail
    then have "\<not> ioccurs p t i" using "1.prems"(1) by (auto simp: ioccurs_iff)
    then have none: "\<forall>m. pos \<le> m \<and> m < i + 1 \<longrightarrow> \<not> ioccurs p t m" using "1.prems"(7) less_Suc_eq by auto
    show ?thesis
    proof (cases "l \<le> i + 1")
      case True
      have "\<not> ioccurs p t m" if "pos \<le> m" for m
        using that none True "1.prems"(2,3) by (cases "m < i + 1") (auto simp: ioccurs_iff)
      then show ?thesis using fail True by (simp add: icase_loop.simps [of p t l i] first_from_def)
    next
      case False
      have "p \<noteq> []" using "1.prems"(1) by auto
      then show ?thesis using "1.IH"(2) [OF fail False] fail False "1.prems"(2,3,5) none by (simp add: icase_loop.simps [of p t _ i j])
    qed
  qed
qed

lemma same_occurs:
  assumes "take (min (length p) (length t)) p = take (min (length p) (length t)) t" "length p \<le> length t"
  shows "occurs p t 0" "ioccurs p t 0"
proof -
  have "p = take (length p) t" using assms by (simp add: min_def)
  then have "t ! k = p ! k" if "k < length p" for k using that by (metis nth_take)
  then show "occurs p t 0" "ioccurs p t 0" using assms(2) by (auto simp: occurs_def ioccurs_iff)
qed

lemma first_from_here: "P pos \<Longrightarrow> first_from P pos (int pos)"
  by (auto simp: first_from_def)

lemma binstrcaseless_first:
  assumes "reads b1 t" "reads b2 p" "pos \<le> length t" "same \<longrightarrow> take (min (length p) (length t)) p = take (min (length p) (length t)) t"
  shows "\<exists>r. binstrcaseless same b1 (int pos) b2 = Some r \<and> first_from (ioccurs p t) pos r"
proof -
  note r = reads_str [OF assms(1)] reads_str [OF assms(2)]
  consider "p = []" | "p \<noteq> []" "length t < pos + length p" | "p \<noteq> []" "pos + length p \<le> length t" by linarith
  then show ?thesis
  proof cases
    case 1
    then have "first_from (ioccurs p t) pos (int pos)" using assms(3) by (intro first_from_here) (simp add: ioccurs_iff)
    then show ?thesis using 1 r assms(3) by (auto simp: binstrcaseless_def)
  next
    case 2
    then have "first_from (ioccurs p t) pos BSTR_ERR" by (auto simp: first_from_def ioccurs_iff)
    then show ?thesis using 2 r assms(3) by (auto simp: binstrcaseless_def Let_def)
  next
    case 3
    let ?l = "Suc (length t) - length p"
    have l: "nat (int (length t) - int (length p) + 1) = ?l" "pos < length t" using 3 by (auto simp: neq_Nil_conv)
    have "first_from (ioccurs p t) pos (icase_loop p t ?l pos 0)" using 3 by (intro icase_loop_first) auto
    moreover have "first_from (ioccurs p t) 0 0" if same
      using first_from_here [of "ioccurs p t" 0] same_occurs(2) [of p t] that assms(4) 3(2) by simp
    ultimately show ?thesis using r 3 l by (auto simp: binstrcaseless_def Let_def BSTR_OK_def)
  qed
qed

lemma ricase_loop_map:
  "j < length p \<Longrightarrow> i + length p \<le> length t \<Longrightarrow>
   ricase_loop p t i j = binstrr_loop (map downcase p) (map downcase t) i j"
proof (induction p t i j rule: ricase_loop.induct)
  case (1 p t i j)
  have eq: "p ! j = t ! (i + j) \<or> downcase (p ! j) = downcase (t ! (i + j)) \<longleftrightarrow> map downcase p ! j = map downcase t ! (i + j)"
    using "1.prems" by auto
  have "p \<noteq> []" "i - 1 + length p \<le> length t" using "1.prems" by auto
  then show ?case
    using "1.IH" "1.prems" unfolding ricase_loop.simps [of p t i j] binstrr_loop.simps [of "map downcase p" _ i j] eq
    by (cases "i = 0") simp_all
qed

lemma binstrrcaseless_last:
  assumes "reads b1 t" "reads b2 p" "p \<noteq> []" "pos \<le> length t" "same \<longrightarrow> take (min (length p) (length t)) p = take (min (length p) (length t)) t"
  shows "\<exists>r. binstrrcaseless same b1 (int pos) b2 = Some r \<and> last_upto (ioccurs p t) pos r"
proof -
  note r = reads_str [OF assms(1)] reads_str [OF assms(2)]
  consider "length t < length p" | "length p \<le> length t" "same \<and> pos = 0" | "length p \<le> length t" "\<not> (same \<and> pos = 0)" by linarith
  then show ?thesis
  proof cases
    case 1
    then have "last_upto (ioccurs p t) pos BSTR_ERR" by (auto simp: last_upto_def ioccurs_iff)
    then show ?thesis using 1 r assms(3,4) by (auto simp: binstrrcaseless_def Let_def)
  next
    case 2
    then have "last_upto (ioccurs p t) pos (int 0)" using same_occurs(2) assms(5) by (auto simp: last_upto_def)
    then show ?thesis using 2 r assms(3) by (auto simp: binstrrcaseless_def BSTR_OK_def)
  next
    case 3
    define i where "i = min pos (length t - length p)"
    have i: "nat (if int (length t) - int (length p) + 1 \<le> int pos then int (length t) - int (length p) else int pos) = i"
      using 3(1) by (auto simp: i_def)
    have "last_upto (occurs (map downcase p) (map downcase t)) pos (ricase_loop p t i 0)"
      using assms(3) 3(1) by (subst ricase_loop_map) (auto simp: i_def occurs_def intro!: binstrr_loop_last)
    then have "last_upto (ioccurs p t) pos (ricase_loop p t i 0)" by (simp add: ioccurs_def [abs_def])
    moreover have "binstrrcaseless same b1 (int pos) b2 = Some (ricase_loop p t i 0)"
      unfolding binstrrcaseless_def Let_def i [symmetric] using r 3 assms(3,4) by (auto simp: of_nat_diff)
    ultimately show ?thesis by blast
  qed
qed

section \<open>Character sets, backwards\<close>

lemma rchr_loop_last: "pos < length xs \<Longrightarrow> last_upto (\<lambda>m. m < length xs \<and> P (xs ! m)) pos (rchr_loop pos xs P)"
proof (induction pos)
  case (Suc i)
  show ?case
  proof (cases "P (xs ! Suc i)")
    case False
    have "(m \<le> Suc i \<longrightarrow> \<not> (m < length xs \<and> P (xs ! m))) \<longleftrightarrow> (m \<le> i \<longrightarrow> \<not> (m < length xs \<and> P (xs ! m)))" for m
      using False by (auto simp: le_Suc_eq)
    then show ?thesis using Suc False by (auto simp: last_upto_def le_Suc_eq)
  qed (use Suc in \<open>auto simp: last_upto_def intro!: exI [of _ "Suc i"]\<close>)
qed (auto simp: last_upto_def)

lemma binchrr_last:
  assumes "reads b0 xs" "reads b1 ys" "2 \<le> length ys" "pos < length xs"
  shows "\<exists>r. binchrr b0 (int pos) b1 = Some r \<and> last_upto (\<lambda>m. m < length xs \<and> xs ! m \<in> set ys) pos r"
    and "\<exists>r. bninchrr b0 (int pos) b1 = Some r \<and> last_upto (\<lambda>m. m < length xs \<and> xs ! m \<notin> set ys) pos r"
proof -
  obtain cf where cf: "buildCharField ys = Some cf" using assms(3) by (cases ys) (auto simp: buildCharField_def)
  have l: "last_upto (\<lambda>m. m < length xs \<and> xs ! m \<in> set ys) pos (rchr_loop pos xs (testInCharField cf))"
    "last_upto (\<lambda>m. m < length xs \<and> xs ! m \<notin> set ys) pos (rchr_loop pos xs (testInCharField (invertCharField cf)))"
    using rchr_loop_last [OF assms(4), of "testInCharField cf"] rchr_loop_last [OF assms(4), of "testInCharField (invertCharField cf)"]
    by (simp_all add: charField_exact [OF cf])
  note r = reads_str [OF assms(1)] reads_str [OF assms(2)]
  have "bs_data b0 \<noteq> None" using assms(1) by (auto simp: reads_def)
  then show "\<exists>r. binchrr b0 (int pos) b1 = Some r \<and> last_upto (\<lambda>m. m < length xs \<and> xs ! m \<in> set ys) pos r"
    and "\<exists>r. bninchrr b0 (int pos) b1 = Some r \<and> last_upto (\<lambda>m. m < length xs \<and> xs ! m \<notin> set ys) pos r"
    using l r assms(3,4) cf by (auto simp: binchrr_def bninchrr_def Let_def)
qed

end
