(* ===== verification/Bstr_Replace.thy ===== *)
theory Bstr_Replace
  imports Bstr_Case_Search "HOL-Library.Monad_Syntax"
begin

text \<open>
  Replacement in \<open>lcthw/bstrlib.c\<close>: of a section of a string (\<open>breplace\<close>) and of all occurrences of a
  pattern (\<open>findreplaceengine\<close>), which works in place where the string does not grow and in two passes
  where it does. The searches are arguments of the engine.
\<close>

section \<open>A section\<close>

text \<open>An operand that begins in a range of the string is copied; any other one keeps its pointer.\<close>

definition copied :: "bmem \<Rightarrow> bstr \<Rightarrow> bool \<Rightarrow> operand \<Rightarrow> operand option option" where
  "copied mc b alias op =
     (if alias then map_option (map_option Sep) (bstrcpy mc (op_view b op)) else Some (Some op))"

definition begins_in :: "operand \<Rightarrow> int \<Rightarrow> int \<Rightarrow> bool" where
  "begins_in op lo hi = (case op of Sep v \<Rightarrow> False | Alias off len \<Rightarrow> lo < int off \<and> int off < hi)"

definition memmove_in :: "block \<Rightarrow> int \<Rightarrow> block \<Rightarrow> int \<Rightarrow> int \<Rightarrow> block option" where
  "memmove_in d off src pos len = (if len < 0 then None else copy_from d off src pos len)"

text \<open>The middle case of \<open>breplace\<close>, with the operand that may have been copied.\<close>

definition replace_mid :: "bmem \<Rightarrow> bstr \<Rightarrow> int \<Rightarrow> int \<Rightarrow> operand \<Rightarrow> (int \<times> bstr) option" where
  "replace_mid m b1 pos len aux =
     (let n = bs_slen (op_view b1 aux) in
      after_alloc (if n > len then balloc m b1 (c_int (bs_slen b1 + n - len)) else Some (BSTR_OK, b1)) (\<lambda>b. do {
        d1 \<leftarrow> (if n \<noteq> len then memmove_in (the (bs_data b)) (pos + n) (the (bs_data b)) (pos + len) (bs_slen b - (pos + len))
               else bs_data b);
        src \<leftarrow> op_data_after b1 (b\<lparr>bs_data := Some d1\<rparr>) aux;
        store b (memmove_in d1 pos src 0 n) (bs_slen b + (n - len)) }))"

definition breplace :: "bmem \<Rightarrow> bmem \<Rightarrow> bstr \<Rightarrow> int \<Rightarrow> int \<Rightarrow> operand \<Rightarrow> byte \<Rightarrow> (int \<times> bstr) option" where
  "breplace mc m b1 pos len op fill =
     (let b2 = op_view b1 op; pl = c_int (pos + len) in
      if pos < 0 \<or> len < 0 \<or> pl < 0 \<or> no_string b2 \<or> not_writable b1 then Some (BSTR_ERR, b1)
      else if pl \<ge> bs_slen b1 then do {
        (ret, b) \<leftarrow> bsetstr mc m b1 pos (Some op) fill;
        if ret < 0 then Some (ret, b)
        else if c_int (pos + bs_slen b2) < bs_slen b then store b (bs_data b) (c_int (pos + bs_slen b2))
        else Some (ret, b) }
      else do {
        aux \<leftarrow> copied mc b1 (begins_in op (- 1) (bs_slen b1)) op;
        case aux of None \<Rightarrow> Some (BSTR_ERR, b1) | Some aux \<Rightarrow> replace_mid m b1 pos len aux })"

section \<open>All occurrences\<close>

text \<open>A search takes whether the two strings have the same data pointer, the string, the position and the pattern.\<close>

type_synonym instr_fnptr = "bool \<Rightarrow> bstr \<Rightarrow> int \<Rightarrow> bstr \<Rightarrow> int option"

definition find_next :: "instr_fnptr \<Rightarrow> bstr \<Rightarrow> int \<Rightarrow> operand \<Rightarrow> int option" where
  "find_next instr b pos f = instr (case f of Sep v \<Rightarrow> False | Alias off len \<Rightarrow> off = 0) b pos (op_view b f)"

text \<open>Pattern and replacement of the same length.\<close>

partial_function (option) replace_equal :: "instr_fnptr \<Rightarrow> operand \<Rightarrow> operand \<Rightarrow> bstr \<Rightarrow> int \<Rightarrow> bstr option" where
  "replace_equal instr f r b pos = do {
     i \<leftarrow> find_next instr b pos f;
     if i < 0 then Some b else do {
       d \<leftarrow> memmove_in (the (bs_data b)) i (the (bs_data (op_view b r))) 0 (bs_slen (op_view b r));
       replace_equal instr f r (b\<lparr>bs_data := Some d\<rparr>) (c_int (i + bs_slen (op_view b f))) } }"

text \<open>A shorter replacement: what follows moves down by \<open>acc\<close>.\<close>

definition move_down :: "bstr \<Rightarrow> int \<Rightarrow> int \<Rightarrow> int \<Rightarrow> block option" where
  "move_down b i pos acc =
     (if acc \<noteq> 0 \<and> i > pos then memmove_in (the (bs_data b)) (pos - acc) (the (bs_data b)) pos (i - pos) else bs_data b)"

partial_function (option) replace_shrink ::
  "instr_fnptr \<Rightarrow> operand \<Rightarrow> operand \<Rightarrow> int \<Rightarrow> bstr \<Rightarrow> int \<Rightarrow> int \<Rightarrow> (bstr \<times> int \<times> int) option" where
  "replace_shrink instr f r delta b pos acc = do {
     i \<leftarrow> find_next instr b pos f;
     if i < 0 then Some (b, pos, acc) else do {
       d1 \<leftarrow> move_down b i pos acc;
       let n = bs_slen (op_view b r);
       d2 \<leftarrow> (if n \<noteq> 0 then memmove_in d1 (i - acc) (the (bs_data (op_view (b\<lparr>bs_data := Some d1\<rparr>) r))) 0 n else Some d1);
       replace_shrink instr f r delta (b\<lparr>bs_data := Some d2\<rparr>) (c_int (i + bs_slen (op_view b f))) (c_int (acc + delta)) } }"

definition shrink_rest :: "bstr \<times> int \<times> int \<Rightarrow> (int \<times> bstr) option" where
  "shrink_rest = (\<lambda>(b, pos, acc).
     if acc \<noteq> 0 then store b (move_down b (bs_slen b) pos acc) (bs_slen b - acc) else Some (BSTR_OK, b))"

text \<open>
  A longer replacement. The first pass collects the positions in an array that has room for \<open>mlen\<close> of
  them (the initial one on the stack and the later ones from \<open>realloc\<close> have at least that) and that
  doubles; \<open>grow\<close> is the answer of \<open>realloc\<close> for the new size. The result is the list of positions and
  the number of bytes that the string grows by, or nothing if the code gives up.
\<close>

definition INITIAL_STATIC_FIND_INDEX_COUNT :: int where "INITIAL_STATIC_FIND_INDEX_COUNT = 32"

definition index_room :: "(int \<Rightarrow> bool) \<Rightarrow> int list \<Rightarrow> int \<Rightarrow> int option" where
  "index_room grow ds mlen =
     (if int (length ds) \<ge> mlen - 1 then
        (let mlen' = c_int (mlen + mlen); sl = c_int (8 * mlen') in
         if mlen' \<le> 0 \<or> sl < mlen' \<or> \<not> grow sl then None else Some mlen')
      else Some mlen)"

partial_function (option) find_matches ::
  "instr_fnptr \<Rightarrow> (int \<Rightarrow> bool) \<Rightarrow> operand \<Rightarrow> int \<Rightarrow> bstr \<Rightarrow> int \<Rightarrow> int \<Rightarrow> int list \<Rightarrow> int \<Rightarrow> (int list \<times> int) option option" where
  "find_matches instr grow f delta b pos acc ds mlen = do {
     i \<leftarrow> find_next instr b pos f;
     if i < 0 then (if int (length ds) < mlen then Some (Some (ds @ [bs_slen b], acc)) else None)
     else case index_room grow ds mlen of None \<Rightarrow> Some None
     | Some mlen' \<Rightarrow>
       if int (length ds) \<ge> mlen' then None
       else let acc' = c_int (acc - delta); pos' = c_int (i + bs_slen (op_view b f)) in
         if pos' < 0 \<or> acc' < 0 then Some None
         else find_matches instr grow f delta b pos' acc' (ds @ [i]) mlen' }"

text \<open>The second pass runs over the positions from the last to the first. \<open>b0\<close> is the string before \<open>balloc\<close>.\<close>

fun expand_loop :: "bstr \<Rightarrow> operand \<Rightarrow> int \<Rightarrow> int \<Rightarrow> int list \<Rightarrow> nat \<Rightarrow> int \<Rightarrow> bstr \<Rightarrow> bstr option" where
  "expand_loop b0 r fl rl ds 0 acc b = Some b"
| "expand_loop b0 r fl rl ds (Suc i) acc b =
     (let s = ds ! i + fl; l = ds ! Suc i - s in do {
        d1 \<leftarrow> (if l \<noteq> 0 then memmove_in (the (bs_data b)) (s + acc) (the (bs_data b)) s l else bs_data b);
        d2 \<leftarrow> (if rl \<noteq> 0 then do {
                 src \<leftarrow> op_data_after b0 (b\<lparr>bs_data := Some d1\<rparr>) r;
                 memmove_in d1 (s + acc - rl) src 0 rl }
               else Some d1);
        expand_loop b0 r fl rl ds i (acc + (fl - rl)) (b\<lparr>bs_data := Some d2\<rparr>) })"

definition replace_expand ::
  "instr_fnptr \<Rightarrow> (int \<Rightarrow> bool) \<Rightarrow> bmem \<Rightarrow> operand \<Rightarrow> operand \<Rightarrow> bstr \<Rightarrow> int \<Rightarrow> (int \<times> bstr) option" where
  "replace_expand instr grow m f r b pos =
     (let fl = bs_slen (op_view b f); rl = bs_slen (op_view b r) in do {
        res \<leftarrow> find_matches instr grow f (fl - rl) b pos 0 [] INITIAL_STATIC_FIND_INDEX_COUNT;
        case res of None \<Rightarrow> Some (BSTR_ERR, b)
        | Some (ds, acc) \<Rightarrow> after_alloc (balloc m b (c_int (bs_slen b + acc + 1))) (\<lambda>b1. do {
            b2 \<leftarrow> expand_loop b r fl rl ds (length ds - 1) acc b1;
            store b2 (bs_data b2) (bs_slen b1 + acc) }) })"

text \<open>The three ways, by the difference of the lengths.\<close>

definition replace_by ::
  "instr_fnptr \<Rightarrow> (int \<Rightarrow> bool) \<Rightarrow> bmem \<Rightarrow> operand \<Rightarrow> operand \<Rightarrow> bstr \<Rightarrow> int \<Rightarrow> int \<Rightarrow> (int \<times> bstr) option" where
  "replace_by instr grow m f r b pos delta =
     (if delta = 0 then map_option (\<lambda>b'. (BSTR_OK, b')) (replace_equal instr f r b pos)
      else if delta > 0 then replace_shrink instr f r delta b pos 0 \<bind> shrink_rest
      else replace_expand instr grow m f r b pos)"

definition findreplaceengine ::
  "instr_fnptr \<Rightarrow> (int \<Rightarrow> bool) \<Rightarrow> bmem \<Rightarrow> bmem \<Rightarrow> bmem \<Rightarrow> bstr \<Rightarrow> operand \<Rightarrow> operand \<Rightarrow> int \<Rightarrow> (int \<times> bstr) option" where
  "findreplaceengine instr grow mf mr m b fnd repl pos =
     (let bf = op_view b fnd; br = op_view b repl in
      if no_string bf \<or> no_string br \<or> pos < 0 \<or> bs_slen bf \<le> 0 \<or> not_writable b then Some (BSTR_ERR, b)
      else if pos > bs_slen b - bs_slen bf then Some (BSTR_OK, b)
      else do {
        auxf \<leftarrow> copied mf b (begins_in fnd (pos - bs_slen bf) (bs_slen b)) fnd;
        case auxf of None \<Rightarrow> Some (BSTR_ERR, b)
        | Some f \<Rightarrow> do {
          auxr \<leftarrow> copied mr b (begins_in repl (pos - bs_slen br) (bs_slen b)) repl;
          case auxr of None \<Rightarrow> Some (BSTR_ERR, b)
          | Some r \<Rightarrow> replace_by instr grow m f r b pos (bs_slen bf - bs_slen br) } })"

definition bfindreplace ::
  "(int \<Rightarrow> bool) \<Rightarrow> bmem \<Rightarrow> bmem \<Rightarrow> bmem \<Rightarrow> bstr \<Rightarrow> operand \<Rightarrow> operand \<Rightarrow> int \<Rightarrow> (int \<times> bstr) option" where
  "bfindreplace = findreplaceengine binstr"

definition bfindreplacecaseless ::
  "(int \<Rightarrow> bool) \<Rightarrow> bmem \<Rightarrow> bmem \<Rightarrow> bmem \<Rightarrow> bstr \<Rightarrow> operand \<Rightarrow> operand \<Rightarrow> int \<Rightarrow> (int \<times> bstr) option" where
  "bfindreplacecaseless = findreplaceengine binstrcaseless"

section \<open>Operands during a replacement\<close>

text \<open>
  An operand gives the bytes \<open>ys\<close> in every string that begins with \<open>A\<close>: its header is separate, or it points
  into \<open>A\<close>. An empty operand may point anywhere.
\<close>

definition serves :: "operand \<Rightarrow> byte list \<Rightarrow> byte list \<Rightarrow> bool" where
  "serves op A ys = (case op of Sep v \<Rightarrow> reads v ys
     | Alias off len \<Rightarrow> len = int (length ys) \<and> (ys = [] \<or> off + length ys \<le> length A \<and> take (length ys) (drop off A) = ys))"

lemma serves_append: "serves op A ys \<Longrightarrow> serves op (A @ B) ys"
  by (auto simp: serves_def split: operand.splits)

lemma serves_slen: "serves op A ys \<Longrightarrow> bs_slen (op_view b op) = int (length ys)"
  by (auto simp: serves_def op_view_def reads_def split: operand.splits)

lemma serves_read:
  assumes "serves op A ys" "bs_data b = Some d" "starts d A" "ys \<noteq> []"
  shows "reads (op_view b op) ys"
proof (cases op)
  case (Sep v)
  then show ?thesis using assms(1) by (simp add: serves_def op_view_def)
next
  case (Alias off len)
  then have a: "off + length ys \<le> length A" "take (length ys) (drop off A) = ys" "len = int (length ys)"
    using assms(1,4) by (auto simp: serves_def)
  have "read_block d off (length ys) = Some ys" using starts_read [OF assms(3) a(1)] a(2) by simp
  then have "read_block (drop off d) 0 (length ys) = Some ys" by (auto simp: read_block_def add.commute split: if_splits)
  then show ?thesis using Alias a(3) assms(2) by (simp add: op_view_def reads_def)
qed

lemma memmove_in_spec:
  assumes "ys = [] \<or> read_block src (nat pos) (length ys) = Some ys" "0 \<le> pos" "off + length ys \<le> length d"
  shows "memmove_in d (int off) src pos (int (length ys)) = Some (take off d @ map Some ys @ drop (off + length ys) d)"
  using copy_from_spec [OF assms] by (simp add: memmove_in_def)

lemma serves_memmove:
  assumes "serves op A ys" "bs_data b = Some d" "starts d A" "off + length ys \<le> length d'"
  shows "memmove_in d' (int off) (the (bs_data (op_view b op))) 0 (int (length ys)) =
    Some (take off d' @ map Some ys @ drop (off + length ys) d')"
proof -
  have "ys = [] \<or> read_block (the (bs_data (op_view b op))) 0 (length ys) = Some ys"
    using serves_read [OF assms(1-3)] by (cases "ys = []") (auto simp: reads_def)
  then show ?thesis using assms(4) by (intro memmove_in_spec) auto
qed

lemma op_data_same: "bs_mlen b' = bs_mlen b0 \<or> (\<exists>v. op = Sep v) \<Longrightarrow> op_data_after b0 b' op = bs_data (op_view b' op)"
  by (auto simp: op_data_after_def op_view_def split: operand.splits)

lemma op_valid_serves:
  assumes "op_valid xs op"
  shows "serves op xs (op_bytes xs op)"
proof (cases op)
  case (Sep v)
  then show ?thesis using assms holds_reads [OF holds_bytes] by (simp add: serves_def)
next
  case (Alias off len)
  then have "length (take (nat len) (drop off xs)) = nat len" "0 \<le> len" "off + nat len \<le> length xs" using assms by auto
  then show ?thesis using Alias by (simp add: serves_def)
qed

lemma copied_serves:
  assumes b: "holds b xs" and op: "op_valid xs op" "op_bytes xs op = ys" and len: "length ys + 1 < 2 ^ 31"
  shows "(\<exists>op'. copied mc b al op = Some (Some op') \<and> (if al then \<exists>v. op' = Sep v \<and> reads v ys else op' = op))
    \<or> copied mc b al op = Some None \<and> \<not> (m_hdr mc \<and> m_snap mc)"
proof -
  have "reads (op_view b op) ys" using op_is_bytes [OF b op(1)] op(2) by (simp add: op_is_def)
  from bstrcpy_spec [OF this len, of mc] show ?thesis using holds_reads by (auto simp: copied_def)
qed

text \<open>Writing inside the string.\<close>

lemma holds_write:
  assumes "holds b zs" "off + length ys \<le> length zs"
  shows "holds (b\<lparr>bs_data := Some (take off (the (bs_data b)) @ map Some ys @ drop (off + length ys) (the (bs_data b)))\<rparr>)
    (take off zs @ ys @ drop (off + length ys) zs)"
proof -
  obtain rest where b: "b = \<lparr>bs_mlen = int (length zs + 1 + length rest), bs_slen = int (length zs),
      bs_data = Some (map Some zs @ Some 0 # rest)\<rparr>" "length zs + 1 + length rest < 2 ^ 31"
    using assms(1) by (auto simp: holds_iff)
  show ?thesis unfolding holds_iff
    by (rule exI [of _ rest]) (use assms(2) b in \<open>auto simp: take_map drop_map\<close>)
qed

section \<open>Replacing a section\<close>

definition replace_at :: "nat \<Rightarrow> nat \<Rightarrow> byte list \<Rightarrow> byte \<Rightarrow> byte list \<Rightarrow> byte list" where
  "replace_at pos len ys c xs = take pos (xs @ replicate (pos - length xs) c) @ ys @ drop (pos + len) xs"

lemma move_replace:
  assumes d: "starts d xs" and len: "pos + len \<le> length xs" "length xs - len + length ys \<le> length d"
  shows "\<exists>d1. (if int (length ys) \<noteq> int len then memmove_in d (int pos + int (length ys)) d (int pos + int len) (int (length xs) - (int pos + int len))
      else Some d) = Some d1 \<and> length d1 = length d
    \<and> (\<exists>r. take pos d1 @ map Some ys @ drop (pos + length ys) d1 = map Some (take pos xs @ ys @ drop (pos + len) xs) @ r)"
proof (cases "length ys = len")
  case True
  obtain r where r: "d = map Some xs @ r" using d by (auto simp: starts_def)
  have "take pos d @ map Some ys @ drop (pos + length ys) d = map Some (take pos xs @ ys @ drop (pos + len) xs) @ r"
    using len(1) True by (simp add: r take_map drop_map)
  then show ?thesis using True by auto
next
  case False
  let ?t = "drop (pos + len) xs"
  obtain r where r: "d = map Some xs @ r" using d by (auto simp: starts_def)
  have "read_block d (pos + len) (length ?t) = Some ?t" using starts_read [OF d, of "pos + len" "length ?t"] len(1) by simp
  then have mv: "memmove_in d (int (pos + length ys)) d (int (pos + len)) (int (length ?t)) =
      Some (take (pos + length ys) d @ map Some ?t @ drop (pos + length ys + length ?t) d)"
    using len by (intro memmove_in_spec) (auto simp: nat_int_add)
  have n: "int (length ?t) = int (length xs) - (int pos + int len)" using len(1) by simp
  let ?d1 = "take (pos + length ys) d @ map Some ?t @ drop (pos + length ys + length ?t) d"
  have p: "pos \<le> length xs" "pos + length ys \<le> length d" "length d = length xs + length r" using len by (auto simp: r)
  have "take pos ?d1 = map Some (take pos xs)" using p by (simp add: r take_map min_absorb1)
  moreover have "drop (pos + length ys) ?d1 = map Some ?t @ drop (pos + length ys + length ?t) d" using p(2) by simp
  ultimately have "take pos ?d1 @ map Some ys @ drop (pos + length ys) ?d1 =
      map Some (take pos xs @ ys @ ?t) @ drop (pos + length ys + length ?t) d" by simp
  moreover have "length ?d1 = length d" using p len by (simp add: min_absorb2)
  moreover have "(if int (length ys) \<noteq> int len then memmove_in d (int pos + int (length ys)) d (int pos + int len) (int (length xs) - (int pos + int len))
      else Some d) = Some ?d1"
    using mv False unfolding n of_nat_add by simp
  ultimately show ?thesis by blast
qed

lemma replace_mid_finished:
  assumes b: "holds b xs" and op: "serves op xs ys" and mid: "pos + len < length xs" and m: "m_snap m"
    and len: "length xs + length ys < 2 ^ 30" and sep: "length ys \<le> len \<or> (\<exists>v. op = Sep v)"
    and pre: "\<not> (\<exists>v. op = Sep v) \<Longrightarrow> ys = []"
  shows "finished (take pos xs @ ys @ drop (pos + len) xs) (replace_mid m b (int pos) (int len) op)"
proof -
  let ?n = "length ys" and ?al = "if int (length ys) > int len then balloc m b (c_int (bs_slen b + int (length ys) - int len)) else Some (BSTR_OK, b)"
  have c: "c_int (int (length xs) + int ?n - int len) = int (length xs) + int ?n - int len" using len mid by (intro c_int_range) auto
  obtain b' where b': "?al = Some (BSTR_OK, b')" "holds b' xs" "int (length xs) + int ?n - int len < bs_mlen b'" "?n \<le> len \<Longrightarrow> b' = b"
  proof (cases "?n \<le> len")
    case True
    then show ?thesis using that [of b] b holds_fields(3) [OF b] by auto
  next
    case False
    then show ?thesis using balloc_holds [OF b, of "int (length xs) + int ?n - int len" m] len mid m that holds_fields(1) [OF b] c by auto
  qed
  obtain d where d: "bs_data b' = Some d" "starts d xs" "bs_mlen b' = int (length d)" "length d < 2 ^ 31"
    using holds_starts [OF b'(2)] by metis
  have fit: "length xs - len + ?n \<le> length d" "length (take pos xs @ ys @ drop (pos + len) xs) < length d" using b'(3) d(3) mid by auto
  obtain d1 r where d1: "(if int ?n \<noteq> int len then memmove_in d (int pos + int ?n) d (int pos + int len) (int (length xs) - (int pos + int len))
      else Some d) = Some d1" "length d1 = length d"
    "take pos d1 @ map Some ys @ drop (pos + ?n) d1 = map Some (take pos xs @ ys @ drop (pos + len) xs) @ r"
    using move_replace [OF d(2) less_imp_le [OF mid] fit(1)] by metis
  let ?b = "b'\<lparr>bs_data := Some d1\<rparr>"
  have same: "op_data_after b ?b op = bs_data (op_view ?b op)" using sep b'(4) by (intro op_data_same) auto
  have "memmove_in d1 (int pos) (the (bs_data (op_view ?b op))) 0 (int ?n) = Some (take pos d1 @ map Some ys @ drop (pos + ?n) d1)"
    using op pre fit(2) d1(2) mid by (intro memmove_in_spec) (auto simp: serves_def op_view_def reads_def split: operand.splits)
  moreover obtain s where "bs_data (op_view ?b op) = Some s" using op by (auto simp: serves_def op_view_def reads_def split: operand.splits)
  moreover have "int (length xs) + (int ?n - int len) = int (length (take pos xs @ ys @ drop (pos + len) xs))" using mid by simp
  ultimately have "replace_mid m b (int pos) (int len) op = store b' (Some (map Some (take pos xs @ ys @ drop (pos + len) xs) @ r))
      (int (length (take pos xs @ ys @ drop (pos + len) xs)))"
    unfolding replace_mid_def Let_def after_alloc_def serves_slen [OF op] b'(1)
    by (simp only: d(1) d1(1,3) same holds_fields(1) [OF b'(2)] option.case prod.case simp_thms if_False option.sel bind.bind_lunit)
  moreover have "length (map Some (take pos xs @ ys @ drop (pos + len) xs) @ r) = length d"
    using arg_cong [OF d1(3), of length] d1(2) fit mid by simp
  ultimately show ?thesis using store_starts [of "map Some (take pos xs @ ys @ drop (pos + len) xs) @ r" "take pos xs @ ys @ drop (pos + len) xs" b'] d fit(2)
    by (auto simp: starts_def)
qed

lemma set_at_take: "pos + len \<ge> length xs \<Longrightarrow> take (pos + length ys) (set_at pos ys c xs) = replace_at pos len ys c xs"
  by (auto simp: set_at_def replace_at_def)

lemma length_set_at: "length (set_at pos ys c xs) = max (pos + length ys) (length xs)"
  by (auto simp: set_at_def)

lemma breplace_edited:
  assumes b: "holds b xs" and op: "op_valid xs op" "op_bytes xs op = ys" and m: "m_snap m"
    and len: "pos + len < 2 ^ 31" "pos + length ys + 1 < 2 ^ 31" "length xs + length ys < 2 ^ 30"
  shows "edited (m_hdr mc \<and> m_snap mc) b (replace_at pos len ys c xs) (breplace mc m b (int pos) (int len) op c)"
proof -
  have v: "op_is b op ys" using op_is_bytes [OF b op(1)] op(2) by simp
  then have s: "bs_slen (op_view b op) = int (length ys)" "\<not> no_string (op_view b op)" using reads_str by (auto simp: op_is_def)
  have ci: "c_int (int pos + int len) = int pos + int len" "c_int (int pos + int (length ys)) = int pos + int (length ys)"
    using len by (auto intro!: c_int_range)
  note f = holds_fields(1,2) [OF b]
  show ?thesis
  proof (cases "length xs \<le> pos + len")
    case True
    have "edited (m_hdr mc \<and> m_snap mc) b (set_at pos ys c xs) (bsetstr mc m b (int pos) (Some op) c)"
      using bsetstr_edited [OF b v len(2), of mc m c] m by (auto simp: edited_def)
    then consider (ok) b' where "bsetstr mc m b (int pos) (Some op) c = Some (BSTR_OK, b')" "holds b' (set_at pos ys c xs)"
      | (err) "bsetstr mc m b (int pos) (Some op) c = Some (BSTR_ERR, b)" "\<not> (m_hdr mc \<and> m_snap mc)"
      by (auto simp: edited_def finished_def)
    then show ?thesis
    proof cases
      case ok
      have "finished (replace_at pos len ys c xs) (store b' (bs_data b') (int (pos + length ys)))"
        using store_take [OF ok(2), of "pos + length ys"] set_at_take [OF True, of ys c] by (simp add: length_set_at)
      moreover have "set_at pos ys c xs = replace_at pos len ys c xs" if "\<not> pos + length ys < max (pos + length ys) (length xs)"
        using that set_at_take [OF True, of ys c] by (simp add: length_set_at)
      ultimately show ?thesis using ok s f ci True holds_fields(1) [OF ok(2)]
        by (auto simp: breplace_def Let_def length_set_at BSTR_OK_def intro!: finished_edited) (simp add: finished_def BSTR_OK_def)
    next
      case err
      then show ?thesis using s f ci True by (auto simp: breplace_def Let_def edited_def BSTR_ERR_def)
    qed
  next
    case False
    let ?al = "begins_in op (- 1) (bs_slen b)"
    have mid: "pos + len < length xs" using False by simp
    have empty: "ys = []" if "\<not> ?al" "\<not> (\<exists>v. op = Sep v)" using that op f by (cases op) (auto simp: begins_in_def)
    have run: "breplace mc m b (int pos) (int len) op c = (copied mc b ?al op \<bind>
        (\<lambda>aux. case aux of None \<Rightarrow> Some (BSTR_ERR, b) | Some aux \<Rightarrow> replace_mid m b (int pos) (int len) aux))"
      using s f ci mid by (simp add: breplace_def Let_def)
    have z: "replace_at pos len ys c xs = take pos xs @ ys @ drop (pos + len) xs" using mid by (simp add: replace_at_def)
    have "length ys + 1 < 2 ^ 31" using len(3) by simp
    from copied_serves [OF b op this, of mc ?al] show ?thesis
    proof (elim disjE exE conjE)
      fix op'
      assume o: "copied mc b ?al op = Some (Some op')" "if ?al then \<exists>v. op' = Sep v \<and> reads v ys else op' = op"
      have "serves op' xs ys" using o(2) op_valid_serves [OF op(1)] op(2) by (auto simp: serves_def split: if_splits)
      then have "finished (take pos xs @ ys @ drop (pos + len) xs) (replace_mid m b (int pos) (int len) op')"
        using o(2) empty by (intro replace_mid_finished [OF b _ mid m len(3)]) (auto split: if_splits)
      then show ?thesis using run o(1) z by (simp add: finished_edited)
    qed (use run in \<open>simp add: edited_def\<close>)
  qed
qed

text \<open>Like \<open>bassign\<close>, the middle case asks for a byte less than it needs.\<close>

lemma breplace_tight_faults:
  "breplace demo_bmem \<lparr>m_hdr = True, m_alloc = False, m_snap = False, m_tight = True\<rparr> demo_bstr 0 1 (Sep (demo_text [120, 121, 122])) 0 = None"
  by (simp add: breplace_def demo_bstr_def demo_text_def op_view_def c_int_def no_string_def not_writable_def copied_def
      begins_in_def replace_mid_def after_alloc_def balloc_def snapUpSize_def realloc_block_def poke_def memmove_in_def
      copy_from_def read_block_def memcpy_at_def op_data_after_def store_def numeral_3_eq_3 numeral_2_eq_2 BSTR_OK_def Let_def)

end
