(* ===== verification/Splits.thy ===== *)
theory Splits
  imports Prelude
begin

text \<open>
  Reference functions on lists for replacement, splitting and joining: the pieces of a list between
  the occurrences of a pattern, and their concatenation with a separator.
\<close>

text \<open>
  The pieces between the occurrences that a scan from the left finds, and their concatenation with
  a string in between. \<open>eq\<close> compares the pattern with a section of the same length.
\<close>

function splits :: "('a list \<Rightarrow> 'a list \<Rightarrow> bool) \<Rightarrow> 'a list \<Rightarrow> 'a list \<Rightarrow> 'a list list" where
  "splits eq p t =
     (if t = [] \<or> p = [] then [t]
      else if length p \<le> length t \<and> eq p (take (length p) t) then [] # splits eq p (drop (length p) t)
      else case splits eq p (tl t) of x # xs \<Rightarrow> (hd t # x) # xs | [] \<Rightarrow> [])"
  by pat_completeness auto
termination
  by (relation "measure (\<lambda>(eq, p, t). length t)") auto

declare splits.simps [simp del]

fun join :: "'a list \<Rightarrow> 'a list list \<Rightarrow> 'a list" where
  "join r [] = []"
| "join r (x # xs) = x @ concat (map (\<lambda>y. r @ y) xs)"

definition hit :: "('a list \<Rightarrow> 'a list \<Rightarrow> bool) \<Rightarrow> 'a list \<Rightarrow> 'a list \<Rightarrow> nat \<Rightarrow> bool" where
  "hit eq p t m \<longleftrightarrow> m + length p \<le> length t \<and> eq p (take (length p) (drop m t))"

lemma splits_none: "(\<And>m. \<not> hit eq p t m) \<Longrightarrow> splits eq p t = [t]"
proof (induction eq p t rule: splits.induct)
  case (1 eq p t)
  have no: "\<not> (length p \<le> length t \<and> eq p (take (length p) t))" using "1.prems" [of 0] by (simp add: hit_def)
  show ?case
  proof (cases "t = [] \<or> p = []")
    case False
    have "\<not> hit eq p (tl t) m" for m using "1.prems" [of "Suc m"] False by (cases t) (auto simp: hit_def)
    then show ?thesis using "1.IH"(2) [OF False no] no False by (auto simp: splits.simps [of eq p t])
  qed (simp add: splits.simps)
qed

lemma splits_hit:
  "hit eq p t m \<Longrightarrow> (\<And>k. k < m \<Longrightarrow> \<not> hit eq p t k) \<Longrightarrow> p \<noteq> [] \<Longrightarrow>
   splits eq p t = take m t # splits eq p (drop (m + length p) t)"
proof (induction m arbitrary: t)
  case 0
  then have "t \<noteq> []" by (auto simp: hit_def)
  then show ?case using 0 by (simp add: splits.simps [of eq p t] hit_def)
next
  case (Suc m)
  obtain x u where t: "t = x # u" using Suc.prems(1) by (cases t) (auto simp: hit_def)
  have "\<not> (length p \<le> length t \<and> eq p (take (length p) t))" using Suc.prems(2) [of 0] by (simp add: hit_def)
  moreover have "splits eq p u = take m u # splits eq p (drop (m + length p) u)"
  proof (rule Suc.IH)
    show "\<not> hit eq p u k" if "k < m" for k using Suc.prems(2) [of "Suc k"] that by (simp add: hit_def t)
  qed (use Suc.prems in \<open>auto simp: hit_def t\<close>)
  ultimately show ?case using Suc.prems(3) by (auto simp: splits.simps [of eq p "x # u"] t)
qed

text \<open>The pieces lie in the string, with sections of the length of the pattern between them.\<close>

fun laid_out :: "nat \<Rightarrow> 'a list \<Rightarrow> 'a list list \<Rightarrow> bool" where
  "laid_out n t [] = False"
| "laid_out n t [x] = (t = x)"
| "laid_out n t (x # y # zs) = (length x + n \<le> length t \<and> take (length x) t = x \<and> laid_out n (drop (length x + n) t) (y # zs))"

lemma splits_cases:
  assumes "p \<noteq> []"
  obtains (none) "\<And>m. \<not> hit eq p t m" "splits eq p t = [t]"
    | (hit) m where "hit eq p t m" "\<And>k. k < m \<Longrightarrow> \<not> hit eq p t k" "splits eq p t = take m t # splits eq p (drop (m + length p) t)"
      "m + length p \<le> length t"
proof (cases "\<exists>m. hit eq p t m")
  case True
  define m where "m = (LEAST m. hit eq p t m)"
  have "hit eq p t m" "\<And>k. k < m \<Longrightarrow> \<not> hit eq p t k" using True unfolding m_def by (auto intro: LeastI_ex dest: not_less_Least)
  then show ?thesis using splits_hit [of eq p t m] assms by (intro hit [of m]) (auto simp: hit_def)
qed (use none splits_none in blast)

lemma splits_laid_out:
  assumes "p \<noteq> []"
  shows "laid_out (length p) t (splits eq p t)"
proof (induction t rule: length_induct)
  case (1 t)
  show ?case using assms
  proof (cases rule: splits_cases [of p eq t, case_names none hit])
    case none
    then show ?thesis by simp
  next
    case (hit m)
    have "laid_out (length p) (drop (m + length p) t) (splits eq p (drop (m + length p) t))"
      using 1 hit(4) assms by (cases t) auto
    then show ?thesis using hit(3,4) by (cases "splits eq p (drop (m + length p) t)") auto
  qed
qed

lemma laid_out_length: "laid_out n t xs \<Longrightarrow> length t = length (concat xs) + n * (length xs - 1) \<and> xs \<noteq> []"
  by (induction n t xs rule: laid_out.induct) auto

lemma length_join: "length (join r xs) = length (concat xs) + length r * (length xs - 1)"
proof (cases xs)
  case (Cons y ys)
  have "length (concat (map (\<lambda>y. r @ y) ys)) = length (concat ys) + length r * length ys" by (induction ys) auto
  then show ?thesis using Cons by simp
qed simp

text \<open>The places where the pieces end.\<close>

fun ends :: "nat \<Rightarrow> nat \<Rightarrow> 'a list list \<Rightarrow> nat list" where
  "ends a n [] = []"
| "ends a n (x # xs) = (a + length x) # ends (a + length x + n) n xs"

lemma length_ends [simp]: "length (ends a n xs) = length xs"
  by (induction a n xs rule: ends.induct) auto

lemma ends_next:
  "laid_out n t xs \<Longrightarrow> Suc i < length xs \<Longrightarrow>
   ends a n xs ! Suc i = ends a n xs ! i + n + length (xs ! Suc i)
   \<and> a \<le> ends a n xs ! i \<and> ends a n xs ! Suc i \<le> a + length t
   \<and> take (length (xs ! Suc i)) (drop (ends a n xs ! i + n - a) t) = xs ! Suc i"
proof (induction n t xs arbitrary: a i rule: laid_out.induct)
  case (3 n t x y zs)
  show ?case
  proof (cases i)
    case 0
    have "take (length y) (drop (length x + n) t) = y \<and> length x + n + length y \<le> length t"
      using "3.prems"(1) by (cases zs) auto
    then show ?thesis using 0 by simp
  next
    case (Suc j)
    have l: "length x + n \<le> length t" using "3.prems"(1) by simp
    have "laid_out n (drop (length x + n) t) (y # zs)" "Suc j < length (y # zs)" using "3.prems" Suc by auto
    from "3.IH" [OF this, of "a + length x + n"] show ?thesis using Suc l by (auto simp: algebra_simps)
  qed
qed auto

lemma ends_last: "laid_out n t xs \<Longrightarrow> ends a n xs ! (length xs - 1) = a + length t"
  by (induction n t xs arbitrary: a rule: laid_out.induct) auto

text \<open>Joining the pieces with the pattern gives the string back.\<close>

lemma join_splits:
  assumes "p \<noteq> []"
  shows "join p (splits (=) p t) = t"
proof (induction t rule: length_induct)
  case (1 t)
  show ?case using assms
  proof (cases rule: splits_cases [of p "(=)" t, case_names none hit])
    case none
    then show ?thesis by simp
  next
    case (hit m)
    let ?r = "drop (m + length p) t"
    have "join p (splits (=) p ?r) = ?r" using 1 hit(4) assms by (cases t) auto
    moreover have "splits (=) p ?r \<noteq> []" using laid_out_length [OF splits_laid_out [OF assms]] by blast
    ultimately have j: "join p (splits (=) p t) = take m t @ p @ ?r" using hit(3) by (cases "splits (=) p ?r") auto
    have p: "take (length p) (drop m t) = p" using hit(1) by (simp add: hit_def)
    have "t = take m t @ take (length p) (drop m t) @ drop (length p) (drop m t)" by (simp only: append_take_drop_id)
    then have "t = take m t @ p @ ?r" unfolding p drop_drop by (simp only: add.commute)
    then show ?thesis unfolding j by (rule sym)
  qed
qed

end
