(* ===== verification/Bstr_Replace_All.thy ===== *)
theory Bstr_Replace_All
  imports Bstr_Replace Splits
begin

text \<open>
  \<open>findreplaceengine\<close> replaces what a scan from the left finds: each of its three ways gives the pieces of
  the string between the occurrences, joined by the replacement. The engine is verified for every
  search that finds the next occurrence (\<open>string_search\<close>); \<open>binstr\<close> and \<open>binstrcaseless\<close> do.
\<close>

lemma holds_same: "bs_data b = Some d \<Longrightarrow> holds (b\<lparr>bs_data := Some d\<rparr>) xs \<longleftrightarrow> holds b xs"
  by (cases b) simp

lemma holds_data: "holds b xs \<Longrightarrow> bs_data b = Some d \<Longrightarrow> starts d xs \<and> length xs < length d"
  by (auto elim: holds_starts)

lemma drop_past: "k = length Y \<Longrightarrow> drop (length A + k + n) (A @ Y @ drop m Z) = drop (m + n) Z"
  by (simp add: add.commute)

section \<open>The array of positions\<close>

definition positions_fit :: "int list \<Rightarrow> int \<Rightarrow> bool" where
  "positions_fit ds mlen \<longleftrightarrow> int (length ds) < mlen \<and> mlen \<le> 2 * int (length ds) + 32"

lemma index_room_cases:
  assumes "positions_fit ds mlen" "length ds < 2 ^ 26"
  obtains (ok) mlen' where "index_room grow ds mlen = Some mlen'" "int (length ds) < mlen'" "positions_fit (ds @ [i]) mlen'"
    | (full) "index_room grow ds mlen = None" "\<not> (\<forall>n. grow n)"
proof (cases "int (length ds) \<ge> mlen - 1")
  case False
  then show ?thesis using ok [of mlen] assms by (simp add: index_room_def positions_fit_def)
next
  case True
  then have m: "mlen = int (length ds) + 1" using assms by (simp add: positions_fit_def)
  then have "c_int (mlen + mlen) = 2 * mlen" "c_int (8 * (2 * mlen)) = 16 * mlen" using assms(2) by (auto intro!: c_int_range)
  then show ?thesis using True ok [of "2 * mlen"] full m by (cases "grow (16 * mlen)") (auto simp: index_room_def positions_fit_def)
qed

section \<open>The interface of the search\<close>

locale string_search =
  fixes instr :: instr_fnptr and eq :: "byte list \<Rightarrow> byte list \<Rightarrow> bool"
  assumes finds_first: "reads b t \<Longrightarrow> reads v p \<Longrightarrow> p \<noteq> [] \<Longrightarrow> pos \<le> length t \<Longrightarrow> same \<longrightarrow> 0 < pos \<Longrightarrow>
    \<exists>i. instr same b (int pos) v = Some i \<and> first_from (hit eq p t) pos i"
begin

lemma hit_append: "hit eq p (A @ B) (length A + k) \<longleftrightarrow> hit eq p B k"
  by (auto simp: hit_def)

lemma find_next_cases:
  assumes b: "holds b (A @ B)" and f: "serves f A p" "p \<noteq> []"
  obtains (none) "find_next instr b (int (length A)) f = Some BSTR_ERR" "splits eq p B = [B]"
    | (found) k where "find_next instr b (int (length A)) f = Some (int (length A + k))" "k + length p \<le> length B"
      "splits eq p B = take k B # splits eq p (drop (k + length p) B)"
proof -
  obtain d where d: "bs_data b = Some d" "starts d (A @ B)" using holds_starts [OF b] by metis
  have v: "reads (op_view b f) p" using serves_read [OF serves_append [OF f(1)] d f(2)] .
  have "(case f of Sep v \<Rightarrow> False | Alias off len \<Rightarrow> off = 0) \<longrightarrow> 0 < length A"
    using f by (auto simp: serves_def split: operand.splits)
  from finds_first [OF holds_reads [OF b] v f(2) _ this] obtain i where
    i: "find_next instr b (int (length A)) f = Some i" "first_from (hit eq p (A @ B)) (length A) i"
    unfolding find_next_def by auto
  from i(2) show thesis unfolding first_from_def
  proof (elim disjE exE conjE)
    assume "i = BSTR_ERR" "\<forall>m. length A \<le> m \<longrightarrow> \<not> hit eq p (A @ B) m"
    then have "\<not> hit eq p B k" for k using hit_append [of p A B k] by simp
    then show thesis using none i(1) \<open>i = BSTR_ERR\<close> splits_none by blast
  next
    fix m
    assume m: "i = int m" "length A \<le> m" "hit eq p (A @ B) m" "\<forall>k. length A \<le> k \<and> k < m \<longrightarrow> \<not> hit eq p (A @ B) k"
    define k where "k = m - length A"
    have k: "m = length A + k" using m(2) by (simp add: k_def)
    have h: "hit eq p B k" using m(3) hit_append [of p A B] by (simp add: k)
    have no: "\<not> hit eq p B j" if "j < k" for j using m(4) that hit_append [of p A B j] by (auto simp: k)
    have "k + length p \<le> length B" using h by (simp add: hit_def)
    then show thesis using splits_hit [OF h no f(2)] i(1) m(1) k by (intro found [of k]) auto
  qed
qed

lemma join_found:
  assumes "p \<noteq> []" "splits eq p B = take k B # splits eq p (drop (k + length p) B)"
  shows "A @ join rr (splits eq p B) = (A @ take k B @ rr) @ join rr (splits eq p (drop (k + length p) B))"
  using assms(2) splits_laid_out [OF assms(1), of "drop (k + length p) B" eq]
  by (cases "splits eq p (drop (k + length p) B)") auto

section \<open>In place\<close>

lemma replace_equal_holds:
  "holds b (A @ B) \<Longrightarrow> serves f A p \<Longrightarrow> p \<noteq> [] \<Longrightarrow> serves r A rr \<Longrightarrow> length rr = length p \<Longrightarrow>
   \<exists>b'. replace_equal instr f r b (int (length A)) = Some b' \<and> holds b' (A @ join rr (splits eq p B))"
proof (induction B arbitrary: A b rule: length_induct)
  case (1 B)
  note prems = "1.prems"
  obtain d where d: "bs_data b = Some d" "starts d (A @ B)" "length (A @ B) < length d" using holds_starts [OF prems(1)] by metis
  show ?case
  proof (cases rule: find_next_cases [OF prems(1-3), case_names none found])
    case none
    then show ?thesis using prems(1) by (simp add: replace_equal.simps [of instr f r b] BSTR_ERR_def)
  next
    case (found k)
    let ?A = "A @ take k B @ rr" and ?B = "drop (k + length p) B"
    let ?d = "take (length A + k) d @ map Some rr @ drop (length A + k + length rr) d"
    have fit: "length A + k + length rr \<le> length (A @ B)" using found(2) prems(5) by simp
    have mv: "memmove_in d (int (length A + k)) (the (bs_data (op_view b r))) 0 (int (length rr)) = Some ?d"
      using fit d(3) by (intro serves_memmove [OF serves_append [OF prems(4)] d(1,2)]) simp
    have "holds (b\<lparr>bs_data := Some ?d\<rparr>) (?A @ ?B)" using holds_write [OF prems(1) fit] d(1) prems(5) by (simp add: add.assoc)
    moreover have "length ?B < length B" using found(2) prems(3) by (cases p) auto
    ultimately obtain b' where b': "replace_equal instr f r (b\<lparr>bs_data := Some ?d\<rparr>) (int (length ?A)) = Some b'"
      "holds b' (?A @ join rr (splits eq p ?B))"
      using "1.IH" prems(2-5) serves_append by (metis append.assoc)
    have "c_int (int (length A + k) + int (length p)) = int (length ?A)"
      using found(2) prems(5) holds_length [OF prems(1)] by (subst c_int_range) auto
    then have "replace_equal instr f r b (int (length A)) = Some b'"
      using found(1) mv b'(1) d(1) serves_slen [OF prems(2)] serves_slen [OF prems(4)]
      by (subst replace_equal.simps) simp
    then show ?thesis using b'(2) join_found [OF prems(3) found(3), of A rr] by simp
  qed
qed

lemma move_down_holds:
  assumes "holds b (A @ G @ B)" "k \<le> length B"
  shows "\<exists>d1. move_down b (int (length A + length G + k)) (int (length A + length G)) (int (length G)) = Some d1
    \<and> holds (b\<lparr>bs_data := Some d1\<rparr>) (A @ take k B @ drop (length A + k) (A @ G @ B))"
proof -
  obtain d where d: "bs_data b = Some d" "starts d (A @ G @ B)" "length (A @ G @ B) < length d" using holds_starts [OF assms(1)] by metis
  show ?thesis
  proof (cases "G = [] \<or> k = 0")
    case True
    then have "A @ take k B @ drop (length A + k) (A @ G @ B) = A @ G @ B" by auto
    then show ?thesis using True assms(1) d(1) by (auto simp: move_down_def holds_same)
  next
    case False
    let ?d = "take (length A) d @ map Some (take k B) @ drop (length A + length (take k B)) d"
    have "read_block d (length A + length G) (length (take k B)) = Some (take k B)"
      using starts_read [OF d(2), of "length A + length G" k] assms(2) by (simp add: min_absorb2)
    then have "memmove_in d (int (length A)) d (int (length A + length G)) (int (length (take k B))) = Some ?d"
      using d(3) assms(2) by (intro memmove_in_spec) (auto simp: nat_int_add)
    moreover have "holds (b\<lparr>bs_data := Some ?d\<rparr>) (A @ take k B @ drop (length A + k) (A @ G @ B))"
      using holds_write [OF assms(1), of "length A" "take k B"] d(1) assms(2) by (simp add: min_absorb2)
    ultimately show ?thesis using False d(1) assms(2) by (auto simp: move_down_def min_absorb2)
  qed
qed

lemma shrink_rest_finished:
  assumes "holds b (A @ G @ B)"
  shows "finished (A @ B) (shrink_rest (b, int (length (A @ G)), int (length G)))"
proof (cases "G = []")
  case True
  then show ?thesis using assms by (simp add: shrink_rest_def finished_def)
next
  case False
  obtain d1 where d1: "move_down b (int (length A + length G + length B)) (int (length A + length G)) (int (length G)) = Some d1"
    "holds (b\<lparr>bs_data := Some d1\<rparr>) ((A @ B) @ drop (length A + length B) (A @ G @ B))"
    using move_down_holds [OF assms order_refl] by auto
  have "bs_slen b = int (length A + length G + length B)" using holds_fields(1) [OF assms] by simp
  moreover have "finished (A @ B) (store b (Some d1) (int (length (A @ B))))"
    using store_take [OF d1(2), of "length (A @ B)"] by (simp add: store_def)
  ultimately show ?thesis using False d1(1) by (simp add: shrink_rest_def)
qed

lemma shrink_step:
  assumes b: "holds b (A @ G @ B)" and k: "k + n \<le> length B" and r: "serves r A rr" "length rr < n"
  shows "\<exists>d1 d2 G'. move_down b (int (length A + length G + k)) (int (length A + length G)) (int (length G)) = Some d1
    \<and> (if int (length rr) \<noteq> 0 then memmove_in d1 (int (length A + k)) (the (bs_data (op_view (b\<lparr>bs_data := Some d1\<rparr>) r))) 0 (int (length rr))
         else Some d1) = Some d2
    \<and> holds (b\<lparr>bs_data := Some d2\<rparr>) ((A @ take k B @ rr) @ G' @ drop (k + n) B) \<and> length G' = length G + n - length rr"
proof -
  let ?W = "drop (length A + k) (A @ G @ B)" and ?Z = "drop (length A + k + length rr) (A @ G @ B)" and ?a = "length G + n - length rr"
  have k': "k \<le> length B" using k by simp
  obtain d1 where d1: "move_down b (int (length A + length G + k)) (int (length A + length G)) (int (length G)) = Some d1"
    "holds (b\<lparr>bs_data := Some d1\<rparr>) (A @ take k B @ ?W)"
    using move_down_holds [OF b k'] by metis
  let ?b = "b\<lparr>bs_data := Some d1\<rparr>" and ?d = "take (length A + k) d1 @ map Some rr @ drop (length A + k + length rr) d1"
  have "length (A @ take k B @ ?W) = length (A @ G @ B)" using k' by auto
  then have s1: "starts d1 (A @ take k B @ ?W)" and l1: "length (A @ G @ B) < length d1"
    using holds_data [OF d1(2), of d1] by (auto simp del: append_assoc drop_append length_append)
  have "memmove_in d1 (int (length A + k)) (the (bs_data (op_view ?b r))) 0 (int (length rr)) = Some ?d"
    using k r(2) l1 by (intro serves_memmove [OF serves_append [OF r(1)] _ s1]) auto
  then have w: "(if int (length rr) \<noteq> 0 then memmove_in d1 (int (length A + k)) (the (bs_data (op_view ?b r))) 0 (int (length rr)) else Some d1) = Some ?d"
    by (cases rr) auto
  have t: "take (length A + k) (A @ take k B @ ?W) = A @ take k B" using k' by simp
  have z: "drop (length A + k + length rr) (A @ take k B @ ?W) = ?Z" using k' by (intro drop_past) simp
  have "length A + k + length rr \<le> length (A @ take k B @ ?W)" using k r(2) by simp
  from holds_write [OF d1(2) this] have h: "holds (b\<lparr>bs_data := Some ?d\<rparr>) ((A @ take k B @ rr) @ ?Z)" unfolding t z by simp
  have "?a + (length A + k + length rr) = length (A @ G) + (k + n)" using r(2) by simp
  then have "drop ?a ?Z = drop (length (A @ G) + (k + n)) ((A @ G) @ B)" by (simp only: drop_drop append_assoc)
  also have "\<dots> = drop (k + n) B" by simp
  finally have "?Z = take ?a ?Z @ drop (k + n) B" by (metis append_take_drop_id)
  moreover have "length (take ?a ?Z) = ?a" using k r(2) by simp
  ultimately show ?thesis using d1(1) w h by metis
qed

lemma replace_shrink_finished:
  "holds b (A @ G @ B) \<Longrightarrow> serves f A p \<Longrightarrow> p \<noteq> [] \<Longrightarrow> serves r A rr \<Longrightarrow> length rr < length p \<Longrightarrow>
   finished (A @ join rr (splits eq p B))
     (replace_shrink instr f r (int (length p) - int (length rr)) b (int (length (A @ G))) (int (length G)) \<bind> shrink_rest)"
proof (induction B arbitrary: A G b rule: length_induct)
  case (1 B)
  note prems = "1.prems"
  have h: "holds b ((A @ G) @ B)" using prems(1) by simp
  show ?case
  proof (cases rule: find_next_cases [OF h serves_append [OF prems(2)] prems(3), case_names none found])
    case none
    then show ?thesis using shrink_rest_finished [OF prems(1)]
      by (subst replace_shrink.simps) (simp add: BSTR_ERR_def)
  next
    case (found k)
    let ?A = "A @ take k B @ rr" and ?B = "drop (k + length p) B" and ?n = "length rr"
    obtain d1 d2 G' where d: "move_down b (int (length A + length G + k)) (int (length A + length G)) (int (length G)) = Some d1"
      "(if int ?n \<noteq> 0 then memmove_in d1 (int (length A + k)) (the (bs_data (op_view (b\<lparr>bs_data := Some d1\<rparr>) r))) 0 (int ?n) else Some d1) = Some d2"
      "holds (b\<lparr>bs_data := Some d2\<rparr>) (?A @ G' @ ?B)" "length G' = length G + length p - ?n"
      using shrink_step [OF prems(1) found(2) prems(4,5)] by blast
    have "length ?B < length B" using found(2) prems(3) by (cases p) auto
    with "1.IH" d(3) prems(2-5) serves_append
    have IH: "finished (?A @ join rr (splits eq p ?B)) (replace_shrink instr f r (int (length p) - int ?n) (b\<lparr>bs_data := Some d2\<rparr>)
        (int (length (?A @ G'))) (int (length G')) \<bind> shrink_rest)" by blast
    have c: "c_int (int (length (A @ G) + k) + int (length p)) = int (length (?A @ G'))"
      "c_int (int (length G) + (int (length p) - int ?n)) = int (length G')"
      using found(2) prems(5) holds_length [OF prems(1)] d(4) by (subst c_int_range; auto)+
    have "replace_shrink instr f r (int (length p) - int ?n) b (int (length (A @ G))) (int (length G)) =
        replace_shrink instr f r (int (length p) - int ?n) (b\<lparr>bs_data := Some d2\<rparr>) (int (length (?A @ G'))) (int (length G'))"
      using found(1) d(1,2) c serves_slen [OF prems(2)] serves_slen [OF prems(4)]
      by (subst replace_shrink.simps) (cases "rr = []"; simp add: Let_def)
    then show ?thesis using IH join_found [OF prems(3) found(3), of A rr] by simp
  qed
qed

section \<open>Growing: the positions\<close>

lemma find_matches_ends:
  assumes "holds b (A @ B)" "serves f A p" "p \<noteq> []" "positions_fit ds mlen" "length ds + length B < 2 ^ 26"
    and "acc + e * (length (splits eq p B) - 1) < 2 ^ 31"
  shows "find_matches instr grow f (- int e) b (int (length A)) (int acc) ds mlen =
      Some (Some (ds @ map int (ends (length A) (length p) (splits eq p B)), int (acc + e * (length (splits eq p B) - 1))))
    \<or> find_matches instr grow f (- int e) b (int (length A)) (int acc) ds mlen = Some None \<and> \<not> (\<forall>n. grow n)"
  using assms
proof (induction B arbitrary: A ds mlen acc rule: length_induct)
  case (1 B)
  note prems = "1.prems"
  show ?case
  proof (cases rule: find_next_cases [OF prems(1-3), case_names none found])
    case none
    then show ?thesis using prems(4) holds_fields(1) [OF prems(1)]
      by (subst find_matches.simps) (simp add: BSTR_ERR_def positions_fit_def)
  next
    case (found k)
    let ?A = "A @ take (k + length p) B" and ?B = "drop (k + length p) B"
    have small: "length ds < 2 ^ 26" "length ?B < length B" "length (ds @ [int (length A + k)]) + length ?B < 2 ^ 26"
      using prems(3,5) found(2) by (auto simp: Suc_le_eq neq_Nil_conv)
    obtain y ys where sp: "splits eq p ?B = y # ys" using splits_laid_out [OF prems(3), of ?B eq] by (cases "splits eq p ?B") auto
    have acc: "acc + e + e * (length (splits eq p ?B) - 1) = acc + e * (length (splits eq p B) - 1)" using found(3) sp by simp
    have c: "c_int (int acc - - int e) = int (acc + e)" "c_int (int (length A + k) + int (length p)) = int (length ?A)"
      using found(2) holds_length [OF prems(1)] prems(6) found(3) sp by (subst c_int_range; auto)+
    have st: "find_matches instr grow f (- int e) b (int (length A)) (int acc) ds mlen =
        (case index_room grow ds mlen of None \<Rightarrow> Some None | Some mlen' \<Rightarrow> if int (length ds) \<ge> mlen' then None
         else find_matches instr grow f (- int e) b (int (length ?A)) (int (acc + e)) (ds @ [int (length A + k)]) mlen')"
      using found(1) c serves_slen [OF prems(2), of b] by (subst find_matches.simps) (simp add: Let_def split: option.split)
    show ?thesis using prems(4) small(1)
    proof (cases rule: index_room_cases [of ds mlen grow "int (length A + k)", case_names ok full])
      case (ok mlen')
      have "holds b (?A @ ?B)" "serves f ?A p" using prems(1,2) serves_append by auto
      note IH = "1.IH" [rule_format, OF small(2) this prems(3) ok(3) small(3), of "acc + e"]
      have "length ?A = length A + k + length p" using found(2) by simp
      then have "ends (length A) (length p) (splits eq p B) = (length A + k) # ends (length ?A) (length p) (splits eq p ?B)"
        using found(2,3) by (simp add: add.assoc)
      then show ?thesis using IH prems(6) ok(1,2) unfolding st acc by (auto simp del: length_append)
    qed (use st in simp)
  qed
qed

end

section \<open>Growing: the second pass\<close>

text \<open>
  When the positions from \<open>i\<close> on are done, the string up to the \<open>i\<close>th position is as it was, and what follows that
  position in the result lies where it belongs, \<open>i * e\<close> bytes further.
\<close>

definition pieces_from :: "byte list \<Rightarrow> byte list list \<Rightarrow> nat \<Rightarrow> byte list" where
  "pieces_from rr xs i = concat (map (\<lambda>y. rr @ y) (drop (Suc i) xs))"

definition passed :: "byte list \<Rightarrow> byte list \<Rightarrow> byte list list \<Rightarrow> nat list \<Rightarrow> nat \<Rightarrow> nat \<Rightarrow> block \<Rightarrow> bool" where
  "passed t rr xs ms e i d \<longleftrightarrow> starts d (take (ms ! i) t) \<and> (\<exists>rest. drop (ms ! i + i * e) d = map Some (pieces_from rr xs i) @ rest)"

lemma pieces_from_Suc: "Suc i < length xs \<Longrightarrow> pieces_from rr xs i = rr @ xs ! Suc i @ pieces_from rr xs (Suc i)"
  by (simp add: pieces_from_def Cons_nth_drop_Suc [symmetric])

lemma starts_take_iff: "starts d zs \<longleftrightarrow> take (length zs) d = map Some zs"
  by (metis starts_def append_eq_conv_conj append_take_drop_id length_map)

lemma starts_write:
  assumes "starts d zs" "length zs \<le> off" "off \<le> length d"
  shows "starts (take off d @ ys) zs"
  using assms by (simp add: starts_take_iff min_absorb1)

lemma expand_step:
  assumes xs: "laid_out n t xs" "Suc i < length xs" and ms: "ms = ends a n xs" and e: "length rr = n + e"
    and p: "passed (A @ t) rr xs ms e (Suc i) d" and a: "a = length A" and r: "serves r A rr"
    and same: "bs_mlen b = bs_mlen b0 \<or> (\<exists>v. r = Sep v)" and d: "bs_data b = Some d"
    and fit: "a + length t + e * (length xs - 1) \<le> length d"
  defines "s \<equiv> int (ms ! i) + int n" and "l \<equiv> int (ms ! Suc i) - (int (ms ! i) + int n)" and "acc \<equiv> int (Suc i * e)"
  shows "\<exists>d1 d2. (if l \<noteq> 0 then memmove_in d (s + acc) d s l else Some d) = Some d1
    \<and> (if int (length rr) \<noteq> 0 then op_data_after b0 (b\<lparr>bs_data := Some d1\<rparr>) r \<bind> (\<lambda>src. memmove_in d1 (s + acc - int (length rr)) src 0 (int (length rr)))
         else Some d1) = Some d2
    \<and> length d2 = length d \<and> passed (A @ t) rr xs ms e i d2"
proof -
  let ?x = "xs ! Suc i" and ?s = "ms ! i + n"
  have nx: "ms ! Suc i = ?s + length ?x" "a \<le> ms ! i" "ms ! Suc i \<le> a + length t" "take (length ?x) (drop (?s - a) t) = ?x"
    using ends_next [OF xs, of a] by (simp_all add: ms)
  have x: "take (length ?x) (drop ?s (A @ t)) = ?x" using nx(2,4) a by simp
  have i: "Suc i * e \<le> e * (length xs - 1)" using xs(2) mult_le_mono1 [of "Suc i" "length xs - 1" e] by (simp add: mult.commute [of e])
  have end_: "?s + Suc i * e + length ?x \<le> length d" using nx(1,3) fit i by linarith
  obtain rest where q: "starts d (take (ms ! Suc i) (A @ t))" "drop (ms ! Suc i + Suc i * e) d = map Some (pieces_from rr xs (Suc i)) @ rest"
    using p by (auto simp: passed_def)
  define d1 where "d1 = take (?s + Suc i * e) d @ map Some ?x @ drop (?s + Suc i * e + length ?x) d"
  have u: "take m (drop j (take (j + m) u)) = take m (drop j u)" for j m and u :: "byte list" by (simp add: drop_take)
  have "?s + length ?x \<le> length (take (ms ! Suc i) (A @ t))" using nx(1,3) a by simp
  from starts_read [OF q(1) this] have "read_block d ?s (length ?x) = Some ?x" unfolding nx(1) u x .
  then have "memmove_in d (int (?s + Suc i * e)) d (int ?s) (int (length ?x)) = Some d1"
    unfolding d1_def using end_ by (intro memmove_in_spec) (auto simp: nat_int_add)
  then have m1: "(if l \<noteq> 0 then memmove_in d (s + acc) d s l else Some d) = Some d1"
    using nx(1) by (cases "?x = []") (simp_all add: s_def l_def acc_def d1_def)
  have l1: "length d1 = length d" using end_ by (simp add: d1_def)
  have "ms ! Suc i + Suc i * e = ?s + Suc i * e + length ?x" using nx(1) by simp
  then have q2: "drop (?s + Suc i * e + length ?x) d = map Some (pieces_from rr xs (Suc i)) @ rest" using q(2) by (simp only:)
  have D1: "drop (?s + Suc i * e) d1 = map Some (?x @ pieces_from rr xs (Suc i)) @ rest" unfolding d1_def q2 using end_ by simp
  let ?o = "ms ! i + i * e"
  let ?d2 = "take ?o d1 @ map Some rr @ drop (?o + length rr) d1"
  have o: "?o + length rr = ?s + Suc i * e" using e by simp
  have m: "ms ! i \<le> ms ! Suc i" "ms ! i \<le> length (A @ t)" "ms ! i \<le> length d" "?o \<le> length d" using nx end_ a by auto
  have "starts d (take (ms ! i) (A @ t))" using starts_take [OF q(1), of "ms ! i"] m(1) by (simp add: min_absorb1 del: take_append)
  then have s1: "starts d1 (take (ms ! i) (A @ t))" unfolding d1_def using m(2) end_ by (intro starts_write) auto
  have "starts d1 A" using starts_take [OF s1, of "length A"] nx(2) a by (simp add: min_absorb1)
  then have "memmove_in d1 (int ?o) (the (bs_data (op_view (b\<lparr>bs_data := Some d1\<rparr>) r))) 0 (int (length rr)) = Some ?d2"
    using l1 o end_ by (intro serves_memmove [OF r]) auto
  moreover have "int ?o = s + acc - int (length rr)" using o by (simp add: s_def acc_def)
  moreover have "\<exists>src. bs_data (op_view (b\<lparr>bs_data := Some d1\<rparr>) r) = Some src" using r by (auto simp: serves_def op_view_def reads_def split: operand.splits)
  moreover have "op_data_after b0 (b\<lparr>bs_data := Some d1\<rparr>) r = bs_data (op_view (b\<lparr>bs_data := Some d1\<rparr>) r)" using same by (intro op_data_same) auto
  ultimately have m2: "(if int (length rr) \<noteq> 0 then op_data_after b0 (b\<lparr>bs_data := Some d1\<rparr>) r \<bind>
      (\<lambda>src. memmove_in d1 (s + acc - int (length rr)) src 0 (int (length rr))) else Some d1) = Some ?d2"
    by (cases "rr = []") auto
  have "drop ?o ?d2 = map Some (pieces_from rr xs i) @ rest"
    using D1 l1 m(4) xs(2) unfolding o by (simp add: pieces_from_Suc min_absorb1)
  moreover have "starts ?d2 (take (ms ! i) (A @ t))" using s1 m l1 by (intro starts_write) auto
  ultimately have "passed (A @ t) rr xs ms e i ?d2" by (auto simp: passed_def)
  moreover have "length ?d2 = length d" using l1 o end_ by simp
  ultimately show ?thesis using m1 m2 by blast
qed

lemma expand_loop_passed:
  assumes xs: "laid_out n t xs" and ms: "ms = ends (length A) n xs" and e: "length rr = n + e" and r: "serves r A rr"
    and fit: "length A + length t + e * (length xs - 1) \<le> length d"
  shows "i < length xs \<Longrightarrow> bs_data b = Some d \<Longrightarrow> passed (A @ t) rr xs ms e i d \<Longrightarrow> bs_mlen b = bs_mlen b0 \<or> (\<exists>v. r = Sep v) \<Longrightarrow>
    \<exists>d'. expand_loop b0 r (int n) (int (length rr)) (map int ms) i (int (i * e)) b = Some (b\<lparr>bs_data := Some d'\<rparr>)
      \<and> length d' = length d \<and> passed (A @ t) rr xs ms e 0 d'"
  using fit
proof (induction i arbitrary: b d)
  case 0
  then have "b\<lparr>bs_data := Some d\<rparr> = b" by simp
  then show ?case using 0 by (metis expand_loop.simps(1) mult_0 of_nat_0)
next
  case (Suc i)
  let ?s = "int (ms ! i) + int n" and ?l = "int (ms ! Suc i) - (int (ms ! i) + int n)" and ?acc = "int (Suc i * e)"
  obtain d1 d2 where d: "(if ?l \<noteq> 0 then memmove_in d (?s + ?acc) d ?s ?l else Some d) = Some d1"
    "(if int (length rr) \<noteq> 0 then op_data_after b0 (b\<lparr>bs_data := Some d1\<rparr>) r \<bind> (\<lambda>src. memmove_in d1 (?s + ?acc - int (length rr)) src 0 (int (length rr)))
       else Some d1) = Some d2"
    "length d2 = length d" "passed (A @ t) rr xs ms e i d2"
    using expand_step [OF xs Suc.prems(1) ms e Suc.prems(3) refl r Suc.prems(4,2,5)] by blast
  obtain d' where IH: "expand_loop b0 r (int n) (int (length rr)) (map int ms) i (int (i * e)) (b\<lparr>bs_data := Some d2\<rparr>) =
      Some (b\<lparr>bs_data := Some d2\<rparr>\<lparr>bs_data := Some d'\<rparr>)" "length d' = length d2" "passed (A @ t) rr xs ms e 0 d'"
    using Suc.IH [of "b\<lparr>bs_data := Some d2\<rparr>" d2] Suc.prems d(3,4) by auto
  have n: "map int ms ! i = int (ms ! i)" "map int ms ! Suc i = int (ms ! Suc i)" using Suc.prems(1) by (simp_all add: ms)
  have acc: "?acc + (int n - int (length rr)) = int (i * e)" using e by simp
  have "expand_loop b0 r (int n) (int (length rr)) (map int ms) (Suc i) ?acc b = Some (b\<lparr>bs_data := Some d'\<rparr>)"
    using IH(1) unfolding expand_loop.simps Let_def n Suc.prems(2) option.sel d(1) bind.bind_lunit d(2) acc by simp
  then show ?case using IH(2,3) d(3) by auto
qed

lemma expand_finished:
  assumes b: "holds b1 (A @ t)" and xs: "laid_out n t xs" and e: "length rr = n + e" and r: "serves r A rr"
    and same: "bs_mlen b1 = bs_mlen b0 \<or> (\<exists>v. r = Sep v)" and fit: "int (length (A @ join rr xs)) < bs_mlen b1"
  shows "finished (A @ join rr xs) (expand_loop b0 r (int n) (int (length rr)) (map int (ends (length A) n xs)) (length xs - 1) (int ((length xs - 1) * e)) b1
    \<bind> (\<lambda>b2. store b2 (bs_data b2) (bs_slen b1 + int ((length xs - 1) * e))))"
proof -
  let ?ms = "ends (length A) n xs" and ?k = "length xs - 1"
  obtain d where d: "bs_data b1 = Some d" "starts d (A @ t)" "bs_mlen b1 = int (length d)" "length d < 2 ^ 31"
    using holds_starts [OF b] by metis
  have t: "length t = length (concat xs) + n * ?k" "xs \<noteq> []" using laid_out_length [OF xs] by auto
  have N: "length (A @ join rr xs) = length (A @ t) + ?k * e" using t(1) by (simp add: length_join e add_mult_distrib)
  have last: "?ms ! ?k = length (A @ t)" using ends_last [OF xs] by simp
  have f: "length (A @ t) + ?k * e \<le> length d" using fit unfolding d(3) N of_nat_less_iff by simp
  have "passed (A @ t) rr xs ?ms e ?k d" unfolding passed_def last using d(2) t(2) by (simp add: pieces_from_def)
  then obtain d' where d': "expand_loop b0 r (int n) (int (length rr)) (map int ?ms) ?k (int (?k * e)) b1 = Some (b1\<lparr>bs_data := Some d'\<rparr>)"
    "length d' = length d" "passed (A @ t) rr xs ?ms e 0 d'"
    using expand_loop_passed [OF xs refl e r, of d ?k b1 b0] d(1) same t(2) f by (auto simp: mult.commute)
  obtain y ys where y: "xs = y # ys" using t(2) by (cases xs) auto
  have "take (length y) t = y" "length y \<le> length t" using xs y by (cases ys; simp)+
  then have 0: "take (?ms ! 0) (A @ t) = A @ y" "?ms ! 0 = length (A @ y)" by (simp_all add: y)
  obtain rest where "drop (length (A @ y)) d' = map Some (pieces_from rr xs 0) @ rest" "take (length (A @ y)) d' = map Some (A @ y)"
    using d'(3) unfolding passed_def 0(1) unfolding 0(2) starts_take_iff by auto
  then have "d' = map Some (A @ join rr xs) @ rest"
    using append_take_drop_id [of "length (A @ y)" d'] by (simp add: y pieces_from_def)
  then have "starts d' (A @ join rr xs)" by (auto simp: starts_def)
  from store_starts [OF this, of "b1\<lparr>bs_data := Some d'\<rparr>"] have "finished (A @ join rr xs) (store (b1\<lparr>bs_data := Some d'\<rparr>) (Some d') (int (length (A @ join rr xs))))"
    using fit d d'(2) by simp
  then show ?thesis using d'(1) holds_fields(1) [OF b] N by (simp add: add.assoc)
qed

section \<open>The engine\<close>

text \<open>A replacement that lies in the string in front of the position keeps its pointer into the memory that may move.\<close>

definition stale :: "nat \<Rightarrow> operand \<Rightarrow> bool" where
  "stale pos op = (case op of Sep v \<Rightarrow> False | Alias off len \<Rightarrow> int off + len \<le> int pos)"

lemma copied_prefix:
  assumes b: "holds b xs" and op: "op_valid xs op" "op_bytes xs op = ys" and len: "length ys + 1 < 2 ^ 31" and pos: "pos \<le> length xs"
  shows "(\<exists>op'. copied mc b (begins_in op (int pos - int (length ys)) (bs_slen b)) op = Some (Some op') \<and> serves op' (take pos xs) ys
      \<and> (\<not> stale pos op \<longrightarrow> ys \<noteq> [] \<longrightarrow> (\<exists>v. op' = Sep v)))
    \<or> copied mc b (begins_in op (int pos - int (length ys)) (bs_slen b)) op = Some None \<and> \<not> (m_hdr mc \<and> m_snap mc)"
proof -
  let ?al = "begins_in op (int pos - int (length ys)) (bs_slen b)"
  have s: "serves op (take pos xs) ys \<and> (\<not> stale pos op \<longrightarrow> ys \<noteq> [] \<longrightarrow> (\<exists>v. op = Sep v))" if "\<not> ?al"
  proof (cases op)
    case (Sep v)
    then show ?thesis using op_valid_serves [OF op(1)] op(2) by (simp add: serves_def)
  next
    case (Alias off n)
    then have v: "0 \<le> n" "off + nat n \<le> length xs" "take (nat n) (drop off xs) = ys" using op by auto
    have n: "n = int (length ys)" unfolding v(3) [symmetric] using v(1,2) by simp
    show ?thesis
    proof (cases "ys = []")
      case False
      then have "off + length ys \<le> pos" using that Alias v n holds_fields(1) [OF b] by (auto simp: begins_in_def)
      moreover from this have "take (length ys) (drop off (take pos xs)) = ys" using v(3) n by (simp add: drop_take min_absorb1)
      ultimately show ?thesis using Alias n pos by (auto simp: serves_def stale_def)
    qed (use Alias n in \<open>simp add: serves_def\<close>)
  qed
  from copied_serves [OF b op len, of mc ?al] s show ?thesis by (auto simp: serves_def split: if_splits)
qed

context string_search
begin

lemma replace_expand_edited:
  assumes b: "holds b (A @ B)" and f: "serves f A p" "p \<noteq> []" and r: "serves r A rr" "length p < length rr" "\<exists>v. r = Sep v"
    and len: "length (A @ B) < 2 ^ 26" "length (A @ join rr (splits eq p B)) + 1 < 2 ^ 31"
  shows "edited ((\<forall>n. grow n) \<and> m_snap m) b (A @ join rr (splits eq p B)) (replace_expand instr grow m f r b (int (length A)))"
proof -
  let ?xs = "splits eq p B" and ?e = "length rr - length p"
  note lay = splits_laid_out [OF f(2), of B eq]
  have e: "length rr = length p + ?e" "int (length p) - int (length rr) = - int ?e" using r(2) by auto
  have N: "length (A @ join rr ?xs) = length (A @ B) + ?e * (length ?xs - 1)"
    using laid_out_length [OF lay] r(2) by (simp add: length_join diff_mult_distrib)
  have "positions_fit [] INITIAL_STATIC_FIND_INDEX_COUNT" by (simp add: positions_fit_def INITIAL_STATIC_FIND_INDEX_COUNT_def)
  then consider (ok) "find_matches instr grow f (- int ?e) b (int (length A)) 0 [] INITIAL_STATIC_FIND_INDEX_COUNT =
      Some (Some (map int (ends (length A) (length p) ?xs), int ((length ?xs - 1) * ?e)))"
    | (no) "find_matches instr grow f (- int ?e) b (int (length A)) 0 [] INITIAL_STATIC_FIND_INDEX_COUNT = Some None" "\<not> (\<forall>n. grow n)"
    using find_matches_ends [OF b f, of "[]" INITIAL_STATIC_FIND_INDEX_COUNT 0 ?e grow] len N by (auto simp: mult.commute)
  then show ?thesis
  proof cases
    case ok
    have "bs_slen b + int ((length ?xs - 1) * ?e) + 1 = int (length (A @ join rr ?xs) + 1)"
      using holds_fields(1) [OF b] N by (simp add: mult.commute)
    moreover have "int (length (A @ join rr ?xs) + 1) < 2 ^ 31" using len(2) by simp
    ultimately have c: "c_int (bs_slen b + int ((length ?xs - 1) * ?e) + 1) = int (length (A @ join rr ?xs)) + 1"
      by (subst c_int_range) auto
    have "replace_expand instr grow m f r b (int (length A)) =
        after_alloc (balloc m b (int (length (A @ join rr ?xs)) + 1)) (\<lambda>b1.
          expand_loop b r (int (length p)) (int (length rr)) (map int (ends (length A) (length p) ?xs)) (length ?xs - 1) (int ((length ?xs - 1) * ?e)) b1
          \<bind> (\<lambda>b2. store b2 (bs_data b2) (bs_slen b1 + int ((length ?xs - 1) * ?e))))"
      unfolding replace_expand_def Let_def serves_slen [OF f(1)] serves_slen [OF r(1)] e(2) ok using c by simp
    moreover have "edited ((\<forall>n. grow n) \<and> m_snap m) b (A @ join rr ?xs) \<dots>"
    proof (rule edited_alloc [OF b])
      show "finished (A @ join rr ?xs) (expand_loop b r (int (length p)) (int (length rr)) (map int (ends (length A) (length p) ?xs)) (length ?xs - 1)
          (int ((length ?xs - 1) * ?e)) b1 \<bind> (\<lambda>b2. store b2 (bs_data b2) (bs_slen b1 + int ((length ?xs - 1) * ?e))))"
        if "holds b1 (A @ B)" "int (length (A @ join rr ?xs)) + 1 \<le> bs_mlen b1" for b1
        using that(2) r(3) by (intro expand_finished [OF that(1) lay e(1) r(1)]) auto
    qed (use len(2) in \<open>auto simp del: length_append\<close>)
    ultimately show ?thesis by simp
  next
    case no
    then show ?thesis by (simp add: replace_expand_def Let_def serves_slen [OF f(1)] serves_slen [OF r(1)] e(2) edited_def)
  qed
qed

lemma replace_by_edited:
  assumes b: "holds b (A @ B)" and f: "serves f A p" "p \<noteq> []" and r: "serves r A rr" "length p < length rr \<longrightarrow> (\<exists>v. r = Sep v)"
    and len: "length (A @ B) < 2 ^ 26" "length (A @ join rr (splits eq p B)) + 1 < 2 ^ 31"
  shows "edited ((\<forall>n. grow n) \<and> m_snap m) b (A @ join rr (splits eq p B))
    (replace_by instr grow m f r b (int (length A)) (int (length p) - int (length rr)))"
proof -
  consider "length rr = length p" | "length rr < length p" | "length p < length rr" by linarith
  then show ?thesis
  proof cases
    case 1
    then show ?thesis using replace_equal_holds [OF b f r(1)] by (auto simp: replace_by_def edited_def finished_def)
  next
    case 2
    have "holds b (A @ [] @ B)" using b by simp
    from replace_shrink_finished [OF this f r(1) 2] 2 show ?thesis by (simp add: replace_by_def finished_edited)
  next
    case 3
    then show ?thesis using replace_expand_edited [OF b f r(1) 3 _ len] r(2) by (simp add: replace_by_def)
  qed
qed

lemma engine_edited:
  assumes b: "holds b xs" and f: "op_valid xs fnd" "op_bytes xs fnd = p" "p \<noteq> []" and r: "op_valid xs repl" "op_bytes xs repl = rr"
    and st: "\<not> stale pos repl \<or> length rr \<le> length p"
    and len: "length xs < 2 ^ 26" "length p + 1 < 2 ^ 31" "length rr + 1 < 2 ^ 31" "length (take pos xs @ join rr (splits eq p (drop pos xs))) + 1 < 2 ^ 31"
  shows "edited (m_hdr mf \<and> m_snap mf \<and> m_hdr mr \<and> m_snap mr \<and> (\<forall>n. grow n) \<and> m_snap m) b
    (take pos xs @ join rr (splits eq p (drop pos xs))) (findreplaceengine instr grow mf mr m b fnd repl (int pos))"
    (is "edited ?avail b ?res ?run")
proof -
  have v: "reads (op_view b fnd) p" "reads (op_view b repl) rr" using op_is_bytes [OF b] f r by (auto simp: op_is_def)
  note fv = reads_str [OF v(1)] reads_str [OF v(2)] holds_fields(1,2) [OF b]
  show ?thesis
  proof (cases "length xs < pos + length p")
    case True
    then have "\<not> hit eq p (drop pos xs) m" for m using f(3) by (cases p) (auto simp: hit_def)
    then have "?res = xs" using splits_none [of eq p "drop pos xs"] by simp
    then show ?thesis using True fv f(3) b by (auto simp: findreplaceengine_def Let_def edited_def finished_def)
  next
    case False
    then have pos: "pos \<le> length xs" "length (take pos xs) = pos" by simp_all
    have h: "holds b (take pos xs @ drop pos xs)" using b by simp
    have run: "?run = (copied mf b (begins_in fnd (int pos - int (length p)) (bs_slen b)) fnd \<bind> (\<lambda>auxf. case auxf of None \<Rightarrow> Some (BSTR_ERR, b)
        | Some f \<Rightarrow> copied mr b (begins_in repl (int pos - int (length rr)) (bs_slen b)) repl \<bind> (\<lambda>auxr. case auxr of None \<Rightarrow> Some (BSTR_ERR, b)
          | Some r \<Rightarrow> replace_by instr grow m f r b (int pos) (int (length p) - int (length rr)))))"
      using False fv f(3) by (simp add: findreplaceengine_def Let_def cong: option.case_cong)
    consider (nof) "copied mf b (begins_in fnd (int pos - int (length p)) (bs_slen b)) fnd = Some None" "\<not> (m_hdr mf \<and> m_snap mf)"
      | (fok) f' where "copied mf b (begins_in fnd (int pos - int (length p)) (bs_slen b)) fnd = Some (Some f')" "serves f' (take pos xs) p"
      using copied_prefix [OF b f(1,2) len(2) pos(1)] by blast
    then show ?thesis
    proof cases
      case nof
      then show ?thesis by (auto simp: run edited_def)
    next
      case fok
      from copied_prefix [OF b r len(3) pos(1), of mr] show ?thesis
      proof (elim disjE exE conjE)
        fix r'
        assume r': "copied mr b (begins_in repl (int pos - int (length rr)) (bs_slen b)) repl = Some (Some r')" "serves r' (take pos xs) rr"
          "\<not> stale pos repl \<longrightarrow> rr \<noteq> [] \<longrightarrow> (\<exists>v. r' = Sep v)"
        have "length p < length rr \<longrightarrow> (\<exists>v. r' = Sep v)" using st r'(3) by auto
        then have "edited ((\<forall>n. grow n) \<and> m_snap m) b ?res (replace_by instr grow m f' r' b (int pos) (int (length p) - int (length rr)))"
          using replace_by_edited [OF h fok(2) f(3) r'(2) _ _ len(4)] len(1) pos(2) by simp
        then show ?thesis using fok(1) r'(1) by (auto simp: run intro: edited_mono)
      qed (use fok(1) in \<open>auto simp: run edited_def\<close>)
    qed
  qed
qed

end

section \<open>The two searches\<close>

lemma occurs_hit: "occurs p t m \<longleftrightarrow> hit (=) p t m"
proof -
  have "(\<forall>k < length p. t ! (m + k) = p ! k) \<longleftrightarrow> p = take (length p) (drop m t)" if "m + length p \<le> length t"
    using that by (auto simp: list_eq_iff_nth_eq)
  then show ?thesis by (auto simp: occurs_def hit_def)
qed

definition caseless :: "byte list \<Rightarrow> byte list \<Rightarrow> bool" where
  "caseless xs ys \<longleftrightarrow> map downcase xs = map downcase ys"

lemma ioccurs_hit: "ioccurs p t m \<longleftrightarrow> hit caseless p t m"
  by (auto simp: ioccurs_def occurs_hit hit_def caseless_def take_map drop_map)

lemma same_only_at_zero:
  assumes "same \<longrightarrow> 0 < pos"
  shows "binstr same b (int pos) v = binstr False b (int pos) v"
    and "binstrcaseless same b (int pos) v = binstrcaseless False b (int pos) v"
  using assms by (auto simp: binstr_def binstrcaseless_def Let_def)

interpretation exact_search: string_search binstr "(=)"
proof
  fix b v same and t p :: "byte list" and pos :: nat
  assume a: "reads b t" "reads v p" "p \<noteq> []" "pos \<le> length t" "same \<longrightarrow> 0 < pos"
  show "\<exists>i. binstr same b (int pos) v = Some i \<and> first_from (hit (=) p t) pos i"
    using binstr_first [OF a(1,2,4), of False] unfolding same_only_at_zero(1) [OF a(5)] occurs_hit [abs_def] by simp
qed

interpretation caseless_search: string_search binstrcaseless caseless
proof
  fix b v same and t p :: "byte list" and pos :: nat
  assume a: "reads b t" "reads v p" "p \<noteq> []" "pos \<le> length t" "same \<longrightarrow> 0 < pos"
  show "\<exists>i. binstrcaseless same b (int pos) v = Some i \<and> first_from (hit caseless p t) pos i"
    using binstrcaseless_first [OF a(1,2,4), of False] unfolding same_only_at_zero(2) [OF a(5)] ioccurs_hit [abs_def] by simp
qed

definition all_memory :: "(int \<Rightarrow> bool) \<Rightarrow> bmem \<Rightarrow> bmem \<Rightarrow> bmem \<Rightarrow> bool" where
  "all_memory grow mf mr m \<longleftrightarrow> m_hdr mf \<and> m_snap mf \<and> m_hdr mr \<and> m_snap mr \<and> (\<forall>n. grow n) \<and> m_snap m"

text \<open>
  (C30) \<open>bfindreplace\<close> always returns, and replaces exactly the occurrences that a scan from the left finds behind
  a position: the result is the pieces between them joined by the replacement, whether the string
  keeps its length, shrinks in place or grows in two passes, and also where pattern and replacement
  are parts of the string itself. If memory is refused the string is as before and an error is
  reported. The exception is a replacement that lies in the string in front of the position, which
  must not be longer than the pattern.
\<close>

theorem bfindreplace_replaces_all:
  assumes "bstr_ok b" "op_valid (bytes b) fnd" "op_bytes (bytes b) fnd = p" "p \<noteq> []" "op_valid (bytes b) repl" "op_bytes (bytes b) repl = r"
    and "\<not> stale pos repl \<or> length r \<le> length p" "length (bytes b) < 2 ^ 26" "length p + 1 < 2 ^ 31" "length r + 1 < 2 ^ 31"
    and "length (take pos (bytes b) @ join r (splits (=) p (drop pos (bytes b)))) + 1 < 2 ^ 31"
  shows "\<exists>rc b'. bfindreplace grow mf mr m b fnd repl (int pos) = Some (rc, b') \<and> bstr_ok b'
    \<and> ((rc = BSTR_OK \<and> bytes b' = take pos (bytes b) @ join r (splits (=) p (drop pos (bytes b))))
       \<or> (rc = BSTR_ERR \<and> b' = b \<and> \<not> all_memory grow mf mr m))"
  using exact_search.engine_edited [OF holds_bytes [OF assms(1)] assms(2-11), of mf mr grow m] assms(1)
  by (auto simp: bfindreplace_def edited_def finished_def holds_def all_memory_def)

lemma bfindreplacecaseless_edited:
  assumes "holds b xs" "op_valid xs fnd" "op_bytes xs fnd = p" "p \<noteq> []" "op_valid xs repl" "op_bytes xs repl = r"
    and "\<not> stale pos repl \<or> length r \<le> length p" "length xs < 2 ^ 26" "length p + 1 < 2 ^ 31" "length r + 1 < 2 ^ 31"
    and "length (take pos xs @ join r (splits caseless p (drop pos xs))) + 1 < 2 ^ 31"
  shows "edited (all_memory grow mf mr m) b (take pos xs @ join r (splits caseless p (drop pos xs)))
    (bfindreplacecaseless grow mf mr m b fnd repl (int pos))"
  using caseless_search.engine_edited [OF assms, of mf mr grow m] by (simp add: bfindreplacecaseless_def all_memory_def)

section \<open>The stale replacement\<close>

text \<open>
  In \<open>abc\<close> the \<open>c\<close> is to be replaced by the two bytes before it. They are not copied, the string moves to a
  larger block, and the second pass reads the released one.
\<close>

lemma stale_replacement_faults:
  "bfindreplace (\<lambda>n. True) demo_bmem demo_bmem demo_bmem demo_bstr (Sep (demo_text [99])) (Alias 0 2) 2 = None"
proof -
  note ev = demo_bstr_def demo_text_def op_view_def no_string_def str_of_def read_block_def
  have f: "find_next binstr demo_bstr 2 (Sep (demo_text [99])) = Some 2" "find_next binstr demo_bstr 3 (Sep (demo_text [99])) = Some (- 1)"
    by (simp_all add: find_next_def binstr_def ev BSTR_ERR_def numeral_3_eq_3 numeral_2_eq_2)
  have l: "bs_slen demo_bstr = 3" "bs_slen (op_view demo_bstr (Sep (demo_text [99]))) = 1" by (simp_all add: ev)
  have c: "c_int 1 = 1" "c_int 3 = 3" "c_int 5 = 5" by (simp_all add: c_int_def)
  have m: "find_matches binstr (\<lambda>n. True) (Sep (demo_text [99])) (- 1) demo_bstr 2 0 [] INITIAL_STATIC_FIND_INDEX_COUNT = Some (Some ([2, 3], 1))"
    by (subst find_matches.simps, subst find_matches.simps)
      (simp add: f c l index_room_def INITIAL_STATIC_FIND_INDEX_COUNT_def)
  have a: "\<exists>b. balloc demo_bmem demo_bstr 5 = Some (BSTR_OK, b) \<and> bs_mlen b = 8 \<and> bs_data b \<noteq> None"
    by (simp add: balloc_def demo_bmem_def demo_bstr_def not_writable_def snapUpSize_def c_int_def realloc_block_def malloc_block_def poke_def BSTR_OK_def Let_def)
  then obtain b where b: "balloc demo_bmem demo_bstr 5 = Some (BSTR_OK, b)" "bs_mlen b = 8" "bs_data b \<noteq> None" by blast
  show ?thesis using m b c
    by (auto simp: bfindreplace_def findreplaceengine_def ev not_writable_def copied_def begins_in_def replace_by_def replace_expand_def
        after_alloc_def op_data_after_def Let_def)
qed

definition demo_xy :: bstr where
  "demo_xy = \<lparr>bs_mlen = 3, bs_slen = 2, bs_data = Some [Some 120, Some 121, Some 0]\<rparr>"

text \<open>The pattern is part of the string, and the string grows.\<close>

lemma bfindreplace_replaces_all_witness:
  "\<exists>b'. bfindreplace (\<lambda>n. True) demo_bmem demo_bmem demo_bmem demo_bstr (Alias 1 1) (Sep demo_xy) 0 = Some (BSTR_OK, b')
    \<and> bytes b' = [97, 120, 121, 99]"
proof -
  have "bstr_ok demo_bstr" "bytes demo_bstr = [97, 98, 99]" by (simp_all add: demo_bstr_def bstr_ok_def bytes_def numeral_3_eq_3)
  moreover have "splits (=) [98 :: byte] [97, 98, 99] = [[97], [99]]" by (simp add: splits.simps)
  moreover have "bstr_ok demo_xy" "bytes demo_xy = [120, 121]" by (simp_all add: demo_xy_def bstr_ok_def bytes_def numeral_2_eq_2)
  moreover have "all_memory (\<lambda>n. True) demo_bmem demo_bmem demo_bmem" by (simp add: all_memory_def demo_bmem_def)
  ultimately show ?thesis
    using bfindreplace_replaces_all [of demo_bstr "Alias 1 1" "[98]" "Sep demo_xy" "[120, 121]" 0 "\<lambda>n. True" demo_bmem demo_bmem demo_bmem]
    by (auto simp: stale_def)
qed

end
