(* ===== verification/Bstr_List.thy ===== *)
theory Bstr_List
  imports Bstr_Replace_All
begin

text \<open>
  Lists of strings, splitting and joining in \<open>lcthw/bstrlib.c\<close>. The array of a list has cells that may
  not be written yet and cells with a null pointer. A splitting function calls back for every piece
  with its offset and length; the callback has a state of its own and does not change the string.
\<close>

section \<open>Lists\<close>

record bstrList =
  bl_qty :: int
  bl_mlen :: int
  bl_entry :: "bstr option option list option"

definition bstrListCreate :: "bool \<Rightarrow> bool \<Rightarrow> bstrList option" where
  "bstrListCreate ok1 ok2 =
     (if ok1 \<and> ok2 then Some \<lparr>bl_qty = 0, bl_mlen = 1, bl_entry = Some [None]\<rparr> else None)"

definition bdestroy :: "bstr \<Rightarrow> int" where
  "bdestroy b = (if not_writable b then BSTR_ERR else BSTR_OK)"

text \<open>The strings that the destruction of a list releases.\<close>

fun destroy_loop :: "bstr option option list \<Rightarrow> bstr list option" where
  "destroy_loop [] = Some []"
| "destroy_loop (None # cs) = None"
| "destroy_loop (Some None # cs) = destroy_loop cs"
| "destroy_loop (Some (Some b) # cs) =
     map_option (\<lambda>bs. if bdestroy b = BSTR_OK then b # bs else bs) (destroy_loop cs)"

definition bstrListDestroy :: "bstrList \<Rightarrow> (int \<times> bstr list) option" where
  "bstrListDestroy sl =
     (if bl_qty sl < 0 then Some (BSTR_ERR, [])
      else if length (the (bl_entry sl)) < nat (bl_qty sl) then None
      else map_option (\<lambda>bs. (BSTR_OK, bs)) (destroy_loop (take (nat (bl_qty sl)) (the (bl_entry sl)))))"

definition list_broken :: "bstrList \<Rightarrow> bool" where
  "list_broken sl \<longleftrightarrow> bl_entry sl = None \<or> bl_qty sl < 0 \<or> bl_mlen sl \<le> 0 \<or> bl_qty sl > bl_mlen sl"

definition resize_list :: "bstrList \<Rightarrow> int \<Rightarrow> bstrList" where
  "resize_list sl n = sl\<lparr>bl_mlen := n,
     bl_entry := Some (take (nat n) (the (bl_entry sl)) @ replicate (nat n - length (the (bl_entry sl))) None)\<rparr>"

text \<open>The size in bytes of an array of pointers has 64 bits.\<close>

definition array_wraps :: "int \<Rightarrow> bool" where
  "array_wraps n \<longleftrightarrow> (word_of_int n :: u64) * 8 < word_of_int n"

definition bstrListAlloc :: "bool \<Rightarrow> bool \<Rightarrow> bstrList \<Rightarrow> int \<Rightarrow> int \<times> bstrList" where
  "bstrListAlloc ok1 ok2 sl msz =
     (if msz \<le> 0 \<or> list_broken sl then (BSTR_ERR, sl)
      else if bl_mlen sl \<ge> msz then (BSTR_OK, sl)
      else let smsz = snapUpSize msz in
      if array_wraps smsz then (BSTR_ERR, sl)
      else if ok1 then (BSTR_OK, resize_list sl smsz)
      else if ok2 then (BSTR_OK, resize_list sl msz) else (BSTR_ERR, sl))"

definition bstrListAllocMin :: "bool \<Rightarrow> bstrList \<Rightarrow> int \<Rightarrow> int \<times> bstrList" where
  "bstrListAllocMin ok sl msz =
     (if msz \<le> 0 \<or> list_broken sl then (BSTR_ERR, sl)
      else let msz = (if msz < bl_qty sl then bl_qty sl else msz) in
      if bl_mlen sl = msz then (BSTR_OK, sl)
      else if array_wraps msz \<or> \<not> ok then (BSTR_ERR, sl)
      else (BSTR_OK, resize_list sl msz))"

section \<open>Splitting with a callback\<close>

type_synonym 's split_cb = "'s \<Rightarrow> int \<Rightarrow> int \<Rightarrow> (int \<times> 's) option"

definition chars :: "bstr \<Rightarrow> byte list option" where
  "chars b = (case bs_data b of None \<Rightarrow> if bs_slen b = 0 then Some [] else None | Some d \<Rightarrow> read_block d 0 (nat (bs_slen b)))"

text \<open>The loop of \<open>bsplitcb\<close> and \<open>bsplitscb\<close>, for the bytes that satisfy \<open>P\<close>.\<close>

function split_loop :: "(byte \<Rightarrow> bool) \<Rightarrow> 's split_cb \<Rightarrow> byte list \<Rightarrow> nat \<Rightarrow> 's \<Rightarrow> (int \<times> 's) option" where
  "split_loop P cb xs p s =
     (let i = p + length (takeWhile (\<lambda>c. \<not> P c) (drop p xs)) in
      case cb s (int p) (int i - int p) of None \<Rightarrow> None
      | Some (ret, s') \<Rightarrow>
        if ret < 0 then Some (ret, s')
        else if i + 1 \<le> length xs then split_loop P cb xs (i + 1) s' else Some (BSTR_OK, s'))"
  by pat_completeness auto
termination
  by (relation "measure (\<lambda>(P, cb, xs, p, s). Suc (length xs) - p)") auto

declare split_loop.simps [simp del]

definition bsplitcb :: "bstr \<Rightarrow> byte \<Rightarrow> int \<Rightarrow> 's split_cb \<Rightarrow> 's \<Rightarrow> (int \<times> 's) option" where
  "bsplitcb str splitChar pos cb s =
     (if pos < 0 \<or> pos > bs_slen str then Some (BSTR_ERR, s)
      else chars str \<bind> (\<lambda>xs. split_loop (\<lambda>c. c = splitChar) cb xs (nat pos) s))"

definition bsplitscb :: "bstr \<Rightarrow> bstr \<Rightarrow> int \<Rightarrow> 's split_cb \<Rightarrow> 's \<Rightarrow> (int \<times> 's) option" where
  "bsplitscb str splitStr pos cb s =
     (if pos < 0 \<or> pos > bs_slen str \<or> bs_slen splitStr < 0 then Some (BSTR_ERR, s)
      else if bs_slen splitStr = 0 then
        map_option (\<lambda>(ret, s'). (if ret > 0 then 0 else ret, s')) (cb s 0 (bs_slen str))
      else chars splitStr \<bind> (\<lambda>ys.
        if bs_slen splitStr = 1 then bsplitcb str (hd ys) pos cb s
        else chars str \<bind> (\<lambda>xs. split_loop (testInCharField (the (buildCharField ys))) cb xs (nat pos) s)))"

text \<open>The loop of \<open>bsplitstrcb\<close>, with the start \<open>p\<close> of the piece and the position \<open>i\<close> of the search.\<close>

function splitstr_loop :: "byte list \<Rightarrow> 's split_cb \<Rightarrow> byte list \<Rightarrow> nat \<Rightarrow> nat \<Rightarrow> 's \<Rightarrow> (int \<times> 's) option" where
  "splitstr_loop q cb xs i p s =
     (if i + length q \<le> length xs then
        (if take (length q) (drop i xs) = q then
           (case cb s (int p) (int i - int p) of None \<Rightarrow> None
            | Some (ret, s') \<Rightarrow>
              if ret < 0 then Some (ret, s') else splitstr_loop q cb xs (i + length q + 1) (i + length q) s')
         else splitstr_loop q cb xs (i + 1) p s)
      else map_option (\<lambda>(ret, s'). (if ret < 0 then ret else BSTR_OK, s')) (cb s (int p) (int (length xs) - int p)))"
  by pat_completeness auto
termination
  by (relation "measure (\<lambda>(q, cb, xs, i, p, s). Suc (length xs) - i)") auto

declare splitstr_loop.simps [simp del]

text \<open>For an empty separator the callback gets every character.\<close>

fun each_char :: "'s split_cb \<Rightarrow> nat \<Rightarrow> nat \<Rightarrow> 's \<Rightarrow> (int \<times> 's) option" where
  "each_char cb 0 i s = Some (BSTR_OK, s)"
| "each_char cb (Suc k) i s =
     (case cb s (int i) 1 of None \<Rightarrow> None
      | Some (ret, s') \<Rightarrow> if ret < 0 then Some (ret, s') else each_char cb k (Suc i) s')"

definition bsplitstrcb :: "bstr \<Rightarrow> bstr \<Rightarrow> int \<Rightarrow> 's split_cb \<Rightarrow> 's \<Rightarrow> (int \<times> 's) option" where
  "bsplitstrcb str splitStr pos cb s =
     (if pos < 0 \<or> pos > bs_slen str \<or> bs_slen splitStr < 0 then Some (BSTR_ERR, s)
      else if bs_slen splitStr = 0 then each_char cb (nat (bs_slen str - pos)) (nat pos) s
      else chars splitStr \<bind> (\<lambda>q.
        if bs_slen splitStr = 1 then bsplitcb str (hd q) pos cb s
        else chars str \<bind> (\<lambda>xs. splitstr_loop q cb xs (nat pos) (nat pos) s)))"

section \<open>Splitting into a list\<close>

text \<open>The callback that appends to a list. \<open>mem\<close> has the answers of the allocator for every entry.\<close>

partial_function (option) double_until :: "int \<Rightarrow> int \<Rightarrow> int \<Rightarrow> int option option" where
  "double_until qty mlen0 mlen =
     (if qty \<ge> mlen then (if mlen < mlen0 then Some None else double_until qty mlen0 (c_int (mlen + mlen)))
      else Some (Some mlen))"

definition bscb_room :: "bool \<Rightarrow> bstrList \<Rightarrow> (int \<times> bstrList) option" where
  "bscb_room ok sl =
     (if bl_qty sl \<ge> bl_mlen sl then
        (case double_until (bl_qty sl) (bl_mlen sl) (c_int (bl_mlen sl * 2)) of None \<Rightarrow> None
         | Some None \<Rightarrow> Some (BSTR_ERR, sl)
         | Some (Some mlen) \<Rightarrow> Some (if ok then (BSTR_OK, resize_list sl mlen) else (BSTR_ERR, sl)))
      else Some (BSTR_OK, sl))"

definition bscb :: "(nat \<Rightarrow> bool \<times> bmem) \<Rightarrow> bstr \<Rightarrow> bstrList split_cb" where
  "bscb mem b sl ofs len =
     (let (ok, m) = mem (nat (bl_qty sl)) in
      case bscb_room ok sl of None \<Rightarrow> None
      | Some (rc, sl') \<Rightarrow>
        if rc \<noteq> BSTR_OK then Some (rc, sl')
        else bmidstr m b ofs len \<bind> (\<lambda>e.
          if nat (bl_qty sl') < length (the (bl_entry sl'))
          then Some (BSTR_OK, sl'\<lparr>bl_entry := Some ((the (bl_entry sl'))[nat (bl_qty sl') := Some e]), bl_qty := bl_qty sl' + 1\<rparr>)
          else None))"

definition fresh_list :: bstrList where
  "fresh_list = \<lparr>bl_qty = 0, bl_mlen = 4, bl_entry = Some (replicate 4 None)\<rparr>"

text \<open>What \<open>bsplit\<close>, \<open>bsplits\<close> and \<open>bsplitstr\<close> have in common: the list, the split, and its destruction after an error.\<close>

definition split_into :: "bool \<Rightarrow> bool \<Rightarrow> (bstrList \<Rightarrow> (int \<times> bstrList) option) \<Rightarrow> bstrList option option" where
  "split_into ok1 ok2 run =
     (if \<not> ok1 \<or> \<not> ok2 then Some None
      else run fresh_list \<bind> (\<lambda>(rc, sl).
        if rc < 0 then bstrListDestroy sl \<bind> (\<lambda>_. Some None) else Some (Some sl)))"

definition bsplit :: "bool \<Rightarrow> bool \<Rightarrow> (nat \<Rightarrow> bool \<times> bmem) \<Rightarrow> bstr \<Rightarrow> byte \<Rightarrow> bstrList option option" where
  "bsplit ok1 ok2 mem str splitChar =
     (if no_string str then Some None else split_into ok1 ok2 (bsplitcb str splitChar 0 (bscb mem str)))"

definition bsplitstr :: "bool \<Rightarrow> bool \<Rightarrow> (nat \<Rightarrow> bool \<times> bmem) \<Rightarrow> bstr \<Rightarrow> bstr \<Rightarrow> bstrList option option" where
  "bsplitstr ok1 ok2 mem str splitStr =
     (if no_string str then Some None else split_into ok1 ok2 (bsplitstrcb str splitStr 0 (bscb mem str)))"

definition bsplits :: "bool \<Rightarrow> bool \<Rightarrow> (nat \<Rightarrow> bool \<times> bmem) \<Rightarrow> bstr \<Rightarrow> bstr \<Rightarrow> bstrList option option" where
  "bsplits ok1 ok2 mem str splitStr =
     (if no_string str \<or> no_string splitStr then Some None
      else split_into ok1 ok2 (bsplitscb str splitStr 0 (bscb mem str)))"

section \<open>Joining\<close>

text \<open>The entries that the code reads: an unwritten cell or a null pointer is a fault.\<close>

fun entries :: "bstr option option list \<Rightarrow> bstr list option" where
  "entries [] = Some []"
| "entries (Some (Some b) # cs) = map_option (\<lambda>bs. b # bs) (entries cs)"
| "entries (_ # cs) = None"

fun join_size :: "bstr list \<Rightarrow> int \<Rightarrow> int option" where
  "join_size [] c = Some c"
| "join_size (b # bs) c =
     (if bs_slen b < 0 then None else let c' = c_int (c + bs_slen b) in if c' < 0 then None else join_size bs c')"

definition copy_piece :: "block \<Rightarrow> int \<Rightarrow> bstr \<Rightarrow> (block \<times> int) option" where
  "copy_piece d c b = (if bs_slen b = 0 then Some (d, c)
     else chars b \<bind> (\<lambda>xs. map_option (\<lambda>d'. (d', c + bs_slen b)) (memcpy_at d (nat c) xs)))"

fun join_loop :: "bstr option \<Rightarrow> bstr list \<Rightarrow> bool \<Rightarrow> block \<Rightarrow> int \<Rightarrow> (block \<times> int) option" where
  "join_loop sep [] first d c = Some (d, c)"
| "join_loop sep (b # bs) first d c =
     (if first \<or> sep = None then Some (d, c) else copy_piece d c (the sep)) \<bind> (\<lambda>(d1, c1).
       copy_piece d1 c1 b \<bind> (\<lambda>(d2, c2). join_loop sep bs False d2 c2))"

definition bjoin :: "bool \<Rightarrow> bool \<Rightarrow> bstrList \<Rightarrow> bstr option \<Rightarrow> bstr option option" where
  "bjoin ok1 ok2 bl sep =
     (if bl_qty bl < 0 \<or> (\<exists>s. sep = Some s \<and> no_string s) then Some None
      else if length (the (bl_entry bl)) < nat (bl_qty bl) then None
      else entries (take (nat (bl_qty bl)) (the (bl_entry bl))) \<bind> (\<lambda>bs.
        case join_size bs 1 of None \<Rightarrow> Some None
        | Some c0 \<Rightarrow>
          let c = (case sep of None \<Rightarrow> c0 | Some s \<Rightarrow> c_int (c0 + (bl_qty bl - 1) * bs_slen s)) in
          if \<not> ok1 \<or> \<not> ok2 \<or> c < 0 then Some None
          else join_loop sep bs True (malloc_block (nat c)) 0 \<bind> (\<lambda>(d, e).
            map_option (\<lambda>d'. Some \<lparr>bs_mlen = c, bs_slen = c - 1, bs_data = Some d'\<rparr>) (poke d e 0))))"

end
