(* ===== verification/Bstr_Split.thy ===== *)
theory Bstr_Split
  imports Bstr_List
begin

text \<open>
  What the splitting functions of \<open>lcthw/bstrlib.c\<close> deliver, for every callback that takes the pieces one
  after the other (\<open>split_callback\<close>); \<open>bscb\<close>, which collects them in a list, is one. Splitting at a
  character gives the fields between its occurrences; splitting at a string gives pieces that joined
  with the string are the text again, but not always the smallest ones.
\<close>

section \<open>Fields\<close>

fun fields_at :: "('a \<Rightarrow> bool) \<Rightarrow> 'a list \<Rightarrow> 'a list list" where
  "fields_at P [] = [[]]"
| "fields_at P (x # t) = (if P x then [] # fields_at P t else (x # hd (fields_at P t)) # tl (fields_at P t))"

lemma fields_nonempty [simp]: "fields_at P t \<noteq> []"
  by (cases t) auto

lemma fields_takeWhile:
  "fields_at P t = (let w = takeWhile (\<lambda>c. \<not> P c) t in
     if length w < length t then w # fields_at P (drop (Suc (length w)) t) else [t])"
  by (induction t) (auto simp: Let_def)

lemma splits_fields: "splits (=) [c] t = fields_at (\<lambda>x. x = c) t"
proof (induction t)
  case (Cons x t)
  show ?case by (cases "fields_at (\<lambda>x. x = c) t") (use Cons in \<open>auto simp: splits.simps [of _ _ "x # t"]\<close>)
qed (simp add: splits.simps)

lemma fields_member_none: "fields_at (\<lambda>x. x \<in> set []) t = [t]"
  by (induction t) auto

lemma join_cons: "zs \<noteq> [] \<Longrightarrow> join q (x # zs) = x @ q @ join q zs"
  by (cases zs) auto

text \<open>No occurrence directly follows another.\<close>

definition apart :: "'a list \<Rightarrow> 'a list \<Rightarrow> bool" where
  "apart q t \<longleftrightarrow> (\<forall>m. hit (=) q t m \<longrightarrow> \<not> hit (=) q t (m + length q))"

lemma hit_drop: "p \<le> length t \<Longrightarrow> hit eq q (drop p t) k \<longleftrightarrow> hit eq q t (p + k)"
  by (auto simp: hit_def add.commute)

text \<open>The first occurrence from \<open>p\<close> on is at \<open>i\<close>, or there is none.\<close>

lemma splits_first:
  assumes "p \<le> i" "hit (=) q t i" "\<And>m. p \<le> m \<Longrightarrow> m < i \<Longrightarrow> \<not> hit (=) q t m" "q \<noteq> []"
  shows "splits (=) q (drop p t) = take (i - p) (drop p t) # splits (=) q (drop (i + length q) t)"
proof -
  have "p \<le> length t" using assms(1,2) by (simp add: hit_def)
  then have "hit (=) q (drop p t) (i - p)" "\<And>k. k < i - p \<Longrightarrow> \<not> hit (=) q (drop p t) k" using assms by (auto simp: hit_drop)
  from splits_hit [OF this assms(4)] show ?thesis using assms(1) by (simp add: add.commute add.left_commute)
qed

lemma splits_rest:
  assumes "p \<le> length t" "length t < i + length q" "\<And>m. p \<le> m \<Longrightarrow> m < i \<Longrightarrow> \<not> hit (=) q t m" "q \<noteq> []"
  shows "splits (=) q (drop p t) = [drop p t]"
proof (rule splits_none)
  show "\<not> hit (=) q (drop p t) k" for k using assms by (cases "p + k < i") (auto simp: hit_drop, auto simp: hit_def)
qed

lemma join_first:
  assumes "p \<le> i" "hit (=) q t i"
  shows "take (i - p) (drop p t) @ q @ drop (i + length q) t = drop p t"
proof -
  have d: "drop i t = drop (i - p) (drop p t)" using assms(1) by simp
  have "take (length q) (drop i t) = q" using assms(2) by (simp add: hit_def)
  then have "q @ drop (i + length q) t = drop i t" using append_take_drop_id [of "length q" "drop i t"] by (simp add: add.commute)
  then show ?thesis by (simp only: d append_take_drop_id)
qed

section \<open>Any callback\<close>

locale split_callback =
  fixes cb :: "bstr \<Rightarrow> 's split_cb" and has :: "byte list list \<Rightarrow> 's \<Rightarrow> bool" and failed :: "'s \<Rightarrow> bool"
  assumes takes: "reads b xs \<Longrightarrow> length xs + 2 < 2 ^ 30 \<Longrightarrow> has pcs s \<Longrightarrow> length pcs \<le> length xs \<Longrightarrow> p + n \<le> length xs \<Longrightarrow>
    \<exists>r s'. cb b s (int p) (int n) = Some (r, s') \<and> (r = BSTR_OK \<and> has (pcs @ [take n (drop p xs)]) s' \<or> r < 0 \<and> failed s')"
begin

definition delivered :: "byte list list \<Rightarrow> (int \<times> 's) option \<Rightarrow> bool" where
  "delivered pcs res \<longleftrightarrow> (\<exists>r s. res = Some (r, s) \<and> (r = BSTR_OK \<and> has pcs s \<or> r < 0 \<and> failed s))"

lemma takes_cases:
  assumes "reads b xs" "length xs + 2 < 2 ^ 30" "has pcs s" "length pcs \<le> p" "p + n \<le> length xs"
  obtains (ok) s' where "cb b s (int p) (int n) = Some (BSTR_OK, s')" "has (pcs @ [take n (drop p xs)]) s'"
    | (err) r s' where "cb b s (int p) (int n) = Some (r, s')" "r < 0" "failed s'"
proof -
  have "length pcs \<le> length xs" using assms(4,5) by simp
  from takes [OF assms(1-3) this assms(5)] show thesis
  proof (elim exE conjE disjE)
    fix r s'
    assume "cb b s (int p) (int n) = Some (r, s')" "r = BSTR_OK" "has (pcs @ [take n (drop p xs)]) s'"
    then show thesis by (intro ok [of s']) simp_all
  next
    fix r s'
    assume "cb b s (int p) (int n) = Some (r, s')" "r < 0" "failed s'"
    then show thesis by (rule err)
  qed
qed

lemma split_loop_delivers:
  "reads b xs \<Longrightarrow> length xs + 2 < 2 ^ 30 \<Longrightarrow> has pcs s \<Longrightarrow> length pcs \<le> p \<Longrightarrow> p \<le> length xs \<Longrightarrow>
   delivered (pcs @ fields_at P (drop p xs)) (split_loop P (cb b) xs p s)"
proof (induction P "cb b" xs p s arbitrary: pcs rule: split_loop.induct)
  case (1 P xs p s)
  define w where "w = takeWhile (\<lambda>c. \<not> P c) (drop p xs)"
  let ?i = "p + length w"
  have w: "length w \<le> length xs - p" unfolding w_def by (metis length_takeWhile_le length_drop)
  have tw: "take (length w) (drop p xs) = w" unfolding w_def by (rule takeWhile_eq_take [symmetric])
  have f: "fields_at P (drop p xs) = (if ?i < length xs then w # fields_at P (drop (Suc ?i) xs) else [w])"
  proof (cases "?i < length xs")
    case False
    then have "length w = length (drop p xs)" using w by simp
    then have "w = drop p xs" using tw by simp
    then show ?thesis using False fields_takeWhile [of P "drop p xs"] w by (simp add: w_def [symmetric] Let_def)
  qed (use fields_takeWhile [of P "drop p xs"] in \<open>simp add: w_def [symmetric] Let_def add.commute\<close>)
  have u: "split_loop P (cb b) xs p s = (case cb b s (int p) (int (length w)) of None \<Rightarrow> None
      | Some (ret, s') \<Rightarrow> if ret < 0 then Some (ret, s') else if ?i + 1 \<le> length xs then split_loop P (cb b) xs (?i + 1) s' else Some (BSTR_OK, s'))"
    by (subst split_loop.simps) (simp add: w_def [symmetric] Let_def)
  have fit: "p + length w \<le> length xs" using w "1.prems"(5) by simp
  show ?case
  proof (cases rule: takes_cases [OF "1.prems"(1-4) fit, case_names ok err])
    case (ok s')
    show ?thesis
    proof (cases "?i + 1 \<le> length xs")
      case True
      have "delivered ((pcs @ [w]) @ fields_at P (drop (?i + 1) xs)) (split_loop P (cb b) xs (?i + 1) s')"
        using ok True "1.prems" tw by (intro "1.hyps" [of _ "(BSTR_OK, s')" BSTR_OK s']) (auto simp: w_def BSTR_OK_def)
      then show ?thesis using u ok(1) f True by (simp add: BSTR_OK_def)
    next
      case False
      then show ?thesis using u ok f tw by (simp add: BSTR_OK_def delivered_def)
    qed
  next
    case (err r s')
    then show ?thesis using u by (simp add: delivered_def)
  qed
qed

lemma bsplitcb_delivers:
  assumes "reads b xs" "length xs + 2 < 2 ^ 30" "has [] s"
  shows "delivered (fields_at (\<lambda>x. x = c) xs) (bsplitcb b c 0 (cb b) s)"
proof -
  have "chars b = Some xs" using assms(1) by (auto simp: chars_def reads_def)
  then show ?thesis using split_loop_delivers [OF assms, of 0 "\<lambda>x. x = c"] reads_str [OF assms(1)] by (simp add: bsplitcb_def)
qed

lemma bsplitscb_delivers:
  assumes "reads b xs" "length xs + 2 < 2 ^ 30" "has [] s" and v: "reads v ys"
  shows "delivered (fields_at (\<lambda>x. x \<in> set ys) xs) (bsplitscb b v 0 (cb b) s)"
proof -
  have ch: "chars b = Some xs" "chars v = Some ys" using assms(1) v by (auto simp: chars_def reads_def)
  note l = reads_str [OF assms(1)] reads_str [OF v]
  consider "ys = []" | y where "ys = [y]" | "2 \<le> length ys" by (cases ys; cases "tl ys") auto
  then show ?thesis
  proof cases
    case 1
    show ?thesis using 1 l fields_member_none [of xs]
      by (cases rule: takes_cases [OF assms(1-3), of 0 "length xs"]) (auto simp: bsplitscb_def delivered_def BSTR_OK_def)
  next
    case 2
    then show ?thesis using bsplitcb_delivers [OF assms(1-3), of "hd ys"] ch l by (simp add: bsplitscb_def)
  next
    case 3
    then obtain cf where cf: "buildCharField ys = Some cf" by (cases ys) (auto simp: buildCharField_def)
    have "testInCharField cf = (\<lambda>x. x \<in> set ys)" using charField_exact(1) [OF cf] by blast
    then show ?thesis using split_loop_delivers [OF assms(1-3), of 0 "\<lambda>x. x \<in> set ys"] 3 ch l cf by (auto simp: bsplitscb_def)
  qed
qed

lemma each_char_delivers:
  "reads b xs \<Longrightarrow> length xs + 2 < 2 ^ 30 \<Longrightarrow> has pcs s \<Longrightarrow> length pcs \<le> i \<Longrightarrow> i + k = length xs \<Longrightarrow>
   delivered (pcs @ map (\<lambda>x. [x]) (drop i xs)) (each_char (cb b) k i s)"
proof (induction k arbitrary: i pcs s)
  case 0
  then show ?case by (simp add: delivered_def)
next
  case (Suc k)
  then have i: "i + 1 \<le> length xs" "i < length xs" by simp_all
  have d: "drop i xs = xs ! i # drop (Suc i) xs" using i(2) by (simp add: Cons_nth_drop_Suc)
  show ?case
  proof (cases rule: takes_cases [OF Suc.prems(1-4) i(1), case_names ok err])
    case (ok s')
    then have "delivered ((pcs @ [take 1 (drop i xs)]) @ map (\<lambda>x. [x]) (drop (Suc i) xs)) (each_char (cb b) k (Suc i) s')"
      using Suc.prems by (intro Suc.IH) auto
    then show ?thesis using ok(1) d by (simp add: BSTR_OK_def)
  next
    case (err r s')
    then show ?thesis by (simp add: delivered_def)
  qed
qed

text \<open>
  Splitting at a string. \<open>p\<close> is where the piece starts and \<open>i\<close> where the search is; the search never looks at
  the place directly behind a separator.
\<close>

lemma splitstr_loop_delivers:
  "reads b xs \<Longrightarrow> length xs + 2 < 2 ^ 30 \<Longrightarrow> q \<noteq> [] \<Longrightarrow> has pcs s \<Longrightarrow> length pcs \<le> p \<Longrightarrow> p \<le> i \<Longrightarrow> p \<le> length xs \<Longrightarrow>
    \<exists>zs. delivered (pcs @ zs) (splitstr_loop q (cb b) xs i p s) \<and> zs \<noteq> [] \<and> join q zs = drop p xs
      \<and> (apart q xs \<longrightarrow> (\<forall>m. p \<le> m \<and> m < i \<longrightarrow> \<not> hit (=) q xs m) \<longrightarrow> zs = splits (=) q (drop p xs))"
proof (induction q "cb b" xs i p s arbitrary: pcs rule: splitstr_loop.induct)
  case (1 q xs i p s)
  note prems = "1.prems"
  have fails: "\<exists>zs. delivered (pcs @ zs) (Some (r, s')) \<and> zs \<noteq> [] \<and> join q zs = drop p xs
      \<and> (apart q xs \<longrightarrow> (\<forall>m. p \<le> m \<and> m < i \<longrightarrow> \<not> hit (=) q xs m) \<longrightarrow> zs = splits (=) q (drop p xs))"
    if "r < 0" "failed s'" for r s'
    using that join_splits [OF prems(3)] laid_out_length [OF splits_laid_out [OF prems(3)]]
    by (intro exI [of _ "splits (=) q (drop p xs)"]) (auto simp: delivered_def)
  show ?case
  proof (cases "i + length q \<le> length xs")
    case in_range: True
    show ?thesis
    proof (cases "take (length q) (drop i xs) = q")
      case True
      then have h: "hit (=) q xs i" using in_range by (simp add: hit_def)
      have n: "int i - int p = int (i - p)" "p + (i - p) \<le> length xs" using prems(6) in_range by auto
      let ?w = "take (i - p) (drop p xs)" and ?j = "i + length q"
      show ?thesis
      proof (cases rule: takes_cases [OF prems(1,2,4,5) n(2), case_names ok err])
        case (ok s')
        have c: "cb b s (int p) (int i - int p) = Some (BSTR_OK, s')" "\<not> BSTR_OK < 0" using ok(1) unfolding n(1) by (simp_all add: BSTR_OK_def)
        have "length (pcs @ [?w]) \<le> ?j" "?j \<le> ?j + 1" using prems(3,5,6) by (cases q; simp)+
        note "1.hyps"(1) [OF in_range True c(1) refl c(2) prems(1-3) ok(2) this in_range]
        then obtain zs where zs: "delivered ((pcs @ [?w]) @ zs) (splitstr_loop q (cb b) xs (?j + 1) ?j s')" "zs \<noteq> []" "join q zs = drop ?j xs"
          "apart q xs \<Longrightarrow> \<not> hit (=) q xs ?j \<Longrightarrow> zs = splits (=) q (drop ?j xs)" by (elim exE conjE) (auto simp: less_Suc_eq_le dest: le_antisym)
        have "splitstr_loop q (cb b) xs i p s = splitstr_loop q (cb b) xs (?j + 1) ?j s'"
          using in_range True c by (subst splitstr_loop.simps) simp
        moreover have "join q (?w # zs) = drop p xs" using join_cons [OF zs(2)] zs(3) join_first [OF prems(6) h] by simp
        moreover have "?w # zs = splits (=) q (drop p xs)" if "apart q xs" "\<forall>m. p \<le> m \<and> m < i \<longrightarrow> \<not> hit (=) q xs m"
          using splits_first [OF prems(6) h _ prems(3)] that zs(4) h by (auto simp: apart_def)
        ultimately show ?thesis using zs(1) by (intro exI [of _ "?w # zs"]) simp
      next
        case (err r s')
        then have "splitstr_loop q (cb b) xs i p s = Some (r, s')" using in_range True unfolding n(1) [symmetric] by (subst splitstr_loop.simps) simp
        then show ?thesis using fails [of r s'] err by simp
      qed
    next
      case False
      then have "\<not> hit (=) q xs i" by (auto simp: hit_def)
      then have ext: "(\<forall>m. p \<le> m \<and> m < i + 1 \<longrightarrow> \<not> hit (=) q xs m) \<longleftrightarrow> (\<forall>m. p \<le> m \<and> m < i \<longrightarrow> \<not> hit (=) q xs m)"
        by (auto simp: less_Suc_eq)
      have "splitstr_loop q (cb b) xs i p s = splitstr_loop q (cb b) xs (i + 1) p s"
        using in_range False by (subst splitstr_loop.simps) simp
      moreover have "p \<le> i + 1" using prems(6) by simp
      ultimately show ?thesis using "1.hyps"(2) [OF in_range False prems(1-5) _ prems(7)] unfolding ext by simp
    qed
  next
    case False
    have n: "int (length xs) - int p = int (length xs - p)" "p + (length xs - p) \<le> length xs" using prems(7) by auto
    have u: "splitstr_loop q (cb b) xs i p s = map_option (\<lambda>(ret, s'). (if ret < 0 then ret else BSTR_OK, s')) (cb b s (int p) (int (length xs - p)))"
      unfolding n(1) [symmetric] using False by (subst splitstr_loop.simps) simp
    show ?thesis
    proof (cases rule: takes_cases [OF prems(1,2,4,5) n(2), case_names ok err])
      case (ok s')
      moreover have "[drop p xs] = splits (=) q (drop p xs)" if "\<forall>m. p \<le> m \<and> m < i \<longrightarrow> \<not> hit (=) q xs m"
        using splits_rest [of p xs i q] that False prems(3,7) by simp
      ultimately show ?thesis unfolding u by (intro exI [of _ "[drop p xs]"]) (simp add: delivered_def BSTR_OK_def)
    next
      case (err r s')
      then show ?thesis using fails [of r s'] unfolding u by simp
    qed
  qed
qed

lemma bsplitstrcb_delivers:
  assumes "reads b xs" "length xs + 2 < 2 ^ 30" "has [] s" and v: "reads v q"
  shows "\<exists>zs. delivered zs (bsplitstrcb b v 0 (cb b) s) \<and> join q zs = xs \<and> (zs \<noteq> [] \<or> q = [])
    \<and> (q \<noteq> [] \<and> (length q = 1 \<or> apart q xs) \<longrightarrow> zs = splits (=) q xs)"
proof -
  have ch: "chars b = Some xs" "chars v = Some q" using assms(1) v by (auto simp: chars_def reads_def)
  note l = reads_str [OF assms(1)] reads_str [OF v]
  consider "q = []" | c where "q = [c]" | "2 \<le> length q" by (cases q; cases "tl q") auto
  then show ?thesis
  proof cases
    case 1
    have "join [] (map (\<lambda>x. [x]) xs) = xs" by (cases xs) (simp_all add: comp_def)
    then show ?thesis using each_char_delivers [OF assms(1-3), of 0 "length xs"] 1 l
      by (intro exI [of _ "map (\<lambda>x. [x]) xs"]) (simp add: bsplitstrcb_def)
  next
    case 2
    then have "bsplitstrcb b v 0 (cb b) s = bsplitcb b c 0 (cb b) s" using ch l by (simp add: bsplitstrcb_def)
    then show ?thesis using bsplitcb_delivers [OF assms(1-3), of c] join_splits [of "[c]" xs] 2
      by (intro exI [of _ "fields_at (\<lambda>x. x = c) xs"]) (simp add: splits_fields)
  next
    case 3
    then have q: "q \<noteq> []" "length q \<noteq> 1" by auto
    have "bsplitstrcb b v 0 (cb b) s = splitstr_loop q (cb b) xs 0 0 s" using ch l 3 by (auto simp: bsplitstrcb_def)
    then show ?thesis using splitstr_loop_delivers [OF assms(1,2) q(1) assms(3), of 0 0] q(2) by auto
  qed
qed

end

section \<open>The list as callback\<close>

text \<open>The list has the pieces; the entry of a piece for which there was no memory is a null pointer.\<close>

definition entry_mem :: "(nat \<Rightarrow> bool \<times> bmem) \<Rightarrow> nat \<Rightarrow> bool" where
  "entry_mem mem k \<longleftrightarrow> m_hdr (snd (mem k)) \<and> m_snap (snd (mem k))"

definition entry_is :: "bool \<Rightarrow> byte list \<Rightarrow> bstr option option \<Rightarrow> bool" where
  "entry_is avail xs c = (case c of None \<Rightarrow> False | Some None \<Rightarrow> \<not> avail | Some (Some b) \<Rightarrow> holds b xs)"

definition list_has :: "(nat \<Rightarrow> bool \<times> bmem) \<Rightarrow> byte list list \<Rightarrow> bstrList \<Rightarrow> bool" where
  "list_has mem pcs sl \<longleftrightarrow> (\<exists>cells rest. bl_entry sl = Some (cells @ rest) \<and> bl_qty sl = int (length pcs) \<and> length cells = length pcs
     \<and> bl_mlen sl = int (length cells + length rest) \<and> length rest \<le> length pcs + 4 \<and> 0 < bl_mlen sl
     \<and> (\<forall>k < length pcs. entry_is (entry_mem mem k) (pcs ! k) (cells ! k)))"

lemma bscb_room_lists:
  assumes "list_has mem pcs sl" "length pcs < 2 ^ 30"
  shows "(\<exists>sl'. bscb_room ok sl = Some (BSTR_OK, sl') \<and> list_has mem pcs sl' \<and> bl_qty sl' < bl_mlen sl')
    \<or> bscb_room ok sl = Some (BSTR_ERR, sl) \<and> \<not> ok"
proof -
  obtain cells rest where l: "bl_entry sl = Some (cells @ rest)" "bl_qty sl = int (length pcs)" "length cells = length pcs"
    "bl_mlen sl = int (length cells + length rest)" "length rest \<le> length pcs + 4" "0 < bl_mlen sl"
    "\<forall>k < length pcs. entry_is (entry_mem mem k) (pcs ! k) (cells ! k)" using assms(1) by (auto simp: list_has_def)
  show ?thesis
  proof (cases "rest = []")
    case True
    have c: "c_int (bl_mlen sl * 2) = bl_mlen sl * 2" using True l assms(2) by (intro c_int_range) auto
    have "double_until (bl_qty sl) (bl_mlen sl) (bl_mlen sl * 2) = Some (Some (bl_mlen sl * 2))"
      using l True by (subst double_until.simps) simp
    moreover have "list_has mem pcs (resize_list sl (bl_mlen sl * 2))"
      using l True unfolding list_has_def
      by (intro exI [of _ cells] exI [of _ "replicate (length cells) None"]) (auto simp: resize_list_def)
    ultimately show ?thesis using l True c by (auto simp: bscb_room_def resize_list_def)
  next
    case False
    then show ?thesis using l assms(1) by (cases rest) (auto simp: bscb_room_def)
  qed
qed

lemma lists_add:
  assumes "list_has mem pcs sl" "bl_qty sl < bl_mlen sl" "entry_is (entry_mem mem (length pcs)) x (Some e)"
  shows "nat (bl_qty sl) < length (the (bl_entry sl))
    \<and> list_has mem (pcs @ [x]) (sl\<lparr>bl_entry := Some ((the (bl_entry sl))[nat (bl_qty sl) := Some e]), bl_qty := bl_qty sl + 1\<rparr>)"
proof -
  obtain cells rest where l: "bl_entry sl = Some (cells @ rest)" "bl_qty sl = int (length pcs)" "length cells = length pcs"
    "bl_mlen sl = int (length cells + length rest)" "length rest \<le> length pcs + 4" "0 < bl_mlen sl"
    "\<forall>k < length pcs. entry_is (entry_mem mem k) (pcs ! k) (cells ! k)" using assms(1) by (auto simp: list_has_def)
  then obtain c rest' where r: "rest = c # rest'" using assms(2) by (cases rest) auto
  have u: "(cells @ c # rest')[length pcs := Some e] = (cells @ [Some e]) @ rest'" using l(3) by (simp add: list_update_append)
  show ?thesis unfolding list_has_def using l r u assms(3)
    by (intro conjI exI [of _ "cells @ [Some e]"] exI [of _ rest']) (auto simp: nth_append less_Suc_eq)
qed

lemma bscb_takes:
  assumes "reads b xs" "length xs + 2 < 2 ^ 30" "list_has mem pcs sl" "length pcs \<le> length xs"
  shows "(\<exists>sl'. bscb mem b sl (int p) (int n) = Some (BSTR_OK, sl') \<and> list_has mem (pcs @ [take n (drop p xs)]) sl')
    \<or> bscb mem b sl (int p) (int n) = Some (BSTR_ERR, sl) \<and> \<not> fst (mem (length pcs))"
proof -
  have q: "nat (bl_qty sl) = length pcs" using assms(3) by (auto simp: list_has_def)
  obtain ok m where m: "mem (length pcs) = (ok, m)" by (cases "mem (length pcs)")
  have "length pcs < 2 ^ 30" using assms(2,4) by linarith
  from bscb_room_lists [OF assms(3) this, of ok] show ?thesis
  proof (elim disjE exE conjE)
    fix sl'
    assume s: "bscb_room ok sl = Some (BSTR_OK, sl')" "list_has mem pcs sl'" "bl_qty sl' < bl_mlen sl'"
    have "length xs + 2 < 2 ^ 31" using assms(2) by simp
    then obtain e where e: "bmidstr m b (int p) (int n) = Some e" "entry_is (entry_mem mem (length pcs)) (take n (drop p xs)) (Some e)"
      using bmidstr_spec [OF assms(1), of m p n] m by (auto simp: entry_is_def entry_mem_def)
    have "bscb mem b sl (int p) (int n) = Some (BSTR_OK, sl'\<lparr>bl_entry := Some ((the (bl_entry sl'))[nat (bl_qty sl') := Some e]), bl_qty := bl_qty sl' + 1\<rparr>)"
      using lists_add [OF s(2,3) e(2)] s(1) e(1) m by (simp add: bscb_def q)
    then show ?thesis using lists_add [OF s(2,3) e(2)] by simp
  next
    assume "bscb_room ok sl = Some (BSTR_ERR, sl)" "\<not> ok"
    then show ?thesis using m by (simp add: bscb_def q BSTR_ERR_def BSTR_OK_def)
  qed
qed

definition stopped :: "(nat \<Rightarrow> bool \<times> bmem) \<Rightarrow> bstrList \<Rightarrow> bool" where
  "stopped mem sl \<longleftrightarrow> (\<exists>pcs. list_has mem pcs sl \<and> \<not> fst (mem (length pcs)))"

interpretation into_list: split_callback "bscb mem" "list_has mem" "stopped mem" for mem
proof
  fix b sl and xs :: "byte list" and pcs and p n :: nat
  assume a: "reads b xs" "length xs + 2 < 2 ^ 30" "list_has mem pcs sl" "length pcs \<le> length xs"
  from bscb_takes [OF this, of p n] a(3)
  show "\<exists>r s'. bscb mem b sl (int p) (int n) = Some (r, s') \<and>
    (r = BSTR_OK \<and> list_has mem (pcs @ [take n (drop p xs)]) s' \<or> r < 0 \<and> stopped mem s')"
    by (auto simp: stopped_def BSTR_ERR_def)
qed

lemma fresh_lists: "list_has mem [] fresh_list"
  by (auto simp: list_has_def fresh_list_def intro!: exI [of _ "replicate 4 None"])

text \<open>After an error everything that was allocated is released.\<close>

definition strings :: "bstr option option list \<Rightarrow> bstr list" where
  "strings cs = concat (map (\<lambda>c. case c of Some (Some b) \<Rightarrow> [b] | _ \<Rightarrow> []) cs)"

lemma destroy_loop_all: "(\<And>c. c \<in> set cs \<Longrightarrow> \<exists>av xs. entry_is av xs c) \<Longrightarrow> destroy_loop cs = Some (strings cs)"
proof (induction cs rule: destroy_loop.induct)
  case (2 cs)
  from 2(1) [of None] show ?case by (simp add: entry_is_def)
next
  case (4 b cs)
  then obtain xs where "holds b xs" by (fastforce simp: entry_is_def)
  then have "bdestroy b = BSTR_OK" using holds_fields(2) by (simp add: bdestroy_def)
  then show ?case using 4 by (simp add: strings_def)
qed (simp_all add: strings_def)

lemma lists_destroyed:
  assumes "list_has mem pcs sl"
  shows "bstrListDestroy sl = Some (BSTR_OK, strings (take (length pcs) (the (bl_entry sl))))"
proof -
  obtain cells rest where l: "bl_entry sl = Some (cells @ rest)" "bl_qty sl = int (length pcs)" "length cells = length pcs"
    "\<forall>k < length pcs. entry_is (entry_mem mem k) (pcs ! k) (cells ! k)" using assms by (auto simp: list_has_def)
  have "destroy_loop cells = Some (strings cells)"
    by (rule destroy_loop_all) (use l(3,4) in \<open>auto simp: in_set_conv_nth\<close>)
  then show ?thesis using l by (simp add: bstrListDestroy_def)
qed

definition split_result :: "(nat \<Rightarrow> bool \<times> bmem) \<Rightarrow> bool \<Rightarrow> byte list list \<Rightarrow> bstrList option option \<Rightarrow> bool" where
  "split_result mem ok pcs res \<longleftrightarrow> (\<exists>sl. res = Some (Some sl) \<and> list_has mem pcs sl) \<or> res = Some None \<and> \<not> (ok \<and> (\<forall>k. fst (mem k)))"

lemma split_into_result:
  assumes "into_list.delivered mem pcs (run fresh_list)"
  shows "split_result mem (ok1 \<and> ok2) pcs (split_into ok1 ok2 run)"
proof -
  obtain r sl where r: "run fresh_list = Some (r, sl)" "r = BSTR_OK \<and> list_has mem pcs sl \<or> r < 0 \<and> stopped mem sl"
    using assms by (auto simp: into_list.delivered_def)
  from r(2) show ?thesis
  proof (elim disjE conjE)
    assume "r < 0" "stopped mem sl"
    then obtain ps where "list_has mem ps sl" "\<not> fst (mem (length ps))" by (auto simp: stopped_def)
    then show ?thesis using r(1) \<open>r < 0\<close> lists_destroyed by (auto simp: split_into_def split_result_def)
  qed (use r(1) in \<open>auto simp: split_into_def split_result_def BSTR_OK_def\<close>)
qed

lemma bsplit_fields:
  assumes "reads b xs" "length xs + 2 < 2 ^ 30"
  shows "split_result mem (ok1 \<and> ok2) (fields_at (\<lambda>x. x = c) xs) (bsplit ok1 ok2 mem b c)"
  using split_into_result [of mem _ "bsplitcb b c 0 (bscb mem b)"] into_list.bsplitcb_delivers [OF assms fresh_lists] reads_str [OF assms(1)]
  by (simp add: bsplit_def)

lemma bsplits_fields:
  assumes "reads b xs" "length xs + 2 < 2 ^ 30" "reads v ys"
  shows "split_result mem (ok1 \<and> ok2) (fields_at (\<lambda>x. x \<in> set ys) xs) (bsplits ok1 ok2 mem b v)"
  using split_into_result [of mem _ "bsplitscb b v 0 (bscb mem b)"] into_list.bsplitscb_delivers [OF assms(1,2) fresh_lists assms(3)]
    reads_str [OF assms(1)] reads_str [OF assms(3)]
  by (simp add: bsplits_def)

lemma bsplitstr_pieces:
  assumes "reads b xs" "length xs + 2 < 2 ^ 30" "reads v q"
  shows "\<exists>zs. split_result mem (ok1 \<and> ok2) zs (bsplitstr ok1 ok2 mem b v) \<and> join q zs = xs \<and> (zs \<noteq> [] \<or> q = [])
    \<and> (q \<noteq> [] \<and> (length q = 1 \<or> apart q xs) \<longrightarrow> zs = splits (=) q xs)"
  using into_list.bsplitstrcb_delivers [OF assms(1,2) fresh_lists assms(3), of mem] split_into_result [of mem] reads_str [OF assms(1)]
  by (fastforce simp: bsplitstr_def)

section \<open>Joining\<close>

lemma join_size_sum:
  "list_all2 holds bs pcs \<Longrightarrow> c + length (concat pcs) < 2 ^ 31 \<Longrightarrow> join_size bs (int c) = Some (int (c + length (concat pcs)))"
proof (induction bs pcs arbitrary: c rule: list_all2_induct)
  case (Cons b bs p pcs)
  have "c_int (int c + bs_slen b) = int (c + length p)" using Cons holds_fields(1) [OF Cons(1)] by (subst c_int_range) auto
  then show ?case using Cons.IH [of "c + length p"] Cons.prems holds_fields(1) [OF Cons(1)] by (simp add: add.assoc)
qed simp

lemma copy_piece_reads:
  assumes "reads b xs" "length xs \<le> length R"
  shows "copy_piece (map Some A @ R) (int (length A)) b = Some (map Some (A @ xs) @ drop (length xs) R, int (length (A @ xs)))"
proof -
  have "chars b = Some xs" using assms(1) by (auto simp: chars_def reads_def)
  then show ?thesis using reads_str [OF assms(1)] assms(2) by (auto simp: copy_piece_def memcpy_at_def)
qed

definition sep_is :: "bstr option \<Rightarrow> byte list \<Rightarrow> bool" where
  "sep_is sep q = (case sep of None \<Rightarrow> q = [] | Some s \<Rightarrow> reads s q)"

lemma join_loop_rest:
  "list_all2 holds bs pcs \<Longrightarrow> sep_is sep q \<Longrightarrow> zs = concat (map (\<lambda>y. q @ y) pcs) \<Longrightarrow> length zs \<le> length R \<Longrightarrow>
   join_loop sep bs False (map Some A @ R) (int (length A)) = Some (map Some (A @ zs) @ drop (length zs) R, int (length (A @ zs)))"
proof (induction bs pcs arbitrary: A R zs rule: list_all2_induct)
  case (Cons b bs p pcs)
  let ?zs = "concat (map (\<lambda>y. q @ y) pcs)" and ?R = "drop (length p) (drop (length q) R)"
  have len: "length q \<le> length R" "length p \<le> length (drop (length q) R)" "length ?zs \<le> length ?R"
    using Cons.prems(2,3) by auto
  have "(if sep = None then Some (map Some A @ R, int (length A)) else copy_piece (map Some A @ R) (int (length A)) (the sep))
      = Some (map Some (A @ q) @ drop (length q) R, int (length (A @ q)))"
    using copy_piece_reads [of "the sep" q R A] Cons.prems(1) len(1) by (auto simp: sep_is_def split: option.splits)
  moreover note copy_piece_reads [OF holds_reads [OF Cons(1)] len(2), of "A @ q"]
  moreover note Cons.IH [OF Cons.prems(1) refl len(3), of "(A @ q) @ p"]
  moreover have "drop (length ?zs) ?R = drop (length zs) R" "((A @ q) @ p) @ ?zs = A @ zs"
    using Cons.prems(2) by (simp_all add: ac_simps)
  ultimately show ?case by (simp only: join_loop.simps simp_thms split_conv bind.simps if_False)
qed simp

lemma join_loop_writes:
  assumes "list_all2 holds bs pcs" "sep_is sep q" "length (join q pcs) \<le> length R"
  shows "join_loop sep bs True R 0 = Some (map Some (join q pcs) @ drop (length (join q pcs)) R, int (length (join q pcs)))"
proof (cases bs)
  case Nil
  then show ?thesis using assms(1) by simp
next
  case (Cons b bs')
  then obtain p ps where p: "pcs = p # ps" "holds b p" "list_all2 holds bs' ps" using assms(1) by (auto simp: list_all2_Cons1)
  have "copy_piece R 0 b = Some (map Some p @ drop (length p) R, int (length p))"
    using copy_piece_reads [OF holds_reads [OF p(2)], of R "[]"] assms(3) p(1) by simp
  moreover note join_loop_rest [OF p(3) assms(2) refl, of "drop (length p) R" p]
  ultimately show ?thesis using Cons p(1) assms(3) by (simp add: add.commute)
qed

lemma entry_is_mem: "entry_is True x c \<longleftrightarrow> (\<exists>b. c = Some (Some b) \<and> holds b x)"
  by (auto simp: entry_is_def split: option.splits)

lemma lists_entries:
  assumes "list_has mem pcs sl" "\<And>k. k < length pcs \<Longrightarrow> entry_mem mem k"
  shows "\<exists>bs. entries (take (length pcs) (the (bl_entry sl))) = Some bs \<and> list_all2 holds bs pcs"
proof -
  obtain cells rest where l: "bl_entry sl = Some (cells @ rest)" "length cells = length pcs"
    "\<forall>k < length pcs. entry_is (entry_mem mem k) (pcs ! k) (cells ! k)" using assms(1) by (auto simp: list_has_def)
  have "list_all2 (\<lambda>c x. \<exists>b. c = Some (Some b) \<and> holds b x) cells pcs"
    using l(2,3) assms(2) by (simp add: list_all2_conv_all_nth entry_is_mem)
  then have "\<exists>bs. entries cells = Some bs \<and> list_all2 holds bs pcs" by (induction cells pcs rule: list_all2_induct) auto
  then show ?thesis using l(1,2) by simp
qed

lemma bjoin_holds:
  assumes l: "list_has mem pcs sl" "\<And>k. k < length pcs \<Longrightarrow> entry_mem mem k" and q: "sep_is sep q" "pcs \<noteq> [] \<or> q = []"
    and len: "length (join q pcs) + 1 < 2 ^ 31" and ok: "ok1" "ok2"
  shows "\<exists>b. bjoin ok1 ok2 sl sep = Some (Some b) \<and> holds b (join q pcs)"
proof -
  obtain bs where bs: "entries (take (length pcs) (the (bl_entry sl))) = Some bs" "list_all2 holds bs pcs" using lists_entries [OF l] by blast
  have e: "bl_qty sl = int (length pcs)" "length pcs \<le> length (the (bl_entry sl))" using l(1) by (auto simp: list_has_def)
  have n: "nat (bl_qty sl) = length pcs" "\<not> bl_qty sl < 0" by (simp_all add: e(1))
  let ?j = "join q pcs"
  have lj: "length ?j = length (concat pcs) + length q * (length pcs - 1)" by (rule length_join)
  have size: "join_size bs 1 = Some (int (1 + length (concat pcs)))" using join_size_sum [OF bs(2), of 1] len lj by simp
  have prod: "(int (length pcs) - 1) * int (length q) = int (length q * (length pcs - 1))" using q(2) by (cases pcs) auto
  have c: "(case sep of None \<Rightarrow> 1 + int (length (concat pcs)) | Some s \<Rightarrow> c_int (1 + int (length (concat pcs)) + (bl_qty sl - 1) * bs_slen s))
      = int (length ?j) + 1"
  proof (cases sep)
    case None
    then show ?thesis using q(1) lj by (simp add: sep_is_def)
  next
    case (Some s)
    then have "bs_slen s = int (length q)" using q(1) reads_str by (simp add: sep_is_def)
    moreover have "c_int (int (length ?j) + 1) = int (length ?j) + 1" using len by (intro c_int_range) auto
    moreover have "1 + int (length (concat pcs)) + (int (length pcs) - 1) * int (length q) = int (length ?j) + 1" unfolding prod lj by simp
    ultimately show ?thesis using Some e(1) by (simp only: option.case)
  qed
  have run: "join_loop sep bs True (malloc_block (length ?j + 1)) 0 = Some (map Some ?j @ [None], int (length ?j))"
    using join_loop_writes [OF bs(2) q(1), of "malloc_block (length ?j + 1)"]
    by (simp add: malloc_block_def del: replicate_Suc) simp
  have "poke (map Some ?j @ [None]) (int (length ?j)) 0 = Some (map Some ?j @ [Some 0])"
    by (simp add: poke_def list_update_append)
  moreover have "\<not> (\<exists>s. sep = Some s \<and> no_string s)" using q(1) reads_str by (auto simp: sep_is_def)
  moreover have "holds \<lparr>bs_mlen = int (length ?j) + 1, bs_slen = int (length ?j), bs_data = Some (map Some ?j @ [Some 0])\<rparr> ?j"
    using len by (simp add: holds_iff)
  moreover have "nat (int (length ?j) + 1) = length ?j + 1" by simp
  ultimately show ?thesis using bs(1) e(2) size run ok n unfolding bjoin_def by (simp add: c Let_def)
qed

section \<open>The array of a list\<close>

text \<open>
  Asking for room keeps the entries: afterwards there is as much as was asked for, or the list is as
  before. \<open>bstrListAllocMin\<close> may also give memory back, but not below the entries in use.
\<close>

lemma resize_keeps:
  assumes "bl_entry sl = Some cs" "q \<le> nat n" "q \<le> length cs"
  shows "take q (the (bl_entry (resize_list sl n))) = take q cs" "length (the (bl_entry (resize_list sl n))) = nat n"
  using assms by (auto simp: resize_list_def min_def)

lemma bstrListAlloc_room:
  assumes "bl_entry sl = Some cs" "\<not> list_broken sl" "bl_mlen sl = int (length cs)" "0 < msz" "msz < 2 ^ 31" "bstrListAlloc ok1 ok2 sl msz = (rc, sl')"
  shows "rc = BSTR_OK \<and> msz \<le> bl_mlen sl' \<and> bl_mlen sl' = int (length (the (bl_entry sl'))) \<and> take (length cs) (the (bl_entry sl')) = cs
    \<or> rc = BSTR_ERR \<and> sl' = sl"
proof (cases "bl_mlen sl \<ge> msz")
  case True
  then show ?thesis using assms by (auto simp: bstrListAlloc_def)
next
  case False
  have n: "msz \<le> snapUpSize msz" using snapUpSize_bounds(1) [OF assms(5)] by simp
  have r: "bl_mlen (resize_list sl k) = k" for k by (simp add: resize_list_def)
  have "length cs \<le> nat msz" "length cs \<le> nat (snapUpSize msz)" using False n assms(3) by auto
  then show ?thesis using assms False n resize_keeps [OF assms(1), of "length cs"] r
    by (auto simp: bstrListAlloc_def Let_def split: if_splits)
qed

lemma bstrListAllocMin_keeps:
  assumes "bl_entry sl = Some cs" "\<not> list_broken sl" "bl_mlen sl = int (length cs)" "0 < msz" "bstrListAllocMin ok sl msz = (rc, sl')"
  shows "rc = BSTR_OK \<and> bl_mlen sl' = max msz (bl_qty sl) \<and> bl_mlen sl' = int (length (the (bl_entry sl')))
      \<and> take (nat (bl_qty sl)) (the (bl_entry sl')) = take (nat (bl_qty sl)) cs
    \<or> rc = BSTR_ERR \<and> sl' = sl"
proof -
  have r: "bl_mlen (resize_list sl k) = k" for k by (simp add: resize_list_def)
  have q: "nat (bl_qty sl) \<le> length cs" "nat (bl_qty sl) \<le> nat (max msz (bl_qty sl))" using assms(2,3) by (auto simp: list_broken_def)
  show ?thesis using assms resize_keeps [OF assms(1) q(2,1)] r
    by (auto simp: bstrListAllocMin_def Let_def max_def split: if_splits)
qed

section \<open>Splitting and joining\<close>

text \<open>
  (C31) Splitting at a string and joining with the same string gives the text back, for every text and every
  separator, also an empty one and one that overlaps itself or follows itself directly. Where no
  separator directly follows another the pieces are exactly those between the separators.
\<close>

theorem split_join_roundtrip:
  assumes "bstr_ok str" "bstr_ok sep" "length (bytes str) + 2 < 2 ^ 30" "\<And>k. fst (mem k) \<and> entry_mem mem k"
  shows "\<exists>sl pcs b. bsplitstr True True mem str sep = Some (Some sl) \<and> list_has mem pcs sl
    \<and> bjoin True True sl (Some sep) = Some (Some b) \<and> bstr_ok b \<and> bytes b = bytes str
    \<and> (bytes sep \<noteq> [] \<and> (length (bytes sep) = 1 \<or> apart (bytes sep) (bytes str)) \<longrightarrow> pcs = splits (=) (bytes sep) (bytes str))"
proof -
  note r = holds_reads [OF holds_bytes [OF assms(1)]] holds_reads [OF holds_bytes [OF assms(2)]]
  obtain sl pcs where s: "bsplitstr True True mem str sep = Some (Some sl)" "list_has mem pcs sl" "join (bytes sep) pcs = bytes str"
    "bytes sep \<noteq> [] \<and> (length (bytes sep) = 1 \<or> apart (bytes sep) (bytes str)) \<longrightarrow> pcs = splits (=) (bytes sep) (bytes str)"
    "pcs \<noteq> [] \<or> bytes sep = []"
  proof -
    from bsplitstr_pieces [OF r(1) assms(3) r(2), of mem True True] show thesis
    proof (elim exE conjE)
      fix zs
      assume z: "split_result mem (True \<and> True) zs (bsplitstr True True mem str sep)" "join (bytes sep) zs = bytes str"
        "zs \<noteq> [] \<or> bytes sep = []"
        "bytes sep \<noteq> [] \<and> (length (bytes sep) = 1 \<or> apart (bytes sep) (bytes str)) \<longrightarrow> zs = splits (=) (bytes sep) (bytes str)"
      from z(1) assms(4) obtain sl where "bsplitstr True True mem str sep = Some (Some sl)" "list_has mem zs sl"
        unfolding split_result_def by blast
      then show thesis using z(2,4,3) by (rule that)
    qed
  qed
  have "length (join (bytes sep) pcs) + 1 < 2 ^ 31" using s(3) assms(3) by simp
  then obtain b where "bjoin True True sl (Some sep) = Some (Some b)" "holds b (bytes str)"
    using bjoin_holds [OF s(2), of "Some sep" "bytes sep" True True] assms(4) r(2) s(3,5) by (auto simp: sep_is_def)
  then show ?thesis using s(1,2,4) by (auto simp: holds_def)
qed

section \<open>Where the pieces are not the ones between the separators\<close>

text \<open>
  \<open>bsplitstrcb\<close> adds the length of the separator to the position, and the loop adds one more: of two
  separators in a row the second is not seen. Here \<open>x,,,,y\<close> is split at \<open>,,\<close>.
\<close>

definition record_cb :: "(int \<times> int) list split_cb" where
  "record_cb s ofs len = Some (BSTR_OK, s @ [(ofs, len)])"

lemma second_separator_missed:
  "bsplitstrcb (demo_text [120, 44, 44, 44, 44, 121]) (demo_text [44, 44]) 0 record_cb [] = Some (BSTR_OK, [(0, 1), (3, 3)])"
  "splits (=) [44, 44] [120, 44, 44, 44, 44, 121 :: byte] = [[120], [], [121]]"
proof -
  have "chars (demo_text [120, 44, 44, 44, 44, 121]) = Some [120, 44, 44, 44, 44, 121]" "chars (demo_text [44, 44]) = Some [44, 44]"
    by (simp_all add: chars_def demo_text_def read_block_def)
  then show "bsplitstrcb (demo_text [120, 44, 44, 44, 44, 121]) (demo_text [44, 44]) 0 record_cb [] = Some (BSTR_OK, [(0, 1), (3, 3)])"
    by (simp add: bsplitstrcb_def demo_text_def splitstr_loop.simps record_cb_def BSTR_OK_def)
qed (simp add: splits.simps)

text \<open>For an empty separator the comment promises the whole string, the code gives the characters.\<close>

lemma empty_separator_characters:
  "bsplitstrcb (demo_text [120, 121]) (demo_text []) 0 record_cb [] = Some (BSTR_OK, [(0, 1), (1, 1)])"
  by (simp add: bsplitstrcb_def demo_text_def record_cb_def BSTR_OK_def numeral_2_eq_2)

text \<open>An empty list has a negative number of separators: with one of one byte the result has no memory.\<close>

lemma bjoin_empty_faults: "bjoin True True \<lparr>bl_qty = 0, bl_mlen = 1, bl_entry = Some [None]\<rparr> (Some (demo_text [44])) = None"
proof -
  have "c_int 0 = 0" by (simp add: c_int_def)
  then show ?thesis by (simp add: bjoin_def demo_text_def no_string_def malloc_block_def poke_def)
qed

text \<open>
  Without memory for a piece the list has a null pointer, and the split counts as done; \<open>bjoin\<close> then reads
  through it.
\<close>

lemma missing_entry:
  "\<exists>sl. bsplit True True (\<lambda>k. (True, demo_bmem\<lparr>m_hdr := False\<rparr>)) (demo_text [120]) 44 = Some (Some sl) \<and> bjoin True True sl None = None"
proof -
  let ?mem = "\<lambda>k. (True, demo_bmem\<lparr>m_hdr := False\<rparr>)"
  have ch: "chars (demo_text [120]) = Some [120]" by (simp add: chars_def demo_text_def read_block_def)
  have m: "bmidstr (demo_bmem\<lparr>m_hdr := False\<rparr>) (demo_text [120]) 0 1 = Some None"
    by (simp add: bmidstr_def blk2bstr_def demo_text_def demo_bmem_def read_block_def Let_def)
  have "bscb ?mem (demo_text [120]) fresh_list 0 1 = Some (BSTR_OK, \<lparr>bl_qty = 1, bl_mlen = 4, bl_entry = Some (Some None # replicate 3 None)\<rparr>)"
    using m by (simp add: bscb_def bscb_room_def fresh_list_def numeral_eq_Suc)
  then have "bsplit True True ?mem (demo_text [120]) 44 = Some (Some \<lparr>bl_qty = 1, bl_mlen = 4, bl_entry = Some (Some None # replicate 3 None)\<rparr>)"
    using ch by (simp add: bsplit_def bsplitcb_def split_into_def split_loop.simps no_string_def demo_text_def BSTR_OK_def)
  then show ?thesis by (simp add: bjoin_def)
qed

definition demo_axyb :: bstr where
  "demo_axyb = \<lparr>bs_mlen = 5, bs_slen = 4, bs_data = Some [Some 97, Some 120, Some 121, Some 98, Some 0]\<rparr>"

definition demo_split_mem :: "nat \<Rightarrow> bool \<times> bmem" where
  "demo_split_mem k = (True, demo_bmem)"

lemma split_join_roundtrip_witness:
  "\<exists>sl b. bsplitstr True True demo_split_mem demo_axyb demo_xy = Some (Some sl) \<and> list_has demo_split_mem [[97], [98]] sl
    \<and> bjoin True True sl (Some demo_xy) = Some (Some b) \<and> bytes b = [97, 120, 121, 98]"
proof -
  have "bstr_ok demo_axyb" "bytes demo_axyb = [97, 120, 121, 98]" by (simp_all add: demo_axyb_def bstr_ok_def bytes_def numeral_eq_Suc)
  moreover have "bstr_ok demo_xy" "bytes demo_xy = [120, 121]" by (simp_all add: demo_xy_def bstr_ok_def bytes_def numeral_2_eq_2)
  moreover have "fst (demo_split_mem k) \<and> entry_mem demo_split_mem k" for k by (simp add: demo_split_mem_def entry_mem_def demo_bmem_def)
  moreover have "apart [120, 121 :: byte] [97, 120, 121, 98]" by (auto simp: apart_def hit_def)
  moreover have "splits (=) [120, 121] [97, 120, 121, 98 :: byte] = [[97], [98]]" by (simp add: splits.simps)
  ultimately show ?thesis using split_join_roundtrip [of demo_axyb demo_xy demo_split_mem] by auto
qed

end
