(* ===== verification/Bstr_Format.thy ===== *)
theory Bstr_Format
  imports Bstr_Split
begin

text \<open>
  Formatted output into a string in \<open>lcthw/bstrlib.c\<close>. What the format and its arguments print is a
  parameter, \<open>out\<close>; \<open>vsnprintf\<close> stores as much of it as fits and a zero, and returns its whole length, as
  the C standard has it. Of the format itself the code uses only the length.
\<close>

section \<open>The C library\<close>

definition vsnprintf :: "byte list \<Rightarrow> block \<Rightarrow> int \<Rightarrow> int \<Rightarrow> (int \<times> block) option" where
  "vsnprintf out d off sz =
     (if off < 0 \<or> sz \<le> 0 then None
      else map_option (\<lambda>d'. (int (length out), d')) (memcpy_at d (nat off) (take (nat sz - 1) out @ [0])))"

text \<open>The bytes in front of the first zero; memory that was never written must not be read.\<close>

definition before_zero :: "block \<Rightarrow> nat option" where
  "before_zero d = (let ws = takeWhile (\<lambda>c. c \<noteq> Some 0) d in if None \<in> set ws \<or> length ws = length d then None else Some (length ws))"

section \<open>Operations\<close>

definition START_VSNBUFF :: int where "START_VSNBUFF = 16"

text \<open>The loop over growing sizes; \<open>mem k\<close> is what the allocator answers in round \<open>k\<close>.\<close>

partial_function (option) format_loop :: "byte list \<Rightarrow> (nat \<Rightarrow> bmem) \<Rightarrow> nat \<Rightarrow> int \<Rightarrow> bstr \<Rightarrow> bstr option option" where
  "format_loop out mem k n buff = do {
     (r, d1) \<leftarrow> vsnprintf out (the (bs_data buff)) 0 (n + 1);
     d2 \<leftarrow> poke d1 n 0;
     l \<leftarrow> before_zero d2;
     let b = buff\<lparr>bs_data := Some d2, bs_slen := int l\<rparr>;
     if int l < n then Some (Some b)
     else do {
       let n' = (if r > n then r else c_int (n + n));
       (rc, b') \<leftarrow> balloc (mem k) b (c_int (n' + 2));
       if rc \<noteq> BSTR_OK then Some None else format_loop out mem (Suc k) n' b' } }"

text \<open>The part that all three functions share. \<open>fl\<close> is the length of the format.\<close>

definition format_buff :: "bmem \<Rightarrow> bmem \<Rightarrow> (nat \<Rightarrow> bmem) \<Rightarrow> nat \<Rightarrow> byte list \<Rightarrow> bstr option option" where
  "format_buff m1 m2 mem fl out =
     (let n = c_int (2 * int fl); n = (if n < START_VSNBUFF then START_VSNBUFF else n) in do {
        first \<leftarrow> bfromcstralloc m1 (c_int (n + 2)) [];
        case first of Some buff \<Rightarrow> format_loop out mem 0 n buff
        | None \<Rightarrow> do {
            second \<leftarrow> bfromcstralloc m2 3 [];
            case second of Some buff \<Rightarrow> format_loop out mem 0 1 buff | None \<Rightarrow> Some None } })"

definition bformata :: "bmem \<Rightarrow> bmem \<Rightarrow> (nat \<Rightarrow> bmem) \<Rightarrow> bmem \<Rightarrow> bmem \<Rightarrow> bstr \<Rightarrow> nat option \<Rightarrow> byte list \<Rightarrow> (int \<times> bstr) option" where
  "bformata m1 m2 mem mc m b fmt out =
     (if fmt = None \<or> not_writable b then Some (BSTR_ERR, b)
      else do {
        res \<leftarrow> format_buff m1 m2 mem (the fmt) out;
        case res of None \<Rightarrow> Some (BSTR_ERR, b) | Some buff \<Rightarrow> bconcat mc m b (Sep buff) })"

definition bassignformat :: "bmem \<Rightarrow> bmem \<Rightarrow> (nat \<Rightarrow> bmem) \<Rightarrow> bmem \<Rightarrow> bstr \<Rightarrow> nat option \<Rightarrow> byte list \<Rightarrow> (int \<times> bstr) option" where
  "bassignformat m1 m2 mem m b fmt out =
     (if fmt = None \<or> not_writable b then Some (BSTR_ERR, b)
      else do {
        res \<leftarrow> format_buff m1 m2 mem (the fmt) out;
        case res of None \<Rightarrow> Some (BSTR_ERR, b) | Some buff \<Rightarrow> bassign m b (Sep buff) })"

definition bformat :: "bmem \<Rightarrow> bmem \<Rightarrow> (nat \<Rightarrow> bmem) \<Rightarrow> nat option \<Rightarrow> byte list \<Rightarrow> bstr option option" where
  "bformat m1 m2 mem fmt out = (case fmt of None \<Rightarrow> Some None | Some fl \<Rightarrow> format_buff m1 m2 mem fl out)"

text \<open>The bounded variant formats behind the string. Its answer after an overflow is the negated size to try next.\<close>

definition retry_length :: "int \<Rightarrow> int \<Rightarrow> int" where
  "retry_length r cnt =
     (let n = (if r > c_int (cnt + 1) then r
               else let n = c_int (cnt + cnt) in if cnt > n then 2 ^ 31 - 1 else n);
          n = - n in if n > BSTR_ERR - 1 then BSTR_ERR - 1 else n)"

definition bvcformata :: "bmem \<Rightarrow> bstr \<Rightarrow> int \<Rightarrow> nat option \<Rightarrow> byte list \<Rightarrow> (int \<times> bstr) option" where
  "bvcformata m b cnt fmt out =
     (if fmt = None \<or> cnt \<le> 0 \<or> not_writable b then Some (BSTR_ERR, b)
      else let n = c_int (bs_slen b + cnt) in
      if cnt > c_int (n + 2) then Some (BSTR_ERR, b)
      else after_alloc (balloc m b (c_int (n + 2))) (\<lambda>b1. do {
        (r, d) \<leftarrow> vsnprintf out (the (bs_data b1)) (bs_slen b1) (c_int (cnt + 2));
        let cells = take (nat (n + 1 - bs_slen b1)) (drop (nat (bs_slen b1)) d);
        let ws = takeWhile (\<lambda>c. c \<noteq> Some 0) cells;
        if None \<in> set ws then None
        else if length ws < length cells then Some (BSTR_OK, b1\<lparr>bs_data := Some d, bs_slen := bs_slen b1 + int (length ws)\<rparr>)
        else map_option (\<lambda>d'. (retry_length r cnt, b1\<lparr>bs_data := Some d'\<rparr>)) (poke d (bs_slen b1) 0) }))"

section \<open>What is formatted\<close>

text \<open>The output up to its first zero.\<close>

definition printed :: "byte list \<Rightarrow> byte list" where
  "printed out = takeWhile (\<lambda>c. c \<noteq> 0) out"

definition room :: "bstr \<Rightarrow> int \<Rightarrow> bool" where
  "room b n \<longleftrightarrow> (\<exists>d. bs_data b = Some d \<and> bs_mlen b = int (length d) \<and> n + 2 \<le> bs_mlen b \<and> bs_mlen b < 2 ^ 31)"

lemma takeWhile_until:
  "c = Some 0 \<Longrightarrow> takeWhile (\<lambda>c. c \<noteq> Some 0) (map Some xs @ c # r) = map Some (takeWhile (\<lambda>c. c \<noteq> (0 :: byte)) xs)"
  by (induction xs) auto

lemma printed_take: "printed (take n out) = take n (printed out)"
  unfolding printed_def by (induction out arbitrary: n) (auto simp: take_Cons' split: if_splits)

lemma before_zero_text:
  assumes "d = map Some xs @ Some 0 # r"
  shows "before_zero d = Some (length (printed xs)) \<and> (\<exists>r'. d = map Some (printed xs) @ Some 0 # r')"
proof -
  have tw: "takeWhile (\<lambda>c. c \<noteq> Some 0) d = map Some (printed xs)" using assms takeWhile_until by (simp add: printed_def)
  have "length (printed xs) \<le> length xs" by (simp add: printed_def length_takeWhile_le)
  then have len: "length (printed xs) < length d" using assms by simp
  have "d = map Some (printed xs) @ dropWhile (\<lambda>c. c \<noteq> Some 0) d" using takeWhile_dropWhile_id [of "\<lambda>c. c \<noteq> Some 0" d] tw by simp
  moreover from this len obtain y ys where y: "dropWhile (\<lambda>c. c \<noteq> Some 0) d = y # ys" by (cases "dropWhile (\<lambda>c. c \<noteq> Some 0) d") auto
  moreover have "y = Some 0" using hd_dropWhile [of "\<lambda>c. c \<noteq> Some 0" d] y by simp
  ultimately show ?thesis using tw len by (auto simp: before_zero_def Let_def)
qed

lemma format_round:
  assumes "room b (int n)"
  shows "\<exists>d1 d2. vsnprintf out (the (bs_data b)) 0 (int n + 1) = Some (int (length out), d1) \<and> poke d1 (int n) 0 = Some d2
    \<and> before_zero d2 = Some (min n (length (printed out))) \<and> int (length d2) = bs_mlen b
    \<and> (\<exists>r. d2 = map Some (take n (printed out)) @ Some 0 # r)"
proof -
  obtain d where d: "bs_data b = Some d" "bs_mlen b = int (length d)" "n + 2 \<le> length d" using assms by (auto simp: room_def)
  define d1 where "d1 = map Some (take n out) @ Some 0 # drop (Suc (min n (length out))) d"
  have l1: "length d1 = length d" using d(3) by (simp add: d1_def)
  have "nat (int n + 1) - 1 = n" by simp
  then have "vsnprintf out d 0 (int n + 1) = Some (int (length out), d1)"
    using d(3) by (simp add: vsnprintf_def memcpy_at_def d1_def min_def)
  moreover have "poke d1 (int n) 0 = Some (d1[n := Some 0])" using l1 d(3) by (simp add: poke_def)
  moreover have "\<exists>r. d1[n := Some 0] = map Some (take n out) @ Some 0 # r"
    by (auto simp: d1_def list_update_append split: nat.split)
  then obtain r where "d1[n := Some 0] = map Some (take n out) @ Some 0 # r" by blast
  from before_zero_text [OF this] have "before_zero (d1[n := Some 0]) = Some (min n (length (printed out)))"
    "\<exists>r. d1[n := Some 0] = map Some (take n (printed out)) @ Some 0 # r" unfolding printed_take by (simp_all add: min.commute)
  ultimately show ?thesis using d(1,2) l1 by auto
qed

text \<open>The loop ends: a round that does not end has a larger size than the one before, and the output is finite.\<close>

lemma format_loop_prints:
  "room b (int n) \<Longrightarrow> 0 < n \<Longrightarrow> n < 2 ^ 29 \<Longrightarrow> length out < 2 ^ 28 \<Longrightarrow>
   (\<exists>b'. format_loop out mem k (int n) b = Some (Some b') \<and> holds b' (printed out))
   \<or> format_loop out mem k (int n) b = Some None \<and> \<not> (\<forall>j. m_snap (mem j))"
proof (induction "Suc (length out) - n" arbitrary: n b k rule: less_induct)
  case less
  obtain d1 d2 r where d: "vsnprintf out (the (bs_data b)) 0 (int n + 1) = Some (int (length out), d1)" "poke d1 (int n) 0 = Some d2"
    "before_zero d2 = Some (min n (length (printed out)))" "int (length d2) = bs_mlen b"
    "d2 = map Some (take n (printed out)) @ Some 0 # r" using format_round [OF less.prems(1), of out] by blast
  have m: "bs_mlen b < 2 ^ 31" using less.prems(1) by (auto simp: room_def)
  let ?b = "b\<lparr>bs_data := Some d2, bs_slen := int (min n (length (printed out)))\<rparr>"
  have p: "length (printed out) \<le> length out" by (simp add: printed_def length_takeWhile_le)
  have h: "holds ?b (take n (printed out))"
    unfolding holds_iff using d(4,5) m by (intro exI [of _ r]) (auto simp: min.commute)
  show ?case
  proof (cases "length (printed out) < n")
    case True
    then have "format_loop out mem k (int n) b = Some (Some ?b)" using d(1-3) by (subst format_loop.simps) simp
    then show ?thesis using h True by simp
  next
    case False
    define n' where "n' = (if length out > n then length out else n + n)"
    have n': "n < n'" "n' < 2 ^ 29" "Suc (length out) - n' < Suc (length out) - n"
      using False p less.prems(2-4) by (auto simp: n'_def)
    have cs: "(if int (length out) > int n then int (length out) else c_int (int n + int n)) = int n'" "c_int (int n' + 2) = int n' + 2"
      using less.prems(3) n'(2) by (auto simp: n'_def intro!: c_int_range)
    obtain rc b' where a: "balloc (mem k) ?b (int n' + 2) = Some (rc, b')" "holds b' (take n (printed out))"
      "rc = BSTR_OK \<and> int n' + 2 \<le> bs_mlen b' \<or> rc = BSTR_ERR \<and> \<not> m_snap (mem k)"
      using balloc_holds [OF h, of "int n' + 2" "mem k"] n'(2) by auto
    have u: "format_loop out mem k (int n) b = (if rc \<noteq> BSTR_OK then Some None else format_loop out mem (Suc k) (int n') b')"
      using d(1-3) False cs a(1) by (subst format_loop.simps) (simp add: Let_def min_def)
    show ?thesis
    proof (cases "rc = BSTR_OK")
      case True
      then have "room b' (int n')" using a(2,3) by (auto simp: room_def elim: holdsE)
      then show ?thesis using less.hyps [OF n'(3), of b' "Suc k"] n' less.prems(2,4) u True by simp
    next
      case False
      then show ?thesis using u a(3) by auto
    qed
  qed
qed

lemma bfromcstralloc_room:
  assumes "1 \<le> n" "n + 2 < 2 ^ 31"
  shows "(\<exists>b. bfromcstralloc m (n + 2) [] = Some (Some b) \<and> room b n) \<or> bfromcstralloc m (n + 2) [] = Some None \<and> \<not> (m_hdr m \<and> m_snap m)"
proof -
  have c: "c_int 2 = 2" "c_int 0 = 0" by (simp_all add: c_int_def)
  define i where "i = (if snapUpSize 2 < n + 2 then n + 2 else snapUpSize 2)"
  have i: "int (length []) < i" "i < 2 ^ 31" "n + 2 \<le> i" using assms by (auto simp: i_def snapUpSize_def)
  obtain b where b: "bnew i 0 [] = Some (Some b)" "holds b []" "bs_mlen b = i" using bnew_holds [OF i(1,2)] by auto
  have "room b n" using b(2,3) i by (auto simp: room_def elim: holdsE)
  then show ?thesis using b(1) c by (auto simp: bfromcstralloc_def Let_def i_def snapUpSize_def)
qed

definition format_mem :: "bmem \<Rightarrow> bmem \<Rightarrow> (nat \<Rightarrow> bmem) \<Rightarrow> bool" where
  "format_mem m1 m2 mem \<longleftrightarrow> m_hdr m1 \<and> m_snap m1 \<and> (\<forall>k. m_snap (mem k))"

lemma format_buff_prints:
  assumes "fl < 2 ^ 28" "length out < 2 ^ 28"
  shows "(\<exists>b. format_buff m1 m2 mem fl out = Some (Some b) \<and> holds b (printed out))
    \<or> format_buff m1 m2 mem fl out = Some None \<and> \<not> format_mem m1 m2 mem"
proof -
  define n where "n = max 16 (2 * fl)"
  have c: "c_int (2 * int fl) = 2 * int fl" "c_int (int n + 2) = int n + 2" using assms(1) by (auto intro!: c_int_range simp: n_def)
  have n: "(if 2 * int fl < START_VSNBUFF then START_VSNBUFF else 2 * int fl) = int n" by (simp add: START_VSNBUFF_def n_def max_def)
  have u: "format_buff m1 m2 mem fl out = bfromcstralloc m1 (int n + 2) [] \<bind> (\<lambda>first. case first of Some buff \<Rightarrow> format_loop out mem 0 (int n) buff
      | None \<Rightarrow> bfromcstralloc m2 3 [] \<bind> (\<lambda>second. case second of Some buff \<Rightarrow> format_loop out mem 0 1 buff | None \<Rightarrow> Some None))"
    by (simp add: format_buff_def c n Let_def)
  have b: "0 < n" "n < 2 ^ 29" "int n + 2 < 2 ^ 31" "1 \<le> int n" using assms(1) by (auto simp: n_def)
  from bfromcstralloc_room [OF b(4,3), of m1] show ?thesis
  proof (elim disjE exE conjE)
    fix b
    assume "bfromcstralloc m1 (int n + 2) [] = Some (Some b)" "room b (int n)"
    then show ?thesis using format_loop_prints [of b n out mem 0] b assms(2) u by (auto simp: format_mem_def)
  next
    assume no: "bfromcstralloc m1 (int n + 2) [] = Some None" "\<not> (m_hdr m1 \<and> m_snap m1)"
    have "(\<exists>b. bfromcstralloc m2 3 [] = Some (Some b) \<and> room b 1) \<or> bfromcstralloc m2 3 [] = Some None"
      using bfromcstralloc_room [of 1 m2] by auto
    then show ?thesis
    proof (elim disjE exE conjE)
      fix b
      assume "bfromcstralloc m2 3 [] = Some (Some b)" "room b 1"
      then show ?thesis using format_loop_prints [of b 1 out mem 0] assms(2) u no by (auto simp: format_mem_def)
    qed (use u no in \<open>auto simp: format_mem_def\<close>)
  qed
qed

text \<open>\<open>bformat\<close> gives what is printed, \<open>bformata\<close> appends it and \<open>bassignformat\<close> puts it in the place of the string.\<close>

lemma bformat_prints:
  assumes "fl < 2 ^ 28" "length out < 2 ^ 28" "format_mem m1 m2 mem"
  shows "\<exists>b. bformat m1 m2 mem (Some fl) out = Some (Some b) \<and> holds b (printed out)"
  using format_buff_prints [OF assms(1,2), of m1 m2 mem] assms(3) by (simp add: bformat_def)

lemma bformata_appends:
  assumes "holds b xs" "fl < 2 ^ 28" "length out < 2 ^ 28" "length xs + length out + 1 < 2 ^ 31"
  shows "edited (format_mem m1 m2 mem \<and> m_hdr mc \<and> m_snap mc \<and> m_snap m) b (xs @ printed out) (bformata m1 m2 mem mc m b (Some fl) out)"
proof -
  have w: "\<not> not_writable b" using holds_fields(2) [OF assms(1)] .
  have len: "length xs + length (printed out) + 1 < 2 ^ 31"
    using assms(4) length_takeWhile_le [of "\<lambda>c. c \<noteq> 0" out] by (simp add: printed_def)
  from format_buff_prints [OF assms(2,3), of m1 m2 mem] show ?thesis
  proof (elim disjE exE conjE)
    fix v
    assume v: "format_buff m1 m2 mem fl out = Some (Some v)" "holds v (printed out)"
    have "op_is b (Sep v) (printed out)" using holds_reads [OF v(2)] by (simp add: op_is_def op_view_def)
    from bconcat_edited [OF assms(1) this len] show ?thesis using v(1) w by (auto simp: bformata_def edited_def)
  qed (use w in \<open>simp add: bformata_def edited_def\<close>)
qed

lemma bassignformat_assigns:
  assumes "holds b xs" "fl < 2 ^ 28" "length out < 2 ^ 28" "m_snap m" "format_mem m1 m2 mem"
  shows "finished (printed out) (bassignformat m1 m2 mem m b (Some fl) out)"
proof -
  have len: "length (printed out) < 2 ^ 30" using assms(3) length_takeWhile_le [of "\<lambda>c. c \<noteq> 0" out] by (simp add: printed_def)
  obtain v where v: "format_buff m1 m2 mem fl out = Some (Some v)" "holds v (printed out)"
    using format_buff_prints [OF assms(2,3), of m1 m2 mem] assms(5) by blast
  show ?thesis using bassign_edited [OF assms(1) holds_reads [OF v(2)] len assms(4)] v(1) holds_fields(2) [OF assms(1)]
    by (simp add: bassignformat_def)
qed

section \<open>The bounded variant\<close>

text \<open>
  What fits is appended; otherwise the string is as before, and the answer is below \<open>BSTR_ERR\<close> and asks for
  more than was allowed.
\<close>

lemma retry_more:
  assumes "0 < cnt" "2 * cnt < 2 ^ 31" "cnt < r"
  shows "retry_length (int r) (int cnt) < BSTR_ERR \<and> retry_length (int r) (int cnt) \<le> - int cnt"
proof -
  have "c_int (int cnt + 1) = int cnt + 1" "c_int (int cnt + int cnt) = int cnt + int cnt" using assms(1,2) by (auto intro!: c_int_range)
  then show ?thesis using assms(1,3) by (auto simp: retry_length_def Let_def BSTR_ERR_def)
qed

lemma takeWhile_take: "takeWhile P (take n xs) = take n (takeWhile P xs)"
  by (induction xs arbitrary: n) (auto simp: take_Cons' split: if_splits)

text \<open>The memory after \<open>vsnprintf\<close>, and what the search for the zero sees.\<close>

lemma vsnprintf_behind:
  assumes "starts d xs" "length xs + cnt + 2 \<le> length d"
  shows "\<exists>d'. vsnprintf out d (int (length xs)) (int cnt + 2) = Some (int (length out), d') \<and> length d' = length d
    \<and> take (length xs) d' = map Some xs
    \<and> takeWhile (\<lambda>c. c \<noteq> Some 0) (take (cnt + 1) (drop (length xs) d')) = map Some (take (cnt + 1) (printed out))
    \<and> (\<exists>r. drop (length xs) d' = map Some (take (cnt + 1) (printed out)) @ Some 0 # r)"
proof -
  define ys where "ys = take (cnt + 1) out"
  let ?d = "map Some xs @ map Some ys @ Some 0 # drop (length xs + length ys + 1) d"
  obtain r where r: "d = map Some xs @ r" using assms(1) by (auto simp: starts_def)
  have ly: "length ys \<le> cnt + 1" "nat (int cnt + 2) - 1 = cnt + 1" by (simp_all add: ys_def)
  have "memcpy_at d (length xs) (ys @ [0]) = Some ?d" using assms(2) ly(1) by (simp add: memcpy_at_def r)
  then have "vsnprintf out d (int (length xs)) (int cnt + 2) = Some (int (length out), ?d)" using ly(2) by (simp add: vsnprintf_def ys_def)
  moreover have "length ?d = length d" using assms(2) ly(1) by simp
  moreover have dr: "drop (length xs) ?d = map Some ys @ Some 0 # drop (length xs + length ys + 1) d" by simp
  moreover have "takeWhile (\<lambda>c. c \<noteq> Some 0) (take (cnt + 1) (drop (length xs) ?d)) = map Some (take (cnt + 1) (printed out))"
    using takeWhile_until [OF refl, of ys] printed_take [of "cnt + 1" out]
    unfolding takeWhile_take dr printed_def [symmetric] ys_def [symmetric] by (simp add: take_map)
  moreover have "\<exists>r. drop (length xs) ?d = map Some (take (cnt + 1) (printed out)) @ Some 0 # r"
    using before_zero_text [OF dr] unfolding ys_def printed_take by blast
  ultimately show ?thesis by (intro exI [of _ ?d]) simp
qed

lemma bvcformata_bounded:
  assumes b: "holds b xs" and c: "0 < cnt" "length xs + cnt + 2 < 2 ^ 31" "2 * cnt < 2 ^ 31"
  shows "\<exists>rc b'. bvcformata m b (int cnt) (Some fl) out = Some (rc, b')
    \<and> (rc = BSTR_OK \<and> length (printed out) \<le> cnt \<and> holds b' (xs @ printed out)
       \<or> rc < BSTR_ERR \<and> cnt < length (printed out) \<and> holds b' xs \<and> rc \<le> - int cnt
       \<or> rc = BSTR_ERR \<and> b' = b \<and> \<not> m_snap m)"
proof -
  define n where "n = length xs + cnt"
  have ci: "c_int (int (length xs) + int cnt) = int n" "c_int (int n + 2) = int n + 2" "c_int (int cnt + 2) = int cnt + 2"
    using c by (auto simp: n_def intro!: c_int_range)
  note f = holds_fields(1,2) [OF b]
  obtain rc b1 where a: "balloc m b (int n + 2) = Some (rc, b1)" "holds b1 xs"
    "rc = BSTR_OK \<and> int n + 2 \<le> bs_mlen b1 \<or> rc = BSTR_ERR \<and> b1 = b \<and> \<not> m_snap m"
    using balloc_holds [OF b, of "int n + 2" m] c(2) by (auto simp: n_def)
  show ?thesis
  proof (cases "rc = BSTR_OK")
    case False
    then show ?thesis using a f ci c(1) by (auto simp: bvcformata_def after_alloc_def n_def)
  next
    case True
    obtain d0 where d0: "bs_data b1 = Some d0" "starts d0 xs" "bs_mlen b1 = int (length d0)" "length d0 < 2 ^ 31" "bs_slen b1 = int (length xs)"
      using holds_starts [OF a(2)] by metis
    have "length xs + cnt + 2 \<le> length d0" using a(3) True d0(3) by (simp add: n_def)
    from vsnprintf_behind [OF d0(2) this, of out] obtain d r where
      d: "vsnprintf out d0 (int (length xs)) (int cnt + 2) = Some (int (length out), d)" "length d = length d0" "take (length xs) d = map Some xs"
        "takeWhile (\<lambda>c. c \<noteq> Some 0) (take (cnt + 1) (drop (length xs) d)) = map Some (take (cnt + 1) (printed out))"
        "drop (length xs) d = map Some (take (cnt + 1) (printed out)) @ Some 0 # r" by blast
    have cells: "length (take (cnt + 1) (drop (length xs) d)) = cnt + 1" "nat (int n + 1 - int (length xs)) = cnt + 1"
      using d(2) a(3) True d0(3) by (auto simp: n_def)
    have run: "bvcformata m b (int cnt) (Some fl) out =
        (if length (take (cnt + 1) (printed out)) < cnt + 1 then Some (BSTR_OK, b1\<lparr>bs_data := Some d, bs_slen := int (length xs) + int (length (take (cnt + 1) (printed out)))\<rparr>)
         else map_option (\<lambda>d'. (retry_length (int (length out)) (int cnt), b1\<lparr>bs_data := Some d'\<rparr>)) (poke d (int (length xs)) 0))"
      using a(1) True f ci c(1) d0(1,5) d(1,4) cells
      by (simp add: bvcformata_def after_alloc_def n_def Let_def image_iff)
    show ?thesis
    proof (cases "length (printed out) \<le> cnt")
      case le: True
      have "d = map Some (xs @ printed out) @ Some 0 # r" using append_take_drop_id [of "length xs" d] d(3,5) le by simp
      then have "holds (b1\<lparr>bs_data := Some d, bs_slen := int (length xs) + int (length (printed out))\<rparr>) (xs @ printed out)"
        unfolding holds_iff using d(2) d0(3,4) by (intro exI [of _ r]) auto
      then show ?thesis using run le by simp
    next
      case False
      have "length (printed out) \<le> length out" by (simp add: printed_def length_takeWhile_le)
      then have rt: "retry_length (int (length out)) (int cnt) < BSTR_ERR \<and> retry_length (int (length out)) (int cnt) \<le> - int cnt"
        using retry_more [OF c(1,3)] False by simp
      have "length xs < length d" using d(2) a(3) True d0(3) by (simp add: n_def)
      then obtain d' where "poke d (bs_slen b1) 0 = Some d'" "holds (b1\<lparr>bs_data := Some d', bs_mlen := int (length d)\<rparr>) xs"
        using holds_poke [OF d(3), of b1] d(2) d0(4,5) by auto
      moreover have "b1\<lparr>bs_data := Some d', bs_mlen := int (length d)\<rparr> = b1\<lparr>bs_data := Some d'\<rparr>" using d(2) d0(3) by (cases b1) simp
      ultimately have "poke d (int (length xs)) 0 = Some d'" "holds (b1\<lparr>bs_data := Some d'\<rparr>) xs" using d0(5) by simp_all
      then show ?thesis using run False rt by auto
    qed
  qed
qed

end
