(* ===== verification/Bstr_Stream.thy ===== *)
theory Bstr_Stream
  imports Bstr_Split
begin

text \<open>
  Reading from files and streams in \<open>lcthw/bstrlib.c\<close>. The functions that read from the source are
  parameters: one like \<open>fread\<close> gives for a number of bytes those that it stored, one like \<open>fgetc\<close> gives a
  byte or a negative number. \<open>mem k\<close> is what the allocator answers in step \<open>k\<close> of an operation.
\<close>

type_synonym 'p bNread = "'p \<Rightarrow> nat \<Rightarrow> byte list \<times> 'p"
type_synonym 'p bNgetc = "'p \<Rightarrow> int \<times> 'p"

definition BS_BUFF_SZ :: int where "BS_BUFF_SZ = 1024"

section \<open>Whole files\<close>

text \<open>A string whose header is checked, but not whether it has memory.\<close>

definition bad_header :: "bstr \<Rightarrow> bool" where
  "bad_header b \<longleftrightarrow> bs_mlen b \<le> 0 \<or> bs_slen b < 0 \<or> bs_mlen b < bs_slen b"

partial_function (option) reada_loop :: "'p bNread \<Rightarrow> (nat \<Rightarrow> bmem) \<Rightarrow> nat \<Rightarrow> int \<Rightarrow> int \<Rightarrow> bstr \<Rightarrow> 'p \<Rightarrow> (int \<times> bstr \<times> 'p) option" where
  "reada_loop rd mem k n i b p = do {
     (rc, b1) \<leftarrow> balloc (mem k) b (c_int (n + 1));
     if rc \<noteq> BSTR_OK then Some (BSTR_ERR, b1, p)
     else do {
       let (xs, p') = rd p (nat (n - i));
       d \<leftarrow> memcpy_at (the (bs_data b1)) (nat i) xs;
       let i' = c_int (i + int (length xs));
       let b2 = b1\<lparr>bs_data := Some d, bs_slen := i'\<rparr>;
       if i' < n then map_option (\<lambda>d'. (BSTR_OK, b2\<lparr>bs_data := Some d'\<rparr>, p')) (poke d i' 0)
       else reada_loop rd mem (Suc k) (c_int (n + (if n < BS_BUFF_SZ then n else BS_BUFF_SZ))) i' b2 p' } }"

definition breada :: "'p bNread \<Rightarrow> (nat \<Rightarrow> bmem) \<Rightarrow> bstr \<Rightarrow> 'p \<Rightarrow> (int \<times> bstr \<times> 'p) option" where
  "breada rd mem b p =
     (if bad_header b then Some (BSTR_ERR, b, p) else reada_loop rd mem 0 (c_int (bs_slen b + 16)) (bs_slen b) b p)"

definition bread :: "'p bNread \<Rightarrow> bmem \<Rightarrow> (nat \<Rightarrow> bmem) \<Rightarrow> 'p \<Rightarrow> (bstr option \<times> 'p) option" where
  "bread rd m mem p = do {
     buff \<leftarrow> bfromcstr m [];
     (rc, b, p') \<leftarrow> breada rd mem (case buff of None \<Rightarrow> NULL_b | Some b \<Rightarrow> b) p;
     Some (if rc < 0 then None else Some b, p') }"

section \<open>Lines from a source of characters\<close>

text \<open>The terminator is a \<open>char\<close>, which is signed. \<open>d\<close> counts the characters, \<open>e\<close> is the last place with room for one and a zero.\<close>

partial_function (option) gets_loop :: "'p bNgetc \<Rightarrow> (nat \<Rightarrow> bmem) \<Rightarrow> byte \<Rightarrow> nat \<Rightarrow> int \<Rightarrow> int \<Rightarrow> bstr \<Rightarrow> 'p \<Rightarrow> (int \<times> bstr \<times> 'p) option" where
  "gets_loop getc mem trm k d e b p = (
     let (c, p') = getc p in
     if c < 0 then map_option (\<lambda>(_, b'). (if d = 0 then 1 else 0, b', p')) (store b (bs_data b) d)
     else do {
       (rc, b1) \<leftarrow> (if d > e then balloc (mem k) (b\<lparr>bs_slen := d\<rparr>) (c_int (d + 2)) else Some (BSTR_OK, b));
       if rc \<noteq> BSTR_OK then Some (BSTR_ERR, b1, p')
       else do {
         dt \<leftarrow> poke (the (bs_data b1)) d (word_of_int c);
         let b2 = b1\<lparr>bs_data := Some dt\<rparr>;
         if c = sint trm then map_option (\<lambda>(_, b'). (0, b', p')) (store b2 (Some dt) (d + 1))
         else gets_loop getc mem trm (Suc k) (d + 1) (if d > e then bs_mlen b1 - 2 else e) b2 p' } })"

definition bassigngets :: "'p bNgetc \<Rightarrow> (nat \<Rightarrow> bmem) \<Rightarrow> bstr \<Rightarrow> 'p \<Rightarrow> byte \<Rightarrow> (int \<times> bstr \<times> 'p) option" where
  "bassigngets getc mem b p trm =
     (if bad_header b then Some (BSTR_ERR, b, p) else gets_loop getc mem trm 0 0 (bs_mlen b - 2) b p)"

definition bgetsa :: "'p bNgetc \<Rightarrow> (nat \<Rightarrow> bmem) \<Rightarrow> bstr \<Rightarrow> 'p \<Rightarrow> byte \<Rightarrow> (int \<times> bstr \<times> 'p) option" where
  "bgetsa getc mem b p trm =
     (if bad_header b then Some (BSTR_ERR, b, p) else gets_loop getc mem trm 0 (bs_slen b) (bs_mlen b - 2) b p)"

definition bgets :: "'p bNgetc \<Rightarrow> bmem \<Rightarrow> (nat \<Rightarrow> bmem) \<Rightarrow> 'p \<Rightarrow> byte \<Rightarrow> (bstr option \<times> 'p) option" where
  "bgets getc m mem p trm = do {
     buff \<leftarrow> bfromcstr m [];
     (rc, b, p') \<leftarrow> bgetsa getc mem (case buff of None \<Rightarrow> NULL_b | Some b \<Rightarrow> b) p trm;
     Some (if rc < 0 \<or> bs_slen b \<le> 0 then None else Some b, p') }"

section \<open>Streams\<close>

record 'p bStream =
  st_buff :: "bstr option"
  st_parm :: 'p
  st_isEOF :: bool
  st_maxBuffSz :: int

definition bsopen :: "bool \<Rightarrow> bmem \<Rightarrow> 'p \<Rightarrow> 'p bStream option option" where
  "bsopen ok m p =
     (if \<not> ok then Some None
      else map_option (\<lambda>b. Some \<lparr>st_buff = b, st_parm = p, st_isEOF = False, st_maxBuffSz = BS_BUFF_SZ\<rparr>) (bfromcstr m []))"

definition bsbufflength :: "'p bStream \<Rightarrow> int \<Rightarrow> int \<times> 'p bStream" where
  "bsbufflength s sz =
     (if sz < 0 then (BSTR_ERR, s) else (st_maxBuffSz s, if sz > 0 then s\<lparr>st_maxBuffSz := sz\<rparr> else s))"

definition bseof :: "'p bStream \<Rightarrow> bool option" where
  "bseof s = (if st_isEOF s then map_option (\<lambda>b. bs_slen b = 0) (st_buff s) else Some False)"

definition bsclose :: "'p bStream \<Rightarrow> 'p" where
  "bsclose s = st_parm s"

text \<open>A part of the memory of a string as a header of its own.\<close>

definition part_of :: "block \<Rightarrow> nat \<Rightarrow> int \<Rightarrow> bstr" where
  "part_of d off len = \<lparr>bs_mlen = - 1, bs_slen = len, bs_data = Some (drop off d)\<rparr>"

text \<open>The search for a terminator, which a sentinel ends.\<close>

definition scan :: "(byte \<Rightarrow> bool) \<Rightarrow> block \<Rightarrow> nat \<Rightarrow> int option" where
  "scan P d off = (let ws = takeWhile (\<lambda>c. case c of None \<Rightarrow> False | Some x \<Rightarrow> \<not> P x) (drop off d) in
     if off + length ws < length d \<and> d ! (off + length ws) \<noteq> None then Some (int (length ws)) else None)"

text \<open>
  The loop of \<open>bsreadlna\<close> and \<open>bsreadlnsa\<close>: blocks are read into the result until one has a terminator (a byte
  that satisfies \<open>P\<close>; \<open>c\<close> is one of them), and what lies behind it goes into the buffer.
\<close>

partial_function (option) until_loop ::
  "'p bNread \<Rightarrow> (nat \<Rightarrow> bmem) \<Rightarrow> (byte \<Rightarrow> bool) \<Rightarrow> byte \<Rightarrow> nat \<Rightarrow> int \<Rightarrow> bstr \<Rightarrow> 'p bStream \<Rightarrow> (int \<times> bstr \<times> 'p bStream) option" where
  "until_loop rd mem P c k rlo r s = do {
     (rc, r1) \<leftarrow> balloc (mem k) r (c_int (bs_slen r + st_maxBuffSz s + 1));
     if rc \<noteq> BSTR_OK then Some (BSTR_ERR, r1, s)
     else do {
       let (xs, p') = rd (st_parm s) (nat (st_maxBuffSz s));
       let sl = bs_slen r1;
       d \<leftarrow> memcpy_at (the (bs_data r1)) (nat sl) xs;
       let l = int (length xs);
       if l \<le> 0 then
         map_option (\<lambda>d'. (if sl = rlo then BSTR_ERR else BSTR_OK, r1\<lparr>bs_data := Some d'\<rparr>,
             s\<lparr>st_parm := p', st_isEOF := True, st_buff := map_option (\<lambda>b. b\<lparr>bs_slen := 0\<rparr>) (st_buff s)\<rparr>)) (poke d sl 0)
       else do {
         d1 \<leftarrow> poke d (sl + l) c;
         i \<leftarrow> scan P d1 (nat sl);
         if i < l then do {
           let buff = the (st_buff s);
           ys \<leftarrow> read_block d1 (nat (sl + i + 1)) (nat (l - (i + 1)));
           bd \<leftarrow> memcpy_at (the (bs_data buff)) 0 ys;
           (_, r2) \<leftarrow> store r1 (Some d1) (sl + i + 1);
           Some (BSTR_OK, r2, s\<lparr>st_parm := p', st_buff := Some (buff\<lparr>bs_data := Some bd, bs_slen := l - (i + 1)\<rparr>)\<rparr>) }
         else until_loop rd mem P c (Suc k) rlo (r1\<lparr>bs_data := Some d1, bs_slen := c_int (sl + l)\<rparr>) (s\<lparr>st_parm := p'\<rparr>) } } }"

definition read_until ::
  "'p bNread \<Rightarrow> (nat \<Rightarrow> bmem) \<Rightarrow> (byte \<Rightarrow> bool) \<Rightarrow> byte \<Rightarrow> bstr \<Rightarrow> 'p bStream \<Rightarrow> (int \<times> bstr \<times> 'p bStream) option" where
  "read_until rd mem P c r s = do {
     let l = bs_slen (the (st_buff s));
     (rc, bf) \<leftarrow> balloc (mem 0) (the (st_buff s)) (c_int (st_maxBuffSz s + 1));
     if rc \<noteq> BSTR_OK then Some (BSTR_ERR, r, s\<lparr>st_buff := Some bf\<rparr>)
     else do {
       d \<leftarrow> poke (the (bs_data bf)) l c;
       i \<leftarrow> scan P d 0;
       let bf1 = bf\<lparr>bs_data := Some d\<rparr>;
       if i < l then do {
         (ret, r1) \<leftarrow> bconcat (mem 1) (mem 1) r (Sep (part_of d 0 (i + 1)));
         if ret = BSTR_OK then do {
           (_, bf2) \<leftarrow> bdelete bf1 0 (i + 1);
           Some (BSTR_OK, r1, s\<lparr>st_buff := Some bf2\<rparr>) }
         else Some (BSTR_OK, r1, s\<lparr>st_buff := Some bf1\<rparr>) }
       else do {
         (ret, r1) \<leftarrow> bconcat (mem 1) (mem 1) r (Sep (part_of d 0 l));
         if ret \<noteq> BSTR_OK then Some (BSTR_ERR, r1, s\<lparr>st_buff := Some bf1\<rparr>)
         else until_loop rd mem P c 2 (bs_slen r) r1 (s\<lparr>st_buff := Some bf1\<rparr>) } } }"

definition bsreadlna :: "'p bNread \<Rightarrow> (nat \<Rightarrow> bmem) \<Rightarrow> bstr \<Rightarrow> 'p bStream \<Rightarrow> byte \<Rightarrow> (int \<times> bstr \<times> 'p bStream) option" where
  "bsreadlna rd mem r s trm =
     (if st_buff s = None \<or> bad_header r then Some (BSTR_ERR, r, s) else read_until rd mem (\<lambda>x. x = trm) trm r s)"

definition bsreadlnsa :: "'p bNread \<Rightarrow> (nat \<Rightarrow> bmem) \<Rightarrow> bstr \<Rightarrow> 'p bStream \<Rightarrow> bstr \<Rightarrow> (int \<times> bstr \<times> 'p bStream) option" where
  "bsreadlnsa rd mem r s trm =
     (if st_buff s = None \<or> bs_data trm = None \<or> bad_header r then Some (BSTR_ERR, r, s)
      else if bs_slen trm < 1 then Some (BSTR_ERR, r, s)
      else str_of trm \<bind> (\<lambda>ts.
        if bs_slen trm = 1 then bsreadlna rd mem r s (hd ts)
        else read_until rd mem (testInCharField (the (buildCharField ts))) (hd ts) r s))"

text \<open>
  \<open>bsreada\<close>: the loop moves the buffer, or what was read into it, to the result. \<open>l\<close> is the number of bytes
  in the buffer, \<open>n\<close> the length to reach.
\<close>

partial_function (option) read_loop ::
  "'p bNread \<Rightarrow> (nat \<Rightarrow> bmem) \<Rightarrow> int \<Rightarrow> nat \<Rightarrow> int \<Rightarrow> int \<Rightarrow> bstr \<Rightarrow> bstr \<Rightarrow> 'p bStream \<Rightarrow> (int \<times> bstr \<times> 'p bStream) option" where
  "read_loop rd mem n k orslen l bf r s =
     (let answer = (\<lambda>r'. if bs_slen r' = orslen then BSTR_ERR else BSTR_OK) in
      if c_int (l + bs_slen r) \<ge> n then do {
        (ret, r1) \<leftarrow> bconcat (mem k) (mem k) r (Sep (part_of (the (bs_data bf)) 0 (n - bs_slen r)));
        if ret = BSTR_OK then do {
          (_, bf1) \<leftarrow> bdelete (bf\<lparr>bs_slen := l\<rparr>) 0 (n - bs_slen r);
          Some (answer r1, r1, s\<lparr>st_buff := Some bf1\<rparr>) }
        else Some (answer r1, r1, s\<lparr>st_buff := Some (bf\<lparr>bs_slen := l\<rparr>)\<rparr>) }
      else do {
        (ret, r1) \<leftarrow> bconcat (mem k) (mem k) r (Sep (part_of (the (bs_data bf)) 0 l));
        if ret \<noteq> BSTR_OK then
          Some (answer r1, r1, s\<lparr>st_isEOF := (st_isEOF s \<or> l = 0), st_buff := Some (bf\<lparr>bs_slen := l\<rparr>)\<rparr>)
        else do {
          let l1 = (if n - bs_slen r1 > st_maxBuffSz s then st_maxBuffSz s else n - bs_slen r1);
          let (xs, p') = rd (st_parm s) (nat l1);
          d \<leftarrow> memcpy_at (the (bs_data bf)) 0 xs;
          let s1 = s\<lparr>st_parm := p'\<rparr>;
          let bf1 = bf\<lparr>bs_data := Some d\<rparr>;
          if xs \<noteq> [] then read_loop rd mem n (Suc k) orslen (int (length xs)) bf1 r1 s1
          else Some (answer r1, r1, s1\<lparr>st_isEOF := True, st_buff := Some (bf1\<lparr>bs_slen := 0\<rparr>)\<rparr>) } })"

definition bsreada :: "'p bNread \<Rightarrow> (nat \<Rightarrow> bmem) \<Rightarrow> bstr \<Rightarrow> 'p bStream \<Rightarrow> int \<Rightarrow> (int \<times> bstr \<times> 'p bStream) option" where
  "bsreada rd mem r s len =
     (if st_buff s = None \<or> bad_header r \<or> len \<le> 0 then Some (BSTR_ERR, r, s)
      else let n = c_int (len + bs_slen r); l = bs_slen (the (st_buff s)) in
      if n \<le> 0 then Some (BSTR_ERR, r, s)
      else if l = 0 \<and> st_isEOF s then Some (BSTR_ERR, r, s)
      else if l = 0 \<and> bs_mlen r > n then do {
        let (xs, p') = rd (st_parm s) (nat (n - bs_slen r));
        d \<leftarrow> memcpy_at (the (bs_data r)) (nat (bs_slen r)) xs;
        let s1 = s\<lparr>st_parm := p'\<rparr>;
        if xs = [] \<or> int (length xs) > n - bs_slen r then Some (BSTR_ERR, r\<lparr>bs_data := Some d\<rparr>, s1\<lparr>st_isEOF := True\<rparr>)
        else map_option (\<lambda>(_, r'). (0, r', s1)) (store r (Some d) (bs_slen r + int (length xs))) }
      else do {
        (rc, bf) \<leftarrow> balloc (mem 0) (the (st_buff s)) (c_int (st_maxBuffSz s + 1));
        if rc \<noteq> BSTR_OK then Some (BSTR_ERR, r, s\<lparr>st_buff := Some bf\<rparr>)
        else read_loop rd mem n 1 (bs_slen r) l bf r s })"

text \<open>The variants that replace the string. They ask for the buffer first.\<close>

definition after_buffer ::
  "bmem \<Rightarrow> bstr \<Rightarrow> 'p bStream \<Rightarrow> (bstr \<Rightarrow> 'p bStream \<Rightarrow> (int \<times> bstr \<times> 'p bStream) option) \<Rightarrow> (int \<times> bstr \<times> 'p bStream) option" where
  "after_buffer m r s f = do {
     (rc, bf) \<leftarrow> balloc m (the (st_buff s)) (c_int (st_maxBuffSz s + 1));
     if rc \<noteq> BSTR_OK then Some (BSTR_ERR, r, s\<lparr>st_buff := Some bf\<rparr>)
     else f (r\<lparr>bs_slen := 0\<rparr>) (s\<lparr>st_buff := Some bf\<rparr>) }"

definition bsreadln :: "'p bNread \<Rightarrow> bmem \<Rightarrow> (nat \<Rightarrow> bmem) \<Rightarrow> bstr \<Rightarrow> 'p bStream \<Rightarrow> byte \<Rightarrow> (int \<times> bstr \<times> 'p bStream) option" where
  "bsreadln rd m mem r s trm =
     (if st_buff s = None \<or> bs_mlen r \<le> 0 then Some (BSTR_ERR, r, s)
      else after_buffer m r s (\<lambda>r' s'. bsreadlna rd mem r' s' trm))"

definition bsreadlns :: "'p bNread \<Rightarrow> bmem \<Rightarrow> (nat \<Rightarrow> bmem) \<Rightarrow> bstr \<Rightarrow> 'p bStream \<Rightarrow> bstr \<Rightarrow> (int \<times> bstr \<times> 'p bStream) option" where
  "bsreadlns rd m mem r s trm =
     (if st_buff s = None \<or> bs_data trm = None \<or> bs_mlen r \<le> 0 then Some (BSTR_ERR, r, s)
      else if bs_slen trm < 1 then Some (BSTR_ERR, r, s)
      else if bs_slen trm = 1 then str_of trm \<bind> (\<lambda>ts. bsreadln rd m mem r s (hd ts))
      else after_buffer m r s (\<lambda>r' s'. bsreadlnsa rd mem r' s' trm))"

definition bsread :: "'p bNread \<Rightarrow> bmem \<Rightarrow> (nat \<Rightarrow> bmem) \<Rightarrow> bstr \<Rightarrow> 'p bStream \<Rightarrow> int \<Rightarrow> (int \<times> bstr \<times> 'p bStream) option" where
  "bsread rd m mem r s n =
     (if st_buff s = None \<or> bs_mlen r \<le> 0 \<or> n \<le> 0 then Some (BSTR_ERR, r, s)
      else after_buffer m r s (\<lambda>r' s'. bsreada rd mem r' s' n))"

definition bsunread :: "bmem \<Rightarrow> bmem \<Rightarrow> 'p bStream \<Rightarrow> bstr \<Rightarrow> (int \<times> 'p bStream) option" where
  "bsunread mc m s b =
     (case st_buff s of None \<Rightarrow> Some (BSTR_ERR, s)
      | Some buff \<Rightarrow> map_option (\<lambda>(rc, buff'). (rc, s\<lparr>st_buff := Some buff'\<rparr>)) (binsert mc m buff 0 (Sep b) 63))"

definition bspeek :: "bmem \<Rightarrow> bstr \<Rightarrow> 'p bStream \<Rightarrow> (int \<times> bstr) option" where
  "bspeek m r s = (case st_buff s of None \<Rightarrow> Some (BSTR_ERR, r) | Some buff \<Rightarrow> bassign m r (Sep buff))"

end
