(* ===== verification/Bstr_Queue.thy ===== *)
theory Bstr_Queue
  imports Bstr_Stream
begin

text \<open>
  A stream is a queue of bytes: the buffer, and behind it what the source still has. Reading takes bytes
  from its front and unreading puts them there, wherever the blocks of the source begin and end.
\<close>

section \<open>Strings without their zero\<close>

text \<open>The buffer of a stream has room for a zero, which need not be there.\<close>

definition opened :: "bstr \<Rightarrow> byte list \<Rightarrow> bool" where
  "opened b xs \<longleftrightarrow> (\<exists>d. bs_data b = Some d \<and> starts d xs \<and> bs_slen b = int (length xs) \<and> bs_mlen b = int (length d)
     \<and> length xs < length d \<and> length d < 2 ^ 31)"

lemma openedE:
  assumes "opened b xs"
  obtains d where "bs_data b = Some d" "starts d xs" "bs_slen b = int (length xs)" "bs_mlen b = int (length d)"
    "length xs < length d" "length d < 2 ^ 31"
  using assms by (auto simp: opened_def)

lemma holds_opened: "holds b xs \<Longrightarrow> opened b xs"
  by (auto simp: opened_def elim: holds_starts)

lemma opened_writable: "opened b xs \<Longrightarrow> \<not> not_writable b \<and> \<not> bad_header b"
  by (auto simp: opened_def not_writable_def bad_header_def)

lemma balloc_opened:
  assumes "opened b xs" "0 < olen" "olen < 2 ^ 31" "m_snap m"
  shows "\<exists>b'. balloc m b olen = Some (BSTR_OK, b') \<and> opened b' xs \<and> olen \<le> bs_mlen b' \<and> (holds b xs \<longrightarrow> holds b' xs)"
proof -
  have "full b xs" "int (length xs) < max olen (bs_mlen b)" using assms(1) by (auto simp: opened_def full_def starts_def less_max_iff_disj)
  from balloc_full [OF this(1) assms(2,3) this(2), of m] show ?thesis using assms(1,4) holds_opened by auto
qed

lemma opened_end:
  assumes "opened b xs" "bs_data b = Some d"
  shows "\<exists>d'. poke d (int (length xs)) 0 = Some d' \<and> holds (b\<lparr>bs_data := Some d'\<rparr>) xs"
proof -
  have d: "take (length xs) d = map Some xs" "length xs < length d" "length d < 2 ^ 31" "bs_slen b = int (length xs)" "bs_mlen b = int (length d)"
    using assms by (auto simp: opened_def starts_def)
  have "b\<lparr>bs_data := x, bs_mlen := int (length d)\<rparr> = b\<lparr>bs_data := x\<rparr>" for x using d(5) by (cases b) simp
  then show ?thesis using holds_poke [OF d(1-4)] d(4) by simp
qed

lemma part_reads: "starts d xs \<Longrightarrow> k \<le> length xs \<Longrightarrow> reads (part_of d 0 (int k)) (take k xs)"
  using starts_read [of d xs 0 k] by (simp add: reads_def part_of_def)

lemma bdelete_opened:
  assumes b: "opened b xs" and k: "0 < k" "k \<le> length xs"
  shows "finished (drop k xs) (bdelete b 0 (int k))"
proof -
  obtain d where d: "bs_data b = Some d" "starts d xs" "bs_slen b = int (length xs)" "bs_mlen b = int (length d)"
    "length xs < length d" "length d < 2 ^ 31" using b by (rule openedE)
  have c: "c_int (0 + int k) = int k" using k d(5,6) by (subst c_int_range) auto
  show ?thesis
  proof (cases "k = length xs")
    case True
    moreover have "d \<noteq> []" using d(5) by auto
    then have "finished [] (store b (Some d) 0)" using store_starts [of d "[]" b] d by (simp add: starts_def)
    ultimately show ?thesis using d(1,3) k c opened_writable [OF b] by (simp add: bdelete_def)
  next
    case False
    let ?ys = "drop k xs"
    have "read_block d (nat (int k)) (length ?ys) = Some ?ys" using starts_read [OF d(2), of k "length ?ys"] k by simp
    moreover have "0 + length ?ys \<le> length d" using d(5) by simp
    ultimately obtain d' where d': "copy_from d (int 0) d (int k) (int (length ?ys)) = Some d'" "length d' = length d"
      "starts d' (take 0 xs @ ?ys @ drop (0 + length ?ys) xs)"
      using starts_copy [OF d(2), of 0 ?ys "int k" d] by auto
    have "starts d' ?ys" using starts_take [OF d'(3), of "length ?ys"] by simp
    from store_starts [OF this, of b] show ?thesis using d d' k False c opened_writable [OF b]
      by (auto simp: bdelete_def Let_def of_nat_diff)
  qed
qed

lemma binsert_opened:
  assumes b: "opened b xs" and v: "reads v ys" and len: "length xs + length ys + 1 < 2 ^ 31" and m: "m_snap m"
  shows "finished (ys @ xs) (binsert mc m b 0 (Sep v) c)"
proof -
  obtain da where da: "bs_slen v = int (length ys)" "bs_data v = Some da" "read_block da 0 (length ys) = Some ys" using v by (rule readsE)
  note w = opened_writable [OF b]
  have sl: "bs_slen b = int (length xs)" using b by (auto elim: openedE)
  have ci: "c_int (int (length xs) + int (length ys)) = int (length xs) + int (length ys)" "c_int (int (length ys)) = int (length ys)"
    "c_int (int (length xs) + int (length ys) + 1) = int (length xs) + int (length ys) + 1"
    using len by (auto intro!: c_int_range)
  obtain b' where b': "balloc m b (int (length xs) + int (length ys) + 1) = Some (BSTR_OK, b')" "opened b' xs"
    "int (length xs) + int (length ys) + 1 \<le> bs_mlen b'" using balloc_opened [OF b _ _ m, of "int (length xs) + int (length ys) + 1"] len by auto
  obtain d where d: "bs_data b' = Some d" "starts d xs" "bs_mlen b' = int (length d)" "length d < 2 ^ 31" using b'(2) by (rule openedE)
  have fit: "length xs + length ys < length d" using b'(3) d(3) by simp
  then obtain d1 d2 where m: "copy_from d (int (length ys)) d 0 (int (length xs)) = Some d1"
    "copy_from d1 0 da 0 (int (length ys)) = Some d2" "length d2 = length d" "starts d2 (ys @ xs)"
    using move_insert [OF d(2), of 0 ys da] da(3) by auto
  have "finished (ys @ xs) (store b' (Some d2) (int (length (ys @ xs))))" using m d fit by (intro store_starts) auto
  then have "finished (ys @ xs) (store b' (Some d2) (int (length xs) + int (length ys)))" by (simp add: add.commute)
  then show ?thesis using m(1,2) d b'(1) da sl ci w
    by (simp add: binsert_def bcopy_op_def inside_def op_view_def after_alloc_def not_writable_def Let_def)
qed

lemma bconcat_opened:
  assumes b: "opened b xs" and v: "reads v ys" and len: "length xs + length ys + 1 < 2 ^ 31" and m: "m_snap m"
  shows "finished (xs @ ys) (bconcat mc m b (Sep v))"
proof -
  obtain s where s: "bs_slen v = int (length ys)" "bs_data v = Some s" "read_block s 0 (length ys) = Some ys" using v by (rule readsE)
  obtain d where d: "bs_data b = Some d" "bs_slen b = int (length xs)" "bs_mlen b = int (length d)" "length xs < length d" "length d < 2 ^ 31"
    using b by (rule openedE)
  have ci: "c_int (int (length xs) + int (length ys)) = int (length xs) + int (length ys)" "c_int (bs_mlen b - int (length xs)) = bs_mlen b - int (length xs)"
    "c_int (int (length xs) + int (length ys) + 1) = int (length xs) + int (length ys) + 1"
    using len d by (auto intro!: c_int_range)
  have fin: "finished (xs @ ys) (store b' (copy_from (the (bs_data b')) (int (length xs)) s 0 (int (length ys))) (int (length xs) + int (length ys)))"
    if b': "opened b' xs" "int (length xs) + int (length ys) < bs_mlen b'" for b'
  proof -
    obtain d' where d': "bs_data b' = Some d'" "starts d' xs" "bs_mlen b' = int (length d')" "length d' < 2 ^ 31" using b'(1) by (rule openedE)
    have "length xs + length ys \<le> length d'" using b'(2) d'(3) by simp
    then obtain d2 where "copy_from d' (int (length xs)) s 0 (int (length ys)) = Some d2" "length d2 = length d'" "starts d2 (take (length xs) xs @ ys @ drop (length xs + length ys) xs)"
      using starts_copy [OF d'(2), of "length xs" ys 0 s] s(3) by auto
    then show ?thesis using store_starts [of d2 "xs @ ys" b'] d' b'(2) by simp
  qed
  show ?thesis
  proof (cases "bs_mlen b \<le> int (length xs) + int (length ys) + 1")
    case True
    obtain b' where b': "balloc m b (int (length xs) + int (length ys) + 1) = Some (BSTR_OK, b')" "opened b' xs" "int (length xs) + int (length ys) + 1 \<le> bs_mlen b'"
      using balloc_opened [OF b _ _ m, of "int (length xs) + int (length ys) + 1"] len by auto
    then show ?thesis using fin [OF b'(2)] True d s ci by (simp add: bconcat_def bcopy_op_def inside_def op_view_def after_alloc_def Let_def)
  next
    case False
    then show ?thesis using fin [OF b] d s ci by (simp add: bconcat_def op_view_def Let_def)
  qed
qed

section \<open>Sources\<close>

text \<open>
  What the code relies on: \<open>fread\<close> gives as many bytes as it is asked for, or as many as there are.
  \<open>content\<close> is what the source still has.
\<close>

definition fread_like :: "'p bNread \<Rightarrow> ('p \<Rightarrow> byte list) \<Rightarrow> bool" where
  "fread_like rd content \<longleftrightarrow> (\<forall>p n. fst (rd p n) = take n (content p) \<and> content (snd (rd p n)) = drop n (content p))"

lemma fread_likeE:
  assumes "fread_like rd content"
  obtains p' where "rd p n = (take n (content p), p')" "content p' = drop n (content p)"
  using assms by (cases "rd p n") (metis fread_like_def fst_conv snd_conv)

definition plenty :: "(nat \<Rightarrow> bmem) \<Rightarrow> bool" where
  "plenty mem \<longleftrightarrow> (\<forall>k. m_snap (mem k))"

text \<open>The first line of a text, with its terminator if it has one, and what follows.\<close>

definition line :: "(byte \<Rightarrow> bool) \<Rightarrow> byte list \<Rightarrow> byte list" where
  "line P t = takeWhile (\<lambda>x. \<not> P x) t @ take 1 (dropWhile (\<lambda>x. \<not> P x) t)"

definition after_line :: "(byte \<Rightarrow> bool) \<Rightarrow> byte list \<Rightarrow> byte list" where
  "after_line P t = drop 1 (dropWhile (\<lambda>x. \<not> P x) t)"

lemma line_split: "line P t @ after_line P t = t"
  by (simp add: line_def after_line_def)

lemma line_append_none: "(\<And>x. x \<in> set xs \<Longrightarrow> \<not> P x) \<Longrightarrow> line P (xs @ t) = xs @ line P t \<and> after_line P (xs @ t) = after_line P t"
  by (induction xs) (auto simp: line_def after_line_def)

lemma line_first:
  assumes "i < length t" "i = length (takeWhile (\<lambda>x. \<not> P x) t)"
  shows "line P (t @ u) = take (i + 1) t \<and> after_line P (t @ u) = drop (i + 1) t @ u"
  using assms
proof (induction t arbitrary: i)
  case (Cons x t)
  then show ?case by (cases "P x") (auto simp: line_def after_line_def)
qed simp

lemma line_here:
  assumes "takeWhile (\<lambda>x. \<not> P x) t = t"
  shows "\<And>x. x \<in> set t \<Longrightarrow> \<not> P x"
  using assms by (metis set_takeWhileD)

lemma scan_text:
  assumes "drop off d = map Some ys @ Some c # r" "P c" "off \<le> length d"
  shows "scan P d off = Some (int (length (takeWhile (\<lambda>x. \<not> P x) ys)))"
proof -
  let ?Q = "\<lambda>c. case c of None \<Rightarrow> False | Some x \<Rightarrow> \<not> P x"
  have tw: "takeWhile ?Q (drop off d) = map Some (takeWhile (\<lambda>x. \<not> P x) ys)" unfolding assms(1) using assms(2) by (induction ys) auto
  let ?n = "length (takeWhile (\<lambda>x. \<not> P x) ys)"
  have n: "?n \<le> length ys" by (rule length_takeWhile_le)
  have ld: "length d = off + length ys + 1 + length r" using arg_cong [OF assms(1), of length] assms(3) by simp
  have "d ! (off + ?n) = (map Some ys @ Some c # r) ! ?n" using assms(3) by (simp add: nth_drop [symmetric] assms(1) del: nth_drop)
  also have "\<dots> \<noteq> None" using n by (cases "?n = length ys") (auto simp: nth_append)
  finally show ?thesis using tw n ld by (simp add: scan_def Let_def)
qed

section \<open>Lines\<close>

definition stream_has :: "('p \<Rightarrow> byte list) \<Rightarrow> 'p bStream \<Rightarrow> byte list \<Rightarrow> bool" where
  "stream_has content s t \<longleftrightarrow> (\<exists>bf bs n. st_buff s = Some bf \<and> opened bf bs \<and> t = bs @ content (st_parm s)
     \<and> st_maxBuffSz s = int n \<and> 0 < n \<and> n < 2 ^ 28 \<and> (st_isEOF s \<longrightarrow> content (st_parm s) = []))"

text \<open>What an operation has done: a result, the string, and what the stream has left.\<close>

definition took :: "('p \<Rightarrow> byte list) \<Rightarrow> int \<Rightarrow> byte list \<Rightarrow> byte list \<Rightarrow> (int \<times> bstr \<times> 'p bStream) option \<Rightarrow> bool" where
  "took content rc xs t res \<longleftrightarrow> (\<exists>r s. res = Some (rc, r, s) \<and> holds r xs \<and> stream_has content s t)"

text \<open>One block behind the string, and the sentinel behind it.\<close>

lemma block_behind:
  assumes "opened r A" "length A + n + 1 \<le> nat (bs_mlen r)" "length ys \<le> n" "P c"
  shows "\<exists>d d1 R. memcpy_at (the (bs_data r)) (nat (bs_slen r)) ys = Some d \<and> poke d (bs_slen r + int (length ys)) c = Some d1
    \<and> length d1 = nat (bs_mlen r) \<and> d1 = map Some (A @ ys) @ Some c # R
    \<and> scan P d1 (nat (bs_slen r)) = Some (int (length (takeWhile (\<lambda>x. \<not> P x) ys)))"
proof -
  obtain d0 where d0: "bs_data r = Some d0" "starts d0 A" "bs_slen r = int (length A)" "bs_mlen r = int (length d0)" using assms(1) by (rule openedE)
  obtain q where q: "d0 = map Some A @ q" using d0(2) by (auto simp: starts_def)
  have len: "length ys < length q" using assms(2,3) d0(4) q by simp
  let ?d = "map Some (A @ ys) @ drop (length ys) q" and ?R = "drop (Suc (length ys)) q"
  have m: "memcpy_at d0 (length A) ys = Some ?d" using len by (simp add: memcpy_at_def q)
  obtain z where z: "drop (length ys) q = z # ?R" using len by (metis Cons_nth_drop_Suc)
  have "?d[length A + length ys := Some c] = map Some (A @ ys) @ Some c # ?R" unfolding z by (simp add: list_update_append)
  then have p: "poke ?d (int (length A) + int (length ys)) c = Some (map Some (A @ ys) @ Some c # ?R)"
    using len by (simp add: poke_def nat_int_add)
  have "drop (length A) (map Some (A @ ys) @ Some c # ?R) = map Some ys @ Some c # ?R" by simp
  from scan_text [OF this, of P] assms(4) have "scan P (map Some (A @ ys) @ Some c # ?R) (length A) = Some (int (length (takeWhile (\<lambda>x. \<not> P x) ys)))" by simp
  then show ?thesis using m p d0 len q by (intro exI conjI) auto
qed

text \<open>One round of the loop, with the block \<open>ys\<close> that it reads.\<close>

definition until_round ::
  "(byte \<Rightarrow> bool) \<Rightarrow> int \<Rightarrow> byte list \<Rightarrow> byte list \<Rightarrow> block \<Rightarrow> block \<Rightarrow> bstr \<Rightarrow> 'p \<Rightarrow> bstr \<Rightarrow> 'p bStream \<Rightarrow>
   (bstr \<Rightarrow> 'p bStream \<Rightarrow> (int \<times> bstr \<times> 'p bStream) option) \<Rightarrow> (int \<times> bstr \<times> 'p bStream) option" where
  "until_round P rlo A ys d d1 r1 p' bf s go_on =
      (if ys = [] then map_option (\<lambda>d'. (if int (length A) = rlo then BSTR_ERR else BSTR_OK, r1\<lparr>bs_data := Some d'\<rparr>,
           s\<lparr>st_parm := p', st_isEOF := True, st_buff := Some (bf\<lparr>bs_slen := 0\<rparr>)\<rparr>)) (poke d (int (length A)) 0)
       else let i = int (length (takeWhile (\<lambda>x. \<not> P x) ys)) in
         if i < int (length ys) then do {
           zs \<leftarrow> read_block d1 (nat (int (length A) + i + 1)) (nat (int (length ys) - (i + 1)));
           bd \<leftarrow> memcpy_at (the (bs_data bf)) 0 zs;
           (_, r2) \<leftarrow> store r1 (Some d1) (int (length A) + i + 1);
           Some (BSTR_OK, r2, s\<lparr>st_parm := p', st_buff := Some (bf\<lparr>bs_data := Some bd, bs_slen := int (length ys) - (i + 1)\<rparr>)\<rparr>) }
         else go_on (r1\<lparr>bs_data := Some d1, bs_slen := c_int (int (length A) + int (length ys))\<rparr>) (s\<lparr>st_parm := p'\<rparr>))"

lemma until_loop_round:
  assumes rd: "fread_like rd content" and mem: "plenty mem" and c: "P c"
    and r: "opened r A" "length A < 2 ^ 28" and s: "st_buff s = Some bf" "st_maxBuffSz s = int n" "n < 2 ^ 28"
    and ys: "ys = take n (content (st_parm s))"
  obtains p' r1 d d1 R where "content p' = drop n (content (st_parm s))" "opened r1 A"
    "memcpy_at (the (bs_data r1)) (length A) ys = Some d" "d1 = map Some (A @ ys) @ Some c # R" "bs_mlen r1 = int (length d1)" "length d1 < 2 ^ 31"
    "until_loop rd mem P c k rlo r s = until_round P rlo A ys d d1 r1 p' bf s (until_loop rd mem P c (Suc k) rlo)"
proof -
  obtain p' where p': "rd (st_parm s) n = (ys, p')" "content p' = drop n (content (st_parm s))" using rd ys by (auto elim: fread_likeE)
  have ci: "c_int (bs_slen r + st_maxBuffSz s + 1) = int (length A + n + 1)" using r s by (subst c_int_range) (auto elim!: openedE)
  obtain r1 where r1: "balloc (mem k) r (int (length A + n + 1)) = Some (BSTR_OK, r1)" "opened r1 A" "int (length A + n + 1) \<le> bs_mlen r1"
    using balloc_opened [OF r(1), of "int (length A + n + 1)" "mem k"] r(2) s(3) mem by (auto simp: plenty_def)
  have sl: "bs_slen r1 = int (length A)" using r1(2) by (auto elim: openedE)
  have "length A + n + 1 \<le> nat (bs_mlen r1)" "length ys \<le> n" using r1(3) ys by simp_all
  then obtain d d1 R where b: "memcpy_at (the (bs_data r1)) (length A) ys = Some d" "poke d (int (length A) + int (length ys)) c = Some d1"
    "length d1 = nat (bs_mlen r1)" "d1 = map Some (A @ ys) @ Some c # R"
    "scan P d1 (length A) = Some (int (length (takeWhile (\<lambda>x. \<not> P x) ys)))"
    using block_behind [of r1 A n ys P c] r1(2) c by (auto simp: sl)
  have m1: "bs_mlen r1 = int (length d1)" "length d1 < 2 ^ 31" using b(3) r1(2) by (auto elim: openedE)
  show thesis
    by (rule that [OF p'(2) r1(2) b(1,4) m1], subst until_loop.simps)
      (use ci r1(1) p'(1) sl b s(1,2) in \<open>simp add: Let_def until_round_def\<close>)
qed

lemma stream_hasI:
  "st_buff s = Some bf \<Longrightarrow> opened bf bs \<Longrightarrow> st_maxBuffSz s = int n \<Longrightarrow> 0 < n \<Longrightarrow> n < 2 ^ 28 \<Longrightarrow> (st_isEOF s \<longrightarrow> content (st_parm s) = []) \<Longrightarrow>
   stream_has content s (bs @ content (st_parm s))"
  by (auto simp: stream_has_def)

lemma opened_empty: "opened bf bs \<Longrightarrow> opened (bf\<lparr>bs_slen := 0\<rparr>) []"
  by (auto simp: opened_def starts_def)

lemma until_round_eof:
  assumes r1: "opened r1 A" "memcpy_at (the (bs_data r1)) (length A) [] = Some d" and bf: "opened bf bs"
    and s: "st_maxBuffSz s = int n" "0 < n" "n < 2 ^ 28" "content p' = []"
  shows "took content (if int (length A) = rlo then BSTR_ERR else BSTR_OK) A [] (until_round P rlo A [] d d1 r1 p' bf s go_on)"
proof -
  obtain d0 where d0: "bs_data r1 = Some d0" "length A < length d0" using r1(1) by (rule openedE)
  have "d = d0" using r1(2) d0 by (auto simp: memcpy_at_def)
  then obtain d' where d': "poke d (int (length A)) 0 = Some d'" "holds (r1\<lparr>bs_data := Some d'\<rparr>) A"
    using opened_end [OF r1(1) d0(1)] by blast
  have "stream_has content (s\<lparr>st_parm := p', st_isEOF := True, st_buff := Some (bf\<lparr>bs_slen := 0\<rparr>)\<rparr>) []"
    using stream_hasI [OF _ opened_empty [OF bf] _ s(2,3), of "s\<lparr>st_parm := p', st_isEOF := True, st_buff := Some (bf\<lparr>bs_slen := 0\<rparr>)\<rparr>" content] s by simp
  then show ?thesis using d' by (auto simp: took_def until_round_def)
qed

lemma until_round_found:
  assumes i: "i = length (takeWhile (\<lambda>x. \<not> P x) ys)" "i < length ys"
    and d1: "d1 = map Some (A @ ys) @ Some c # R" "bs_mlen r1 = int (length d1)" "length d1 < 2 ^ 31"
    and bf: "opened bf bs" "int n < bs_mlen bf" "length ys \<le> n"
    and s: "st_maxBuffSz s = int n" "0 < n" "n < 2 ^ 28" "st_isEOF s \<longrightarrow> content p' = []"
  shows "took content BSTR_OK (A @ take (i + 1) ys) (drop (i + 1) ys @ content p') (until_round P rlo A ys d d1 r1 p' bf s go_on)"
proof -
  obtain bd where bd: "bs_data bf = Some bd" "bs_mlen bf = int (length bd)" "length bd < 2 ^ 31" using bf(1) by (rule openedE)
  have rb: "read_block d1 (nat (int (length A) + int i + 1)) (nat (int (length ys) - (int i + 1))) = Some (drop (i + 1) ys)"
  proof -
    have "nat (int (length A) + int i + 1) = length A + i + 1" "nat (int (length ys) - (int i + 1)) = length ys - (i + 1)" by linarith+
    then show ?thesis using read_part [of "length A + i + 1" "length ys - (i + 1)" "A @ ys" "Some c # R"] d1(1) i(2) by simp
  qed
  let ?zs = "drop (i + 1) ys"
  let ?bf = "bf\<lparr>bs_data := Some (map Some ?zs @ drop (length ?zs) bd), bs_slen := int (length ys) - (int i + 1)\<rparr>"
  let ?s = "s\<lparr>st_parm := p', st_buff := Some ?bf\<rparr>"
  have mc: "memcpy_at bd 0 ?zs = Some (map Some ?zs @ drop (length ?zs) bd)" using bf(2,3) bd(2) i(2) by (simp add: memcpy_at_def)
  have ob: "opened ?bf ?zs" using bf(2,3) bd(2,3) i(2) by (auto simp: opened_def starts_def of_nat_diff)
  have "starts d1 (A @ take (i + 1) ys)" using starts_take [of d1 "A @ ys" "length A + (i + 1)"] d1(1) by (simp add: starts_def)
  then have "finished (A @ take (i + 1) ys) (store r1 (Some d1) (int (length (A @ take (i + 1) ys))))"
    using d1 i(2) by (intro store_starts) auto
  moreover have L: "int (length (A @ take (i + 1) ys)) = int (length A) + int i + 1" using i(2) by simp
  ultimately obtain r2 where r2: "store r1 (Some d1) (int (length A) + int i + 1) = Some (BSTR_OK, r2)" "holds r2 (A @ take (i + 1) ys)"
    unfolding finished_def L by blast
  have "until_round P rlo A ys d d1 r1 p' bf s go_on = Some (BSTR_OK, r2, ?s)"
    using i(2) rb mc r2(1) bd(1) unfolding until_round_def i(1) [symmetric] by (cases ys) (auto simp: Let_def)
  moreover have "stream_has content ?s (?zs @ content p')" using stream_hasI [OF _ ob _ s(2,3), of ?s content] s(1,4) by simp
  ultimately show ?thesis using r2(2) by (auto simp: took_def)
qed

lemma until_loop_took:
  assumes rd: "fread_like rd content" and mem: "plenty mem" and c: "P c" and n: "0 < n" "n < 2 ^ 28"
  shows "opened r A \<Longrightarrow> st_buff s = Some bf \<Longrightarrow> opened bf bs \<Longrightarrow> int n < bs_mlen bf \<Longrightarrow> st_maxBuffSz s = int n \<Longrightarrow>
    st_isEOF s \<longrightarrow> content (st_parm s) = [] \<Longrightarrow> rlo \<le> int (length A) \<Longrightarrow> length A + length (content (st_parm s)) < 2 ^ 28 \<Longrightarrow>
    took content (if content (st_parm s) = [] \<and> int (length A) = rlo then BSTR_ERR else BSTR_OK)
      (A @ line P (content (st_parm s))) (after_line P (content (st_parm s))) (until_loop rd mem P c k rlo r s)"
proof (induction "length (content (st_parm s))" arbitrary: r A s k rule: less_induct)
  case less
  note prems = less.prems
  let ?t = "content (st_parm s)"
  define ys where "ys = take n ?t"
  have A: "length A < 2 ^ 28" using prems(8) by simp
  from until_loop_round [of rd content mem P c r A s bf n ys, OF rd mem c prems(1) A prems(2,5) n(2) ys_def, of k rlo]
  obtain p' r1 d d1 R where q: "content p' = drop n ?t" "opened r1 A" "memcpy_at (the (bs_data r1)) (length A) ys = Some d"
    "d1 = map Some (A @ ys) @ Some c # R" "bs_mlen r1 = int (length d1)" "length d1 < 2 ^ 31"
    and u: "until_loop rd mem P c k rlo r s = until_round P rlo A ys d d1 r1 p' bf s (until_loop rd mem P c (Suc k) rlo)" by blast
  have t: "?t = ys @ drop n ?t" and ly: "length ys \<le> n" by (simp_all add: ys_def)
  have x: "c_int (int (length A) + int (length ys)) = int (length (A @ ys))" using prems(8) by (subst c_int_range) (auto simp: ys_def)
  have e: "st_isEOF s \<longrightarrow> content p' = []" using prems(6) q(1) by simp
  consider (eof) "ys = []" | (found) i where "i = length (takeWhile (\<lambda>x. \<not> P x) ys)" "i < length ys" | (more) "ys \<noteq> []" "takeWhile (\<lambda>x. \<not> P x) ys = ys"
    by (metis length_takeWhile_le nat_less_le takeWhile_eq_take take_all)
  then show ?case
  proof cases
    case eof
    then have "?t = []" using n(1) by (simp add: ys_def)
    then show ?thesis using until_round_eof [OF q(2) _ prems(3,5) n, of d content p'] q(1,3) u eof by (simp add: line_def after_line_def)
  next
    case (found i)
    have "?t \<noteq> []" using found(2) by (auto simp: ys_def)
    moreover have "line P ?t = take (i + 1) ys \<and> after_line P ?t = drop (i + 1) ys @ drop n ?t"
      using line_first [OF found(2,1), of "drop n ?t"] t by simp
    ultimately show ?thesis using until_round_found [where P = P and content = content and p' = p', OF found q(4-6) prems(3,4) ly prems(5) n e] u q(1) by simp
  next
    case more
    have no: "\<not> P x" if "x \<in> set ys" for x using that more(2) by (metis set_takeWhileD)
    have ln: "line P ?t = ys @ line P (drop n ?t) \<and> after_line P ?t = after_line P (drop n ?t)" using line_append_none [of ys P "drop n ?t"] no t by simp
    let ?r = "r1\<lparr>bs_data := Some d1, bs_slen := int (length (A @ ys))\<rparr>" and ?s = "s\<lparr>st_parm := p'\<rparr>"
    have "length (content p') < length ?t" using more(1) q(1) n(1) by (cases ?t) (auto simp: ys_def)
    moreover have "opened ?r (A @ ys)" using q(4-6) by (auto simp: opened_def starts_def)
    moreover have "length (A @ ys) + length (content p') < 2 ^ 28" using prems(8) q(1) by (simp add: ys_def)
    ultimately have "took content (if content p' = [] \<and> int (length (A @ ys)) = rlo then BSTR_ERR else BSTR_OK)
        ((A @ ys) @ line P (content p')) (after_line P (content p')) (until_loop rd mem P c (Suc k) rlo ?r ?s)"
      using less.hyps [of ?s ?r "A @ ys" "Suc k"] prems(2-7) q(1) by simp
    moreover have "until_loop rd mem P c k rlo r s = until_loop rd mem P c (Suc k) rlo ?r ?s"
      using u more x by (simp add: until_round_def Let_def)
    moreover have "int (length (A @ ys)) \<noteq> rlo" "?t \<noteq> []" using more(1) prems(7) by (cases ys; auto simp: ys_def)+
    ultimately show ?thesis using ln q(1) by simp
  qed
qed

lemma opened_sentinel:
  assumes "opened b bs" "P c"
  shows "\<exists>d. poke (the (bs_data b)) (bs_slen b) c = Some d \<and> scan P d 0 = Some (int (length (takeWhile (\<lambda>x. \<not> P x) bs)))
    \<and> starts d bs \<and> opened (b\<lparr>bs_data := Some d\<rparr>) bs"
proof -
  obtain d0 where d0: "bs_data b = Some d0" "starts d0 bs" "bs_slen b = int (length bs)" "bs_mlen b = int (length d0)" "length bs < length d0" "length d0 < 2 ^ 31"
    using assms(1) by (rule openedE)
  obtain q where q: "d0 = map Some bs @ q" "q \<noteq> []" using d0(2,5) by (auto simp: starts_def)
  then obtain y R where R: "d0 = map Some bs @ y # R" by (cases q) auto
  have "scan P (map Some bs @ Some c # R) 0 = Some (int (length (takeWhile (\<lambda>x. \<not> P x) bs)))"
    using scan_text [of 0 "map Some bs @ Some c # R" bs c R P] assms(2) by simp
  moreover have "poke d0 (int (length bs)) c = Some (map Some bs @ Some c # R)" by (simp add: poke_def R list_update_append)
  ultimately show ?thesis using d0 by (intro exI [of _ "map Some bs @ Some c # R"]) (auto simp: opened_def starts_def R)
qed

lemma bconcat_part:
  assumes "opened r A" "starts d bs" "k \<le> length bs" "length A + k + 1 < 2 ^ 31" "plenty mem"
  shows "\<exists>r1. bconcat (mem j) (mem j) r (Sep (part_of d 0 (int k))) = Some (BSTR_OK, r1) \<and> holds r1 (A @ take k bs)"
  using bconcat_opened [OF assms(1) part_reads [OF assms(2,3)], of "mem j" "mem j"] assms(4,5) by (simp add: finished_def plenty_def)

lemma read_until_took:
  assumes rd: "fread_like rd content" and mem: "plenty mem" and c: "P c"
    and r: "holds r A" and s: "stream_has content s t" and len: "length A + length t < 2 ^ 28"
  shows "took content (if t = [] then BSTR_ERR else BSTR_OK) (A @ line P t) (after_line P t) (read_until rd mem P c r s)"
proof -
  obtain bf bs n where b: "st_buff s = Some bf" "opened bf bs" "t = bs @ content (st_parm s)" "st_maxBuffSz s = int n" "0 < n" "n < 2 ^ 28"
    "st_isEOF s \<longrightarrow> content (st_parm s) = []" using s by (auto simp: stream_has_def)
  have ci: "c_int (int n + 1) = int n + 1" using b(6) by (intro c_int_range) auto
  obtain bf0 where bf0: "balloc (mem 0) bf (int n + 1) = Some (BSTR_OK, bf0)" "opened bf0 bs" "int n + 1 \<le> bs_mlen bf0"
    using balloc_opened [OF b(2), of "int n + 1" "mem 0"] b(5,6) mem by (auto simp: plenty_def)
  have l: "bs_slen bf = int (length bs)" "bs_slen bf0 = int (length bs)" using b(2) bf0(2) by (auto elim: openedE)
  define i where "i = length (takeWhile (\<lambda>x. \<not> P x) bs)"
  obtain d where d: "poke (the (bs_data bf0)) (int (length bs)) c = Some d" "scan P d 0 = Some (int i)" "starts d bs" "opened (bf0\<lparr>bs_data := Some d\<rparr>) bs"
    using opened_sentinel [OF bf0(2), of P c] c l(2) by (auto simp: i_def)
  let ?bf = "bf0\<lparr>bs_data := Some d\<rparr>"
  have lA: "length A + length bs + 1 < 2 ^ 31" using len b(3) by simp
  show ?thesis
  proof (cases "i < length bs")
    case True
    obtain r1 where r1: "bconcat (mem 1) (mem 1) r (Sep (part_of d 0 (int i + 1))) = Some (BSTR_OK, r1)" "holds r1 (A @ take (i + 1) bs)"
      using bconcat_part [OF holds_opened [OF r] d(3), of "i + 1" mem 1] True lA mem by (auto simp: add.commute)
    have "finished (drop (i + 1) bs) (bdelete ?bf 0 (int (i + 1)))" using bdelete_opened [OF d(4), of "i + 1"] True by simp
    then obtain bf2 where bf2: "bdelete ?bf 0 (int i + 1) = Some (BSTR_OK, bf2)" "holds bf2 (drop (i + 1) bs)"
      by (auto simp: finished_def add.commute)
    have ln: "line P t = take (i + 1) bs \<and> after_line P t = drop (i + 1) bs @ content (st_parm s)"
      using line_first [OF True, of P "content (st_parm s)"] b(3) by (simp add: i_def)
    have "read_until rd mem P c r s = Some (BSTR_OK, r1, s\<lparr>st_buff := Some bf2\<rparr>)"
      using b(1,4) ci bf0(1) l d True r1(1) bf2(1) by (simp add: read_until_def Let_def)
    moreover have "stream_has content (s\<lparr>st_buff := Some bf2\<rparr>) (drop (i + 1) bs @ content (st_parm s))"
      using stream_hasI [OF _ holds_opened [OF bf2(2)] _ b(5,6), of "s\<lparr>st_buff := Some bf2\<rparr>" content] b(4,7) by simp
    moreover have "t \<noteq> []" using True b(3) by auto
    ultimately show ?thesis using r1(2) ln by (auto simp: took_def)
  next
    case False
    have i: "i = length bs" using False length_takeWhile_le [of "\<lambda>x. \<not> P x" bs] by (simp add: i_def)
    then have "takeWhile (\<lambda>x. \<not> P x) bs = bs" unfolding i_def by (metis takeWhile_eq_take take_all order_refl)
    then have "\<not> P x" if "x \<in> set bs" for x using that by (metis set_takeWhileD)
    then have ln: "line P t = bs @ line P (content (st_parm s)) \<and> after_line P t = after_line P (content (st_parm s))"
      using line_append_none [of bs P "content (st_parm s)"] b(3) by simp
    obtain r1 where r1: "bconcat (mem 1) (mem 1) r (Sep (part_of d 0 (int (length bs)))) = Some (BSTR_OK, r1)" "holds r1 (A @ bs)"
      using bconcat_part [OF holds_opened [OF r] d(3), of "length bs" mem 1] lA mem by auto
    have "read_until rd mem P c r s = until_loop rd mem P c 2 (int (length A)) r1 (s\<lparr>st_buff := Some ?bf\<rparr>)"
      using b(1,4) ci bf0(1) l d i r1(1) holds_fields(1) [OF r] by (simp add: read_until_def Let_def)
    moreover have "took content (if content (st_parm s) = [] \<and> int (length (A @ bs)) = int (length A) then BSTR_ERR else BSTR_OK)
        ((A @ bs) @ line P (content (st_parm s))) (after_line P (content (st_parm s))) (until_loop rd mem P c 2 (int (length A)) r1 (s\<lparr>st_buff := Some ?bf\<rparr>))"
      using until_loop_took [of rd content mem P c n r1 "A @ bs" "s\<lparr>st_buff := Some ?bf\<rparr>" ?bf bs "int (length A)" 2] rd mem c b(4-7) bf0(3) d(4) holds_opened [OF r1(2)] len b(3) by simp
    ultimately show ?thesis using ln b(3) by (auto split: if_splits)
  qed
qed

lemma bsreadlna_took:
  assumes "fread_like rd content" "plenty mem" "holds r A" "stream_has content s t" "length A + length t < 2 ^ 28"
  shows "took content (if t = [] then BSTR_ERR else BSTR_OK) (A @ line (\<lambda>x. x = c) t) (after_line (\<lambda>x. x = c) t) (bsreadlna rd mem r s c)"
proof -
  have "st_buff s \<noteq> None" "\<not> bad_header r" using assms(3,4) opened_writable [OF holds_opened] by (auto simp: stream_has_def)
  then show ?thesis using read_until_took [OF assms(1,2) _ assms(3-5), of "\<lambda>x. x = c" c] by (auto simp: bsreadlna_def)
qed

lemma bsreadlnsa_took:
  assumes "fread_like rd content" "plenty mem" "holds r A" "stream_has content s t" "length A + length t < 2 ^ 28"
    and v: "reads v cs" "cs \<noteq> []"
  shows "took content (if t = [] then BSTR_ERR else BSTR_OK) (A @ line (\<lambda>x. x \<in> set cs) t) (after_line (\<lambda>x. x \<in> set cs) t) (bsreadlnsa rd mem r s v)"
proof -
  have w: "st_buff s \<noteq> None" "\<not> bad_header r" using assms(3,4) opened_writable [OF holds_opened] by (auto simp: stream_has_def)
  note f = reads_str [OF v(1)]
  show ?thesis
  proof (cases "length cs = 1")
    case True
    then obtain c where "cs = [c]" by (cases cs) auto
    then show ?thesis using bsreadlna_took [OF assms(1-5), of c] w f by (auto simp: bsreadlnsa_def no_string_def)
  next
    case False
    obtain cf where cf: "buildCharField cs = Some cf" using v(2) by (simp add: buildCharField_def)
    have "testInCharField cf = (\<lambda>x. x \<in> set cs)" using charField_exact(1) [OF cf] by blast
    moreover have "1 < length cs" using v(2) False by (cases cs) auto
    ultimately show ?thesis using read_until_took [OF assms(1,2) _ assms(3-5), of "\<lambda>x. x \<in> set cs" "hd cs"] w f cf v(2)
      by (auto simp: bsreadlnsa_def no_string_def)
  qed
qed

section \<open>A number of bytes\<close>

text \<open>\<open>l\<close> bytes are in the buffer, whatever its length field says.\<close>

definition buffered :: "bstr \<Rightarrow> byte list \<Rightarrow> bool" where
  "buffered bf bs \<longleftrightarrow> opened (bf\<lparr>bs_slen := int (length bs)\<rparr>) bs"

text \<open>The last round: the buffer has enough.\<close>

lemma read_loop_last:
  assumes mem: "plenty mem" and r: "opened r A" and bf: "buffered bf bs"
    and m: "length A < m" "m \<le> length A + length bs" "length A + length bs < 2 ^ 29" "orslen \<le> int (length A)"
    and s: "st_maxBuffSz s = int mx" "0 < mx" "mx < 2 ^ 28" "st_isEOF s \<longrightarrow> content (st_parm s) = []"
  shows "took content BSTR_OK (A @ take (m - length A) bs) (drop (m - length A) bs @ content (st_parm s))
    (read_loop rd mem (int m) k orslen (int (length bs)) bf r s)"
proof -
  let ?k = "m - length A"
  obtain d where d: "bs_data bf = Some d" "starts d bs" using bf by (auto simp: buffered_def elim: openedE)
  have sl: "bs_slen r = int (length A)" using r by (rule openedE)
  have ik: "int m - int (length A) = int ?k" "c_int (int (length bs) + int (length A)) = int (length bs) + int (length A)"
    using m by (auto intro!: c_int_range)
  obtain r1 where r1: "bconcat (mem k) (mem k) r (Sep (part_of d 0 (int ?k))) = Some (BSTR_OK, r1)" "holds r1 (A @ take ?k bs)"
    using bconcat_part [OF r d(2) _ _ mem, of ?k k] m by (auto simp: le_diff_conv)
  obtain bf1 where bf1: "bdelete (bf\<lparr>bs_slen := int (length bs)\<rparr>) 0 (int ?k) = Some (BSTR_OK, bf1)" "holds bf1 (drop ?k bs)"
    using bdelete_opened [of "bf\<lparr>bs_slen := int (length bs)\<rparr>" bs ?k] bf m le_diff_conv [of m "length A" "length bs"]
    by (auto simp: buffered_def finished_def)
  have "bs_slen r1 \<noteq> orslen" using holds_fields(1) [OF r1(2)] m by simp
  then have "read_loop rd mem (int m) k orslen (int (length bs)) bf r s = Some (BSTR_OK, r1, s\<lparr>st_buff := Some bf1\<rparr>)"
    unfolding read_loop.simps [of rd mem "int m" k] sl ik Let_def using r1(1) bf1(1) d(1) m by simp
  moreover have "stream_has content (s\<lparr>st_buff := Some bf1\<rparr>) (drop ?k bs @ content (st_parm s))"
    using stream_hasI [OF _ holds_opened [OF bf1(2)] _ s(2,3), of "s\<lparr>st_buff := Some bf1\<rparr>" content] s(1,4) by simp
  ultimately show ?thesis using r1(2) by (auto simp: took_def)
qed

lemma read_loop_took:
  assumes rd: "fread_like rd content" and mem: "plenty mem" and mx: "0 < mx" "mx < 2 ^ 28" and m: "m < 2 ^ 28"
  shows "opened r A \<Longrightarrow> buffered bf bs \<Longrightarrow> int mx < bs_mlen bf \<Longrightarrow> length bs < 2 ^ 28 \<Longrightarrow> length A < m \<Longrightarrow>
    st_maxBuffSz s = int mx \<Longrightarrow> (st_isEOF s \<longrightarrow> content (st_parm s) = []) \<Longrightarrow> orslen \<le> int (length A) \<Longrightarrow>
    took content (if bs @ content (st_parm s) = [] \<and> int (length A) = orslen then BSTR_ERR else BSTR_OK)
      (A @ take (m - length A) (bs @ content (st_parm s))) (drop (m - length A) (bs @ content (st_parm s)))
      (read_loop rd mem (int m) k orslen (int (length bs)) bf r s)"
proof (induction "2 * (m - length A) + (if bs = [] then 1 else 0)" arbitrary: r A bf bs s k rule: less_induct)
  case less
  note prems = less.prems
  let ?t = "content (st_parm s)"
  show ?case
  proof (cases "m \<le> length A + length bs")
    case True
    then have "bs @ ?t \<noteq> []" "m - length A \<le> length bs" using prems(5) by auto
    then show ?thesis using read_loop_last [of mem r A bf bs m orslen s mx content rd k] mem prems True mx m by auto
  next
    case False
    obtain d where d: "bs_data bf = Some d" "starts d bs" "bs_mlen bf = int (length d)" "length d < 2 ^ 31" using prems(2) by (auto simp: buffered_def elim: openedE)
    have sl: "bs_slen r = int (length A)" using prems(1) by (rule openedE)
    have ci: "c_int (int (length bs) + int (length A)) = int (length bs) + int (length A)" using False m by (intro c_int_range) auto
    obtain r1 where r1: "bconcat (mem k) (mem k) r (Sep (part_of d 0 (int (length bs)))) = Some (BSTR_OK, r1)" "holds r1 (A @ bs)"
      using bconcat_part [OF prems(1) d(2), of "length bs" mem k] False m mem by auto
    have sl1: "bs_slen r1 = int (length (A @ bs))" using holds_fields(1) [OF r1(2)] .
    define l where "l = min mx (m - length (A @ bs))"
    have l: "0 < l" "(if int m - bs_slen r1 > int mx then int mx else int m - bs_slen r1) = int l" using False mx(1) sl1 by (auto simp: l_def min_def)
    obtain p' where p': "rd (st_parm s) l = (take l ?t, p')" "content p' = drop l ?t" using rd by (rule fread_likeE)
    define xs where "xs = take l ?t"
    let ?d = "map Some xs @ drop (length xs) d"
    have lx: "length xs \<le> mx" "length xs < length d" using prems(3) d(3) by (auto simp: xs_def l_def)
    have mc: "memcpy_at d 0 xs = Some ?d" using lx(2) by (simp add: memcpy_at_def)
    have bf1: "buffered (bf\<lparr>bs_data := Some ?d\<rparr>) xs" using lx d(3,4) by (auto simp: buffered_def opened_def starts_def)
    have u: "read_loop rd mem (int m) k orslen (int (length bs)) bf r s =
        (if xs \<noteq> [] then read_loop rd mem (int m) (Suc k) orslen (int (length xs)) (bf\<lparr>bs_data := Some ?d\<rparr>) r1 (s\<lparr>st_parm := p'\<rparr>)
         else Some (if bs_slen r1 = orslen then BSTR_ERR else BSTR_OK, r1, s\<lparr>st_parm := p', st_isEOF := True, st_buff := Some (bf\<lparr>bs_data := Some ?d, bs_slen := 0\<rparr>)\<rparr>))"
      unfolding read_loop.simps [of rd mem "int m" k] sl ci Let_def prems(6) using r1(1) d(1) False l(2) p'(1) mc by (simp add: xs_def)
    show ?thesis
    proof (cases "xs = []")
      case True
      then have t: "?t = []" using l(1) by (simp add: xs_def)
      let ?s = "s\<lparr>st_parm := p', st_isEOF := True, st_buff := Some (bf\<lparr>bs_data := Some ?d, bs_slen := 0\<rparr>)\<rparr>"
      have "stream_has content ?s []" using stream_hasI [OF _ _ _ mx, of ?s "bf\<lparr>bs_data := Some ?d, bs_slen := 0\<rparr>" "[]" content] bf1 True prems(6) p'(2) t
        by (simp add: buffered_def)
      then show ?thesis using u True r1(2) sl1 t False prems(8) by (auto simp: took_def)
    next
      case ne: False
      have t: "?t = xs @ content p'" using p'(2) by (simp add: xs_def)
      have "2 * (m - length (A @ bs)) + (if xs = [] then 1 else 0) < 2 * (m - length A) + (if bs = [] then 1 else 0)"
        using ne False by (cases bs) auto
      moreover have "int mx < bs_mlen (bf\<lparr>bs_data := Some ?d\<rparr>)" "length xs < 2 ^ 28" "length (A @ bs) < m" "orslen \<le> int (length (A @ bs))"
        using prems(3,8) lx(1) mx(2) False by auto
      moreover have "st_maxBuffSz (s\<lparr>st_parm := p'\<rparr>) = int mx" "st_isEOF (s\<lparr>st_parm := p'\<rparr>) \<longrightarrow> content (st_parm (s\<lparr>st_parm := p'\<rparr>)) = []"
        using prems(6,7) p'(2) by auto
      ultimately have "took content BSTR_OK ((A @ bs) @ take (m - length (A @ bs)) (xs @ content p')) (drop (m - length (A @ bs)) (xs @ content p'))
          (read_loop rd mem (int m) (Suc k) orslen (int (length xs)) (bf\<lparr>bs_data := Some ?d\<rparr>) r1 (s\<lparr>st_parm := p'\<rparr>))"
        using less.hyps [OF _ holds_opened [OF r1(2)] bf1, of "s\<lparr>st_parm := p'\<rparr>" "Suc k"] ne by simp
      moreover have "(A @ bs) @ take (m - length (A @ bs)) (xs @ content p') = A @ take (m - length A) (bs @ ?t)"
        "drop (m - length (A @ bs)) (xs @ content p') = drop (m - length A) (bs @ ?t)" "?t \<noteq> []"
        using False ne unfolding t by simp_all
      ultimately show ?thesis using u ne by simp
    qed
  qed
qed

text \<open>With an empty buffer and room in the string the source is read directly.\<close>

lemma bsreada_direct:
  assumes rd: "fread_like rd content" and r: "opened r A" and b: "st_buff s = Some bf" "opened bf []" "st_maxBuffSz s = int n" "0 < n" "n < 2 ^ 28"
    "\<not> st_isEOF s" "int (length A + k) < bs_mlen r" "0 < k" "length A + k < 2 ^ 28"
  shows "if content (st_parm s) = [] then \<exists>s'. bsreada rd mem r s (int k) = Some (BSTR_ERR, r, s') \<and> stream_has content s' []
    else took content BSTR_OK (A @ take k (content (st_parm s))) (drop k (content (st_parm s))) (bsreada rd mem r s (int k))"
proof -
  let ?c = "content (st_parm s)"
  obtain d where d: "bs_data r = Some d" "starts d A" "bs_mlen r = int (length d)" "length d < 2 ^ 31" "bs_slen r = int (length A)"
    using r by (rule openedE)
  obtain q where q: "d = map Some A @ q" using d(2) by (auto simp: starts_def)
  obtain p' where p': "rd (st_parm s) k = (take k ?c, p')" "content p' = drop k ?c" using rd by (rule fread_likeE)
  define xs where "xs = take k ?c"
  have lx: "length xs \<le> k" "length A + length xs < length d" using b(7) d(3) by (auto simp: xs_def)
  have mc: "memcpy_at d (length A) xs = Some (map Some (A @ xs) @ drop (length xs) q)" using lx by (simp add: memcpy_at_def q)
  have w: "\<not> bad_header r" "bs_slen bf = 0" using opened_writable [OF r] b(2) by (auto elim: openedE)
  have ci: "c_int (int k + int (length A)) = int (length A + k)" using b(9) by (subst c_int_range) auto
  have run: "bsreada rd mem r s (int k) =
      (if xs = [] then Some (BSTR_ERR, r\<lparr>bs_data := Some (map Some (A @ xs) @ drop (length xs) q)\<rparr>, s\<lparr>st_parm := p', st_isEOF := True\<rparr>)
       else map_option (\<lambda>(_, r'). (0, r', s\<lparr>st_parm := p'\<rparr>)) (store r (Some (map Some (A @ xs) @ drop (length xs) q)) (int (length A) + int (length xs))))"
    using b(1,6-8) w d(1,5) ci p'(1) mc lx(1) by (simp add: bsreada_def Let_def xs_def [symmetric])
  show ?thesis
  proof (cases "xs = []")
    case True
    then have c: "?c = []" using b(8) by (simp add: xs_def)
    have "r\<lparr>bs_data := Some d\<rparr> = r" using d(1) by (cases r) simp
    moreover have "stream_has content (s\<lparr>st_parm := p', st_isEOF := True\<rparr>) []"
      using stream_hasI [of "s\<lparr>st_parm := p', st_isEOF := True\<rparr>" bf "[]" n content] b(1-5) p'(2) c by simp
    ultimately show ?thesis using run True c q by auto
  next
    case False
    have "starts (map Some (A @ xs) @ drop (length xs) q) (A @ xs)" by (auto simp: starts_def)
    then have "finished (A @ xs) (store r (Some (map Some (A @ xs) @ drop (length xs) q)) (int (length (A @ xs))))"
      using lx d(3,4) q by (intro store_starts) auto
    then obtain r' where "store r (Some (map Some (A @ xs) @ drop (length xs) q)) (int (length A) + int (length xs)) = Some (BSTR_OK, r')" "holds r' (A @ xs)"
      by (auto simp: finished_def)
    moreover have "stream_has content (s\<lparr>st_parm := p'\<rparr>) (drop k ?c)"
      using stream_hasI [of "s\<lparr>st_parm := p'\<rparr>" bf "[]" n content] b(1-6) p'(2) by simp
    moreover have "?c \<noteq> []" using False by (auto simp: xs_def)
    ultimately show ?thesis using run False by (auto simp: took_def xs_def BSTR_OK_def)
  qed
qed

text \<open>At the end of the stream the string may stay as it is.\<close>

lemma bsreada_opened:
  assumes rd: "fread_like rd content" and mem: "plenty mem" and r: "opened r A" and s: "stream_has content s t"
    and len: "0 < k" "length A + k < 2 ^ 28" "length t < 2 ^ 28"
  shows "took content (if t = [] then BSTR_ERR else BSTR_OK) (A @ take k t) (drop k t) (bsreada rd mem r s (int k))
    \<or> t = [] \<and> (\<exists>s'. bsreada rd mem r s (int k) = Some (BSTR_ERR, r, s') \<and> stream_has content s' [])"
proof -
  obtain bf bs n where b: "st_buff s = Some bf" "opened bf bs" "t = bs @ content (st_parm s)" "st_maxBuffSz s = int n" "0 < n" "n < 2 ^ 28"
    "st_isEOF s \<longrightarrow> content (st_parm s) = []" using s by (auto simp: stream_has_def)
  let ?c = "content (st_parm s)" and ?m = "length A + k"
  have sl: "bs_slen r = int (length A)" "bs_slen bf = int (length bs)" "\<not> bad_header r"
    using r b(2) opened_writable [OF r] by (auto elim: openedE)
  have ci: "c_int (int k + int (length A)) = int ?m" "c_int (int n + 1) = int n + 1" using len(2) b(6) by (subst c_int_range; simp)+
  consider (eof) "bs = []" "st_isEOF s" | (direct) "bs = []" "\<not> st_isEOF s" "int ?m < bs_mlen r" | (loop) "bs \<noteq> [] \<or> \<not> st_isEOF s \<and> bs_mlen r \<le> int ?m"
    by linarith
  then show ?thesis
  proof cases
    case eof
    then show ?thesis using b s sl ci len(1) by (auto simp: bsreada_def Let_def)
  next
    case direct
    then show ?thesis using bsreada_direct [OF rd r b(1) _ b(4-6) _ _ len(1,2)] b(2,3) by (auto split: if_splits)
  next
    case loop
    obtain bf0 where bf0: "balloc (mem 0) bf (int n + 1) = Some (BSTR_OK, bf0)" "opened bf0 bs" "int n + 1 \<le> bs_mlen bf0"
      using balloc_opened [OF b(2), of "int n + 1" "mem 0"] b(5,6) mem by (auto simp: plenty_def)
    have "bf0\<lparr>bs_slen := int (length bs)\<rparr> = bf0" using bf0(2) by (auto elim!: openedE)
    then have bu: "buffered bf0 bs" using bf0(2) by (simp add: buffered_def)
    have "bsreada rd mem r s (int k) = read_loop rd mem (int ?m) 1 (int (length A)) (int (length bs)) bf0 r s"
      using loop b(1,4) sl ci bf0(1) len(1) by (auto simp: bsreada_def Let_def)
    then show ?thesis using read_loop_took [OF rd mem b(5,6) len(2) r bu _ _ _ b(4,7), of "int (length A)" 1] bf0(3) b(3) len by simp
  qed
qed

lemma bsreada_took:
  assumes "fread_like rd content" "plenty mem" "holds r A" "stream_has content s t" "0 < k" "length A + k < 2 ^ 28" "length t < 2 ^ 28"
  shows "took content (if t = [] then BSTR_ERR else BSTR_OK) (A @ take k t) (drop k t) (bsreada rd mem r s (int k))"
  using bsreada_opened [OF assms(1,2) holds_opened [OF assms(3)] assms(4-7)] assms(3) by (auto simp: took_def)

section \<open>Going back\<close>

lemma bsunread_puts:
  assumes s: "stream_has content s t" and v: "reads v ys" and len: "length t + length ys + 1 < 2 ^ 31" and m: "m_snap m"
  shows "\<exists>s'. bsunread mc m s v = Some (BSTR_OK, s') \<and> stream_has content s' (ys @ t)"
proof -
  obtain bf bs n where b: "st_buff s = Some bf" "opened bf bs" "t = bs @ content (st_parm s)" "st_maxBuffSz s = int n" "0 < n" "n < 2 ^ 28"
    "st_isEOF s \<longrightarrow> content (st_parm s) = []" using s by (auto simp: stream_has_def)
  have "finished (ys @ bs) (binsert mc m bf 0 (Sep v) 63)" using b(3) len by (intro binsert_opened [OF b(2) v _ m]) auto
  then obtain bf' where bf': "binsert mc m bf 0 (Sep v) 63 = Some (BSTR_OK, bf')" "holds bf' (ys @ bs)" by (auto simp: finished_def)
  have "stream_has content (s\<lparr>st_buff := Some bf'\<rparr>) ((ys @ bs) @ content (st_parm s))"
    using stream_hasI [OF _ holds_opened [OF bf'(2)] _ b(5,6), of "s\<lparr>st_buff := Some bf'\<rparr>" content] b(4,7) by simp
  then show ?thesis using bf'(1) b(1,3) by (auto simp: bsunread_def)
qed

text \<open>At the end of a stream there is nothing left.\<close>

lemma bseof_end:
  assumes "stream_has content s t"
  shows "\<exists>e. bseof s = Some e \<and> (e \<longrightarrow> t = [])"
proof -
  obtain bf bs where b: "st_buff s = Some bf" "opened bf bs" "t = bs @ content (st_parm s)" "st_isEOF s \<longrightarrow> content (st_parm s) = []"
    using assms by (auto simp: stream_has_def)
  have "bs_slen bf = int (length bs)" using b(2) by (rule openedE)
  then show ?thesis using b by (auto simp: bseof_def)
qed

lemma bspeek_shows:
  assumes "stream_has content s t" "holds r A" "length t < 2 ^ 30" "m_snap m"
  shows "\<exists>bs. finished bs (bspeek m r s) \<and> t = bs @ content (st_parm s)"
proof -
  obtain bf bs where b: "st_buff s = Some bf" "opened bf bs" "t = bs @ content (st_parm s)" using assms(1) by (auto simp: stream_has_def)
  obtain d where "bs_data bf = Some d" "starts d bs" "bs_slen bf = int (length bs)" using b(2) by (rule openedE)
  then have "reads bf bs" using starts_read [of d bs 0 "length bs"] by (simp add: reads_def)
  moreover have "length bs < 2 ^ 30" using b(3) assms(3) by simp
  ultimately show ?thesis using bassign_edited [OF assms(2) _ _ assms(4)] b(1,3) by (auto simp: bspeek_def)
qed

section \<open>Sequences of operations\<close>

datatype stream_op = ReadLine byte | Read nat | Unread "byte list"

fun stream_do :: "'p bNread \<Rightarrow> (nat \<Rightarrow> bmem) \<Rightarrow> stream_op \<Rightarrow> bstr \<Rightarrow> 'p bStream \<Rightarrow> (int \<times> bstr \<times> 'p bStream) option" where
  "stream_do rd mem (ReadLine c) r s = bsreadlna rd mem r s c"
| "stream_do rd mem (Read k) r s = bsreada rd mem r s (int k)"
| "stream_do rd mem (Unread ys) r s = map_option (\<lambda>(rc, s'). (rc, r, s')) (bsunread (mem 0) (mem 0) s (part_of (map Some ys) 0 (int (length ys))))"

fun queue_do :: "stream_op \<Rightarrow> byte list \<times> byte list \<Rightarrow> byte list \<times> byte list" where
  "queue_do (ReadLine c) (got, t) = (got @ line (\<lambda>x. x = c) t, after_line (\<lambda>x. x = c) t)"
| "queue_do (Read k) (got, t) = (got @ take k t, drop k t)"
| "queue_do (Unread ys) (got, t) = (got, ys @ t)"

fun cost :: "stream_op \<Rightarrow> nat" where
  "cost (ReadLine c) = 0" | "cost (Read k) = k" | "cost (Unread ys) = length ys"

fun stream_run :: "'p bNread \<Rightarrow> (nat \<Rightarrow> bmem) \<Rightarrow> stream_op list \<Rightarrow> bstr \<Rightarrow> 'p bStream \<Rightarrow> (bstr \<times> 'p bStream) option" where
  "stream_run rd mem [] r s = Some (r, s)"
| "stream_run rd mem (op # ops) r s = stream_do rd mem op r s \<bind> (\<lambda>(rc, r', s'). stream_run rd mem ops r' s')"

lemma line_length: "length (line P t) + length (after_line P t) = length t"
  using arg_cong [OF line_split, of length P t] by simp

lemma stream_step:
  assumes rd: "fread_like rd content" and mem: "plenty mem" and r: "holds r A" and s: "stream_has content s t"
    and len: "length A + length t + cost op < 2 ^ 28" "op \<noteq> Read 0"
  shows "\<exists>rc r' s'. stream_do rd mem op r s = Some (rc, r', s') \<and> holds r' (fst (queue_do op (A, t))) \<and> stream_has content s' (snd (queue_do op (A, t)))
    \<and> length (fst (queue_do op (A, t))) + length (snd (queue_do op (A, t))) \<le> length A + length t + cost op"
proof (cases op)
  case (ReadLine c)
  then show ?thesis using bsreadlna_took [OF rd mem r s, of c] len(1) line_length [of "\<lambda>x. x = c" t] by (auto simp: took_def)
next
  case (Read k)
  then show ?thesis using bsreada_took [OF rd mem r s, of k] len by (auto simp: took_def)
next
  case (Unread ys)
  have "reads (part_of (map Some ys) 0 (int (length ys))) ys" using read_prefix [of "length ys" ys "[]"] by (simp add: reads_def part_of_def)
  then show ?thesis using bsunread_puts [OF s, of _ ys "mem 0" "mem 0"] len(1) mem r Unread by (fastforce simp: plenty_def)
qed

text \<open>
  (C32) Streams refine queues of bytes: whatever sequence of reading lines, reading numbers of bytes and putting
  bytes back, the string gets what a queue would give and the stream keeps what it would keep,
  however the buffer and the blocks of the source cut it. Every operation returns.
\<close>

theorem stream_refines_queue:
  assumes "fread_like rd content" "plenty mem" "holds r A" "stream_has content s t"
    and "length A + length t + sum_list (map cost ops) < 2 ^ 28" "Read 0 \<notin> set ops"
  shows "\<exists>r' s'. stream_run rd mem ops r s = Some (r', s') \<and> holds r' (fst (fold queue_do ops (A, t))) \<and> stream_has content s' (snd (fold queue_do ops (A, t)))"
  using assms(3-6)
proof (induction ops arbitrary: r A s t)
  case (Cons op ops)
  have "length A + length t + cost op < 2 ^ 28" "op \<noteq> Read 0" using Cons.prems(3,4) by auto
  from stream_step [OF assms(1,2) Cons.prems(1,2) this] obtain rc r' s' where
    st: "stream_do rd mem op r s = Some (rc, r', s')" "holds r' (fst (queue_do op (A, t)))" "stream_has content s' (snd (queue_do op (A, t)))"
      "length (fst (queue_do op (A, t))) + length (snd (queue_do op (A, t))) \<le> length A + length t + cost op" by blast
  then show ?case using Cons.IH [OF st(2,3)] Cons.prems(3,4) by simp
qed simp

section \<open>Whole files\<close>

lemma reada_loop_all:
  assumes rd: "fread_like rd content" and mem: "plenty mem"
  shows "opened b A \<Longrightarrow> length A < n \<Longrightarrow> n \<le> length A + 1024 \<Longrightarrow> length A + length (content p) < 2 ^ 28 \<Longrightarrow>
    \<exists>b' p'. reada_loop rd mem k (int n) (int (length A)) b p = Some (BSTR_OK, b', p') \<and> holds b' (A @ content p) \<and> content p' = []"
proof (induction "length (content p)" arbitrary: b A n p k rule: less_induct)
  case less
  note prems = less.prems
  have ci: "c_int (int n + 1) = int n + 1" using prems(3,4) by (intro c_int_range) auto
  obtain b1 where b1: "balloc (mem k) b (int n + 1) = Some (BSTR_OK, b1)" "opened b1 A" "int n + 1 \<le> bs_mlen b1"
    using balloc_opened [OF prems(1), of "int n + 1" "mem k"] prems(3,4) mem by (auto simp: plenty_def)
  obtain d where d: "bs_data b1 = Some d" "starts d A" "bs_mlen b1 = int (length d)" "length d < 2 ^ 31" using b1(2) by (rule openedE)
  obtain q where q: "d = map Some A @ q" using d(2) by (auto simp: starts_def)
  define l where "l = n - length A"
  have l: "nat (int n - int (length A)) = l" "0 < l" using prems(2) by (auto simp: l_def)
  obtain p' where p': "rd p l = (take l (content p), p')" "content p' = drop l (content p)" using rd by (rule fread_likeE)
  define xs where "xs = take l (content p)"
  have lx: "length A + length xs \<le> n" "length A + length xs < length d" using prems(2) b1(3) d(3) by (auto simp: xs_def l_def)
  let ?d = "map Some (A @ xs) @ drop (length xs) q" and ?i = "int (length (A @ xs))"
  have mc: "memcpy_at d (length A) xs = Some ?d" using lx(2) by (simp add: memcpy_at_def q)
  let ?b = "b1\<lparr>bs_data := Some ?d, bs_slen := ?i\<rparr>"
  have ob: "opened ?b (A @ xs)" using lx d(3,4) q by (auto simp: opened_def starts_def)
  have ci2: "c_int (int (length A) + int (length xs)) = ?i" using lx(1) prems(3,4) by (subst c_int_range) auto
  have u: "reada_loop rd mem k (int n) (int (length A)) b p =
      (if ?i < int n then map_option (\<lambda>d'. (BSTR_OK, ?b\<lparr>bs_data := Some d'\<rparr>, p')) (poke ?d ?i 0)
       else reada_loop rd mem (Suc k) (c_int (int n + (if int n < BS_BUFF_SZ then int n else BS_BUFF_SZ))) ?i ?b p')"
    unfolding reada_loop.simps [of rd mem k "int n"] ci using b1(1) d(1) l(1) p'(1) mc ci2 by (simp add: xs_def [symmetric] Let_def)
  show ?case
  proof (cases "length (A @ xs) < n")
    case True
    then have "length (content p) < l" using lx(1) prems(2) by (auto simp: xs_def l_def)
    then have "xs = content p" "content p' = []" using p'(2) by (simp_all add: xs_def)
    then show ?thesis using opened_end [OF ob] u True by auto
  next
    case False
    define n' where "n' = n + (if n < 1024 then n else 1024)"
    have n: "length (A @ xs) = n" using False lx(1) by simp
    have t: "content p = xs @ content p'" using p'(2) by (simp add: xs_def)
    have n': "c_int (int n + (if int n < BS_BUFF_SZ then int n else BS_BUFF_SZ)) = int n'"
      using prems(3,4) by (subst c_int_range) (auto simp: n'_def BS_BUFF_SZ_def)
    have "length xs = l" using n by (simp add: l_def)
    then have "length (content p') < length (content p)" using t l(2) by simp
    moreover have "length (A @ xs) < n'" "n' \<le> length (A @ xs) + 1024" "length (A @ xs) + length (content p') < 2 ^ 28"
      using n prems(2,4) unfolding t by (auto simp: n'_def)
    ultimately show ?thesis using less.hyps [OF _ ob, of p' n' "Suc k"] u False n' t by simp
  qed
qed

lemma breada_all:
  assumes "fread_like rd content" "plenty mem" "holds b A" "length A + length (content p) < 2 ^ 28"
  shows "\<exists>b' p'. breada rd mem b p = Some (BSTR_OK, b', p') \<and> holds b' (A @ content p) \<and> content p' = []"
proof -
  have "c_int (int (length A) + 16) = int (length A + 16)" using assms(4) by (subst c_int_range) auto
  then show ?thesis using reada_loop_all [OF assms(1,2) holds_opened [OF assms(3)], of "length A + 16" p 0] assms(4)
    holds_fields(1) [OF assms(3)] opened_writable [OF holds_opened [OF assms(3)]] by (simp add: breada_def)
qed

text \<open>\<open>bread\<close> gives the whole content.\<close>

lemma bread_all:
  assumes "fread_like rd content" "plenty mem" "m_hdr m" "m_snap m" "length (content p) < 2 ^ 28"
  shows "\<exists>b p'. bread rd m mem p = Some (Some b, p') \<and> holds b (content p) \<and> content p' = []"
proof -
  obtain b where b: "bfromcstr m [] = Some (Some b)" "holds b []" using bfromcstr_spec [of "[]" m] assms(3,4) by auto
  from breada_all [OF assms(1,2) b(2), of p] show ?thesis using assms(5) b(1) by (auto simp: bread_def BSTR_OK_def)
qed

section \<open>Lines from a source of characters\<close>

definition fgetc_like :: "'p bNgetc \<Rightarrow> ('p \<Rightarrow> byte list) \<Rightarrow> bool" where
  "fgetc_like getc content \<longleftrightarrow> (\<forall>p. case content p of [] \<Rightarrow> fst (getc p) < 0 \<and> content (snd (getc p)) = []
     | x # t \<Rightarrow> fst (getc p) = uint x \<and> content (snd (getc p)) = t)"

text \<open>A character ends the line if its code is the terminator as a signed number.\<close>

lemma gets_room:
  assumes "buffered b A" "length A + 2 < 2 ^ 31" "m_snap m"
  shows "\<exists>b1. (if int (length A) > bs_mlen b - 2 then balloc m (b\<lparr>bs_slen := int (length A)\<rparr>) (c_int (int (length A) + 2)) else Some (BSTR_OK, b)) = Some (BSTR_OK, b1)
    \<and> buffered b1 A \<and> int (length A) \<le> bs_mlen b1 - 2 \<and> (if int (length A) > bs_mlen b - 2 then bs_mlen b1 - 2 else bs_mlen b - 2) = bs_mlen b1 - 2"
proof (cases "int (length A) > bs_mlen b - 2")
  case True
  have "c_int (int (length A) + 2) = int (length A) + 2" using assms(2) by (intro c_int_range) auto
  moreover obtain b1 where b1: "balloc m (b\<lparr>bs_slen := int (length A)\<rparr>) (int (length A) + 2) = Some (BSTR_OK, b1)" "opened b1 A" "int (length A) + 2 \<le> bs_mlen b1"
    using balloc_opened [of "b\<lparr>bs_slen := int (length A)\<rparr>" A "int (length A) + 2" m] assms by (auto simp: buffered_def)
  moreover have "b1\<lparr>bs_slen := int (length A)\<rparr> = b1" using b1(2) by (auto elim!: openedE)
  ultimately show ?thesis using True by (auto simp: buffered_def)
qed (use assms in auto)

lemma gets_loop_line:
  assumes gc: "fgetc_like getc content" and mem: "plenty mem"
  shows "buffered b A \<Longrightarrow> length A + length (content p) < 2 ^ 28 \<Longrightarrow>
    \<exists>b' p'. gets_loop getc mem trm k (int (length A)) (bs_mlen b - 2) b p = Some (if A = [] \<and> content p = [] then 1 else 0, b', p')
      \<and> holds b' (A @ line (\<lambda>x. uint x = sint trm) (content p)) \<and> content p' = after_line (\<lambda>x. uint x = sint trm) (content p)"
proof (induction "content p" arbitrary: b A p k)
  case Nil
  obtain d where d: "bs_data b = Some d" "starts d A" "bs_mlen b = int (length d)" "length A < length d" "length d < 2 ^ 31"
    using Nil.prems(1) by (auto simp: buffered_def elim: openedE)
  have g: "fst (getc p) < 0" "content (snd (getc p)) = []" using gc Nil.hyps [symmetric] by (auto simp: fgetc_like_def dest!: spec [of _ p])
  obtain b' where "store b (Some d) (int (length A)) = Some (BSTR_OK, b')" "holds b' A" using store_starts [of d A b] d by (auto simp: finished_def)
  then show ?case using g d(1) Nil.hyps [symmetric]
    by (subst gets_loop.simps) (auto simp: line_def after_line_def split: prod.splits)
next
  case (Cons x t)
  let ?P = "\<lambda>x. uint x = sint trm"
  note c = Cons.hyps(2) [symmetric]
  obtain p' where g: "getc p = (uint x, p')" "content p' = t" using gc c by (cases "getc p") (auto simp: fgetc_like_def dest!: spec [of _ p])
  obtain b1 where b1: "(if int (length A) > bs_mlen b - 2 then balloc (mem k) (b\<lparr>bs_slen := int (length A)\<rparr>) (c_int (int (length A) + 2)) else Some (BSTR_OK, b)) = Some (BSTR_OK, b1)"
    "buffered b1 A" "int (length A) \<le> bs_mlen b1 - 2" "(if int (length A) > bs_mlen b - 2 then bs_mlen b1 - 2 else bs_mlen b - 2) = bs_mlen b1 - 2"
    using gets_room [OF Cons.prems(1), of "mem k"] Cons.prems(2) mem by (auto simp: plenty_def)
  obtain d where d: "bs_data b1 = Some d" "starts d A" "bs_mlen b1 = int (length d)" "length d < 2 ^ 31" using b1(2) by (auto simp: buffered_def elim: openedE)
  obtain q where q: "d = map Some A @ q" using d(2) by (auto simp: starts_def)
  then have "2 \<le> length q" using d(3) b1(3) by simp
  then obtain y R where R: "d = map Some A @ y # R" "R \<noteq> []" using q by (cases q; cases "tl q") auto
  let ?d = "map Some (A @ [x]) @ R" and ?b = "b1\<lparr>bs_data := Some (map Some (A @ [x]) @ R)\<rparr>"
  have pk: "poke d (int (length A)) (word_of_int (uint x)) = Some ?d" by (simp add: poke_def R list_update_append)
  have bu: "buffered ?b (A @ [x])" using d(3,4) R by (auto simp: buffered_def opened_def starts_def)
  have u: "gets_loop getc mem trm k (int (length A)) (bs_mlen b - 2) b p =
      (if ?P x then map_option (\<lambda>(_, b'). (0, b', p')) (store ?b (Some ?d) (int (length (A @ [x]))))
       else gets_loop getc mem trm (Suc k) (int (length (A @ [x]))) (bs_mlen ?b - 2) ?b p')"
    unfolding gets_loop.simps [of getc mem trm k "int (length A)"] g(1) using b1(1,4) d(1) pk by (simp add: add.commute)
  show ?case
  proof (cases "?P x")
    case True
    have "starts ?d (A @ [x])" by (auto simp: starts_def)
    then have "finished (A @ [x]) (store ?b (Some ?d) (int (length (A @ [x]))))" using d(3,4) R by (intro store_starts) auto
    then show ?thesis using u True g(2) c by (auto simp: finished_def line_def after_line_def)
  next
    case False
    then show ?thesis using Cons.hyps(1) [OF g(2) [symmetric] bu, of "Suc k"] u g(2) Cons.prems(2) c by (auto simp: line_def after_line_def)
  qed
qed

text \<open>A terminator below 128 ends the line; one above is never found.\<close>

lemma signed_code:
  fixes c :: byte
  shows "c < 128 \<Longrightarrow> uint x = sint c \<longleftrightarrow> x = c" "128 \<le> c \<Longrightarrow> sint c < 0"
proof -
  have s: "sint c = (uint c + 128) mod 256 - 128" by (simp add: sint_uint signed_take_bit_eq_take_bit_shift take_bit_eq_mod)
  have u: "0 \<le> uint c" "uint c < 256" using uint_lt2p [of c] by simp_all
  show "uint x = sint c \<longleftrightarrow> x = c" if "c < 128"
  proof -
    have "uint c < 128" using that by (simp add: word_less_def)
    then have "sint c = uint c" using u(1) by (simp add: s)
    then show ?thesis by (simp only: word_uint_eq_iff)
  qed
  show "sint c < 0" if "128 \<le> c"
  proof -
    have "128 \<le> uint c" using that by (simp add: word_le_def)
    then show ?thesis using u(2) unfolding s by presburger
  qed
qed

lemma bgetsa_until:
  assumes "fgetc_like getc content" "plenty mem" "holds b A" "length A + length (content p) < 2 ^ 28"
  shows "\<exists>b' p'. bgetsa getc mem b p trm = Some (if A = [] \<and> content p = [] then 1 else 0, b', p')
    \<and> holds b' (A @ line (\<lambda>x. uint x = sint trm) (content p)) \<and> content p' = after_line (\<lambda>x. uint x = sint trm) (content p)"
proof -
  have sl: "bs_slen b = int (length A)" using holds_fields(1) [OF assms(3)] .
  then have "b\<lparr>bs_slen := int (length A)\<rparr> = b" by (cases b) simp
  then have "buffered b A" using holds_opened [OF assms(3)] by (simp add: buffered_def)
  from gets_loop_line [OF assms(1,2) this assms(4), of trm 0] show ?thesis
    using sl opened_writable [OF holds_opened [OF assms(3)]] by (simp add: bgetsa_def)
qed

lemma bgetsa_line:
  assumes "fgetc_like getc content" "plenty mem" "holds b A" "length A + length (content p) < 2 ^ 28" "trm < 128"
  shows "\<exists>b' p'. bgetsa getc mem b p trm = Some (if A = [] \<and> content p = [] then 1 else 0, b', p')
    \<and> holds b' (A @ line (\<lambda>x. x = trm) (content p)) \<and> content p' = after_line (\<lambda>x. x = trm) (content p)"
  using bgetsa_until [OF assms(1-4), of trm] unfolding signed_code(1) [OF assms(5)] .

lemma bgetsa_high_terminator:
  assumes "fgetc_like getc content" "plenty mem" "holds b A" "length A + length (content p) < 2 ^ 28" "128 \<le> trm"
  shows "\<exists>b' p'. bgetsa getc mem b p trm = Some (if A = [] \<and> content p = [] then 1 else 0, b', p') \<and> holds b' (A @ content p) \<and> content p' = []"
proof -
  have "uint x \<noteq> sint trm" for x :: byte using signed_code(2) [OF assms(5)] uint_ge_0 [of x] by linarith
  then have "line (\<lambda>x. uint x = sint trm) t = t \<and> after_line (\<lambda>x. uint x = sint trm) t = []" for t
    by (induction t) (auto simp: line_def after_line_def)
  then show ?thesis using bgetsa_until [OF assms(1-4), of trm] by simp
qed

section \<open>Errors that are lost\<close>

text \<open>
  A line that lies in the buffer is answered with \<open>BSTR_OK\<close> also when there is no memory for it: the string does
  not get it, and the stream keeps it.
\<close>

definition list_read :: "byte list bNread" where
  "list_read p n = (take n p, drop n p)"

lemma list_read_like: "fread_like list_read (\<lambda>p. p)"
  by (simp add: fread_like_def list_read_def)

definition demo_stream :: "byte list bStream" where
  "demo_stream = \<lparr>st_buff = Some demo_bstr, st_parm = [100, 101], st_isEOF = False, st_maxBuffSz = 2\<rparr>"

definition no_bmem :: bmem where
  "no_bmem = \<lparr>m_hdr = False, m_alloc = False, m_snap = False, m_tight = False\<rparr>"

lemma lost_line:
  "bsreadlna list_read (\<lambda>k. if k = 1 then no_bmem else demo_bmem) demo_bstr demo_stream 98 =
     Some (BSTR_OK, demo_bstr, demo_stream\<lparr>st_buff := Some (demo_bstr\<lparr>bs_data := Some [Some 97, Some 98, Some 99, Some 98]\<rparr>)\<rparr>)"
proof -
  have c: "c_int 3 = 3" "c_int 5 = 5" "c_int 6 = 6" "c_int 1 = 1" "c_int 28 = 28" "c_int 24 = 24" by (simp_all add: c_int_def)
  have s: "scan (\<lambda>x. x = 98) [Some 97, Some 98, Some 99, Some 98] 0 = Some 1" by (simp add: scan_def)
  have b: "balloc no_bmem demo_bstr 6 = Some (BSTR_ERR, demo_bstr)"
    by (simp add: balloc_def demo_bstr_def not_writable_def no_bmem_def snapUpSize_def c)
  have "bconcat no_bmem no_bmem demo_bstr (Sep (part_of [Some 97, Some 98, Some 99, Some 98] 0 2)) = Some (BSTR_ERR, demo_bstr)"
    using b by (simp add: bconcat_def op_view_def part_of_def bcopy_op_def inside_def after_alloc_def demo_bstr_def Let_def c)
  then show ?thesis using s
    by (simp add: bsreadlna_def read_until_def demo_stream_def bad_header_def demo_bstr_def balloc_def not_writable_def c poke_def Let_def numeral_3_eq_3)
qed

text \<open>
  Without memory for a block the buffer has already gone to the string, but the stream keeps it as well: it
  will be delivered a second time.
\<close>

lemma repeated_buffer:
  "\<exists>r s. bsreadlna list_read (\<lambda>k. if k = 2 then no_bmem else demo_bmem) demo_bstr demo_stream 122 = Some (BSTR_ERR, r, s)
     \<and> holds r [97, 98, 99, 97, 98, 99] \<and> stream_has (\<lambda>p. p) s [97, 98, 99, 100, 101]"
proof -
  define r where "r = \<lparr>bs_mlen = 8, bs_slen = 6, bs_data = Some [Some 97, Some 98, Some 99, Some 97, Some 98, Some 99, Some 0, None]\<rparr>"
  define bf where "bf = demo_bstr\<lparr>bs_data := Some [Some 97, Some 98, Some 99, Some 122]\<rparr>"
  have c: "c_int 3 = 3" "c_int 6 = 6" "c_int 7 = 7" "c_int 1 = 1" "c_int 28 = 28" "c_int 24 = 24" "c_int 9 = 9" "c_int 2 = 2" by (simp_all add: c_int_def)
  have s: "scan (\<lambda>x. x = 122) [Some 97, Some 98, Some 99, Some 122] 0 = Some 3" by (simp add: scan_def)
  have "balloc demo_bmem demo_bstr 7 = Some (BSTR_OK, \<lparr>bs_mlen = 8, bs_slen = 3, bs_data = Some [Some 97, Some 98, Some 99, Some 0, None, None, None, None]\<rparr>)"
    by (simp add: balloc_def demo_bstr_def not_writable_def demo_bmem_def snapUpSize_def c malloc_block_def poke_def numeral_eq_Suc)
  then have "bconcat demo_bmem demo_bmem demo_bstr (Sep (part_of [Some 97, Some 98, Some 99, Some 122] 0 3)) = Some (BSTR_OK, r)"
    by (simp add: bconcat_def op_view_def part_of_def bcopy_op_def inside_def after_alloc_def demo_bstr_def Let_def c r_def copy_from_def read_block_def memcpy_at_def store_def poke_def numeral_eq_Suc)
  then have u: "bsreadlna list_read (\<lambda>k. if k = 2 then no_bmem else demo_bmem) demo_bstr demo_stream 122 =
      until_loop list_read (\<lambda>k. if k = 2 then no_bmem else demo_bmem) (\<lambda>x. x = 122) 122 2 3 r (demo_stream\<lparr>st_buff := Some bf\<rparr>)"
    using s by (simp add: bsreadlna_def read_until_def demo_stream_def bad_header_def demo_bstr_def balloc_def not_writable_def c poke_def Let_def bf_def numeral_3_eq_3)
  have "balloc no_bmem r 9 = Some (BSTR_ERR, r)" by (simp add: balloc_def r_def not_writable_def no_bmem_def snapUpSize_def c)
  then have v: "until_loop list_read (\<lambda>k. if k = 2 then no_bmem else demo_bmem) (\<lambda>x. x = 122) 122 2 3 r (demo_stream\<lparr>st_buff := Some bf\<rparr>) =
      Some (BSTR_ERR, r, demo_stream\<lparr>st_buff := Some bf\<rparr>)"
    by (subst until_loop.simps) (simp add: demo_stream_def r_def c)
  have "holds r [97, 98, 99, 97, 98, 99]" by (simp add: r_def holds_iff)
  moreover have "opened bf [97, 98, 99]" by (simp add: bf_def demo_bstr_def opened_def starts_def)
  then have "stream_has (\<lambda>p. p) (demo_stream\<lparr>st_buff := Some bf\<rparr>) [97, 98, 99, 100, 101]"
    using stream_hasI [of "demo_stream\<lparr>st_buff := Some bf\<rparr>" bf "[97, 98, 99]" 2 "\<lambda>p. p"] by (simp add: demo_stream_def)
  ultimately show ?thesis using u v by auto
qed

lemma stream_refines_queue_witness:
  "\<exists>r' s'. stream_run list_read (\<lambda>k. demo_bmem) [ReadLine 98, Unread [120], Read 2, Read 5] demo_bstr demo_stream = Some (r', s')
    \<and> holds r' [97, 98, 99, 97, 98, 120, 99, 100, 101] \<and> stream_has (\<lambda>p. p) s' []"
proof -
  have h: "holds demo_bstr [97, 98, 99]" by (simp add: demo_bstr_def holds_def bstr_ok_def bytes_def numeral_3_eq_3)
  have "stream_has (\<lambda>p. p) demo_stream [97, 98, 99, 100, 101]"
    unfolding stream_has_def using holds_opened [OF h] by (intro exI [of _ demo_bstr] exI [of _ "[97, 98, 99]"] exI [of _ 2]) (simp add: demo_stream_def)
  moreover have "plenty (\<lambda>k. demo_bmem)" by (simp add: plenty_def demo_bmem_def)
  ultimately show ?thesis
    using stream_refines_queue [OF list_read_like, of "\<lambda>k. demo_bmem" demo_bstr "[97, 98, 99]" demo_stream "[97, 98, 99, 100, 101]" "[ReadLine 98, Unread [120], Read 2, Read 5]"] h
    by (simp add: line_def after_line_def)
qed

end
