(* ===== verification/Spec2Isabelle.thy ===== *)
theory Spec2Isabelle
  imports Chunking Hash_Jen Bitmap List_Sort Write_Back_Race Nf_In_Witness Sha_Pool Module_Witness
    Cache_Index Send_Witness Send_Main Hash_Algos Chunk_Store DArray Keyvalue Hashmap Pack_Cut Pack_Map
    Pack Pack_Sort Winn_Pack Tcpre Receive_Tcp Str_Cli Netlink_Relay Bstr_Format Bstr_Queue
begin

text \<open>
  TCP redundancy elimination: a verification of the programs under \<open>src/model\<close>.

  Three programs share one idea. The payload of a TCP stream is cut into chunks at positions
  that its content determines, every chunk is named by its SHA-1, and a chunk that was seen
  before need not be sent again. \<open>kernel_hash\<close> is the receiving kernel module: it keeps the
  chunks in memory and on disk. \<open>send_module\<close> is the sending one: it keeps only digests and
  plans which chunks of an outgoing packet to replace. \<open>c-skeleton\<close> is the user-space prototype
  \<open>pack.c\<close> with its containers (\<open>lcthw\<close>), which measures on a capture how much would be saved. Two
  smaller programs prepare the signalling between the sites: \<open>build_receive_tcp\<close> makes and
  recognises TCP packets that carry a digest, \<open>tcp_netlink\<close> carries texts from one kernel module
  over TCP to the other.

  \<^bold>\<open>Conventions.\<close> \<open>Prelude\<close> has the machine types (LP64, signed \<open>char\<close>), buffers with unwritten
  cells, \<open>memcpy\<close> and reads that have no result outside a block, and the arithmetic modulo a
  divisor of the word size. \<open>None\<close> (in the packer \<open>Fault\<close>) stands for a memory fault, an oops
  or \<open>BUG()\<close>; error codes are values. Every allocation, every answer of the kernel, and the SHA-1
  function are parameters; where a theorem needs something of them it says so (digests of 20
  bytes, fresh addresses, the law of a fifo). Interfaces between components are locales, and
  each is interpreted on the definitions of the component that provides it.

  \<^bold>\<open>Receiving module\<close> (\<open>kernel_hash\<close>).
  \<^item> \<open>Chunking\<close>: \<open>chunk.c\<close> and \<open>init_hash_parameters\<close>. The rolling hash in wrapping arithmetic is
    the polynomial hash modulo \<open>2^60\<close>; the scan puts exactly the reference cut points into the fifo
    (\<open>content_chunker\<close> is what a client relies on).
  \<^item> \<open>Hash_Jen\<close>: \<open>HASH_JEN\<close> and the choice of a lock. \<open>Bitmap\<close>: the first-fit search of
    \<open>bitmap.c\<close>. \<open>List_Sort\<close>: the list merge sort of \<open>sort.c\<close>.
  \<^item> \<open>Hash_Table\<close>, \<open>Hash_Table_Inv\<close>: \<open>hash_table.c\<close>, the items, insertion, lookup, the ageing
    state machine of \<open>bucket_clear_item\<close>, the flush. \<open>Write_Back\<close>: the three passes of \<open>wr_file\<close> and
    the read-back of one item.
  \<^item> \<open>Cache_System\<close>: the cache as a step relation over these operations, with the invariant that
    all its theorems rest on: in every reachable state the bytes of an item, in memory or in
    the file, have its key as SHA-1; the counters are exact; references are counted; timer, flush
    and write-back complete. A locked region of the code is one step. The steps assume one worker for
    each CPU, that the work of a bucket is not run by two CPUs at once, complete reads and writes,
    and fewer than \<open>2^31\<close> references. \<open>Write_Back_Race\<close> shows what a lookup between the first two
    passes does to the file. \<open>Cache_Witness\<close> has the concrete states.
  \<^item> \<open>Packet\<close>, \<open>Partition\<close>, \<open>Nf_In\<close>, \<open>Nf_In_Witness\<close>: the packet path of \<open>nf_in.c\<close>: queueing, batches,
    partition, lookup or insertion, read-back, re-injection. \<open>hand_hash\<close> is a step of the
    cache, so that the invariants of \<open>Cache_System\<close> hold along the path.
  \<^item> \<open>Sha_Pool\<close>: the counted per-CPU pool of \<open>sha.c\<close> under every interleaving of its locked regions.
  \<^item> \<open>Resources\<close>, \<open>Module_Init\<close>, \<open>Module_Witness\<close>: \<open>main.c\<close>, \<open>slab_cache.c\<close>, \<open>alloc_file.c\<close>: load with
    every error label, and unload.

  \<^bold>\<open>Sending module\<close> (\<open>send_module\<close>).
  \<^item> \<open>Send_Table\<close>: \<open>hash_table.c\<close>: digests with a count that the timer runs down; reachable
    tables, exact lookups, the lifetime of an item. \<open>Dedup_Index\<close> is the interface that this table
    and the receiver's (\<open>Cache_Index\<close>) both provide: a digest offered once is known.
  \<^item> \<open>Nf_Out\<close>, \<open>Send_Witness\<close>: \<open>nf_out.c\<close>: the hook, the partition and the plan of the new
    payload. The code computes the plan but does not copy the bytes. \<open>Send_Main\<close>: load and unload.
  \<^item> \<open>chunk.c\<close>, \<open>sha.c\<close>, \<open>hash_lock.h\<close> and \<open>HASH_JEN\<close> are copies of the receiver's; the
    model uses the same definitions.

  \<^bold>\<open>User space\<close> (\<open>c-skeleton\<close>).
  \<^item> \<open>Hash_Algos\<close>: the string hashes. \<open>Chunk_Store\<close>: \<open>chunk.c\<close>. \<open>DArray\<close>: \<open>darray.c\<close>, \<open>darray.h\<close>.
    \<open>Keyvalue\<close>: \<open>keyvalue.c\<close>. \<open>Hashmap\<close>: \<open>hashmap.c\<close>, on top of the array; \<open>hash_key\<close> is what
    it asks of the key functions, and \<open>Pack_Map\<close> provides it with those of \<open>pack.c\<close>.
  \<^item> \<open>Bstr\<close>, \<open>Bstr_Edit\<close>, \<open>Bstr_Search\<close>: the core of the string library \<open>bstrlib.c\<close>, which the hash map
    uses for its default keys. \<open>holds\<close> is the type of strings; editing keeps it and refines list
    operations, with operands that may point into the string itself; the search of \<open>binstr\<close>
    (a partial function) is shown to end and to find the first occurrence.
  \<^item> \<open>Bstr_Case\<close>, \<open>Bstr_Case_Search\<close>: case, trimming, and the comparisons and searches without case, as those
    of the converted strings. \<open>Bstr_Replace\<close>, \<open>Bstr_Replace_All\<close>: \<open>breplace\<close> and \<open>findreplaceengine\<close>, verified for
    every search that finds the next occurrence (\<open>string_search\<close>), which \<open>binstr\<close> and \<open>binstrcaseless\<close> do.
    \<open>Bstr_List\<close>, \<open>Bstr_Split\<close>: lists, splitting and joining; \<open>split_callback\<close> is what the splitting functions ask
    of their callback. \<open>Splits\<close> has the reference functions: the pieces between the occurrences, and joining.
  \<^item> \<open>Bstr_Format\<close>: formatted output, where what \<open>vsnprintf\<close> prints is a parameter. \<open>Bstr_Stream\<close>: reading of files
    and lines, and buffered streams, on sources that are parameters; \<open>Bstr_Queue\<close>: for a source that behaves like
    \<open>fread\<close> (\<open>fread_like\<close>) streams are queues of bytes.
  \<^item> \<open>Pack_Cut\<close>: the packer's scan, with signed remainders and a delay carried from packet to
    packet. \<open>Pack\<close>: chunks, packets, the capture and \<open>main\<close>: every byte of the stream is
    digested once and in order, and the index holds exactly the digests. \<open>Pack_Sort\<close>: the histogram.
  \<^item> \<open>Winnow\<close>: the choice of cut points in \<open>winn_pack.c\<close>; \<open>Winn_Pack\<close>: the rest of that program,
    on the definitions of \<open>Pack\<close> where it is a copy of \<open>pack.c\<close>, with the same account of bytes. \<open>Tcpre\<close>: the redundancy counter
    \<open>tcpre.c\<close> on the lines of a file: what it counts are true repetitions.

  \<^bold>\<open>Packet generator and receiver\<close> (\<open>build_receive_tcp\<close>).
  \<^item> \<open>Skb\<close>: socket buffers and the Internet checksum. What the code asks of the kernel's checksum
    routines is \<open>csum_laws\<close>; \<open>rfc1071\<close> satisfies it. \<open>Csum\<close>: \<open>csum.c\<close>, with software and with
    offloaded checksums. \<open>Mac_Table\<close>: the cache of link addresses and its expiry.
  \<^item> \<open>Build_Tcp\<close>: the headers and \<open>minit\<close>, with the references it takes. \<open>Receive_Tcp\<close>: the hook on
    the other side; the frame of a successful run is accepted and recognised.

  \<^bold>\<open>Netlink prototype\<close> (\<open>tcp_netlink\<close>).
  \<^item> \<open>Unp_Io\<close>, \<open>Str_Cli\<close>: the socket library: writing all bytes, reading lines, the interactive
    client, error messages. A system call is the list of its answers; a list that ends before the
    operation does leaves it waiting (\<open>None\<close>).
  \<^item> \<open>Netlink\<close>: both kernel modules and the handshake of both generations of programs (raw netlink
    sockets and libnl); \<open>ping_module\<close> is what a program relies on, and both modules provide it.
    \<open>Netlink_Relay\<close>: the forwarding of texts over TCP.

  \<^bold>\<open>Bounds.\<close> No definition uses fuel: loops are structural recursions or have a measure; the search
  of \<open>binstr\<close>, the loops of the replacement, the doubling in \<open>bscb\<close>, the growing sizes of the
  formatting and the loops that read from a source are partial functions that are proved to return. The
  packers' theorems are for streams below 800 (799) million bytes (the store of 50 million digests never
  moves), and while what waits for the next packet fits the 30000 bytes of \<open>remain_data\<close>
  (\<open>Chunk_Store\<close> shows that the growth code writes outside the block). Payloads have less than
  \<open>2^16\<close> bytes, as the IP length field says.

  \<^bold>\<open>Not modelled.\<close> The splitting of streams in \<open>bstrlib\<close> (\<open>bssplitscb\<close>, \<open>bssplitstrcb\<close>); \<open>lcthw/sha.c\<close> (ioctl requests to
  \<open>/dev/crypto\<close>); \<open>store_data\<close>, \<open>text_test\<close> and \<open>data_set\<close> of \<open>pack.c\<close> and \<open>winn_pack.c\<close>, which nothing live uses; the printing of statistics; the hooks of the
  receiver that only accept; the set-up of sockets and event loops in \<open>tcp_netlink\<close>, its wrappers that only
  end the process when a call fails, and its copy of the kernel's \<open>list.h\<close>; and the samples under \<open>test\<close>. Interleavings finer than a locked region and
  weak memory are outside the model.
\<close>

end
